(* ===== verification/Prelude.thy ===== *)
theory Prelude
  imports Main "HOL-Library.Word" "HOL-Library.Multiset" "HOL-Library.Monad_Syntax"
begin

text \<open>
  Shared vocabulary of the development: the machine integers and byte cells of the C
  code, the memory primitives the sources call (\<^verbatim>\<open>malloc\<close>, \<^verbatim>\<open>realloc\<close>, \<^verbatim>\<open>memcpy\<close>),
  ring arithmetic for the open-addressed tables, and list lemmas used by several
  components.  A computation whose C counterpart would have undefined behaviour (a write
  outside a buffer, a division by zero) is \<open>None\<close> in the \<open>option\<close> monad.
\<close>

unbundle bit_operations_syntax

named_theorems unat_facts \<open>reading machine words as natural numbers\<close>
named_theorems mem_simps \<open>lengths and reads of byte buffers\<close>
named_theorems ring_simps \<open>normal forms of indices modulo a table size\<close>

section \<open>Machine types\<close>

type_synonym size_t = "64 word"
type_synonym u8 = "8 word"
type_synonym u32 = "32 word"
type_synonym u64 = "64 word"

text \<open>One byte of memory: \<open>None\<close> is a byte that was allocated and never written.\<close>

type_synonym cell = "u8 option"
type_synonym buffer = "cell list"

definition SIZE_MAX :: size_t where
  "SIZE_MAX = 18446744073709551615"

text \<open>The largest \<^verbatim>\<open>int\<close>; one more is signed overflow, which is undefined.\<close>

definition INT_MAX :: int where "INT_MAX = 2 ^ 31 - 1"

lemma unat_SIZE_MAX [simp, unat_facts]: "unat SIZE_MAX = 2 ^ 64 - 1"
  by (simp add: SIZE_MAX_def)

text \<open>The overflow guard \<^verbatim>\<open>c > SIZE_MAX / m\<close> of the C code is exact.\<close>

lemma le_SIZE_MAX_div [unat_facts]:
  assumes "m \<noteq> 0"
  shows "c \<le> SIZE_MAX div m \<longleftrightarrow> unat c * unat m < 2 ^ 64"
proof -
  have "0 < unat m" using assms by (simp add: unat_gt_0)
  then show ?thesis
    by (auto simp: word_le_nat_alt unat_div less_eq_div_iff_mult_less_eq)
qed

lemma unat_lt_2_64 [unat_facts]: "unat (w :: size_t) < 2 ^ 64"
  using unsigned_less [of w] by simp

lemma unat_mult_no_wrap [unat_facts]:
  "unat (a :: size_t) * unat b < 2 ^ 64 \<Longrightarrow> unat (a * b) = unat a * unat b"
  by (subst unat_mult_lem [THEN iffD1]) auto

lemma unat_add_no_wrap [unat_facts]:
  "unat (a :: size_t) + unat b < 2 ^ 64 \<Longrightarrow> unat (a + b) = unat a + unat b"
  by (subst unat_add_lem [THEN iffD1]) auto

section \<open>Memory primitives\<close>

text \<open>
  \<open>malloc_buf n\<close> is a fresh block of \<open>n\<close> bytes; \<open>realloc_buf b n\<close> keeps the common
  prefix, as the C standard promises.  Whether an allocation succeeds is decided by the
  environment: the operations take that as a boolean argument.
\<close>

definition malloc_buf :: "nat \<Rightarrow> buffer" where
  "malloc_buf n = replicate n None"

definition realloc_buf :: "buffer \<Rightarrow> nat \<Rightarrow> buffer" where
  "realloc_buf b n = take n b @ replicate (n - length b) None"

text \<open>\<open>mem_write b off bs\<close> is \<^verbatim>\<open>memcpy(b + off, bs, |bs|)\<close>; outside the block it is undefined.\<close>

definition mem_write :: "buffer \<Rightarrow> nat \<Rightarrow> u8 list \<Rightarrow> buffer option" where
  "mem_write b off bs =
     (if off + length bs \<le> length b
      then Some (take off b @ map Some bs @ drop (off + length bs) b) else None)"

text \<open>\<open>mem_copy b off src n\<close> copies the first \<open>n\<close> bytes of \<open>src\<close>, which must have that many.\<close>

definition mem_copy :: "buffer \<Rightarrow> nat \<Rightarrow> u8 list \<Rightarrow> nat \<Rightarrow> buffer option" where
  "mem_copy b off src n = (if length src < n then None else mem_write b off (take n src))"

definition mem_read :: "buffer \<Rightarrow> nat \<Rightarrow> nat \<Rightarrow> buffer option" where
  "mem_read b off n = (if off + n \<le> length b then Some (take n (drop off b)) else None)"

text \<open>The \<open>i\<close>-th block of \<open>n\<close> bytes of a buffer.\<close>

definition chunk :: "nat \<Rightarrow> buffer \<Rightarrow> nat \<Rightarrow> buffer" where
  "chunk n b i = take n (drop (i * n) b)"

lemma length_malloc_buf [simp, mem_simps]: "length (malloc_buf n) = n"
  by (simp add: malloc_buf_def)

lemma length_realloc_buf [simp, mem_simps]: "length (realloc_buf b n) = n"
  by (simp add: realloc_buf_def)

lemma mem_write_eq_None [simp]: "mem_write b off bs = None \<longleftrightarrow> length b < off + length bs"
  by (auto simp: mem_write_def)

lemma mem_write_length: "mem_write b off bs = Some b' \<Longrightarrow> length b' = length b"
  by (auto simp: mem_write_def split: if_splits)

lemma mem_write_total: "off + length bs \<le> length b \<Longrightarrow> \<exists>b'. mem_write b off bs = Some b'"
  by (simp add: mem_write_def)

lemma mem_read_total [simp]: "off + n \<le> length b \<Longrightarrow> mem_read b off n = Some (take n (drop off b))"
  by (simp add: mem_read_def)

lemma take_drop_realloc_buf:
  assumes "off + k \<le> length b" "off + k \<le> n"
  shows "take k (drop off (realloc_buf b n)) = take k (drop off b)"
  using assms by (auto simp: realloc_buf_def take_drop min_def)

lemma take_drop_mem_write_before:
  assumes "mem_write b off bs = Some b'" "i + k \<le> off"
  shows "take k (drop i b') = take k (drop i b)"
  using assms by (auto simp: mem_write_def take_drop min_def split: if_splits)

lemma take_drop_mem_write_after:
  assumes "mem_write b off bs = Some b'" "off + length bs \<le> i"
  shows "take k (drop i b') = take k (drop i b)"
proof -
  from assms have b': "b' = take off b @ map Some bs @ drop (off + length bs) b"
    and le: "off + length bs \<le> length b"
    by (auto simp: mem_write_def split: if_splits)
  have "drop i b' = drop (i - off - length bs) (drop (off + length bs) b)"
    using assms(2) le by (simp add: b')
  also have "\<dots> = drop i b"
    using assms(2) by simp
  finally show ?thesis by simp
qed

lemma take_drop_mem_write_same:
  assumes "mem_write b off bs = Some b'"
  shows "take (length bs) (drop off b') = map Some bs"
  using assms by (auto simp: mem_write_def split: if_splits)

section \<open>Blocks of a buffer\<close>

lemma Suc_times_le: "i < j \<Longrightarrow> i * n + n \<le> j * (n :: nat)"
  using mult_le_mono1 [of "Suc i" j n] by (simp add: add.commute)

lemma length_chunk [mem_simps]: "i * n + n \<le> length b \<Longrightarrow> length (chunk n b i) = n"
  by (simp add: chunk_def)

lemma chunk_realloc_buf [mem_simps]:
  "i * n + n \<le> length b \<Longrightarrow> i * n + n \<le> m \<Longrightarrow> chunk n (realloc_buf b m) i = chunk n b i"
  by (simp add: chunk_def take_drop_realloc_buf)

lemma chunk_mem_write_other:
  assumes "mem_write b (j * n) bs = Some b'" "i < j \<or> j * n + length bs \<le> i * n"
  shows "chunk n b' i = chunk n b i"
  using assms(2)
proof
  assume "i < j"
  with assms(1) show ?thesis
    unfolding chunk_def by (intro take_drop_mem_write_before) (auto intro: Suc_times_le)
next
  assume "j * n + length bs \<le> i * n"
  with assms(1) show ?thesis
    unfolding chunk_def by (intro take_drop_mem_write_after)
qed

lemma chunk_mem_write_same:
  assumes "mem_write b (j * n) bs = Some b'" "length bs = n"
  shows "chunk n b' j = map Some bs"
  using take_drop_mem_write_same [OF assms(1)] assms(2) by (simp add: chunk_def)

text \<open>A write of several whole blocks, read back block by block.\<close>

lemma chunk_mem_write_within:
  assumes "mem_write b (j * n) bs = Some b'" "length bs = k * n" "i < k"
  shows "chunk n b' (j + i) = map Some (take n (drop (i * n) bs))"
proof -
  have le: "i * n + n \<le> k * n" using assms(3) by (rule Suc_times_le)
  have "take n (drop ((j + i) * n) b') = take n (drop (i * n) (drop (j * n) b'))"
    by (simp add: algebra_simps)
  also have "\<dots> = take n (drop (i * n) (take (k * n) (drop (j * n) b')))"
    using le by (simp add: drop_take min_def)
  also have "take (k * n) (drop (j * n) b') = map Some bs"
    using take_drop_mem_write_same [OF assms(1)] assms(2) by simp
  finally show ?thesis by (simp add: chunk_def take_map drop_map)
qed

lemma option_eqI: "(\<And>v. a = Some v \<longleftrightarrow> b = Some v) \<Longrightarrow> a = b"
  by (cases a; cases b) auto

lemma unat_two_power: "p < 64 \<Longrightarrow> unat (2 ^ p :: size_t) = 2 ^ p"
proof -
  assume "p < 64"
  then have "unat (of_nat (2 ^ p) :: size_t) = 2 ^ p"
    by (simp add: unsigned_of_nat take_bit_nat_eq_self_iff del: of_nat_power)
  then show ?thesis by simp
qed

end
