(* ===== verification/Sequence_Spec.thy ===== *)
theory Sequence_Spec
  imports Prelude
begin

text \<open>
  The contract of the sequence containers (dynamic array, singly and doubly linked
  list): an abstraction to a HOL list, an invariant, and a partial \<open>push_back\<close> that is
  \<open>None\<close> when the operation reports failure or does nothing.  Clients that fill a
  container element by element are verified once, here.
\<close>

locale sequence =
  fixes abs :: "'s \<Rightarrow> 'a list"
    and inv :: "'s \<Rightarrow> bool"
    and ok :: "'s \<Rightarrow> 'a \<Rightarrow> bool"
    and push_back :: "'s \<Rightarrow> 'a \<Rightarrow> 's option"
    and pop_back :: "'s \<Rightarrow> 's option"
  assumes push_back_abs: "inv s \<Longrightarrow> ok s x \<Longrightarrow> push_back s x = Some s' \<Longrightarrow> abs s' = abs s @ [x]"
    and push_back_inv: "inv s \<Longrightarrow> ok s x \<Longrightarrow> push_back s x = Some s' \<Longrightarrow> inv s'"
    and push_back_ok: "inv s \<Longrightarrow> ok s x \<Longrightarrow> push_back s x = Some s' \<Longrightarrow> ok s' y = ok s y"
    and pop_back_abs: "inv s \<Longrightarrow> abs s \<noteq> [] \<Longrightarrow> \<exists>s'. pop_back s = Some s' \<and> abs s' = butlast (abs s)"
    and pop_back_inv: "inv s \<Longrightarrow> pop_back s = Some s' \<Longrightarrow> inv s'"
begin

fun push_all :: "'s \<Rightarrow> 'a list \<Rightarrow> 's option" where
  "push_all s [] = Some s"
| "push_all s (x # xs) = (case push_back s x of None \<Rightarrow> None | Some s' \<Rightarrow> push_all s' xs)"

lemma push_all_abs:
  assumes "inv s" "\<And>x. x \<in> set xs \<Longrightarrow> ok s x" "push_all s xs = Some s'"
  shows "abs s' = abs s @ xs \<and> inv s'"
  using assms
proof (induction xs arbitrary: s)
  case Nil
  then show ?case by simp
next
  case (Cons x xs)
  then obtain t where t: "push_back s x = Some t" "push_all t xs = Some s'"
    by (auto split: option.splits)
  have okx: "ok s x" using Cons.prems(2) by simp
  note facts = push_back_abs [OF Cons.prems(1) okx t(1)] push_back_inv [OF Cons.prems(1) okx t(1)]
  have "\<And>y. y \<in> set xs \<Longrightarrow> ok t y"
    using Cons.prems(2) push_back_ok [OF Cons.prems(1) okx t(1)] by simp
  from Cons.IH [OF facts(2) this t(2)] show ?case by (simp add: facts(1))
qed

fun pop_many :: "nat \<Rightarrow> 's \<Rightarrow> 's option" where
  "pop_many 0 s = Some s"
| "pop_many (Suc n) s = (case pop_back s of None \<Rightarrow> None | Some s' \<Rightarrow> pop_many n s')"

lemma pop_many_abs:
  assumes "inv s" "n \<le> length (abs s)"
  shows "\<exists>s'. pop_many n s = Some s' \<and> inv s' \<and> abs s' = take (length (abs s) - n) (abs s)"
  using assms
proof (induction n arbitrary: s)
  case 0
  then show ?case by simp
next
  case (Suc n)
  then have ne: "abs s \<noteq> []" by auto
  with Suc.prems pop_back_abs obtain t where t: "pop_back s = Some t" "abs t = butlast (abs s)"
    by blast
  with Suc.prems pop_back_inv have "inv t" "n \<le> length (abs t)" by auto
  with Suc.IH obtain s' where s': "pop_many n t = Some s'" "inv s'"
    "abs s' = take (length (abs t) - n) (abs t)"
    by blast
  have "take (length (abs t) - n) (abs t) = take (length (abs s) - Suc n) (abs s)"
    using t(2) ne by (simp add: butlast_conv_take min_def)
  with s' t(1) show ?case by auto
qed

text \<open>Pushing a list and popping as many elements again restores the contents.\<close>

lemma push_all_pop_many:
  assumes "inv s" "\<And>x. x \<in> set xs \<Longrightarrow> ok s x" "push_all s xs = Some s'"
  shows "\<exists>s''. pop_many (length xs) s' = Some s'' \<and> inv s'' \<and> abs s'' = abs s"
proof -
  from push_all_abs [OF assms] have "abs s' = abs s @ xs" "inv s'" by auto
  with pop_many_abs [of s' "length xs"] show ?thesis by auto
qed

end

end
