(* ===== verification/Dynarray.thy ===== *)
theory Dynarray
  imports Sequence_Spec
begin

text \<open>
  The dynamic array of \<^verbatim>\<open>src/dynarray.c\<close> and \<^verbatim>\<open>include/dynarray.h\<close>.  The buffer is a
  list of byte cells, sizes and capacities are 64-bit words with C's wrap-around, every
  \<^verbatim>\<open>NULL\<close> guard is a \<open>None\<close> argument, and each allocating operation takes the outcome of
  its \<^verbatim>\<open>malloc\<close>/\<^verbatim>\<open>realloc\<close> as a boolean.  The outer \<open>option\<close> of a result is \<open>None\<close> exactly
  where the C code would have undefined behaviour.  The abstraction \<open>da_elems\<close> reads the
  array as the list of its elements.
\<close>

section \<open>Model\<close>

definition DYNARRAY_GROWTH_NUMERATOR :: size_t where "DYNARRAY_GROWTH_NUMERATOR = 3"
definition DYNARRAY_GROWTH_DENOMINATOR :: size_t where "DYNARRAY_GROWTH_DENOMINATOR = 2"
definition DYNARRAY_INITIAL_CAPACITY :: size_t where "DYNARRAY_INITIAL_CAPACITY = 8"
definition DYNARRAY_SHRINK_THRESHOLD :: size_t where "DYNARRAY_SHRINK_THRESHOLD = 4"

lemmas dynarray_consts =
  DYNARRAY_GROWTH_NUMERATOR_def DYNARRAY_GROWTH_DENOMINATOR_def
  DYNARRAY_INITIAL_CAPACITY_def DYNARRAY_SHRINK_THRESHOLD_def

record dynarray_t =
  da_data :: buffer
  da_size :: size_t
  da_capacity :: size_t
  da_element_size :: size_t

definition calculate_growth :: "size_t \<Rightarrow> size_t \<Rightarrow> size_t option" where
  "calculate_growth current element_size =
     (if current > SIZE_MAX div DYNARRAY_GROWTH_NUMERATOR then Some 0
      else
        let grown = (current * DYNARRAY_GROWTH_NUMERATOR) div DYNARRAY_GROWTH_DENOMINATOR;
            new_capacity = (if grown \<le> current then current + 1 else grown)
        in if element_size = 0 then None
           else if new_capacity > SIZE_MAX div element_size then Some 0
           else Some new_capacity)"

lemma calculate_growth_grows:
  assumes "calculate_growth c es = Some g" "g \<noteq> 0"
  shows "unat c < unat g \<and> unat g * unat es < 2 ^ 64 \<and> es \<noteq> 0"
proof -
  let ?q = "(c * 3) div 2"
  let ?n = "if ?q \<le> c then c + 1 else ?q"
  from assms have le: "\<not> c > SIZE_MAX div 3" and es: "es \<noteq> 0"
    and g: "g = ?n" and fit: "\<not> ?n > SIZE_MAX div es"
    by (auto simp: calculate_growth_def dynarray_consts Let_def split: if_splits)
  from le le_SIZE_MAX_div [of 3 c] have c3: "unat c * 3 < 2 ^ 64" by (simp add: not_less)
  then have "unat (c + 1) = unat c + 1"
    by (subst unat_add_no_wrap) auto
  then have "unat c < unat ?n"
    by (auto simp: word_le_nat_alt)
  moreover from fit es le_SIZE_MAX_div [of es ?n] have "unat ?n * unat es < 2 ^ 64"
    by (simp add: not_less)
  ultimately show ?thesis using g es by simp
qed

function growth_loop :: "size_t \<Rightarrow> size_t \<Rightarrow> size_t \<Rightarrow> size_t option" where
  "growth_loop new_capacity min_capacity element_size =
     (if new_capacity < min_capacity then
        (case calculate_growth new_capacity element_size of
           None \<Rightarrow> None
         | Some grown \<Rightarrow>
             if grown = 0 then Some min_capacity
             else growth_loop grown min_capacity element_size)
      else Some new_capacity)"
  by pat_completeness auto
termination
proof (relation "measure (\<lambda>(c, m, es). unat m - unat c)", goal_cases)
  case 1
  show ?case by simp
next
  case (2 c m es g)
  then have "unat c < unat g" "unat c < unat m"
    using calculate_growth_grows [of c es g] by (auto simp: word_less_nat_alt)
  then show ?case by simp
qed

declare growth_loop.simps [simp del]

definition calculate_growth_for :: "size_t \<Rightarrow> size_t \<Rightarrow> size_t \<Rightarrow> size_t option" where
  "calculate_growth_for current min_capacity element_size =
     (if element_size = 0 then None
      else if min_capacity > SIZE_MAX div element_size then Some 0
      else growth_loop current min_capacity element_size)"

definition dynarray_init ::
  "bool \<Rightarrow> dynarray_t option \<Rightarrow> size_t \<Rightarrow> size_t \<Rightarrow> bool \<times> dynarray_t option" where
  "dynarray_init malloc_ok arr element_size initial_capacity =
     (if arr = None \<or> element_size = 0 then (False, arr)
      else
        let cap = (if initial_capacity = 0 then DYNARRAY_INITIAL_CAPACITY else initial_capacity)
        in if cap > SIZE_MAX div element_size then (False, arr)
           else if \<not> malloc_ok then (False, arr)
           else (True, Some \<lparr>da_data = malloc_buf (unat (element_size * cap)), da_size = 0,
                             da_capacity = cap, da_element_size = element_size\<rparr>))"

definition dynarray_free :: "dynarray_t option \<Rightarrow> dynarray_t option" where
  "dynarray_free arr =
     (case arr of None \<Rightarrow> None
      | Some _ \<Rightarrow> Some \<lparr>da_data = [], da_size = 0, da_capacity = 0, da_element_size = 0\<rparr>)"

definition dynarray_reserve ::
  "bool \<Rightarrow> dynarray_t option \<Rightarrow> size_t \<Rightarrow> (bool \<times> dynarray_t option) option" where
  "dynarray_reserve realloc_ok arr new_capacity =
     (case arr of
        None \<Rightarrow> Some (False, None)
      | Some a \<Rightarrow>
          let n = (if new_capacity < da_size a then da_size a else new_capacity)
          in if n = da_capacity a then Some (True, Some a)
             else if da_element_size a = 0 then None
             else if n > SIZE_MAX div da_element_size a then Some (False, Some a)
             else if \<not> realloc_ok \<and> n > 0 then Some (False, Some a)
             else Some (True, Some (a\<lparr>da_data := realloc_buf (da_data a) (unat (n * da_element_size a)),
                                      da_capacity := n\<rparr>)))"

text \<open>Growing before an append: the common branch of \<^verbatim>\<open>dynarray_push\<close> and \<^verbatim>\<open>dynarray_push_n\<close>.\<close>

definition reserve_grown ::
  "bool \<Rightarrow> dynarray_t \<Rightarrow> size_t option \<Rightarrow> (bool \<times> dynarray_t) option" where
  "reserve_grown realloc_ok a new_capacity =
     do { n \<leftarrow> new_capacity;
          if n = 0 then Some (False, a)
          else do { r \<leftarrow> dynarray_reserve realloc_ok (Some a) n;
                    Some (fst r, the (snd r)) } }"

definition dynarray_push ::
  "bool \<Rightarrow> dynarray_t option \<Rightarrow> u8 list option \<Rightarrow> (bool \<times> dynarray_t option) option" where
  "dynarray_push realloc_ok arr element =
     (case arr of
        None \<Rightarrow> Some (False, None)
      | Some a \<Rightarrow>
        (case element of
           None \<Rightarrow> Some (False, Some a)
         | Some e \<Rightarrow>
           do { r \<leftarrow> (if da_size a \<ge> da_capacity a
                       then reserve_grown realloc_ok a
                              (calculate_growth (da_capacity a) (da_element_size a))
                       else Some (True, a));
                if \<not> fst r then Some (False, Some (snd r))
                else do { d \<leftarrow> mem_copy (da_data (snd r))
                                (unat (da_size (snd r) * da_element_size (snd r)))
                                e (unat (da_element_size (snd r)));
                          Some (True, Some ((snd r)\<lparr>da_data := d, da_size := da_size (snd r) + 1\<rparr>)) } }))"

definition dynarray_push_n ::
  "bool \<Rightarrow> dynarray_t option \<Rightarrow> u8 list option \<Rightarrow> size_t \<Rightarrow> (bool \<times> dynarray_t option) option" where
  "dynarray_push_n realloc_ok arr elements cnt =
     (case arr of
        None \<Rightarrow> Some (False, None)
      | Some a \<Rightarrow>
        (case elements of
           None \<Rightarrow> Some (False, Some a)
         | Some es \<Rightarrow>
           if cnt = 0 then Some (True, Some a)
           else if cnt > SIZE_MAX - da_size a then Some (False, Some a)
           else
             let required = da_size a + cnt
             in do { r \<leftarrow> (if required > da_capacity a
                            then reserve_grown realloc_ok a
                                   (calculate_growth_for (da_capacity a) required (da_element_size a))
                            else Some (True, a));
                     if \<not> fst r then Some (False, Some (snd r))
                     else do { d \<leftarrow> mem_copy (da_data (snd r))
                                     (unat (da_size (snd r) * da_element_size (snd r)))
                                     es (unat (cnt * da_element_size (snd r)));
                               Some (True, Some ((snd r)\<lparr>da_data := d, da_size := required\<rparr>)) } }))"

text \<open>
  \<^verbatim>\<open>dynarray_pop\<close> returns the bytes it copies to \<^verbatim>\<open>out_element\<close> (\<open>None\<close> when that pointer
  is \<^verbatim>\<open>NULL\<close> or nothing is popped).
\<close>

definition dynarray_pop ::
  "bool \<Rightarrow> dynarray_t option \<Rightarrow> bool \<Rightarrow> (bool \<times> buffer option \<times> dynarray_t option) option" where
  "dynarray_pop realloc_ok arr want_out =
     (case arr of
        None \<Rightarrow> Some (False, None, None)
      | Some a \<Rightarrow>
        if da_size a = 0 then Some (False, None, Some a)
        else
          let n = da_size a - 1; a1 = a\<lparr>da_size := n\<rparr>
          in do { out \<leftarrow> (if want_out
                           then map_option Some (mem_read (da_data a)
                                  (unat (n * da_element_size a)) (unat (da_element_size a)))
                           else Some None);
                  if da_capacity a > DYNARRAY_INITIAL_CAPACITY
                     \<and> n < da_capacity a div DYNARRAY_SHRINK_THRESHOLD
                  then
                    let half = da_capacity a div DYNARRAY_GROWTH_DENOMINATOR;
                        c = (if half < DYNARRAY_INITIAL_CAPACITY then DYNARRAY_INITIAL_CAPACITY else half)
                    in if realloc_ok
                       then Some (True, out, Some (a1\<lparr>da_data := realloc_buf (da_data a)
                                      (unat (c * da_element_size a)), da_capacity := c\<rparr>))
                       else Some (True, out, Some a1)
                  else Some (True, out, Some a1) })"

text \<open>A pointer into the buffer is its byte offset; \<open>None\<close> is \<^verbatim>\<open>NULL\<close>.\<close>

definition dynarray_get :: "dynarray_t option \<Rightarrow> size_t \<Rightarrow> size_t option" where
  "dynarray_get arr index =
     (case arr of None \<Rightarrow> None
      | Some a \<Rightarrow> if index \<ge> da_size a then None else Some (index * da_element_size a))"

definition dynarray_get_const :: "dynarray_t option \<Rightarrow> size_t \<Rightarrow> size_t option" where
  "dynarray_get_const arr index =
     (case arr of None \<Rightarrow> None
      | Some a \<Rightarrow> if index \<ge> da_size a then None else Some (index * da_element_size a))"

definition dynarray_set ::
  "dynarray_t option \<Rightarrow> size_t \<Rightarrow> u8 list option \<Rightarrow> (bool \<times> dynarray_t option) option" where
  "dynarray_set arr index element =
     (case arr of
        None \<Rightarrow> Some (False, None)
      | Some a \<Rightarrow>
        (case element of
           None \<Rightarrow> Some (False, Some a)
         | Some e \<Rightarrow>
           if index \<ge> da_size a then Some (False, Some a)
           else do { d \<leftarrow> mem_copy (da_data a) (unat (index * da_element_size a))
                            e (unat (da_element_size a));
                     Some (True, Some (a\<lparr>da_data := d\<rparr>)) }))"

definition dynarray_shrink_to_fit ::
  "bool \<Rightarrow> dynarray_t option \<Rightarrow> (bool \<times> dynarray_t option) option" where
  "dynarray_shrink_to_fit realloc_ok arr =
     (case arr of
        None \<Rightarrow> Some (False, None)
      | Some a \<Rightarrow>
          dynarray_reserve realloc_ok arr
            (if da_size a > DYNARRAY_INITIAL_CAPACITY then da_size a else DYNARRAY_INITIAL_CAPACITY))"

definition dynarray_clear :: "dynarray_t option \<Rightarrow> dynarray_t option" where
  "dynarray_clear arr = map_option (\<lambda>a. a\<lparr>da_size := 0\<rparr>) arr"

definition dynarray_size :: "dynarray_t option \<Rightarrow> size_t" where
  "dynarray_size arr = (case arr of None \<Rightarrow> 0 | Some a \<Rightarrow> da_size a)"

definition dynarray_capacity :: "dynarray_t option \<Rightarrow> size_t" where
  "dynarray_capacity arr = (case arr of None \<Rightarrow> 0 | Some a \<Rightarrow> da_capacity a)"

definition dynarray_is_empty :: "dynarray_t option \<Rightarrow> bool" where
  "dynarray_is_empty arr = (case arr of None \<Rightarrow> True | Some a \<Rightarrow> da_size a = 0)"

section \<open>Invariant and abstraction\<close>

definition da_inv :: "dynarray_t \<Rightarrow> bool" where
  "da_inv a \<longleftrightarrow> da_element_size a \<noteq> 0 \<and> da_size a \<le> da_capacity a
     \<and> unat (da_capacity a) * unat (da_element_size a) < 2 ^ 64
     \<and> length (da_data a) = unat (da_capacity a) * unat (da_element_size a)"

definition da_elems :: "dynarray_t \<Rightarrow> buffer list" where
  "da_elems a = map (chunk (unat (da_element_size a)) (da_data a)) [0..<unat (da_size a)]"

lemma length_da_elems [simp]: "length (da_elems a) = unat (da_size a)"
  by (simp add: da_elems_def)

lemma nth_da_elems [simp]:
  "i < unat (da_size a) \<Longrightarrow> da_elems a ! i = chunk (unat (da_element_size a)) (da_data a) i"
  by (simp add: da_elems_def)

lemma da_elems_eqI:
  assumes "unat (da_size a) = length xs"
    and "\<And>i. i < length xs \<Longrightarrow> chunk (unat (da_element_size a)) (da_data a) i = xs ! i"
  shows "da_elems a = xs"
  using assms by (auto intro: nth_equalityI)

lemma da_inv_offset:
  assumes "da_inv a" "unat i \<le> unat (da_capacity a)"
  shows "unat (i * da_element_size a) = unat i * unat (da_element_size a)"
proof (rule unat_mult_no_wrap)
  have "unat i * unat (da_element_size a) \<le> unat (da_capacity a) * unat (da_element_size a)"
    using assms(2) by (rule mult_le_mono1)
  also have "\<dots> < 2 ^ 64" using assms(1) by (simp add: da_inv_def)
  finally show "unat i * unat (da_element_size a) < 2 ^ 64" .
qed

lemma da_inv_block:
  assumes "da_inv a" "i < unat (da_capacity a)"
  shows "i * unat (da_element_size a) + unat (da_element_size a) \<le> length (da_data a)"
  using Suc_times_le [OF assms(2), of "unat (da_element_size a)"] assms(1)
  by (simp add: da_inv_def)

section \<open>Reserving\<close>

lemma dynarray_reserve_spec:
  assumes inv: "da_inv a"
  shows "\<exists>b a'. dynarray_reserve ok (Some a) n = Some (b, Some a') \<and> da_inv a'
           \<and> da_elems a' = da_elems a \<and> da_size a' = da_size a
           \<and> da_element_size a' = da_element_size a
           \<and> (if b then da_capacity a' = max n (da_size a) else a' = a)
           \<and> (b \<longleftrightarrow> max n (da_size a) = da_capacity a
               \<or> unat (max n (da_size a)) * unat (da_element_size a) < 2 ^ 64
                 \<and> (ok \<or> max n (da_size a) = 0))"
proof -
  let ?n = "if n < da_size a then da_size a else n"
  let ?es = "da_element_size a"
  have n: "?n = max n (da_size a)" by (auto simp: max_def)
  have es: "?es \<noteq> 0" using inv by (simp add: da_inv_def)
  have fit: "?n > SIZE_MAX div ?es \<longleftrightarrow> \<not> unat ?n * unat ?es < 2 ^ 64"
    using le_SIZE_MAX_div [OF es, of ?n] by (simp only: not_le [symmetric])
  show ?thesis
  proof (cases "?n = da_capacity a")
    case True
    with inv n show ?thesis by (auto simp: dynarray_reserve_def)
  next
    case False
    show ?thesis
    proof (cases "unat ?n * unat ?es < 2 ^ 64 \<and> (ok \<or> ?n = 0)")
      case fails: False
      with False fit es have "dynarray_reserve ok (Some a) n = Some (False, Some a)"
        by (auto simp: dynarray_reserve_def Let_def word_neq_0_conv)
      with fails False inv n show ?thesis by auto
    next
      case True
      let ?a = "a\<lparr>da_data := realloc_buf (da_data a) (unat (?n * ?es)), da_capacity := ?n\<rparr>"
      have eq: "dynarray_reserve ok (Some a) n = Some (True, Some ?a)"
        using False True fit es by (auto simp: dynarray_reserve_def Let_def)
      have len: "unat (?n * ?es) = unat ?n * unat ?es"
        using True by (intro unat_mult_no_wrap) blast
      have ge: "da_size a \<le> ?n" by auto
      have inv': "da_inv ?a"
        using True ge es len by (simp add: da_inv_def)
      have "da_elems ?a = da_elems a"
      proof (rule da_elems_eqI)
        fix i assume i: "i < length (da_elems a)"
        then have "i < unat (da_capacity a)" "i < unat ?n"
          using inv ge by (auto simp: da_inv_def word_le_nat_alt)
        then show "chunk (unat (da_element_size ?a)) (da_data ?a) i = da_elems a ! i"
          using i len da_inv_block [OF inv, of i] Suc_times_le [of i "unat ?n" "unat ?es"]
          by (simp add: chunk_realloc_buf)
      qed simp
      with eq inv' True n show ?thesis by auto
    qed
  qed
qed

lemma reserve_grown_spec:
  assumes inv: "da_inv a" and g: "c = Some g" "g = 0 \<or> da_capacity a < g"
  shows "\<exists>b a'. reserve_grown ok a c = Some (b, a') \<and> da_inv a' \<and> da_elems a' = da_elems a
           \<and> da_size a' = da_size a \<and> da_element_size a' = da_element_size a
           \<and> (if b then da_capacity a' = g else a' = a)
           \<and> (g \<noteq> 0 \<and> ok \<and> unat g * unat (da_element_size a) < 2 ^ 64 \<longrightarrow> b)"
proof (cases "g = 0")
  case True
  with inv g show ?thesis by (auto simp: reserve_grown_def intro: exI [of _ False])
next
  case False
  with g inv have "max g (da_size a) = g" by (auto simp: max_def da_inv_def)
  moreover obtain b a' where "dynarray_reserve ok (Some a) g = Some (b, Some a')" "da_inv a'"
    "da_elems a' = da_elems a" "da_size a' = da_size a" "da_element_size a' = da_element_size a"
    "if b then da_capacity a' = max g (da_size a) else a' = a"
    "b \<longleftrightarrow> max g (da_size a) = da_capacity a
      \<or> unat (max g (da_size a)) * unat (da_element_size a) < 2 ^ 64 \<and> (ok \<or> max g (da_size a) = 0)"
    using dynarray_reserve_spec [OF inv, of ok g] by blast
  ultimately show ?thesis using False g by (auto simp: reserve_grown_def)
qed

lemma calculate_growth_total:
  assumes "es \<noteq> 0"
  shows "\<exists>g. calculate_growth c es = Some g \<and> (g = 0 \<or> c < g)"
proof -
  have "calculate_growth c es \<noteq> None"
    using assms by (simp add: calculate_growth_def Let_def)
  then obtain g where g: "calculate_growth c es = Some g" by blast
  with calculate_growth_grows [OF g] show ?thesis
    by (auto simp: word_less_nat_alt)
qed

text \<open>How much headroom makes a growth step succeed: half the capacity plus one element.\<close>

definition can_grow :: "size_t \<Rightarrow> size_t \<Rightarrow> bool" where
  "can_grow c es \<longleftrightarrow> unat c * 3 < 2 ^ 64 \<and> (unat c + unat c div 2 + 1) * unat es < 2 ^ 64"

lemma calculate_growth_succeeds:
  assumes es: "es \<noteq> 0" and room: "can_grow c es"
  shows "\<exists>g. calculate_growth c es = Some g \<and> g \<noteq> 0"
proof -
  let ?q = "(c * 3) div 2" and ?n = "if (c * 3) div 2 \<le> c then c + 1 else (c * 3) div 2"
  have le: "\<not> c > SIZE_MAX div 3"
    using room le_SIZE_MAX_div [of 3 c] by (simp add: can_grow_def not_less)
  have "unat (c * 3) = unat c * 3"
    using room by (subst unat_mult_no_wrap) (auto simp: can_grow_def)
  moreover have "unat (c + 1) = unat c + 1"
    using room by (subst unat_add_no_wrap) (auto simp: can_grow_def)
  ultimately have n: "unat ?n \<le> unat c + unat c div 2 + 1" "0 < unat ?n"
    by (auto simp: word_le_nat_alt unat_div)
  have "unat ?n * unat es \<le> (unat c + unat c div 2 + 1) * unat es"
    using n by (intro mult_le_mono1)
  then have "\<not> ?n > SIZE_MAX div es"
    using room le_SIZE_MAX_div [OF es, of ?n] by (simp only: can_grow_def not_less) linarith
  with le es n(2) show ?thesis
    by (simp add: calculate_growth_def dynarray_consts Let_def unat_gt_0)
qed

lemma growth_loop_spec:
  assumes "es \<noteq> 0" "unat m * unat es < 2 ^ 64" "unat c * unat es < 2 ^ 64"
  shows "\<exists>g. growth_loop c m es = Some g \<and> m \<le> g \<and> c \<le> g \<and> unat g * unat es < 2 ^ 64"
  using assms
proof (induction c m es rule: growth_loop.induct)
  case (1 c m es)
  show ?case
  proof (cases "c < m")
    case False
    with "1.prems" show ?thesis by (simp add: growth_loop.simps [of c m es])
  next
    case True
    obtain g where g: "calculate_growth c es = Some g" "g = 0 \<or> c < g"
      using calculate_growth_total "1.prems"(1) by blast
    show ?thesis
    proof (cases "g = 0")
      case True
      with g \<open>c < m\<close> "1.prems" show ?thesis by (simp add: growth_loop.simps [of c m es])
    next
      case False
      with calculate_growth_grows [OF g(1)] have "unat g * unat es < 2 ^ 64" "c < g"
        by (auto simp: word_less_nat_alt)
      with "1.IH" [OF True g(1) False] "1.prems" obtain h where
        "growth_loop g m es = Some h" "m \<le> h" "g \<le> h" "unat h * unat es < 2 ^ 64"
        by blast
      with \<open>c < g\<close> g True False show ?thesis by (auto simp: growth_loop.simps [of c m es])
    qed
  qed
qed

section \<open>Appending\<close>

text \<open>Writing one element at the end of an array with room.\<close>

lemma da_append_elem:
  assumes inv: "da_inv a" and room: "da_size a < da_capacity a"
    and e: "length e = unat (da_element_size a)"
  shows "\<exists>d. mem_copy (da_data a) (unat (da_size a * da_element_size a)) e
                (unat (da_element_size a)) = Some d
           \<and> da_inv (a\<lparr>da_data := d, da_size := da_size a + 1\<rparr>)
           \<and> da_elems (a\<lparr>da_data := d, da_size := da_size a + 1\<rparr>) = da_elems a @ [map Some e]"
proof -
  let ?s = "unat (da_size a)" and ?es = "unat (da_element_size a)"
  have lt: "?s < unat (da_capacity a)" using room by (simp add: word_less_nat_alt)
  have off: "unat (da_size a * da_element_size a) = ?s * ?es"
    using da_inv_offset [OF inv] lt by simp
  have inc: "unat (da_size a + 1) = ?s + 1"
    using lt unat_lt_2_64 [of "da_capacity a"] by (subst unat_add_no_wrap) auto
  obtain d where d: "mem_write (da_data a) (?s * ?es) e = Some d"
    using da_inv_block [OF inv lt] e mem_write_total by metis
  let ?a = "a\<lparr>da_data := d, da_size := da_size a + 1\<rparr>"
  have "da_inv ?a"
    using inv lt inc mem_write_length [OF d] by (simp add: da_inv_def word_le_nat_alt)
  moreover have "da_elems ?a = da_elems a @ [map Some e]"
  proof (rule da_elems_eqI)
    fix i assume "i < length (da_elems a @ [map Some e])"
    then consider "i < ?s" | "i = ?s" by fastforce
    then show "chunk (unat (da_element_size ?a)) (da_data ?a) i = (da_elems a @ [map Some e]) ! i"
      by cases (use chunk_mem_write_other [OF d] chunk_mem_write_same [OF d] e in
                \<open>auto simp: nth_append\<close>)
  qed (simp add: inc)
  ultimately show ?thesis
    using d e off by (auto simp: mem_copy_def)
qed

theorem dynarray_push_spec:
  assumes inv: "da_inv a" and e: "length e = unat (da_element_size a)"
  shows "\<exists>b a'. dynarray_push ok (Some a) (Some e) = Some (b, Some a') \<and> da_inv a'
           \<and> da_element_size a' = da_element_size a
           \<and> (if b then da_elems a' = da_elems a @ [map Some e] else a' = a)
           \<and> (da_size a < da_capacity a \<or> ok \<and> can_grow (da_capacity a) (da_element_size a) \<longrightarrow> b)"
proof -
  let ?r = "if da_size a \<ge> da_capacity a
            then reserve_grown ok a (calculate_growth (da_capacity a) (da_element_size a))
            else Some (True, a)"
  have es: "da_element_size a \<noteq> 0" using inv by (simp add: da_inv_def)
  obtain b a1 where r: "?r = Some (b, a1)" "da_inv a1" "da_elems a1 = da_elems a"
    "da_element_size a1 = da_element_size a" "if b then da_size a1 < da_capacity a1 else a1 = a"
    "da_size a < da_capacity a \<or> ok \<and> can_grow (da_capacity a) (da_element_size a) \<longrightarrow> b"
  proof (cases "da_size a \<ge> da_capacity a")
    case True
    with inv have eq: "da_size a = da_capacity a" by (simp add: da_inv_def)
    obtain g where g: "calculate_growth (da_capacity a) (da_element_size a) = Some g"
        "g = 0 \<or> da_capacity a < g"
      using calculate_growth_total [OF es] by blast
    from reserve_grown_spec [OF inv g, of ok] obtain b a1 where
      r: "reserve_grown ok a (calculate_growth (da_capacity a) (da_element_size a)) = Some (b, a1)"
      "da_inv a1" "da_elems a1 = da_elems a" "da_size a1 = da_size a"
      "da_element_size a1 = da_element_size a" "if b then da_capacity a1 = g else a1 = a"
      "g \<noteq> 0 \<and> ok \<and> unat g * unat (da_element_size a) < 2 ^ 64 \<longrightarrow> b"
      by blast
    have "b \<longrightarrow> g \<noteq> 0" using r(1) g by (auto simp: reserve_grown_def)
    moreover have "ok \<and> can_grow (da_capacity a) (da_element_size a) \<longrightarrow> b"
      using calculate_growth_succeeds [OF es] g calculate_growth_grows [OF g(1)] r(7) by fastforce
    ultimately show ?thesis
      using r True g(2) eq by (intro that [of b a1]) (auto split: if_splits)
  next
    case False
    with inv that [of True a] show ?thesis by auto
  qed
  show ?thesis
  proof (cases b)
    case False
    with r show ?thesis by (auto simp: dynarray_push_def)
  next
    case True
    with r e da_append_elem [of a1 e] show ?thesis
      by (fastforce simp: dynarray_push_def)
  qed
qed

text \<open>The elements of a flat block of \<open>k\<close> elements of \<open>n\<close> bytes each.\<close>

definition blocks :: "nat \<Rightarrow> nat \<Rightarrow> u8 list \<Rightarrow> buffer list" where
  "blocks n k bs = map (\<lambda>i. map Some (take n (drop (i * n) bs))) [0..<k]"

lemma da_append_blocks:
  assumes inv: "da_inv a" and req: "unat (da_size a) + unat cnt \<le> unat (da_capacity a)"
    and bs: "length bs = unat cnt * unat (da_element_size a)"
  shows "\<exists>d. mem_copy (da_data a) (unat (da_size a * da_element_size a)) bs
                (unat (cnt * da_element_size a)) = Some d
           \<and> da_inv (a\<lparr>da_data := d, da_size := da_size a + cnt\<rparr>)
           \<and> da_elems (a\<lparr>da_data := d, da_size := da_size a + cnt\<rparr>)
               = da_elems a @ blocks (unat (da_element_size a)) (unat cnt) bs"
proof -
  let ?s = "unat (da_size a)" and ?es = "unat (da_element_size a)" and ?k = "unat cnt"
  have off: "unat (da_size a * da_element_size a) = ?s * ?es"
    and cnt: "unat (cnt * da_element_size a) = ?k * ?es"
    using da_inv_offset [OF inv] req by auto
  have inc: "unat (da_size a + cnt) = ?s + ?k"
    using req unat_lt_2_64 [of "da_capacity a"] by (intro unat_add_no_wrap) linarith
  have "?s * ?es + ?k * ?es \<le> unat (da_capacity a) * ?es"
    using mult_le_mono1 [OF req, of ?es] by (simp add: add_mult_distrib)
  then obtain d where d: "mem_write (da_data a) (?s * ?es) bs = Some d"
    using inv bs mem_write_total by (metis da_inv_def)
  let ?a = "a\<lparr>da_data := d, da_size := da_size a + cnt\<rparr>"
  have "da_inv ?a"
    using inv req inc mem_write_length [OF d] by (simp add: da_inv_def word_le_nat_alt)
  moreover have "da_elems ?a = da_elems a @ blocks ?es ?k bs"
  proof (rule da_elems_eqI)
    fix i assume "i < length (da_elems a @ blocks ?es ?k bs)"
    then consider "i < ?s" | j where "i = ?s + j" "j < ?k"
      by (auto simp: blocks_def) (metis le_Suc_ex less_diff_conv2 linorder_not_less nat_add_left_cancel_less)
    then show "chunk (unat (da_element_size ?a)) (da_data ?a) i
                 = (da_elems a @ blocks ?es ?k bs) ! i"
      by cases (use chunk_mem_write_other [OF d] chunk_mem_write_within [OF d bs] in
                \<open>auto simp: nth_append blocks_def\<close>)
  qed (simp add: inc blocks_def)
  ultimately show ?thesis
    using d bs off cnt by (auto simp: mem_copy_def)
qed

theorem dynarray_push_n_spec:
  assumes inv: "da_inv a" and bs: "length bs = unat cnt * unat (da_element_size a)"
  shows "\<exists>b a'. dynarray_push_n ok (Some a) (Some bs) cnt = Some (b, Some a') \<and> da_inv a'
           \<and> (if b then da_elems a' = da_elems a @ blocks (unat (da_element_size a)) (unat cnt) bs
               else a' = a)"
proof (cases "cnt = 0 \<or> cnt > SIZE_MAX - da_size a")
  case True
  with inv show ?thesis
    by (auto simp: dynarray_push_n_def blocks_def intro: exI [of _ True] exI [of _ False])
next
  case False
  let ?req = "da_size a + cnt"
  let ?c = "calculate_growth_for (da_capacity a) ?req (da_element_size a)"
  let ?r = "if ?req > da_capacity a then reserve_grown ok a ?c else Some (True, a)"
  have es: "da_element_size a \<noteq> 0" using inv by (simp add: da_inv_def)
  have "unat cnt \<le> unat (SIZE_MAX - da_size a)" using False by (simp add: word_le_nat_alt [symmetric] not_less)
  also have "\<dots> = 2 ^ 64 - 1 - unat (da_size a)"
    using unat_lt_2_64 [of "da_size a"] by (subst unat_sub) (auto simp: word_le_nat_alt)
  finally have req: "unat ?req = unat (da_size a) + unat cnt"
    using unat_lt_2_64 [of "da_size a"] by (intro unat_add_no_wrap) auto
  obtain b a1 where r: "?r = Some (b, a1)" "da_inv a1" "da_elems a1 = da_elems a"
    "da_size a1 = da_size a" "da_element_size a1 = da_element_size a"
    "if b then ?req \<le> da_capacity a1 else a1 = a"
  proof (cases "?req > da_capacity a")
    case True
    obtain g where g: "?c = Some g" "g = 0 \<or> da_capacity a < g \<and> ?req \<le> g"
    proof (cases "?req > SIZE_MAX div da_element_size a")
      case True
      with es that [of 0] show ?thesis by (simp add: calculate_growth_for_def)
    next
      case False
      then have "unat ?req * unat (da_element_size a) < 2 ^ 64"
        using le_SIZE_MAX_div [OF es, of ?req] by (simp add: not_less)
      moreover have "unat (da_capacity a) * unat (da_element_size a) < 2 ^ 64"
        using inv by (simp add: da_inv_def)
      ultimately obtain g where "growth_loop (da_capacity a) ?req (da_element_size a) = Some g"
        "?req \<le> g" "da_capacity a \<le> g"
        using growth_loop_spec [OF es, of ?req "da_capacity a"] by blast
      with True have "da_capacity a < g" by simp
      with \<open>growth_loop _ _ _ = Some g\<close> \<open>?req \<le> g\<close> es False that [of g] show ?thesis
        by (auto simp: calculate_growth_for_def)
    qed
    from g reserve_grown_spec [OF inv g(1), of ok] obtain b a1 where
      r: "reserve_grown ok a ?c = Some (b, a1)"
      "da_inv a1" "da_elems a1 = da_elems a" "da_size a1 = da_size a"
      "da_element_size a1 = da_element_size a" "if b then da_capacity a1 = g else a1 = a"
      by blast
    moreover have "b \<Longrightarrow> g \<noteq> 0" using r(1) g by (auto simp: reserve_grown_def)
    ultimately show ?thesis using that [of b a1] True g by (auto split: if_splits)
  next
    case False
    with inv that [of True a] show ?thesis by auto
  qed
  show ?thesis
  proof (cases b)
    case b: False
    with r False show ?thesis
      by (auto simp: dynarray_push_n_def Let_def intro!: exI [of _ False])
  next
    case b: True
    with r req have "unat (da_size a1) + unat cnt \<le> unat (da_capacity a1)"
      by (simp add: word_le_nat_alt)
    with da_append_blocks [OF r(2) this, of bs] bs r b False show ?thesis
      by (fastforce simp: dynarray_push_n_def Let_def)
  qed
qed

section \<open>Removing, reading and writing\<close>

lemma da_elems_shrink:
  assumes "da_size a \<noteq> 0"
  shows "da_elems (a\<lparr>da_size := da_size a - 1\<rparr>) = butlast (da_elems a)"
proof -
  have "unat (da_size a - 1) = unat (da_size a) - 1"
    using assms by (simp add: unat_sub word_le_nat_alt unat_gt_0 Suc_le_eq)
  then show ?thesis
    by (intro da_elems_eqI) (auto simp: nth_butlast)
qed

lemma da_elems_realloc:
  assumes inv: "da_inv a" and c: "da_size a \<le> c" "c \<le> da_capacity a"
  shows "da_inv (a\<lparr>da_data := realloc_buf (da_data a) (unat (c * da_element_size a)), da_capacity := c\<rparr>)"
    and "da_elems (a\<lparr>da_data := realloc_buf (da_data a) (unat (c * da_element_size a)), da_capacity := c\<rparr>)
           = da_elems a"
proof -
  let ?es = "unat (da_element_size a)"
  let ?a = "a\<lparr>da_data := realloc_buf (da_data a) (unat (c * da_element_size a)), da_capacity := c\<rparr>"
  have off: "unat (c * da_element_size a) = unat c * ?es"
    using da_inv_offset [OF inv] c by (simp add: word_le_nat_alt)
  have "unat c * ?es \<le> unat (da_capacity a) * ?es"
    using c by (intro mult_le_mono1) (simp add: word_le_nat_alt)
  also have "\<dots> < 2 ^ 64" using inv by (simp add: da_inv_def)
  finally have "unat c * ?es < 2 ^ 64" .
  with inv c off show "da_inv ?a" by (simp add: da_inv_def)
  show "da_elems ?a = da_elems a"
  proof (rule da_elems_eqI)
    fix i assume i: "i < length (da_elems a)"
    then have "i < unat (da_capacity a)" "i < unat c"
      using c by (auto simp: word_le_nat_alt)
    then show "chunk (unat (da_element_size ?a)) (da_data ?a) i = da_elems a ! i"
      using i off da_inv_block [OF inv, of i] Suc_times_le [of i "unat c" ?es]
      by (simp add: chunk_realloc_buf)
  qed simp
qed

text \<open>The shrunk capacity of \<^verbatim>\<open>dynarray_pop\<close> still holds every remaining element.\<close>

lemma shrink_capacity_bounds:
  fixes n c :: size_t
  assumes "c > DYNARRAY_INITIAL_CAPACITY" "n < c div DYNARRAY_SHRINK_THRESHOLD"
  defines "h \<equiv> c div DYNARRAY_GROWTH_DENOMINATOR"
  shows "n \<le> (if h < DYNARRAY_INITIAL_CAPACITY then DYNARRAY_INITIAL_CAPACITY else h)"
    and "(if h < DYNARRAY_INITIAL_CAPACITY then DYNARRAY_INITIAL_CAPACITY else h) \<le> c"
  using assms by (auto simp: dynarray_consts word_less_nat_alt word_le_nat_alt unat_div)

theorem dynarray_pop_spec:
  assumes inv: "da_inv a" and ne: "da_size a \<noteq> 0"
  shows "\<exists>a'. dynarray_pop ok (Some a) w = Some (True, if w then Some (last (da_elems a)) else None, Some a')
           \<and> da_inv a' \<and> da_elems a' = butlast (da_elems a)
           \<and> da_element_size a' = da_element_size a"
proof -
  let ?n = "da_size a - 1" and ?a1 = "a\<lparr>da_size := da_size a - 1\<rparr>"
  let ?es = "unat (da_element_size a)"
  have n: "unat ?n = unat (da_size a) - 1" and pos: "0 < unat (da_size a)"
    using ne by (simp_all add: unat_sub word_le_nat_alt unat_gt_0 Suc_le_eq)
  then have lt: "unat ?n < unat (da_capacity a)"
    using inv by (auto simp: da_inv_def word_le_nat_alt)
  have inv1: "da_inv ?a1"
    using inv n by (auto simp: da_inv_def word_le_nat_alt)
  have off: "unat (?n * da_element_size a) = unat ?n * ?es"
    using da_inv_offset [OF inv] lt by simp
  have "last (da_elems a) = da_elems a ! unat ?n"
    using pos n by (metis last_conv_nth length_da_elems length_greater_0_conv)
  then have rd: "mem_read (da_data a) (unat (?n * da_element_size a)) ?es = Some (last (da_elems a))"
    using off da_inv_block [OF inv lt] pos n by (simp add: chunk_def)
  have shrunk: "da_elems ?a1 = butlast (da_elems a)" by (rule da_elems_shrink [OF ne])
  let ?h = "da_capacity a div DYNARRAY_GROWTH_DENOMINATOR"
  let ?c = "if ?h < DYNARRAY_INITIAL_CAPACITY then DYNARRAY_INITIAL_CAPACITY else ?h"
  let ?a2 = "?a1\<lparr>da_data := realloc_buf (da_data a) (unat (?c * da_element_size a)), da_capacity := ?c\<rparr>"
  let ?small = "da_capacity a > DYNARRAY_INITIAL_CAPACITY
                \<and> ?n < da_capacity a div DYNARRAY_SHRINK_THRESHOLD"
  have "?small \<Longrightarrow> da_inv ?a2 \<and> da_elems ?a2 = butlast (da_elems a)"
    using da_elems_realloc [OF inv1, of ?c] shrink_capacity_bounds [of "da_capacity a" ?n] shrunk
    by auto
  moreover have "dynarray_pop ok (Some a) w
      = Some (True, if w then Some (last (da_elems a)) else None,
              Some (if ?small \<and> ok then ?a2 else ?a1))"
    using ne rd by (auto simp: dynarray_pop_def Let_def)
  ultimately show ?thesis using inv1 shrunk by (cases "?small \<and> ok") auto
qed

lemma dynarray_get_spec:
  assumes inv: "da_inv a"
  shows "dynarray_get (Some a) i = None \<longleftrightarrow> da_size a \<le> i"
    and "i < da_size a \<Longrightarrow>
           \<exists>p. dynarray_get (Some a) i = Some p
             \<and> mem_read (da_data a) (unat p) (unat (da_element_size a)) = Some (da_elems a ! unat i)"
proof -
  show "dynarray_get (Some a) i = None \<longleftrightarrow> da_size a \<le> i"
    by (simp add: dynarray_get_def)
  assume i: "i < da_size a"
  then have lt: "unat i < unat (da_size a)" "unat i < unat (da_capacity a)"
    using inv by (auto simp: da_inv_def word_le_nat_alt word_less_nat_alt)
  with da_inv_offset [OF inv, of i] da_inv_block [OF inv lt(2)] i
  show "\<exists>p. dynarray_get (Some a) i = Some p
             \<and> mem_read (da_data a) (unat p) (unat (da_element_size a)) = Some (da_elems a ! unat i)"
    by (auto simp: dynarray_get_def chunk_def)
qed

theorem dynarray_set_spec:
  assumes inv: "da_inv a" and e: "length e = unat (da_element_size a)"
  shows "\<exists>a'. dynarray_set (Some a) i (Some e) = Some (i < da_size a, Some a') \<and> da_inv a'
           \<and> da_elems a' = (da_elems a)[unat i := map Some e]"
proof (cases "i < da_size a")
  case False
  then have "da_size a \<le> i" "length (da_elems a) \<le> unat i"
    by (simp_all add: not_less flip: word_le_nat_alt)
  with inv False show ?thesis
    by (simp add: dynarray_set_def list_update_beyond)
next
  case True
  let ?es = "unat (da_element_size a)"
  have lt: "unat i < unat (da_size a)" "unat i < unat (da_capacity a)"
    using True inv by (auto simp: da_inv_def word_le_nat_alt word_less_nat_alt)
  have off: "unat (i * da_element_size a) = unat i * ?es"
    using da_inv_offset [OF inv] lt by simp
  obtain d where d: "mem_write (da_data a) (unat i * ?es) e = Some d"
    using da_inv_block [OF inv lt(2)] e mem_write_total by metis
  let ?a = "a\<lparr>da_data := d\<rparr>"
  have "da_inv ?a" using inv mem_write_length [OF d] by (simp add: da_inv_def)
  moreover have "da_elems ?a = (da_elems a)[unat i := map Some e]"
  proof (rule da_elems_eqI)
    fix j assume j: "j < length ((da_elems a)[unat i := map Some e])"
    consider "j < unat i" | "j = unat i" | "unat i < j" by linarith
    then show "chunk (unat (da_element_size ?a)) (da_data ?a) j = (da_elems a)[unat i := map Some e] ! j"
      by cases (use j e chunk_mem_write_other [OF d] chunk_mem_write_same [OF d]
                  Suc_times_le [of "unat i" j ?es] in auto)
  qed simp
  ultimately show ?thesis
    using d e off True by (auto simp: dynarray_set_def mem_copy_def)
qed

lemma dynarray_init_spec:
  assumes "dynarray_init ok (Some g) es cap = (True, r)"
  shows "\<exists>a. r = Some a \<and> da_inv a \<and> da_elems a = [] \<and> da_element_size a = es \<and> 0 < da_capacity a"
proof -
  let ?c = "if cap = 0 then DYNARRAY_INITIAL_CAPACITY else cap"
  from assms have es: "es \<noteq> 0" and fit: "\<not> ?c > SIZE_MAX div es"
    and r: "r = Some \<lparr>da_data = malloc_buf (unat (es * ?c)), da_size = 0, da_capacity = ?c,
              da_element_size = es\<rparr>"
    by (auto simp: dynarray_init_def Let_def split: if_splits)
  have "unat ?c * unat es < 2 ^ 64"
    using fit le_SIZE_MAX_div [OF es, of ?c] by (simp add: not_less)
  then have "unat (es * ?c) = unat ?c * unat es"
    by (subst unat_mult_no_wrap) (auto simp: mult.commute)
  with r es \<open>unat ?c * unat es < 2 ^ 64\<close> show ?thesis
    by (auto simp: da_inv_def da_elems_def dynarray_consts word_gt_0)
qed

lemma dynarray_clear_spec:
  "da_inv a \<Longrightarrow> \<exists>a'. dynarray_clear (Some a) = Some a' \<and> da_inv a' \<and> da_elems a' = []
     \<and> da_capacity a' = da_capacity a"
  by (auto simp: dynarray_clear_def da_inv_def da_elems_def)

section \<open>The array as a sequence\<close>

text \<open>The contract's operations on the model: they answer \<open>None\<close> when the C code reports failure.\<close>

definition da_push_back :: "bool \<Rightarrow> dynarray_t \<Rightarrow> buffer \<Rightarrow> dynarray_t option" where
  "da_push_back ok a x =
     (case dynarray_push ok (Some a) (Some (map the x)) of
        Some (True, Some a') \<Rightarrow> Some a' | _ \<Rightarrow> None)"

definition da_pop_back :: "bool \<Rightarrow> dynarray_t \<Rightarrow> dynarray_t option" where
  "da_pop_back ok a = (case dynarray_pop ok (Some a) False of Some (True, _, r) \<Rightarrow> r | _ \<Rightarrow> None)"

definition da_elem_ok :: "dynarray_t \<Rightarrow> buffer \<Rightarrow> bool" where
  "da_elem_ok a x \<longleftrightarrow> length x = unat (da_element_size a) \<and> None \<notin> set x"

lemma map_Some_the [simp]: "None \<notin> set x \<Longrightarrow> map (Some \<circ> the) x = x"
  by (induction x) auto

lemma da_push_back_spec:
  assumes "da_inv a" "da_elem_ok a x" "da_push_back ok a x = Some a'"
  shows "da_elems a' = da_elems a @ [x]" "da_inv a'" "da_element_size a' = da_element_size a"
  using dynarray_push_spec [OF assms(1), of "map the x" ok] assms(2,3)
  by (auto simp: da_push_back_def da_elem_ok_def split: if_splits)

interpretation da: sequence da_elems da_inv da_elem_ok "da_push_back ok" "da_pop_back ok'" for ok ok'
proof (unfold_locales, goal_cases)
  case (1 s x s')
  then show ?case by (rule da_push_back_spec)
next
  case (2 s x s')
  then show ?case by (rule da_push_back_spec)
next
  case (3 s x s' y)
  then show ?case using da_push_back_spec(3) by (simp add: da_elem_ok_def)
next
  case (4 s)
  then have "da_size s \<noteq> 0" by (metis length_0_conv length_da_elems unat_0)
  with dynarray_pop_spec [OF 4(1) this, of ok' False] show ?case by (auto simp: da_pop_back_def)
next
  case (5 s s')
  then have "da_size s \<noteq> 0" by (auto simp: da_pop_back_def dynarray_pop_def)
  with dynarray_pop_spec [OF 5(1) this, of ok' False] 5(2) show ?case by (auto simp: da_pop_back_def)
qed

section \<open>Properties\<close>

text \<open>(C1) Appending an element never touches memory outside the buffer.  Either it
  reports success and the array holds its old elements followed by the new one, or it
  reports failure and the array is unchanged; it succeeds whenever there is room, and
  whenever the reallocation succeeds and the grown size is representable.\<close>

theorem dynarray_push_appends:
  assumes "da_inv a" "length e = unat (da_element_size a)"
  shows "\<exists>b a'. dynarray_push ok (Some a) (Some e) = Some (b, Some a') \<and> da_inv a'
           \<and> (if b then da_elems a' = da_elems a @ [map Some e] else a' = a)
           \<and> (da_size a < da_capacity a \<or> ok \<and> can_grow (da_capacity a) (da_element_size a) \<longrightarrow> b)"
  using dynarray_push_spec [OF assms] by blast

theorem dynarray_push_appends_witness:
  "\<exists>b a'. dynarray_push True
            (Some \<lparr>da_data = [Some 1, Some 2], da_size = 2, da_capacity = 2, da_element_size = 1\<rparr>)
            (Some [3]) = Some (b, Some a') \<and> b \<and> da_elems a' = [[Some 1], [Some 2], [Some 3]]"
proof -
  let ?a = "\<lparr>da_data = [Some 1, Some 2], da_size = 2, da_capacity = 2, da_element_size = 1\<rparr>"
  have "da_inv ?a" "length [3 :: u8] = unat (da_element_size ?a)"
    by (simp_all add: da_inv_def)
  moreover have "can_grow (da_capacity ?a) (da_element_size ?a)" by (simp add: can_grow_def)
  moreover have "da_elems ?a = [[Some 1], [Some 2]]"
    by (simp add: da_elems_def chunk_def upt_rec)
  ultimately show ?thesis
    using dynarray_push_appends [of ?a "[3]" True] by (auto split: if_splits)
qed

text \<open>The bulk append writes, in one copy, exactly the elements that the same number of
  single appends would write, one block of \<^verbatim>\<open>element_size\<close> bytes each; on failure the array is
  left unmodified, and it is always memory safe.\<close>

theorem dynarray_push_n_appends_blocks:
  assumes "da_inv a" "length bs = unat cnt * unat (da_element_size a)"
  shows "\<exists>b a'. dynarray_push_n ok (Some a) (Some bs) cnt = Some (b, Some a') \<and> da_inv a'
           \<and> (if b then da_elems a' = da_elems a @ blocks (unat (da_element_size a)) (unat cnt) bs
               else a' = a)"
  using assms by (rule dynarray_push_n_spec)

theorem dynarray_push_n_appends_blocks_witness:
  "\<exists>b a'. dynarray_push_n True
            (Some \<lparr>da_data = [Some 1, None, None, None], da_size = 1, da_capacity = 4, da_element_size = 1\<rparr>)
            (Some [5, 6]) 2 = Some (b, Some a') \<and> (b \<longrightarrow> da_elems a' = [[Some 1], [Some 5], [Some 6]])"
proof -
  let ?a = "\<lparr>da_data = [Some 1, None, None, None], da_size = 1, da_capacity = 4, da_element_size = 1\<rparr>"
  have "da_inv ?a" "length [5, 6 :: u8] = unat (2 :: size_t) * unat (da_element_size ?a)"
    by (simp_all add: da_inv_def)
  moreover have "da_elems ?a = [[Some 1]]" "blocks 1 2 [5, 6] = [[Some 5], [Some 6]]"
    by (simp_all add: da_elems_def chunk_def blocks_def upt_rec)
  ultimately show ?thesis
    using dynarray_push_n_appends_blocks [of ?a "[5, 6]" 2 True] by (auto split: if_splits)
qed

text \<open>(C2) Filling an array and popping as many elements again restores its contents, through
  any sequence of growth and shrink reallocations (the sequence contract on the model).\<close>

theorem dynarray_push_pop_roundtrip:
  assumes "da_inv a" "\<And>x. x \<in> set xs \<Longrightarrow> da_elem_ok a x"
    and "sequence.push_all (da_push_back ok) a xs = Some a'"
  shows "\<exists>a''. sequence.pop_many (da_pop_back ok') (length xs) a' = Some a'' \<and> da_inv a''
           \<and> da_elems a' = da_elems a @ xs \<and> da_elems a'' = da_elems a"
  using da.push_all_abs [OF assms] da.push_all_pop_many [OF assms] by auto

theorem dynarray_push_pop_roundtrip_witness:
  "\<exists>a' a''. sequence.push_all (da_push_back True)
       \<lparr>da_data = [None, None], da_size = 0, da_capacity = 2, da_element_size = 1\<rparr>
       [[Some 1], [Some 2]] = Some a'
     \<and> sequence.pop_many (da_pop_back True) 2 a' = Some a'' \<and> da_elems a'' = []"
proof -
  let ?a = "\<lparr>da_data = [None, None], da_size = 0, da_capacity = 2, da_element_size = 1\<rparr>"
  let ?xs = "[[Some 1], [Some 2]] :: buffer list"
  have h: "da_inv ?a" "\<And>x. x \<in> set ?xs \<Longrightarrow> da_elem_ok ?a x"
    by (auto simp: da_inv_def da_elem_ok_def)
  have "\<exists>a'. sequence.push_all (da_push_back True) ?a ?xs = Some a'"
    by (simp add: da.push_all.simps da_push_back_def dynarray_push_def mem_copy_def mem_write_def
        word_le_nat_alt)
  then obtain a' where a': "sequence.push_all (da_push_back True) ?a ?xs = Some a'" ..
  moreover have "da_elems ?a = []" by (simp add: da_elems_def)
  ultimately show ?thesis
    using dynarray_push_pop_roundtrip [OF h a', of True] by (auto simp: numeral_2_eq_2)
qed

text \<open>A call of \<^verbatim>\<open>dynarray_reserve\<close> that succeeds sets the capacity to exactly the larger of
  the request and the number of elements, so it also shrinks the buffer, while the header
  says it does not shrink; the elements always survive.\<close>

theorem dynarray_reserve_sets_capacity:
  assumes "da_inv a"
  shows "\<exists>b a'. dynarray_reserve ok (Some a) n = Some (b, Some a') \<and> da_inv a'
           \<and> da_elems a' = da_elems a
           \<and> (if b then da_capacity a' = max n (da_size a) else a' = a)
           \<and> (ok \<and> max n (da_size a) \<le> da_capacity a \<longrightarrow> b)"
proof -
  have "max n (da_size a) \<le> da_capacity a \<Longrightarrow>
      unat (max n (da_size a)) * unat (da_element_size a)
      \<le> unat (da_capacity a) * unat (da_element_size a)"
    by (intro mult_le_mono1) (simp add: word_le_nat_alt)
  moreover have "unat (da_capacity a) * unat (da_element_size a) < 2 ^ 64"
    using assms by (simp add: da_inv_def)
  ultimately have "max n (da_size a) \<le> da_capacity a \<Longrightarrow>
      unat (max n (da_size a)) * unat (da_element_size a) < 2 ^ 64"
    by linarith
  with dynarray_reserve_spec [OF assms, of ok n] show ?thesis by blast
qed

theorem dynarray_reserve_sets_capacity_witness:
  "\<exists>b a'. dynarray_reserve True
            (Some \<lparr>da_data = [Some 1, None, None, None], da_size = 1, da_capacity = 4, da_element_size = 1\<rparr>)
            2 = Some (b, Some a') \<and> da_capacity a' = 2"
proof -
  let ?a = "\<lparr>da_data = [Some 1, None, None, None], da_size = 1, da_capacity = 4, da_element_size = 1\<rparr>"
  have "da_inv ?a" by (simp add: da_inv_def)
  from dynarray_reserve_sets_capacity [OF this, of True 2] show ?thesis
    by (auto split: if_splits)
qed

end
