(* ===== verification/Probe_Ring.thy ===== *)
theory Probe_Ring
  imports Prelude Complex_Main "HOL-Library.Log_Nat"
begin

text \<open>
  Arithmetic of the open-addressed tables (hash map, hash set, cache): capacities are powers
  of two, a probe sequence advances by \<^verbatim>\<open>(i + 1) & mask\<close>, and the distance from the home
  slot is measured around the ring.  The second part is the bit-smearing computation of the
  next power of two that \<^verbatim>\<open>map.c\<close> and \<^verbatim>\<open>cache.c\<close> share.
\<close>

section \<open>Masks and rings\<close>

definition pow2 :: "nat \<Rightarrow> bool" where
  "pow2 n \<longleftrightarrow> (\<exists>p. n = 2 ^ p)"

lemma pow2_pos [simp]: "pow2 n \<Longrightarrow> 0 < n"
  by (auto simp: pow2_def)

lemma pow2_double [simp]: "pow2 n \<Longrightarrow> pow2 (2 * n)"
  unfolding pow2_def by (metis power_Suc)

lemma pow2_numerals [simp]: "pow2 1" "pow2 2" "pow2 4" "pow2 8" "pow2 16" "pow2 32"
  unfolding pow2_def
  by (rule exI [of _ 0], simp, rule exI [of _ 1], simp, rule exI [of _ 2], simp,
      rule exI [of _ 3], simp, rule exI [of _ 4], simp, rule exI [of _ 5], simp)

lemma and_mask_mod [ring_simps]: "pow2 n \<Longrightarrow> i AND (n - 1) = (i mod n :: nat)"
proof -
  assume "pow2 n"
  then obtain p where n: "n = 2 ^ p" by (auto simp: pow2_def)
  have "i AND (2 ^ p - 1) = take_bit p i"
    by (simp only: take_bit_eq_mask mask_eq_exp_minus_1)
  then show ?thesis by (simp add: n take_bit_eq_mod)
qed

text \<open>The slot \<open>t\<close> places before \<open>i\<close>.\<close>

definition ring_back :: "nat \<Rightarrow> nat \<Rightarrow> nat \<Rightarrow> nat" where
  "ring_back n i t = (i + n - t) mod n"

lemma ring_back_less [simp]: "0 < n \<Longrightarrow> ring_back n i t < n"
  by (simp add: ring_back_def)

lemma ring_back_0 [simp]: "i < n \<Longrightarrow> ring_back n i 0 = i"
  by (simp add: ring_back_def)

lemma ring_back_n [simp]: "i < n \<Longrightarrow> ring_back n i n = i"
  by (simp add: ring_back_def)

lemma ring_back_add: "t \<le> n \<Longrightarrow> (ring_back n i t + t) mod n = i mod n"
  by (simp add: ring_back_def mod_add_left_eq)

lemma ring_eqI:
  assumes "(a + t) mod n = (b + t) mod n" "a < n" "b < n"
  shows "a = (b :: nat)"
proof -
  have *: "x = y" if "(x + t) mod n = (y + t) mod n" "x \<le> y" "y < n" for x y :: nat
  proof -
    have "n dvd (y + t) - (x + t)"
      using mod_eq_dvd_iff_nat [of "x + t" "y + t" n] that by simp
    then show ?thesis using that by (auto dest: dvd_imp_le)
  qed
  show ?thesis
    using *[of a b] *[of b a] assms by (cases "a \<le> b") auto
qed

lemma ring_back_unique:
  assumes "(j + t) mod n = i mod n" "j < n" "t \<le> n"
  shows "j = ring_back n i t"
  using assms ring_back_add [OF assms(3), of i] by (intro ring_eqI [of j t n]) auto

lemma ring_back_back:
  assumes "s + t \<le> n" "0 < n"
  shows "ring_back n (ring_back n i s) t = ring_back n i (s + t)"
proof (rule ring_back_unique)
  have "(ring_back n (ring_back n i s) t + (s + t)) mod n
      = ((ring_back n (ring_back n i s) t + t) mod n + s) mod n"
    by (metis (no_types) mod_add_left_eq add.assoc add.commute)
  also have "\<dots> = i mod n"
    using assms ring_back_add [of t n "ring_back n i s"] ring_back_add [of s n i]
    by (simp add: mod_add_left_eq)
  finally show "(ring_back n (ring_back n i s) t + (s + t)) mod n = i mod n" .
qed (use assms in auto)

lemma ring_next_back:
  assumes "i < n" "0 < t" "t \<le> n"
  shows "Suc (ring_back n i t) mod n = ring_back n i (t - 1)"
proof (rule ring_back_unique)
  have "(Suc (ring_back n i t) mod n + (t - 1)) mod n = (Suc (ring_back n i t) + (t - 1)) mod n"
    by (rule mod_add_left_eq)
  also have "\<dots> = (ring_back n i t + t) mod n" using assms(2) by simp
  finally show "(Suc (ring_back n i t) mod n + (t - 1)) mod n = i mod n"
    using ring_back_add [OF assms(3), of i] by simp
qed (use assms in auto)

lemma ring_back_next [simp]: "i < n \<Longrightarrow> ring_back n (Suc i mod n) (Suc 0) = i"
  using ring_back_unique [of i 1 n "Suc i mod n"] by auto

lemma ring_back_Suc_next:
  assumes "i < n" "t < n"
  shows "ring_back n (Suc i mod n) (Suc t) = ring_back n i t"
  using assms ring_back_back [of "Suc 0" t n "Suc i mod n"] by simp

text \<open>Every slot lies between 0 and \<open>n - 1\<close> places behind a given one.\<close>

lemma ring_back_surj:
  assumes "i < n" "j < n"
  shows "\<exists>t<n. j = ring_back n i t"
proof (intro exI conjI)
  show "ring_back n i j < n" using assms by simp
  have "(j + ring_back n i j) mod n = i mod n"
    using assms ring_back_add [of j n i] by (simp add: add.commute)
  then show "j = ring_back n i (ring_back n i j)"
    using assms by (intro ring_back_unique) (auto intro: less_imp_le)
qed

lemma ring_forward_surj:
  assumes "i < n" "(j :: nat) < n"
  shows "\<exists>t<n. j = (i + t) mod n"
proof -
  obtain t where "t < n" "i = ring_back n j t" using ring_back_surj [OF assms(2,1)] by blast
  with assms ring_back_add [of t n j] show ?thesis by auto
qed

lemma ring_back_inj:
  assumes "ring_back n i s = ring_back n i t" "s < n" "t < n"
  shows "s = t"
proof -
  have "(s + ring_back n i s) mod n = (t + ring_back n i s) mod n"
    using assms ring_back_add [of s n i] ring_back_add [of t n i] by (simp add: add.commute)
  with assms show ?thesis by (intro ring_eqI [of s "ring_back n i s" n])
qed

section \<open>Robin Hood chains\<close>

text \<open>
  In a table where a displaced slot follows an occupied slot that is displaced by at most
  one less, every slot on the way back to an element's home is occupied and poor enough.
\<close>

definition chained :: "nat \<Rightarrow> (nat \<Rightarrow> bool) \<Rightarrow> (nat \<Rightarrow> nat) \<Rightarrow> bool" where
  "chained n occ dib \<longleftrightarrow>
     (\<forall>i<n. occ i \<and> 0 < dib i \<longrightarrow> occ (ring_back n i 1) \<and> dib i \<le> dib (ring_back n i 1) + 1)"

lemma chained_back:
  assumes ch: "chained n occ dib" and i: "i < n" "occ i" and t: "t \<le> dib i" "t \<le> n"
  shows "occ (ring_back n i t) \<and> dib i \<le> dib (ring_back n i t) + t"
  using t
proof (induction t)
  case 0
  then show ?case using i by simp
next
  case (Suc t)
  let ?j = "ring_back n i t"
  have IH: "occ ?j" "dib i \<le> dib ?j + t" using Suc by auto
  have "?j < n" "0 < dib ?j" using Suc.prems IH i by auto
  with ch IH have "occ (ring_back n ?j 1)" "dib ?j \<le> dib (ring_back n ?j 1) + 1"
    by (auto simp: chained_def)
  moreover have "ring_back n ?j 1 = ring_back n i (Suc t)"
    using ring_back_back [of t 1 n i] Suc.prems i by simp
  ultimately show ?case using IH by simp
qed

section \<open>Next power of two\<close>

text \<open>One smearing step with shift \<open>w\<close>.\<close>

definition smear :: "nat \<Rightarrow> size_t \<Rightarrow> size_t" where
  "smear w n = n OR drop_bit w n"

lemma bit_smear:
  assumes "\<And>i. bit y i \<longleftrightarrow> (\<exists>d<w. bit x (i + d))"
  shows "bit (smear w y) i \<longleftrightarrow> (\<exists>d<w + w. bit x (i + d))"
proof -
  have "bit (smear w y) i \<longleftrightarrow> (\<exists>d<w. bit x (i + d)) \<or> (\<exists>d<w. bit x (i + w + d))"
    by (simp add: smear_def bit_or_iff bit_drop_bit_eq assms add.commute add.left_commute)
  also have "\<dots> \<longleftrightarrow> (\<exists>d<w + w. bit x (i + d))"
  proof
    assume "(\<exists>d<w. bit x (i + d)) \<or> (\<exists>d<w. bit x (i + w + d))"
    then show "\<exists>d<w + w. bit x (i + d)"
      by (metis add.assoc nat_add_left_cancel_less trans_less_add1)
  next
    assume "\<exists>d<w + w. bit x (i + d)"
    then obtain d where d: "d < w + w" "bit x (i + d)" by blast
    show "(\<exists>d<w. bit x (i + d)) \<or> (\<exists>d<w. bit x (i + w + d))"
    proof (cases "d < w")
      case False
      with d have "d - w < w" "bit x (i + w + (d - w))" by auto
      then show ?thesis by blast
    qed (use d in blast)
  qed
  finally show ?thesis .
qed

definition smear_all :: "size_t \<Rightarrow> size_t" where
  "smear_all n = smear 32 (smear 16 (smear 8 (smear 4 (smear 2 (smear 1 n)))))"

lemma bit_smear_all: "bit (smear_all x) i \<longleftrightarrow> (\<exists>d<64. bit x (i + d))"
proof -
  have "\<And>i. bit x i \<longleftrightarrow> (\<exists>d<1. bit x (i + d))" by simp
  from bit_smear [OF this] have "\<And>i. bit (smear 1 x) i \<longleftrightarrow> (\<exists>d<2. bit x (i + d))"
    by (simp only: one_add_one)
  from bit_smear [OF this] have "\<And>i. bit (smear 2 (smear 1 x)) i \<longleftrightarrow> (\<exists>d<4. bit x (i + d))"
    by simp
  from bit_smear [OF this]
  have "\<And>i. bit (smear 4 (smear 2 (smear 1 x))) i \<longleftrightarrow> (\<exists>d<8. bit x (i + d))"
    by simp
  from bit_smear [OF this]
  have "\<And>i. bit (smear 8 (smear 4 (smear 2 (smear 1 x)))) i \<longleftrightarrow> (\<exists>d<16. bit x (i + d))"
    by simp
  from bit_smear [OF this]
  have "\<And>i. bit (smear 16 (smear 8 (smear 4 (smear 2 (smear 1 x))))) i \<longleftrightarrow> (\<exists>d<32. bit x (i + d))"
    by simp
  from bit_smear [OF this] show ?thesis by (simp add: smear_all_def)
qed

text \<open>Smearing turns a word into the mask of its highest bit.\<close>

lemma smear_all_mask:
  assumes "unat x < 2 ^ Suc k" "2 ^ k \<le> unat x" "k < 64"
  shows "smear_all x = mask (Suc k)"
proof (rule bit_word_eqI)
  fix i assume i: "i < LENGTH(64)"
  have top: "bit x k"
  proof -
    have "unat x div 2 ^ k = 1"
      using assms by (intro div_nat_eqI) auto
    then have "drop_bit k (unat x) = 1" by (simp add: drop_bit_eq_div)
    then show ?thesis
      by (metis bit_iff_odd_drop_bit bit_unsigned_iff odd_one)
  qed
  have above: "\<not> bit x j" if "Suc k \<le> j" for j
  proof -
    have "unat x < 2 ^ j" using assms(1) that by (meson less_le_trans one_le_numeral power_increasing)
    then have "\<not> bit (unat x) j" by (simp add: bit_iff_odd)
    then show ?thesis by (simp add: bit_unsigned_iff)
  qed
  show "bit (smear_all x) i = bit (mask (Suc k) :: size_t) i"
  proof (cases "i \<le> k")
    case True
    with top have "\<exists>d<64. bit x (i + d)"
      using assms(3) by (intro exI [of _ "k - i"]) auto
    with True i show ?thesis by (simp add: bit_smear_all bit_mask_iff)
  next
    case False
    with above show ?thesis by (auto simp: bit_smear_all bit_mask_iff)
  qed
qed

text \<open>The power of two at or above a number.\<close>

lemma smear_next_power:
  assumes "n \<noteq> 0" "unat n \<le> 2 ^ 63"
  shows "\<exists>p\<le>63. unat (smear_all (n - 1) + 1) = 2 ^ p \<and> unat n \<le> 2 ^ p \<and> 2 ^ p < 2 * unat n"
proof (cases "n = 1")
  case True
  have "smear_all 0 = 0" by (simp add: smear_all_def smear_def)
  with True show ?thesis by (intro exI [of _ 0]) simp
next
  case False
  define x where "x = n - 1"
  have un: "unat n = Suc (unat x)" using assms(1) by (simp add: x_def unat_minus_one unat_gt_0)
  with False have "unat x \<noteq> 0" by (metis One_nat_def unat_1 unsigned_word_eqI)
  then obtain k where k: "2 ^ k \<le> unat x" "unat x < 2 ^ Suc k"
    using ex_power_ivl1 [of 2 "unat x"] by auto
  have k63: "k < 63"
  proof (rule ccontr)
    assume "\<not> k < 63"
    then have "(2::nat) ^ 63 \<le> 2 ^ k" by (intro power_increasing) auto
    with k un assms(2) show False by simp
  qed
  have "smear_all x = mask (Suc k)" using k k63 by (intro smear_all_mask) auto
  then have "smear_all (n - 1) + 1 = 2 ^ Suc k"
    using assms(1) by (simp add: x_def mask_eq_exp_minus_1)
  then have "unat (smear_all (n - 1) + 1) = 2 ^ Suc k" using k63 using unat_two_power [of "Suc k"] by simp
  with k un k63 show ?thesis by (intro exI [of _ "Suc k"]) auto
qed

section \<open>Conversion to floating point\<close>

text \<open>
  The load-factor tests convert sizes to \<^verbatim>\<open>float\<close> or \<^verbatim>\<open>double\<close>: round to the nearest number with
  \<open>p\<close> significant bits, ties to even.
\<close>

definition round_sig :: "nat \<Rightarrow> nat \<Rightarrow> nat" where
  "round_sig p n =
     (if n < 2 ^ p then n
      else
        let s = floorlog 2 n - p; q = n div 2 ^ s; r = n mod 2 ^ s; half = 2 ^ (s - 1)
        in (if half < r \<or> (r = half \<and> odd q) then q + 1 else q) * 2 ^ s)"

lemma round_sig_bounds:
  assumes "0 < n" "0 < p"
  shows "round_sig p n \<le> 2 * n" "n \<le> 2 * round_sig p n"
proof -
  define s where "s = floorlog 2 n - p"
  define q where "q = n div 2 ^ s"
  have "n \<noteq> 0" using assms by simp
  then have "2 ^ (floorlog 2 n - 1) \<le> n" using floorlog_bounds [of n 2] by simp
  moreover have "(2::nat) ^ s \<le> 2 ^ (floorlog 2 n - 1)"
    using assms(2) unfolding s_def by (intro power_increasing) auto
  ultimately have "2 ^ s \<le> n" by (rule le_trans [rotated])
  then have q: "1 \<le> q" by (simp add: q_def div_greater_zero_iff Suc_le_eq)
  have lo: "q * 2 ^ s \<le> n" by (simp add: q_def)
  have hi: "n < (q + 1) * 2 ^ s" using dividend_less_times_div [of "2 ^ s" n] by (simp add: q_def algebra_simps)
  have dbl: "(q + 1) * 2 ^ s \<le> 2 * (q * 2 ^ s)" using q by (simp add: algebra_simps)
  have "round_sig p n = n \<or> round_sig p n = q * 2 ^ s \<or> round_sig p n = (q + 1) * 2 ^ s"
    by (simp add: round_sig_def Let_def s_def q_def)
  then show "round_sig p n \<le> 2 * n" "n \<le> 2 * round_sig p n"
    using lo hi dbl by (elim disjE; linarith)+
qed

lemma round_sig_pos: "0 < n \<Longrightarrow> 0 < p \<Longrightarrow> 0 < round_sig p n"
  using round_sig_bounds(2) [of n p] by auto

end
