(* ===== verification/Hash_Map.thy ===== *)
theory Hash_Map
  imports Probe_Ring
begin

text \<open>
  The Robin Hood hash map of \<^verbatim>\<open>src/map.c\<close> and \<^verbatim>\<open>include/map.h\<close>.  Keys and values are the
  pointers the caller passes (types \<open>'k\<close> and \<open>'v\<close>, with \<open>None\<close> for \<^verbatim>\<open>NULL\<close>); the hash and
  comparison callbacks are fields of the map, as in the C struct.  Slot \<open>i\<close> of \<open>hm_slots\<close> is
  the pair \<^verbatim>\<open>keys_values[2i], keys_values[2i+1]\<close>, and \<open>hm_dib\<close> is the probe-distance array that
  the code keeps in \<^verbatim>\<open>deleted\<close>.  Sizes are natural numbers: a capacity never exceeds
  \<open>2 ^ 63\<close>, so no index computation wraps, and where a bound of \<^verbatim>\<open>size_t\<close> matters it is
  written out.  \<open>hm_freed\<close> records the calls of the two optional free callbacks.
\<close>

section \<open>Model\<close>

record ('k, 'v) hash_map =
  hm_slots :: "('k option \<times> 'v option) list"
  hm_dib :: "nat list"
  hm_size :: nat
  hm_capacity :: nat
  hm_max_load_factor :: rat
  hm_hash :: "'k \<Rightarrow> size_t \<Rightarrow> size_t"
  hm_key_compare :: "'k \<Rightarrow> 'k \<Rightarrow> bool"
  hm_key_free :: bool
  hm_value_free :: bool
  hm_locked :: bool
  hm_freed :: "('k + 'v option) list"

record 'k map_config =
  cfg_initial_capacity :: size_t
  cfg_key_compare :: "('k \<Rightarrow> 'k \<Rightarrow> bool) option"
  cfg_key_free :: bool
  cfg_value_free :: bool
  cfg_max_load_factor :: rat
  cfg_hash_func :: "('k \<Rightarrow> size_t \<Rightarrow> size_t) option"

definition MIN_CAPACITY :: nat where "MIN_CAPACITY = 8"
definition INITIAL_MAP_SIZE :: nat where "INITIAL_MAP_SIZE = 16"
definition DEFAULT_MAX_LOAD_FACTOR :: rat where "DEFAULT_MAX_LOAD_FACTOR = 3 / 4"

text \<open>The single-precision values of the literals \<^verbatim>\<open>0.1f\<close> and \<^verbatim>\<open>0.95f\<close>.\<close>

definition float_0_1 :: rat where "float_0_1 = 13421773 / 134217728"
definition float_0_95 :: rat where "float_0_95 = 15938355 / 16777216"

definition HALF_SIZE_MAX :: nat where "HALF_SIZE_MAX = (2 ^ 64 - 1) div 2"

text \<open>\<^verbatim>\<open>(float)n\<close>: 24 significant bits.\<close>

definition float_of_size :: "nat \<Rightarrow> nat" where
  "float_of_size n = round_sig 24 n"

text \<open>
  The default hash of short keys: the first (at most eight) key bytes as a little-endian
  integer.  Longer keys go to xxHash, which is third-party code and a parameter here.
\<close>

fun fast_small_hash_loop :: "u8 list \<Rightarrow> nat \<Rightarrow> nat \<Rightarrow> nat \<Rightarrow> u64 \<Rightarrow> u64" where
  "fast_small_hash_loop src sz i 0 v = v"
| "fast_small_hash_loop src sz i (Suc n) v =
     (if i < sz \<and> i < 8
      then fast_small_hash_loop src sz (i + 1) n (v OR push_bit (8 * i) (ucast (src ! i)))
      else v)"

definition fast_small_hash :: "u8 list \<Rightarrow> nat \<Rightarrow> u64" where
  "fast_small_hash key sz = fast_small_hash_loop key sz 0 8 0"

definition xxhash :: "(u8 list \<Rightarrow> nat \<Rightarrow> u64) \<Rightarrow> u8 list \<Rightarrow> nat \<Rightarrow> u64" where
  "xxhash XXH3_64bits key sz = (if sz \<le> 8 then fast_small_hash key sz else XXH3_64bits key sz)"

definition next_power_of_two :: "size_t \<Rightarrow> size_t" where
  "next_power_of_two n = (if n = 0 then 1 else smear_all (n - 1) + 1)"

definition calculate_new_capacity :: "nat \<Rightarrow> nat" where
  "calculate_new_capacity current =
     (if current > HALF_SIZE_MAX then 2 ^ 64 - 1
      else let new_cap = (current * 2) mod 2 ^ 64
           in if new_cap < current then 2 ^ 64 - 1 else new_cap)"

definition map_create ::
  "bool \<Rightarrow> ('k \<Rightarrow> size_t \<Rightarrow> size_t) \<Rightarrow> 'k map_config option \<Rightarrow> ('k, 'v) hash_map option" where
  "map_create alloc_ok xxhash_wrapper config =
     (case config of
        None \<Rightarrow> None
      | Some c \<Rightarrow>
        (case cfg_key_compare c of
           None \<Rightarrow> None
         | Some cmp \<Rightarrow>
             let capacity = max MIN_CAPACITY
                   (if cfg_initial_capacity c > 0
                    then unat (next_power_of_two (cfg_initial_capacity c)) else INITIAL_MAP_SIZE);
                 mlf = (if cfg_max_load_factor c > float_0_1 \<and> cfg_max_load_factor c \<le> float_0_95
                        then cfg_max_load_factor c else DEFAULT_MAX_LOAD_FACTOR)
             in if capacity > HALF_SIZE_MAX then None
                else if \<not> alloc_ok then None
                else Some \<lparr>hm_slots = replicate capacity (None, None), hm_dib = replicate capacity 0,
                           hm_size = 0, hm_capacity = capacity, hm_max_load_factor = mlf,
                           hm_hash = (case cfg_hash_func c of Some h \<Rightarrow> h | None \<Rightarrow> xxhash_wrapper),
                           hm_key_compare = cmp, hm_key_free = cfg_key_free c,
                           hm_value_free = cfg_value_free c, hm_locked = False, hm_freed = []\<rparr>))"

text \<open>The slot accessors \<^verbatim>\<open>_RH_EMPTY\<close>, \<^verbatim>\<open>get_key_ptr\<close>, \<^verbatim>\<open>get_value_ptr\<close>, \<^verbatim>\<open>_RH_DIB\<close>.\<close>

definition rh_key :: "('k, 'v) hash_map \<Rightarrow> nat \<Rightarrow> 'k option" where
  "rh_key m i = fst (hm_slots m ! i)"

definition rh_val :: "('k, 'v) hash_map \<Rightarrow> nat \<Rightarrow> 'v option" where
  "rh_val m i = snd (hm_slots m ! i)"

definition rh_empty :: "('k, 'v) hash_map \<Rightarrow> nat \<Rightarrow> bool" where
  "rh_empty m i \<longleftrightarrow> rh_key m i = None"

definition rh_dib :: "('k, 'v) hash_map \<Rightarrow> nat \<Rightarrow> nat" where
  "rh_dib m i = hm_dib m ! i"

definition rh_slot :: "nat \<Rightarrow> nat \<Rightarrow> nat \<Rightarrow> nat" where
  "rh_slot hash offset cap_mask = (hash + offset) AND cap_mask"

text \<open>Storing a key, a value and a probe distance in one slot.\<close>

definition rh_put :: "('k, 'v) hash_map \<Rightarrow> nat \<Rightarrow> 'k option \<Rightarrow> 'v option \<Rightarrow> nat \<Rightarrow> ('k, 'v) hash_map" where
  "rh_put m i k v d = m\<lparr>hm_slots := (hm_slots m)[i := (k, v)], hm_dib := (hm_dib m)[i := d]\<rparr>"

definition rh_home :: "('k, 'v) hash_map \<Rightarrow> size_t \<Rightarrow> 'k \<Rightarrow> nat" where
  "rh_home m key_len k = unat (hm_hash m k key_len) AND (hm_capacity m - 1)"

text \<open>
  The inner loop of \<^verbatim>\<open>map_resize\<close>: the first argument counts the iterations left.  When
  they run out the element in hand is dropped, as in the C code.
\<close>

fun resize_insert ::
  "nat \<Rightarrow> ('k, 'v) hash_map \<Rightarrow> 'k \<Rightarrow> 'v option \<Rightarrow> nat \<Rightarrow> nat \<Rightarrow> ('k, 'v) hash_map" where
  "resize_insert 0 m k v i d = m"
| "resize_insert (Suc n) m k v i d =
     (if rh_empty m i then (rh_put m i (Some k) v d)\<lparr>hm_size := hm_size m + 1\<rparr>
      else if rh_dib m i < d
      then resize_insert n (rh_put m i (Some k) v d) (the (rh_key m i)) (rh_val m i)
             ((i + 1) AND (hm_capacity m - 1)) (rh_dib m i + 1)
      else resize_insert n m k v ((i + 1) AND (hm_capacity m - 1)) (d + 1))"

fun rehash_slots ::
  "('k option \<times> 'v option) list \<Rightarrow> size_t \<Rightarrow> ('k, 'v) hash_map \<Rightarrow> ('k, 'v) hash_map" where
  "rehash_slots [] key_len m = m"
| "rehash_slots ((ko, v) # ss) key_len m =
     (case ko of
        None \<Rightarrow> rehash_slots ss key_len m
      | Some k \<Rightarrow> rehash_slots ss key_len
                   (resize_insert (hm_capacity m) m k v (rh_home m key_len k) 0))"

definition map_resize ::
  "bool \<Rightarrow> ('k, 'v) hash_map \<Rightarrow> nat \<Rightarrow> size_t \<Rightarrow> bool \<times> ('k, 'v) hash_map" where
  "map_resize alloc_ok m new_capacity key_len =
     (if new_capacity \<le> hm_capacity m \<or> new_capacity > HALF_SIZE_MAX then (False, m)
      else if \<not> alloc_ok then (False, m)
      else (True, rehash_slots (hm_slots m) key_len
                    (m\<lparr>hm_slots := replicate new_capacity (None, None),
                       hm_dib := replicate new_capacity 0,
                       hm_capacity := new_capacity, hm_size := 0\<rparr>)))"

definition map_length :: "('k, 'v) hash_map \<Rightarrow> nat" where
  "map_length m = hm_size m"

definition load_reached :: "('k, 'v) hash_map \<Rightarrow> bool" where
  "load_reached m \<longleftrightarrow>
     rat_of_nat (float_of_size (hm_size m)) / rat_of_nat (float_of_size (hm_capacity m))
       \<ge> hm_max_load_factor m"

text \<open>The insertion loop of \<^verbatim>\<open>map_set\<close>; \<open>False\<close> is the final \<^verbatim>\<open>return false\<close> (table full).\<close>

fun set_loop ::
  "nat \<Rightarrow> ('k, 'v) hash_map \<Rightarrow> 'k \<Rightarrow> 'v option \<Rightarrow> nat \<Rightarrow> nat \<Rightarrow> bool \<times> ('k, 'v) hash_map" where
  "set_loop 0 m k v i d = (False, m)"
| "set_loop (Suc n) m k v i d =
     (if rh_empty m i then (True, (rh_put m i (Some k) v d)\<lparr>hm_size := hm_size m + 1\<rparr>)
      else if hm_key_compare m (the (rh_key m i)) k
      then (True, m\<lparr>hm_slots := (hm_slots m)[i := (rh_key m i, v)],
                    hm_freed := hm_freed m @ (if hm_value_free m then [Inr (rh_val m i)] else [])\<rparr>)
      else if rh_dib m i < d
      then set_loop n (rh_put m i (Some k) v d) (the (rh_key m i)) (rh_val m i)
             ((i + 1) AND (hm_capacity m - 1)) (rh_dib m i + 1)
      else set_loop n m k v ((i + 1) AND (hm_capacity m - 1)) (d + 1))"

definition map_set ::
  "bool \<Rightarrow> ('k, 'v) hash_map option \<Rightarrow> 'k option \<Rightarrow> size_t \<Rightarrow> 'v option
     \<Rightarrow> bool \<times> ('k, 'v) hash_map option" where
  "map_set alloc_ok mo ko key_len v =
     (case (mo, ko) of
        (Some m, Some k) \<Rightarrow>
          let grown = (if load_reached m
                       then (let new_cap = calculate_new_capacity (hm_capacity m)
                             in if new_cap \<le> hm_capacity m then (False, m)
                                else map_resize alloc_ok m new_cap key_len)
                       else (True, m));
              m1 = snd grown
          in if \<not> fst grown then (False, Some m1)
             else apsnd Some (set_loop (hm_capacity m1) m1 k v (rh_home m1 key_len k) 0)
      | _ \<Rightarrow> (False, mo))"

fun get_loop :: "nat \<Rightarrow> ('k, 'v) hash_map \<Rightarrow> 'k \<Rightarrow> nat \<Rightarrow> nat \<Rightarrow> nat option" where
  "get_loop 0 m k i ds = None"
| "get_loop (Suc n) m k i ds =
     (if rh_empty m i then None
      else if rh_dib m i < ds then None
      else if hm_key_compare m (the (rh_key m i)) k then Some i
      else get_loop n m k ((i + 1) AND (hm_capacity m - 1)) (ds + 1))"

definition map_get :: "('k, 'v) hash_map option \<Rightarrow> 'k option \<Rightarrow> size_t \<Rightarrow> 'v option" where
  "map_get mo ko key_len =
     (case (mo, ko) of
        (Some m, Some k) \<Rightarrow>
          (case get_loop (hm_capacity m) m k (rh_home m key_len k) 0 of
             None \<Rightarrow> None
           | Some i \<Rightarrow> rh_val m i)
      | _ \<Rightarrow> None)"

text \<open>
  The backward shift of \<^verbatim>\<open>map_remove\<close> is a \<^verbatim>\<open>for (;;)\<close>: \<open>None\<close> means that the given number of
  iterations did not finish it.
\<close>

fun shift_loop :: "nat \<Rightarrow> ('k, 'v) hash_map \<Rightarrow> nat \<Rightarrow> ('k, 'v) hash_map option" where
  "shift_loop 0 m hole = None"
| "shift_loop (Suc n) m hole =
     (let nxt = (hole + 1) AND (hm_capacity m - 1)
      in if rh_empty m nxt \<or> rh_dib m nxt = 0
         then Some (rh_put m hole None None 0)
         else shift_loop n (rh_put m hole (rh_key m nxt) (rh_val m nxt) (rh_dib m nxt - 1)) nxt)"

definition map_remove ::
  "('k, 'v) hash_map option \<Rightarrow> 'k option \<Rightarrow> size_t \<Rightarrow> (bool \<times> ('k, 'v) hash_map option) option" where
  "map_remove mo ko key_len =
     (case (mo, ko) of
        (Some m, Some k) \<Rightarrow>
          (case get_loop (hm_capacity m) m k (rh_home m key_len k) 0 of
             None \<Rightarrow> Some (False, mo)
           | Some pos \<Rightarrow>
               let freed = (if hm_key_free m then [Inl (the (rh_key m pos))] else [])
                           @ (if hm_value_free m then [Inr (rh_val m pos)] else [])
               in map_option (\<lambda>m'. (True, Some (m'\<lparr>hm_size := hm_size m - 1\<rparr>)))
                    (shift_loop (hm_capacity m) (m\<lparr>hm_freed := hm_freed m @ freed\<rparr>) pos))
      | _ \<Rightarrow> Some (False, mo))"

text \<open>\<^verbatim>\<open>map_destroy\<close> returns the calls it makes to the free callbacks.\<close>

fun destroy_slots :: "bool \<Rightarrow> bool \<Rightarrow> ('k option \<times> 'v option) list \<Rightarrow> ('k + 'v option) list" where
  "destroy_slots kf vf [] = []"
| "destroy_slots kf vf ((ko, v) # ss) =
     (case ko of None \<Rightarrow> []
      | Some k \<Rightarrow> (if kf then [Inl k] else []) @ (if vf then [Inr v] else []))
     @ destroy_slots kf vf ss"

definition map_destroy :: "('k, 'v) hash_map option \<Rightarrow> ('k + 'v option) list" where
  "map_destroy mo =
     (case mo of None \<Rightarrow> []
      | Some m \<Rightarrow> if \<not> hm_key_free m \<and> \<not> hm_value_free m then []
                  else destroy_slots (hm_key_free m) (hm_value_free m) (hm_slots m))"

text \<open>An iterator is the index of the next slot to look at.\<close>

definition map_iter :: "('k, 'v) hash_map \<Rightarrow> nat" where
  "map_iter m = 0"

function map_next :: "('k, 'v) hash_map \<Rightarrow> nat \<Rightarrow> ('k \<times> 'v option) option \<times> nat" where
  "map_next m index =
     (if index < hm_capacity m
      then (case rh_key m index of
              Some k \<Rightarrow> (Some (k, rh_val m index), index + 1)
            | None \<Rightarrow> map_next m (index + 1))
      else (None, hm_capacity m))"
  by pat_completeness auto
termination
  by (relation "measure (\<lambda>(m, i). hm_capacity m - i)") auto

declare map_next.simps [simp del]

text \<open>
  The thread-safe wrappers.  Acquiring a lock that is already held by the caller never
  returns: \<open>None\<close>.
\<close>

definition lock_acquire :: "('k, 'v) hash_map \<Rightarrow> ('k, 'v) hash_map option" where
  "lock_acquire m = (if hm_locked m then None else Some (m\<lparr>hm_locked := True\<rparr>))"

definition lock_release :: "('k, 'v) hash_map \<Rightarrow> ('k, 'v) hash_map" where
  "lock_release m = m\<lparr>hm_locked := False\<rparr>"

definition map_set_safe ::
  "bool \<Rightarrow> ('k, 'v) hash_map \<Rightarrow> 'k option \<Rightarrow> size_t \<Rightarrow> 'v option
     \<Rightarrow> (bool \<times> ('k, 'v) hash_map option) option" where
  "map_set_safe alloc_ok m k key_len v =
     do { m1 \<leftarrow> lock_acquire m;
          let r = map_set alloc_ok (Some m1) k key_len v;
          Some (fst r, map_option lock_release (snd r)) }"

definition map_get_safe ::
  "('k, 'v) hash_map \<Rightarrow> 'k option \<Rightarrow> size_t \<Rightarrow> ('v option \<times> ('k, 'v) hash_map) option" where
  "map_get_safe m k key_len =
     do { m1 \<leftarrow> lock_acquire m; Some (map_get (Some m1) k key_len, lock_release m1) }"

definition map_remove_safe ::
  "('k, 'v) hash_map \<Rightarrow> 'k option \<Rightarrow> size_t \<Rightarrow> (bool \<times> ('k, 'v) hash_map option) option" where
  "map_remove_safe m k key_len =
     do { m1 \<leftarrow> lock_acquire m;
          r \<leftarrow> map_remove (Some m1) k key_len;
          Some (fst r, map_option lock_release (snd r)) }"

end
