(* ===== verification/Hash_Map_Correct.thy ===== *)
theory Hash_Map_Correct
  imports Hash_Map
begin

text \<open>
  Correctness of the Robin Hood map.  \<open>hm_wf\<close> is the table invariant (probe distances are
  exact, no element is further from home than the one it follows by more than one, keys are
  pairwise different); \<open>hm_inv\<close> adds the element count and the callback contract.  The
  abstraction \<open>hm_lookup\<close> reads the table as a finite map.
\<close>

section \<open>Invariant and abstraction\<close>

definition occ :: "('k, 'v) hash_map \<Rightarrow> nat \<Rightarrow> bool" where
  "occ m i \<longleftrightarrow> rh_key m i \<noteq> None"

text \<open>What the code relies on of the two callbacks, for keys of length \<open>l\<close>.\<close>

definition callbacks_ok :: "('k \<Rightarrow> size_t \<Rightarrow> size_t) \<Rightarrow> ('k \<Rightarrow> 'k \<Rightarrow> bool) \<Rightarrow> size_t \<Rightarrow> bool" where
  "callbacks_ok hash cmp l \<longleftrightarrow> equivp cmp \<and> (\<forall>a b. cmp a b \<longrightarrow> hash a l = hash b l)"

definition hm_shape :: "('k, 'v) hash_map \<Rightarrow> bool" where
  "hm_shape m \<longleftrightarrow> pow2 (hm_capacity m) \<and> 1 < hm_capacity m
     \<and> length (hm_slots m) = hm_capacity m \<and> length (hm_dib m) = hm_capacity m
     \<and> (\<forall>i<hm_capacity m. rh_key m i = None \<longrightarrow> rh_val m i = None)"

definition placed :: "('k, 'v) hash_map \<Rightarrow> size_t \<Rightarrow> nat \<Rightarrow> bool" where
  "placed m l i \<longleftrightarrow> (\<forall>k. rh_key m i = Some k \<longrightarrow>
     rh_dib m i < hm_capacity m \<and> (rh_home m l k + rh_dib m i) mod hm_capacity m = i)"

definition unlike :: "('k, 'v) hash_map \<Rightarrow> nat \<Rightarrow> 'k \<Rightarrow> bool" where
  "unlike m i k \<longleftrightarrow> (\<forall>k'. rh_key m i = Some k' \<longrightarrow> \<not> hm_key_compare m k' k)"

definition hm_wf :: "('k, 'v) hash_map \<Rightarrow> size_t \<Rightarrow> bool" where
  "hm_wf m l \<longleftrightarrow> hm_shape m \<and> callbacks_ok (hm_hash m) (hm_key_compare m) l
     \<and> (\<forall>i<hm_capacity m. placed m l i)
     \<and> chained (hm_capacity m) (occ m) (rh_dib m)
     \<and> (\<forall>i<hm_capacity m. \<forall>j<hm_capacity m. \<forall>k. i \<noteq> j \<longrightarrow> rh_key m j = Some k \<longrightarrow> unlike m i k)"

text \<open>The stored entries, as a multiset.\<close>

definition hm_entries :: "('k, 'v) hash_map \<Rightarrow> ('k option \<times> 'v option) multiset" where
  "hm_entries m = filter_mset (\<lambda>s. fst s \<noteq> None) (mset (hm_slots m))"

definition hm_inv :: "('k, 'v) hash_map \<Rightarrow> size_t \<Rightarrow> bool" where
  "hm_inv m l \<longleftrightarrow> hm_wf m l \<and> hm_size m = size (hm_entries m)
     \<and> hm_capacity m \<le> 2 ^ 63 \<and> hm_max_load_factor m \<le> float_0_95
     \<and> (\<exists>i<hm_capacity m. rh_key m i = None \<or> rh_dib m i = 0)"

definition hm_lookup :: "('k, 'v) hash_map \<Rightarrow> 'k \<Rightarrow> 'v option option" where
  "hm_lookup m k =
     map_option snd (find (\<lambda>s. case fst s of None \<Rightarrow> False | Some k' \<Rightarrow> hm_key_compare m k' k) (hm_slots m))"

lemmas rh_defs = rh_key_def rh_val_def rh_empty_def rh_dib_def occ_def

lemma rh_empty_occ [simp]: "rh_empty m i \<longleftrightarrow> \<not> occ m i"
  by (simp add: rh_defs)

lemma rh_put_simps [simp]:
  "hm_capacity (rh_put m i k v d) = hm_capacity m"
  "hm_hash (rh_put m i k v d) = hm_hash m"
  "hm_key_compare (rh_put m i k v d) = hm_key_compare m"
  "hm_size (rh_put m i k v d) = hm_size m"
  "hm_max_load_factor (rh_put m i k v d) = hm_max_load_factor m"
  "hm_key_free (rh_put m i k v d) = hm_key_free m"
  "hm_value_free (rh_put m i k v d) = hm_value_free m"
  "hm_locked (rh_put m i k v d) = hm_locked m"
  "hm_freed (rh_put m i k v d) = hm_freed m"
  "hm_slots (rh_put m i k v d) = (hm_slots m)[i := (k, v)]"
  "hm_dib (rh_put m i k v d) = (hm_dib m)[i := d]"
  by (simp_all add: rh_put_def)

lemma rh_home_cong:
  "hm_hash m' = hm_hash m \<Longrightarrow> hm_capacity m' = hm_capacity m \<Longrightarrow> rh_home m' l k = rh_home m l k"
  by (simp add: rh_home_def)

lemma rh_home_put [simp]: "rh_home (rh_put m i k v d) l k' = rh_home m l k'"
  by (rule rh_home_cong) simp_all

lemma rh_home_mod: "hm_shape m \<Longrightarrow> rh_home m l k = unat (hm_hash m k l) mod hm_capacity m"
  using and_mask_mod [of "hm_capacity m"] by (simp add: rh_home_def hm_shape_def)

lemma rh_home_less [simp]: "hm_shape m \<Longrightarrow> rh_home m l k < hm_capacity m"
  by (simp add: rh_home_mod) (simp add: hm_shape_def)

lemma rh_next [simp]: "hm_shape m \<Longrightarrow> Suc i AND (hm_capacity m - Suc 0) = Suc i mod hm_capacity m"
  using and_mask_mod [of "hm_capacity m" "Suc i"] by (simp add: hm_shape_def)

lemma hm_shape_cap [simp]: "hm_shape m \<Longrightarrow> 0 < hm_capacity m" "hm_shape m \<Longrightarrow> Suc 0 < hm_capacity m"
  by (auto simp: hm_shape_def)

lemma rh_key_put:
  "hm_shape m \<Longrightarrow> i < hm_capacity m \<Longrightarrow> rh_key (rh_put m i k v d) j = (if j = i then k else rh_key m j)"
  by (simp add: rh_key_def hm_shape_def)

lemma rh_val_put:
  "hm_shape m \<Longrightarrow> i < hm_capacity m \<Longrightarrow> rh_val (rh_put m i k v d) j = (if j = i then v else rh_val m j)"
  by (simp add: rh_val_def hm_shape_def)

lemma rh_dib_put:
  "hm_shape m \<Longrightarrow> i < hm_capacity m \<Longrightarrow> rh_dib (rh_put m i k v d) j = (if j = i then d else rh_dib m j)"
  by (simp add: rh_dib_def hm_shape_def)

lemmas rh_put_reads = rh_key_put rh_val_put rh_dib_put

lemma hm_shape_put:
  "hm_shape m \<Longrightarrow> i < hm_capacity m \<Longrightarrow> k \<noteq> None \<or> v = None \<Longrightarrow> hm_shape (rh_put m i k v d)"
  by (auto simp: hm_shape_def rh_key_def rh_val_def nth_list_update)

lemma hm_wfD:
  assumes "hm_wf m l"
  shows "hm_shape m" "callbacks_ok (hm_hash m) (hm_key_compare m) l"
    "\<And>i. i < hm_capacity m \<Longrightarrow> placed m l i"
    "chained (hm_capacity m) (occ m) (rh_dib m)"
    "\<And>i j k. i < hm_capacity m \<Longrightarrow> j < hm_capacity m \<Longrightarrow> i \<noteq> j \<Longrightarrow> rh_key m j = Some k \<Longrightarrow> unlike m i k"
  using assms by (auto simp: hm_wf_def)

section \<open>Lookup\<close>

lemma cmp_facts:
  assumes "callbacks_ok hash cmp l"
  shows "cmp a a" "cmp a b \<Longrightarrow> cmp b a" "cmp a b \<Longrightarrow> cmp b c \<Longrightarrow> cmp a c"
    "cmp a b \<Longrightarrow> hash a l = hash b l"
  using assms by (auto simp: callbacks_ok_def dest: equivp_reflp equivp_symp intro: equivp_transp)

lemma home_cong:
  assumes "hm_wf m l" "hm_key_compare m a b"
  shows "rh_home m l a = rh_home m l b"
  using cmp_facts(4) [OF hm_wfD(2) [OF assms(1)] assms(2)] by (simp add: rh_home_def)

text \<open>Every slot between an element's home and its place holds an element at least as poor.\<close>

lemma path_to:
  assumes wf: "hm_wf m l" and i: "i < hm_capacity m" "rh_key m i = Some k"
    and s: "s \<le> rh_dib m i"
  defines "j \<equiv> (rh_home m l k + s) mod hm_capacity m"
  shows "occ m j" "s \<le> rh_dib m j" "j = ring_back (hm_capacity m) i (rh_dib m i - s)"
proof -
  let ?n = "hm_capacity m" and ?d = "rh_dib m i"
  have d: "?d < ?n" "(rh_home m l k + ?d) mod ?n = i"
    using hm_wfD(3) [OF wf i(1)] i(2) by (auto simp: placed_def)
  have "(j + (?d - s)) mod ?n = (rh_home m l k + s + (?d - s)) mod ?n"
    by (simp add: j_def mod_add_left_eq)
  also have "\<dots> = i mod ?n" using d s i by simp
  finally show j: "j = ring_back ?n i (?d - s)"
    using d by (intro ring_back_unique) (auto simp: j_def)
  have "occ m i" using i by (simp add: occ_def)
  from chained_back [OF hm_wfD(4) [OF wf] i(1) this, of "?d - s"] d s
  have "occ m j" "?d \<le> rh_dib m j + (?d - s)" by (auto simp: j)
  with s show "occ m j" "s \<le> rh_dib m j" by auto
qed

text \<open>The slots passed before an equal key hold other keys and are not richer than the search.\<close>

lemma probe_before:
  assumes wf: "hm_wf m l" and i: "i < hm_capacity m" "rh_key m i = Some k'" "hm_key_compare m k' k"
    and s: "s < rh_dib m i"
  defines "j \<equiv> (rh_home m l k' + s) mod hm_capacity m"
  shows "occ m j" "s \<le> rh_dib m j" "\<not> hm_key_compare m (the (rh_key m j)) k"
    "Suc j mod hm_capacity m = (rh_home m l k' + Suc s) mod hm_capacity m"
    "hm_capacity m - s = Suc (hm_capacity m - Suc s)"
proof -
  let ?n = "hm_capacity m"
  note path = path_to [OF wf i(1,2), of s, folded j_def]
  have d: "rh_dib m i < ?n" using hm_wfD(3) [OF wf i(1)] i(2) by (auto simp: placed_def)
  have jn: "j < ?n" using hm_wfD(1) [OF wf] by (simp add: j_def)
  have "j \<noteq> i"
  proof
    assume "j = i"
    with path(3) s i(1) have "ring_back ?n i (rh_dib m i - s) = ring_back ?n i 0" by simp
    moreover have "rh_dib m i - s < ?n" "0 < ?n" using d by linarith+
    ultimately have "rh_dib m i - s = 0" by (rule ring_back_inj)
    with s show False by simp
  qed
  obtain kj where kj: "rh_key m j = Some kj" using path(1) s by (auto simp: occ_def)
  show "occ m j" "s \<le> rh_dib m j" using path s by auto
  show "\<not> hm_key_compare m (the (rh_key m j)) k"
    using hm_wfD(5) [OF wf jn i(1) \<open>j \<noteq> i\<close> i(2)] kj i(3) cmp_facts [OF hm_wfD(2) [OF wf]]
    unfolding unlike_def by (metis option.sel)
  show "Suc j mod ?n = (rh_home m l k' + Suc s) mod ?n" by (simp add: j_def mod_Suc_eq)
  show "?n - s = Suc (?n - Suc s)" using s d by simp
qed

lemma get_loop_found_from:
  assumes wf: "hm_wf m l" and i: "i < hm_capacity m" "rh_key m i = Some k'" "hm_key_compare m k' k"
    and s: "s \<le> rh_dib m i"
  shows "get_loop (hm_capacity m - s) m k ((rh_home m l k' + s) mod hm_capacity m) s = Some i"
  using s
proof (induction s rule: inc_induct)
  case base
  have "rh_dib m i < hm_capacity m" "(rh_home m l k' + rh_dib m i) mod hm_capacity m = i"
    using hm_wfD(3) [OF wf i(1)] i(2) by (auto simp: placed_def)
  then show ?case
    using i by (cases "hm_capacity m - rh_dib m i") (auto simp: occ_def)
next
  case (step s)
  then show ?case
    using probe_before [OF wf i step.hyps(2)] hm_wfD(1) [OF wf] by (simp add: not_less)
qed

lemma get_loop_sound:
  assumes "hm_shape m" "i < hm_capacity m" "get_loop n m k i d = Some j"
  shows "j < hm_capacity m \<and> (\<exists>k'. rh_key m j = Some k' \<and> hm_key_compare m k' k)"
  using assms(2,3)
proof (induction n arbitrary: i d)
  case (Suc n)
  let ?i = "Suc i mod hm_capacity m"
  have IH: "get_loop n m k ?i (Suc d) = Some j \<Longrightarrow>
      j < hm_capacity m \<and> (\<exists>k'. rh_key m j = Some k' \<and> hm_key_compare m k' k)"
    using Suc.IH [of ?i "Suc d"] assms(1) by simp
  show ?case
  proof (cases "get_loop n m k ?i (Suc d) = Some j")
    case True
    then show ?thesis by (rule IH)
  next
    case False
    with Suc.prems assms(1) show ?thesis by (auto simp: occ_def split: if_splits)
  qed
qed simp

lemma get_loop_iff:
  assumes wf: "hm_wf m l"
  shows "get_loop (hm_capacity m) m k (rh_home m l k) 0 = Some i \<longleftrightarrow>
           i < hm_capacity m \<and> (\<exists>k'. rh_key m i = Some k' \<and> hm_key_compare m k' k)"
proof
  assume "get_loop (hm_capacity m) m k (rh_home m l k) 0 = Some i"
  with get_loop_sound [OF hm_wfD(1) [OF wf] rh_home_less [OF hm_wfD(1) [OF wf]]]
  show "i < hm_capacity m \<and> (\<exists>k'. rh_key m i = Some k' \<and> hm_key_compare m k' k)" .
next
  assume "i < hm_capacity m \<and> (\<exists>k'. rh_key m i = Some k' \<and> hm_key_compare m k' k)"
  then obtain k' where k': "i < hm_capacity m" "rh_key m i = Some k'" "hm_key_compare m k' k" by blast
  from get_loop_found_from [OF wf k', of 0] home_cong [OF wf k'(3)] hm_wfD(1) [OF wf]
  show "get_loop (hm_capacity m) m k (rh_home m l k) 0 = Some i" by simp
qed

lemma hm_lookup_iff:
  assumes wf: "hm_wf m l"
  shows "hm_lookup m k = Some v \<longleftrightarrow>
           (\<exists>i<hm_capacity m. \<exists>k'. rh_key m i = Some k' \<and> hm_key_compare m k' k \<and> rh_val m i = v)"
    (is "_ \<longleftrightarrow> ?R")
proof -
  let ?P = "\<lambda>s. case fst s of None \<Rightarrow> False | Some k' \<Rightarrow> hm_key_compare m k' k"
  have len: "length (hm_slots m) = hm_capacity m" using hm_wfD(1) [OF wf] by (simp add: hm_shape_def)
  have uniq: "i = j" if "i < hm_capacity m" "j < hm_capacity m" "?P (hm_slots m ! i)" "?P (hm_slots m ! j)" for i j
  proof (rule ccontr)
    assume "i \<noteq> j"
    from that obtain a b where "rh_key m i = Some a" "rh_key m j = Some b"
      "hm_key_compare m a k" "hm_key_compare m b k"
      by (auto simp: rh_key_def split: option.splits)
    with hm_wfD(5) [OF wf that(1,2) \<open>i \<noteq> j\<close>] cmp_facts [OF hm_wfD(2) [OF wf]] show False
      unfolding unlike_def by blast
  qed
  have "hm_lookup m k = Some v \<longleftrightarrow> (\<exists>i<hm_capacity m. ?P (hm_slots m ! i) \<and> snd (hm_slots m ! i) = v)"
    (is "_ \<longleftrightarrow> ?M")
  proof
    assume "hm_lookup m k = Some v"
    then obtain s where "find ?P (hm_slots m) = Some s" "snd s = v"
      by (auto simp: hm_lookup_def)
    then show ?M by (auto simp: find_Some_iff len)
  next
    assume ?M
    then obtain i where i: "i < hm_capacity m" "?P (hm_slots m ! i)" "snd (hm_slots m ! i) = v" by blast
    have "hm_slots m ! i \<in> set (hm_slots m)" using i(1) len by simp
    with i(2) have "find ?P (hm_slots m) \<noteq> None" unfolding find_None_iff by blast
    then obtain s where s: "find ?P (hm_slots m) = Some s" by blast
    then obtain j where "j < hm_capacity m" "?P (hm_slots m ! j)" "s = hm_slots m ! j"
      by (auto simp: find_Some_iff len)
    with uniq [of i j] i s show "hm_lookup m k = Some v" by (simp add: hm_lookup_def)
  qed
  also have "\<dots> \<longleftrightarrow> ?R"
    unfolding rh_key_def rh_val_def by (metis (no_types, lifting) not_None_eq option.simps(4,5))
  finally show ?thesis .
qed

lemma hm_lookup_entries:
  assumes wf: "hm_wf m l"
  shows "hm_lookup m k = Some v \<longleftrightarrow> (\<exists>k'. (Some k', v) \<in># hm_entries m \<and> hm_key_compare m k' k)"
proof -
  have "(Some k', v) \<in># hm_entries m \<longleftrightarrow> (\<exists>i<hm_capacity m. rh_key m i = Some k' \<and> rh_val m i = v)" for k'
    using hm_wfD(1) [OF wf]
    by (auto simp: hm_entries_def hm_shape_def rh_key_def rh_val_def in_set_conv_nth) (metis prod.collapse)
  then show ?thesis by (auto simp: hm_lookup_iff [OF wf])
qed

lemma map_get_lookup:
  assumes "hm_wf m l"
  shows "map_get (Some m) (Some k) l = (case hm_lookup m k of None \<Rightarrow> None | Some v \<Rightarrow> v)"
proof (cases "get_loop (hm_capacity m) m k (rh_home m l k) 0")
  case None
  then have "hm_lookup m k = None"
    using get_loop_iff [OF assms, of k] hm_lookup_iff [OF assms, of k]
    by (metis option.distinct(1) not_None_eq)
  with None show ?thesis by (simp add: map_get_def)
next
  case (Some i)
  then have "hm_lookup m k = Some (rh_val m i)"
    using get_loop_iff [OF assms, of k i] hm_lookup_iff [OF assms, of k] by blast
  with Some show ?thesis by (simp add: map_get_def)
qed

section \<open>Insertion of a fresh key\<close>

text \<open>Everything but the slots, the distances and the element count is the same.\<close>

definition same_config :: "('k, 'v) hash_map \<Rightarrow> ('k, 'v) hash_map \<Rightarrow> bool" where
  "same_config m m' \<longleftrightarrow>
     m' = m\<lparr>hm_slots := hm_slots m', hm_dib := hm_dib m', hm_size := hm_size m'\<rparr>"

lemma same_configD:
  assumes "same_config m m'"
  shows "hm_capacity m' = hm_capacity m" "hm_hash m' = hm_hash m"
    "hm_key_compare m' = hm_key_compare m" "hm_max_load_factor m' = hm_max_load_factor m"
    "hm_key_free m' = hm_key_free m" "hm_value_free m' = hm_value_free m"
    "hm_locked m' = hm_locked m" "hm_freed m' = hm_freed m"
proof -
  define s d z where "s = hm_slots m'" and "d = hm_dib m'" and "z = hm_size m'"
  with assms have "m' = m\<lparr>hm_slots := s, hm_dib := d, hm_size := z\<rparr>" by (simp add: same_config_def)
  then show "hm_capacity m' = hm_capacity m" "hm_hash m' = hm_hash m"
    "hm_key_compare m' = hm_key_compare m" "hm_max_load_factor m' = hm_max_load_factor m"
    "hm_key_free m' = hm_key_free m" "hm_value_free m' = hm_value_free m"
    "hm_locked m' = hm_locked m" "hm_freed m' = hm_freed m" by simp_all
qed

lemma same_config_refl [simp]: "same_config m m"
  by (simp add: same_config_def)

lemma same_config_put [simp]: "same_config m (rh_put m i k v d)"
  by (simp add: same_config_def rh_put_def)

lemma same_config_size [simp]: "same_config m (m'\<lparr>hm_size := z\<rparr>) \<longleftrightarrow> same_config m m'"
proof -
  have "same_config m m'" if "same_config m (m'\<lparr>hm_size := z\<rparr>)"
  proof -
    from that have "m'\<lparr>hm_size := z\<rparr> = m\<lparr>hm_slots := hm_slots m', hm_dib := hm_dib m', hm_size := z\<rparr>"
      by (simp add: same_config_def)
    then have "(m'\<lparr>hm_size := z\<rparr>)\<lparr>hm_size := hm_size m'\<rparr>
        = (m\<lparr>hm_slots := hm_slots m', hm_dib := hm_dib m', hm_size := z\<rparr>)\<lparr>hm_size := hm_size m'\<rparr>"
      by (rule arg_cong)
    then show ?thesis by (simp add: same_config_def)
  qed
  moreover have "same_config m (m'\<lparr>hm_size := z\<rparr>)" if "same_config m m'"
  proof -
    from that have "m'\<lparr>hm_size := z\<rparr> = (m\<lparr>hm_slots := hm_slots m', hm_dib := hm_dib m', hm_size := hm_size m'\<rparr>)\<lparr>hm_size := z\<rparr>"
      unfolding same_config_def by (rule arg_cong)
    then show ?thesis by (simp add: same_config_def)
  qed
  ultimately show ?thesis by blast
qed

lemma same_config_trans:
  assumes "same_config a b" "same_config b c"
  shows "same_config a c"
proof -
  from assms have "c = (a\<lparr>hm_slots := hm_slots b, hm_dib := hm_dib b, hm_size := hm_size b\<rparr>)
      \<lparr>hm_slots := hm_slots c, hm_dib := hm_dib c, hm_size := hm_size c\<rparr>"
    unfolding same_config_def by metis
  then show ?thesis by (simp add: same_config_def)
qed

lemma reads_size [simp]:
  "rh_key (m\<lparr>hm_size := z\<rparr>) = rh_key m" "rh_val (m\<lparr>hm_size := z\<rparr>) = rh_val m"
  "rh_dib (m\<lparr>hm_size := z\<rparr>) = rh_dib m" "rh_home (m\<lparr>hm_size := z\<rparr>) = rh_home m"
  "occ (m\<lparr>hm_size := z\<rparr>) = occ m" "hm_entries (m\<lparr>hm_size := z\<rparr>) = hm_entries m"
  "hm_shape (m\<lparr>hm_size := z\<rparr>) = hm_shape m"
  by (auto simp: rh_defs rh_home_def hm_entries_def hm_shape_def fun_eq_iff)

lemma hm_wf_size [simp]: "hm_wf (m\<lparr>hm_size := z\<rparr>) l = hm_wf m l"
  by (simp add: hm_wf_def placed_def unlike_def)

text \<open>An element in hand: at distance \<open>d\<close> from home, next to be tried at slot \<open>i\<close>.\<close>

definition inflight :: "('k, 'v) hash_map \<Rightarrow> size_t \<Rightarrow> 'k \<Rightarrow> nat \<Rightarrow> nat \<Rightarrow> bool" where
  "inflight m l k i d \<longleftrightarrow> i = (rh_home m l k + d) mod hm_capacity m
     \<and> (0 < d \<longrightarrow> occ m (ring_back (hm_capacity m) i 1)
                 \<and> d \<le> rh_dib m (ring_back (hm_capacity m) i 1) + 1)"

lemma inflightD:
  "inflight m l k i d \<Longrightarrow> 0 < d \<Longrightarrow>
     occ m (ring_back (hm_capacity m) i 1) \<and> d \<le> rh_dib m (ring_back (hm_capacity m) i 1) + 1"
  unfolding inflight_def by blast

lemma inflight_SucI:
  "Suc i mod hm_capacity m = (rh_home m l k + Suc d) mod hm_capacity m \<Longrightarrow> i < hm_capacity m \<Longrightarrow>
     occ m i \<Longrightarrow> d \<le> rh_dib m i \<Longrightarrow> inflight m l k (Suc i mod hm_capacity m) (Suc d)"
  unfolding inflight_def One_nat_def
  by (rule conjI, assumption, subst ring_back_next, assumption, subst ring_back_next) auto

lemma inflight_start [simp]: "hm_shape m \<Longrightarrow> inflight m l k (rh_home m l k) 0"
  by (simp add: inflight_def)

lemma inflight_less:
  assumes wf: "hm_wf m l" and fl: "inflight m l k i d" and e: "e < hm_capacity m" "\<not> occ m e"
  shows "d < hm_capacity m"
proof (rule ccontr)
  let ?n = "hm_capacity m" and ?p = "ring_back (hm_capacity m) i 1"
  assume "\<not> d < ?n"
  moreover have n: "0 < ?n" using hm_wfD(1) [OF wf] by simp
  ultimately have d: "0 < d" "?n \<le> d" by auto
  with fl n have p: "?p < ?n" "occ m ?p" "d \<le> rh_dib m ?p + 1" by (auto simp: inflight_def)
  obtain t where t: "t < ?n" "e = ring_back ?n ?p t" using ring_back_surj [OF p(1) e(1)] by blast
  have "occ m (ring_back ?n ?p t)"
    using chained_back [OF hm_wfD(4) [OF wf] p(1,2), of t] t d p(3) by auto
  with t e show False by simp
qed

lemma inflight_advance:
  assumes wf: "hm_wf m l" and fl: "inflight m l k i d" and i: "occ m i" "d \<le> rh_dib m i"
  shows "inflight m l k (Suc i mod hm_capacity m) (Suc d)"
proof -
  let ?n = "hm_capacity m"
  have "i = (rh_home m l k + d) mod ?n" using fl by (simp add: inflight_def)
  then have nxt: "Suc i mod ?n = (rh_home m l k + Suc d) mod ?n" by (simp add: mod_Suc_eq)
  have "i < ?n" using fl hm_wfD(1) [OF wf] by (simp add: inflight_def)
  then show ?thesis by (rule inflight_SucI [OF nxt _ i])
qed

text \<open>Storing the element in hand keeps the table well formed.\<close>

lemma hm_wf_put:
  assumes wf: "hm_wf m l" and fl: "inflight m l k i d" and d: "d < hm_capacity m"
    and rich: "occ m i \<Longrightarrow> rh_dib m i \<le> d"
    and fresh: "\<And>j. j < hm_capacity m \<Longrightarrow> j \<noteq> i \<Longrightarrow> unlike m j k"
  shows "hm_wf (rh_put m i (Some k) v d) l"
proof -
  let ?n = "hm_capacity m" and ?m = "rh_put m i (Some k) v d"
  note sh = hm_wfD(1) [OF wf] and cb = hm_wfD(2) [OF wf]
  have i: "i < ?n" "i = (rh_home m l k + d) mod ?n" using fl sh by (auto simp: inflight_def)
  have reads: "rh_key ?m j = (if j = i then Some k else rh_key m j)"
    "rh_dib ?m j = (if j = i then d else rh_dib m j)" "occ ?m j \<longleftrightarrow> j = i \<or> occ m j" for j
    using sh i(1) by (auto simp: rh_put_reads occ_def)
  have "placed ?m l j" if "j < ?n" for j
    using hm_wfD(3) [OF wf that] i(2) [symmetric] d by (cases "j = i") (simp_all add: placed_def reads)
  moreover have "chained ?n (occ ?m) (rh_dib ?m)"
    unfolding chained_def
  proof (intro allI impI)
    fix j assume j: "j < ?n" and o: "occ ?m j \<and> 0 < rh_dib ?m j"
    let ?p = "ring_back ?n j 1"
    show "occ ?m ?p \<and> rh_dib ?m j \<le> rh_dib ?m ?p + 1"
    proof (cases "j = i")
      case True
      have "?p \<noteq> i"
      proof
        assume "?p = i"
        with True i(1) have "ring_back ?n i 1 = ring_back ?n i 0" by simp
        from ring_back_inj [OF this] sh show False by simp
      qed
      with True inflightD [OF fl] o show ?thesis by (simp add: reads)
    next
      case False
      with o j hm_wfD(4) [OF wf] have "occ m ?p" "rh_dib m j \<le> rh_dib m ?p + 1"
        by (auto simp: chained_def reads)
      with False rich show ?thesis by (auto simp: reads)
    qed
  qed
  moreover have "unlike ?m a kb" if "a < ?n" "b < ?n" "a \<noteq> b" "rh_key ?m b = Some kb" for a b kb
    using that hm_wfD(5) [OF wf, of a b] fresh [of a] fresh [of b] cmp_facts(2) [OF cb]
    by (auto simp: unlike_def reads split: if_splits)
  ultimately show ?thesis
    using sh cb hm_shape_put [OF sh i(1), of "Some k" v d] by (simp add: hm_wf_def)
qed

lemma hm_entries_put:
  assumes "hm_shape m" "i < hm_capacity m"
  shows "hm_entries (rh_put m i (Some k) v d)
       = add_mset (Some k, v) (hm_entries m - (if occ m i then {#(rh_key m i, rh_val m i)#} else {#}))"
proof -
  have "i < length (hm_slots m)" using assms by (simp add: hm_shape_def)
  then show ?thesis
    by (simp add: hm_entries_def mset_update occ_def rh_key_def rh_val_def filter_diff_mset)
qed

lemma entry_in:
  assumes "hm_shape m" "i < hm_capacity m" "occ m i"
  shows "(rh_key m i, rh_val m i) \<in># hm_entries m"
  using assms by (auto simp: hm_entries_def rh_defs hm_shape_def)

text \<open>The slots from \<open>i\<close> up to the empty slot \<open>q\<close> places further are the ones an insertion may touch.\<close>

definition outside :: "nat \<Rightarrow> nat \<Rightarrow> nat \<Rightarrow> nat \<Rightarrow> bool" where
  "outside n i q j \<longleftrightarrow> (\<forall>p\<le>q. j \<noteq> (i + p) mod n)"

lemma outside_step:
  "outside n i (Suc q) j \<Longrightarrow> i < n \<Longrightarrow> outside n (Suc i mod n) q j \<and> j \<noteq> i"
proof -
  assume o: "outside n i (Suc q) j" and i: "i < n"
  have "j \<noteq> (Suc i mod n + p) mod n" if "p \<le> q" for p
  proof -
    have "(Suc i mod n + p) mod n = (i + Suc p) mod n" by (simp add: mod_add_left_eq)
    with o that show ?thesis by (auto simp: outside_def)
  qed
  moreover have "j \<noteq> i" using o i by (auto simp: outside_def dest: spec [of _ 0])
  ultimately show ?thesis by (simp add: outside_def)
qed

text \<open>What storing one new entry does to the table.\<close>

definition fresh :: "('k, 'v) hash_map \<Rightarrow> 'k \<Rightarrow> bool" where
  "fresh m k \<longleftrightarrow> (\<forall>j<hm_capacity m. unlike m j k)"

definition inserted :: "('k, 'v) hash_map \<Rightarrow> ('k, 'v) hash_map \<Rightarrow> size_t \<Rightarrow> 'k \<Rightarrow> 'v option \<Rightarrow> bool" where
  "inserted m m' l k v \<longleftrightarrow> hm_wf m' l \<and> same_config m m'
     \<and> hm_entries m' = add_mset (Some k, v) (hm_entries m) \<and> hm_size m' = hm_size m + 1"

lemma in_entries_iff:
  "hm_shape m \<Longrightarrow> (Some k, v) \<in># hm_entries m \<longleftrightarrow> (\<exists>i<hm_capacity m. rh_key m i = Some k \<and> rh_val m i = v)"
  by (auto simp: hm_entries_def hm_shape_def rh_key_def rh_val_def in_set_conv_nth) (metis prod.collapse)

lemma fresh_iff:
  "hm_shape m \<Longrightarrow> fresh m k \<longleftrightarrow> (\<forall>k' v. (Some k', v) \<in># hm_entries m \<longrightarrow> \<not> hm_key_compare m k' k)"
  by (auto simp: fresh_def unlike_def in_entries_iff)

lemma hm_entries_size: "hm_entries (m\<lparr>hm_size := z\<rparr>) = hm_entries m"
  by simp

lemma inserted_put:
  assumes wf: "hm_wf m l" and fl: "inflight m l k i d" and e: "i < hm_capacity m" "\<not> occ m i"
    and fr: "fresh m k"
  shows "inserted m ((rh_put m i (Some k) v d)\<lparr>hm_size := hm_size m + 1\<rparr>) l k v"
proof -
  have "hm_wf (rh_put m i (Some k) v d) l"
    using fr e inflight_less [OF wf fl e] by (intro hm_wf_put [OF wf fl]) (auto simp: fresh_def)
  with e hm_wfD(1) [OF wf] show ?thesis by (simp add: inserted_def hm_entries_put)
qed

lemma displaced_facts:
  fixes v :: "'v option"
  assumes wf: "hm_wf m l" and fl: "inflight m l k i d" and d: "d < hm_capacity m"
    and i: "i < hm_capacity m" "rh_key m i = Some k2" "rh_dib m i < d" and fr: "fresh m k"
  defines "m1 \<equiv> rh_put m i (Some k) v d"
  shows "hm_wf m1 l" "inflight m1 l k2 (Suc i mod hm_capacity m) (Suc (rh_dib m i))" "fresh m1 k2"
    "add_mset (Some k2, rh_val m i) (hm_entries m1) = add_mset (Some k, v) (hm_entries m)"
proof -
  let ?n = "hm_capacity m"
  note sh = hm_wfD(1) [OF wf]
  show "hm_wf m1 l"
    unfolding m1_def using fr i by (intro hm_wf_put [OF wf fl d]) (auto simp: fresh_def)
  have home: "(rh_home m l k2 + rh_dib m i) mod ?n = i"
    using hm_wfD(3) [OF wf i(1)] i(2) by (simp add: placed_def)
  then have "Suc i mod ?n = (rh_home m l k2 + Suc (rh_dib m i)) mod ?n"
    by (metis add_Suc_right mod_Suc_eq)
  then show "inflight m1 l k2 (Suc i mod ?n) (Suc (rh_dib m i))"
    using inflight_SucI [of i m1 l k2 "rh_dib m i"] sh i by (simp add: m1_def rh_put_reads occ_def)
  have "\<not> hm_key_compare m k k2"
    using fr i cmp_facts(2) [OF hm_wfD(2) [OF wf]] unfolding fresh_def unlike_def by blast
  moreover have "unlike m j k2" if "j < ?n" "j \<noteq> i" for j
    using hm_wfD(5) [OF wf that(1) i(1) that(2) i(2)] .
  ultimately show "fresh m1 k2"
    using sh i(1) by (auto simp: m1_def fresh_def unlike_def rh_put_reads)
  show "add_mset (Some k2, rh_val m i) (hm_entries m1) = add_mset (Some k, v) (hm_entries m)"
    using sh i entry_in [OF sh i(1)] by (simp add: m1_def hm_entries_put occ_def)
qed

lemma insert_fresh:
  assumes "hm_wf m l" "inflight m l k i d" "i < hm_capacity m" "fresh m k" "q < n"
    "\<not> occ m ((i + q) mod hm_capacity m)"
  shows "set_loop n m k v i d = (True, resize_insert n m k v i d)
    \<and> inserted m (resize_insert n m k v i d) l k v
    \<and> (\<forall>j<hm_capacity m. outside (hm_capacity m) i q j \<longrightarrow>
         rh_key (resize_insert n m k v i d) j = rh_key m j
         \<and> rh_dib (resize_insert n m k v i d) j = rh_dib m j)"
  using assms
proof (induction n arbitrary: m k v i d q)
  case (Suc n)
  let ?n = "hm_capacity m" and ?i = "Suc i mod hm_capacity m"
  note wf = Suc.prems(1) and fl = Suc.prems(2) and i = Suc.prems(3) and fr = Suc.prems(4)
  have sh: "hm_shape m" using hm_wfD(1) [OF wf] .
  have e: "(i + q) mod ?n < ?n" using sh by simp
  show ?case
  proof (cases "occ m i")
    case False
    with i inserted_put [OF wf fl i False fr, of v] sh show ?thesis
      by (auto simp: rh_put_reads outside_def dest: spec [of _ 0])
  next
    case True
    then obtain k2 where k2: "rh_key m i = Some k2" by (auto simp: occ_def)
    from True Suc.prems have "q \<noteq> 0" by (intro notI) simp
    then obtain q' where q': "q = Suc q'" by (cases q) auto
    have sum: "(?i + q') mod ?n = (i + q) mod ?n" by (simp add: q' mod_add_left_eq)
    have ncmp: "\<not> hm_key_compare m k2 k" using fr i k2 by (simp add: fresh_def unlike_def)
    have out: "outside ?n ?i q' j \<and> j \<noteq> i" if "outside ?n i q j" for j
      using outside_step [of ?n i q' j] that i q' by simp
    have lt: "q' < n" "?i < ?n" using Suc.prems q' sh by auto
    show ?thesis
    proof (cases "rh_dib m i < d")
      case False
      then have "inflight m l k ?i (Suc d)"
        using inflight_advance [OF wf fl True] by simp
      from Suc.IH [OF wf this lt(2) fr lt(1)] sum Suc.prems(6) ncmp True False k2 sh out
      show ?thesis by simp
    next
      case rich: True
      let ?m = "rh_put m i (Some k) v d"
      have d: "d < ?n" using inflight_less [OF wf fl e] Suc.prems(6) by simp
      note df = displaced_facts [OF wf fl d i k2 rich fr, of v]
      have "\<not> occ ?m ((?i + q') mod ?n)"
        using Suc.prems(6) True sum sh i by (auto simp: occ_def rh_put_reads)
      with Suc.IH [of ?m k2 ?i "Suc (rh_dib m i)" q' "rh_val m i"] df lt
      have IH: "set_loop n ?m k2 (rh_val m i) ?i (Suc (rh_dib m i))
            = (True, resize_insert n ?m k2 (rh_val m i) ?i (Suc (rh_dib m i)))"
          "inserted ?m (resize_insert n ?m k2 (rh_val m i) ?i (Suc (rh_dib m i))) l k2 (rh_val m i)"
          "\<And>j. j < ?n \<Longrightarrow> outside ?n ?i q' j \<Longrightarrow>
              rh_key (resize_insert n ?m k2 (rh_val m i) ?i (Suc (rh_dib m i))) j = rh_key ?m j
              \<and> rh_dib (resize_insert n ?m k2 (rh_val m i) ?i (Suc (rh_dib m i))) j = rh_dib ?m j"
        by auto
      from IH(2) df(4) have "inserted m (resize_insert n ?m k2 (rh_val m i) ?i (Suc (rh_dib m i))) l k v"
        by (auto simp: inserted_def intro: same_config_trans [OF same_config_put])
      with IH(1,3) ncmp True rich k2 sh out i show ?thesis by (simp add: rh_put_reads)
    qed
  qed
qed simp

text \<open>
  Some slot is empty or holds an element at its home: the backward shift of a removal stops
  there.
\<close>

definition rooted :: "('k, 'v) hash_map \<Rightarrow> bool" where
  "rooted m \<longleftrightarrow> (\<exists>i<hm_capacity m. rh_key m i = None \<or> rh_dib m i = 0)"

lemma empty_exists:
  assumes sh: "hm_shape m" and lt: "size (hm_entries m) < hm_capacity m"
  shows "\<exists>e<hm_capacity m. \<not> occ m e"
proof (rule ccontr)
  assume "\<not> ?thesis"
  then have all: "\<And>e. e < hm_capacity m \<Longrightarrow> fst (hm_slots m ! e) \<noteq> None" by (simp add: occ_def rh_key_def)
  have len: "length (hm_slots m) = hm_capacity m" using sh by (simp add: hm_shape_def)
  have "\<forall>s\<in>set (hm_slots m). fst s \<noteq> None"
    using all len by (metis in_set_conv_nth)
  then have "filter (\<lambda>s. fst s \<noteq> None) (hm_slots m) = hm_slots m" by (rule filter_True)
  then have "hm_entries m = mset (hm_slots m)"
    unfolding hm_entries_def by (simp only: mset_filter [symmetric])
  with lt len show False by simp
qed

lemma after_empty:
  assumes wf: "hm_wf m l" and e: "e < hm_capacity m" "\<not> occ m e"
  shows "\<not> occ m (Suc e mod hm_capacity m) \<or> rh_dib m (Suc e mod hm_capacity m) = 0"
proof -
  have "Suc e mod hm_capacity m < hm_capacity m" using hm_wfD(1) [OF wf] by simp
  with hm_wfD(4) [OF wf] e show ?thesis unfolding chained_def by fastforce
qed

lemma outside_next:
  assumes "i < n" "Suc q < n"
  shows "outside n i q (Suc (i + q) mod n)"
  unfolding outside_def
proof (intro allI impI notI)
  fix p assume p: "p \<le> q" "Suc (i + q) mod n = (i + p) mod n"
  then have "(Suc q + i) mod n = (p + i) mod n" by (simp add: add.commute)
  with p assms have "Suc q = p" by (intro ring_eqI [of "Suc q" i n p]) auto
  with p show False by simp
qed

lemma insert_home:
  fixes v :: "'v option"
  assumes wf: "hm_wf m l" and fr: "fresh m k" and sz: "size (hm_entries m) < hm_capacity m"
  defines "m' \<equiv> resize_insert (hm_capacity m) m k v (rh_home m l k) 0"
  shows "set_loop (hm_capacity m) m k v (rh_home m l k) 0 = (True, m')" "inserted m m' l k v" "rooted m'"
proof -
  let ?n = "hm_capacity m" and ?h = "rh_home m l k"
  have sh: "hm_shape m" using hm_wfD(1) [OF wf] .
  obtain e where e: "e < ?n" "\<not> occ m e" using empty_exists [OF sh sz] by blast
  have h: "?h < ?n" using sh by simp
  obtain q where q: "q < ?n" "e = (?h + q) mod ?n" using ring_forward_surj [OF h e(1)] by blast
  note ins = insert_fresh [OF wf inflight_start [OF sh] h fr q(1), of v]
  have main: "set_loop ?n m k v ?h 0 = (True, m')" "inserted m m' l k v"
    "\<And>j. j < ?n \<Longrightarrow> outside ?n ?h q j \<Longrightarrow> rh_key m' j = rh_key m j \<and> rh_dib m' j = rh_dib m j"
    using ins e q by (auto simp: m'_def)
  then show "set_loop ?n m k v ?h 0 = (True, m')" "inserted m m' l k v" by auto
  have cap: "hm_capacity m' = ?n" using main(2) by (simp add: inserted_def same_configD)
  obtain n' where n': "?n = Suc n'" using sh by (cases ?n) (auto simp: hm_shape_def)
  show "rooted m'"
  proof (cases "occ m ?h")
    case False
    then have "m' = (rh_put m ?h (Some k) v 0)\<lparr>hm_size := hm_size m + 1\<rparr>" by (simp add: m'_def n')
    then have "rh_dib m' ?h = 0" using sh h by (simp add: rh_put_reads)
    with h cap show ?thesis by (auto simp: rooted_def)
  next
    case True
    let ?f = "Suc e mod ?n"
    have f: "?f < ?n" "\<not> occ m ?f \<or> rh_dib m ?f = 0" using sh after_empty [OF wf e] by auto
    have fq: "?f = Suc (?h + q) mod ?n" using q by (simp add: mod_Suc_eq)
    have "rh_key m' ?f = rh_key m ?f \<and> rh_dib m' ?f = rh_dib m ?f"
    proof (cases "Suc q = ?n")
      case False
      with q main(3) [OF f(1)] outside_next [OF h, of q] fq show ?thesis by simp
    next
      case last: True
      let ?i = "Suc ?h mod ?n"
      have "Suc (?h + q) = ?h + ?n" using last by simp
      from fq [unfolded this] h have fh: "?f = ?h" by simp
      obtain q' where q': "q = Suc q'" using True e q h by (cases q) auto
      have fl: "inflight m l k ?i (Suc 0)"
        using inflight_advance [OF wf inflight_start [OF sh] True] by simp
      have "(?i + q') mod ?n = e" using q by (simp add: q' mod_add_left_eq)
      moreover have "m' = resize_insert n' m k v ?i (Suc 0)"
        using True rh_next [OF sh, of ?h] by (simp add: m'_def n')
      moreover have "outside ?n ?i q' ?h"
      proof -
        have "Suc q' < ?n" using last q' by simp
        from outside_next [of ?i ?n q'] this sh have "outside ?n ?i q' (Suc (?i + q') mod ?n)" by simp
        moreover have "Suc (?i + q') mod ?n = ?h"
          using fh \<open>(?i + q') mod ?n = e\<close> by (metis mod_Suc_eq)
        ultimately show ?thesis by simp
      qed
      ultimately show ?thesis
        using insert_fresh [OF wf fl _ fr, of q' n' v] sh h e last q' n' fh by simp
    qed
    with f cap show ?thesis by (auto simp: rooted_def occ_def)
  qed
qed

section \<open>Resizing\<close>

text \<open>The keys of a slot list are pairwise different under the comparison callback.\<close>

definition slots_distinct :: "('k \<Rightarrow> 'k \<Rightarrow> bool) \<Rightarrow> ('k option \<times> 'v option) list \<Rightarrow> bool" where
  "slots_distinct cmp ss \<longleftrightarrow>
     sorted_wrt (\<lambda>s t. \<forall>a b. fst s = Some a \<longrightarrow> fst t = Some b \<longrightarrow> \<not> cmp a b) ss"

lemma hm_wf_slots_distinct: "hm_wf m l \<Longrightarrow> slots_distinct (hm_key_compare m) (hm_slots m)"
  using hm_wfD(5) [of m l] hm_wfD(1) [of m l]
  unfolding slots_distinct_def sorted_wrt_iff_nth_less unlike_def rh_key_def hm_shape_def
  by (metis less_imp_neq less_trans)

definition filled :: "('k option \<times> 'v option) list \<Rightarrow> ('k option \<times> 'v option) multiset" where
  "filled ss = filter_mset (\<lambda>s. fst s \<noteq> None) (mset ss)"

lemma filled_simps [simp]:
  "filled [] = {#}" "filled ((None, v) # ss) = filled ss"
  "filled ((Some k, v) # ss) = add_mset (Some k, v) (filled ss)"
  by (simp_all add: filled_def)

lemma size_filled: "size (filled ss) \<le> length ss"
  unfolding filled_def by (metis size_filter_mset_lesseq size_mset)

lemma hm_entries_filled: "hm_entries m = filled (hm_slots m)"
  by (simp add: hm_entries_def filled_def)

lemma rehash_slots_correct:
  assumes "hm_wf m l" "rooted m" "slots_distinct (hm_key_compare m) ss"
    "\<And>k v. (Some k, v) \<in> set ss \<Longrightarrow> fresh m k"
    "size (hm_entries m) + size (filled ss) < hm_capacity m"
  defines "m' \<equiv> rehash_slots ss l m"
  shows "hm_wf m' l \<and> rooted m' \<and> same_config m m' \<and> hm_entries m' = hm_entries m + filled ss
    \<and> hm_size m' = hm_size m + size (filled ss)"
  using assms(1-5) unfolding m'_def
proof (induction ss arbitrary: m)
  case (Cons s ss)
  obtain ko v where s: "s = (ko, v)" by (cases s)
  show ?case
  proof (cases ko)
    case None
    with Cons.IH [of m] Cons.prems s show ?thesis by (auto simp: slots_distinct_def)
  next
    case (Some k)
    let ?m = "resize_insert (hm_capacity m) m k v (rh_home m l k) 0"
    have fr: "fresh m k" using Cons.prems(4) [of k v] s Some by simp
    have sz: "size (hm_entries m) < hm_capacity m" using Cons.prems(5) by simp
    note ih = insert_home [OF Cons.prems(1) fr sz, of v]
    then have wf': "hm_wf ?m l" and sc: "same_config m ?m"
      and en: "hm_entries ?m = add_mset (Some k, v) (hm_entries m)"
      and z: "hm_size ?m = hm_size m + 1" by (auto simp: inserted_def)
    have "fresh ?m k'" if k': "(Some k', v') \<in> set ss" for k' v'
    proof -
      have "fresh m k'" using Cons.prems(4) [of k' v'] k' by simp
      moreover have "\<not> hm_key_compare m k k'"
        using Cons.prems(3) k' s Some by (auto simp: slots_distinct_def)
      ultimately show ?thesis
        using hm_wfD(1) [OF wf'] hm_wfD(1) [OF Cons.prems(1)]
        by (auto simp: fresh_iff en same_configD [OF sc])
    qed
    with Cons.IH [of ?m] Cons.prems(3,5) wf' ih(3) s Some en same_configD [OF sc]
    have "hm_wf (rehash_slots ss l ?m) l \<and> rooted (rehash_slots ss l ?m)
      \<and> same_config ?m (rehash_slots ss l ?m) \<and> hm_entries (rehash_slots ss l ?m) = hm_entries ?m + filled ss
      \<and> hm_size (rehash_slots ss l ?m) = hm_size ?m + size (filled ss)"
      by (simp add: slots_distinct_def)
    with s Some en z sc show ?thesis by (auto intro: same_config_trans)
  qed
qed simp

lemma hm_wf_blank:
  assumes "pow2 c" "1 < c" "callbacks_ok (hm_hash m) (hm_key_compare m) l"
  defines "m0 \<equiv> m\<lparr>hm_slots := replicate c (None, None), hm_dib := replicate c 0, hm_capacity := c, hm_size := 0\<rparr>"
  shows "hm_wf m0 l" "rooted m0" "hm_entries m0 = {#}" "fresh m0 k"
proof -
  have k: "rh_key m0 i = None" "rh_val m0 i = None" "rh_dib m0 i = 0" if "i < c" for i
    using that by (auto simp: m0_def rh_key_def rh_val_def rh_dib_def)
  show "hm_wf m0 l"
    using assms k by (simp add: hm_wf_def hm_shape_def placed_def chained_def unlike_def occ_def m0_def)
  have cap: "hm_capacity m0 = c" by (simp add: m0_def)
  have "rh_key m0 0 = None \<and> 0 < c" using k(1) [of 0] assms(2) by auto
  then show "rooted m0" unfolding rooted_def cap by blast
  show "hm_entries m0 = {#}" by (auto simp: hm_entries_def m0_def)
  show "fresh m0 k" unfolding fresh_def unlike_def cap by (simp add: k)
qed

text \<open>Everything but the table itself is kept by a resize.\<close>

definition same_policy :: "('k, 'v) hash_map \<Rightarrow> ('k, 'v) hash_map \<Rightarrow> bool" where
  "same_policy m m' \<longleftrightarrow> hm_hash m' = hm_hash m \<and> hm_key_compare m' = hm_key_compare m
     \<and> hm_max_load_factor m' = hm_max_load_factor m \<and> hm_key_free m' = hm_key_free m
     \<and> hm_value_free m' = hm_value_free m \<and> hm_locked m' = hm_locked m"

lemma same_config_policy: "same_config m m' \<Longrightarrow> same_policy m m'"
  by (simp add: same_policy_def same_configD)

lemma map_resize_correct:
  assumes inv: "hm_inv m l" and c: "hm_capacity m < c" "pow2 c" "c \<le> HALF_SIZE_MAX"
  defines "m' \<equiv> snd (map_resize True m c l)"
  shows "fst (map_resize True m c l)" "hm_inv m' l" "hm_entries m' = hm_entries m"
    "same_policy m m'" "hm_capacity m' = c" "hm_freed m' = hm_freed m" "hm_size m' = hm_size m"
proof -
  let ?m0 = "m\<lparr>hm_slots := replicate c (None, None), hm_dib := replicate c 0, hm_capacity := c, hm_size := 0\<rparr>"
  have wf: "hm_wf m l" and sz: "hm_size m = size (hm_entries m)" using inv by (auto simp: hm_inv_def)
  have one: "1 < c" using c hm_shape_cap [OF hm_wfD(1) [OF wf]] by linarith
  note bl = hm_wf_blank [OF c(2) one hm_wfD(2) [OF wf]]
  have m': "m' = rehash_slots (hm_slots m) l ?m0" using c by (simp add: m'_def map_resize_def)
  have "size (filled (hm_slots m)) \<le> hm_capacity m"
    using size_filled [of "hm_slots m"] hm_wfD(1) [OF wf] by (simp add: hm_shape_def)
  then have r: "hm_wf m' l \<and> rooted m' \<and> same_config ?m0 m' \<and> hm_entries m' = filled (hm_slots m)
      \<and> hm_size m' = size (filled (hm_slots m))"
    using rehash_slots_correct [OF bl(1,2), of "hm_slots m"] hm_wf_slots_distinct [OF wf] bl(3,4) c(1)
    by (simp add: m')
  show "fst (map_resize True m c l)" using c by (simp add: map_resize_def)
  show "hm_entries m' = hm_entries m" using r by (simp add: hm_entries_filled)
  show "same_policy m m'" "hm_capacity m' = c" "hm_freed m' = hm_freed m"
    using r same_configD [of ?m0 m'] by (auto simp: same_policy_def)
  show "hm_size m' = hm_size m" using r sz by (simp add: hm_entries_filled)
  show "hm_inv m' l"
    using r inv c(3) same_configD [of ?m0 m']
    by (auto simp: hm_inv_def rooted_def hm_entries_filled HALF_SIZE_MAX_def)
qed

section \<open>Setting a key\<close>

text \<open>An entry with an equal key is found before any displacement.\<close>

lemma set_loop_found_from:
  assumes wf: "hm_wf m l" and i: "i < hm_capacity m" "rh_key m i = Some k'" "hm_key_compare m k' k"
    and s: "s \<le> rh_dib m i"
  shows "set_loop (hm_capacity m - s) m k v ((rh_home m l k' + s) mod hm_capacity m) s
    = (True, m\<lparr>hm_slots := (hm_slots m)[i := (Some k', v)],
                hm_freed := hm_freed m @ (if hm_value_free m then [Inr (rh_val m i)] else [])\<rparr>)"
  using s
proof (induction s rule: inc_induct)
  case base
  have "rh_dib m i < hm_capacity m" "(rh_home m l k' + rh_dib m i) mod hm_capacity m = i"
    using hm_wfD(3) [OF wf i(1)] i(2) by (auto simp: placed_def)
  then show ?case
    using i by (cases "hm_capacity m - rh_dib m i") (auto simp: occ_def)
next
  case (step s)
  note pr = probe_before [OF wf i step.hyps(2)]
  show ?case
    using step.IH pr hm_wfD(1) [OF wf] by (simp add: occ_def not_less)
qed

lemma set_loop_existing:
  assumes wf: "hm_wf m l" and i: "i < hm_capacity m" "rh_key m i = Some k'" "hm_key_compare m k' k"
  shows "set_loop (hm_capacity m) m k v (rh_home m l k) 0
    = (True, m\<lparr>hm_slots := (hm_slots m)[i := (Some k', v)],
                hm_freed := hm_freed m @ (if hm_value_free m then [Inr (rh_val m i)] else [])\<rparr>)"
  using set_loop_found_from [OF wf i, of 0] home_cong [OF wf i(3)] hm_wfD(1) [OF wf] by simp

text \<open>Replacing a value keeps the table as it is.\<close>

lemma update_value:
  fixes v :: "'v option" and f :: "('k + 'v option) list"
  assumes wf: "hm_wf m l" and i: "i < hm_capacity m" "rh_key m i = Some k'"
  defines "m' \<equiv> m\<lparr>hm_slots := (hm_slots m)[i := (Some k', v)], hm_freed := f\<rparr>"
  shows "hm_wf m' l" "rooted m' = rooted m"
    "size (hm_entries m') = size (hm_entries m)"
    "hm_key_compare m k' k \<Longrightarrow>
       hm_lookup m' x = (if hm_key_compare m k x then Some v else hm_lookup m x)"
proof -
  have len: "length (hm_slots m) = hm_capacity m" using hm_wfD(1) [OF wf] by (simp add: hm_shape_def)
  have k: "rh_key m' = rh_key m"
  proof
    fix j show "rh_key m' j = rh_key m j"
      using i len by (cases "j = i") (auto simp: m'_def rh_key_def)
  qed
  have d: "rh_dib m' = rh_dib m" "hm_capacity m' = hm_capacity m" "rh_home m' = rh_home m"
    "hm_key_compare m' = hm_key_compare m" "hm_hash m' = hm_hash m"
    by (auto simp: m'_def rh_dib_def rh_home_def fun_eq_iff)
  have "occ m' = occ m" by (simp add: occ_def fun_eq_iff k)
  moreover have "hm_shape m'"
    using hm_wfD(1) [OF wf] i by (auto simp: hm_shape_def m'_def rh_key_def rh_val_def nth_list_update)
  ultimately show wf': "hm_wf m' l"
    using wf by (simp add: hm_wf_def k d placed_def unlike_def)
  show "rooted m' = rooted m" by (simp add: rooted_def k d)
  have at: "hm_slots m ! i = (Some k', rh_val m i)"
    using i(2) by (simp add: rh_key_def rh_val_def prod_eq_iff)
  have en: "hm_entries m' = add_mset (Some k', v) (hm_entries m - {#(Some k', rh_val m i)#})"
    using i(1) len at by (simp add: m'_def hm_entries_def mset_update filter_diff_mset)
  have "(Some k', rh_val m i) \<in># hm_entries m"
    using entry_in [OF hm_wfD(1) [OF wf] i(1)] i(2) by (simp add: occ_def)
  then show "size (hm_entries m') = size (hm_entries m)" by (simp add: en size_Suc_Diff1)
  have v: "rh_val m' j = (if j = i then v else rh_val m j)" for j
    using i len by (simp add: m'_def rh_val_def)
  assume k'k: "hm_key_compare m k' k"
  note cmp = cmp_facts [OF hm_wfD(2) [OF wf]]
  have other: "\<not> hm_key_compare m k2 x"
    if "j < hm_capacity m" "j \<noteq> i" "rh_key m j = Some k2" "hm_key_compare m k x" for j k2
    using hm_wfD(5) [OF wf that(1) i(1) that(2) i(2)] that(3,4) k'k cmp(2,3)
    unfolding unlike_def by blast
  show "hm_lookup m' x = (if hm_key_compare m k x then Some v else hm_lookup m x)"
  proof (rule option_eqI)
    fix w
    have "hm_lookup m' x = Some w \<longleftrightarrow>
        (\<exists>j<hm_capacity m. \<exists>k2. rh_key m j = Some k2 \<and> hm_key_compare m k2 x
           \<and> (if j = i then v else rh_val m j) = w)"
      by (simp add: hm_lookup_iff [OF wf'] k d v)
    also have "\<dots> \<longleftrightarrow> (if hm_key_compare m k x then Some v else hm_lookup m x) = Some w"
    proof (cases "hm_key_compare m k x")
      case True
      then have "hm_key_compare m k' x" using k'k cmp(3) by blast
      with True other i show ?thesis by auto
    next
      case False
      then have "\<not> hm_key_compare m k' x" using k'k cmp(2,3) by blast
      with False i show ?thesis by (simp add: hm_lookup_iff [OF wf]) (metis option.inject)
    qed
    finally show "hm_lookup m' x = Some w \<longleftrightarrow>
      (if hm_key_compare m k x then Some v else hm_lookup m x) = Some w" .
  qed
qed

lemma inserted_lookup:
  assumes wf: "hm_wf m l" and fr: "fresh m k" and ins: "inserted m m' l k v"
  shows "hm_lookup m' x = (if hm_key_compare m k x then Some v else hm_lookup m x)"
proof (rule option_eqI)
  fix w
  have wf': "hm_wf m' l" and en: "hm_entries m' = add_mset (Some k, v) (hm_entries m)"
    and cmp: "hm_key_compare m' = hm_key_compare m"
    using ins by (auto simp: inserted_def same_configD)
  have no: "\<not> hm_key_compare m k' x" if "(Some k', w') \<in># hm_entries m" "hm_key_compare m k x" for k' w'
    using fr that fresh_iff [OF hm_wfD(1) [OF wf]] cmp_facts [OF hm_wfD(2) [OF wf]] by blast
  show "hm_lookup m' x = Some w \<longleftrightarrow> (if hm_key_compare m k x then Some v else hm_lookup m x) = Some w"
    using no by (auto simp: hm_lookup_entries [OF wf'] hm_lookup_entries [OF wf] en cmp)
qed

lemma entries_lookup:
  assumes "hm_wf m l" "hm_wf m' l" "hm_entries m' = hm_entries m" "hm_key_compare m' = hm_key_compare m"
  shows "hm_lookup m' = hm_lookup m"
  using assms by (intro ext option_eqI) (simp add: hm_lookup_entries)

lemma fresh_lookup:
  assumes "hm_wf m l"
  shows "fresh m k \<longleftrightarrow> hm_lookup m k = None"
  using hm_lookup_entries [OF assms, of k] fresh_iff [OF hm_wfD(1) [OF assms], of k]
  by (metis option.distinct(1) option.exhaust)

text \<open>What a completed \<^verbatim>\<open>map_set\<close> of \<open>v\<close> under \<open>k\<close> does.\<close>

definition set_done ::
  "('k, 'v) hash_map \<Rightarrow> ('k, 'v) hash_map \<Rightarrow> size_t \<Rightarrow> 'k \<Rightarrow> 'v option \<Rightarrow> bool" where
  "set_done m m' l k v \<longleftrightarrow> hm_inv m' l \<and> same_policy m m'
     \<and> (\<forall>x. hm_lookup m' x = (if hm_key_compare m k x then Some v else hm_lookup m x))
     \<and> hm_size m' = hm_size m + (if hm_lookup m k = None then 1 else 0)
     \<and> hm_freed m' = hm_freed m @
         (case hm_lookup m k of Some old \<Rightarrow> if hm_value_free m then [Inr old] else [] | None \<Rightarrow> [])"

lemma set_loop_done:
  assumes inv: "hm_inv m l" and sz: "hm_size m < hm_capacity m"
  shows "\<exists>m'. set_loop (hm_capacity m) m k v (rh_home m l k) 0 = (True, m') \<and> set_done m m' l k v"
proof (cases "hm_lookup m k")
  case None
  have wf: "hm_wf m l" using inv by (simp add: hm_inv_def)
  have fr: "fresh m k" using fresh_lookup [OF wf, of k] None by simp
  have "size (hm_entries m) < hm_capacity m" using inv sz by (simp add: hm_inv_def)
  from insert_home [OF wf fr this, of v] obtain m' where
    m': "set_loop (hm_capacity m) m k v (rh_home m l k) 0 = (True, m')" "inserted m m' l k v" "rooted m'"
    by blast
  then have "same_config m m'" by (simp add: inserted_def)
  note sc = same_configD [OF this] same_config_policy [OF this]
  have "hm_inv m' l" using inv m'(2,3) sc by (simp add: hm_inv_def inserted_def rooted_def)
  with None m'(2) inserted_lookup [OF wf fr m'(2)] sc have "set_done m m' l k v"
    by (simp add: set_done_def inserted_def)
  with m' show ?thesis by blast
next
  case (Some old)
  have wf: "hm_wf m l" using inv by (simp add: hm_inv_def)
  from Some obtain i k' where i: "i < hm_capacity m" "rh_key m i = Some k'" "hm_key_compare m k' k"
    "rh_val m i = old" using hm_lookup_iff [OF wf] by blast
  have rt: "rooted m" using inv by (simp add: hm_inv_def rooted_def)
  define m' where "m' = m\<lparr>hm_slots := (hm_slots m)[i := (Some k', v)],
     hm_freed := hm_freed m @ (if hm_value_free m then [Inr old] else [])\<rparr>"
  have up: "hm_wf m' l" "rooted m'" "size (hm_entries m') = size (hm_entries m)"
    "\<And>x. hm_lookup m' x = (if hm_key_compare m k x then Some v else hm_lookup m x)"
    unfolding m'_def using update_value [OF wf i(1,2)] i(3) rt by blast+
  have "hm_inv m' l"
    using up inv by (auto simp: hm_inv_def rooted_def) (simp_all add: m'_def)
  moreover have "same_policy m m'" by (simp add: m'_def same_policy_def)
  ultimately have "set_done m m' l k v"
    using Some up(4) by (simp add: set_done_def) (simp add: m'_def)
  moreover have "set_loop (hm_capacity m) m k v (rh_home m l k) 0 = (True, m')"
    using set_loop_existing [OF wf i(1-3), of v] i(4) unfolding m'_def by simp
  ultimately show ?thesis by blast
qed

lemma float_of_size_pos: "0 < n \<Longrightarrow> 0 < float_of_size n"
  by (simp add: float_of_size_def round_sig_pos)

lemma hm_size_le: "hm_inv m l \<Longrightarrow> hm_size m \<le> hm_capacity m"
  using size_filled [of "hm_slots m"]
  by (auto simp: hm_inv_def hm_wf_def hm_shape_def hm_entries_filled)

lemma not_load_reached:
  assumes inv: "hm_inv m l" and "\<not> load_reached m"
  shows "hm_size m < hm_capacity m"
proof (rule ccontr)
  assume "\<not> ?thesis"
  with hm_size_le [OF inv] have "hm_size m = hm_capacity m" by simp
  moreover have "0 < hm_capacity m" using inv by (simp add: hm_inv_def hm_wf_def)
  moreover have "hm_max_load_factor m \<le> 1" using inv by (simp add: hm_inv_def float_0_95_def)
  ultimately show False using assms(2) float_of_size_pos [of "hm_capacity m"] by (simp add: load_reached_def)
qed

lemma pow2_le_half:
  assumes "pow2 c" "c \<le> HALF_SIZE_MAX"
  shows "2 * c \<le> 2 ^ 63"
proof -
  obtain p where p: "c = 2 ^ p" using assms by (auto simp: pow2_def)
  have "p < 63"
  proof (rule ccontr)
    assume "\<not> p < 63"
    then have "(2::nat) ^ 63 \<le> 2 ^ p" by (intro power_increasing) auto
    with assms p show False by (simp add: HALF_SIZE_MAX_def)
  qed
  then have "(2::nat) ^ Suc p \<le> 2 ^ 63" by (intro power_increasing) auto
  with p show ?thesis by simp
qed

lemma calculate_new_capacity_doubles:
  assumes "pow2 c" "c \<le> 2 ^ 63"
  shows "calculate_new_capacity c = (if c = 2 ^ 63 then 2 ^ 64 - 1 else 2 * c)"
proof (cases "c \<le> HALF_SIZE_MAX")
  case True
  with pow2_le_half [OF assms(1)] show ?thesis by (auto simp: calculate_new_capacity_def HALF_SIZE_MAX_def)
next
  case False
  with assms(2) show ?thesis by (simp add: calculate_new_capacity_def HALF_SIZE_MAX_def)
qed

text \<open>The growth step fails for a table of \<open>2 ^ 62\<close> slots or when the allocation fails.\<close>

definition can_grow :: "bool \<Rightarrow> ('k, 'v) hash_map \<Rightarrow> bool" where
  "can_grow alloc_ok m \<longleftrightarrow> alloc_ok \<and> 2 * hm_capacity m \<le> HALF_SIZE_MAX"

lemma map_set_spec:
  assumes inv: "hm_inv m l"
  shows "if load_reached m \<and> \<not> can_grow alloc_ok m
         then map_set alloc_ok (Some m) (Some k) l v = (False, Some m)
         else \<exists>m'. map_set alloc_ok (Some m) (Some k) l v = (True, Some m') \<and> set_done m m' l k v"
proof -
  have wf: "hm_wf m l" and p: "pow2 (hm_capacity m)" "hm_capacity m \<le> 2 ^ 63" "0 < hm_capacity m"
    using inv by (auto simp: hm_inv_def hm_wf_def hm_shape_def)
  let ?c = "calculate_new_capacity (hm_capacity m)"
  note c = calculate_new_capacity_doubles [OF p(1,2)]
  show ?thesis
  proof (cases "load_reached m")
    case False
    with set_loop_done [OF inv not_load_reached [OF inv False], of k v] show ?thesis
      by (auto simp: map_set_def)
  next
    case lr: True
    show ?thesis
    proof (cases "can_grow alloc_ok m")
      case False
      then have "map_resize alloc_ok m ?c l = (False, m)"
        using c by (auto simp: map_resize_def can_grow_def HALF_SIZE_MAX_def split: if_splits)
      with lr False show ?thesis by (simp add: map_set_def Let_def)
    next
      case True
      then have c2: "?c = 2 * hm_capacity m" and gt: "hm_capacity m < ?c" and le: "?c \<le> HALF_SIZE_MAX"
        using c p(3) by (auto simp: can_grow_def HALF_SIZE_MAX_def)
      define m1 where "m1 = snd (map_resize True m ?c l)"
      have r: "map_resize True m ?c l = (True, m1)" "hm_inv m1 l" "hm_entries m1 = hm_entries m"
        "same_policy m m1" "hm_capacity m1 = ?c" "hm_freed m1 = hm_freed m" "hm_size m1 = hm_size m"
        using map_resize_correct [OF inv gt _ le] p(1) c2 unfolding m1_def
        by (auto simp: prod_eq_iff)
      have lk: "hm_lookup m1 = hm_lookup m"
        using r wf by (intro entries_lookup [of m l m1]) (auto simp: hm_inv_def same_policy_def)
      have "hm_size m1 < hm_capacity m1" using hm_size_le [OF inv] r gt by simp
      from set_loop_done [OF r(2) this, of k v] obtain m'
        where m': "set_loop (hm_capacity m1) m1 k v (rh_home m1 l k) 0 = (True, m')" "set_done m1 m' l k v"
        by blast
      have "set_done m m' l k v" using m'(2) r(4,6,7) lk unfolding set_done_def same_policy_def
        by (simp cong: option.case_cong)
      moreover have "map_set alloc_ok (Some m) (Some k) l v = (True, Some m')"
        using lr True gt r m' by (simp add: map_set_def can_grow_def)
      ultimately show ?thesis using True by simp
    qed
  qed
qed

section \<open>Removal\<close>

text \<open>
  During the backward shift one slot, the hole \<open>h\<close>, still holds a stale entry.  \<open>E\<close> is the
  content of the other slots.
\<close>

definition holed ::
  "('k, 'v) hash_map \<Rightarrow> size_t \<Rightarrow> nat \<Rightarrow> ('k option \<times> 'v option) multiset \<Rightarrow> bool" where
  "holed m l h E \<longleftrightarrow> hm_shape m \<and> callbacks_ok (hm_hash m) (hm_key_compare m) l
     \<and> h < hm_capacity m \<and> occ m h \<and> chained (hm_capacity m) (occ m) (rh_dib m)
     \<and> (\<forall>j<hm_capacity m. j \<noteq> h \<longrightarrow> placed m l j)
     \<and> (\<forall>a<hm_capacity m. \<forall>b<hm_capacity m. \<forall>k.
          a \<noteq> h \<longrightarrow> b \<noteq> h \<longrightarrow> a \<noteq> b \<longrightarrow> rh_key m b = Some k \<longrightarrow> unlike m a k)
     \<and> mset (hm_slots m) = add_mset (hm_slots m ! h) E"

lemma holedD:
  assumes "holed m l h E"
  shows "hm_shape m" "callbacks_ok (hm_hash m) (hm_key_compare m) l" "h < hm_capacity m" "occ m h"
    "chained (hm_capacity m) (occ m) (rh_dib m)"
    "\<And>j. j < hm_capacity m \<Longrightarrow> j \<noteq> h \<Longrightarrow> placed m l j"
    "\<And>a b k. a < hm_capacity m \<Longrightarrow> b < hm_capacity m \<Longrightarrow> a \<noteq> h \<Longrightarrow> b \<noteq> h \<Longrightarrow> a \<noteq> b \<Longrightarrow>
        rh_key m b = Some k \<Longrightarrow> unlike m a k"
    "mset (hm_slots m) = add_mset (hm_slots m ! h) E"
  using assms by (auto simp: holed_def)

lemma chainedD:
  "chained n oc db \<Longrightarrow> i < n \<Longrightarrow> oc i \<Longrightarrow> 0 < db i \<Longrightarrow>
     oc (ring_back n i (Suc 0)) \<and> db i \<le> Suc (db (ring_back n i (Suc 0)))"
  by (simp add: chained_def)

lemma ring_back_neq: "1 < n \<Longrightarrow> i < n \<Longrightarrow> ring_back n i (Suc 0) \<noteq> i"
  using ring_back_inj [of n i 1 0] by auto

lemma ring_back_eq_next:
  assumes "j < n" "h < n" "ring_back n j (Suc 0) = h"
  shows "j = Suc h mod n"
  using assms ring_back_add [of 1 n j] by auto

lemma mset_move:
  assumes "h < length xs" "i < length xs" "h \<noteq> i" "mset xs = add_mset (xs ! h) E"
  shows "mset (xs[h := xs ! i]) = add_mset (xs ! i) E"
  using assms by (simp add: mset_update)

lemma shift_step:
  assumes hl: "holed m l h E"
  defines "nx \<equiv> Suc h mod hm_capacity m"
  assumes nx: "occ m nx" "0 < rh_dib m nx"
  defines "m' \<equiv> rh_put m h (rh_key m nx) (rh_val m nx) (rh_dib m nx - 1)"
  shows "holed m' l nx E" "rh_dib m nx \<le> Suc (rh_dib m h)" "nx \<noteq> h"
proof -
  let ?n = "hm_capacity m"
  note sh = holedD(1) [OF hl] and h = holedD(3,4) [OF hl]
  have nxn: "nx < ?n" using sh by (simp add: nx_def)
  have prv: "ring_back ?n nx (Suc 0) = h" using h by (simp add: nx_def)
  with ring_back_neq [of ?n nx] nxn sh show neq: "nx \<noteq> h" by auto
  show le: "rh_dib m nx \<le> Suc (rh_dib m h)"
    using chainedD [OF holedD(5) [OF hl] nxn nx] prv by simp
  have reads: "rh_key m' j = (if j = h then rh_key m nx else rh_key m j)"
    "rh_dib m' j = (if j = h then rh_dib m nx - 1 else rh_dib m j)" "occ m' j \<longleftrightarrow> occ m j" for j
    using sh h nx by (auto simp: m'_def rh_put_reads occ_def)
  have cfg: "hm_capacity m' = ?n" "hm_hash m' = hm_hash m" "hm_key_compare m' = hm_key_compare m"
    "rh_home m' = rh_home m" by (auto simp: m'_def fun_eq_iff)
  have ch: "chained ?n (occ m') (rh_dib m')"
    unfolding chained_def
  proof (intro allI impI)
    fix j assume j: "j < ?n" and o: "occ m' j \<and> 0 < rh_dib m' j"
    let ?p = "ring_back ?n j 1"
    consider "j = h" | "j = nx" | "j \<noteq> h" "?p \<noteq> h" using ring_back_eq_next [OF j h(1)] nx_def by auto
    then show "occ m' ?p \<and> rh_dib m' j \<le> rh_dib m' ?p + 1"
    proof cases
      case 1
      with o le chainedD [OF holedD(5) [OF hl] h] ring_back_neq [of ?n h] h sh show ?thesis
        by (auto simp: reads)
    next
      case 2
      with prv h neq show ?thesis by (simp add: reads)
    next
      case 3
      with o chainedD [OF holedD(5) [OF hl] j] show ?thesis by (simp add: reads)
    qed
  qed
  have "placed m' l j" if "j < ?n" "j \<noteq> nx" for j
  proof (cases "j = h")
    case False
    with holedD(6) [OF hl that(1)] show ?thesis by (simp add: placed_def reads cfg)
  next
    case True
    have "(rh_home m l k + (rh_dib m nx - 1)) mod ?n = h"
      if k: "rh_key m nx = Some k" for k
    proof (rule ring_eqI [of _ 1 ?n])
      have "((rh_home m l k + (rh_dib m nx - 1)) mod ?n + 1) mod ?n = (rh_home m l k + rh_dib m nx) mod ?n"
        using nx(2) by (simp add: mod_Suc_eq)
      also have "\<dots> = nx" using holedD(6) [OF hl nxn neq] k by (simp add: placed_def)
      finally show "((rh_home m l k + (rh_dib m nx - 1)) mod ?n + 1) mod ?n = (h + 1) mod ?n"
        by (simp add: nx_def)
    qed (use sh h in auto)
    moreover have "rh_dib m nx - 1 < ?n"
      using holedD(6) [OF hl nxn neq] nx(1) by (auto simp: placed_def occ_def)
    ultimately show ?thesis using True by (simp add: placed_def reads cfg)
  qed
  moreover have "unlike m' a k" if "a < ?n" "b < ?n" "a \<noteq> nx" "b \<noteq> nx" "a \<noteq> b" "rh_key m' b = Some k" for a b k
    using that neq nxn holedD(7) [OF hl, of a b k] holedD(7) [OF hl, of nx b k] holedD(7) [OF hl, of a nx k]
    by (auto simp: unlike_def reads cfg split: if_splits)
  moreover have "mset (hm_slots m') = add_mset (hm_slots m' ! nx) E"
    using mset_move [of h "hm_slots m" nx E] sh h nxn neq holedD(8) [OF hl]
    by (simp add: m'_def hm_shape_def rh_key_def rh_val_def)
  moreover have "hm_shape m'" unfolding m'_def
    using sh h nx by (intro hm_shape_put) (auto simp: occ_def)
  ultimately show "holed m' l nx E"
    using ch nxn nx holedD(2) [OF hl] unfolding holed_def cfg by (simp add: reads)
qed

lemma shift_end:
  fixes m :: "('k, 'v) hash_map"
  assumes hl: "holed m l h E"
    and nx: "\<not> occ m (Suc h mod hm_capacity m) \<or> rh_dib m (Suc h mod hm_capacity m) = 0"
  defines "m' \<equiv> rh_put m h None None 0"
  shows "hm_wf m' l" "rooted m'" "hm_entries m' = filter_mset (\<lambda>s. fst s \<noteq> None) E"
proof -
  let ?n = "hm_capacity m"
  note sh = holedD(1) [OF hl] and h = holedD(3,4) [OF hl]
  have reads: "rh_key m' j = (if j = h then None else rh_key m j)"
    "rh_dib m' j = (if j = h then 0 else rh_dib m j)" "occ m' j \<longleftrightarrow> j \<noteq> h \<and> occ m j" for j
    using sh h by (auto simp: m'_def rh_put_reads occ_def)
  have cfg: "hm_capacity m' = ?n" "hm_hash m' = hm_hash m" "hm_key_compare m' = hm_key_compare m"
    "rh_home m' = rh_home m" by (auto simp: m'_def fun_eq_iff)
  have "chained ?n (occ m') (rh_dib m')"
    unfolding chained_def
  proof (intro allI impI)
    fix j assume j: "j < ?n" and o: "occ m' j \<and> 0 < rh_dib m' j"
    then have "j \<noteq> h" "occ m j" "0 < rh_dib m j" by (auto simp: reads split: if_splits)
    with chainedD [OF holedD(5) [OF hl] j] ring_back_eq_next [OF j h(1)] nx
    show "occ m' (ring_back ?n j 1) \<and> rh_dib m' j \<le> rh_dib m' (ring_back ?n j 1) + 1"
      by (auto simp: reads)
  qed
  moreover have "hm_shape m'" unfolding m'_def using sh h by (intro hm_shape_put) auto
  ultimately show "hm_wf m' l"
    using holedD(2,6,7) [OF hl] by (auto simp: hm_wf_def cfg placed_def unlike_def reads)
  show "rooted m'" using h by (auto simp: rooted_def cfg reads)
  show "hm_entries m' = filter_mset (\<lambda>s. fst s \<noteq> None) E"
    using sh h holedD(8) [OF hl] by (simp add: hm_entries_def m'_def mset_update hm_shape_def)
qed

lemma shift_loop_done:
  assumes "holed m l h E" "q < n" "q < hm_capacity m"
    "\<not> occ m ((h + Suc q) mod hm_capacity m) \<or> rh_dib m ((h + Suc q) mod hm_capacity m) = 0"
  shows "\<exists>m'. shift_loop n m h = Some m' \<and> hm_wf m' l \<and> rooted m' \<and> same_config m m'
    \<and> hm_size m' = hm_size m \<and> hm_entries m' = filter_mset (\<lambda>s. fst s \<noteq> None) E"
  using assms
proof (induction n arbitrary: m h q)
  case (Suc n)
  let ?n = "hm_capacity m" and ?nx = "Suc h mod hm_capacity m"
  note hl = Suc.prems(1)
  have sh: "hm_shape m" using holedD(1) [OF hl] .
  show ?case
  proof (cases "\<not> occ m ?nx \<or> rh_dib m ?nx = 0")
    case True
    with sh shift_end [OF hl True] show ?thesis by (auto simp: Let_def)
  next
    case False
    let ?m = "rh_put m h (rh_key m ?nx) (rh_val m ?nx) (rh_dib m ?nx - 1)"
    from False have "occ m ?nx" "0 < rh_dib m ?nx" by auto
    note st = shift_step [OF hl this]
    from False Suc.prems(4) have "q \<noteq> 0" by (intro notI) simp
    then obtain q' where q': "q = Suc q'" by (cases q) auto
    have pos: "(?nx + Suc q') mod ?n = (h + Suc q) mod ?n" unfolding q' mod_add_left_eq by simp
    have "\<not> occ ?m ((?nx + Suc q') mod ?n) \<or> rh_dib ?m ((?nx + Suc q') mod ?n) = 0"
    proof (cases "(h + Suc q) mod ?n = h")
      case True
      with Suc.prems(4) holedD(4) [OF hl] have "rh_dib m h = 0" by simp
      with st(2) show ?thesis unfolding pos True using sh holedD(3) [OF hl] by (simp add: rh_put_reads)
    next
      case neq: False
      with Suc.prems(4) sh holedD(3) [OF hl] show ?thesis unfolding pos by (simp add: rh_put_reads occ_def)
    qed
    with Suc.IH [OF st(1), of q'] Suc.prems(2,3) q'
    obtain m' where "shift_loop n ?m ?nx = Some m'" "hm_wf m' l" "rooted m'" "same_config ?m m'"
      "hm_size m' = hm_size m" "hm_entries m' = filter_mset (\<lambda>s. fst s \<noteq> None) E" by auto
    with False sh show ?thesis
      by (auto simp: Let_def intro: same_config_trans [OF same_config_put])
  qed
qed simp

lemma mset_without_nth:
  assumes "h < length xs" "mset xs = add_mset (xs ! h) E"
  shows "s \<in># E \<longleftrightarrow> (\<exists>j<length xs. j \<noteq> h \<and> xs ! j = s)"
proof -
  have "mset xs = image_mset ((!) xs) (mset_set {0..<length xs})"
    by (metis map_nth mset_map mset_upt)
  also have "\<dots> = add_mset (xs ! h) (image_mset ((!) xs) (mset_set ({0..<length xs} - {h})))"
    using assms(1) by (simp add: mset_set.remove [of _ h])
  finally have "E = image_mset ((!) xs) (mset_set ({0..<length xs} - {h}))" using assms(2) by simp
  then show ?thesis by auto
qed

text \<open>What a completed \<^verbatim>\<open>map_remove\<close> of \<open>k\<close>, stored as \<open>k'\<close> with value \<open>v\<close>, does.\<close>

definition remove_done ::
  "('k, 'v) hash_map \<Rightarrow> ('k, 'v) hash_map \<Rightarrow> size_t \<Rightarrow> 'k \<Rightarrow> 'k \<Rightarrow> 'v option \<Rightarrow> bool" where
  "remove_done m m' l k k' v \<longleftrightarrow> hm_inv m' l \<and> same_policy m m'
     \<and> (\<forall>x. hm_lookup m' x = (if hm_key_compare m k x then None else hm_lookup m x))
     \<and> Suc (hm_size m') = hm_size m
     \<and> hm_freed m' = hm_freed m @ (if hm_key_free m then [Inl k'] else [])
                                @ (if hm_value_free m then [Inr v] else [])"

lemma holed_start:
  assumes wf: "hm_wf m l" and i: "i < hm_capacity m" "occ m i"
  shows "holed (m\<lparr>hm_freed := f\<rparr>) l i (mset (hm_slots m) - {#hm_slots m ! i#})"
proof -
  let ?m = "m\<lparr>hm_freed := f\<rparr>"
  have reads: "rh_key ?m = rh_key m" "rh_dib ?m = rh_dib m" "rh_home ?m = rh_home m" "rh_val ?m = rh_val m"
    "occ ?m = occ m" by (auto simp: rh_defs rh_home_def fun_eq_iff)
  note w = hm_wfD [OF wf]
  have "hm_slots m ! i \<in> set (hm_slots m)" using w(1) i by (simp add: hm_shape_def)
  moreover have "hm_shape ?m" using w(1) by (simp add: hm_shape_def reads)
  ultimately show ?thesis
    using w i by (simp add: holed_def placed_def unlike_def reads)
qed

lemma rooted_ahead:
  assumes "hm_shape m" "rooted m" "i < hm_capacity m"
  obtains q where "q < hm_capacity m"
    "\<not> occ m ((i + Suc q) mod hm_capacity m) \<or> rh_dib m ((i + Suc q) mod hm_capacity m) = 0"
proof -
  let ?n = "hm_capacity m"
  obtain e where e: "e < ?n" "\<not> occ m e \<or> rh_dib m e = 0" using assms(2) by (auto simp: rooted_def occ_def)
  have "Suc i mod ?n < ?n" using assms by simp
  then obtain q where "q < ?n" "e = (Suc i mod ?n + q) mod ?n" using ring_forward_surj [OF _ e(1)] by blast
  moreover have "(Suc i mod ?n + q) mod ?n = (i + Suc q) mod ?n" unfolding mod_add_left_eq by simp
  ultimately show ?thesis using e that by auto
qed

lemma removed_lookup:
  assumes wf: "hm_wf m l" and wf': "hm_wf m' l"
    and i: "i < hm_capacity m" "rh_key m i = Some k'" "hm_key_compare m k' k"
    and en: "hm_entries m' = filter_mset (\<lambda>s. fst s \<noteq> None) (mset (hm_slots m) - {#hm_slots m ! i#})"
    and c: "hm_key_compare m' = hm_key_compare m"
  shows "hm_lookup m' x = (if hm_key_compare m k x then None else hm_lookup m x)"
proof (rule option_eqI)
  fix w
  let ?E = "mset (hm_slots m) - {#hm_slots m ! i#}"
  have len: "i < length (hm_slots m)" "length (hm_slots m) = hm_capacity m"
    using hm_wfD(1) [OF wf] i by (auto simp: hm_shape_def)
  then have "mset (hm_slots m) = add_mset (hm_slots m ! i) ?E" by simp
  note E = mset_without_nth [OF len(1) this, unfolded len(2)]
  have "(Some k2, w) \<in># hm_entries m' \<longleftrightarrow> (Some k2, w) \<in># ?E" for k2
    unfolding en by (simp only: set_mset_filter mem_Collect_eq fst_conv) simp
  then have "hm_lookup m' x = Some w \<longleftrightarrow> (\<exists>k2. (Some k2, w) \<in># ?E \<and> hm_key_compare m k2 x)"
    by (simp add: hm_lookup_entries [OF wf'] c)
  also have "\<dots> \<longleftrightarrow> (\<exists>j<hm_capacity m. \<exists>k2. j \<noteq> i \<and> rh_key m j = Some k2 \<and> hm_key_compare m k2 x \<and> rh_val m j = w)"
    unfolding E rh_key_def rh_val_def by (metis fst_conv snd_conv prod.collapse)
  also have "\<dots> \<longleftrightarrow> (if hm_key_compare m k x then None else hm_lookup m x) = Some w"
  proof (cases "hm_key_compare m k x")
    case True
    have "\<not> hm_key_compare m k2 x" if "j < hm_capacity m" "j \<noteq> i" "rh_key m j = Some k2" for j k2
      using hm_wfD(5) [OF wf that(1) i(1) that(2) i(2)] that(3) True i(3) cmp_facts(2,3) [OF hm_wfD(2) [OF wf]]
      unfolding unlike_def by blast
    with True show ?thesis by auto
  next
    case False
    then have "\<not> hm_key_compare m k' x" using i(3) cmp_facts(2,3) [OF hm_wfD(2) [OF wf]] by blast
    with False i(2) show ?thesis by (auto simp: hm_lookup_iff [OF wf])
  qed
  finally show "hm_lookup m' x = Some w \<longleftrightarrow> (if hm_key_compare m k x then None else hm_lookup m x) = Some w" .
qed

lemma map_remove_spec:
  assumes inv: "hm_inv m l"
  shows "case hm_lookup m k of
      None \<Rightarrow> map_remove (Some m) (Some k) l = Some (False, Some m)
    | Some v \<Rightarrow> \<exists>m' k'. map_remove (Some m) (Some k) l = Some (True, Some m')
                 \<and> hm_key_compare m k' k \<and> remove_done m m' l k k' v"
proof (cases "get_loop (hm_capacity m) m k (rh_home m l k) 0")
  case None
  have wf: "hm_wf m l" using inv by (simp add: hm_inv_def)
  have "hm_lookup m k = None"
    using None get_loop_iff [OF wf, of k] hm_lookup_iff [OF wf, of k]
    by (metis option.distinct(1) not_None_eq)
  with None show ?thesis by (simp add: map_remove_def)
next
  case (Some i)
  have wf: "hm_wf m l" and rt: "rooted m" using inv by (auto simp: hm_inv_def rooted_def)
  note sh = hm_wfD(1) [OF wf]
  from Some get_loop_iff [OF wf, of k i]
  obtain k' where i: "i < hm_capacity m" "rh_key m i = Some k'" "hm_key_compare m k' k" by blast
  let ?f = "hm_freed m @ (if hm_key_free m then [Inl k'] else []) @ (if hm_value_free m then [Inr (rh_val m i)] else [])"
  let ?m = "m\<lparr>hm_freed := ?f\<rparr>" and ?E = "mset (hm_slots m) - {#hm_slots m ! i#}"
  have oc: "occ m i" using i by (simp add: occ_def)
  have lk: "hm_lookup m k = Some (rh_val m i)" using hm_lookup_iff [OF wf] i by blast
  obtain q where q: "q < hm_capacity m"
    "\<not> occ m ((i + Suc q) mod hm_capacity m) \<or> rh_dib m ((i + Suc q) mod hm_capacity m) = 0"
    using rooted_ahead [OF sh rt i(1)] by blast
  have reads: "occ ?m = occ m" "rh_dib ?m = rh_dib m" by (auto simp: rh_defs fun_eq_iff)
  from shift_loop_done [OF holed_start [OF wf i(1) oc, of ?f], of q "hm_capacity m"] q
  obtain m' where m': "shift_loop (hm_capacity m) ?m i = Some m'" "hm_wf m' l" "rooted m'"
    "same_config ?m m'" "hm_entries m' = filter_mset (\<lambda>s. fst s \<noteq> None) ?E"
    unfolding reads by auto
  have at: "hm_slots m ! i = (Some k', rh_val m i)"
    using i(2) by (simp add: rh_key_def rh_val_def prod_eq_iff)
  have len: "i < length (hm_slots m)" "length (hm_slots m) = hm_capacity m"
    using sh i by (auto simp: hm_shape_def)
  have en: "hm_entries m' = hm_entries m - {#(Some k', rh_val m i)#}"
    using m'(5) by (simp add: hm_entries_def filter_diff_mset at)
  have "(Some k', rh_val m i) \<in># hm_entries m" using entry_in [OF sh i(1) oc] i(2) by simp
  then have sz: "Suc (size (hm_entries m')) = size (hm_entries m)"
    unfolding en by (rule size_Suc_Diff1)
  note sc = same_configD [OF m'(4)]
  define mr where "mr = m'\<lparr>hm_size := hm_size m - 1\<rparr>"
  have look: "hm_lookup mr x = (if hm_key_compare m k x then None else hm_lookup m x)" for x
    using m'(2,5) sc by (intro removed_lookup [OF wf _ i]) (simp_all add: mr_def)
  have zz: "hm_size m = Suc (size (hm_entries m'))" using inv sz by (simp add: hm_inv_def)
  then have "hm_size mr = size (hm_entries mr)" by (simp add: mr_def)
  then have "hm_inv mr l" using inv m'(2,3) sc(1,4) unfolding hm_inv_def rooted_def by (simp add: mr_def)
  with look zz sc have "remove_done m mr l k k' (rh_val m i)"
    by (simp add: remove_done_def mr_def same_policy_def)
  moreover have "map_remove (Some m) (Some k) l = Some (True, Some mr)"
    by (simp only: map_remove_def Let_def prod.case option.case Some i(2) option.sel m'(1) mr_def option.map)
  ultimately show ?thesis using lk i(3) by auto
qed

section \<open>Creation, iteration and destruction\<close>

lemma next_power_of_two_bounds:
  assumes "n \<noteq> 0" "unat n \<le> 2 ^ 63"
  shows "\<exists>p\<le>63. unat (next_power_of_two n) = 2 ^ p \<and> unat n \<le> 2 ^ p \<and> 2 ^ p < 2 * unat n"
  using smear_next_power [OF assms] assms(1) by (simp add: next_power_of_two_def)

lemma next_power_of_two_wraps:
  assumes "2 ^ 63 < unat n"
  shows "next_power_of_two n = 0"
proof -
  define x where "x = n - 1"
  have n0: "n \<noteq> 0" using assms by auto
  then have un: "unat n = Suc (unat x)" by (simp add: x_def unat_minus_one unat_gt_0)
  have "smear_all x = mask (Suc 63)"
    using assms un unat_lt_2_64 [of x] by (intro smear_all_mask) auto
  then have "smear_all x = - 1" by (simp add: mask_eq_exp_minus_1)
  then show ?thesis using n0 by (simp add: next_power_of_two_def x_def)
qed

lemma pow2_max8: "pow2 c \<Longrightarrow> pow2 (max 8 c)"
  by (auto simp: max_def)

lemma map_create_spec:
  fixes xw :: "'k \<Rightarrow> size_t \<Rightarrow> size_t"
  assumes cmp: "cfg_key_compare c = Some cmp"
    and cb: "callbacks_ok (case cfg_hash_func c of Some h \<Rightarrow> h | None \<Rightarrow> xw) cmp l"
    and m: "map_create ok xw (Some c) = Some m"
  shows "hm_inv m l" "hm_lookup m x = None" "hm_size m = 0" "hm_key_compare m = cmp"
    "hm_freed m = []" "\<not> hm_locked m"
proof -
  define cap where "cap = max MIN_CAPACITY
      (if cfg_initial_capacity c > 0 then unat (next_power_of_two (cfg_initial_capacity c)) else INITIAL_MAP_SIZE)"
  let ?b = "m\<lparr>hm_slots := replicate cap (None, None), hm_dib := replicate cap 0, hm_capacity := cap, hm_size := 0\<rparr>"
  have le: "cap \<le> HALF_SIZE_MAX"
    using m cmp by (auto simp: map_create_def Let_def cap_def [symmetric] split: if_splits)
  have f: "hm_hash m = (case cfg_hash_func c of Some h \<Rightarrow> h | None \<Rightarrow> xw)" "hm_key_compare m = cmp"
    "m = ?b" "hm_freed m = []" "\<not> hm_locked m" "hm_max_load_factor m \<le> float_0_95"
    using m cmp le
    by (auto simp: map_create_def Let_def cap_def [symmetric] DEFAULT_MAX_LOAD_FACTOR_def float_0_95_def
        split: if_splits)
  have p: "pow2 cap"
  proof (cases "cfg_initial_capacity c = 0")
    case True
    then show ?thesis by (simp add: cap_def MIN_CAPACITY_def INITIAL_MAP_SIZE_def)
  next
    case False
    let ?n = "cfg_initial_capacity c"
    have "pow2 (unat (next_power_of_two ?n)) \<or> next_power_of_two ?n = 0"
      using next_power_of_two_bounds [OF False] next_power_of_two_wraps [of ?n]
      by (fastforce simp: pow2_def not_le)
    with False pow2_max8 show ?thesis
      by (auto simp: cap_def MIN_CAPACITY_def word_neq_0_conv)
  qed
  have one: "1 < cap" by (simp add: cap_def MIN_CAPACITY_def)
  have bl: "hm_wf m l" "rooted m" "hm_entries m = {#}"
    using hm_wf_blank [OF p one, of m l] cb f(1,2) f(3) [symmetric] by auto
  have cap: "hm_capacity m = cap" "hm_size m = 0" by (subst f(3), simp)+
  with bl f le show "hm_inv m l" by (auto simp: hm_inv_def rooted_def HALF_SIZE_MAX_def)
  show "hm_size m = 0" "hm_key_compare m = cmp" "hm_freed m = []" "\<not> hm_locked m" using f cap by auto
  show "hm_lookup m x = None"
    using hm_lookup_entries [OF bl(1), of x] bl(3) by (cases "hm_lookup m x") auto
qed

text \<open>Repeating \<^verbatim>\<open>map_next\<close> until it returns false, as a caller does.\<close>

fun map_drain :: "nat \<Rightarrow> ('k, 'v) hash_map \<Rightarrow> nat \<Rightarrow> ('k \<times> 'v option) list" where
  "map_drain 0 m it = []"
| "map_drain (Suc n) m it =
     (case map_next m it of (Some e, it') \<Rightarrow> e # map_drain n m it' | (None, it') \<Rightarrow> [])"

fun live_entries :: "('k option \<times> 'v option) list \<Rightarrow> ('k \<times> 'v option) list" where
  "live_entries [] = []"
| "live_entries ((ko, v) # ss) = (case ko of Some k \<Rightarrow> (k, v) # live_entries ss | None \<Rightarrow> live_entries ss)"

lemma live_entries_filled: "image_mset (apfst Some) (mset (live_entries ss)) = filled ss"
  by (induction ss rule: live_entries.induct) (auto split: option.split)

lemma map_next_step:
  assumes "length (hm_slots m) = hm_capacity m" "i \<le> hm_capacity m"
  shows "case live_entries (drop i (hm_slots m)) of
      [] \<Rightarrow> map_next m i = (None, hm_capacity m)
    | e # es \<Rightarrow> \<exists>j. map_next m i = (Some e, j) \<and> i < j \<and> j \<le> hm_capacity m
                 \<and> live_entries (drop j (hm_slots m)) = es"
  using assms
proof (induction m i rule: map_next.induct)
  case (1 m i)
  show ?case
  proof (cases "i < hm_capacity m")
    case False
    with 1 show ?thesis by (simp add: map_next.simps)
  next
    case True
    obtain ko v where s: "hm_slots m ! i = (ko, v)" by (cases "hm_slots m ! i")
    have d: "drop i (hm_slots m) = (ko, v) # drop (Suc i) (hm_slots m)"
      using True 1(2) s by (metis Cons_nth_drop_Suc)
    show ?thesis
    proof (cases ko)
      case None
      then have "rh_key m i = None" using s by (simp add: rh_key_def)
      with 1(1) [OF True this] None True 1(2) d show ?thesis
        by (auto simp: map_next.simps [of m i] Suc_leI dest: Suc_lessD split: list.splits)
    next
      case (Some k)
      with True d s show ?thesis by (simp add: map_next.simps [of m i] rh_key_def rh_val_def)
    qed
  qed
qed

lemma map_drain_from:
  assumes "length (hm_slots m) = hm_capacity m" "i \<le> hm_capacity m" "hm_capacity m - i < n"
  shows "map_drain n m i = live_entries (drop i (hm_slots m))"
  using assms
proof (induction n arbitrary: i)
  case (Suc n)
  show ?case
  proof (cases "live_entries (drop i (hm_slots m))")
    case Nil
    with map_next_step [OF Suc.prems(1,2)] show ?thesis by simp
  next
    case (Cons e es)
    with map_next_step [OF Suc.prems(1,2)] obtain j where
      "map_next m i = (Some e, j)" "i < j" "j \<le> hm_capacity m" "live_entries (drop j (hm_slots m)) = es"
      by auto
    with Suc.IH [of j] Suc.prems Cons show ?thesis by simp
  qed
qed simp

lemma destroy_slots_live:
  "destroy_slots kf vf ss = concat (map (\<lambda>(k, v). (if kf then [Inl k] else []) @ (if vf then [Inr v] else []))
     (live_entries ss))"
  by (induction ss rule: live_entries.induct) (auto split: option.split)

end
