(* ===== verification/Dictionary_Spec.thy ===== *)
theory Dictionary_Spec
  imports Prelude
begin

text \<open>
  The contract of a dictionary: an invariant, a lookup function that abstracts the state to
  a partial map, an insertion that may fail and then changes nothing, and a deletion; \<open>'e\<close> is what
  the environment decides about an insertion, such as the outcome of an allocation.  Keys
  are compared by \<open>same\<close>, an equivalence on every legal state.  \<open>dict_run\<close> performs a list of
  operations on the implementation and \<open>dict_replay\<close> performs the successful ones on the
  abstract map; the locale shows once that they agree.
\<close>

datatype ('e, 'k, 'v) dict_op = Put 'e 'k 'v | Del 'k

fun dict_run ::
  "('e \<Rightarrow> 's \<Rightarrow> 'k \<Rightarrow> 'v \<Rightarrow> bool \<times> 's) \<Rightarrow> ('s \<Rightarrow> 'k \<Rightarrow> 's) \<Rightarrow> 's \<Rightarrow> ('e, 'k, 'v) dict_op list \<Rightarrow> bool list \<times> 's" where
  "dict_run put del s [] = ([], s)"
| "dict_run put del s (Put e k v # ops) =
     (let (ok, s1) = put e s k v; (oks, s2) = dict_run put del s1 ops in (ok # oks, s2))"
| "dict_run put del s (Del k # ops) =
     (let (oks, s2) = dict_run put del (del s k) ops in (True # oks, s2))"

fun dict_replay ::
  "('k \<Rightarrow> 'k \<Rightarrow> bool) \<Rightarrow> ('k \<Rightarrow> 'v option) \<Rightarrow> ('e, 'k, 'v) dict_op list \<Rightarrow> bool list \<Rightarrow> 'k \<Rightarrow> 'v option" where
  "dict_replay same f (Put e k v # ops) (ok # oks) =
     dict_replay same (if ok then (\<lambda>x. if same k x then Some v else f x) else f) ops oks"
| "dict_replay same f (Del k # ops) (ok # oks) =
     dict_replay same (\<lambda>x. if same k x then None else f x) ops oks"
| "dict_replay same f ops oks = f"

text \<open>The operations of a list that touch a key.\<close>

fun touches :: "('k \<Rightarrow> 'k \<Rightarrow> bool) \<Rightarrow> 'k \<Rightarrow> ('e, 'k, 'v) dict_op \<Rightarrow> bool" where
  "touches same x (Put e k v) = same k x"
| "touches same x (Del k) = same k x"

lemma dict_replay_untouched:
  "\<forall>op\<in>set ops. \<not> touches same x op \<Longrightarrow> dict_replay same f ops oks x = f x"
  by (induction same f ops oks rule: dict_replay.induct) auto

locale dictionary =
  fixes dinv :: "'s \<Rightarrow> bool"
    and dlookup :: "'s \<Rightarrow> 'k \<Rightarrow> 'v option"
    and same :: "'k \<Rightarrow> 'k \<Rightarrow> bool"
    and dput :: "'e \<Rightarrow> 's \<Rightarrow> 'k \<Rightarrow> 'v \<Rightarrow> bool \<times> 's"
    and ddel :: "'s \<Rightarrow> 'k \<Rightarrow> 's"
  assumes put_inv: "dinv s \<Longrightarrow> dinv (snd (dput e s k v))"
    and put_lookup: "dinv s \<Longrightarrow>
      dlookup (snd (dput e s k v)) x = (if fst (dput e s k v) \<and> same k x then Some v else dlookup s x)"
    and del_inv: "dinv s \<Longrightarrow> dinv (ddel s k)"
    and del_lookup: "dinv s \<Longrightarrow> dlookup (ddel s k) x = (if same k x then None else dlookup s x)"
begin

lemma run_refines:
  "dinv s \<Longrightarrow> dict_run dput ddel s ops = (oks, s') \<Longrightarrow>
     dinv s' \<and> length oks = length ops \<and> dlookup s' = dict_replay same (dlookup s) ops oks"
proof (induction ops arbitrary: s oks)
  case (Cons op ops)
  show ?case
  proof (cases op)
    case (Put e k v)
    let ?s = "snd (dput e s k v)"
    obtain oks1 where r: "dict_run dput ddel ?s ops = (oks1, s')" "oks = fst (dput e s k v) # oks1"
      using Cons.prems(2) Put by (auto simp: case_prod_beta Let_def prod_eq_iff)
    have "dlookup ?s = (if fst (dput e s k v) then (\<lambda>x. if same k x then Some v else dlookup s x) else dlookup s)"
      using put_lookup [OF Cons.prems(1)] by (auto simp: fun_eq_iff)
    with Cons.IH [OF put_inv [OF Cons.prems(1)] r(1)] r(2) Put show ?thesis by simp
  next
    case (Del k)
    obtain oks1 where r: "dict_run dput ddel (ddel s k) ops = (oks1, s')" "oks = True # oks1"
      using Cons.prems(2) Del by (auto simp: case_prod_beta Let_def prod_eq_iff)
    have "dlookup (ddel s k) = (\<lambda>x. if same k x then None else dlookup s x)"
      using del_lookup [OF Cons.prems(1)] by auto
    with Cons.IH [OF del_inv [OF Cons.prems(1)] r(1)] r(2) Del show ?thesis by simp
  qed
qed simp

text \<open>A stored value is read back after any operations on other keys.\<close>

lemma put_survives:
  assumes "dinv s" "dput e s k v = (True, s1)" "same k x" "\<forall>op\<in>set ops. \<not> touches same x op"
  shows "dlookup (snd (dict_run dput ddel s1 ops)) x = Some v"
proof -
  have "dinv s1" "dlookup s1 x = Some v"
    using put_inv [OF assms(1), of e k v] put_lookup [OF assms(1), of e k v x] assms by auto
  with run_refines [of s1 ops] dict_replay_untouched [OF assms(4)] show ?thesis
    by (metis prod.collapse)
qed

end

end
