(* ===== verification/Hash_Map_Theorems.thy ===== *)
theory Hash_Map_Theorems
  imports Hash_Map_Correct Dictionary_Spec "HOL-Library.Code_Target_Nat"
begin

text \<open>
  The Robin Hood map as a dictionary: the interpretation of the contract of
  \<^verbatim>\<open>Dictionary_Spec\<close> on \<open>map_set\<close> and \<open>map_remove\<close>, and the properties of the map.  The last
  one shows that the contract needs one key length per map: a resize rehashes every stored key
  with the length of the key being inserted.
\<close>

definition map_put :: "bool \<Rightarrow> size_t \<Rightarrow> ('k, 'v) hash_map \<Rightarrow> 'k \<Rightarrow> 'v option \<Rightarrow> bool \<times> ('k, 'v) hash_map" where
  "map_put alloc_ok l m k v = apsnd the (map_set alloc_ok (Some m) (Some k) l v)"

definition map_del :: "size_t \<Rightarrow> ('k, 'v) hash_map \<Rightarrow> 'k \<Rightarrow> ('k, 'v) hash_map" where
  "map_del l m k = the (snd (the (map_remove (Some m) (Some k) l)))"

lemma map_put_cases:
  assumes "hm_inv m l"
  obtains (fail) "map_put alloc_ok l m k v = (False, m)" "load_reached m" "\<not> can_grow alloc_ok m"
  | (ok) m' where "map_put alloc_ok l m k v = (True, m')" "set_done m m' l k v"
      "\<not> load_reached m \<or> can_grow alloc_ok m"
  using map_set_spec [OF assms, of alloc_ok k v] by (auto simp: map_put_def split: if_splits)

lemma map_del_cases:
  assumes "hm_inv m l"
  obtains (absent) "map_del l m k = m" "hm_lookup m k = None"
  | (gone) k' v where "remove_done m (map_del l m k) l k k' v"
  using map_remove_spec [OF assms, of k] by (auto simp: map_del_def split: option.splits)

lemma hm_lookup_cong:
  assumes "hm_wf m l" "hm_key_compare m k x"
  shows "hm_lookup m k = hm_lookup m x"
proof -
  have "hm_key_compare m k' k \<longleftrightarrow> hm_key_compare m k' x" for k'
    using assms(2) cmp_facts(2,3) [OF hm_wfD(2) [OF assms(1)]] by blast
  then show ?thesis by (intro option_eqI) (simp add: hm_lookup_iff [OF assms(1)])
qed

interpretation hmap: dictionary
  "\<lambda>m. hm_inv m l \<and> hm_key_compare m = cmp"
  "hm_lookup :: ('k, 'v) hash_map \<Rightarrow> 'k \<Rightarrow> 'v option option"
  cmp "\<lambda>alloc_ok. map_put alloc_ok l" "map_del l"
  for l cmp
proof unfold_locales
  fix s :: "('k, 'v) hash_map" and k x v alloc_ok
  assume inv: "hm_inv s l \<and> hm_key_compare s = cmp"
  then have i: "hm_inv s l" and c: "hm_key_compare s = cmp" by auto
  show "hm_inv (snd (map_put alloc_ok l s k v)) l \<and> hm_key_compare (snd (map_put alloc_ok l s k v)) = cmp"
    using i by (cases rule: map_put_cases [of s l alloc_ok k v])
      (use inv in \<open>auto simp: set_done_def same_policy_def\<close>)
  show "hm_lookup (snd (map_put alloc_ok l s k v)) x =
      (if fst (map_put alloc_ok l s k v) \<and> cmp k x then Some v else hm_lookup s x)"
    using i by (cases rule: map_put_cases [of s l alloc_ok k v]) (use inv in \<open>auto simp: set_done_def\<close>)
  show "hm_inv (map_del l s k) l \<and> hm_key_compare (map_del l s k) = cmp"
    using i by (cases rule: map_del_cases [of s l k]) (use inv in \<open>auto simp: remove_done_def same_policy_def\<close>)
  have none: "hm_lookup s x = None" if "hm_lookup s k = None" "cmp k x"
    using that c hm_lookup_cong [of s l k x] i by (simp add: hm_inv_def)
  show "hm_lookup (map_del l s k) x = (if cmp k x then None else hm_lookup s x)"
    using i by (cases rule: map_del_cases [of s l k]) (use c none in \<open>auto simp: remove_done_def\<close>)
qed

section \<open>Properties\<close>

text \<open>
  A concrete map for the witnesses: number keys, hashed by their value, compared by equality,
  in a table of eight slots.
\<close>

definition demo_config :: "nat map_config" where
  "demo_config = \<lparr>cfg_initial_capacity = 8, cfg_key_compare = Some (=), cfg_key_free = False,
     cfg_value_free = True, cfg_max_load_factor = 0, cfg_hash_func = Some (\<lambda>k l. of_nat k)\<rparr>"

definition demo_map :: "(nat, string) hash_map" where
  "demo_map = the (map_create True (\<lambda>k l. 0) (Some demo_config))"

lemma demo_map_created: "map_create True (\<lambda>k l. 0) (Some demo_config) = Some demo_map"
  by (simp add: demo_map_def demo_config_def map_create_def next_power_of_two_def smear_all_def smear_def
      MIN_CAPACITY_def HALF_SIZE_MAX_def)

lemma demo_map_inv: "hm_inv demo_map l"
  by (rule map_create_spec(1) [OF _ _ demo_map_created])
     (auto simp: demo_config_def callbacks_ok_def intro: identity_equivp)

lemma demo_map_empty: "hm_lookup demo_map x = None" "hm_size demo_map = 0"
  by (rule map_create_spec(2,3) [OF _ _ demo_map_created, where l = 0];
      auto simp: demo_config_def callbacks_ok_def intro: identity_equivp)+

lemma demo_map_cmp: "hm_key_compare demo_map = (=)"
  by (rule map_create_spec(4) [OF _ _ demo_map_created, where l = 0])
     (auto simp: demo_config_def callbacks_ok_def intro: identity_equivp)

text \<open>(C3)
  \<^verbatim>\<open>map_set\<close> on every branch, for a map whose keys all have length \<open>l\<close>.  It fails exactly when
  the load factor is reached and the table cannot grow, and then changes nothing.  Otherwise it
  returns true and afterwards \<^verbatim>\<open>map_get\<close> returns the new value for every equal key and what it
  returned before for every other key (through any resize and any displacement of other
  entries); the invariant holds again, the length grows exactly when the key was new, and an
  overwritten value is freed exactly once when the map has a value destructor.
\<close>

theorem map_set_correct:
  assumes "hm_inv m l"
  shows "\<exists>ok m'. map_set alloc_ok (Some m) (Some k) l v = (ok, Some m') \<and> hm_inv m' l
    \<and> (ok \<longleftrightarrow> \<not> load_reached m \<or> alloc_ok \<and> 2 * hm_capacity m \<le> HALF_SIZE_MAX)
    \<and> (\<not> ok \<longrightarrow> m' = m)
    \<and> (ok \<longrightarrow>
        (\<forall>x. map_get (Some m') (Some x) l =
             (if hm_key_compare m k x then v else map_get (Some m) (Some x) l))
      \<and> map_length m' = map_length m + (if hm_lookup m k = None then 1 else 0)
      \<and> hm_freed m' = hm_freed m @
          (if hm_value_free m \<and> hm_lookup m k \<noteq> None then [Inr (map_get (Some m) (Some k) l)] else []))"
  using assms
proof (cases rule: map_put_cases [of m l alloc_ok k v])
  case fail
  then have "map_set alloc_ok (Some m) (Some k) l v = (False, Some m)"
    using map_set_spec [OF assms, of alloc_ok k v] by simp
  with fail assms show ?thesis by (auto simp: can_grow_def)
next
  case (ok m')
  have "hm_wf m l" "hm_wf m' l" using assms ok(2) by (auto simp: set_done_def hm_inv_def)
  note get = map_get_lookup [OF this(1)] map_get_lookup [OF this(2)]
  have "map_set alloc_ok (Some m) (Some k) l v = (True, Some m')"
    using map_set_spec [OF assms, of alloc_ok k v] ok by (auto simp: map_put_def)
  with ok(2,3) assms show ?thesis
    by (intro exI [of _ True] exI [of _ m'])
       (auto simp: get set_done_def can_grow_def map_length_def split: option.splits)
qed

theorem map_set_correct_witness:
  "\<exists>ok m'. map_set True (Some demo_map) (Some 3) 8 (Some ''x'') = (ok, Some m') \<and> ok
     \<and> map_get (Some m') (Some 3) 8 = Some ''x''"
proof -
  have "2 * hm_capacity demo_map \<le> HALF_SIZE_MAX"
    by (simp add: demo_map_def demo_config_def map_create_def next_power_of_two_def smear_all_def smear_def
        MIN_CAPACITY_def HALF_SIZE_MAX_def)
  with map_set_correct [OF demo_map_inv, of True 3 8 "Some ''x''"] demo_map_cmp show ?thesis
    by (elim exE conjE) (simp, meson)
qed

text \<open>(C4)
  \<^verbatim>\<open>map_remove\<close> always returns: its unbounded backward-shift loop stops within one turn of the
  table.  It returns false and changes nothing when no equal key is stored; otherwise exactly the
  equal keys disappear from \<^verbatim>\<open>map_get\<close>, every other key keeps its value, the length drops by
  one, the invariant is kept, and the stored key and value are freed once each when the map
  has the destructors.
\<close>

theorem map_remove_correct:
  assumes "hm_inv m l"
  shows "\<exists>ok m'. map_remove (Some m) (Some k) l = Some (ok, Some m') \<and> hm_inv m' l
    \<and> (ok \<longleftrightarrow> hm_lookup m k \<noteq> None)
    \<and> (\<not> ok \<longrightarrow> m' = m)
    \<and> (ok \<longrightarrow>
        (\<forall>x. map_get (Some m') (Some x) l =
             (if hm_key_compare m k x then None else map_get (Some m) (Some x) l))
      \<and> map_length m = Suc (map_length m')
      \<and> (\<exists>k'. hm_key_compare m k' k \<and> hm_freed m' = hm_freed m
           @ (if hm_key_free m then [Inl k'] else [])
           @ (if hm_value_free m then [Inr (map_get (Some m) (Some k) l)] else [])))"
proof (cases "hm_lookup m k")
  case None
  with map_remove_spec [OF assms, of k] assms show ?thesis by auto
next
  case (Some v)
  with map_remove_spec [OF assms, of k] obtain m' k' where
    r: "map_remove (Some m) (Some k) l = Some (True, Some m')" "hm_key_compare m k' k"
       "remove_done m m' l k k' v" by auto
  have "hm_wf m l" "hm_wf m' l" using assms r(3) by (auto simp: remove_done_def hm_inv_def)
  note get = map_get_lookup [OF this(1)] map_get_lookup [OF this(2)]
  from r Some show ?thesis
    by (intro exI [of _ True] exI [of _ m'])
       (auto simp: get remove_done_def map_length_def split: option.splits)
qed

text \<open>A map with one entry.\<close>

lemma one_entry_map:
  obtains m where "map_set True (Some demo_map) (Some 3) 8 (Some ''x'') = (True, Some m)" "hm_inv m 8"
    "hm_lookup m = [3 \<mapsto> Some ''x'']" "map_length m = 1" "hm_key_compare m = (=)"
proof -
  have big: "2 * hm_capacity demo_map \<le> HALF_SIZE_MAX"
    by (simp add: demo_map_def demo_config_def map_create_def next_power_of_two_def smear_all_def smear_def
        MIN_CAPACITY_def HALF_SIZE_MAX_def)
  have grow: "can_grow True demo_map" using big by (simp add: can_grow_def)
  obtain m where m: "map_set True (Some demo_map) (Some 3) 8 (Some ''x'') = (True, Some m)" "set_done demo_map m 8 3 (Some ''x'')"
    using map_set_spec [OF demo_map_inv [of 8], of True 3 "Some ''x''"] grow by auto
  with demo_map_empty demo_map_cmp show thesis
    by (intro that [of m]) (auto simp: set_done_def same_policy_def map_length_def fun_eq_iff)
qed

theorem map_remove_correct_witness:
  "\<exists>m m'. map_set True (Some demo_map) (Some 3) 8 (Some ''x'') = (True, Some m) \<and>
     map_remove (Some m) (Some 3) 8 = Some (True, Some m') \<and> hm_inv m' 8 \<and> map_get (Some m') (Some 3) 8 = None \<and> map_length m' = 0"
proof -
  obtain m where m: "map_set True (Some demo_map) (Some 3) 8 (Some ''x'') = (True, Some m)" "hm_inv m 8"
    "hm_lookup m = [3 \<mapsto> Some ''x'']" "map_length m = 1" "hm_key_compare m = (=)" by (rule one_entry_map)
  from map_remove_correct [OF m(2), of 3] m show ?thesis by auto
qed

text \<open>(C5)
  Any sequence of \<^verbatim>\<open>map_set\<close> and \<^verbatim>\<open>map_remove\<close> calls that all pass the key length \<open>l\<close> refines the
  same sequence on an abstract partial map, whatever the outcome of the allocation in each
  \<^verbatim>\<open>map_set\<close>: the invariant holds at the end, and the table reads exactly as the abstract map after
  the successful operations.  With keys of several lengths this fails, as
  \<open>map_resize_mixed_lengths\<close> below shows.
\<close>

theorem map_operations_refine:
  assumes "hm_inv m l" "dict_run (\<lambda>alloc_ok. map_put alloc_ok l) (map_del l) m ops = (oks, m')"
  shows "hm_inv m' l \<and> length oks = length ops
    \<and> (\<forall>x. map_get (Some m') (Some x) l =
         (case dict_replay (hm_key_compare m) (hm_lookup m) ops oks x of None \<Rightarrow> None | Some v \<Rightarrow> v))"
proof -
  have r: "hm_inv m' l" "length oks = length ops"
    "hm_lookup m' = dict_replay (hm_key_compare m) (hm_lookup m) ops oks"
    using hmap.run_refines [of m l "hm_key_compare m" ops oks m'] assms by auto
  have "hm_wf m' l" using r(1) by (simp add: hm_inv_def)
  with r show ?thesis by (simp add: map_get_lookup)
qed

theorem map_operations_refine_witness:
  "\<exists>oks m'. dict_run (\<lambda>alloc_ok. map_put alloc_ok 8) (map_del 8) demo_map
       [Put True 1 (Some ''a''), Put False 9 (Some ''b''), Del 1] = (oks, m')
     \<and> hm_inv m' 8 \<and> length oks = 3"
  using map_operations_refine [OF demo_map_inv, where l = 8
      and ops = "[Put True 1 (Some ''a''), Put False 9 (Some ''b''), Del 1]"]
  by (metis length_Cons list.size(3) numeral_3_eq_3 surj_pair)

text \<open>
  \<^verbatim>\<open>map_resize\<close> to a larger power of two keeps every entry: the lookup function, the length and
  the invariant are the same, no destructor runs, and no element is dropped by the bounded
  re-insertion loop.
\<close>

theorem map_resize_preserves:
  assumes "hm_inv m l" "hm_capacity m < c" "pow2 c" "c \<le> HALF_SIZE_MAX"
  shows "\<exists>m'. map_resize True m c l = (True, m') \<and> hm_inv m' l \<and> hm_capacity m' = c
    \<and> hm_entries m' = hm_entries m \<and> map_length m' = map_length m \<and> hm_freed m' = hm_freed m
    \<and> (\<forall>x. map_get (Some m') (Some x) l = map_get (Some m) (Some x) l)"
proof -
  define m' where "m' = snd (map_resize True m c l)"
  note r = map_resize_correct [OF assms, folded m'_def]
  have wf: "hm_wf m l" "hm_wf m' l" using assms(1) r(2) by (auto simp: hm_inv_def)
  have "hm_lookup m' = hm_lookup m"
    using r(3,4) wf by (intro entries_lookup [of m l m']) (auto simp: same_policy_def)
  with r wf show ?thesis
    by (intro exI [of _ m']) (auto simp: map_get_lookup m'_def map_length_def prod_eq_iff)
qed

theorem map_resize_preserves_witness:
  "\<exists>m'. map_resize True demo_map 32 8 = (True, m') \<and> hm_capacity m' = 32"
proof -
  have "hm_capacity demo_map < 32" "(32::nat) \<le> HALF_SIZE_MAX"
    by (simp_all add: demo_map_def demo_config_def map_create_def next_power_of_two_def smear_all_def
        smear_def MIN_CAPACITY_def HALF_SIZE_MAX_def)
  from map_resize_preserves [OF demo_map_inv this(1) _ this(2)] show ?thesis by auto
qed

text \<open>(C6)
  Iterating with \<^verbatim>\<open>map_next\<close> until it returns false visits exactly the stored entries, each
  once: the visited list has \<^verbatim>\<open>map_length\<close> elements, as a multiset it is the content of the
  table, and \<^verbatim>\<open>map_get\<close> returns for each visited key the visited value.
\<close>

theorem map_iteration_complete:
  assumes "hm_inv m l" "hm_capacity m < n"
  shows "length (map_drain n m (map_iter m)) = map_length m
    \<and> image_mset (apfst Some) (mset (map_drain n m (map_iter m))) = hm_entries m
    \<and> (\<forall>(k, v) \<in> set (map_drain n m (map_iter m)). map_get (Some m) (Some k) l = v)"
proof -
  let ?es = "live_entries (hm_slots m)"
  have wf: "hm_wf m l" and sz: "hm_size m = size (hm_entries m)" using assms by (auto simp: hm_inv_def)
  have "map_drain n m 0 = ?es"
    using map_drain_from [of m 0 n] assms hm_wfD(1) [OF wf] by (simp add: hm_shape_def)
  moreover have en: "image_mset (apfst Some) (mset ?es) = hm_entries m"
    by (simp add: live_entries_filled hm_entries_filled)
  moreover have "length ?es = hm_size m" using arg_cong [OF en, of size] sz by simp
  moreover have "map_get (Some m) (Some k) l = v" if "(k, v) \<in> set ?es" for k v
  proof -
    have "(Some k, v) \<in># hm_entries m" unfolding en [symmetric] using that by force
    then have "hm_lookup m k = Some v"
      using cmp_facts(1) [OF hm_wfD(2) [OF wf]] by (auto simp: hm_lookup_entries [OF wf])
    then show ?thesis by (simp add: map_get_lookup [OF wf])
  qed
  ultimately show ?thesis by (auto simp: map_iter_def map_length_def)
qed

theorem map_iteration_complete_witness:
  "\<exists>m. map_set True (Some demo_map) (Some 3) 8 (Some ''x'') = (True, Some m) \<and>
     map_drain (Suc (hm_capacity m)) m (map_iter m) = [(3, Some ''x'')]"
proof -
  obtain m where m: "map_set True (Some demo_map) (Some 3) 8 (Some ''x'') = (True, Some m)" "hm_inv m 8"
    "hm_lookup m = [3 \<mapsto> Some ''x'']" "map_length m = 1" "hm_key_compare m = (=)" by (rule one_entry_map)
  let ?d = "map_drain (Suc (hm_capacity m)) m (map_iter m)"
  have d: "length ?d = 1" "image_mset (apfst Some) (mset ?d) = hm_entries m"
    using map_iteration_complete [OF m(2), of "Suc (hm_capacity m)"] m(4) by auto
  then obtain k v where kv: "?d = [(k, v)]" by (cases ?d) auto
  have wf: "hm_wf m 8" using m(2) by (simp add: hm_inv_def)
  have "(Some k, v) \<in># hm_entries m" using d(2) [symmetric] kv by simp
  then have "hm_lookup m k = Some v" using hm_lookup_entries [OF wf, of k v] m(5) by auto
  then show ?thesis using m(1,3) kv by (auto split: if_splits)
qed



text \<open>
  Keys of different lengths: byte strings hashed by the sum of the first \<open>len\<close> bytes.  One
  key of two bytes is stored first, then six keys of one byte, the last of which makes the
  table grow.
\<close>

definition sum_hash :: "u8 list \<Rightarrow> size_t \<Rightarrow> size_t" where
  "sum_hash k l = fold (\<lambda>b h. h + ucast b) (take (unat l) k) 0"

definition mixed_map :: "(u8 list, nat) hash_map" where
  "mixed_map = the (map_create True sum_hash (Some \<lparr>cfg_initial_capacity = 8, cfg_key_compare = Some (=),
     cfg_key_free = False, cfg_value_free = False, cfg_max_load_factor = 0, cfg_hash_func = None\<rparr>))"

definition mixed_sets :: "(u8 list, nat) hash_map option" where
  "mixed_sets = fold (\<lambda>(k, v) m. snd (map_set True m (Some k) (of_nat (length k)) (Some v)))
     [([1, 1], 0), ([3], 1), ([4], 2), ([5], 3), ([6], 4), ([7], 5), ([0], 6)] (Some mixed_map)"

text \<open>
  With keys of two lengths a resize loses an entry: the two-byte key \<open>[1, 1]\<close> was stored and never
  removed, the map reports seven entries, and \<^verbatim>\<open>map_get\<close> returns NULL for it, because
  \<^verbatim>\<open>map_resize\<close> rehashed it with the length one of the key being inserted.
\<close>

theorem map_resize_mixed_lengths:
  "\<exists>m. mixed_sets = Some m \<and> map_length m = 7 \<and> (Some [1, 1], Some 0) \<in> set (hm_slots m)
     \<and> map_get (Some m) (Some [1, 1]) 2 = None"
proof -
  have "(case mixed_sets of None \<Rightarrow> False | Some m \<Rightarrow> map_length m = 7 \<and> (Some [1, 1], Some 0) \<in> set (hm_slots m)
     \<and> map_get (Some m) (Some [1, 1]) 2 = None)"
    by code_simp
  then show ?thesis by (auto split: option.splits)
qed

end
