(* ===== verification/Hash_Set.thy ===== *)
theory Hash_Set
  imports Probe_Ring
begin

text \<open>
  The open-addressed hash set of \<^verbatim>\<open>include/hashset.h\<close>: one metadata byte and one inline key
  per slot, linear probing, growth at three quarters, and a removal that walks the cluster with
  two cursors.  A key is the list of its \<^verbatim>\<open>key_size\<close> bytes; a key slot that was never
  written is \<open>None\<close>.  Indices are natural numbers below the capacity, which is a power of two
  of at most \<open>2 ^ 63\<close>; the capacity computation of \<^verbatim>\<open>hashset_create\<close> is kept at 64 bits because
  it can wrap.  Which capacities can be allocated is an argument; the byte count \<^verbatim>\<open>cap * key_size\<close> of
  the key array, which the code does not check, is taken not to wrap.
\<close>

section \<open>Model\<close>

type_synonym hs_key = "u8 list"

record hashset_t =
  hs_meta :: "u8 list"
  hs_keys :: "hs_key option list"
  hs_capacity :: nat
  hs_size :: nat
  hs_key_size :: nat
  hs_hash_fn :: "hs_key \<Rightarrow> nat \<Rightarrow> u64"
  hs_equals_fn :: "hs_key \<Rightarrow> hs_key \<Rightarrow> nat \<Rightarrow> bool"

definition HASHSET_DEFAULT_CAPACITY :: size_t where "HASHSET_DEFAULT_CAPACITY = 16"
definition HASHSET_LOAD_FACTOR :: rat where "HASHSET_LOAD_FACTOR = 3 / 4"
definition HS_EMPTY :: u8 where "HS_EMPTY = 0"
definition HS_DELETED :: u8 where "HS_DELETED = 1"

definition HS_FINGERPRINT :: "u64 \<Rightarrow> u8" where
  "HS_FINGERPRINT h = ucast (drop_bit 7 h OR 2)"

fun fnv_loop :: "u8 list \<Rightarrow> u64 \<Rightarrow> u64" where
  "fnv_loop [] hash = hash"
| "fnv_loop (b # bytes) hash = fnv_loop bytes ((hash XOR ucast b) * 1099511628211)"

definition hashset_default_hash :: "hs_key \<Rightarrow> nat \<Rightarrow> u64" where
  "hashset_default_hash key key_size = fnv_loop (take key_size key) 14695981039346656037"

definition hashset_default_equals :: "hs_key \<Rightarrow> hs_key \<Rightarrow> nat \<Rightarrow> bool" where
  "hashset_default_equals a b ks \<longleftrightarrow> take ks a = take ks b"

definition hs_slot :: "nat \<Rightarrow> nat \<Rightarrow> nat \<Rightarrow> nat" where
  "hs_slot base i cap_mask = (base + i) AND cap_mask"

definition hs_key :: "hashset_t \<Rightarrow> nat \<Rightarrow> hs_key" where
  "hs_key s idx = the (hs_keys s ! idx)"

definition hs_hash :: "hashset_t \<Rightarrow> hs_key \<Rightarrow> u64" where
  "hs_hash s k = hs_hash_fn s k (hs_key_size s)"

definition hs_eq :: "hashset_t \<Rightarrow> hs_key \<Rightarrow> hs_key \<Rightarrow> bool" where
  "hs_eq s a b = hs_equals_fn s a b (hs_key_size s)"

text \<open>The rounding loop of \<^verbatim>\<open>hashset_create\<close>; \<open>None\<close> means that it never ends.\<close>

partial_function (option) round_capacity :: "size_t \<Rightarrow> size_t \<Rightarrow> size_t option" where
  "round_capacity initial cap =
     (if cap < initial then round_capacity initial (push_bit 1 cap) else Some cap)"

declare round_capacity.simps [code]

definition hashset_create ::
  "(nat \<Rightarrow> bool) \<Rightarrow> nat \<Rightarrow> size_t \<Rightarrow> (hs_key \<Rightarrow> nat \<Rightarrow> u64) option \<Rightarrow> (hs_key \<Rightarrow> hs_key \<Rightarrow> nat \<Rightarrow> bool) option
     \<Rightarrow> hashset_t option option" where
  "hashset_create alloc key_size initial_capacity hash_fn equals_fn =
     (if key_size = 0 then Some None
      else do {
        cap \<leftarrow> round_capacity initial_capacity HASHSET_DEFAULT_CAPACITY;
        Some (if \<not> alloc (unat cap) then None
              else Some \<lparr>hs_meta = replicate (unat cap) HS_EMPTY, hs_keys = replicate (unat cap) None,
                         hs_capacity = unat cap, hs_size = 0, hs_key_size = key_size,
                         hs_hash_fn = (case hash_fn of Some f \<Rightarrow> f | None \<Rightarrow> hashset_default_hash),
                         hs_equals_fn = (case equals_fn of Some f \<Rightarrow> f | None \<Rightarrow> hashset_default_equals)\<rparr>) })"

text \<open>Destroying frees the three blocks: there is no set afterwards.\<close>

definition hashset_destroy :: "hashset_t option \<Rightarrow> hashset_t option" where
  "hashset_destroy so = None"

text \<open>
  The probe shared by \<^verbatim>\<open>hashset_contains\<close> and the first half of \<^verbatim>\<open>hashset_remove\<close>: the slot that
  holds an equal key, if the probe finds one.
\<close>

fun hs_find :: "nat \<Rightarrow> hashset_t \<Rightarrow> hs_key \<Rightarrow> u8 \<Rightarrow> nat \<Rightarrow> nat option" where
  "hs_find 0 s key fp idx = None"
| "hs_find (Suc n) s key fp idx =
     (let m = hs_meta s ! idx in
      if m = HS_EMPTY then None
      else if m \<noteq> HS_DELETED \<and> m = fp \<and> hs_eq s (hs_key s idx) key then Some idx
      else hs_find n s key fp (hs_slot idx 1 (hs_capacity s - 1)))"

definition hs_home :: "hashset_t \<Rightarrow> hs_key \<Rightarrow> nat" where
  "hs_home s key = unat (hs_hash s key) AND (hs_capacity s - 1)"

definition hashset_contains :: "hashset_t option \<Rightarrow> hs_key option \<Rightarrow> bool" where
  "hashset_contains so ko =
     (case (so, ko) of
        (Some s, Some key) \<Rightarrow>
          hs_find (hs_capacity s) s key (HS_FINGERPRINT (hs_hash s key)) (hs_home s key) \<noteq> None
      | _ \<Rightarrow> False)"

text \<open>
  \<^verbatim>\<open>while (new_meta[idx] != EMPTY)\<close>: \<open>None\<close> when no empty slot is met in \<open>n\<close> steps.
\<close>

fun probe_empty :: "nat \<Rightarrow> u8 list \<Rightarrow> nat \<Rightarrow> nat \<Rightarrow> nat option" where
  "probe_empty 0 meta cap_mask idx = None"
| "probe_empty (Suc n) meta cap_mask idx =
     (if meta ! idx \<noteq> HS_EMPTY then probe_empty n meta cap_mask ((idx + 1) AND cap_mask) else Some idx)"

text \<open>The copy loop of \<^verbatim>\<open>_hs_rehash\<close> over the old slots \<open>i, i + 1, \<dots>\<close> (\<open>n\<close> of them).\<close>

fun rehash_from ::
  "nat \<Rightarrow> nat \<Rightarrow> hashset_t \<Rightarrow> nat \<Rightarrow> u8 list \<times> hs_key option list \<Rightarrow> (u8 list \<times> hs_key option list) option" where
  "rehash_from 0 i s new_cap t = Some t"
| "rehash_from (Suc n) i s new_cap t =
     (if hs_meta s ! i < 2 then rehash_from n (i + 1) s new_cap t
      else
        let k = hs_key s i; h = hs_hash s k in
        (case probe_empty new_cap (fst t) (new_cap - 1) (unat h AND (new_cap - 1)) of
           None \<Rightarrow> None
         | Some idx \<Rightarrow> rehash_from n (i + 1) s new_cap
                         ((fst t)[idx := HS_FINGERPRINT h], (snd t)[idx := Some k])))"

definition hs_rehash :: "(nat \<Rightarrow> bool) \<Rightarrow> hashset_t \<Rightarrow> nat \<Rightarrow> (bool \<times> hashset_t) option" where
  "hs_rehash alloc s new_cap =
     (if \<not> alloc new_cap then Some (False, s)
      else map_option (\<lambda>t. (True, s\<lparr>hs_meta := fst t, hs_keys := snd t, hs_capacity := new_cap\<rparr>))
             (rehash_from (hs_capacity s) 0 s new_cap (replicate new_cap HS_EMPTY, replicate new_cap None)))"

definition hs_store :: "hashset_t \<Rightarrow> nat \<Rightarrow> u8 \<Rightarrow> hs_key \<Rightarrow> hashset_t" where
  "hs_store s i fp k = s\<lparr>hs_meta := (hs_meta s)[i := fp], hs_keys := (hs_keys s)[i := Some k]\<rparr>"

fun add_loop :: "nat \<Rightarrow> hashset_t \<Rightarrow> hs_key \<Rightarrow> u8 \<Rightarrow> nat \<Rightarrow> nat option \<Rightarrow> bool \<times> hashset_t" where
  "add_loop 0 s key fp idx first_del =
     (case first_del of
        Some d \<Rightarrow> (True, (hs_store s d fp key)\<lparr>hs_size := hs_size s + 1\<rparr>)
      | None \<Rightarrow> (False, s))"
| "add_loop (Suc n) s key fp idx first_del =
     (let m = hs_meta s ! idx in
      if m = HS_EMPTY
      then let ins = (case first_del of Some d \<Rightarrow> d | None \<Rightarrow> idx)
           in (True, (hs_store s ins fp key)\<lparr>hs_size := hs_size s + 1\<rparr>)
      else if m = HS_DELETED
      then add_loop n s key fp (hs_slot idx 1 (hs_capacity s - 1))
             (case first_del of Some d \<Rightarrow> Some d | None \<Rightarrow> Some idx)
      else if m = fp \<and> hs_eq s (hs_key s idx) key then (True, s)
      else add_loop n s key fp (hs_slot idx 1 (hs_capacity s - 1)) first_del)"

text \<open>\<^verbatim>\<open>(double)(size + 1) / (double)capacity > 0.75\<close>, with 53 significant bits.\<close>

definition load_exceeded :: "hashset_t \<Rightarrow> bool" where
  "load_exceeded s \<longleftrightarrow>
     rat_of_nat (round_sig 53 (hs_size s + 1)) / rat_of_nat (round_sig 53 (hs_capacity s)) > HASHSET_LOAD_FACTOR"

definition hashset_add ::
  "(nat \<Rightarrow> bool) \<Rightarrow> hashset_t option \<Rightarrow> hs_key option \<Rightarrow> (bool \<times> hashset_t option) option" where
  "hashset_add alloc so ko =
     (case (so, ko) of
        (Some s, Some key) \<Rightarrow> do {
          (grown, s1) \<leftarrow> (if load_exceeded s then hs_rehash alloc s (hs_capacity s * 2 mod 2 ^ 64) else Some (True, s));
          Some (if \<not> grown then (False, Some s1)
                else apsnd Some (add_loop (hs_capacity s1) s1 key (HS_FINGERPRINT (hs_hash s1 key))
                                   (hs_home s1 key) None)) }
      | _ \<Rightarrow> Some (False, so))"

text \<open>The dual-cursor backward shift of \<^verbatim>\<open>hashset_remove\<close>; it returns the table and the final hole.\<close>

fun remove_shift :: "nat \<Rightarrow> hashset_t \<Rightarrow> nat \<Rightarrow> nat \<Rightarrow> hashset_t \<times> nat" where
  "remove_shift 0 s hole scan = (s, hole)"
| "remove_shift (Suc n) s hole scan =
     (let cap_mask = hs_capacity s - 1 in
      if hs_meta s ! scan < 2 then (s, hole)
      else
        let s_nat = hs_home s (hs_key s scan);
            d_scan = (scan + hs_capacity s - s_nat) AND cap_mask;
            d_hole = (hole + hs_capacity s - s_nat) AND cap_mask
        in if d_hole < d_scan
           then remove_shift n (hs_store s hole (hs_meta s ! scan) (hs_key s scan)) scan ((scan + 1) AND cap_mask)
           else remove_shift n s hole ((scan + 1) AND cap_mask))"

definition hashset_remove :: "hashset_t option \<Rightarrow> hs_key option \<Rightarrow> bool \<times> hashset_t option" where
  "hashset_remove so ko =
     (case (so, ko) of
        (Some s, Some key) \<Rightarrow>
          (case hs_find (hs_capacity s) s key (HS_FINGERPRINT (hs_hash s key)) (hs_home s key) of
             None \<Rightarrow> (False, so)
           | Some pos \<Rightarrow>
               let (s1, hole) = remove_shift (hs_capacity s - 1) s pos ((pos + 1) AND (hs_capacity s - 1))
               in (True, Some (s1\<lparr>hs_meta := (hs_meta s1)[hole := HS_EMPTY], hs_size := hs_size s1 - 1\<rparr>)))
      | _ \<Rightarrow> (False, so))"

definition hashset_size :: "hashset_t option \<Rightarrow> nat" where
  "hashset_size so = (case so of Some s \<Rightarrow> hs_size s | None \<Rightarrow> 0)"

definition hashset_capacity :: "hashset_t option \<Rightarrow> nat" where
  "hashset_capacity so = (case so of Some s \<Rightarrow> hs_capacity s | None \<Rightarrow> 0)"

definition hashset_isempty :: "hashset_t option \<Rightarrow> bool" where
  "hashset_isempty so = (case so of Some s \<Rightarrow> hs_size s = 0 | None \<Rightarrow> True)"

definition hashset_clear :: "hashset_t \<Rightarrow> hashset_t" where
  "hashset_clear s = s\<lparr>hs_meta := replicate (hs_capacity s) HS_EMPTY, hs_size := 0\<rparr>"

text \<open>
  The loops of the set operations: add to \<open>r\<close> the keys of \<open>src\<close> that satisfy \<open>P\<close>.  The result
  of each \<^verbatim>\<open>hashset_add\<close> is ignored by the code; \<open>allocs\<close> says for each call which allocations
  would succeed.
\<close>

fun add_filtered ::
  "(nat \<Rightarrow> nat \<Rightarrow> bool) \<Rightarrow> (hs_key \<Rightarrow> bool) \<Rightarrow> hashset_t \<Rightarrow> nat \<Rightarrow> nat \<Rightarrow> hashset_t \<Rightarrow> hashset_t option" where
  "add_filtered allocs P src 0 i r = Some r"
| "add_filtered allocs P src (Suc n) i r =
     (if hs_meta src ! i \<ge> 2 \<and> P (hs_key src i)
      then do { res \<leftarrow> hashset_add (allocs i) (Some r) (Some (hs_key src i));
                add_filtered allocs P src n (i + 1) (the (snd res)) }
      else add_filtered allocs P src n (i + 1) r)"

definition hashset_union ::
  "(nat \<Rightarrow> bool) \<Rightarrow> (nat \<Rightarrow> nat \<Rightarrow> bool) \<Rightarrow> (nat \<Rightarrow> nat \<Rightarrow> bool) \<Rightarrow> hashset_t option \<Rightarrow> hashset_t option \<Rightarrow> hashset_t option option" where
  "hashset_union ok0 okA okB ao bo =
     (case (ao, bo) of
        (Some A, Some B) \<Rightarrow>
          if hs_key_size A \<noteq> hs_key_size B then Some None
          else do {
            ro \<leftarrow> hashset_create ok0 (hs_key_size A) (of_nat (hs_size A + hs_size B))
                    (Some (hs_hash_fn A)) (Some (hs_equals_fn A));
            (case ro of
               None \<Rightarrow> Some None
             | Some r \<Rightarrow> do {
                 r1 \<leftarrow> add_filtered okA (\<lambda>k. True) A (hs_capacity A) 0 r;
                 r2 \<leftarrow> add_filtered okB (\<lambda>k. True) B (hs_capacity B) 0 r1;
                 Some (Some r2) }) }
      | _ \<Rightarrow> Some None)"

definition hashset_intersection ::
  "(nat \<Rightarrow> bool) \<Rightarrow> (nat \<Rightarrow> nat \<Rightarrow> bool) \<Rightarrow> hashset_t option \<Rightarrow> hashset_t option \<Rightarrow> hashset_t option option" where
  "hashset_intersection ok0 ok1 ao bo =
     (case (ao, bo) of
        (Some A, Some B) \<Rightarrow>
          if hs_key_size A \<noteq> hs_key_size B then Some None
          else
            let small = (if hs_size A \<le> hs_size B then A else B);
                large = (if hs_size A \<le> hs_size B then B else A)
            in do {
              ro \<leftarrow> hashset_create ok0 (hs_key_size A) (of_nat (hs_size small))
                      (Some (hs_hash_fn A)) (Some (hs_equals_fn A));
              (case ro of
                 None \<Rightarrow> Some None
               | Some r \<Rightarrow> map_option Some
                   (add_filtered ok1 (\<lambda>k. hashset_contains (Some large) (Some k)) small (hs_capacity small) 0 r)) }
      | _ \<Rightarrow> Some None)"

definition hashset_difference ::
  "(nat \<Rightarrow> bool) \<Rightarrow> (nat \<Rightarrow> nat \<Rightarrow> bool) \<Rightarrow> hashset_t option \<Rightarrow> hashset_t option \<Rightarrow> hashset_t option option" where
  "hashset_difference ok0 ok1 ao bo =
     (case (ao, bo) of
        (Some A, Some B) \<Rightarrow>
          if hs_key_size A \<noteq> hs_key_size B then Some None
          else do {
            ro \<leftarrow> hashset_create ok0 (hs_key_size A) (of_nat (hs_size A))
                    (Some (hs_hash_fn A)) (Some (hs_equals_fn A));
            (case ro of
               None \<Rightarrow> Some None
             | Some r \<Rightarrow> map_option Some
                 (add_filtered ok1 (\<lambda>k. \<not> hashset_contains (Some B) (Some k)) A (hs_capacity A) 0 r)) }
      | _ \<Rightarrow> Some None)"

definition hashset_symmetric_difference ::
  "(nat \<Rightarrow> bool) \<Rightarrow> (nat \<Rightarrow> nat \<Rightarrow> bool) \<Rightarrow> (nat \<Rightarrow> nat \<Rightarrow> bool) \<Rightarrow> hashset_t option \<Rightarrow> hashset_t option \<Rightarrow> hashset_t option option" where
  "hashset_symmetric_difference ok0 okA okB ao bo =
     (case (ao, bo) of
        (Some A, Some B) \<Rightarrow>
          if hs_key_size A \<noteq> hs_key_size B then Some None
          else do {
            ro \<leftarrow> hashset_create ok0 (hs_key_size A) (of_nat (hs_size A + hs_size B))
                    (Some (hs_hash_fn A)) (Some (hs_equals_fn A));
            (case ro of
               None \<Rightarrow> Some None
             | Some r \<Rightarrow> do {
                 r1 \<leftarrow> add_filtered okA (\<lambda>k. \<not> hashset_contains (Some B) (Some k)) A (hs_capacity A) 0 r;
                 r2 \<leftarrow> add_filtered okB (\<lambda>k. \<not> hashset_contains (Some A) (Some k)) B (hs_capacity B) 0 r1;
                 Some (Some r2) }) }
      | _ \<Rightarrow> Some None)"

definition hashset_is_subset :: "hashset_t option \<Rightarrow> hashset_t option \<Rightarrow> bool" where
  "hashset_is_subset ao bo =
     (case (ao, bo) of
        (Some A, Some B) \<Rightarrow>
          hs_key_size A = hs_key_size B \<and> \<not> hs_size A > hs_size B
          \<and> (\<forall>i\<in>set [0..<hs_capacity A]. hs_meta A ! i \<ge> 2 \<longrightarrow> hashset_contains (Some B) (Some (hs_key A i)))
      | _ \<Rightarrow> False)"

definition hashset_is_proper_subset :: "hashset_t option \<Rightarrow> hashset_t option \<Rightarrow> bool" where
  "hashset_is_proper_subset ao bo =
     (case (ao, bo) of
        (Some A, Some B) \<Rightarrow> hs_size A < hs_size B \<and> hashset_is_subset ao bo
      | _ \<Rightarrow> False)"

end
