(* ===== verification/Hash_Set_Correct.thy ===== *)
theory Hash_Set_Correct
  imports Hash_Set Dictionary_Spec
begin

text \<open>
  Correctness of the hash set.  In a well-formed table every occupied slot carries the
  fingerprint of its key, every slot from the key's home up to it is occupied, and the keys are
  pairwise different.  \<open>hs_has\<close> is the set the table represents.
\<close>

section \<open>Invariant\<close>

definition hs_occ :: "hashset_t \<Rightarrow> nat \<Rightarrow> bool" where
  "hs_occ s i \<longleftrightarrow> hs_meta s ! i \<noteq> HS_EMPTY"

definition hs_callbacks :: "hashset_t \<Rightarrow> bool" where
  "hs_callbacks s \<longleftrightarrow> equivp (hs_eq s) \<and> (\<forall>a b. hs_eq s a b \<longrightarrow> hs_hash s a = hs_hash s b)"

definition hs_shape :: "hashset_t \<Rightarrow> bool" where
  "hs_shape s \<longleftrightarrow> pow2 (hs_capacity s) \<and> 1 < hs_capacity s
     \<and> length (hs_meta s) = hs_capacity s \<and> length (hs_keys s) = hs_capacity s"

text \<open>The distance from slot \<open>h\<close> forward to slot \<open>i\<close> is \<open>ring_back n i h\<close>.\<close>

definition hs_dist :: "hashset_t \<Rightarrow> nat \<Rightarrow> nat" where
  "hs_dist s i = ring_back (hs_capacity s) i (hs_home s (hs_key s i))"

definition hs_filed :: "hashset_t \<Rightarrow> nat \<Rightarrow> bool" where
  "hs_filed s i \<longleftrightarrow> hs_keys s ! i \<noteq> None
     \<and> hs_meta s ! i = HS_FINGERPRINT (hs_hash s (hs_key s i))
     \<and> (\<forall>t\<le>hs_dist s i. hs_occ s (ring_back (hs_capacity s) i t))"

definition hs_wf :: "hashset_t \<Rightarrow> bool" where
  "hs_wf s \<longleftrightarrow> hs_shape s \<and> hs_callbacks s
     \<and> (\<forall>i<hs_capacity s. hs_occ s i \<longrightarrow> hs_filed s i)
     \<and> (\<forall>i<hs_capacity s. \<forall>j<hs_capacity s. i \<noteq> j \<longrightarrow> hs_occ s i \<longrightarrow> hs_occ s j \<longrightarrow>
          \<not> hs_eq s (hs_key s i) (hs_key s j))"

definition hs_slots_used :: "hashset_t \<Rightarrow> nat set" where
  "hs_slots_used s = {i. i < hs_capacity s \<and> hs_occ s i}"

definition hs_has :: "hashset_t \<Rightarrow> hs_key \<Rightarrow> bool" where
  "hs_has s x \<longleftrightarrow> (\<exists>i\<in>hs_slots_used s. hs_eq s (hs_key s i) x)"

text \<open>No allocation of \<open>2 ^ 63\<close> bytes or more succeeds.\<close>

definition alloc_sane :: "(nat \<Rightarrow> bool) \<Rightarrow> bool" where
  "alloc_sane alloc \<longleftrightarrow> (\<forall>c. alloc c \<longrightarrow> c < 2 ^ 63)"

definition hs_inv :: "hashset_t \<Rightarrow> bool" where
  "hs_inv s \<longleftrightarrow> hs_wf s \<and> hs_size s = card (hs_slots_used s) \<and> hs_size s < hs_capacity s
     \<and> hs_capacity s < 2 ^ 63"

lemma finite_slots_used [simp]: "finite (hs_slots_used s)"
  by (simp add: hs_slots_used_def)

lemma fingerprint_ge [simp]:
  "\<not> HS_FINGERPRINT h < 2" "HS_FINGERPRINT h \<noteq> HS_EMPTY" "HS_FINGERPRINT h \<noteq> HS_DELETED"
proof -
  have b: "bit (HS_FINGERPRINT h) 1"
    by (simp add: HS_FINGERPRINT_def bit_simps)
  have nb: "\<not> bit (x :: u8) 1" if "x < 2" for x
  proof -
    have "unat x < 2" using that by (simp add: word_less_nat_alt)
    then have "x = 0 \<or> x = 1" by (simp add: word_unat_eq_iff less_2_cases_iff)
    then show ?thesis by (auto simp: bit_1_iff)
  qed
  from b nb show "\<not> HS_FINGERPRINT h < 2" by blast
  from b show "HS_FINGERPRINT h \<noteq> HS_EMPTY" by (auto simp: HS_EMPTY_def)
  from b show "HS_FINGERPRINT h \<noteq> HS_DELETED" by (auto simp: HS_DELETED_def bit_1_iff)
qed

lemma hs_wfD:
  assumes "hs_wf s"
  shows "hs_shape s" "hs_callbacks s" "\<And>i. i < hs_capacity s \<Longrightarrow> hs_occ s i \<Longrightarrow> hs_filed s i"
    "\<And>i j. i < hs_capacity s \<Longrightarrow> j < hs_capacity s \<Longrightarrow> i \<noteq> j \<Longrightarrow> hs_occ s i \<Longrightarrow> hs_occ s j \<Longrightarrow>
       \<not> hs_eq s (hs_key s i) (hs_key s j)"
  using assms by (auto simp: hs_wf_def)

lemma hs_cmp:
  assumes "hs_callbacks s"
  shows "hs_eq s a a" "hs_eq s a b \<Longrightarrow> hs_eq s b a" "hs_eq s a b \<Longrightarrow> hs_eq s b c \<Longrightarrow> hs_eq s a c"
    "hs_eq s a b \<Longrightarrow> hs_hash s a = hs_hash s b"
  using assms by (auto simp: hs_callbacks_def dest: equivp_reflp equivp_symp intro: equivp_transp)

lemma hs_shape_cap [simp]: "hs_shape s \<Longrightarrow> 0 < hs_capacity s" "hs_shape s \<Longrightarrow> Suc 0 < hs_capacity s"
  by (auto simp: hs_shape_def)

lemma hs_and [simp]: "hs_shape s \<Longrightarrow> i AND (hs_capacity s - Suc 0) = i mod hs_capacity s"
  using and_mask_mod [of "hs_capacity s" i] by (simp add: hs_shape_def)

lemma hs_slot_next [simp]: "hs_shape s \<Longrightarrow> hs_slot i (Suc 0) (hs_capacity s - Suc 0) = Suc i mod hs_capacity s"
  by (simp add: hs_slot_def)

lemma hs_home_less [simp]: "hs_shape s \<Longrightarrow> hs_home s k < hs_capacity s"
  by (simp add: hs_home_def)

lemma occ_meta:
  assumes "hs_wf s" "i < hs_capacity s" "hs_occ s i"
  shows "\<not> hs_meta s ! i < 2" "hs_meta s ! i \<noteq> HS_EMPTY" "hs_meta s ! i \<noteq> HS_DELETED"
    "hs_meta s ! i = HS_FINGERPRINT (hs_hash s (hs_key s i))" "hs_keys s ! i = Some (hs_key s i)"
  using hs_wfD(3) [OF assms] by (auto simp: hs_filed_def hs_key_def)

lemma not_occ_meta: "hs_meta s ! i < 2 \<longleftrightarrow> \<not> hs_occ s i" if "hs_wf s" "i < hs_capacity s" for s i
  using occ_meta(1) [OF that] by (auto simp: hs_occ_def HS_EMPTY_def word_less_nat_alt)

section \<open>Probing\<close>

lemma ring_walk:
  assumes "h < n" "i < n" "s \<le> ring_back n i h"
  shows "(h + s) mod n = ring_back n i (ring_back n i h - s)" "(h + ring_back n i h) mod n = i"
proof -
  have "ring_back n i h < n" using assms by simp
  then have le: "ring_back n i h - s \<le> n" by linarith
  have "(ring_back n i h + h) mod n = i mod n" using assms by (intro ring_back_add) simp
  then show e: "(h + ring_back n i h) mod n = i" using assms by (simp add: add.commute)
  have "((h + s) mod n + (ring_back n i h - s)) mod n = (h + ring_back n i h) mod n"
    unfolding mod_add_left_eq using assms(3) by simp
  with e have "((h + s) mod n + (ring_back n i h - s)) mod n = i mod n" using assms by simp
  then show "(h + s) mod n = ring_back n i (ring_back n i h - s)"
    using assms(1) le by (intro ring_back_unique) auto
qed

lemma ring_walk_neq:
  assumes "h < n" "i < n" "s < ring_back n i h"
  shows "(h + s) mod n \<noteq> i"
proof
  assume "(h + s) mod n = i"
  with ring_walk(1) [of h n i s] assms have "ring_back n i (ring_back n i h - s) = ring_back n i 0" by simp
  moreover have "ring_back n i h < n" using assms by simp
  then have "ring_back n i h - s < n" by (rule less_imp_diff_less)
  moreover have "0 < n" using assms by simp
  ultimately have "ring_back n i h - s = 0" by (rule ring_back_inj)
  with assms show False by simp
qed

text \<open>A slot passed on the way from home to an element: occupied, with another key.\<close>

lemma hs_probe_before:
  assumes wf: "hs_wf s" and i: "i < hs_capacity s" "hs_occ s i" "hs_eq s (hs_key s i) x" and t: "t < hs_dist s i"
  defines "j \<equiv> (hs_home s x + t) mod hs_capacity s"
  shows "j < hs_capacity s" "hs_occ s j" "\<not> hs_eq s (hs_key s j) x"
    "Suc j mod hs_capacity s = (hs_home s x + Suc t) mod hs_capacity s"
    "hs_capacity s - t = Suc (hs_capacity s - Suc t)"
proof -
  let ?n = "hs_capacity s"
  note sh = hs_wfD(1) [OF wf] and cmp = hs_cmp [OF hs_wfD(2) [OF wf]]
  have home: "hs_home s (hs_key s i) = hs_home s x" using cmp(4) [OF i(3)] by (simp add: hs_home_def)
  have h: "hs_home s x < ?n" using sh by simp
  have t': "t < ring_back ?n i (hs_home s x)" using t home by (simp add: hs_dist_def)
  show jn: "j < ?n" using sh by (simp add: j_def)
  have "j = ring_back ?n i (hs_dist s i - t)"
    using ring_walk(1) [OF h i(1), of t] t' home by (simp add: j_def hs_dist_def)
  then show oj: "hs_occ s j" using hs_wfD(3) [OF wf i(1,2)] by (simp add: hs_filed_def)
  have "j \<noteq> i" using ring_walk_neq [OF h i(1) t'] by (simp add: j_def)
  then show "\<not> hs_eq s (hs_key s j) x"
    using hs_wfD(4) [OF wf jn i(1) _ oj i(2)] cmp(2,3) i(3) by blast
  show "Suc j mod ?n = (hs_home s x + Suc t) mod ?n" by (simp add: j_def mod_Suc_eq)
  have "hs_dist s i < ?n" using sh by (simp add: hs_dist_def)
  then show "?n - t = Suc (?n - Suc t)" using t by simp
qed

lemma hs_arrive:
  assumes wf: "hs_wf s" and i: "i < hs_capacity s" "hs_occ s i" "hs_eq s (hs_key s i) x"
  shows "(hs_home s x + hs_dist s i) mod hs_capacity s = i" "0 < hs_capacity s - hs_dist s i"
    "hs_meta s ! i = HS_FINGERPRINT (hs_hash s x)"
proof -
  note sh = hs_wfD(1) [OF wf] and cmp = hs_cmp [OF hs_wfD(2) [OF wf]]
  have home: "hs_home s (hs_key s i) = hs_home s x" using cmp(4) [OF i(3)] by (simp add: hs_home_def)
  show "(hs_home s x + hs_dist s i) mod hs_capacity s = i"
    using ring_walk(2) [OF hs_home_less [OF sh] i(1), of 0 x] by (simp add: hs_dist_def home)
  show "0 < hs_capacity s - hs_dist s i" using sh by (simp add: hs_dist_def)
  show "hs_meta s ! i = HS_FINGERPRINT (hs_hash s x)" using occ_meta(4) [OF wf i(1,2)] cmp(4) [OF i(3)] by simp
qed

lemma hs_find_from:
  assumes wf: "hs_wf s" and i: "i < hs_capacity s" "hs_occ s i" "hs_eq s (hs_key s i) x" and t: "t \<le> hs_dist s i"
  shows "hs_find (hs_capacity s - t) s x (HS_FINGERPRINT (hs_hash s x)) ((hs_home s x + t) mod hs_capacity s) = Some i"
  using t
proof (induction t rule: inc_induct)
  case base
  note ar = hs_arrive [OF wf i]
  obtain m where m: "hs_capacity s - hs_dist s i = Suc m" using ar(2) by (cases "hs_capacity s - hs_dist s i") auto
  show ?case unfolding ar(1) m using occ_meta [OF wf i(1,2)] ar(3) i(3) by (simp add: Let_def)
next
  case (step t)
  note pr = hs_probe_before [OF wf i step.hyps(2)]
  show ?case
    unfolding pr(5) using pr(3,4) occ_meta(2) [OF wf pr(1,2)] step.IH hs_wfD(1) [OF wf]
    by (simp add: Let_def)
qed

lemma hs_find_sound:
  assumes "hs_shape s" "idx < hs_capacity s" "hs_find n s x fp idx = Some i"
  shows "i < hs_capacity s \<and> hs_occ s i \<and> hs_eq s (hs_key s i) x"
  using assms
proof (induction n arbitrary: idx)
  case (Suc n)
  show ?case
  proof (cases "hs_find n s x fp (Suc idx mod hs_capacity s) = Some i")
    case True
    then show ?thesis using Suc.IH [of "Suc idx mod hs_capacity s"] Suc.prems(1) by simp
  next
    case False
    with Suc.prems show ?thesis by (auto simp: Let_def hs_occ_def split: if_splits)
  qed
qed simp

lemma hs_find_iff:
  assumes wf: "hs_wf s"
  shows "hs_find (hs_capacity s) s x (HS_FINGERPRINT (hs_hash s x)) (hs_home s x) = Some i \<longleftrightarrow>
    i < hs_capacity s \<and> hs_occ s i \<and> hs_eq s (hs_key s i) x"
  using hs_find_sound [OF hs_wfD(1) [OF wf] hs_home_less [OF hs_wfD(1) [OF wf]]]
    hs_find_from [OF wf, of i x 0] hs_wfD(1) [OF wf] by (auto simp: mod_less)

lemma contains_has:
  assumes "hs_wf s"
  shows "hashset_contains (Some s) (Some x) \<longleftrightarrow> hs_has s x"
  using hs_find_iff [OF assms, of x]
  by (auto simp: hashset_contains_def hs_has_def hs_slots_used_def simp flip: not_None_eq)

section \<open>Storing a new key\<close>

text \<open>\<open>q\<close> places after \<open>h\<close> lies the first empty slot.\<close>

definition first_empty :: "hashset_t \<Rightarrow> nat \<Rightarrow> nat \<Rightarrow> bool" where
  "first_empty s h q \<longleftrightarrow> q < hs_capacity s \<and> \<not> hs_occ s ((h + q) mod hs_capacity s)
     \<and> (\<forall>t<q. hs_occ s ((h + t) mod hs_capacity s))"

lemma first_empty_exists:
  assumes "hs_shape s" "card (hs_slots_used s) < hs_capacity s" "h < hs_capacity s"
  obtains q where "first_empty s h q"
proof -
  let ?P = "\<lambda>q. \<not> hs_occ s ((h + q) mod hs_capacity s)"
  have "\<exists>e<hs_capacity s. \<not> hs_occ s e"
  proof (rule ccontr)
    assume "\<not> ?thesis"
    then have "hs_slots_used s = {i. i < hs_capacity s}" by (auto simp: hs_slots_used_def)
    with assms(2) show False by simp
  qed
  then obtain e where e: "e < hs_capacity s" "\<not> hs_occ s e" by blast
  obtain q0 where q0: "q0 < hs_capacity s" "e = (h + q0) mod hs_capacity s"
    using ring_forward_surj [OF assms(3) e(1)] by blast
  define q where "q = (LEAST q. ?P q)"
  have "?P q0" using q0 e by simp
  then have "?P q" "q \<le> q0" unfolding q_def by (rule LeastI, rule Least_le)
  moreover have "\<forall>t<q. \<not> ?P t" unfolding q_def using not_less_Least by blast
  ultimately show ?thesis using q0 that [of q] by (auto simp: first_empty_def)
qed

lemma hs_store_simps [simp]:
  "hs_capacity (hs_store s i fp k) = hs_capacity s" "hs_size (hs_store s i fp k) = hs_size s"
  "hs_hash (hs_store s i fp k) = hs_hash s" "hs_eq (hs_store s i fp k) = hs_eq s"
  "hs_home (hs_store s i fp k) = hs_home s"
  by (simp_all add: hs_store_def hs_hash_def hs_eq_def hs_home_def fun_eq_iff)

lemma hs_store_reads:
  assumes "hs_shape s" "i < hs_capacity s"
  shows "hs_meta (hs_store s i fp k) ! j = (if j = i then fp else hs_meta s ! j)"
    "hs_keys (hs_store s i fp k) ! j = (if j = i then Some k else hs_keys s ! j)"
    "hs_key (hs_store s i fp k) j = (if j = i then k else hs_key s j)"
    "hs_occ (hs_store s i fp k) j \<longleftrightarrow> (if j = i then fp \<noteq> HS_EMPTY else hs_occ s j)"
    "hs_shape (hs_store s i fp k)"
  using assms by (auto simp: hs_store_def hs_key_def hs_occ_def hs_shape_def)

lemma hs_callbacks_cong:
  "hs_hash s' = hs_hash s \<Longrightarrow> hs_eq s' = hs_eq s \<Longrightarrow> hs_callbacks s' = hs_callbacks s"
  by (simp add: hs_callbacks_def)

text \<open>What storing a new key does.\<close>

definition hs_grown :: "hashset_t \<Rightarrow> hashset_t \<Rightarrow> hs_key \<Rightarrow> bool" where
  "hs_grown s s' k \<longleftrightarrow> hs_wf s' \<and> hs_capacity s' = hs_capacity s \<and> hs_hash s' = hs_hash s \<and> hs_eq s' = hs_eq s
     \<and> (\<forall>x. hs_has s' x \<longleftrightarrow> hs_has s x \<or> hs_eq s k x)
     \<and> card (hs_slots_used s') = Suc (card (hs_slots_used s))"

lemma hs_store_grown:
  assumes wf: "hs_wf s" and new: "\<not> hs_has s k" and fe: "first_empty s (hs_home s k) q"
  defines "e \<equiv> (hs_home s k + q) mod hs_capacity s"
  shows "hs_grown s (hs_store s e (HS_FINGERPRINT (hs_hash s k)) k) k"
proof -
  let ?n = "hs_capacity s" and ?s = "hs_store s e (HS_FINGERPRINT (hs_hash s k)) k"
  note sh = hs_wfD(1) [OF wf] and cmp = hs_cmp [OF hs_wfD(2) [OF wf]]
  have e: "e < ?n" "\<not> hs_occ s e" using fe sh by (auto simp: first_empty_def e_def)
  note reads = hs_store_reads [OF sh e(1), of "HS_FINGERPRINT (hs_hash s k)" k]
  have used: "hs_slots_used ?s = insert e (hs_slots_used s)"
    using e by (auto simp: hs_slots_used_def reads split: if_splits)
  have "hs_filed ?s i" if i: "i < ?n" "hs_occ ?s i" for i
  proof (cases "i = e")
    case False
    then have "hs_filed s i" using hs_wfD(3) [OF wf i(1)] i(2) by (simp add: reads)
    with False show ?thesis by (auto simp: hs_filed_def hs_dist_def reads)
  next
    case True
    have h: "hs_home s k < ?n" "q < ?n" using sh fe by (auto simp: first_empty_def)
    have "hs_home s k = ring_back ?n e q"
      using h by (intro ring_back_unique) (auto simp: e_def)
    have "(q + hs_home s k) mod ?n = e mod ?n" using sh by (simp add: e_def add.commute)
    then have q: "ring_back ?n e (hs_home s k) = q"
      using h by (intro ring_back_unique [symmetric]) auto
    have "hs_occ ?s (ring_back ?n e t)" if "t \<le> q" for t
    proof (cases t)
      case 0
      then show ?thesis using e by (simp add: reads)
    next
      case (Suc t')
      then have "q - t < q" using that by simp
      have "(hs_home s k + (q - t)) mod ?n = ring_back ?n e t"
        using ring_walk(1) [OF h(1) e(1), of "q - t"] q that by simp
      moreover have "hs_occ s ((hs_home s k + (q - t)) mod ?n)"
        using fe \<open>q - t < q\<close> unfolding first_empty_def by blast
      ultimately show ?thesis by (simp add: reads)
    qed
    with True q show ?thesis by (simp add: hs_filed_def hs_dist_def reads)
  qed
  moreover have "\<not> hs_eq s (hs_key ?s i) (hs_key ?s j)"
    if "i < ?n" "j < ?n" "i \<noteq> j" "hs_occ ?s i" "hs_occ ?s j" for i j
  proof -
    have old: "\<not> hs_eq s (hs_key s a) k" "\<not> hs_eq s k (hs_key s a)" if "a < ?n" "hs_occ s a" for a
      using new that cmp(2) by (auto simp: hs_has_def hs_slots_used_def)
    show ?thesis using that old hs_wfD(4) [OF wf that(1,2,3)] by (auto simp: reads split: if_splits)
  qed
  ultimately have "hs_wf ?s"
    using reads(5) hs_wfD(2) [OF wf] hs_callbacks_cong [of ?s s] by (simp add: hs_wf_def)
  moreover have "hs_has ?s x \<longleftrightarrow> hs_has s x \<or> hs_eq s k x" for x
  proof -
    have "hs_key ?s i = hs_key s i" if "i \<in> hs_slots_used s" for i
      using that e by (auto simp: hs_slots_used_def reads)
    then show ?thesis by (auto simp: hs_has_def used reads)
  qed
  moreover have "card (hs_slots_used ?s) = Suc (card (hs_slots_used s))"
    using e by (simp add: used) (simp add: hs_slots_used_def)
  ultimately show ?thesis by (simp add: hs_grown_def)
qed

lemma add_loop_new_from:
  assumes wf: "hs_wf s" and new: "\<not> hs_has s k" and fe: "first_empty s (hs_home s k) q" and t: "t \<le> q"
  shows "add_loop (hs_capacity s - t) s k fp ((hs_home s k + t) mod hs_capacity s) None
    = (True, (hs_store s ((hs_home s k + q) mod hs_capacity s) fp k)\<lparr>hs_size := hs_size s + 1\<rparr>)"
  using t
proof (induction t rule: inc_induct)
  case base
  have q: "q < hs_capacity s" "\<not> hs_occ s ((hs_home s k + q) mod hs_capacity s)"
    using fe by (auto simp: first_empty_def)
  then obtain m where "hs_capacity s - q = Suc m" by (cases "hs_capacity s - q") auto
  with q show ?case by (simp add: hs_occ_def)
next
  case (step t)
  let ?n = "hs_capacity s" and ?j = "(hs_home s k + t) mod hs_capacity s"
  note sh = hs_wfD(1) [OF wf]
  have j: "?j < ?n" "hs_occ s ?j" using sh fe step.hyps by (auto simp: first_empty_def)
  then have "\<not> hs_eq s (hs_key s ?j) k" using new by (auto simp: hs_has_def hs_slots_used_def)
  moreover have "?n - t = Suc (?n - Suc t)" using fe step.hyps by (auto simp: first_empty_def)
  moreover have "Suc ?j mod ?n = (hs_home s k + Suc t) mod ?n" by (simp add: mod_Suc_eq)
  ultimately show ?case using step.IH occ_meta(2,3) [OF wf j] sh by (simp add: Let_def)
qed

lemma probe_empty_from:
  assumes sh: "hs_shape s" and fe: "first_empty s h q" and t: "t \<le> q"
  shows "probe_empty (hs_capacity s - t) (hs_meta s) (hs_capacity s - 1) ((h + t) mod hs_capacity s)
    = Some ((h + q) mod hs_capacity s)"
  using t
proof (induction t rule: inc_induct)
  case base
  have q: "q < hs_capacity s" "\<not> hs_occ s ((h + q) mod hs_capacity s)"
    using fe by (auto simp: first_empty_def)
  then obtain m where "hs_capacity s - q = Suc m" by (cases "hs_capacity s - q") auto
  with q show ?case by (simp add: hs_occ_def)
next
  case (step t)
  let ?n = "hs_capacity s" and ?j = "(h + t) mod hs_capacity s"
  have "hs_occ s ?j" using fe step.hyps by (auto simp: first_empty_def)
  moreover have "?n - t = Suc (?n - Suc t)" using fe step.hyps by (auto simp: first_empty_def)
  moreover have "Suc ?j mod ?n = (h + Suc t) mod ?n" by (simp add: mod_Suc_eq)
  ultimately show ?case using step.IH sh by (simp add: hs_occ_def)
qed

lemma add_loop_old_from:
  assumes wf: "hs_wf s" and i: "i < hs_capacity s" "hs_occ s i" "hs_eq s (hs_key s i) x" and t: "t \<le> hs_dist s i"
  shows "add_loop (hs_capacity s - t) s x (HS_FINGERPRINT (hs_hash s x)) ((hs_home s x + t) mod hs_capacity s) None
    = (True, s)"
  using t
proof (induction t rule: inc_induct)
  case base
  note ar = hs_arrive [OF wf i]
  obtain m where m: "hs_capacity s - hs_dist s i = Suc m" using ar(2) by (cases "hs_capacity s - hs_dist s i") auto
  show ?case unfolding ar(1) m using occ_meta [OF wf i(1,2)] ar(3) i(3) by (simp add: Let_def)
next
  case (step t)
  note pr = hs_probe_before [OF wf i step.hyps(2)]
  show ?case
    unfolding pr(5) using pr(3,4) occ_meta(2,3) [OF wf pr(1,2)] step.IH hs_wfD(1) [OF wf]
    by (simp add: Let_def)
qed

lemma hs_size_upd [simp]:
  "hs_wf (s\<lparr>hs_size := z\<rparr>) = hs_wf s" "hs_has (s\<lparr>hs_size := z\<rparr>) = hs_has s"
  "hs_slots_used (s\<lparr>hs_size := z\<rparr>) = hs_slots_used s"
  "hs_hash (s\<lparr>hs_size := z\<rparr>) = hs_hash s" "hs_eq (s\<lparr>hs_size := z\<rparr>) = hs_eq s"
proof -
  have a: "hs_occ (s\<lparr>hs_size := z\<rparr>) = hs_occ s" "hs_key (s\<lparr>hs_size := z\<rparr>) = hs_key s"
    "hs_hash (s\<lparr>hs_size := z\<rparr>) = hs_hash s" "hs_eq (s\<lparr>hs_size := z\<rparr>) = hs_eq s"
    by (auto simp: fun_eq_iff hs_occ_def hs_key_def hs_hash_def hs_eq_def)
  then have b: "hs_home (s\<lparr>hs_size := z\<rparr>) = hs_home s" by (simp add: fun_eq_iff hs_home_def)
  show "hs_slots_used (s\<lparr>hs_size := z\<rparr>) = hs_slots_used s" by (simp add: hs_slots_used_def a)
  then show "hs_has (s\<lparr>hs_size := z\<rparr>) = hs_has s" by (simp add: fun_eq_iff hs_has_def a)
  show "hs_wf (s\<lparr>hs_size := z\<rparr>) = hs_wf s"
    by (simp add: hs_wf_def hs_shape_def hs_callbacks_def hs_filed_def hs_dist_def a b)
  show "hs_hash (s\<lparr>hs_size := z\<rparr>) = hs_hash s" "hs_eq (s\<lparr>hs_size := z\<rparr>) = hs_eq s" by (rule a)+
qed

text \<open>The insertion loop on a table with an empty slot.\<close>

definition hs_added :: "hashset_t \<Rightarrow> hashset_t \<Rightarrow> hs_key \<Rightarrow> bool" where
  "hs_added s s' k \<longleftrightarrow> hs_wf s' \<and> hs_capacity s' = hs_capacity s \<and> hs_hash s' = hs_hash s \<and> hs_eq s' = hs_eq s
     \<and> (\<forall>x. hs_has s' x \<longleftrightarrow> hs_has s x \<or> hs_eq s k x)
     \<and> hs_size s' = card (hs_slots_used s') \<and> hs_size s' = hs_size s + (if hs_has s k then 0 else 1)"

lemma add_loop_correct:
  assumes wf: "hs_wf s" and sz: "hs_size s = card (hs_slots_used s)" "hs_size s < hs_capacity s"
  shows "\<exists>s'. add_loop (hs_capacity s) s k (HS_FINGERPRINT (hs_hash s k)) (hs_home s k) None = (True, s')
    \<and> hs_added s s' k"
proof (cases "hs_has s k")
  case True
  then obtain i where i: "i < hs_capacity s" "hs_occ s i" "hs_eq s (hs_key s i) k"
    by (auto simp: hs_has_def hs_slots_used_def)
  have "hs_has s x" if "hs_eq s k x" for x
    using i that hs_cmp(3) [OF hs_wfD(2) [OF wf] i(3) that] by (auto simp: hs_has_def hs_slots_used_def)
  with add_loop_old_from [OF wf i, of 0] wf sz True hs_wfD(1) [OF wf] show ?thesis
    by (auto simp: hs_added_def)
next
  case False
  note sh = hs_wfD(1) [OF wf]
  obtain q where q: "first_empty s (hs_home s k) q"
    using first_empty_exists [OF sh _ hs_home_less [OF sh], of k] sz by auto
  let ?s = "hs_store s ((hs_home s k + q) mod hs_capacity s) (HS_FINGERPRINT (hs_hash s k)) k"
  have g: "hs_grown s ?s k" by (rule hs_store_grown [OF wf False q])
  have "add_loop (hs_capacity s) s k (HS_FINGERPRINT (hs_hash s k)) (hs_home s k) None
      = (True, ?s\<lparr>hs_size := hs_size s + 1\<rparr>)"
    using add_loop_new_from [OF wf False q, of 0] sh by simp
  with g False sz show ?thesis by (auto simp: hs_grown_def hs_added_def)
qed

section \<open>Growing\<close>

definition hs_table :: "hashset_t \<Rightarrow> nat \<Rightarrow> u8 list \<times> hs_key option list \<Rightarrow> hashset_t" where
  "hs_table s c t = s\<lparr>hs_meta := fst t, hs_keys := snd t, hs_capacity := c\<rparr>"

lemma hs_table_simps [simp]:
  "hs_capacity (hs_table s c t) = c" "hs_hash (hs_table s c t) = hs_hash s" "hs_eq (hs_table s c t) = hs_eq s"
  "hs_meta (hs_table s c t) = fst t" "hs_size (hs_table s c t) = hs_size s"
  by (simp_all add: hs_table_def hs_hash_def hs_eq_def fun_eq_iff)

lemma hs_table_home: "hs_home (hs_table s c t) k = unat (hs_hash s k) AND (c - 1)"
  by (simp add: hs_home_def)

lemma hs_table_store: "hs_store (hs_table s c t) i fp k = hs_table s c ((fst t)[i := fp], (snd t)[i := Some k])"
  by (simp add: hs_table_def hs_store_def)

lemma hs_table_blank:
  assumes "pow2 c" "1 < c" "hs_callbacks s"
  defines "b \<equiv> hs_table s c (replicate c HS_EMPTY, replicate c None)"
  shows "hs_wf b" "hs_slots_used b = {}" "\<not> hs_has b x"
proof -
  have o: "\<not> hs_occ b i" if "i < c" for i using that by (simp add: b_def hs_occ_def)
  then show u: "hs_slots_used b = {}" by (auto simp: hs_slots_used_def b_def)
  then show "\<not> hs_has b x" by (simp add: hs_has_def)
  have "hs_callbacks b" using assms(3) hs_callbacks_cong [of b s] by (simp add: b_def)
  moreover have "hs_shape b" using assms(1,2) by (simp add: hs_shape_def b_def hs_table_def)
  moreover have "hs_capacity b = c" by (simp add: b_def)
  ultimately show "hs_wf b" using o by (simp add: hs_wf_def)
qed

lemma rehash_from_correct:
  assumes wf: "hs_wf s" and small: "card (hs_slots_used s) < c"
    and T: "i + n = hs_capacity s" "hs_wf (hs_table s c t)"
      "\<And>x. hs_has (hs_table s c t) x \<longleftrightarrow> (\<exists>j<i. hs_occ s j \<and> hs_eq s (hs_key s j) x)"
      "card (hs_slots_used (hs_table s c t)) = card {j \<in> hs_slots_used s. j < i}"
  shows "\<exists>t'. rehash_from n i s c t = Some t' \<and> hs_wf (hs_table s c t')
    \<and> (\<forall>x. hs_has (hs_table s c t') x \<longleftrightarrow> hs_has s x)
    \<and> card (hs_slots_used (hs_table s c t')) = card (hs_slots_used s)"
  using T
proof (induction n arbitrary: i t)
  case 0
  then have "{j \<in> hs_slots_used s. j < i} = hs_slots_used s"
    and "\<And>x. (\<exists>j<i. hs_occ s j \<and> hs_eq s (hs_key s j) x) \<longleftrightarrow> hs_has s x"
    by (auto simp: hs_slots_used_def hs_has_def)
  with 0 show ?case by simp
next
  case (Suc n)
  let ?T = "hs_table s c t" and ?k = "hs_key s i"
  have i: "i < hs_capacity s" using Suc.prems(1) by simp
  show ?case
  proof (cases "hs_occ s i")
    case False
    then have "{j \<in> hs_slots_used s. j < Suc i} = {j \<in> hs_slots_used s. j < i}"
      by (auto simp: hs_slots_used_def less_Suc_eq)
    moreover have "(\<exists>j<Suc i. hs_occ s j \<and> hs_eq s (hs_key s j) x) \<longleftrightarrow> (\<exists>j<i. hs_occ s j \<and> hs_eq s (hs_key s j) x)" for x
      using False by (auto simp: less_Suc_eq)
    ultimately show ?thesis
      using Suc.IH [of "Suc i" t] Suc.prems False not_occ_meta [OF wf i] by simp
  next
    case True
    have new: "\<not> hs_has ?T ?k"
    proof
      assume "hs_has ?T ?k"
      then obtain j where "j < i" "hs_occ s j" "hs_eq s (hs_key s j) ?k" using Suc.prems(3) by blast
      with hs_wfD(4) [OF wf _ i _ _ True, of j] i show False by simp
    qed
    have split: "{j \<in> hs_slots_used s. j < Suc i} = insert i {j \<in> hs_slots_used s. j < i}"
      using True i by (auto simp: hs_slots_used_def less_Suc_eq)
    then have cardS: "card {j \<in> hs_slots_used s. j < Suc i} = Suc (card {j \<in> hs_slots_used s. j < i})" by simp
    have "card {j \<in> hs_slots_used s. j < i} \<le> card (hs_slots_used s)" by (rule card_mono) auto
    then have "card (hs_slots_used ?T) < hs_capacity ?T" using Suc.prems(4) small by simp
    then obtain q where q: "first_empty ?T (hs_home ?T ?k) q"
      using first_empty_exists [OF hs_wfD(1) [OF Suc.prems(2)] _ hs_home_less [OF hs_wfD(1) [OF Suc.prems(2)]]] by blast
    let ?e = "(hs_home ?T ?k + q) mod c" and ?fp = "HS_FINGERPRINT (hs_hash s ?k)"
    let ?t = "((fst t)[?e := ?fp], (snd t)[?e := Some ?k])"
    have g: "hs_grown ?T (hs_table s c ?t) ?k"
      using hs_store_grown [OF Suc.prems(2) new q] by (simp add: hs_table_store)
    have "probe_empty c (fst t) (c - 1) (hs_home ?T ?k) = Some ?e"
      using probe_empty_from [OF hs_wfD(1) [OF Suc.prems(2)] q, of 0] hs_home_less [OF hs_wfD(1) [OF Suc.prems(2)], of ?k]
      by simp
    then have step: "rehash_from (Suc n) i s c t = rehash_from n (Suc i) s c ?t"
      using True not_occ_meta [OF wf i] by (simp add: Let_def hs_table_home)
    have "hs_has (hs_table s c ?t) x \<longleftrightarrow> (\<exists>j<Suc i. hs_occ s j \<and> hs_eq s (hs_key s j) x)" for x
      using g Suc.prems(3) [of x] True by (auto simp: hs_grown_def less_Suc_eq)
    moreover have "card (hs_slots_used (hs_table s c ?t)) = card {j \<in> hs_slots_used s. j < Suc i}"
      using g Suc.prems(4) by (simp add: hs_grown_def cardS)
    ultimately show ?thesis
      unfolding step using Suc.IH [of "Suc i" ?t] Suc.prems(1) g by (simp add: hs_grown_def)
  qed
qed

lemma hs_rehash_correct:
  assumes wf: "hs_wf s" and c: "pow2 c" "1 < c" "card (hs_slots_used s) < c"
  obtains s' where "\<And>alloc. alloc c \<Longrightarrow> hs_rehash alloc s c = Some (True, s')" "hs_wf s'" "hs_capacity s' = c" "hs_hash s' = hs_hash s"
    "hs_eq s' = hs_eq s" "\<And>x. hs_has s' x \<longleftrightarrow> hs_has s x" "card (hs_slots_used s') = card (hs_slots_used s)"
    "hs_size s' = hs_size s"
proof -
  let ?t = "(replicate c HS_EMPTY, replicate c None)"
  note bl = hs_table_blank [OF c(1,2) hs_wfD(2) [OF wf]]
  have "\<exists>t'. rehash_from (hs_capacity s) 0 s c ?t = Some t' \<and> hs_wf (hs_table s c t')
    \<and> (\<forall>x. hs_has (hs_table s c t') x \<longleftrightarrow> hs_has s x)
    \<and> card (hs_slots_used (hs_table s c t')) = card (hs_slots_used s)"
    using bl by (intro rehash_from_correct [OF wf c(3)]) auto
  then obtain t' where "rehash_from (hs_capacity s) 0 s c ?t = Some t'" "hs_wf (hs_table s c t')"
    "\<forall>x. hs_has (hs_table s c t') x \<longleftrightarrow> hs_has s x"
    "card (hs_slots_used (hs_table s c t')) = card (hs_slots_used s)" by blast
  with that [of "hs_table s c t'"] show ?thesis by (simp add: hs_rehash_def hs_table_def [symmetric])
qed

lemma not_load_exceeded:
  assumes "hs_size s < hs_capacity s" "\<not> load_exceeded s"
  shows "hs_size s + 1 < hs_capacity s"
proof (rule ccontr)
  assume "\<not> ?thesis"
  with assms(1) have "hs_size s + 1 = hs_capacity s" by simp
  with assms show False
    using round_sig_pos [of "hs_capacity s" 53] by (simp add: load_exceeded_def HASHSET_LOAD_FACTOR_def)
qed

text \<open>What \<^verbatim>\<open>hashset_add\<close> does when it returns true.\<close>

definition add_done :: "hashset_t \<Rightarrow> hashset_t \<Rightarrow> hs_key \<Rightarrow> bool" where
  "add_done s s' k \<longleftrightarrow> hs_inv s' \<and> hs_hash s' = hs_hash s \<and> hs_eq s' = hs_eq s
     \<and> (\<forall>x. hs_has s' x \<longleftrightarrow> hs_has s x \<or> hs_eq s k x)
     \<and> hs_size s' = hs_size s + (if hs_has s k then 0 else 1)
     \<and> hs_capacity s' = (if load_exceeded s then 2 * hs_capacity s else hs_capacity s)"

lemma double_wraps_not: "(c :: nat) < 2 ^ 63 \<Longrightarrow> c * 2 mod 2 ^ 64 = 2 * c"
  by simp

lemma hashset_add_spec:
  assumes inv: "hs_inv s" and sane: "alloc_sane alloc"
  shows "if load_exceeded s \<and> \<not> alloc (2 * hs_capacity s)
         then hashset_add alloc (Some s) (Some k) = Some (False, Some s)
         else \<exists>s'. hashset_add alloc (Some s) (Some k) = Some (True, Some s') \<and> add_done s s' k"
proof -
  have wf: "hs_wf s" and sz: "hs_size s = card (hs_slots_used s)" "hs_size s < hs_capacity s"
    and cap: "hs_capacity s < 2 ^ 63" using inv by (auto simp: hs_inv_def)
  let ?c = "2 * hs_capacity s"
  note dbl = double_wraps_not [OF cap]
  consider (fits) "\<not> load_exceeded s" | (oom) "load_exceeded s" "\<not> alloc ?c" | (grow) "load_exceeded s" "alloc ?c" by blast
  then show ?thesis
  proof cases
    case fits
    from add_loop_correct [OF wf sz, of k] fits not_load_exceeded [OF sz(2) fits] cap show ?thesis
      by (auto simp: hashset_add_def add_done_def hs_inv_def hs_added_def)
  next
    case oom
    then show ?thesis unfolding hashset_add_def by (simp add: hs_rehash_def dbl del: power_numeral)
  next
    case grow
    have "pow2 ?c" "1 < ?c" "card (hs_slots_used s) < ?c"
      using hs_wfD(1) [OF wf] sz by (auto simp: hs_shape_def)
    from hs_rehash_correct [OF wf this] obtain s1 where
      s1: "hs_rehash alloc s ?c = Some (True, s1)" "hs_wf s1" "hs_capacity s1 = ?c"
        "hs_hash s1 = hs_hash s" "hs_eq s1 = hs_eq s" "\<And>x. hs_has s1 x \<longleftrightarrow> hs_has s x"
        "card (hs_slots_used s1) = card (hs_slots_used s)" "hs_size s1 = hs_size s"
      using grow(2) by metis
    have sz1: "hs_size s1 = card (hs_slots_used s1)" "hs_size s1 < hs_capacity s1" using s1 sz by auto
    obtain s' where s': "add_loop (hs_capacity s1) s1 k (HS_FINGERPRINT (hs_hash s1 k)) (hs_home s1 k) None = (True, s')"
      "hs_added s1 s' k" using add_loop_correct [OF s1(2) sz1, of k] by blast
    have "hashset_add alloc (Some s) (Some k) = Some (True, Some s')"
      using grow s1(1) s'(1) unfolding hashset_add_def by (simp add: dbl del: power_numeral)
    moreover have "?c < 2 ^ 63" using sane grow(2) unfolding alloc_sane_def by blast
    then have "add_done s s' k" using s'(2) s1 sz grow
      by (auto simp: add_done_def hs_inv_def hs_added_def split: if_splits)
    ultimately show ?thesis using grow by simp
  qed
qed

section \<open>Removal\<close>

text \<open>
  The state of the dual-cursor shift: the hole \<open>h\<close> still holds a stale key, the slots between
  hole and scan stay where they are (their probe path does not reach the hole), and \<open>P\<close> is the
  set represented by the slots other than the hole.
\<close>

definition hs_holed :: "hashset_t \<Rightarrow> nat \<Rightarrow> nat \<Rightarrow> (hs_key \<Rightarrow> bool) \<Rightarrow> bool" where
  "hs_holed s h j P \<longleftrightarrow> hs_shape s \<and> hs_callbacks s \<and> h < hs_capacity s \<and> hs_occ s h \<and> 0 < j
     \<and> (\<forall>i<hs_capacity s. hs_occ s i \<longrightarrow> hs_filed s i)
     \<and> (\<forall>a<hs_capacity s. \<forall>b<hs_capacity s. a \<noteq> h \<longrightarrow> b \<noteq> h \<longrightarrow> a \<noteq> b \<longrightarrow> hs_occ s a \<longrightarrow> hs_occ s b \<longrightarrow>
          \<not> hs_eq s (hs_key s a) (hs_key s b))
     \<and> (\<forall>t. 0 < t \<longrightarrow> t < j \<longrightarrow> hs_dist s ((h + t) mod hs_capacity s) < t)
     \<and> (\<forall>x. P x \<longleftrightarrow> (\<exists>i<hs_capacity s. i \<noteq> h \<and> hs_occ s i \<and> hs_eq s (hs_key s i) x))"

lemma hs_holedD:
  assumes "hs_holed s h j P"
  shows "hs_shape s" "hs_callbacks s" "h < hs_capacity s" "hs_occ s h" "0 < j"
    "\<And>i. i < hs_capacity s \<Longrightarrow> hs_occ s i \<Longrightarrow> hs_filed s i"
    "\<And>a b. a < hs_capacity s \<Longrightarrow> b < hs_capacity s \<Longrightarrow> a \<noteq> h \<Longrightarrow> b \<noteq> h \<Longrightarrow> a \<noteq> b \<Longrightarrow> hs_occ s a \<Longrightarrow>
       hs_occ s b \<Longrightarrow> \<not> hs_eq s (hs_key s a) (hs_key s b)"
    "\<And>t. 0 < t \<Longrightarrow> t < j \<Longrightarrow> hs_dist s ((h + t) mod hs_capacity s) < t"
    "\<And>x. P x \<longleftrightarrow> (\<exists>i<hs_capacity s. i \<noteq> h \<and> hs_occ s i \<and> hs_eq s (hs_key s i) x)"
  using assms unfolding hs_holed_def by blast+

lemma ring_dist_shift:
  assumes "h < n" "m < n" "j < n"
  defines "d \<equiv> ring_back n ((h + j) mod n) m"
  shows "ring_back n h m = (if j \<le> d then d - j else d + n - j)"
proof -
  let ?e = "if j \<le> d then d - j else d + n - j"
  have d: "d < n" "(d + m) mod n = (h + j) mod n"
    using assms ring_back_add [of m n "(h + j) mod n"] by (auto simp: d_def)
  have "(?e + m + j) mod n = (d + m) mod n"
  proof (cases "j \<le> d")
    case False
    then have "?e + m + j = (d + m) + n" using assms(3) by simp
    then show ?thesis by (simp only: mod_add_self2)
  qed simp
  then have "((?e + m) mod n + j) mod n = (h + j) mod n" unfolding mod_add_left_eq d(2) .
  then have "(?e + m) mod n = h" using assms(1) by (intro ring_eqI [of "(?e + m) mod n" j n h]) simp_all
  moreover have "?e < n" using d assms(3) by auto
  ultimately show ?thesis using assms(1,2) by (intro ring_back_unique [of ?e m n h, symmetric]) simp_all
qed

lemma hs_clear_slot:
  fixes z :: nat
  assumes hl: "hs_holed s h j P" and j: "j < hs_capacity s" "\<not> hs_occ s ((h + j) mod hs_capacity s)"
  defines "s' \<equiv> s\<lparr>hs_meta := (hs_meta s)[h := HS_EMPTY], hs_size := z\<rparr>"
  shows "hs_wf s'" "hs_has s' x \<longleftrightarrow> P x" "Suc (card (hs_slots_used s')) = card (hs_slots_used s)"
proof -
  let ?n = "hs_capacity s"
  note H = hs_holedD [OF hl]
  have reads: "hs_occ s' i \<longleftrightarrow> i \<noteq> h \<and> hs_occ s i" "hs_key s' = hs_key s" "hs_eq s' = hs_eq s" "hs_hash s' = hs_hash s"
    "hs_capacity s' = ?n" "hs_keys s' = hs_keys s" "hs_dist s' = hs_dist s" "hs_shape s'"
    "i \<noteq> h \<Longrightarrow> hs_meta s' ! i = hs_meta s ! i" for i
    using H(1,3) by (auto simp: s'_def hs_occ_def hs_key_def hs_eq_def hs_hash_def hs_dist_def hs_home_def
        hs_shape_def fun_eq_iff nth_list_update)
  have "ring_back ?n i t \<noteq> h" if i: "i < ?n" "i \<noteq> h" "hs_occ s i" "t \<le> hs_dist s i" for i t
  proof
    assume bk: "ring_back ?n i t = h"
    have "hs_dist s i < ?n" using H(1) by (simp add: hs_dist_def)
    with i(4) have tn: "t < ?n" by (rule le_less_trans)
    then have ii: "(h + t) mod ?n = i" using ring_back_add [of t ?n i] bk i by simp
    have t0: "0 < t" using bk i by (cases t) auto
    show False
    proof (cases "t < j")
      case True
      with H(8) [OF t0] ii i(4) show False by simp
    next
      case False
      have "(h + j) mod ?n = ring_back ?n i (t - j)"
      proof (rule ring_back_unique)
        have "((h + j) mod ?n + (t - j)) mod ?n = (h + j + (t - j)) mod ?n" by (rule mod_add_left_eq)
        also have "\<dots> = i mod ?n" using False ii i(1) by simp
        finally show "((h + j) mod ?n + (t - j)) mod ?n = i mod ?n" .
      qed (use tn in auto)
      moreover have "hs_occ s (ring_back ?n i (t - j))" using H(6) [OF i(1,3)] i(4) by (simp add: hs_filed_def)
      ultimately show False using j by simp
    qed
  qed
  then have "hs_filed s' i" if "i < ?n" "i \<noteq> h" "hs_occ s i" for i
    using H(6) [OF that(1,3)] that by (simp add: hs_filed_def reads)
  then show "hs_wf s'"
    using H(2,7) hs_callbacks_cong [of s' s] by (simp add: hs_wf_def reads)
  have "hs_slots_used s = insert h (hs_slots_used s')" "h \<notin> hs_slots_used s'"
    using H(3,4) by (auto simp: hs_slots_used_def reads)
  then show "Suc (card (hs_slots_used s')) = card (hs_slots_used s)" by simp
  show "hs_has s' x \<longleftrightarrow> P x" by (auto simp: hs_has_def hs_slots_used_def reads H(9))
qed

lemma hs_shift_store:
  assumes hl: "hs_holed s h j P" and j: "j < hs_capacity s"
  defines "c \<equiv> (h + j) mod hs_capacity s"
  assumes c: "hs_occ s c" "j \<le> hs_dist s c"
  shows "hs_holed (hs_store s h (hs_meta s ! c) (hs_key s c)) c 1 P"
proof -
  let ?n = "hs_capacity s" and ?s = "hs_store s h (hs_meta s ! c) (hs_key s c)"
  note H = hs_holedD [OF hl]
  have cn: "c < ?n" using H(1) by (simp add: c_def)
  have ch: "c \<noteq> h"
  proof
    assume "c = h"
    then have "(j + h) mod ?n = (0 + h) mod ?n" using H(3) by (simp add: c_def add.commute)
    then have "j = 0" using j by (intro ring_eqI [of j h ?n 0]) auto
    with H(5) show False by simp
  qed
  have fc: "hs_filed s c" using H(6) [OF cn c(1)] .
  note reads = hs_store_reads [OF H(1,3), of "hs_meta s ! c" "hs_key s c"]
  have occ: "hs_occ ?s i \<longleftrightarrow> hs_occ s i" for i using H(4) c(1) by (simp add: reads hs_occ_def)
  have hc: "h = ring_back ?n c j" using H(3) j by (intro ring_back_unique) (auto simp: c_def)
  have dh: "ring_back ?n h (hs_home s (hs_key s c)) = hs_dist s c - j"
    using ring_dist_shift [OF H(3) hs_home_less [OF H(1)] j] c(2) by (simp add: hs_dist_def c_def)
  have "hs_filed ?s i" if i: "i < ?n" "hs_occ s i" for i
  proof (cases "i = h")
    case False
    with H(6) [OF i] show ?thesis by (simp add: hs_filed_def hs_dist_def reads(1-3) occ)
  next
    case True
    have "hs_occ s (ring_back ?n h t)" if "t \<le> hs_dist s c - j" for t
    proof -
      have "hs_dist s c < ?n" using H(1) by (simp add: hs_dist_def)
      then have "ring_back ?n h t = ring_back ?n c (j + t)"
        unfolding hc using that c(2) H(1) by (intro ring_back_back) auto
      then show ?thesis using fc that c(2) by (simp add: hs_filed_def)
    qed
    with True fc ch show ?thesis unfolding hs_filed_def hs_dist_def reads(1-3) occ by (simp add: dh [unfolded hs_dist_def])
  qed
  moreover have "\<not> hs_eq s (hs_key ?s a) (hs_key ?s b)"
    if "a < ?n" "b < ?n" "a \<noteq> c" "b \<noteq> c" "a \<noteq> b" "hs_occ s a" "hs_occ s b" for a b
    using that H(7) [of a b] H(7) [of c b] H(7) [of a c] cn ch c(1) by (auto simp: reads)
  moreover have "P x \<longleftrightarrow> (\<exists>i<?n. i \<noteq> c \<and> hs_occ s i \<and> hs_eq s (hs_key ?s i) x)" for x
  proof
    assume "P x"
    then obtain i where i: "i < ?n" "i \<noteq> h" "hs_occ s i" "hs_eq s (hs_key s i) x" using H(9) by blast
    show "\<exists>i<?n. i \<noteq> c \<and> hs_occ s i \<and> hs_eq s (hs_key ?s i) x"
      by (rule exI [of _ "if i = c then h else i"]) (use i H(3,4) ch in \<open>auto simp: reads(3)\<close>)
  next
    assume "\<exists>i<?n. i \<noteq> c \<and> hs_occ s i \<and> hs_eq s (hs_key ?s i) x"
    then obtain i where i: "i < ?n" "i \<noteq> c" "hs_occ s i" "hs_eq s (hs_key ?s i) x" by blast
    show "P x" unfolding H(9)
      by (rule exI [of _ "if i = h then c else i"]) (use i cn c(1) ch in \<open>auto simp: reads(3)\<close>)
  qed
  ultimately show ?thesis
    unfolding hs_holed_def using H(2) cn c(1) reads(5) hs_callbacks_cong [of ?s s] by (simp add: occ)
qed

text \<open>The result of the shift: the hole can be cleared.\<close>

definition shift_result :: "hashset_t \<Rightarrow> (hs_key \<Rightarrow> bool) \<Rightarrow> hashset_t \<times> nat \<Rightarrow> bool" where
  "shift_result s P r \<longleftrightarrow> (\<exists>j. hs_holed (fst r) (snd r) j P \<and> j < hs_capacity (fst r)
       \<and> \<not> hs_occ (fst r) ((snd r + j) mod hs_capacity (fst r)))
     \<and> hs_capacity (fst r) = hs_capacity s \<and> hs_hash (fst r) = hs_hash s \<and> hs_eq (fst r) = hs_eq s
     \<and> hs_size (fst r) = hs_size s \<and> hs_slots_used (fst r) = hs_slots_used s"

lemma shift_result_trans:
  assumes "shift_result s1 P r" "hs_capacity s1 = hs_capacity s" "hs_hash s1 = hs_hash s" "hs_eq s1 = hs_eq s"
    "hs_size s1 = hs_size s" "hs_slots_used s1 = hs_slots_used s"
  shows "shift_result s P r"
  using assms unfolding shift_result_def by metis

lemma remove_shift_correct:
  assumes "hs_holed s h j P" "j \<le> b" "b < hs_capacity s" "b < n + j" "\<not> hs_occ s ((h + b) mod hs_capacity s)"
  shows "shift_result s P (remove_shift n s h ((h + j) mod hs_capacity s))"
  using assms
proof (induction n arbitrary: s h j b)
  case (Suc n)
  let ?n = "hs_capacity s" and ?c = "(h + j) mod hs_capacity s"
  note H = hs_holedD [OF Suc.prems(1)]
  have cn: "?c < ?n" using H(1) by simp
  have jn: "j < ?n" using Suc.prems(2,3) by simp
  show ?case
  proof (cases "hs_occ s ?c")
    case False
    then have "remove_shift (Suc n) s h ?c = (s, h)" by (simp add: hs_occ_def HS_EMPTY_def Let_def)
    then show ?thesis using Suc.prems(1) jn False by (auto simp: shift_result_def)
  next
    case True
    then have m: "\<not> hs_meta s ! ?c < 2" using H(6) [OF cn True] by (simp add: hs_filed_def)
    have bj: "j \<noteq> b" using True Suc.prems(5) by auto
    have nx: "(?c + 1) AND (?n - 1) = (h + Suc j) mod ?n" using H(1) by (simp add: mod_Suc_eq)
    have ds: "(?c + ?n - hs_home s (hs_key s ?c)) AND (?n - 1) = hs_dist s ?c"
      "(h + ?n - hs_home s (hs_key s ?c)) AND (?n - 1) = ring_back ?n h (hs_home s (hs_key s ?c))"
      using H(1) by (simp_all add: hs_dist_def ring_back_def)
    have cmp: "ring_back ?n h (hs_home s (hs_key s ?c)) < hs_dist s ?c \<longleftrightarrow> j \<le> hs_dist s ?c"
      using ring_dist_shift [OF H(3) hs_home_less [OF H(1)] jn, of "hs_key s ?c"] H(5) jn
      by (auto simp: hs_dist_def)
    show ?thesis
    proof (cases "j \<le> hs_dist s ?c")
      case far: True
      let ?s = "hs_store s h (hs_meta s ! ?c) (hs_key s ?c)"
      have hl: "hs_holed ?s ?c 1 P" by (rule hs_shift_store [OF Suc.prems(1) jn True far])
      have reads: "hs_occ ?s i \<longleftrightarrow> hs_occ s i" for i
        using hs_store_reads(4) [OF H(1,3)] H(4) True by (simp add: hs_occ_def)
      have e: "(?c + (b - j)) mod ?n = (h + b) mod ?n"
        unfolding mod_add_left_eq using Suc.prems(2) by simp
      have "shift_result ?s P (remove_shift n ?s ?c ((?c + 1) mod hs_capacity ?s))"
        using hl Suc.prems bj e by (intro Suc.IH [of ?s ?c 1 "b - j"]) (simp_all add: reads)
      from this [unfolded hs_store_simps] have "shift_result s P (remove_shift n ?s ?c ((?c + 1) mod ?n))"
        by (rule shift_result_trans) (simp_all add: hs_slots_used_def reads)
      moreover have "(?c + 1) mod ?n = (h + Suc j) mod ?n" by (simp add: mod_Suc_eq)
      ultimately show ?thesis using m nx ds cmp far by (simp only: remove_shift.simps Let_def if_False if_True)
    next
      case near: False
      have "hs_dist s ((h + t) mod ?n) < t" if "0 < t" "t < Suc j" for t
        using H(8) [OF that(1)] near that(2) by (cases "t = j") auto
      then have "hs_holed s h (Suc j) P" using Suc.prems(1) by (simp add: hs_holed_def)
      then have "shift_result s P (remove_shift n s h ((h + Suc j) mod ?n))"
        using Suc.prems bj by (intro Suc.IH [of s h "Suc j" b]) auto
      then show ?thesis using m nx ds cmp near by (simp only: remove_shift.simps Let_def if_False)
    qed
  qed
qed simp

definition remove_done :: "hashset_t \<Rightarrow> hashset_t \<Rightarrow> hs_key \<Rightarrow> bool" where
  "remove_done s s' k \<longleftrightarrow> hs_inv s' \<and> hs_hash s' = hs_hash s \<and> hs_eq s' = hs_eq s
     \<and> (\<forall>x. hs_has s' x \<longleftrightarrow> hs_has s x \<and> \<not> hs_eq s k x)
     \<and> Suc (hs_size s') = hs_size s \<and> hs_capacity s' = hs_capacity s"

text \<open>The slots other than the one of \<open>k\<close> represent the set without \<open>k\<close>.\<close>

lemma others_have:
  assumes wf: "hs_wf s" and i: "i < hs_capacity s" "hs_occ s i" "hs_eq s (hs_key s i) k"
  shows "hs_has s x \<and> \<not> hs_eq s k x \<longleftrightarrow> (\<exists>a<hs_capacity s. a \<noteq> i \<and> hs_occ s a \<and> hs_eq s (hs_key s a) x)"
proof
  note cmp = hs_cmp [OF hs_wfD(2) [OF wf]]
  assume "hs_has s x \<and> \<not> hs_eq s k x"
  then obtain a where a: "a < hs_capacity s" "hs_occ s a" "hs_eq s (hs_key s a) x" "\<not> hs_eq s k x"
    by (auto simp: hs_has_def hs_slots_used_def)
  moreover have "a \<noteq> i" using a i(3) cmp(2,3) by blast
  ultimately show "\<exists>a<hs_capacity s. a \<noteq> i \<and> hs_occ s a \<and> hs_eq s (hs_key s a) x" by blast
next
  note cmp = hs_cmp [OF hs_wfD(2) [OF wf]]
  assume "\<exists>a<hs_capacity s. a \<noteq> i \<and> hs_occ s a \<and> hs_eq s (hs_key s a) x"
  then obtain a where a: "a < hs_capacity s" "a \<noteq> i" "hs_occ s a" "hs_eq s (hs_key s a) x" by blast
  have "\<not> hs_eq s k x"
  proof
    assume "hs_eq s k x"
    then have "hs_eq s (hs_key s a) (hs_key s i)" using a(4) i(3) cmp(2,3) by blast
    with hs_wfD(4) [OF wf a(1) i(1) a(2,3) i(2)] show False by simp
  qed
  with a show "hs_has s x \<and> \<not> hs_eq s k x" by (auto simp: hs_has_def hs_slots_used_def)
qed

lemma hashset_remove_spec:
  assumes inv: "hs_inv s"
  shows "if hs_has s k
         then \<exists>s'. hashset_remove (Some s) (Some k) = (True, Some s') \<and> remove_done s s' k
         else hashset_remove (Some s) (Some k) = (False, Some s)"
proof (cases "hs_find (hs_capacity s) s k (HS_FINGERPRINT (hs_hash s k)) (hs_home s k)")
  case None
  have wf: "hs_wf s" using inv by (simp add: hs_inv_def)
  have "\<not> hs_has s k" using contains_has [OF wf, of k] None by (simp add: hashset_contains_def)
  with None show ?thesis by (simp add: hashset_remove_def)
next
  case (Some i)
  have wf: "hs_wf s" and sz: "hs_size s = card (hs_slots_used s)" "hs_size s < hs_capacity s"
    using inv by (auto simp: hs_inv_def)
  note sh = hs_wfD(1) [OF wf] and cmp = hs_cmp [OF hs_wfD(2) [OF wf]]
  from Some hs_find_iff [OF wf, of k i] have i: "i < hs_capacity s" "hs_occ s i" "hs_eq s (hs_key s i) k" by auto
  then have has: "hs_has s k" by (auto simp: hs_has_def hs_slots_used_def)
  let ?P = "\<lambda>x. hs_has s x \<and> \<not> hs_eq s k x"
  have P: "?P x \<longleftrightarrow> (\<exists>a<hs_capacity s. a \<noteq> i \<and> hs_occ s a \<and> hs_eq s (hs_key s a) x)" for x
    by (rule others_have [OF wf i])
  have hl: "hs_holed s i 1 ?P"
    using wf i P by (simp add: hs_holed_def hs_wf_def)
  obtain q where q: "first_empty s i q" using first_empty_exists [OF sh _ i(1)] sz by auto
  then have qb: "q < hs_capacity s" "\<not> hs_occ s ((i + q) mod hs_capacity s)" by (auto simp: first_empty_def)
  then have q1: "1 \<le> q" using i by (cases q) auto
  obtain s1 h where r: "remove_shift (hs_capacity s - 1) s i ((i + 1) AND (hs_capacity s - 1)) = (s1, h)"
    by (meson surj_pair)
  have "shift_result s ?P (s1, h)"
    using remove_shift_correct [OF hl q1 qb(1) _ qb(2), of "hs_capacity s - 1"] r sh qb(1) by simp
  then obtain j where j: "hs_holed s1 h j ?P" "j < hs_capacity s1" "\<not> hs_occ s1 ((h + j) mod hs_capacity s1)"
    and same: "hs_capacity s1 = hs_capacity s" "hs_hash s1 = hs_hash s" "hs_eq s1 = hs_eq s"
      "hs_size s1 = hs_size s" "hs_slots_used s1 = hs_slots_used s" by (auto simp: shift_result_def)
  define s' where "s' = s1\<lparr>hs_meta := (hs_meta s1)[h := HS_EMPTY], hs_size := hs_size s1 - 1\<rparr>"
  have c: "hs_wf s'" "\<And>x. hs_has s' x \<longleftrightarrow> ?P x" "Suc (card (hs_slots_used s')) = card (hs_slots_used s)"
    unfolding s'_def using hs_clear_slot [OF j, of "hs_size s1 - 1"] same(5) by auto
  have "hs_capacity s' = hs_capacity s" "hs_hash s' = hs_hash s" "hs_eq s' = hs_eq s" "hs_size s' = hs_size s - 1"
    using same by (auto simp: s'_def hs_hash_def hs_eq_def fun_eq_iff)
  with c sz inv have "remove_done s s' k" by (auto simp: remove_done_def hs_inv_def)
  moreover have "hashset_remove (Some s) (Some k) = (True, Some s')"
    using Some r by (simp add: hashset_remove_def s'_def)
  ultimately show ?thesis using has by simp
qed

end
