(* ===== verification/Hash_Set_Theorems.thy ===== *)
theory Hash_Set_Theorems
  imports Hash_Set_Correct "HOL-Library.Code_Target_Nat"
begin

text \<open>
  Creation and the set operations of the hash set, its interpretation as a dictionary with unit
  values, and the properties of the set.
\<close>

section \<open>Creation\<close>

lemma round_capacity_returns:
  assumes "unat initial \<le> 2 ^ 63" "p \<le> 63" "unat cap = 2 ^ p"
  shows "\<exists>r q. round_capacity initial cap = Some r \<and> p \<le> q \<and> q \<le> 63 \<and> unat r = 2 ^ q
    \<and> initial \<le> r \<and> (q = p \<or> unat r < 2 * unat initial)"
  using assms(2,3)
proof (induction "63 - p" arbitrary: p cap)
  case 0
  then have p: "p = 63" by simp
  with 0 assms(1) have "\<not> cap < initial" by (simp add: word_less_nat_alt)
  with 0 p show ?case by (auto simp: round_capacity.simps [of initial cap])
next
  case (Suc n)
  show ?case
  proof (cases "cap < initial")
    case False
    with Suc show ?thesis
      by (auto simp: round_capacity.simps [of initial cap] intro!: exI [of _ p])
  next
    case True
    have p: "p < 63" using Suc.hyps(2) by simp
    have "cap = 2 ^ p" using Suc.prems(2) unat_two_power [of p] p by (simp add: word_unat_eq_iff)
    then have pb: "push_bit 1 cap = 2 ^ Suc p" by (simp add: push_bit_eq_mult)
    have up: "unat (push_bit 1 cap) = 2 ^ Suc p" unfolding pb using p by (intro unat_two_power) simp
    have "n = 63 - Suc p" using Suc.hyps(2) p by simp
    from Suc.hyps(1) [OF this _ up] p obtain r q where
      r: "round_capacity initial (push_bit 1 cap) = Some r" "Suc p \<le> q" "q \<le> 63" "unat r = 2 ^ q" "initial \<le> r"
        "q = Suc p \<or> unat r < 2 * unat initial" by auto
    have "unat r < 2 * unat initial" using r(4,6) True Suc.prems(2) by (auto simp: word_less_nat_alt)
    with r True show ?thesis
      by (intro exI [of _ r] exI [of _ q]) (simp add: round_capacity.simps [of initial cap])
  qed
qed

lemma round_capacity_result:
  assumes "round_capacity initial cap = Some r"
  shows "initial \<le> r \<and> (\<exists>n. r = push_bit n cap)"
proof (rule round_capacity.raw_induct [OF _ assms])
  fix f and i c y :: size_t
  assume IH: "\<And>i c y. f i c = Some y \<Longrightarrow> i \<le> y \<and> (\<exists>n. y = push_bit n c)"
    and step: "(if c < i then f i (push_bit 1 c) else Some c) = Some y"
  show "i \<le> y \<and> (\<exists>n. y = push_bit n c)"
  proof (cases "c < i")
    case True
    then have "f i (push_bit 1 c) = Some y" using step by simp
    from IH [OF this] obtain n where "i \<le> y" "y = push_bit n (push_bit 1 c)" by blast
    then have "i \<le> y \<and> y = push_bit (n + 1) c" by (simp add: push_bit_push_bit)
    then show ?thesis by blast
  next
    case False
    then have "i \<le> y \<and> y = push_bit 0 c" using step by auto
    then show ?thesis by blast
  qed
qed

lemma round_capacity_diverges:
  assumes "2 ^ 63 < unat initial"
  shows "round_capacity initial HASHSET_DEFAULT_CAPACITY = None"
proof (rule ccontr)
  assume "round_capacity initial HASHSET_DEFAULT_CAPACITY \<noteq> None"
  then obtain r where r: "round_capacity initial HASHSET_DEFAULT_CAPACITY = Some r" by blast
  from round_capacity_result [OF r] obtain n where n: "initial \<le> r" "r = push_bit n 16"
    by (auto simp: HASHSET_DEFAULT_CAPACITY_def)
  have "r = push_bit n (push_bit 4 1)" using n(2) by simp
  then have "r = push_bit (n + 4) 1" by (simp only: push_bit_push_bit)
  then have r2: "r = 2 ^ (n + 4)" by (simp only: push_bit_of_1)
  have "unat r \<le> 2 ^ 63"
  proof (cases "n + 4 < 64")
    case True
    then have "(2::nat) ^ (n + 4) \<le> 2 ^ 63" by (intro power_increasing) auto
    with r2 unat_two_power [OF True] show ?thesis by simp
  next
    case False
    then have "r = 0" unfolding r2 exp_eq_zero_iff by simp
    then show ?thesis by simp
  qed
  with n(1) assms show False by (simp add: word_le_nat_alt)
qed

definition fns_ok :: "(hs_key \<Rightarrow> nat \<Rightarrow> u64) \<Rightarrow> (hs_key \<Rightarrow> hs_key \<Rightarrow> nat \<Rightarrow> bool) \<Rightarrow> nat \<Rightarrow> bool" where
  "fns_ok hash eq ks \<longleftrightarrow> equivp (\<lambda>a b. eq a b ks) \<and> (\<forall>a b. eq a b ks \<longrightarrow> hash a ks = hash b ks)"

lemma fns_ok_default: "fns_ok hashset_default_hash hashset_default_equals ks"
  by (auto simp: fns_ok_def hashset_default_hash_def hashset_default_equals_def
      intro!: equivpI reflpI sympI transpI)

lemma hs_create_spec:
  assumes "0 < ks" "unat n \<le> 2 ^ 62" "fns_ok hash eq ks"
  shows "\<exists>c. 16 \<le> c \<and> unat n \<le> c \<and> (c = 16 \<or> c < 2 * unat n) \<and> c \<le> 2 ^ 62 \<and>
    (if alloc c
     then \<exists>s. hashset_create alloc ks n (Some hash) (Some eq) = Some (Some s) \<and> hs_inv s \<and> hs_capacity s = c
            \<and> hs_size s = 0 \<and> (\<forall>x. \<not> hs_has s x) \<and> hs_hash s = (\<lambda>k. hash k ks) \<and> hs_eq s = (\<lambda>a b. eq a b ks)
     else hashset_create alloc ks n (Some hash) (Some eq) = Some None)"
proof -
  obtain r q where r: "round_capacity n HASHSET_DEFAULT_CAPACITY = Some r" "4 \<le> q" "q \<le> 63" "unat r = 2 ^ q"
    "n \<le> r" "q = 4 \<or> unat r < 2 * unat n"
    using round_capacity_returns [of n 4 HASHSET_DEFAULT_CAPACITY] assms(2)
    by (auto simp: HASHSET_DEFAULT_CAPACITY_def)
  let ?c = "unat r"
  have c: "16 \<le> ?c" "unat n \<le> ?c" "?c = 16 \<or> ?c < 2 * unat n" "pow2 ?c"
    using r power_increasing [of 4 q "2::nat"] by (auto simp: word_le_nat_alt pow2_def)
  have q62: "q \<le> 62"
  proof (rule ccontr)
    assume "\<not> q \<le> 62"
    with r have "q = 63" by simp
    with r assms(2) show False by simp
  qed
  then have le: "?c \<le> 2 ^ 62" unfolding r(4) by (intro power_increasing) auto
  let ?s = "\<lparr>hs_meta = replicate ?c HS_EMPTY, hs_keys = replicate ?c None, hs_capacity = ?c, hs_size = 0,
     hs_key_size = ks, hs_hash_fn = hash, hs_equals_fn = eq\<rparr>"
  have fn: "hs_hash ?s = (\<lambda>k. hash k ks)" "hs_eq ?s = (\<lambda>a b. eq a b ks)"
    by (simp_all add: fun_eq_iff hs_hash_def hs_eq_def)
  have "hs_callbacks ?s" using assms(3) by (simp add: hs_callbacks_def fn fns_ok_def)
  from hs_table_blank [OF c(4) _ this] c(1)
  have "hs_wf ?s" "hs_slots_used ?s = {}" "\<And>x. \<not> hs_has ?s x" by (auto simp: hs_table_def)
  then have "hs_inv ?s" using c(1) le by (simp add: hs_inv_def)
  moreover have "hashset_create alloc ks n (Some hash) (Some eq) = Some (if alloc ?c then Some ?s else None)"
    using assms(1) r(1) by (simp add: hashset_create_def)
  ultimately show ?thesis
    using c le fn \<open>\<And>x. \<not> hs_has ?s x\<close> by (intro exI [of _ ?c]) (simp del: power_numeral)
qed

section \<open>Set operations\<close>

text \<open>A table that has to grow is not much larger than its contents.\<close>

lemma load_exceeded_bound:
  assumes "load_exceeded s" "0 < hs_capacity s"
  shows "3 * hs_capacity s < 16 * (hs_size s + 1)"
proof -
  let ?a = "round_sig 53 (hs_size s + 1)" and ?b = "round_sig 53 (hs_capacity s)"
  have b: "0 < ?b" using assms(2) by (simp add: round_sig_pos)
  have "3 / 4 < rat_of_nat ?a / rat_of_nat ?b"
    using assms(1) by (simp add: load_exceeded_def HASHSET_LOAD_FACTOR_def)
  then have "rat_of_nat (3 * ?b) < rat_of_nat (4 * ?a)" using b by (simp add: field_simps)
  then have "3 * ?b < 4 * ?a" by (simp only: of_nat_less_iff)
  then show ?thesis
    using round_sig_bounds(1) [of "hs_size s + 1" 53] round_sig_bounds(2) [of "hs_capacity s" 53] assms(2) by simp
qed

text \<open>Every table of fewer than \<open>2 ^ 63\<close> bytes can be allocated, and no larger one.\<close>

definition alloc_ample :: "(nat \<Rightarrow> bool) \<Rightarrow> bool" where
  "alloc_ample alloc \<longleftrightarrow> (\<forall>c. alloc c \<longleftrightarrow> c < 2 ^ 63)"

lemma add_ample:
  assumes inv: "hs_inv s" and al: "alloc_ample alloc" and sz: "hs_size s < 2 ^ 58"
  obtains s' where "hashset_add alloc (Some s) (Some k) = Some (True, Some s')" "add_done s s' k"
proof -
  have sane: "alloc_sane alloc" using al by (simp add: alloc_sane_def alloc_ample_def)
  have "alloc (2 * hs_capacity s)" if "load_exceeded s"
  proof -
    have "0 < hs_capacity s" using inv by (simp add: hs_inv_def)
    from load_exceeded_bound [OF that this] sz al show ?thesis by (simp add: alloc_ample_def)
  qed
  with hashset_add_spec [OF inv sane, of k] that show ?thesis by (auto split: if_splits)
qed

lemma bex_from:
  assumes "(i :: nat) \<in> U"
  shows "(\<exists>j\<in>U. i \<le> j \<and> Q j) \<longleftrightarrow> Q i \<or> (\<exists>j\<in>U. Suc i \<le> j \<and> Q j)"
proof -
  have split: "i \<le> j \<longleftrightarrow> j = i \<or> Suc i \<le> j" for j by auto
  show ?thesis unfolding split using assms by blast
qed

lemma add_filtered_correct:
  assumes src: "hs_wf src" "i + n = hs_capacity src" and r: "hs_inv r" "hs_eq r = hs_eq src"
    and al: "\<And>j. alloc_ample (allocs j)"
    and sz: "hs_size r + card {j \<in> hs_slots_used src. i \<le> j} < 2 ^ 58"
  shows "\<exists>r'. add_filtered allocs P src n i r = Some r' \<and> hs_inv r' \<and> hs_eq r' = hs_eq src \<and> hs_hash r' = hs_hash r
    \<and> (\<forall>x. hs_has r' x \<longleftrightarrow> hs_has r x \<or> (\<exists>j\<in>hs_slots_used src. i \<le> j \<and> P (hs_key src j) \<and> hs_eq src (hs_key src j) x))
    \<and> hs_size r' \<le> hs_size r + card {j \<in> hs_slots_used src. i \<le> j}"
  using src(2) r sz
proof (induction n arbitrary: i r)
  case 0
  then have "{j \<in> hs_slots_used src. i \<le> j} = {}" "\<not> (\<exists>j\<in>hs_slots_used src. i \<le> j)"
    by (auto simp: hs_slots_used_def)
  with 0 show ?case by auto
next
  case (Suc n)
  have i: "i < hs_capacity src" using Suc.prems(1) by simp
  let ?S = "\<lambda>i. {j \<in> hs_slots_used src. i \<le> j}"
  have sub: "card (?S (Suc i)) \<le> card (?S i)" by (rule card_mono) auto
  show ?case
  proof (cases "hs_occ src i \<and> P (hs_key src i)")
    case False
    then have step: "add_filtered allocs P src (Suc n) i r = add_filtered allocs P src n (Suc i) r"
      using not_occ_meta [OF src(1) i] by (auto simp: not_less)
    have "(\<exists>j\<in>hs_slots_used src. i \<le> j \<and> P (hs_key src j) \<and> hs_eq src (hs_key src j) x)
      \<longleftrightarrow> (\<exists>j\<in>hs_slots_used src. Suc i \<le> j \<and> P (hs_key src j) \<and> hs_eq src (hs_key src j) x)" for x
      using False i by (auto simp: hs_slots_used_def Suc_le_eq le_less)
    with Suc.IH [of "Suc i" r] Suc.prems sub show ?thesis unfolding step by force
  next
    case True
    have in_used: "i \<in> hs_slots_used src" using True i by (simp add: hs_slots_used_def)
    have "?S i = insert i (?S (Suc i))" using in_used by (auto simp: Suc_le_eq)
    then have card: "card (?S i) = Suc (card (?S (Suc i)))" by simp
    obtain r1 where r1: "hashset_add (allocs i) (Some r) (Some (hs_key src i)) = Some (True, Some r1)"
      "add_done r r1 (hs_key src i)"
      using add_ample [OF Suc.prems(2) al] Suc.prems(4) by (metis add_lessD1)
    have step: "add_filtered allocs P src (Suc n) i r = add_filtered allocs P src n (Suc i) r1"
      using True not_occ_meta [OF src(1) i] r1(1) by (simp add: not_less [symmetric])
    have d: "hs_inv r1" "hs_eq r1 = hs_eq src" "hs_hash r1 = hs_hash r" "hs_size r1 \<le> Suc (hs_size r)"
      "\<And>x. hs_has r1 x \<longleftrightarrow> hs_has r x \<or> hs_eq src (hs_key src i) x"
      using r1(2) Suc.prems(3) by (auto simp: add_done_def)
    have "\<exists>r'. add_filtered allocs P src n (Suc i) r1 = Some r' \<and> hs_inv r' \<and> hs_eq r' = hs_eq src \<and> hs_hash r' = hs_hash r1
      \<and> (\<forall>x. hs_has r' x \<longleftrightarrow> hs_has r1 x \<or> (\<exists>j\<in>hs_slots_used src. Suc i \<le> j \<and> P (hs_key src j) \<and> hs_eq src (hs_key src j) x))
      \<and> hs_size r' \<le> hs_size r1 + card (?S (Suc i))"
      using Suc.prems(1,4) d card by (intro Suc.IH) auto
    then obtain r' where r': "add_filtered allocs P src n (Suc i) r1 = Some r'" "hs_inv r'" "hs_eq r' = hs_eq src"
      "hs_hash r' = hs_hash r1"
      "\<And>x. hs_has r' x \<longleftrightarrow> hs_has r1 x \<or> (\<exists>j\<in>hs_slots_used src. Suc i \<le> j \<and> P (hs_key src j) \<and> hs_eq src (hs_key src j) x)"
      "hs_size r' \<le> hs_size r1 + card (?S (Suc i))" by blast
    have "hs_has r' x \<longleftrightarrow> hs_has r x \<or> (\<exists>j\<in>hs_slots_used src. i \<le> j \<and> P (hs_key src j) \<and> hs_eq src (hs_key src j) x)" for x
      unfolding r'(5) d(5) bex_from [OF in_used] using True by auto
    with r' d card show ?thesis unfolding step by (intro exI [of _ r']) simp
  qed
qed

text \<open>All slots of a source table: a predicate that respects key equality filters the set.\<close>

lemma add_filtered_all:
  assumes src: "hs_wf src" and r: "hs_inv r" "hs_eq r = hs_eq src" and al: "\<And>j. alloc_ample (allocs j)"
    and sz: "hs_size r + card (hs_slots_used src) < 2 ^ 58"
    and P: "\<And>a b. hs_eq src a b \<Longrightarrow> P a \<longleftrightarrow> P b"
  obtains r' where "add_filtered allocs P src (hs_capacity src) 0 r = Some r'" "hs_inv r'" "hs_eq r' = hs_eq src"
    "hs_hash r' = hs_hash r" "\<And>x. hs_has r' x \<longleftrightarrow> hs_has r x \<or> hs_has src x \<and> P x"
    "hs_size r' \<le> hs_size r + card (hs_slots_used src)"
proof -
  have "(\<exists>j\<in>hs_slots_used src. 0 \<le> j \<and> P (hs_key src j) \<and> hs_eq src (hs_key src j) x) \<longleftrightarrow> hs_has src x \<and> P x" for x
    using P by (auto simp: hs_has_def)
  with add_filtered_correct [OF src _ r, of 0 "hs_capacity src" allocs P] al sz
  have "\<exists>r'. add_filtered allocs P src (hs_capacity src) 0 r = Some r' \<and> hs_inv r' \<and> hs_eq r' = hs_eq src
    \<and> hs_hash r' = hs_hash r \<and> (\<forall>x. hs_has r' x \<longleftrightarrow> hs_has r x \<or> hs_has src x \<and> P x)
    \<and> hs_size r' \<le> hs_size r + card (hs_slots_used src)" by simp
  with that show ?thesis by blast
qed

text \<open>
  The two operands of a set operation: well-formed, with the same callbacks and key size, of
  moderate size.
\<close>

definition operands :: "hashset_t \<Rightarrow> hashset_t \<Rightarrow> bool" where
  "operands A B \<longleftrightarrow> hs_inv A \<and> hs_inv B \<and> hs_hash_fn A = hs_hash_fn B \<and> hs_equals_fn A = hs_equals_fn B
     \<and> hs_key_size A = hs_key_size B \<and> 0 < hs_key_size A \<and> hs_size A + hs_size B < 2 ^ 56"

lemma operandsD:
  assumes "operands A B"
  shows "hs_wf A" "hs_wf B" "hs_eq B = hs_eq A" "hs_hash B = hs_hash A" "fns_ok (hs_hash_fn A) (hs_equals_fn A) (hs_key_size A)"
    "card (hs_slots_used A) = hs_size A" "card (hs_slots_used B) = hs_size B"
    "hs_eq A = (\<lambda>a b. hs_equals_fn A a b (hs_key_size A))" "hs_hash A = (\<lambda>k. hs_hash_fn A k (hs_key_size A))"
    "\<And>a b. hs_eq A a b \<Longrightarrow> hs_has A a \<longleftrightarrow> hs_has A b" "\<And>a b. hs_eq A a b \<Longrightarrow> hs_has B a \<longleftrightarrow> hs_has B b"
proof -
  show wf: "hs_wf A" "hs_wf B" and "card (hs_slots_used A) = hs_size A" "card (hs_slots_used B) = hs_size B"
    using assms by (auto simp: operands_def hs_inv_def)
  show eq: "hs_eq B = hs_eq A" and "hs_hash B = hs_hash A"
    using assms by (auto simp: operands_def fun_eq_iff hs_eq_def hs_hash_def)
  show e: "hs_eq A = (\<lambda>a b. hs_equals_fn A a b (hs_key_size A))" "hs_hash A = (\<lambda>k. hs_hash_fn A k (hs_key_size A))"
    by (simp_all add: fun_eq_iff hs_eq_def hs_hash_def)
  show "fns_ok (hs_hash_fn A) (hs_equals_fn A) (hs_key_size A)"
    using hs_wfD(2) [OF wf(1)] by (simp add: fns_ok_def hs_callbacks_def e)
  note cmp = hs_cmp [OF hs_wfD(2) [OF wf(1)]]
  show "hs_has A a \<longleftrightarrow> hs_has A b" "hs_has B a \<longleftrightarrow> hs_has B b" if "hs_eq A a b" for a b
    using that cmp(2,3) unfolding hs_has_def eq by blast+
qed

lemma create_ample:
  assumes "0 < ks" "n < 2 ^ 56" "fns_ok hash eq ks" "alloc_ample alloc"
  obtains s where "hashset_create alloc ks (of_nat n) (Some hash) (Some eq) = Some (Some s)" "hs_inv s" "hs_size s = 0"
    "\<And>x. \<not> hs_has s x" "hs_hash s = (\<lambda>k. hash k ks)" "hs_eq s = (\<lambda>a b. eq a b ks)"
proof -
  have "unat (of_nat n :: size_t) = n" using assms(2) by (simp add: unsigned_of_nat take_bit_nat_eq_self)
  with hs_create_spec [OF assms(1) _ assms(3), of "of_nat n" alloc] assms(2,4) that show ?thesis
    by (auto simp: alloc_ample_def split: if_splits)
qed

text \<open>Two copy loops one after the other, as in union and symmetric difference.\<close>

lemma copy_two:
  assumes op: "operands A B" and al: "alloc_ample ok0" "\<And>j. alloc_ample (okA j)" "\<And>j. alloc_ample (okB j)"
    and PQ: "\<And>a b. hs_eq A a b \<Longrightarrow> P a \<longleftrightarrow> P b" "\<And>a b. hs_eq A a b \<Longrightarrow> Q a \<longleftrightarrow> Q b"
  obtains r r1 r2 where
    "hashset_create ok0 (hs_key_size A) (of_nat (hs_size A + hs_size B)) (Some (hs_hash_fn A)) (Some (hs_equals_fn A))
       = Some (Some r)"
    "add_filtered okA P A (hs_capacity A) 0 r = Some r1" "add_filtered okB Q B (hs_capacity B) 0 r1 = Some r2"
    "hs_inv r2" "\<And>x. hs_has r2 x \<longleftrightarrow> hs_has A x \<and> P x \<or> hs_has B x \<and> Q x"
proof -
  note O = operandsD [OF op]
  have lim: "hs_size A + hs_size B < 2 ^ 56" "0 < hs_key_size A" using op by (auto simp: operands_def)
  obtain r where r: "hashset_create ok0 (hs_key_size A) (of_nat (hs_size A + hs_size B)) (Some (hs_hash_fn A)) (Some (hs_equals_fn A))
       = Some (Some r)" "hs_inv r" "hs_size r = 0" "\<And>x. \<not> hs_has r x" "hs_eq r = hs_eq A"
    using create_ample [OF lim(2,1) O(5) al(1)] unfolding O(8) by blast
  have szA: "hs_size r + card (hs_slots_used A) < 2 ^ 58" using lim r(3) O(6) by simp
  obtain r1 where r1: "add_filtered okA P A (hs_capacity A) 0 r = Some r1" "hs_inv r1" "hs_eq r1 = hs_eq A"
    "\<And>x. hs_has r1 x \<longleftrightarrow> hs_has r x \<or> hs_has A x \<and> P x" "hs_size r1 \<le> hs_size r + card (hs_slots_used A)"
    using add_filtered_all [of A r okA P, OF O(1) r(2,5) al(2) szA PQ(1)] by blast
  have sz: "hs_size r1 + card (hs_slots_used B) < 2 ^ 58" using lim r(3) r1(5) O(6,7) by simp
  have e: "hs_eq r1 = hs_eq B" using r1(3) O(3) by simp
  have Q: "\<And>a b. hs_eq B a b \<Longrightarrow> Q a \<longleftrightarrow> Q b" using PQ(2) O(3) by simp
  obtain r2 where r2: "add_filtered okB Q B (hs_capacity B) 0 r1 = Some r2" "hs_inv r2"
    "\<And>x. hs_has r2 x \<longleftrightarrow> hs_has r1 x \<or> hs_has B x \<and> Q x"
    using add_filtered_all [of B r1 okB Q, OF O(2) r1(2) e al(3) sz Q] by blast
  have "\<And>x. hs_has r2 x \<longleftrightarrow> hs_has A x \<and> P x \<or> hs_has B x \<and> Q x" by (simp add: r2(3) r1(4) r(4))
  with that [OF r(1) r1(1) r2(1,2)] show ?thesis by blast
qed

text \<open>One copy loop, as in intersection and difference.\<close>

lemma copy_one:
  assumes op: "operands A B" and al: "alloc_ample ok0" "\<And>j. alloc_ample (ok1 j)"
    and src: "src = A \<or> src = B" and P: "\<And>a b. hs_eq A a b \<Longrightarrow> P a \<longleftrightarrow> P b"
  obtains r r1 where
    "hashset_create ok0 (hs_key_size A) (of_nat (hs_size src)) (Some (hs_hash_fn A)) (Some (hs_equals_fn A)) = Some (Some r)"
    "add_filtered ok1 P src (hs_capacity src) 0 r = Some r1" "hs_inv r1"
    "\<And>x. hs_has r1 x \<longleftrightarrow> hs_has src x \<and> P x"
proof -
  note O = operandsD [OF op]
  have lim: "hs_size src < 2 ^ 56" "0 < hs_key_size A" using op src by (auto simp: operands_def)
  have S: "hs_wf src" "hs_eq src = hs_eq A" "card (hs_slots_used src) = hs_size src" using src O by auto
  obtain r where r: "hashset_create ok0 (hs_key_size A) (of_nat (hs_size src)) (Some (hs_hash_fn A)) (Some (hs_equals_fn A))
       = Some (Some r)" "hs_inv r" "hs_size r = 0" "\<And>x. \<not> hs_has r x" "hs_eq r = hs_eq A"
    using create_ample [OF lim(2,1) O(5) al(1)] unfolding O(8) by blast
  have sz: "hs_size r + card (hs_slots_used src) < 2 ^ 58" using lim r(3) S(3) by simp
  have e: "hs_eq r = hs_eq src" using r(5) S(2) by simp
  have Q: "\<And>a b. hs_eq src a b \<Longrightarrow> P a \<longleftrightarrow> P b" using P S(2) by simp
  obtain r1 where "add_filtered ok1 P src (hs_capacity src) 0 r = Some r1" "hs_inv r1"
    "\<And>x. hs_has r1 x \<longleftrightarrow> hs_has r x \<or> hs_has src x \<and> P x"
    using add_filtered_all [of src r ok1 P, OF S(1) r(2) e al(2) sz Q] by blast
  moreover from this(3) have "\<And>x. hs_has r1 x \<longleftrightarrow> hs_has src x \<and> P x" by (simp add: r(4))
  ultimately show ?thesis using that [OF r(1)] by blast
qed

section \<open>The set as a dictionary\<close>

definition set_lookup :: "hashset_t \<Rightarrow> hs_key \<Rightarrow> unit option" where
  "set_lookup s x = (if hs_has s x then Some () else None)"

definition set_put :: "(nat \<Rightarrow> bool) \<Rightarrow> hashset_t \<Rightarrow> hs_key \<Rightarrow> unit \<Rightarrow> bool \<times> hashset_t" where
  "set_put alloc s k u = apsnd the (the (hashset_add alloc (Some s) (Some k)))"

definition set_del :: "hashset_t \<Rightarrow> hs_key \<Rightarrow> hashset_t" where
  "set_del s k = the (snd (hashset_remove (Some s) (Some k)))"

text \<open>The allocator of the interpretation: up to a given limit below \<open>2 ^ 63\<close>.\<close>

definition alloc_upto :: "nat \<Rightarrow> nat \<Rightarrow> bool" where
  "alloc_upto limit c \<longleftrightarrow> c \<le> limit \<and> c < 2 ^ 63"

lemma alloc_upto_sane [simp]: "alloc_sane (alloc_upto limit)"
  by (simp add: alloc_sane_def alloc_upto_def)

interpretation hset: dictionary
  "\<lambda>s. hs_inv s \<and> hs_eq s = eq" set_lookup eq "\<lambda>limit. set_put (alloc_upto limit)" set_del
  for eq
proof unfold_locales
  fix s :: hashset_t and k x and limit and u :: unit
  assume inv: "hs_inv s \<and> hs_eq s = eq"
  have add: "set_put (alloc_upto limit) s k u = (False, s)
      \<or> (\<exists>s'. set_put (alloc_upto limit) s k u = (True, s') \<and> add_done s s' k)"
    using hashset_add_spec [of s "alloc_upto limit" k] inv by (auto simp: set_put_def split: if_splits)
  then show "hs_inv (snd (set_put (alloc_upto limit) s k u)) \<and> hs_eq (snd (set_put (alloc_upto limit) s k u)) = eq"
    using inv by (auto simp: add_done_def)
  from add show "set_lookup (snd (set_put (alloc_upto limit) s k u)) x =
      (if fst (set_put (alloc_upto limit) s k u) \<and> eq k x then Some u else set_lookup s x)"
    using inv by (auto simp: add_done_def set_lookup_def)
  have del: "set_del s k = s \<and> \<not> hs_has s k \<or> remove_done s (set_del s k) k"
    using hashset_remove_spec [of s k] inv by (auto simp: set_del_def split: if_splits)
  then show "hs_inv (set_del s k) \<and> hs_eq (set_del s k) = eq" using inv by (auto simp: remove_done_def)
  have "hs_has s k" if "hs_has s x" "eq k x"
    using that inv hs_cmp [of s] unfolding hs_has_def hs_inv_def hs_wf_def by blast
  with del show "set_lookup (set_del s k) x = (if eq k x then None else set_lookup s x)"
    using inv by (auto simp: remove_done_def set_lookup_def)
qed

section \<open>Properties\<close>

definition demo_set :: hashset_t where
  "demo_set = \<lparr>hs_meta = replicate 16 HS_EMPTY, hs_keys = replicate 16 None, hs_capacity = 16, hs_size = 0,
     hs_key_size = 4, hs_hash_fn = hashset_default_hash, hs_equals_fn = hashset_default_equals\<rparr>"

lemma demo_set_inv: "hs_inv demo_set"
proof -
  have cb: "hs_callbacks demo_set"
    using fns_ok_default [of 4] by (simp add: fns_ok_def hs_callbacks_def demo_set_def hs_eq_def [abs_def] hs_hash_def [abs_def])
  have t: "hs_table demo_set 16 (replicate 16 HS_EMPTY, replicate 16 None) = demo_set"
    by (simp add: hs_table_def demo_set_def)
  from hs_table_blank [of 16 demo_set] cb t have "hs_wf demo_set" "hs_slots_used demo_set = {}" by auto
  moreover have "hs_size demo_set = 0" "hs_capacity demo_set = 16" by (simp_all add: demo_set_def)
  ultimately show ?thesis by (simp add: hs_inv_def)
qed

text \<open>(C8)
  \<^verbatim>\<open>hashset_add\<close> on every branch: it always returns; it returns false exactly when the load
  factor would be exceeded and the doubled table cannot be allocated, and then changes nothing;
  otherwise afterwards \<^verbatim>\<open>hashset_contains\<close> holds for exactly the old members and the keys equal to
  the new one, the size grows exactly when the key was not a member, and the table invariant
  (no two equal keys, no gap in a probe path, at least one empty slot) holds again.
\<close>

theorem hashset_add_correct:
  assumes "hs_inv s" "alloc_sane alloc"
  shows "\<exists>ok s'. hashset_add alloc (Some s) (Some k) = Some (ok, Some s') \<and> hs_inv s'
    \<and> (ok \<longleftrightarrow> \<not> load_exceeded s \<or> alloc (2 * hs_capacity s))
    \<and> (\<not> ok \<longrightarrow> s' = s)
    \<and> (ok \<longrightarrow> (\<forall>x. hashset_contains (Some s') (Some x) \<longleftrightarrow> hashset_contains (Some s) (Some x) \<or> hs_eq s k x)
        \<and> hashset_size (Some s') = hashset_size (Some s) + (if hashset_contains (Some s) (Some k) then 0 else 1))"
proof (cases "load_exceeded s \<and> \<not> alloc (2 * hs_capacity s)")
  case True
  with hashset_add_spec [OF assms, of k] assms(1) show ?thesis by auto
next
  case False
  with hashset_add_spec [OF assms, of k] obtain s' where
    s': "hashset_add alloc (Some s) (Some k) = Some (True, Some s')" "add_done s s' k" by auto
  then have "hs_wf s" "hs_wf s'" using assms(1) by (auto simp: add_done_def hs_inv_def)
  with s' False show ?thesis
    by (intro exI [of _ True] exI [of _ s']) (auto simp: add_done_def contains_has hashset_size_def)
qed

theorem hashset_add_correct_witness:
  "\<exists>ok s'. hashset_add (\<lambda>c. c < 100) (Some demo_set) (Some [1, 2, 3, 4]) = Some (ok, Some s') \<and> hs_inv s'"
  using hashset_add_correct [OF demo_set_inv, of "\<lambda>c. c < 100" "[1, 2, 3, 4]"] by (auto simp: alloc_sane_def)

text \<open>(C9)
  \<^verbatim>\<open>hashset_remove\<close> with its two cursors removes exactly the keys equal to the given one: it
  returns whether there was a member, every other member is still found afterwards (no probe
  path is broken by the shift, including clusters that wrap around the end of the table), the
  size drops by one and the invariant is kept.
\<close>

theorem hashset_remove_correct:
  assumes "hs_inv s"
  shows "\<exists>s'. hashset_remove (Some s) (Some k) = (hashset_contains (Some s) (Some k), Some s') \<and> hs_inv s'
    \<and> (\<forall>x. hashset_contains (Some s') (Some x) \<longleftrightarrow> hashset_contains (Some s) (Some x) \<and> \<not> hs_eq s k x)
    \<and> hashset_size (Some s) = hashset_size (Some s') + (if hashset_contains (Some s) (Some k) then 1 else 0)
    \<and> hs_capacity s' = hs_capacity s"
proof (cases "hs_has s k")
  case True
  with hashset_remove_spec [OF assms, of k] obtain s' where
    s': "hashset_remove (Some s) (Some k) = (True, Some s')" "remove_done s s' k" by auto
  then have "hs_wf s" "hs_wf s'" using assms by (auto simp: remove_done_def hs_inv_def)
  with s' True show ?thesis by (auto simp: remove_done_def contains_has hashset_size_def)
next
  case False
  have wf: "hs_wf s" using assms by (simp add: hs_inv_def)
  have "\<not> hs_eq s k x" if "hs_has s x" for x
    using False that hs_cmp [OF hs_wfD(2) [OF wf]] unfolding hs_has_def by blast
  with hashset_remove_spec [OF assms, of k] False assms wf show ?thesis by (auto simp: contains_has)
qed

theorem hashset_remove_correct_witness:
  "\<exists>s'. hashset_remove (Some demo_set) (Some [1, 2, 3, 4]) = (hashset_contains (Some demo_set) (Some [1, 2, 3, 4]), Some s')
     \<and> hs_capacity s' = hs_capacity demo_set"
  using hashset_remove_correct [OF demo_set_inv, of "[1, 2, 3, 4]"] by blast

text \<open>(C10)
  Union, intersection, difference and symmetric difference of two sets with the same
  callbacks compute exactly these sets, when memory suffices; the results satisfy the invariant.
\<close>

theorem hashset_algebra:
  assumes "operands A B" "alloc_ample ok0" "\<And>j. alloc_ample (ok1 j)"
  shows "\<exists>u n d y. hashset_union ok0 ok1 ok1 (Some A) (Some B) = Some (Some u)
    \<and> hashset_intersection ok0 ok1 (Some A) (Some B) = Some (Some n)
    \<and> hashset_difference ok0 ok1 (Some A) (Some B) = Some (Some d)
    \<and> hashset_symmetric_difference ok0 ok1 ok1 (Some A) (Some B) = Some (Some y)
    \<and> hs_inv u \<and> hs_inv n \<and> hs_inv d \<and> hs_inv y
    \<and> (\<forall>x. hs_has u x \<longleftrightarrow> hs_has A x \<or> hs_has B x)
    \<and> (\<forall>x. hs_has n x \<longleftrightarrow> hs_has A x \<and> hs_has B x)
    \<and> (\<forall>x. hs_has d x \<longleftrightarrow> hs_has A x \<and> \<not> hs_has B x)
    \<and> (\<forall>x. hs_has y x \<longleftrightarrow> hs_has A x \<noteq> hs_has B x)"
proof -
  note O = operandsD [OF assms(1)] and al = assms(2,3,3) and al1 = assms(2,3)
  have ks: "hs_key_size A = hs_key_size B" using assms(1) by (simp add: operands_def)
  have c: "hashset_contains (Some A) (Some k) \<longleftrightarrow> hs_has A k" "hashset_contains (Some B) (Some k) \<longleftrightarrow> hs_has B k" for k
    using O(1,2) by (simp_all add: contains_has)
  obtain u where u: "hashset_union ok0 ok1 ok1 (Some A) (Some B) = Some (Some u)" "hs_inv u"
    "\<And>x. hs_has u x \<longleftrightarrow> hs_has A x \<or> hs_has B x"
    by (rule copy_two [of A B ok0 ok1 ok1 "\<lambda>_. True" "\<lambda>_. True", OF assms(1) al]) (auto simp: hashset_union_def ks)
  obtain y where y: "hashset_symmetric_difference ok0 ok1 ok1 (Some A) (Some B) = Some (Some y)" "hs_inv y"
    "\<And>x. hs_has y x \<longleftrightarrow> hs_has A x \<noteq> hs_has B x"
    by (rule copy_two [of A B ok0 ok1 ok1 "\<lambda>k. \<not> hs_has B k" "\<lambda>k. \<not> hs_has A k", OF assms(1) al])
       (use O(10,11) in \<open>auto simp: hashset_symmetric_difference_def ks c\<close>)
  obtain d where d: "hashset_difference ok0 ok1 (Some A) (Some B) = Some (Some d)" "hs_inv d"
    "\<And>x. hs_has d x \<longleftrightarrow> hs_has A x \<and> \<not> hs_has B x"
    by (rule copy_one [of A B ok0 ok1 A "\<lambda>k. \<not> hs_has B k", OF assms(1) al1])
       (use O(10,11) in \<open>auto simp: hashset_difference_def ks c\<close>)
  obtain n where n: "hashset_intersection ok0 ok1 (Some A) (Some B) = Some (Some n)" "hs_inv n"
    "\<And>x. hs_has n x \<longleftrightarrow> hs_has A x \<and> hs_has B x"
  proof (cases "hs_size A \<le> hs_size B")
    case True
    show thesis
      by (rule copy_one [of A B ok0 ok1 A "\<lambda>k. hs_has B k", OF assms(1) al1])
         (use O(10,11) True that in \<open>auto simp: hashset_intersection_def ks c\<close>)
  next
    case False
    show thesis
      by (rule copy_one [of A B ok0 ok1 B "\<lambda>k. hs_has A k", OF assms(1) al1])
         (use O(10,11) False that in \<open>auto simp: hashset_intersection_def ks c\<close>)
  qed
  from u y d n show ?thesis by blast
qed

theorem hashset_algebra_witness:
  "\<exists>u. hashset_union (\<lambda>c. c < 2 ^ 63) (\<lambda>_ c. c < 2 ^ 63) (\<lambda>_ c. c < 2 ^ 63) (Some demo_set) (Some demo_set) = Some (Some u)
     \<and> hs_inv u"
proof -
  have "operands demo_set demo_set" using demo_set_inv by (simp add: operands_def) (simp add: demo_set_def)
  from hashset_algebra [OF this, of "\<lambda>c. c < 2 ^ 63" "\<lambda>_ c. c < 2 ^ 63"] show ?thesis
    by (auto simp: alloc_ample_def)
qed

text \<open>(C11)
  The rounding loop of \<^verbatim>\<open>hashset_create\<close> ends exactly for requests of at most \<open>2 ^ 63\<close> slots; then
  the capacity is the least power of two that is at least the request and at least sixteen.
  For a larger request the shifted capacity becomes zero and the loop never ends.
\<close>

theorem hashset_create_terminates_iff:
  "(unat n \<le> 2 ^ 63 \<longleftrightarrow> round_capacity n HASHSET_DEFAULT_CAPACITY \<noteq> None)
   \<and> (\<forall>r. round_capacity n HASHSET_DEFAULT_CAPACITY = Some r \<longrightarrow>
        pow2 (unat r) \<and> n \<le> r \<and> 16 \<le> unat r \<and> (unat r = 16 \<or> unat r < 2 * unat n))"
proof (cases "unat n \<le> 2 ^ 63")
  case True
  obtain r q where "round_capacity n HASHSET_DEFAULT_CAPACITY = Some r" "4 \<le> q" "unat r = 2 ^ q" "n \<le> r"
    "q = 4 \<or> unat r < 2 * unat n"
    using round_capacity_returns [of n 4 HASHSET_DEFAULT_CAPACITY] True by (auto simp: HASHSET_DEFAULT_CAPACITY_def)
  with True power_increasing [of 4 q "2::nat"] show ?thesis by (auto simp: pow2_def)
next
  case False
  then show ?thesis using round_capacity_diverges [of n] by simp
qed

theorem hashset_create_terminates_iff_witness:
  "\<exists>r. round_capacity 100 HASHSET_DEFAULT_CAPACITY = Some r \<and> 100 \<le> unat r \<and> unat r < 200"
  using hashset_create_terminates_iff [of 100] by (auto simp: word_le_nat_alt)

end
