(* ===== verification/Byte_Strings.thy ===== *)
theory Byte_Strings
  imports Prelude
begin

text \<open>
  Byte strings and the C library functions on them that the string components call.  A C
  string argument is the list of its bytes without the terminating NUL.  The first part
  reads and writes single cells of a buffer; the second holds the reference definitions
  the string searches are compared with: the first occurrence of a needle, and splitting,
  joining and replacing at the non-overlapping occurrences found from left to right.
\<close>

type_synonym bytes = "u8 list"

section \<open>Cells of a buffer\<close>

text \<open>
  Reading a byte outside the block or a byte that was never written, and writing outside
  the block, are undefined (\<open>None\<close>).
\<close>

definition rd :: "buffer \<Rightarrow> nat \<Rightarrow> u8 option" where
  "rd b i = (if i < length b then b ! i else None)"

definition wr :: "buffer \<Rightarrow> nat \<Rightarrow> u8 \<Rightarrow> buffer option" where
  "wr b i v = (if i < length b then Some (b[i := Some v]) else None)"

definition get_bytes :: "buffer \<Rightarrow> nat \<Rightarrow> nat \<Rightarrow> bytes option" where
  "get_bytes b off n =
     (if off + n \<le> length b \<and> None \<notin> set (take n (drop off b))
      then Some (map the (take n (drop off b))) else None)"

text \<open>\<open>mem_move b dst src n\<close> is \<^verbatim>\<open>memmove(b + dst, b + src, n)\<close>: the ranges may overlap.\<close>

definition put_cells :: "buffer \<Rightarrow> nat \<Rightarrow> cell list \<Rightarrow> buffer option" where
  "put_cells b off cs =
     (if off + length cs \<le> length b
      then Some (take off b @ cs @ drop (off + length cs) b) else None)"

definition mem_move :: "buffer \<Rightarrow> nat \<Rightarrow> nat \<Rightarrow> nat \<Rightarrow> buffer option" where
  "mem_move b dst src n = do { cs \<leftarrow> mem_read b src n; put_cells b dst cs }"

lemma rd_append [simp]:
  "rd (a @ b) i = (if i < length a then a ! i else rd b (i - length a))"
  by (auto simp: rd_def nth_append)

lemma rd_Cons [simp]: "rd (x # b) i = (if i = 0 then x else rd b (i - 1))"
  by (auto simp: rd_def nth_Cons')

lemma rd_map_Some [simp]: "i < length c \<Longrightarrow> rd (map Some c) i = Some (c ! i)"
  by (simp add: rd_def)

lemma wr_append_here [simp]: "wr (a @ x # b) (length a) v = Some (a @ Some v # b)"
  by (simp add: wr_def)

lemma wr_map_here [simp]: "wr (map Some a @ x # b) (length a) v = Some (map Some a @ Some v # b)"
  using wr_append_here [of "map Some a" x b v] by simp

lemma wr_length: "wr b i v = Some b' \<Longrightarrow> length b' = length b"
  by (auto simp: wr_def split: if_splits)

lemma get_bytes_append:
  assumes "off + n \<le> length c"
  shows "get_bytes (map Some c @ junk) off n = Some (take n (drop off c))"
proof -
  have "take n (drop off (map Some c @ junk)) = map Some (take n (drop off c))"
    using assms by (simp add: take_map drop_map)
  then show ?thesis
    using assms by (simp add: get_bytes_def comp_def)
qed

lemma get_bytes_whole [simp]: "get_bytes (map Some c @ junk) 0 (length c) = Some c"
  using get_bytes_append [of 0 "length c" c junk] by simp

lemma mem_write_put_cells: "mem_write b off bs = put_cells b off (map Some bs)"
  by (simp add: mem_write_def put_cells_def)

lemma put_cells_at:
  assumes "length mid = length cs"
  shows "put_cells (a @ mid @ z) (length a) cs = Some (a @ cs @ z)"
  using assms by (simp add: put_cells_def)

lemma mem_write_at:
  assumes "length mid = length bs"
  shows "mem_write (a @ mid @ z) (length a) bs = Some (a @ map Some bs @ z)"
  using put_cells_at [of mid "map Some bs" a z] assms by (simp add: mem_write_put_cells)

text \<open>
  One step of an in-place compaction: the byte at the read cursor, behind the prefix
  already written and a gap of stale bytes, is written at the write cursor.
\<close>

lemma compact_step:
  obtains g' where
    "length g' = length g"
    "wr (map Some p @ g @ Some x # z) (length p) y = Some (map Some (p @ [y]) @ g' @ z)"
proof (cases g)
  case Nil
  then have "wr (map Some p @ g @ Some x # z) (length p) y = Some (map Some (p @ [y]) @ [] @ z)"
    by simp
  with Nil that [of "[]"] show ?thesis by simp
next
  case (Cons h t)
  then have "wr (map Some p @ g @ Some x # z) (length p) y
      = Some (map Some (p @ [y]) @ (t @ [Some x]) @ z)"
    by simp
  with Cons that [of "t @ [Some x]"] show ?thesis by simp
qed

section \<open>Editing the text of a block\<close>

lemma write_after:
  assumes "length a + length c < length (map Some c @ Some 0 # junk)"
  shows "mem_write (map Some c @ Some 0 # junk) (length c) (a @ [0])
    = Some (map Some (c @ a) @ Some 0 # drop (length a) junk)"
  using assms by (simp add: mem_write_def)

lemma put_after:
  assumes "length a + length c < length (map Some c @ Some 0 # junk)"
  shows "put_cells (map Some c @ Some 0 # junk) (length c) (map Some a @ [Some 0])
    = Some (map Some (c @ a) @ Some 0 # drop (length a) junk)"
  using write_after [OF assms] by (simp add: mem_write_put_cells)

lemma open_gap:
  assumes "length A = n" "n \<le> length J"
  shows "do { b \<leftarrow> mem_move (P @ M @ J) (length P + n) (length P) (length M); put_cells b (length P) A }
    = Some (P @ A @ M @ drop n J)"
  using assms by (simp add: mem_move_def mem_read_def put_cells_def)

text \<open>The same steps on the contents of a string: \<open>a\<close> is inserted at \<open>i\<close>.\<close>

definition insert_at :: "nat \<Rightarrow> 'a list \<Rightarrow> 'a list \<Rightarrow> 'a list" where
  "insert_at i a c = take i c @ a @ drop i c"

lemma insert_at_Nil [simp]: "insert_at i [] c = c"
  by (simp add: insert_at_def)

lemma length_insert_at [simp]: "length (insert_at i a c) = length c + length a"
  by (simp add: insert_at_def)

lemma insert_cells:
  assumes "i \<le> length c" "length a + length c < length (map Some c @ Some 0 # junk)"
  shows "do { b \<leftarrow> mem_move (map Some c @ Some 0 # junk) (i + length a) i (length c - i + 1);
              put_cells b i (map Some a) }
    = Some (map Some (insert_at i a c) @ Some 0 # drop (length a) junk)"
proof -
  have split: "map Some c @ Some 0 # junk = map Some (take i c) @ (map Some (drop i c) @ [Some 0]) @ junk"
    using append_take_drop_id [of i "map Some c"] by (simp add: take_map drop_map)
  have "length (map Some (take i c)) = i" "length (map Some (drop i c) @ [Some 0]) = length c - i + 1"
    using assms(1) by auto
  with open_gap [of "map Some a" "length a" junk "map Some (take i c)" "map Some (drop i c) @ [Some 0]"]
    assms(2)
  show ?thesis by (simp add: split insert_at_def)
qed

definition delete_at :: "nat \<Rightarrow> nat \<Rightarrow> 'a list \<Rightarrow> 'a list" where
  "delete_at i n c = take i c @ drop (i + n) c"

lemma close_gap:
  assumes "i + n \<le> length c"
  shows "\<exists>b junk'. mem_move (map Some c @ Some 0 # junk) i (i + n) (length c - i - n + 1) = Some b \<and>
    length b = length c + 1 + length junk \<and> b = map Some (delete_at i n c) @ Some 0 # junk'"
proof -
  define M where "M = map Some (drop (i + n) c) @ [Some (0 :: u8)]"
  define D where "D = map Some c @ Some 0 # junk"
  have c: "D = map Some (take (i + n) c) @ M @ junk"
    using append_take_drop_id [of "i + n" "map Some c"] by (simp add: M_def D_def take_map drop_map)
  have len: "length M = length c - i - n + 1" "length D = length c + 1 + length junk"
    using assms by (auto simp: M_def D_def)
  have "drop (i + n) D = M @ junk"
    using assms by (simp add: c)
  then have "take (length c - i - n + 1) (drop (i + n) D) = M"
    using len(1) by simp
  then have r: "mem_read D (i + n) (length c - i - n + 1) = Some M"
    using assms len(2) by (simp add: mem_read_def)
  have "take i D = map Some (take i c)"
    using assms by (simp add: D_def take_map)
  then have "put_cells D i M = Some (map Some (delete_at i n c) @ Some 0 # drop (i + length M) D)"
    using assms len by (simp add: put_cells_def M_def delete_at_def)
  with r have "mem_move D i (i + n) (length c - i - n + 1)
      = Some (map Some (delete_at i n c) @ Some 0 # drop (i + length M) D)"
    by (simp add: mem_move_def)
  moreover have "length (map Some (delete_at i n c) @ Some 0 # drop (i + length M) D) = length c + 1 + length junk"
    using assms len by (simp add: delete_at_def)
  ultimately show ?thesis unfolding D_def by blast
qed

lemma delete_at_beyond: "length c \<le> i + n \<Longrightarrow> delete_at i n c = take i c"
  by (simp add: delete_at_def)

lemma length_delete_at: "i + n \<le> length c \<Longrightarrow> length (delete_at i n c) = length c - n"
  by (simp add: delete_at_def)

section \<open>Character classes of the C locale\<close>

definition isspace :: "u8 \<Rightarrow> bool" where
  "isspace c \<longleftrightarrow> c = 32 \<or> (9 \<le> c \<and> c \<le> 13)"

definition is_upper :: "u8 \<Rightarrow> bool" where
  "is_upper c \<longleftrightarrow> 65 \<le> c \<and> c \<le> 90"

definition is_lower :: "u8 \<Rightarrow> bool" where
  "is_lower c \<longleftrightarrow> 97 \<le> c \<and> c \<le> 122"

definition toupper :: "u8 \<Rightarrow> u8" where
  "toupper c = (if is_lower c then c - 32 else c)"

definition tolower :: "u8 \<Rightarrow> u8" where
  "tolower c = (if is_upper c then c + 32 else c)"

lemma exhaust_u8:
  assumes "list_all (\<lambda>n. P (of_nat n)) [0..<256]"
  shows "P (c :: u8)"
proof -
  have "unat c \<in> set [0..<256]"
    using unsigned_less [of c] by simp
  with assms have "P (of_nat (unat c))"
    by (metis list_all_iff)
  then show ?thesis by simp
qed

section \<open>Bits of a byte\<close>

lemma high_bits:
  fixes b :: u8 assumes "k < 8"
  shows "unat (b AND push_bit k (mask (8 - k))) = unat b div 2 ^ k * 2 ^ k"
proof -
  have lt: "unat b div 2 ^ k * 2 ^ k < 256"
  proof -
    have "unat b < 2 ^ LENGTH(8)" by (rule unsigned_less)
    then have "unat b < 256" by simp
    then show ?thesis by (rule le_less_trans [OF div_times_less_eq_dividend])
  qed
  have "b AND push_bit k (mask (8 - k)) = push_bit k (drop_bit k b)"
  proof (rule bit_word_eqI)
    fix n assume "n < LENGTH(8)"
    with assms show "bit (b AND push_bit k (mask (8 - k))) n = bit (push_bit k (drop_bit k b)) n"
      by (auto simp: bit_and_iff bit_push_bit_iff bit_drop_bit_eq bit_mask_iff)
  qed
  then have "unat (b AND push_bit k (mask (8 - k))) = take_bit 8 (push_bit k (drop_bit k (unat b)))"
    by (simp only: unsigned_push_bit_eq unat_drop_bit_eq) simp
  also have "\<dots> = unat b div 2 ^ k * 2 ^ k"
    using lt by (simp add: push_bit_eq_mult drop_bit_eq_div take_bit_eq_mod)
  finally show ?thesis .
qed

lemma low_bits: "unat (b AND mask k) = unat b mod 2 ^ k" for b :: u8
proof -
  have "unat (b AND mask k) = take_bit k (unat b)"
    by (simp add: unsigned_take_bit_eq flip: take_bit_eq_mask)
  then show ?thesis by (simp add: take_bit_eq_mod)
qed

lemma high_masks:
  "unat (b AND 0x80) = unat b div 128 * 128" "unat (b AND 0xC0) = unat b div 64 * 64"
  "unat (b AND 0xE0) = unat b div 32 * 32" "unat (b AND 0xF0) = unat b div 16 * 16"
  "unat (b AND 0xF8) = unat b div 8 * 8"
  for b :: u8
  using high_bits [of 7 b] high_bits [of 6 b] high_bits [of 5 b] high_bits [of 4 b] high_bits [of 3 b]
  by (simp_all add: mask_numeral)

lemma low_masks:
  "unat (b AND 0x1F) = unat b mod 32" "unat (b AND 0x0F) = unat b mod 16" "unat (b AND 0x07) = unat b mod 8"
  "unat (b AND 0x3F) = unat b mod 64"
  for b :: u8
  using low_bits [of b 5] low_bits [of b 4] low_bits [of b 3] low_bits [of b 6] by (simp_all add: mask_numeral)

lemma lead_classes:
  "b AND 0x80 = 0 \<longleftrightarrow> unat b < 0x80"
  "b AND 0xE0 = 0xC0 \<longleftrightarrow> 0xC0 \<le> unat b \<and> unat b < 0xE0"
  "b AND 0xF0 = 0xE0 \<longleftrightarrow> 0xE0 \<le> unat b \<and> unat b < 0xF0"
  "b AND 0xF8 = 0xF0 \<longleftrightarrow> 0xF0 \<le> unat b \<and> unat b < 0xF8"
  "b AND 0xC0 = 0x80 \<longleftrightarrow> 0x80 \<le> unat b \<and> unat b < 0xC0"
  for b :: u8
  unfolding word_unat_eq_iff high_masks by (simp_all, arith+)


section \<open>Searching: the reference definitions\<close>

fun memchr :: "bytes \<Rightarrow> u8 \<Rightarrow> nat option" where
  "memchr [] c = None"
| "memchr (x # xs) c = (if x = c then Some 0 else map_option Suc (memchr xs c))"

lemma memchr_Some:
  "memchr xs c = Some k \<longleftrightarrow> k < length xs \<and> xs ! k = c \<and> (\<forall>j<k. xs ! j \<noteq> c)"
proof (induction xs arbitrary: k)
  case (Cons x xs)
  show ?case
    by (cases k) (auto simp: Cons.IH less_Suc_eq_0_disj nth_Cons')
qed simp

lemma memchr_None: "memchr xs c = None \<longleftrightarrow> c \<notin> set xs"
  by (induction xs) auto

text \<open>\<open>occurs_at nd hs i\<close>: the needle stands at offset \<open>i\<close> of the haystack.\<close>

definition occurs_at :: "bytes \<Rightarrow> bytes \<Rightarrow> nat \<Rightarrow> bool" where
  "occurs_at nd hs i \<longleftrightarrow> i + length nd \<le> length hs \<and> take (length nd) (drop i hs) = nd"

lemma occurs_at_nth:
  "occurs_at nd hs i \<longleftrightarrow>
     i + length nd \<le> length hs \<and> (\<forall>j<length nd. hs ! (i + j) = nd ! j)"
  by (auto simp: occurs_at_def list_eq_iff_nth_eq)

lemma occurs_at_Cons_Suc [simp]: "occurs_at nd (x # hs) (Suc i) = occurs_at nd hs i"
  by (simp add: occurs_at_def)

lemma occurs_at_drop: "n \<le> length hs \<Longrightarrow> occurs_at nd (drop n hs) i = occurs_at nd hs (n + i)"
  by (auto simp: occurs_at_def add.commute add.left_commute)

lemma occurs_at_split:
  "occurs_at nd hs i \<Longrightarrow> hs = take i hs @ nd @ drop (i + length nd) hs"
  by (metis add.commute append_take_drop_id drop_drop occurs_at_def)

text \<open>The offset of the first occurrence.\<close>

fun find_sub :: "bytes \<Rightarrow> bytes \<Rightarrow> nat option" where
  "find_sub nd [] = (if nd = [] then Some 0 else None)"
| "find_sub nd (x # hs) =
     (if take (length nd) (x # hs) = nd then Some 0 else map_option Suc (find_sub nd hs))"

lemma occurs_at_0: "occurs_at nd hs 0 \<longleftrightarrow> take (length nd) hs = nd"
  unfolding occurs_at_def by (metis drop0 length_take min.absorb_iff2 add_0)

lemma find_sub_Some:
  "find_sub nd hs = Some i \<longleftrightarrow> occurs_at nd hs i \<and> (\<forall>j<i. \<not> occurs_at nd hs j)"
proof (induction hs arbitrary: i)
  case Nil
  show ?case by (auto simp: occurs_at_def)
next
  case (Cons x hs)
  show ?case
    by (cases i) (auto simp: Cons.IH occurs_at_0 less_Suc_eq_0_disj)
qed

lemma find_sub_None: "find_sub nd hs = None \<longleftrightarrow> (\<forall>i. \<not> occurs_at nd hs i)"
proof (induction hs)
  case Nil
  show ?case by (auto simp: occurs_at_def)
next
  case (Cons x hs)
  have "(\<forall>i. \<not> occurs_at nd (x # hs) i)
      \<longleftrightarrow> \<not> occurs_at nd (x # hs) 0 \<and> (\<forall>i. \<not> occurs_at nd hs i)"
    by (metis not0_implies_Suc occurs_at_Cons_Suc)
  with Cons.IH show ?case by (auto simp: occurs_at_0)
qed

lemma find_sub_empty [simp]: "find_sub [] hs = Some 0"
  by (cases hs) auto

lemma find_sub_le: "find_sub nd hs = Some i \<Longrightarrow> i + length nd \<le> length hs"
  by (simp add: find_sub_Some occurs_at_def)

text \<open>
  Left-to-right, non-overlapping pieces between the occurrences of a non-empty delimiter,
  and the inverse operation.
\<close>

function pieces :: "bytes \<Rightarrow> bytes \<Rightarrow> bytes list" where
  "pieces d hs =
     (if d = [] then [hs]
      else case find_sub d hs of
             None \<Rightarrow> [hs]
           | Some i \<Rightarrow> take i hs # pieces d (drop (i + length d) hs))"
  by auto
termination
proof (relation "measure (\<lambda>(d, hs). length hs)", goal_cases)
  case (2 d hs i)
  then have "0 < length d" "i + length d \<le> length hs"
    by (auto dest: find_sub_le)
  then have "length (drop (i + length d) hs) < length hs"
    unfolding length_drop by linarith
  then show ?case by simp
qed simp

declare pieces.simps [simp del]

fun intersperse :: "bytes \<Rightarrow> bytes list \<Rightarrow> bytes" where
  "intersperse d [] = []"
| "intersperse d [x] = x"
| "intersperse d (x # y # zs) = x @ d @ intersperse d (y # zs)"

lemma pieces_not_Nil [simp]: "pieces d hs \<noteq> []"
  by (subst pieces.simps) (simp split: option.splits)

lemma intersperse_Cons: "zs \<noteq> [] \<Longrightarrow> intersperse d (x # zs) = x @ d @ intersperse d zs"
  by (cases zs) auto

lemma intersperse_pieces: "intersperse d (pieces d hs) = hs"
proof (induction d hs rule: pieces.induct)
  case (1 d hs)
  show ?case
  proof (cases "d = [] \<or> find_sub d hs = None")
    case True
    then show ?thesis by (subst pieces.simps) auto
  next
    case False
    then obtain i where i: "find_sub d hs = Some i" "d \<noteq> []" by auto
    then have "pieces d hs = take i hs # pieces d (drop (i + length d) hs)"
      by (subst pieces.simps) simp
    moreover have "hs = take i hs @ d @ drop (i + length d) hs"
      using i(1) by (intro occurs_at_split) (simp add: find_sub_Some)
    ultimately show ?thesis
      using 1 i by (simp add: intersperse_Cons)
  qed
qed

text \<open>Replacing every occurrence is joining the pieces with the replacement.\<close>

definition replace_pieces :: "bytes \<Rightarrow> bytes \<Rightarrow> bytes \<Rightarrow> bytes" where
  "replace_pieces old new hs = intersperse new (pieces old hs)"

end
