(* ===== verification/Cstr.thy ===== *)
theory Cstr
  imports Byte_Strings
begin

text \<open>
  The dynamic string of \<^verbatim>\<open>include/cstr.h\<close> and \<^verbatim>\<open>src/cstr.c\<close>: its representation with the
  small-string buffer, capacity growth, construction, and the operations that append,
  prepend, insert, remove and copy.

  The C field \<^verbatim>\<open>data\<close> points either to the inline array \<^verbatim>\<open>buf\<close> or to a heap block; the record
  has the heap block as an option (\<open>None\<close>: \<^verbatim>\<open>data\<close> is \<^verbatim>\<open>buf\<close>).  The 32-bit length is a natural
  number with its wrap-around written out; the capacity keeps its flag bit and is a word.
  \<open>None\<close> as the result of an operation means undefined behaviour or a loop that does not
  return; a NULL result is \<open>Some None\<close>.  The outcomes of \<^verbatim>\<open>malloc\<close> and \<^verbatim>\<open>realloc\<close> are boolean
  arguments.  A second string argument can be the string itself (\<open>Self\<close>), as in
  \<^verbatim>\<open>cstr_append_cstr(s, s)\<close>; \<^verbatim>\<open>memcpy\<close> between overlapping ranges is undefined.
\<close>

section \<open>Representation\<close>

definition CSTR_MAX_LEN :: nat where
  "CSTR_MAX_LEN = 0x7FFFFFFF"

definition CSTR_SSO_CAP :: nat where
  "CSTR_SSO_CAP = 16"

definition CSTR_HEAP_FLAG :: u32 where
  "CSTR_HEAP_FLAG = 0x80000000"

definition CSTR_NPOS :: int where
  "CSTR_NPOS = -1"

definition CSTR_MIN_HEAP :: nat where
  "CSTR_MIN_HEAP = 32"

record cstr =
  cs_heap :: "buffer option"
  cs_length :: nat
  cs_capacity :: u32
  cs_buf :: buffer

definition cs_data :: "cstr \<Rightarrow> buffer" where
  "cs_data s = (case cs_heap s of None \<Rightarrow> cs_buf s | Some h \<Rightarrow> h)"

definition set_data :: "buffer \<Rightarrow> cstr \<Rightarrow> cstr" where
  "set_data b s =
     (case cs_heap s of None \<Rightarrow> s\<lparr>cs_buf := b\<rparr> | Some _ \<Rightarrow> s\<lparr>cs_heap := Some b\<rparr>)"

definition cstr_is_heap :: "cstr \<Rightarrow> bool" where
  "cstr_is_heap s \<longleftrightarrow> cs_capacity s AND CSTR_HEAP_FLAG \<noteq> 0"

definition cstr_heap_cap :: "cstr \<Rightarrow> nat" where
  "cstr_heap_cap s = unat (cs_capacity s AND NOT CSTR_HEAP_FLAG)"

text \<open>Arithmetic of \<^verbatim>\<open>uint32_t\<close> and \<^verbatim>\<open>size_t\<close> on natural numbers.\<close>

definition add32 :: "nat \<Rightarrow> nat \<Rightarrow> nat" where
  "add32 a b = (a + b) mod 2 ^ 32"

definition add64 :: "nat \<Rightarrow> nat \<Rightarrow> nat" where
  "add64 a b = (a + b) mod 2 ^ 64"

section \<open>Accessors\<close>

definition cstr_len :: "cstr option \<Rightarrow> nat" where
  "cstr_len so = (case so of None \<Rightarrow> 0 | Some s \<Rightarrow> cs_length s)"

definition cstr_capacity :: "cstr option \<Rightarrow> nat" where
  "cstr_capacity so =
     (case so of None \<Rightarrow> 0
      | Some s \<Rightarrow> if cstr_is_heap s then cstr_heap_cap s else CSTR_SSO_CAP - 1)"

definition cstr_empty :: "cstr option \<Rightarrow> bool" where
  "cstr_empty so = (case so of None \<Rightarrow> True | Some s \<Rightarrow> cs_length s = 0)"

definition cstr_allocated :: "cstr option \<Rightarrow> bool" where
  "cstr_allocated so = (case so of None \<Rightarrow> False | Some s \<Rightarrow> cstr_is_heap s)"

definition cstr_at :: "cstr option \<Rightarrow> nat \<Rightarrow> u8 option" where
  "cstr_at so i =
     (case so of None \<Rightarrow> Some 0
      | Some s \<Rightarrow> if i \<ge> cs_length s then Some 0 else rd (cs_data s) i)"

record cstr_view =
  vw_data :: "buffer option"
  vw_length :: nat

definition cstr_as_view :: "cstr option \<Rightarrow> cstr_view" where
  "cstr_as_view so =
     (case so of None \<Rightarrow> \<lparr>vw_data = None, vw_length = 0\<rparr>
      | Some s \<Rightarrow> \<lparr>vw_data = Some (cs_data s), vw_length = cs_length s\<rparr>)"

section \<open>Capacity\<close>

partial_function (option) grow_loop :: "nat \<Rightarrow> nat \<Rightarrow> nat option" where
  "grow_loop cap need =
     (if cap < need
      then if cap \<le> CSTR_MAX_LEN div 2 then grow_loop (cap * 2) need else Some CSTR_MAX_LEN
      else Some cap)"

definition cstr_grow_cap :: "nat \<Rightarrow> nat \<Rightarrow> nat option" where
  "cstr_grow_cap current need =
     grow_loop (if current < CSTR_MIN_HEAP then CSTR_MIN_HEAP else current) need"

text \<open>\<open>ok\<close> is the outcome of the one \<^verbatim>\<open>malloc\<close> or \<^verbatim>\<open>realloc\<close> the call may make.\<close>

definition cstr_ensure_cap :: "bool \<Rightarrow> nat \<Rightarrow> cstr \<Rightarrow> (bool \<times> cstr) option" where
  "cstr_ensure_cap ok need s =
     (if need > CSTR_MAX_LEN then Some (False, s)
      else if \<not> cstr_is_heap s then
        (if need \<le> CSTR_SSO_CAP then Some (True, s)
         else do {
           cap \<leftarrow> cstr_grow_cap CSTR_SSO_CAP need;
           if \<not> ok then Some (False, s)
           else do {
             cs \<leftarrow> mem_read (cs_buf s) 0 (cs_length s + 1);
             mem \<leftarrow> put_cells (malloc_buf cap) 0 cs;
             Some (True, s\<lparr>cs_heap := Some mem, cs_capacity := CSTR_HEAP_FLAG OR of_nat cap\<rparr>)
           }
         })
      else if need \<le> cstr_heap_cap s then Some (True, s)
      else do {
        new_cap \<leftarrow> cstr_grow_cap (cstr_heap_cap s) need;
        if new_cap = 0 then Some (False, s)
        else if \<not> ok then Some (False, s)
        else Some (True, s\<lparr>cs_heap := Some (realloc_buf (cs_data s) new_cap),
                           cs_capacity := CSTR_HEAP_FLAG OR of_nat new_cap\<rparr>)
      })"

section \<open>Construction and release\<close>

definition cstr_init_inplace :: "cstr \<Rightarrow> cstr" where
  "cstr_init_inplace s = s\<lparr>cs_buf := (cs_buf s)[0 := Some 0], cs_heap := None,
                           cs_length := 0, cs_capacity := 0\<rparr>"

text \<open>The structure as \<^verbatim>\<open>malloc(sizeof(cstr))\<close> returns it; its fields are set before any is read.\<close>

definition cstr_malloc :: cstr where
  "cstr_malloc = \<lparr>cs_heap = None, cs_length = 0, cs_capacity = 0, cs_buf = malloc_buf CSTR_SSO_CAP\<rparr>"

definition cstr_init :: "bool \<Rightarrow> bool \<Rightarrow> nat \<Rightarrow> cstr option option" where
  "cstr_init ok1 ok2 initial_capacity =
     (if initial_capacity \<ge> CSTR_MAX_LEN then Some None
      else if \<not> ok1 then Some None
      else let s = cstr_init_inplace cstr_malloc
      in if initial_capacity \<ge> CSTR_SSO_CAP
         then do {
           (done, s) \<leftarrow> cstr_ensure_cap ok2 (initial_capacity + 1) s;
           Some (if done then Some s else None)
         }
         else Some (Some s))"

text \<open>\<open>data = None\<close> is the NULL pointer; \<open>len\<close> bytes are read from it.\<close>

definition cstr_new_len :: "bool \<Rightarrow> bool \<Rightarrow> bytes option \<Rightarrow> nat \<Rightarrow> cstr option option" where
  "cstr_new_len ok1 ok2 data len =
     (if data = None \<and> len > 0 then Some None
      else if \<not> ok1 then Some None
      else let s = cstr_init_inplace cstr_malloc
      in if len > 0
         then do {
           (done, s) \<leftarrow> cstr_ensure_cap ok2 (add64 len 1) s;
           if \<not> done then Some None
           else do {
             b \<leftarrow> mem_copy (cs_data s) 0 (the data) len;
             b \<leftarrow> wr b len 0;
             Some (Some ((set_data b s)\<lparr>cs_length := len mod 2 ^ 32\<rparr>))
           }
         }
         else Some (Some s))"

definition cstr_new :: "bool \<Rightarrow> bool \<Rightarrow> bytes option \<Rightarrow> cstr option option" where
  "cstr_new ok1 ok2 input =
     (case input of None \<Rightarrow> Some None | Some a \<Rightarrow> cstr_new_len ok1 ok2 (Some a) (length a))"

definition cstr_drop :: "cstr \<Rightarrow> cstr" where
  "cstr_drop s = (if cstr_is_heap s then cstr_init_inplace (s\<lparr>cs_heap := None\<rparr>) else s)"

text \<open>The blocks \<^verbatim>\<open>cstr_free\<close> gives back, in order.\<close>

datatype freed = Freed_data | Freed_struct

definition cstr_free :: "cstr option \<Rightarrow> freed list" where
  "cstr_free so =
     (case so of None \<Rightarrow> []
      | Some s \<Rightarrow> (if cstr_is_heap s then [Freed_data] else []) @ [Freed_struct])"

definition cstr_reserve :: "bool \<Rightarrow> size_t \<Rightarrow> cstr \<Rightarrow> (bool \<times> cstr) option" where
  "cstr_reserve ok capacity s = cstr_ensure_cap ok (unat (capacity + 1)) s"

definition cstr_resize :: "bool \<Rightarrow> size_t \<Rightarrow> cstr \<Rightarrow> (bool \<times> cstr) option" where
  "cstr_resize ok capacity s = cstr_reserve ok capacity s"

definition cstr_shrink_to_fit :: "bool \<Rightarrow> cstr \<Rightarrow> cstr" where
  "cstr_shrink_to_fit ok s =
     (if \<not> cstr_is_heap s then s
      else let needed = add32 (cs_length s) 1
      in if cstr_heap_cap s = needed then s
         else if ok
         then s\<lparr>cs_heap := Some (realloc_buf (cs_data s) needed),
                cs_capacity := CSTR_HEAP_FLAG OR of_nat needed\<rparr>
         else s)"

definition cstr_clear :: "cstr \<Rightarrow> cstr option" where
  "cstr_clear s = do { b \<leftarrow> wr (cs_data s) 0 0; Some ((set_data b s)\<lparr>cs_length := 0\<rparr>) }"

section \<open>Append, prepend, insert\<close>

text \<open>A string argument: the string itself or a different one.\<close>

datatype operand = Self | Other cstr

primrec operand_of :: "cstr \<Rightarrow> operand \<Rightarrow> cstr" where
  "operand_of s Self = s"
| "operand_of s (Other a) = a"

text \<open>\<^verbatim>\<open>memcpy(s->data + dst, arg->data, n)\<close>, undefined when the two ranges overlap.\<close>

definition copy_operand :: "cstr \<Rightarrow> nat \<Rightarrow> operand \<Rightarrow> nat \<Rightarrow> buffer option" where
  "copy_operand s dst a n =
     (if a = Self \<and> dst < n then None
      else do { cs \<leftarrow> mem_read (cs_data (operand_of s a)) 0 n; put_cells (cs_data s) dst cs })"

definition with_data :: "buffer \<Rightarrow> nat \<Rightarrow> cstr \<Rightarrow> (bool \<times> cstr) option" where
  "with_data b len s = Some (True, (set_data b s)\<lparr>cs_length := len\<rparr>)"

definition cstr_append :: "bool \<Rightarrow> cstr \<Rightarrow> bytes \<Rightarrow> (bool \<times> cstr) option" where
  "cstr_append ok s a =
     (if length a = 0 then Some (True, s)
      else let new_len = add64 (cs_length s) (length a)
      in if new_len > CSTR_MAX_LEN then Some (False, s)
         else do {
           (done, s) \<leftarrow> cstr_ensure_cap ok (add64 new_len 1) s;
           if \<not> done then Some (False, s)
           else do {
             b \<leftarrow> mem_write (cs_data s) (cs_length s) (a @ [0]);
             with_data b (new_len mod 2 ^ 32) s
           }
         })"

definition cstr_append_cstr :: "bool \<Rightarrow> cstr \<Rightarrow> operand \<Rightarrow> (bool \<times> cstr) option" where
  "cstr_append_cstr ok s a =
     (let n = cs_length (operand_of s a); new_len = add32 (cs_length s) n
      in if n = 0 then Some (True, s)
         else if new_len < cs_length s then Some (False, s)
         else do {
           (done, s) \<leftarrow> cstr_ensure_cap ok (new_len + 1) s;
           if \<not> done then Some (False, s)
           else do {
             b \<leftarrow> copy_operand s (cs_length s) a (n + 1);
             with_data b new_len s
           }
         })"

definition cstr_cat :: "bool \<Rightarrow> cstr \<Rightarrow> operand \<Rightarrow> (bool \<times> cstr) option" where
  "cstr_cat ok s a = cstr_append_cstr ok s a"

definition cstr_ncat :: "bool \<Rightarrow> cstr \<Rightarrow> operand \<Rightarrow> nat \<Rightarrow> (bool \<times> cstr) option" where
  "cstr_ncat ok s a n =
     (let src_len = cs_length (operand_of s a);
          copy_n = (if n < src_len then n else src_len);
          new_len = add32 (cs_length s) copy_n
      in if copy_n = 0 then Some (True, s)
         else if new_len < cs_length s then Some (False, s)
         else do {
           (done, s) \<leftarrow> cstr_ensure_cap ok (new_len + 1) s;
           if \<not> done then Some (False, s)
           else do {
             b \<leftarrow> copy_operand s (cs_length s) a copy_n;
             b \<leftarrow> wr b new_len 0;
             with_data b new_len s
           }
         })"

definition cstr_append_fast :: "cstr \<Rightarrow> bytes \<Rightarrow> (bool \<times> cstr) option" where
  "cstr_append_fast s a =
     do {
       b \<leftarrow> mem_write (cs_data s) (cs_length s) (a @ [0]);
       with_data b (add32 (cs_length s) (length a)) s
     }"

definition cstr_append_char :: "bool \<Rightarrow> cstr \<Rightarrow> u8 \<Rightarrow> (bool \<times> cstr) option" where
  "cstr_append_char ok s c =
     (let new_len = add32 (cs_length s) 1
      in do {
        (done, s) \<leftarrow> cstr_ensure_cap ok (new_len + 1) s;
        if \<not> done then Some (False, s)
        else do {
          b \<leftarrow> wr (cs_data s) (cs_length s) c;
          b \<leftarrow> wr b new_len 0;
          with_data b new_len s
        }
      })"

definition cstr_insert :: "bool \<Rightarrow> cstr \<Rightarrow> nat \<Rightarrow> bytes \<Rightarrow> (bool \<times> cstr) option" where
  "cstr_insert ok s index a =
     (if index > cs_length s then Some (False, s)
      else if length a = 0 then Some (True, s)
      else let n = length a; new_len = add64 (cs_length s) n
      in if new_len > CSTR_MAX_LEN then Some (False, s)
         else do {
           (done, s) \<leftarrow> cstr_ensure_cap ok (add64 new_len 1) s;
           if \<not> done then Some (False, s)
           else do {
             b \<leftarrow> mem_move (cs_data s) (index + n) index (cs_length s - index + 1);
             b \<leftarrow> mem_write b index a;
             with_data b (new_len mod 2 ^ 32) s
           }
         })"

definition cstr_insert_cstr :: "bool \<Rightarrow> cstr \<Rightarrow> nat \<Rightarrow> operand \<Rightarrow> (bool \<times> cstr) option" where
  "cstr_insert_cstr ok s index a =
     (if index > cs_length s then Some (False, s)
      else let n = cs_length (operand_of s a); new_len = add32 (cs_length s) n
      in if n = 0 then Some (True, s)
         else if new_len < cs_length s then Some (False, s)
         else do {
           (done, s) \<leftarrow> cstr_ensure_cap ok (new_len + 1) s;
           if \<not> done then Some (False, s)
           else do {
             b \<leftarrow> mem_move (cs_data s) (index + n) index (cs_length s - index + 1);
             b \<leftarrow> copy_operand (set_data b s) index a n;
             with_data b new_len s
           }
         })"

definition cstr_prepend :: "bool \<Rightarrow> cstr \<Rightarrow> bytes \<Rightarrow> (bool \<times> cstr) option" where
  "cstr_prepend ok s a =
     (if length a = 0 then Some (True, s)
      else let n = length a; new_len = add64 (cs_length s) n
      in if new_len > CSTR_MAX_LEN then Some (False, s)
         else do {
           (done, s) \<leftarrow> cstr_ensure_cap ok (add64 new_len 1) s;
           if \<not> done then Some (False, s)
           else do {
             b \<leftarrow> mem_move (cs_data s) n 0 (cs_length s + 1);
             b \<leftarrow> mem_write b 0 a;
             with_data b (new_len mod 2 ^ 32) s
           }
         })"

definition cstr_prepend_cstr :: "bool \<Rightarrow> cstr \<Rightarrow> operand \<Rightarrow> (bool \<times> cstr) option" where
  "cstr_prepend_cstr ok s a =
     (let n = cs_length (operand_of s a); new_len = add32 (cs_length s) n
      in if n = 0 then Some (True, s)
         else if new_len < cs_length s then Some (False, s)
         else do {
           (done, s) \<leftarrow> cstr_ensure_cap ok (new_len + 1) s;
           if \<not> done then Some (False, s)
           else do {
             b \<leftarrow> mem_move (cs_data s) n 0 (cs_length s + 1);
             b \<leftarrow> copy_operand (set_data b s) 0 a n;
             with_data b new_len s
           }
         })"

definition cstr_prepend_fast :: "cstr \<Rightarrow> bytes \<Rightarrow> (bool \<times> cstr) option" where
  "cstr_prepend_fast s a =
     (if length a = 0 then Some (True, s)
      else do {
        b \<leftarrow> mem_move (cs_data s) (length a) 0 (cs_length s + 1);
        b \<leftarrow> mem_write b 0 a;
        with_data b (add32 (cs_length s) (length a)) s
      })"

section \<open>Formatted text\<close>

text \<open>
  What \<^verbatim>\<open>vsnprintf\<close> produces for the format and arguments is a parameter: the bytes of the
  output, or \<open>None\<close> when it reports an error.
\<close>

definition cstr_format :: "bool \<Rightarrow> bool \<Rightarrow> bool \<Rightarrow> bytes option \<Rightarrow> cstr option option" where
  "cstr_format ok1 ok2 format_given out =
     (if \<not> format_given then Some None
      else case out of
        None \<Rightarrow> Some None
      | Some text \<Rightarrow>
          if length text > CSTR_MAX_LEN then Some None
          else do {
            r \<leftarrow> cstr_init ok1 ok2 (length text);
            case r of None \<Rightarrow> Some None
            | Some s \<Rightarrow> do {
                b \<leftarrow> mem_write (cs_data s) 0 (text @ [0]);
                Some (Some ((set_data b s)\<lparr>cs_length := length text mod 2 ^ 32\<rparr>))
              }
          })"

definition cstr_append_fmt :: "bool \<Rightarrow> cstr \<Rightarrow> bytes option \<Rightarrow> (bool \<times> cstr) option" where
  "cstr_append_fmt ok s out =
     (case out of
        None \<Rightarrow> Some (False, s)
      | Some text \<Rightarrow>
          let new_len = add32 (cs_length s) (length text)
          in do {
            (done, s) \<leftarrow> cstr_ensure_cap ok (new_len + 1) s;
            if \<not> done then Some (False, s)
            else do {
              b \<leftarrow> mem_write (cs_data s) (cs_length s) (text @ [0]);
              with_data b new_len s
            }
          })"

section \<open>Remove and copy\<close>

definition cstr_remove :: "cstr \<Rightarrow> nat \<Rightarrow> nat \<Rightarrow> (bool \<times> cstr) option" where
  "cstr_remove s index cnt =
     (let len = cs_length s
      in if index > len then Some (index = len \<and> cnt = 0, s)
         else let n = (if cnt > len - index then len - index else cnt)
         in if n = 0 then Some (True, s)
            else do {
              b \<leftarrow> mem_move (cs_data s) index (index + n) (len - index - n + 1);
              with_data b (len - n) s
            })"

definition cstr_remove_substr :: "cstr \<Rightarrow> nat \<Rightarrow> nat \<Rightarrow> cstr option" where
  "cstr_remove_substr s start slen =
     (let len = cs_length s
      in if start \<ge> len \<or> slen = 0 then Some s
         else let slen = (if slen > len - start then len - start else slen);
                  tail = len - start - slen
         in do {
           b \<leftarrow> (if tail > 0 then mem_move (cs_data s) start (start + slen) (tail + 1)
                 else wr (cs_data s) start 0);
           Some ((set_data b s)\<lparr>cs_length := len - slen\<rparr>)
         })"

definition cstr_copy :: "bool \<Rightarrow> cstr \<Rightarrow> operand \<Rightarrow> (bool \<times> cstr) option" where
  "cstr_copy ok dest a =
     (case a of Self \<Rightarrow> Some (True, dest)
      | Other src \<Rightarrow> do {
          (done, dest) \<leftarrow> cstr_ensure_cap ok (cs_length src + 1) dest;
          if \<not> done then Some (False, dest)
          else do {
            b \<leftarrow> copy_operand dest 0 a (cs_length src + 1);
            with_data b (cs_length src) dest
          }
        })"

definition cstr_assign :: "bool \<Rightarrow> cstr \<Rightarrow> operand \<Rightarrow> (bool \<times> cstr) option" where
  "cstr_assign ok dest a = cstr_copy ok dest a"

definition cstr_substr :: "bool \<Rightarrow> bool \<Rightarrow> cstr \<Rightarrow> nat \<Rightarrow> nat \<Rightarrow> cstr option option" where
  "cstr_substr ok1 ok2 s start len =
     (if start > cs_length s then Some None
      else let avail = cs_length s - start; copy = (if len > avail then avail else len)
      in do {
        bs \<leftarrow> get_bytes (cs_data s) start copy;
        cstr_new_len ok1 ok2 (Some bs) copy
      })"

end
