(* ===== verification/Cstr_Correct.thy ===== *)
theory Cstr_Correct
  imports Cstr
begin

text \<open>
  Correctness of the string's representation, growth and editing operations: the
  invariant \<open>holds s c\<close> (the structure is well formed, its block is as large as its
  capacity says, and it contains the bytes \<open>c\<close> followed by a NUL), and for every operation
  that it stays inside the block, when it fails, and what the contents are afterwards.
\<close>

named_theorems cstr_ops \<open>behaviour of the string operations under the invariant\<close>

section \<open>The invariant\<close>

definition wf_mem :: "cstr \<Rightarrow> bool" where
  "wf_mem s \<longleftrightarrow> length (cs_buf s) = CSTR_SSO_CAP \<and> (cstr_is_heap s \<longleftrightarrow> cs_heap s \<noteq> None) \<and>
     (\<forall>h. cs_heap s = Some h \<longrightarrow> length h = cstr_heap_cap s)"

definition holds :: "cstr \<Rightarrow> bytes \<Rightarrow> bool" where
  "holds s c \<longleftrightarrow> wf_mem s \<and> cs_length s = length c \<and>
     (\<exists>junk. cs_data s = map Some c @ Some 0 # junk)"

definition room :: "bool \<Rightarrow> cstr \<Rightarrow> nat \<Rightarrow> bool" where
  "room ok s n \<longleftrightarrow> n < CSTR_MAX_LEN \<and> (ok \<or> n < length (cs_data s))"

text \<open>
  The result of an editing operation: it succeeds exactly when \<open>can\<close> and the string then
  holds \<open>c\<close>; otherwise the string is unchanged.
\<close>

definition edits :: "(bool \<times> cstr) option \<Rightarrow> cstr \<Rightarrow> bool \<Rightarrow> bytes \<Rightarrow> bool" where
  "edits r s can c \<longleftrightarrow>
     (if can then \<exists>s'. r = Some (True, s') \<and> holds s' c else r = Some (False, s))"

definition creates :: "cstr option option \<Rightarrow> bool \<Rightarrow> bytes \<Rightarrow> bool" where
  "creates r can c \<longleftrightarrow> (if can then \<exists>s'. r = Some (Some s') \<and> holds s' c else r = Some None)"

lemma bit_heap_flag: "bit CSTR_HEAP_FLAG i \<longleftrightarrow> i = 31"
proof -
  have "CSTR_HEAP_FLAG = push_bit 31 1" by (simp add: CSTR_HEAP_FLAG_def)
  then have "bit CSTR_HEAP_FLAG i \<longleftrightarrow> bit (push_bit 31 (1 :: u32)) i" by (rule arg_cong)
  also have "\<dots> \<longleftrightarrow> i = 31"
    unfolding bit_push_bit_iff bit_1_iff by auto
  finally show ?thesis .
qed

lemma heap_flag_word:
  assumes "n \<le> CSTR_MAX_LEN"
  shows "(CSTR_HEAP_FLAG OR of_nat n :: u32) AND CSTR_HEAP_FLAG \<noteq> 0"
    and "unat ((CSTR_HEAP_FLAG OR of_nat n :: u32) AND NOT CSTR_HEAP_FLAG) = n"
proof -
  define w :: u32 where "w = of_nat n"
  have n: "n < 2 ^ 31" using assms by (simp add: CSTR_MAX_LEN_def)
  then have wn: "unat w = n"
    by (simp add: w_def unsigned_of_nat take_bit_nat_eq_self_iff)
  have low: "bit w i \<longleftrightarrow> i < 31 \<and> bit w i" for i
  proof -
    have "take_bit 31 w = w"
      by (rule word_unat_eq_iff [THEN iffD2])
         (use n wn in \<open>simp add: unsigned_take_bit_eq take_bit_nat_eq_self_iff\<close>)
    then show ?thesis by (metis bit_take_bit_iff)
  qed
  note f = bit_heap_flag
  have "bit ((CSTR_HEAP_FLAG OR w) AND CSTR_HEAP_FLAG) 31"
    by (simp add: bit_and_iff bit_or_iff f)
  then show "(CSTR_HEAP_FLAG OR of_nat n :: u32) AND CSTR_HEAP_FLAG \<noteq> 0"
    by (metis bit_0_eq bot_apply bot_bool_def w_def)
  have "(CSTR_HEAP_FLAG OR w) AND NOT CSTR_HEAP_FLAG = w"
    by (rule bit_word_eqI) (use f low in \<open>auto simp: bit_and_iff bit_or_iff bit_not_iff\<close>)
  then show "unat ((CSTR_HEAP_FLAG OR of_nat n :: u32) AND NOT CSTR_HEAP_FLAG) = n"
    using wn by (simp add: w_def)
qed

lemma heap_cap_le: "cstr_heap_cap s \<le> CSTR_MAX_LEN"
proof -
  have "take_bit 31 (cs_capacity s AND NOT CSTR_HEAP_FLAG) = cs_capacity s AND NOT CSTR_HEAP_FLAG"
    by (rule bit_word_eqI)
       (auto simp: bit_take_bit_iff bit_and_iff bit_not_iff bit_heap_flag)
  then have "take_bit 31 (cstr_heap_cap s) = cstr_heap_cap s"
    unfolding cstr_heap_cap_def by (metis unsigned_take_bit_eq)
  then have "cstr_heap_cap s < 2 ^ 31"
    by (metis take_bit_nat_less_exp)
  then show ?thesis by (simp add: CSTR_MAX_LEN_def)
qed

lemma cs_data_set_data [simp]: "cs_data (set_data b s) = b"
  by (auto simp: cs_data_def set_data_def split: option.splits)

lemma cs_data_length_upd [simp]: "cs_data (s\<lparr>cs_length := n\<rparr>) = cs_data s"
  by (simp add: cs_data_def split: option.splits)

lemma set_data_simps [simp]:
  "cs_length (set_data b s) = cs_length s"
  "cs_capacity (set_data b s) = cs_capacity s"
  by (auto simp: set_data_def split: option.splits)

lemma wf_mem_length_upd [simp]: "wf_mem (s\<lparr>cs_length := n\<rparr>) = wf_mem s"
  by (simp add: wf_mem_def cstr_is_heap_def cstr_heap_cap_def)

lemma wf_mem_set_data [simp]:
  "wf_mem s \<Longrightarrow> length b = length (cs_data s) \<Longrightarrow> wf_mem (set_data b s)"
  by (auto simp: wf_mem_def set_data_def cs_data_def cstr_is_heap_def cstr_heap_cap_def
      split: option.splits)

lemma length_data_le: "wf_mem s \<Longrightarrow> length (cs_data s) \<le> CSTR_MAX_LEN"
  using heap_cap_le [of s]
  by (auto simp: wf_mem_def cs_data_def CSTR_SSO_CAP_def CSTR_MAX_LEN_def split: option.splits)

lemma holds_length: "holds s c \<Longrightarrow> cs_length s = length c"
  by (simp add: holds_def)

lemma holds_data:
  assumes "holds s c"
  obtains junk where "cs_data s = map Some c @ Some 0 # junk"
  using assms by (auto simp: holds_def)

lemma holds_bound: "holds s c \<Longrightarrow> length c < length (cs_data s)"
  by (auto simp: holds_def)

lemma holds_lt_max: "holds s c \<Longrightarrow> length c < CSTR_MAX_LEN"
  using length_data_le [of s] holds_bound [of s c] by (simp add: holds_def)

lemma holds_update:
  assumes "wf_mem s" "length b = length (cs_data s)" "b = map Some c @ Some 0 # junk" "n = length c"
  shows "holds ((set_data b s)\<lparr>cs_length := n\<rparr>) c"
  using assms by (auto simp: holds_def)

lemma holds_wf: "holds s c \<Longrightarrow> wf_mem s"
  by (simp add: holds_def)

section \<open>Growth\<close>

lemma grow_loop_returns:
  assumes "0 < cap" "cap \<le> CSTR_MAX_LEN" "need \<le> CSTR_MAX_LEN"
  shows "\<exists>r. grow_loop cap need = Some r \<and> need \<le> r \<and> cap \<le> r \<and> r \<le> CSTR_MAX_LEN \<and>
     (r = CSTR_MAX_LEN \<or> (\<exists>k. r = cap * 2 ^ k \<and> (k = 0 \<or> cap * 2 ^ (k - 1) < need)))"
  using assms
proof (induction "CSTR_MAX_LEN - cap" arbitrary: cap rule: less_induct)
  case less
  show ?case
  proof (cases "cap < need \<and> cap \<le> CSTR_MAX_LEN div 2")
    case True
    then have step: "grow_loop cap need = grow_loop (cap * 2) need"
      by (subst grow_loop.simps) simp
    have le: "cap * 2 \<le> CSTR_MAX_LEN" using True by linarith
    have "CSTR_MAX_LEN - cap * 2 < CSTR_MAX_LEN - cap"
      using le less.prems(1) by linarith
    from less.hyps [OF this] less.prems le obtain r where r:
      "grow_loop (cap * 2) need = Some r" "need \<le> r" "cap * 2 \<le> r" "r \<le> CSTR_MAX_LEN"
      "r = CSTR_MAX_LEN \<or> (\<exists>k. r = cap * 2 * 2 ^ k \<and> (k = 0 \<or> cap * 2 * 2 ^ (k - 1) < need))"
      by auto
    have "r = CSTR_MAX_LEN \<or> (\<exists>k. r = cap * 2 ^ k \<and> (k = 0 \<or> cap * 2 ^ (k - 1) < need))"
      using r(5)
    proof (elim disjE exE conjE)
      fix k assume k: "r = cap * 2 * 2 ^ k" "k = 0"
      then have "r = cap * 2 ^ Suc 0 \<and> cap * 2 ^ (Suc 0 - 1) < need" using True by simp
      then show ?thesis by blast
    next
      fix k assume k: "r = cap * 2 * 2 ^ k" "cap * 2 * 2 ^ (k - 1) < need"
      have "cap * 2 ^ k < need"
        using k(2) True by (cases k) (auto simp: mult.assoc)
      then have "r = cap * 2 ^ Suc k \<and> cap * 2 ^ (Suc k - 1) < need" using k(1) by simp
      then show ?thesis by blast
    qed simp
    with r step show ?thesis by auto
  next
    case False
    show ?thesis
    proof (cases "cap < need")
      case True
      with False less.prems show ?thesis by (subst grow_loop.simps) auto
    next
      case False
      then have "grow_loop cap need = Some cap" by (subst grow_loop.simps) simp
      moreover have "cap = cap * 2 ^ 0" by simp
      ultimately show ?thesis using False less.prems by (metis le_refl not_le)
    qed
  qed
qed

lemma grow_cap_returns:
  assumes "current \<le> CSTR_MAX_LEN" "need \<le> CSTR_MAX_LEN"
  obtains r where "cstr_grow_cap current need = Some r" "need \<le> r" "current \<le> r"
    "r \<le> CSTR_MAX_LEN" "0 < r"
proof -
  define c0 where "c0 = (if current < CSTR_MIN_HEAP then CSTR_MIN_HEAP else current)"
  have c0: "0 < c0" "c0 \<le> CSTR_MAX_LEN" "current \<le> c0"
    using assms(1) by (auto simp: c0_def CSTR_MIN_HEAP_def CSTR_MAX_LEN_def)
  from grow_loop_returns [OF c0(1,2) assms(2)] obtain r where
    "grow_loop c0 need = Some r" "need \<le> r" "c0 \<le> r" "r \<le> CSTR_MAX_LEN" by auto
  then show ?thesis
    using c0 that [of r] by (simp add: cstr_grow_cap_def flip: c0_def)
qed

lemma ensure_cap_fits:
  assumes "wf_mem s" "need \<le> length (cs_data s)"
  shows "cstr_ensure_cap ok need s = Some (True, s)"
  using assms length_data_le [OF assms(1)]
  by (auto simp: cstr_ensure_cap_def wf_mem_def cs_data_def)

lemma ensure_cap_fails:
  assumes "wf_mem s" "length (cs_data s) < need" "\<not> ok \<or> CSTR_MAX_LEN < need"
  shows "cstr_ensure_cap ok need s = Some (False, s)"
proof (cases "need \<le> CSTR_MAX_LEN")
  case True
  then have ok: "\<not> ok" using assms(3) by auto
  obtain r1 where r1: "cstr_grow_cap CSTR_SSO_CAP need = Some r1"
    using grow_cap_returns [of CSTR_SSO_CAP need] True
    by (auto simp: CSTR_SSO_CAP_def CSTR_MAX_LEN_def)
  obtain r2 where r2: "cstr_grow_cap (cstr_heap_cap s) need = Some r2"
    using grow_cap_returns [OF heap_cap_le True] by metis
  show ?thesis
    using assms(1,2) True ok r1 r2
    by (auto simp: cstr_ensure_cap_def wf_mem_def cs_data_def)
qed (simp add: cstr_ensure_cap_def)

lemma ensure_cap_grows:
  assumes h: "holds s c" and need: "length (cs_data s) < need" "need \<le> CSTR_MAX_LEN" and ok
  shows "\<exists>s'. cstr_ensure_cap ok need s = Some (True, s') \<and> holds s' c \<and> need \<le> length (cs_data s')"
proof -
  obtain junk where junk: "cs_data s = map Some c @ Some 0 # junk"
    using h by (rule holds_data)
  note wf = holds_wf [OF h, unfolded wf_mem_def]
  note len = holds_length [OF h]
  show ?thesis
  proof (cases "cs_heap s")
    case None
    then have buf: "cs_buf s = map Some c @ Some 0 # junk"
      using junk by (simp add: cs_data_def)
    have sso: "\<not> cstr_is_heap s" "CSTR_SSO_CAP < need"
      using wf None need(1) by (auto simp: cs_data_def)
    obtain r where r: "cstr_grow_cap CSTR_SSO_CAP need = Some r" "need \<le> r" "r \<le> CSTR_MAX_LEN"
      using grow_cap_returns [of CSTR_SSO_CAP need] need(2)
      by (auto simp: CSTR_SSO_CAP_def CSTR_MAX_LEN_def)
    define mem where "mem = map Some (c @ [0]) @ replicate (r - length c - 1) None"
    have "mem_read (cs_buf s) 0 (cs_length s + 1) = Some (map Some (c @ [0]))"
      by (simp add: buf len)
    moreover have "length c + 1 \<le> r"
      using wf None buf sso(2) r(2) by simp
    then have "put_cells (malloc_buf r) 0 (map Some (c @ [0])) = Some mem"
      by (simp add: put_cells_def malloc_buf_def mem_def)
    ultimately have
      "cstr_ensure_cap ok need s =
        Some (True, s\<lparr>cs_heap := Some mem, cs_capacity := CSTR_HEAP_FLAG OR of_nat r\<rparr>)"
      using sso need(2) \<open>ok\<close> r(1) by (simp add: cstr_ensure_cap_def)
    moreover have "length mem = r"
      using \<open>length c + 1 \<le> r\<close> by (simp add: mem_def)
    ultimately show ?thesis
      using heap_flag_word [OF r(3)] wf len r(2)
      by (auto simp: holds_def wf_mem_def cstr_is_heap_def cstr_heap_cap_def cs_data_def mem_def)
  next
    case (Some hb)
    then have hb: "hb = map Some c @ Some 0 # junk"
      using junk by (simp add: cs_data_def)
    have heap: "cstr_is_heap s" "cstr_heap_cap s < need"
      using wf Some need(1) by (auto simp: cs_data_def)
    obtain r where r: "cstr_grow_cap (cstr_heap_cap s) need = Some r" "need \<le> r" "r \<le> CSTR_MAX_LEN" "0 < r"
      using grow_cap_returns [OF heap_cap_le need(2)] by metis
    define mem where "mem = realloc_buf (cs_data s) r"
    have "cstr_ensure_cap ok need s =
        Some (True, s\<lparr>cs_heap := Some mem, cs_capacity := CSTR_HEAP_FLAG OR of_nat r\<rparr>)"
      using heap need(2) \<open>ok\<close> r(1,4) by (simp add: cstr_ensure_cap_def mem_def)
    moreover have "mem = map Some c @ Some 0 # junk @ replicate (r - length hb) None"
      using r(2) need(1) by (simp add: mem_def realloc_buf_def junk hb)
    moreover have "length mem = r" by (simp add: mem_def)
    ultimately show ?thesis
      using heap_flag_word [OF r(3)] wf len r(2)
      by (auto simp: holds_def wf_mem_def cstr_is_heap_def cstr_heap_cap_def cs_data_def)
  qed
qed

text \<open>Every editing operation asks for its new length plus the terminator.\<close>

lemma ensure_cap_room:
  assumes "holds s c" "length c \<le> n"
  shows "if room ok s n
         then \<exists>s' junk. cstr_ensure_cap ok (n + 1) s = Some (True, s') \<and> holds s' c \<and>
                n < length (cs_data s') \<and> wf_mem s' \<and> cs_length s' = length c \<and>
                cs_data s' = map Some c @ Some 0 # junk
         else cstr_ensure_cap ok (n + 1) s = Some (False, s)"
proof -
  have wf: "wf_mem s" using assms(1) by (rule holds_wf)
  consider (fits) "n + 1 \<le> length (cs_data s)"
    | (fails) "length (cs_data s) < n + 1" "\<not> ok \<or> CSTR_MAX_LEN < n + 1"
    | (grows) "length (cs_data s) < n + 1" "n + 1 \<le> CSTR_MAX_LEN" ok
    by linarith
  then show ?thesis
  proof cases
    case fits
    moreover from fits have "n < CSTR_MAX_LEN" using length_data_le [OF wf] by linarith
    ultimately show ?thesis
      using ensure_cap_fits [OF wf, of "n + 1" ok] assms(1) by (auto simp: room_def holds_def)
  next
    case fails
    with ensure_cap_fails [OF wf fails] show ?thesis by (auto simp: room_def)
  next
    case grows
    with ensure_cap_grows [OF assms(1) grows] show ?thesis
      by (auto simp: room_def holds_def)
  qed
qed

section \<open>Editing\<close>

lemma edits_grow:
  assumes "holds s c" "length c \<le> n"
    and body: "\<And>s' junk. holds s' c \<Longrightarrow> cs_length s' = length c \<Longrightarrow> n < length (cs_data s') \<Longrightarrow>
      cs_data s' = map Some c @ Some 0 # junk \<Longrightarrow>
      \<exists>b junk'. body s' = with_data b (length c') s' \<and> length b = length (cs_data s') \<and>
        b = map Some c' @ Some 0 # junk'"
  shows "edits (do { (done, s) \<leftarrow> cstr_ensure_cap ok (n + 1) s;
                     if \<not> done then Some (False, s) else body s }) s (room ok s n) c'"
proof (cases "room ok s n")
  case True
  with ensure_cap_room [OF assms(1,2), of ok] obtain s' junk where s':
    "cstr_ensure_cap ok (n + 1) s = Some (True, s')" "holds s' c" "n < length (cs_data s')"
    "wf_mem s'" "cs_length s' = length c" "cs_data s' = map Some c @ Some 0 # junk"
    by auto
  obtain b junk' where b: "body s' = with_data b (length c') s'"
    "length b = length (cs_data s')" "b = map Some c' @ Some 0 # junk'"
    using body [OF s'(2,5,3,6)] by blast
  have "holds ((set_data b s')\<lparr>cs_length := length c'\<rparr>) c'"
    using b s'(4) by (intro holds_update) auto
  with s'(1) b(1) True show ?thesis by (simp add: edits_def with_data_def)
next
  case False
  with ensure_cap_room [OF assms(1,2), of ok] show ?thesis by (simp add: edits_def)
qed

lemma max_len_small: "CSTR_MAX_LEN < 2 ^ 31" "CSTR_MAX_LEN < 2 ^ 32" "CSTR_MAX_LEN + 1 < 2 ^ 64"
  by (auto simp: CSTR_MAX_LEN_def)

lemma not_room_big: "CSTR_MAX_LEN < n \<Longrightarrow> \<not> room ok s n"
  by (simp add: room_def)

lemma add64_exact: "a < 2 ^ 63 \<Longrightarrow> b < 2 ^ 63 \<Longrightarrow> add64 a b = a + b"
  by (simp add: add64_def)

lemma holds_lt_63: "holds s c \<Longrightarrow> length c < 2 ^ 63"
  using holds_lt_max [of s c] by (simp add: CSTR_MAX_LEN_def)

lemma size_exact:
  assumes "n \<le> CSTR_MAX_LEN"
  shows "n mod 2 ^ 32 = n" "n mod 4294967296 = n" "add64 n 1 = n + 1" "add64 n (Suc 0) = n + 1"
  using assms by (auto simp: CSTR_MAX_LEN_def add64_def)

lemma append_edits [cstr_ops]:
  assumes "holds s c" "length a < 2 ^ 63"
  shows "edits (cstr_append ok s a) s (a = [] \<or> room ok s (length c + length a)) (c @ a)"
proof (cases "a = [] \<or> CSTR_MAX_LEN < length c + length a")
  case True
  then show ?thesis
    using assms add64_exact [OF holds_lt_63 [OF assms(1)] assms(2)]
    by (auto simp: cstr_append_def edits_def not_room_big holds_length [OF assms(1)])
next
  case False
  then have le: "length c + length a \<le> CSTR_MAX_LEN" and ne: "a \<noteq> []" by auto
  have "edits (do { (done, s) \<leftarrow> cstr_ensure_cap ok (length c + length a + 1) s;
        if \<not> done then Some (False, s)
        else do { b \<leftarrow> mem_write (cs_data s) (cs_length s) (a @ [0]);
                  with_data b (length c + length a) s } }) s (room ok s (length c + length a)) (c @ a)"
    using assms(1)
    by (rule edits_grow) (auto simp: write_after)
  then show ?thesis
    using le ne add64_exact [OF holds_lt_63 [OF assms(1)] assms(2)] size_exact [OF le]
    by (simp add: cstr_append_def holds_length [OF assms(1)] Let_def cong: if_cong)
qed

lemma insert_edits [cstr_ops]:
  assumes "holds s c" "length a < 2 ^ 63"
  shows "edits (cstr_insert ok s i a) s
     (i \<le> length c \<and> (a = [] \<or> room ok s (length c + length a))) (insert_at i a c)"
proof (cases "length c < i \<or> a = [] \<or> CSTR_MAX_LEN < length c + length a")
  case True
  then show ?thesis
    using assms add64_exact [OF holds_lt_63 [OF assms(1)] assms(2)]
    by (auto simp: cstr_insert_def edits_def not_room_big holds_length [OF assms(1)] insert_at_def)
next
  case False
  then have le: "length c + length a \<le> CSTR_MAX_LEN" and ne: "a \<noteq> []" and i: "i \<le> length c"
    by auto
  have "edits (do { (done, s) \<leftarrow> cstr_ensure_cap ok (length c + length a + 1) s;
        if \<not> done then Some (False, s)
        else do { b \<leftarrow> mem_move (cs_data s) (i + length a) i (cs_length s - i + 1);
                  b \<leftarrow> mem_write b i a;
                  with_data b (length c + length a) s } })
      s (room ok s (length c + length a)) (insert_at i a c)"
    using assms(1)
  proof (rule edits_grow)
    fix s' junk
    assume s': "cs_length s' = length c" "length c + length a < length (cs_data s')"
      "cs_data s' = map Some c @ Some 0 # junk"
    then have lt: "length a + length c < length (map Some c @ Some 0 # junk)" by simp
    show "\<exists>b junk'. do { b \<leftarrow> mem_move (cs_data s') (i + length a) i (cs_length s' - i + 1);
            b \<leftarrow> mem_write b i a; with_data b (length c + length a) s' } =
          with_data b (length (insert_at i a c)) s' \<and>
        length b = length (cs_data s') \<and> b = map Some (insert_at i a c) @ Some 0 # junk'"
      using insert_cells [OF i lt] s'
      by (auto simp: mem_write_put_cells split: bind_splits)
  qed simp
  then show ?thesis
    using le ne i add64_exact [OF holds_lt_63 [OF assms(1)] assms(2)] size_exact [OF le]
    by (simp add: cstr_insert_def holds_length [OF assms(1)] Let_def cong: if_cong)
qed

lemma prepend_is_insert: "cstr_prepend ok s a = cstr_insert ok s 0 a"
  by (simp add: cstr_prepend_def cstr_insert_def Let_def cong: if_cong)

lemma prepend_edits [cstr_ops]:
  assumes "holds s c" "length a < 2 ^ 63"
  shows "edits (cstr_prepend ok s a) s (a = [] \<or> room ok s (length c + length a)) (a @ c)"
  using insert_edits [OF assms, of ok 0] by (simp add: prepend_is_insert insert_at_def)

text \<open>With a different string as the argument, the copying variants do the same.\<close>

lemma add32_exact:
  assumes "holds s c" "holds t d"
  shows "add32 (length c) (length d) = length c + length d"
  using holds_lt_max [OF assms(1)] holds_lt_max [OF assms(2)]
  by (simp add: add32_def CSTR_MAX_LEN_def)

lemma copy_other:
  assumes "holds t d" "n \<le> length d + 1"
  shows "copy_operand s dst (Other t) n = put_cells (cs_data s) dst (map Some (take n (d @ [0])))"
proof -
  obtain junk where "cs_data t = map Some d @ Some 0 # junk"
    using assms(1) by (rule holds_data)
  then show ?thesis
    using assms(2) by (auto simp: copy_operand_def mem_read_def take_map take_Cons')
qed

lemma append_cstr_edits [cstr_ops]:
  assumes "holds s c" "holds t d"
  shows "edits (cstr_append_cstr ok s (Other t)) s (d = [] \<or> room ok s (length c + length d)) (c @ d)"
proof (cases "d = []")
  case True
  then show ?thesis
    using assms by (simp add: cstr_append_cstr_def edits_def holds_length [OF assms(2)])
next
  case False
  have "edits (do { (done, s) \<leftarrow> cstr_ensure_cap ok (length c + length d + 1) s;
        if \<not> done then Some (False, s)
        else do { b \<leftarrow> copy_operand s (cs_length s) (Other t) (length d + 1);
                  with_data b (length c + length d) s } }) s (room ok s (length c + length d)) (c @ d)"
    using assms(1)
    by (rule edits_grow)
       (auto simp: copy_other [OF assms(2)] put_after)
  then show ?thesis
    using False add32_exact [OF assms]
    by (simp add: cstr_append_cstr_def holds_length [OF assms(1)] holds_length [OF assms(2)]
        Let_def cong: if_cong)
qed

lemma ncat_edits [cstr_ops]:
  assumes "holds s c" "holds t d"
  shows "edits (cstr_ncat ok s (Other t) n) s
     (take n d = [] \<or> room ok s (length c + length (take n d))) (c @ take n d)"
proof (cases "take n d = []")
  case True
  then have "cs_length t = 0 \<or> n = 0" using assms(2) by (auto simp: holds_def)
  then show ?thesis
    using assms True by (auto simp: cstr_ncat_def edits_def Let_def)
next
  case False
  define m where "m = (if n < length d then n else length d)"
  have m: "m = length (take n d)" "m \<noteq> 0" "m \<le> length d" "take n d = take m d"
    using False by (auto simp: m_def)
  have add: "add32 (length c) m = length c + m"
    using holds_lt_max [OF assms(1)] holds_lt_max [OF assms(2)] m(3)
    by (simp add: add32_def CSTR_MAX_LEN_def)
  have "edits (do { (done, s) \<leftarrow> cstr_ensure_cap ok (length c + m + 1) s;
        if \<not> done then Some (False, s)
        else do { b \<leftarrow> copy_operand s (cs_length s) (Other t) m;
                  b \<leftarrow> wr b (length c + m) 0;
                  with_data b (length c + m) s } }) s (room ok s (length c + m)) (c @ take n d)"
    using assms(1)
  proof (rule edits_grow)
    fix s' junk
    assume s': "cs_length s' = length c" "length c + m < length (cs_data s')"
      "cs_data s' = map Some c @ Some 0 # junk"
    have p: "put_cells (cs_data s') (length c) (map Some (take m d))
        = Some (map Some (c @ take m d) @ drop m (Some 0 # junk))"
      using s' m(3) by (simp add: put_cells_def)
    have ne: "drop m (Some 0 # junk) \<noteq> []" using s' by simp
    then obtain x z where xz: "drop m (Some 0 # junk) = x # z" by (meson neq_Nil_conv)
    have "wr (map Some (c @ take m d) @ drop m (Some 0 # junk)) (length c + m) 0
        = Some (map Some (c @ take m d) @ Some 0 # z)"
      using wr_map_here [of "c @ take m d" x z 0] m(3) unfolding xz by (simp add: min_absorb2)
    moreover have "length z + Suc (length c + m) = length (cs_data s')"
      using s'(2,3) arg_cong [OF xz, of length] by simp
    moreover have "length (c @ take m d) = length c + m" "take m (d @ [0]) = take m d"
      using m(3) by auto
    ultimately have run: "do { b \<leftarrow> copy_operand s' (cs_length s') (Other t) m;
          b \<leftarrow> wr b (length c + m) 0; with_data b (length c + m) s' }
        = with_data (map Some (c @ take m d) @ Some 0 # z) (length (c @ take m d)) s'"
      and len: "length (map Some (c @ take m d) @ Some 0 # z) = length (cs_data s')"
      using p s'(1) copy_other [OF assms(2), of m s' "length c"] m(3) by auto
    show "\<exists>b junk'. do { b \<leftarrow> copy_operand s' (cs_length s') (Other t) m;
          b \<leftarrow> wr b (length c + m) 0; with_data b (length c + m) s' } =
          with_data b (length (c @ take n d)) s' \<and>
        length b = length (cs_data s') \<and> b = map Some (c @ take n d) @ Some 0 # junk'"
      unfolding m(4) using run len by blast
  qed simp
  moreover have "length (take n d) = m" "(if n < length d then n else length d) = m"
    using m(1) m_def by auto
  ultimately show ?thesis
    using False m(2) add
    by (simp add: cstr_ncat_def holds_length [OF assms(1)] holds_length [OF assms(2)]
        Let_def cong: if_cong del: length_take)
qed

lemma insert_cstr_edits [cstr_ops]:
  assumes "holds s c" "holds t d"
  shows "edits (cstr_insert_cstr ok s i (Other t)) s
     (i \<le> length c \<and> (d = [] \<or> room ok s (length c + length d))) (insert_at i d c)"
proof (cases "length c < i \<or> d = []")
  case True
  then show ?thesis
    using assms(1) holds_length [OF assms(1)] holds_length [OF assms(2)]
    by (auto simp: cstr_insert_cstr_def edits_def Let_def)
next
  case False
  then have i: "i \<le> length c" and ne: "d \<noteq> []" by auto
  have "edits (do { (done, s) \<leftarrow> cstr_ensure_cap ok (length c + length d + 1) s;
        if \<not> done then Some (False, s)
        else do { b \<leftarrow> mem_move (cs_data s) (i + length d) i (cs_length s - i + 1);
                  b \<leftarrow> copy_operand (set_data b s) i (Other t) (length d);
                  with_data b (length c + length d) s } })
      s (room ok s (length c + length d)) (insert_at i d c)"
    using assms(1)
  proof (rule edits_grow)
    fix s' junk
    assume s': "cs_length s' = length c" "length c + length d < length (cs_data s')"
      "cs_data s' = map Some c @ Some 0 # junk"
    then have lt: "length d + length c < length (map Some c @ Some 0 # junk)" by simp
    show "\<exists>b junk'. do { b \<leftarrow> mem_move (cs_data s') (i + length d) i (cs_length s' - i + 1);
            b \<leftarrow> copy_operand (set_data b s') i (Other t) (length d);
            with_data b (length c + length d) s' } =
          with_data b (length (insert_at i d c)) s' \<and>
        length b = length (cs_data s') \<and> b = map Some (insert_at i d c) @ Some 0 # junk'"
      using insert_cells [OF i lt] s' copy_other [OF assms(2), of "length d"]
      by (auto split: bind_splits)
  qed simp
  then show ?thesis
    using i ne add32_exact [OF assms]
    by (simp add: cstr_insert_cstr_def holds_length [OF assms(1)] holds_length [OF assms(2)]
        Let_def cong: if_cong)
qed

lemma prepend_cstr_is_insert: "cstr_prepend_cstr ok s a = cstr_insert_cstr ok s 0 a"
  by (simp add: cstr_prepend_cstr_def cstr_insert_cstr_def Let_def cong: if_cong)

lemma prepend_cstr_edits [cstr_ops]:
  assumes "holds s c" "holds t d"
  shows "edits (cstr_prepend_cstr ok s (Other t)) s (d = [] \<or> room ok s (length c + length d)) (d @ c)"
  using insert_cstr_edits [OF assms, of ok 0] by (simp add: prepend_cstr_is_insert insert_at_def)

lemma append_char_edits [cstr_ops]:
  assumes "holds s c"
  shows "edits (cstr_append_char ok s x) s (room ok s (length c + 1)) (c @ [x])"
proof -
  have "edits (do { (done, s) \<leftarrow> cstr_ensure_cap ok (length c + 1 + 1) s;
        if \<not> done then Some (False, s)
        else do { b \<leftarrow> wr (cs_data s) (cs_length s) x; b \<leftarrow> wr b (length c + 1) 0;
                  with_data b (length c + 1) s } }) s (room ok s (length c + 1)) (c @ [x])"
    using assms
  proof (rule edits_grow)
    fix s' junk
    assume s': "cs_length s' = length c" "length c + 1 < length (cs_data s')"
      "cs_data s' = map Some c @ Some 0 # junk"
    then obtain y z where "junk = y # z" by (cases junk) auto
    then show "\<exists>b junk'. do { b \<leftarrow> wr (cs_data s') (cs_length s') x; b \<leftarrow> wr b (length c + 1) 0;
          with_data b (length c + 1) s' } = with_data b (length (c @ [x])) s' \<and>
        length b = length (cs_data s') \<and> b = map Some (c @ [x]) @ Some 0 # junk'"
      using s' wr_map_here [of "c @ [x]" y z 0] by force
  qed simp
  moreover have "add32 (length c) 1 = length c + 1"
    using holds_lt_max [OF assms] by (simp add: add32_def CSTR_MAX_LEN_def)
  ultimately show ?thesis
    by (simp add: cstr_append_char_def holds_length [OF assms] Let_def cong: if_cong)
qed

lemma append_fmt_edits [cstr_ops]:
  assumes "holds s c" "length text < 2 ^ 31"
  shows "edits (cstr_append_fmt ok s (Some text)) s (room ok s (length c + length text)) (c @ text)"
proof -
  have "edits (do { (done, s) \<leftarrow> cstr_ensure_cap ok (length c + length text + 1) s;
        if \<not> done then Some (False, s)
        else do { b \<leftarrow> mem_write (cs_data s) (cs_length s) (text @ [0]);
                  with_data b (length c + length text) s } })
      s (room ok s (length c + length text)) (c @ text)"
    using assms(1) by (rule edits_grow) (auto simp: write_after)
  moreover have "add32 (length c) (length text) = length c + length text"
    using holds_lt_max [OF assms(1)] assms(2) by (simp add: add32_def CSTR_MAX_LEN_def)
  ultimately show ?thesis
    by (simp add: cstr_append_fmt_def holds_length [OF assms(1)] Let_def cong: if_cong)
qed

lemma copy_edits [cstr_ops]:
  assumes "holds s c" "holds t d"
  shows "edits (cstr_copy ok s (Other t)) s (room ok s (length d)) d"
proof -
  obtain junk where t: "cs_data t = map Some d @ Some 0 # junk"
    using assms(2) by (rule holds_data)
  have put: "put_cells (cs_data u) 0 (map Some d @ [Some 0]) = Some (map Some d @ Some 0 # drop (length d + 1) (cs_data u))"
    if "length d < length (cs_data u)" for u
    using that by (simp add: put_cells_def)
  show ?thesis
  proof (cases "length d < length (cs_data s)")
    case True
    then have "cstr_ensure_cap ok (length d + 1) s = Some (True, s)"
      using ensure_cap_fits [OF holds_wf [OF assms(1)]] by simp
    moreover have "room ok s (length d)"
      using True holds_lt_max [OF assms(2)] by (simp add: room_def)
    moreover have "holds ((set_data (map Some d @ Some 0 # drop (length d + 1) (cs_data s)) s)\<lparr>cs_length := length d\<rparr>) d"
      using holds_wf [OF assms(1)] True by (intro holds_update) auto
    ultimately show ?thesis
      using put [OF True] copy_other [OF assms(2), of "length d + 1"]
      by (auto simp: edits_def cstr_copy_def holds_length [OF assms(2)] with_data_def)
  next
    case False
    then have "length c \<le> length d" using holds_bound [OF assms(1)] by simp
    with assms(1) have "edits (do { (done, s) \<leftarrow> cstr_ensure_cap ok (length d + 1) s;
        if \<not> done then Some (False, s)
        else do { b \<leftarrow> copy_operand s 0 (Other t) (length d + 1); with_data b (length d) s } })
      s (room ok s (length d)) d"
    proof (rule edits_grow)
      fix s'
      assume s': "length d < length (cs_data s')"
      show "\<exists>b junk'. do { b \<leftarrow> copy_operand s' 0 (Other t) (length d + 1); with_data b (length d) s' }
          = with_data b (length d) s' \<and> length b = length (cs_data s') \<and> b = map Some d @ Some 0 # junk'"
        using copy_other [OF assms(2), of "length d + 1" s' 0] put [OF s'] s' by auto
    qed
    then show ?thesis
      by (simp add: cstr_copy_def holds_length [OF assms(2)] Let_def cong: if_cong)
  qed
qed

section \<open>Removal\<close>

lemma remove_edits [cstr_ops]:
  assumes "holds s c"
  shows "edits (cstr_remove s i n) s (i \<le> length c) (delete_at i n c)"
proof -
  define m where "m = (if n > length c - i then length c - i else n)"
  obtain junk where d: "cs_data s = map Some c @ Some 0 # junk"
    using assms by (rule holds_data)
  consider "length c < i" | "i \<le> length c" "m = 0" | "i \<le> length c" "m \<noteq> 0" by linarith
  then show ?thesis
  proof cases
    case 2
    then have "delete_at i n c = c" by (auto simp: m_def delete_at_def split: if_splits)
    with 2 assms show ?thesis
      by (simp add: edits_def cstr_remove_def holds_length [OF assms] Let_def m_def)
  next
    case 3
    then have im: "i + m \<le> length c" by (auto simp: m_def)
    have del: "delete_at i n c = delete_at i m c"
      using 3(1) by (auto simp: m_def delete_at_def)
    obtain b junk' where b: "mem_move (cs_data s) i (i + m) (length c - i - m + 1) = Some b"
      "length b = length (cs_data s)" "b = map Some (delete_at i m c) @ Some 0 # junk'"
      using close_gap [OF im, of junk] d by auto
    have run: "cstr_remove s i n = with_data b (length c - m) s"
      using 3 b(1) by (simp add: cstr_remove_def holds_length [OF assms] Let_def m_def)
    have "holds ((set_data b s)\<lparr>cs_length := length c - m\<rparr>) (delete_at i m c)"
      by (rule holds_update [OF holds_wf [OF assms] b(2,3)]) (simp add: length_delete_at [OF im])
    with run 3(1) show ?thesis by (simp add: edits_def del with_data_def)
  qed (simp add: edits_def cstr_remove_def holds_length [OF assms])
qed

lemma remove_substr_holds [cstr_ops]:
  assumes "holds s c"
  shows "\<exists>s'. cstr_remove_substr s i n = Some s' \<and> holds s' (delete_at i n c)"
proof (cases "length c \<le> i \<or> n = 0")
  case True
  then have "delete_at i n c = c" by (auto simp: delete_at_def)
  with True assms show ?thesis
    by (auto simp: cstr_remove_substr_def holds_length [OF assms])
next
  case False
  define m where "m = (if n > length c - i then length c - i else n)"
  have im: "i + m \<le> length c" "i < length c" using False by (auto simp: m_def)
  have del: "delete_at i n c = delete_at i m c"
    using im by (auto simp: m_def delete_at_def)
  obtain junk where d: "cs_data s = map Some c @ Some 0 # junk"
    using assms by (rule holds_data)
  have "\<exists>b junk'. (if length c - i - m > 0 then mem_move (cs_data s) i (i + m) (length c - i - m + 1)
          else wr (cs_data s) i 0) = Some b \<and> length b = length (cs_data s) \<and>
        b = map Some (delete_at i m c) @ Some 0 # junk'"
  proof (cases "length c - i - m > 0")
    case True
    then show ?thesis using close_gap [OF im(1), of junk] d by auto
  next
    case False
    have c: "cs_data s = map Some (take i c) @ Some (c ! i) # map Some (drop (Suc i) c) @ Some 0 # junk"
      unfolding d using id_take_nth_drop [OF im(2)] by (metis append.assoc append_Cons list.simps(9) map_append)
    have "wr (cs_data s) i 0 = Some (map Some (take i c) @ Some 0 # map Some (drop (Suc i) c) @ Some 0 # junk)"
      using wr_map_here [of "take i c" "Some (c ! i)" "map Some (drop (Suc i) c) @ Some 0 # junk" 0] im(2)
      by (simp add: c min_absorb2)
    with False im show ?thesis by (auto simp: delete_at_beyond c)
  qed
  then obtain b junk' where b: "(if length c - i - m > 0 then mem_move (cs_data s) i (i + m) (length c - i - m + 1)
          else wr (cs_data s) i 0) = Some b" "length b = length (cs_data s)"
        "b = map Some (delete_at i m c) @ Some 0 # junk'" by blast
  have "cstr_remove_substr s i n = do {
      b \<leftarrow> (if length c - i - m > 0 then mem_move (cs_data s) i (i + m) (length c - i - m + 1)
            else wr (cs_data s) i 0);
      Some ((set_data b s)\<lparr>cs_length := length c - m\<rparr>) }"
    unfolding cstr_remove_substr_def Let_def holds_length [OF assms] m_def
    using False by (rule if_not_P)
  then have "cstr_remove_substr s i n = Some ((set_data b s)\<lparr>cs_length := length c - m\<rparr>)"
    unfolding b(1) by simp
  moreover have "holds ((set_data b s)\<lparr>cs_length := length c - m\<rparr>) (delete_at i m c)"
    by (rule holds_update [OF holds_wf [OF assms] b(2,3)]) (simp add: length_delete_at [OF im(1)])
  ultimately show ?thesis by (simp add: del)
qed

section \<open>Construction and capacity changes\<close>

lemma init_inplace_holds: "holds (cstr_init_inplace cstr_malloc) []"
proof -
  have "(malloc_buf 16)[0 := Some 0] = Some 0 # malloc_buf 15"
    by (simp add: malloc_buf_def numeral_eq_Suc)
  then show ?thesis
    by (simp add: holds_def wf_mem_def cstr_init_inplace_def cstr_malloc_def cstr_is_heap_def
        CSTR_SSO_CAP_def cs_data_def)
qed

lemma length_init_inplace: "length (cs_data (cstr_init_inplace cstr_malloc)) = CSTR_SSO_CAP"
  by (simp add: cs_data_def cstr_init_inplace_def cstr_malloc_def)

definition can_create :: "bool \<Rightarrow> bool \<Rightarrow> nat \<Rightarrow> bool" where
  "can_create ok1 ok2 n \<longleftrightarrow> ok1 \<and> n < CSTR_MAX_LEN \<and> (ok2 \<or> n < CSTR_SSO_CAP)"

text \<open>A new string has room for the requested number of bytes.\<close>

lemma init_creates [cstr_ops]:
  "if can_create ok1 ok2 n
   then \<exists>s. cstr_init ok1 ok2 n = Some (Some s) \<and> holds s [] \<and> n < length (cs_data s)
   else cstr_init ok1 ok2 n = Some None"
proof -
  note ens = ensure_cap_room [OF init_inplace_holds, of n ok2, unfolded length_init_inplace room_def]
  show ?thesis
  proof (cases "ok1 \<and> n < CSTR_MAX_LEN \<and> CSTR_SSO_CAP \<le> n")
    case True
    then have "cstr_init ok1 ok2 n = do {
        (done, s) \<leftarrow> cstr_ensure_cap ok2 (n + 1) (cstr_init_inplace cstr_malloc);
        Some (if done then Some s else None) }"
      by (simp add: cstr_init_def)
    with ens True show ?thesis
      by (cases ok2) (auto simp: can_create_def length_init_inplace room_def)
  next
    case False
    then show ?thesis
      using init_inplace_holds by (auto simp: cstr_init_def can_create_def length_init_inplace)
  qed
qed

lemma new_len_creates [cstr_ops]:
  assumes "n \<le> length a" "n < 2 ^ 63"
  shows "creates (cstr_new_len ok1 ok2 (Some a) n) (can_create ok1 ok2 n) (take n a)"
proof (cases "ok1 \<and> 0 < n")
  case True
  then have eq: "cstr_new_len ok1 ok2 (Some a) n = do {
        (done, s) \<leftarrow> cstr_ensure_cap ok2 (n + 1) (cstr_init_inplace cstr_malloc);
        if \<not> done then Some None
        else do { b \<leftarrow> mem_copy (cs_data s) 0 a n; b \<leftarrow> wr b n 0;
                  Some (Some ((set_data b s)\<lparr>cs_length := n mod 2 ^ 32\<rparr>)) } }"
    using assms(2) by (simp add: cstr_new_len_def add64_def cong: if_cong)
  note ens = ensure_cap_room [OF init_inplace_holds, of n ok2]
  show ?thesis
  proof (cases "room ok2 (cstr_init_inplace cstr_malloc) n")
    case room: True
    with ens obtain s where s: "cstr_ensure_cap ok2 (n + 1) (cstr_init_inplace cstr_malloc) = Some (True, s)"
      "n < length (cs_data s)" "wf_mem s" by auto
    have "mem_copy (cs_data s) 0 a n = Some (map Some (take n a) @ drop n (cs_data s))"
      using assms(1) s(2) by (simp add: mem_copy_def mem_write_def)
    moreover obtain x z where xz: "drop n (cs_data s) = x # z"
      using s(2) by (metis Cons_nth_drop_Suc)
    have "wr (map Some (take n a) @ x # z) n 0 = Some (map Some (take n a) @ Some 0 # z)"
      using wr_map_here [of "take n a" x z 0] assms(1) by (simp add: min_absorb2)
    moreover have "length (map Some (take n a) @ Some 0 # z) = length (cs_data s)"
      using arg_cong [OF xz, of length] s(2) assms(1) by simp
    then have "holds ((set_data (map Some (take n a) @ Some 0 # z) s)\<lparr>cs_length := n\<rparr>) (take n a)"
      by (rule holds_update [OF s(3)]) (use assms(1) in auto)
    moreover have "n mod 2 ^ 32 = n"
      using room by (simp add: room_def CSTR_MAX_LEN_def)
    ultimately have "\<exists>s'. cstr_new_len ok1 ok2 (Some a) n = Some (Some s') \<and> holds s' (take n a)"
      using s(1) xz unfolding eq by simp
    then show ?thesis
      using True room by (simp add: creates_def can_create_def room_def length_init_inplace)
  next
    case False
    with ens have "cstr_new_len ok1 ok2 (Some a) n = Some None" unfolding eq by simp
    with False True show ?thesis
      by (auto simp: creates_def can_create_def room_def length_init_inplace)
  qed
next
  case False
  then show ?thesis
    using init_inplace_holds
    by (auto simp: creates_def cstr_new_len_def can_create_def CSTR_MAX_LEN_def CSTR_SSO_CAP_def)
qed

lemma substr_creates [cstr_ops]:
  assumes "holds s c"
  shows "creates (cstr_substr ok1 ok2 s i n)
     (i \<le> length c \<and> can_create ok1 ok2 (length (take n (drop i c)))) (take n (drop i c))"
proof (cases "length c < i")
  case True
  then show ?thesis
    by (simp add: creates_def cstr_substr_def holds_length [OF assms])
next
  case False
  define k where "k = (if n > length c - i then length c - i else n)"
  have k: "take n (drop i c) = take k (drop i c)" "length (take k (drop i c)) = k" "i + k \<le> length c"
    using False by (auto simp: k_def)
  obtain junk where d: "cs_data s = map Some c @ Some 0 # junk"
    using assms by (rule holds_data)
  have "cstr_substr ok1 ok2 s i n = cstr_new_len ok1 ok2 (Some (take k (drop i c))) k"
    using False k(3) by (simp add: cstr_substr_def holds_length [OF assms] d get_bytes_append Let_def k_def)
  moreover have "k < 2 ^ 63" using holds_lt_63 [OF assms] k(3) by linarith
  ultimately show ?thesis
    using new_len_creates [of k "take k (drop i c)" ok1 ok2] k False by simp
qed

lemma clear_holds [cstr_ops]:
  assumes "holds s c"
  shows "\<exists>s'. cstr_clear s = Some s' \<and> holds s' []"
proof -
  obtain junk where d: "cs_data s = map Some c @ Some 0 # junk"
    using assms by (rule holds_data)
  then obtain x z where xz: "cs_data s = x # z" by (metis append_Cons append_Nil list.exhaust)
  then have "wr (cs_data s) 0 0 = Some (map Some [] @ Some 0 # z)" by (simp add: wr_def)
  moreover have "holds ((set_data (map Some [] @ Some 0 # z) s)\<lparr>cs_length := 0\<rparr>) []"
    by (rule holds_update [OF holds_wf [OF assms]]) (use xz in auto)
  ultimately show ?thesis by (simp add: cstr_clear_def)
qed

lemma shrink_to_fit_holds [cstr_ops]:
  assumes "holds s c"
  shows "holds (cstr_shrink_to_fit ok s) c"
    and "ok \<Longrightarrow> cstr_is_heap s \<Longrightarrow> length (cs_data (cstr_shrink_to_fit ok s)) = length c + 1"
proof -
  obtain junk where d: "cs_data s = map Some c @ Some 0 # junk"
    using assms by (rule holds_data)
  have lt: "length c + 1 \<le> CSTR_MAX_LEN" using holds_lt_max [OF assms] by simp
  then have add: "add32 (length c) 1 = length c + 1"
    by (simp add: add32_def CSTR_MAX_LEN_def)
  have re: "realloc_buf (cs_data s) (length c + 1) = map Some c @ [Some 0]"
    by (simp add: d realloc_buf_def)
  note wf = holds_wf [OF assms, unfolded wf_mem_def]
  show "holds (cstr_shrink_to_fit ok s) c"
    using assms wf add re heap_flag_word [OF lt] holds_length [OF assms]
    by (auto simp: cstr_shrink_to_fit_def Let_def holds_def wf_mem_def cs_data_def
        cstr_is_heap_def cstr_heap_cap_def)
  show "length (cs_data (cstr_shrink_to_fit ok s)) = length c + 1" if ok "cstr_is_heap s"
    using that wf add re holds_length [OF assms]
    by (auto simp: cstr_shrink_to_fit_def Let_def cs_data_def)
qed

lemma drop_holds [cstr_ops]:
  assumes "holds s c"
  shows "if cstr_is_heap s then holds (cstr_drop s) [] else cstr_drop s = s"
proof -
  obtain x z where "cs_buf s = x # z" 
    using holds_wf [OF assms] by (cases "cs_buf s") (auto simp: wf_mem_def CSTR_SSO_CAP_def)
  then show ?thesis
    using holds_wf [OF assms]
    by (simp add: cstr_drop_def holds_def wf_mem_def cstr_init_inplace_def cstr_is_heap_def cs_data_def)
qed

lemma format_creates [cstr_ops]:
  "creates (cstr_format ok1 ok2 True (Some text)) (can_create ok1 ok2 (length text)) text"
proof (cases "can_create ok1 ok2 (length text)")
  case True
  with init_creates [of ok1 ok2 "length text"] obtain s where
    s: "cstr_init ok1 ok2 (length text) = Some (Some s)" "holds s []" "length text < length (cs_data s)"
    by auto
  have w: "mem_write (cs_data s) 0 (text @ [0]) = Some (map Some text @ Some 0 # drop (length text + 1) (cs_data s))"
    using s(3) by (simp add: mem_write_def)
  have "holds ((set_data (map Some text @ Some 0 # drop (length text + 1) (cs_data s)) s)\<lparr>cs_length := length text\<rparr>) text"
    by (rule holds_update [OF holds_wf [OF s(2)]]) (use s(3) in auto)
  moreover have "length text mod 2 ^ 32 = length text"
    using True by (simp add: can_create_def CSTR_MAX_LEN_def)
  ultimately show ?thesis
    using True s(1) w by (simp add: creates_def cstr_format_def can_create_def)
next
  case False
  then show ?thesis
    using init_creates [of ok1 ok2 "length text"]
    by (simp add: creates_def cstr_format_def)
qed

end
