(* ===== verification/Cstr_Search.thy ===== *)
theory Cstr_Search
  imports Cstr_Correct
begin

text \<open>
  Searching, comparing, replacing, splitting and joining (\<^verbatim>\<open>src/cstr.c\<close>).  The search
  routine scans for the first byte with \<^verbatim>\<open>memchr\<close>, checks the last byte as a guard and
  compares the middle, byte by byte for short needles and with \<^verbatim>\<open>memcmp\<close> for long ones; it
  is proved equal to the first occurrence (\<open>find_sub\<close>), and everything built on it equal to
  the reference definitions on lists.
\<close>

section \<open>The search routine\<close>

text \<open>The unrolled comparison of the middle bytes, from index \<open>i\<close> of \<open>k\<close>.\<close>

function mid_loop :: "bytes \<Rightarrow> nat \<Rightarrow> bytes \<Rightarrow> nat \<Rightarrow> nat \<Rightarrow> bool" where
  "mid_loop hs cur nd k i =
     (if i < k
      then if hs ! (cur + 1 + i) \<noteq> nd ! (1 + i) then False else mid_loop hs cur nd k (i + 1)
      else True)"
  by auto
termination by (relation "measure (\<lambda>(hs, cur, nd, k, i). k - i)") auto

declare mid_loop.simps [simp del]

function search_loop :: "bytes \<Rightarrow> bytes \<Rightarrow> nat \<Rightarrow> nat option" where
  "search_loop hs nd cur =
     (if cur \<le> length hs - length nd
      then case memchr (take (length hs - length nd - cur + 1) (drop cur hs)) (nd ! 0) of
             None \<Rightarrow> None
           | Some k \<Rightarrow>
               let cur = cur + k; nlen = length nd
               in if hs ! (cur + nlen - 1) = nd ! (nlen - 1) \<and>
                     (if nlen \<le> 9 then mid_loop hs cur nd (nlen - 2) 0
                      else take (nlen - 2) (drop (cur + 1) hs) = take (nlen - 2) (drop 1 nd))
                  then Some cur
                  else search_loop hs nd (cur + 1)
      else None)"
  by auto
termination by (relation "measure (\<lambda>(hs, nd, cur). Suc (length hs) - cur)") auto

declare search_loop.simps [simp del]

definition cstr_search :: "bytes \<Rightarrow> bytes \<Rightarrow> nat option" where
  "cstr_search hs nd =
     (if length nd = 0 then Some 0
      else if length hs < length nd then None
      else if length nd = 1 then memchr hs (nd ! 0)
      else search_loop hs nd 0)"

lemma search_advances:
  assumes "d \<noteq> []" "cstr_search (drop p hs) d = Some k"
  shows "Suc (length hs) - (p + k + length d) < Suc (length hs) - p"
proof -
  have "0 < length d" using assms(1) by simp
  moreover have "p \<le> length hs"
    using assms by (cases "p \<le> length hs") (auto simp: cstr_search_def)
  ultimately show ?thesis by linarith
qed

section \<open>Find, count, compare\<close>

text \<open>\<open>npos\<close> turns the found pointer into the C result.\<close>

definition npos :: "nat option \<Rightarrow> int" where
  "npos r = (case r of None \<Rightarrow> CSTR_NPOS | Some i \<Rightarrow> int i)"

text \<open>The bytes of a string as the searches read them.\<close>

definition cs_text :: "cstr \<Rightarrow> bytes option" where
  "cs_text s = get_bytes (cs_data s) 0 (cs_length s)"

definition cstr_find :: "cstr \<Rightarrow> bytes \<Rightarrow> int option" where
  "cstr_find s sub = do { hs \<leftarrow> cs_text s; Some (npos (cstr_search hs sub)) }"

definition cstr_find_cstr :: "cstr \<Rightarrow> cstr \<Rightarrow> int option" where
  "cstr_find_cstr s sub =
     do { hs \<leftarrow> cs_text s; nd \<leftarrow> cs_text sub; Some (npos (cstr_search hs nd)) }"

definition cstr_contains :: "cstr \<Rightarrow> bytes \<Rightarrow> bool option" where
  "cstr_contains s sub = do { r \<leftarrow> cstr_find s sub; Some (r \<noteq> CSTR_NPOS) }"

definition cstr_contains_cstr :: "cstr \<Rightarrow> cstr \<Rightarrow> bool option" where
  "cstr_contains_cstr s sub = do { r \<leftarrow> cstr_find_cstr s sub; Some (r \<noteq> CSTR_NPOS) }"

text \<open>The forward walk that remembers the last match; \<open>p\<close> is the cursor.\<close>

function rfind_loop :: "bytes \<Rightarrow> bytes \<Rightarrow> nat \<Rightarrow> nat option \<Rightarrow> nat option" where
  "rfind_loop hs nd p lst =
     (case cstr_search (drop p hs) nd of
        None \<Rightarrow> lst
      | Some k \<Rightarrow>
          if p + k + 1 + length nd > length hs then Some (p + k)
          else rfind_loop hs nd (p + k + 1) (Some (p + k)))"
  by auto
termination by (relation "measure (\<lambda>(hs, nd, p, lst). Suc (length hs) - p)") auto

declare rfind_loop.simps [simp del]

definition cstr_rfind :: "cstr \<Rightarrow> bytes \<Rightarrow> int option" where
  "cstr_rfind s sub =
     (if length sub = 0 \<or> length sub > cs_length s then Some CSTR_NPOS
      else do { hs \<leftarrow> cs_text s; Some (npos (rfind_loop hs sub 0 None)) })"

definition cstr_rfind_cstr :: "cstr \<Rightarrow> cstr \<Rightarrow> int option" where
  "cstr_rfind_cstr s sub =
     (if cs_length sub = 0 then Some (int (cs_length s))
      else if cs_length sub > cs_length s then Some CSTR_NPOS
      else do { hs \<leftarrow> cs_text s; nd \<leftarrow> cs_text sub; Some (npos (rfind_loop hs nd 0 None)) })"

text \<open>
  Counting skips the needle after each match.  The callers exclude the empty needle, on
  which the loop would not end; the guard makes that explicit.
\<close>

function count_loop :: "bytes \<Rightarrow> bytes \<Rightarrow> nat \<Rightarrow> nat \<Rightarrow> nat" where
  "count_loop hs nd p n =
     (case cstr_search (drop p hs) nd of
        None \<Rightarrow> n
      | Some k \<Rightarrow>
          if length hs - (p + k + length nd) < length nd \<or> length nd = 0 then n + 1
          else count_loop hs nd (p + k + length nd) (n + 1))"
  by auto
termination
  by (relation "measure (\<lambda>(hs, nd, p, n). Suc (length hs) - p)") (auto simp: search_advances)

declare count_loop.simps [simp del]

definition cstr_count_substr :: "cstr \<Rightarrow> bytes \<Rightarrow> nat option" where
  "cstr_count_substr s sub =
     (if length sub = 0 \<or> length sub > cs_length s then Some 0
      else do { hs \<leftarrow> cs_text s; Some (count_loop hs sub 0 0) })"

definition cstr_count_substr_cstr :: "cstr \<Rightarrow> cstr \<Rightarrow> nat option" where
  "cstr_count_substr_cstr s sub =
     (if cs_length sub = 0 \<or> cs_length sub > cs_length s then Some 0
      else do { hs \<leftarrow> cs_text s; nd \<leftarrow> cs_text sub; Some (count_loop hs nd 0 0) })"

text \<open>
  \<^verbatim>\<open>strcmp\<close> and \<^verbatim>\<open>strncmp\<close> on blocks, of which C promises the sign: they stop at the first
  difference or NUL, and reading past the block or an unwritten byte is undefined.
\<close>

fun strncmp_cells :: "nat \<Rightarrow> buffer \<Rightarrow> buffer \<Rightarrow> int option" where
  "strncmp_cells 0 a b = Some 0"
| "strncmp_cells (Suc n) (Some x # a) (Some y # b) =
     (if x \<noteq> y then Some (if x < y then -1 else 1)
      else if x = 0 then Some 0 else strncmp_cells n a b)"
| "strncmp_cells (Suc n) a b = None"

definition strcmp_cells :: "buffer \<Rightarrow> buffer \<Rightarrow> int option" where
  "strcmp_cells a b = strncmp_cells (length a + 1) a b"

definition cstr_cmp :: "cstr option \<Rightarrow> cstr option \<Rightarrow> int option" where
  "cstr_cmp s1 s2 =
     (case (s1, s2) of
        (None, None) \<Rightarrow> Some 0
      | (None, Some _) \<Rightarrow> Some (-1)
      | (Some _, None) \<Rightarrow> Some 1
      | (Some a, Some b) \<Rightarrow> strcmp_cells (cs_data a) (cs_data b))"

definition cstr_ncmp :: "cstr option \<Rightarrow> cstr option \<Rightarrow> nat \<Rightarrow> int option" where
  "cstr_ncmp s1 s2 n =
     (case (s1, s2) of
        (None, None) \<Rightarrow> Some 0
      | (None, Some _) \<Rightarrow> Some (-1)
      | (Some _, None) \<Rightarrow> Some 1
      | (Some a, Some b) \<Rightarrow> strncmp_cells n (cs_data a) (cs_data b))"

text \<open>\<open>same\<close>: the two pointers are equal.\<close>

definition cstr_equals :: "bool \<Rightarrow> cstr option \<Rightarrow> cstr option \<Rightarrow> bool option" where
  "cstr_equals same s1 s2 =
     (if same then Some True
      else case (s1, s2) of
        (Some a, Some b) \<Rightarrow>
          if cs_length a \<noteq> cs_length b then Some False
          else do { x \<leftarrow> get_bytes (cs_data a) 0 (cs_length a);
                    y \<leftarrow> get_bytes (cs_data b) 0 (cs_length a); Some (x = y) }
      | _ \<Rightarrow> Some False)"

definition cstr_starts_with :: "cstr \<Rightarrow> bytes \<Rightarrow> bool option" where
  "cstr_starts_with s prefix =
     (if length prefix = 0 then Some True
      else if length prefix > cs_length s then Some False
      else do { x \<leftarrow> get_bytes (cs_data s) 0 (length prefix); Some (x = prefix) })"

definition cstr_starts_with_cstr :: "cstr \<Rightarrow> cstr \<Rightarrow> bool option" where
  "cstr_starts_with_cstr s prefix =
     (if cs_length prefix = 0 then Some True
      else if cs_length prefix > cs_length s then Some False
      else do { x \<leftarrow> get_bytes (cs_data s) 0 (cs_length prefix);
                y \<leftarrow> get_bytes (cs_data prefix) 0 (cs_length prefix); Some (x = y) })"

definition cstr_ends_with :: "cstr \<Rightarrow> bytes \<Rightarrow> bool option" where
  "cstr_ends_with s suffix =
     (if length suffix = 0 then Some True
      else if length suffix > cs_length s then Some False
      else do { x \<leftarrow> get_bytes (cs_data s) (cs_length s - length suffix) (length suffix);
                Some (x = suffix) })"

definition cstr_ends_with_cstr :: "cstr \<Rightarrow> cstr \<Rightarrow> bool option" where
  "cstr_ends_with_cstr s suffix =
     (if cs_length suffix = 0 then Some True
      else if cs_length suffix > cs_length s then Some False
      else do { x \<leftarrow> get_bytes (cs_data s) (cs_length s - cs_length suffix) (cs_length suffix);
                y \<leftarrow> get_bytes (cs_data suffix) 0 (cs_length suffix); Some (x = y) })"

section \<open>Replace\<close>

text \<open>\<^verbatim>\<open>cstr_new_len(s->data, s->length)\<close>: a copy of the whole string.\<close>

definition clone :: "bool \<Rightarrow> bool \<Rightarrow> cstr \<Rightarrow> cstr option option" where
  "clone ok1 ok2 s = do { hs \<leftarrow> cs_text s; cstr_new_len ok1 ok2 (Some hs) (cs_length s) }"

definition cstr_replace :: "bool \<Rightarrow> bool \<Rightarrow> cstr \<Rightarrow> bytes \<Rightarrow> bytes \<Rightarrow> cstr option option" where
  "cstr_replace ok1 ok2 s old new =
     (if length old = 0 then clone ok1 ok2 s
      else do {
        hs \<leftarrow> cs_text s;
        case cstr_search hs old of
          None \<Rightarrow> clone ok1 ok2 s
        | Some prefix_len \<Rightarrow>
            let suffix_len = length hs - prefix_len - length old;
                result_len = (prefix_len + length new + suffix_len) mod 2 ^ 64
            in do {
              r \<leftarrow> cstr_init ok1 ok2 result_len;
              case r of None \<Rightarrow> Some None
              | Some r \<Rightarrow> do {
                  b \<leftarrow> mem_write (cs_data r) 0 (take prefix_len hs);
                  b \<leftarrow> mem_write b prefix_len new;
                  b \<leftarrow> mem_write b (prefix_len + length new)
                         (take suffix_len (drop (prefix_len + length old) hs));
                  b \<leftarrow> wr b result_len 0;
                  Some (Some ((set_data b r)\<lparr>cs_length := result_len mod 2 ^ 32\<rparr>))
                }
            }
      })"

text \<open>
  Collecting the match offsets.  The table starts with 64 entries on the stack and doubles
  on the heap; \<open>al n\<close> is the outcome of the allocation made when \<open>n\<close> offsets are stored.
  \<open>None\<close> is the jump to \<^verbatim>\<open>oom\<close>.  The callers exclude the empty needle.
\<close>

definition RA_STACK_CAP :: nat where
  "RA_STACK_CAP = 64"

function collect_offsets ::
    "(nat \<Rightarrow> bool) \<Rightarrow> bytes \<Rightarrow> bytes \<Rightarrow> nat \<Rightarrow> nat \<Rightarrow> nat list \<Rightarrow> nat list option" where
  "collect_offsets al hs old p offs_cap offs =
     (case cstr_search (drop p hs) old of
        None \<Rightarrow> Some offs
      | Some k \<Rightarrow>
          if length offs \<ge> offs_cap \<and> (offs_cap > (2 ^ 64 - 1) div 2 div 8 \<or> \<not> al (length offs))
          then None
          else let offs_cap = (if length offs \<ge> offs_cap then offs_cap * 2 else offs_cap)
          in if length old = 0 then None
             else collect_offsets al hs old (p + k + length old) offs_cap (offs @ [p + k]))"
  by auto
termination
  by (relation "measure (\<lambda>(al, hs, old, p, offs_cap, offs). Suc (length hs) - p)")
     (auto simp: search_advances)

declare collect_offsets.simps [simp del]

text \<open>Copying gaps and replacements into the result; \<open>w\<close> is \<^verbatim>\<open>write_pos\<close>, \<open>p\<close> is \<^verbatim>\<open>src_pos\<close>.\<close>

fun emit_loop :: "bytes \<Rightarrow> bytes \<Rightarrow> nat \<Rightarrow> nat list \<Rightarrow> buffer \<Rightarrow> nat \<Rightarrow> nat \<Rightarrow> (buffer \<times> nat \<times> nat) option" where
  "emit_loop hs new old_len [] b w p = Some (b, w, p)"
| "emit_loop hs new old_len (x # offs) b w p =
     do {
       let gap = x - p;
       b \<leftarrow> (if gap \<noteq> 0 then mem_write b w (take gap (drop p hs)) else Some b);
       let w = (if gap \<noteq> 0 then w + gap else w);
       b \<leftarrow> (if length new \<noteq> 0 then mem_write b w new else Some b);
       let w = (if length new \<noteq> 0 then w + length new else w);
       emit_loop hs new old_len offs b w (x + old_len)
     }"

definition cstr_replace_all ::
    "(nat \<Rightarrow> bool) \<Rightarrow> bool \<Rightarrow> bool \<Rightarrow> cstr \<Rightarrow> bytes \<Rightarrow> bytes \<Rightarrow> cstr option option" where
  "cstr_replace_all al ok1 ok2 s old new =
     (if length old = 0 then clone ok1 ok2 s
      else do {
        hs \<leftarrow> cs_text s;
        case collect_offsets al hs old 0 RA_STACK_CAP [] of
          None \<Rightarrow> Some None
        | Some offs \<Rightarrow>
            if length offs = 0 then clone ok1 ok2 s
            else let result_len =
                   (if length new \<ge> length old
                    then (length hs + length offs * (length new - length old)) mod 2 ^ 64
                    else length hs - length offs * (length old - length new))
            in do {
              r \<leftarrow> cstr_init ok1 ok2 result_len;
              case r of None \<Rightarrow> Some None
              | Some r \<Rightarrow> do {
                  (b, w, p) \<leftarrow> emit_loop hs new (length old) offs (cs_data r) 0 0;
                  let tail = length hs - p;
                  b \<leftarrow> (if tail \<noteq> 0 then mem_write b w (take tail (drop p hs)) else Some b);
                  let w = (if tail \<noteq> 0 then w + tail else w);
                  b \<leftarrow> wr b w 0;
                  Some (Some ((set_data b r)\<lparr>cs_length := w mod 2 ^ 32\<rparr>))
                }
            }
      })"

section \<open>Split and join\<close>

text \<open>
  \<open>al n\<close> and \<open>al' n\<close> are the outcomes of the two allocations of token \<open>n\<close>, \<open>gr n\<close> that of
  growing the pointer table when it holds \<open>n\<close> tokens.  The inner \<open>None\<close> is \<^verbatim>\<open>split_err\<close>.
\<close>

function split_loop ::
    "(nat \<Rightarrow> bool) \<Rightarrow> (nat \<Rightarrow> bool) \<Rightarrow> (nat \<Rightarrow> bool) \<Rightarrow> bytes \<Rightarrow> bytes \<Rightarrow> nat \<Rightarrow> nat \<Rightarrow> cstr list
       \<Rightarrow> cstr list option option" where
  "split_loop al al' gr hs d start cap toks =
     (let found = cstr_search (drop start hs) d;
          tok_end = (case found of None \<Rightarrow> length hs | Some k \<Rightarrow> start + k);
          n = length toks
      in if n \<ge> cap \<and> \<not> gr n then Some None
         else do {
           let cap = (if n \<ge> cap then cap * 2 else cap);
           t \<leftarrow> cstr_new_len (al n) (al' n) (Some (take (tok_end - start) (drop start hs))) (tok_end - start);
           case t of None \<Rightarrow> Some None
           | Some t \<Rightarrow>
               (case found of None \<Rightarrow> Some (Some (toks @ [t]))
                | Some k \<Rightarrow>
                    if length d = 0 then None
                    else split_loop al al' gr hs d (start + k + length d) cap (toks @ [t]))
         })"
  by auto
termination
  by (relation "measure (\<lambda>(al, al', gr, hs, d, start, cap, toks). Suc (length hs) - start)")
     (auto simp: search_advances [OF _ sym])

declare split_loop.simps [simp del]

text \<open>\<open>delim = None\<close> is the NULL pointer; \<open>mem\<close> the outcome of the first allocation.\<close>

definition cstr_split ::
    "bool \<Rightarrow> (nat \<Rightarrow> bool) \<Rightarrow> (nat \<Rightarrow> bool) \<Rightarrow> (nat \<Rightarrow> bool) \<Rightarrow> cstr \<Rightarrow> bytes option
       \<Rightarrow> cstr list option option" where
  "cstr_split mem al al' gr s delim =
     (if delim = None \<or> delim = Some []
      then if \<not> mem then Some None
           else do { t \<leftarrow> clone (al 0) (al' 0) s; Some (map_option (\<lambda>t. [t]) t) }
      else if \<not> mem then Some None
      else do { hs \<leftarrow> cs_text s; split_loop al al' gr hs (the delim) 0 8 [] })"

text \<open>The two loops of \<^verbatim>\<open>cstr_join\<close>: the total length, then the copies.\<close>

fun join_total :: "nat \<Rightarrow> cstr option list \<Rightarrow> nat option" where
  "join_total dlen [] = Some 0"
| "join_total dlen (None # xs) = None"
| "join_total dlen (Some x # xs) =
     map_option (\<lambda>t. cs_length x + (if xs \<noteq> [] then dlen else 0) + t) (join_total dlen xs)"

fun join_copy :: "bytes \<Rightarrow> cstr list \<Rightarrow> buffer \<Rightarrow> nat \<Rightarrow> (buffer \<times> nat) option" where
  "join_copy d [] b pos = Some (b, pos)"
| "join_copy d (x # xs) b pos =
     do {
       b \<leftarrow> (if cs_length x \<noteq> 0
             then do { cs \<leftarrow> mem_read (cs_data x) 0 (cs_length x); put_cells b pos cs } else Some b);
       let pos = (if cs_length x \<noteq> 0 then pos + cs_length x else pos);
       b \<leftarrow> (if length d \<noteq> 0 \<and> xs \<noteq> [] then mem_write b pos d else Some b);
       let pos = (if length d \<noteq> 0 \<and> xs \<noteq> [] then pos + length d else pos);
       join_copy d xs b pos
     }"

definition cstr_join ::
    "bool \<Rightarrow> bool \<Rightarrow> cstr option list option \<Rightarrow> bytes option \<Rightarrow> cstr option option" where
  "cstr_join ok1 ok2 strings delim =
     (case strings of
        None \<Rightarrow> cstr_new_len ok1 ok2 (Some []) 0
      | Some [] \<Rightarrow> cstr_new_len ok1 ok2 (Some []) 0
      | Some xs \<Rightarrow>
          let d = (case delim of None \<Rightarrow> [] | Some d \<Rightarrow> d)
          in (case join_total (length d) xs of
               None \<Rightarrow> Some None
             | Some tot \<Rightarrow> do {
                 r \<leftarrow> cstr_init ok1 ok2 (tot mod 2 ^ 64);
                 case r of None \<Rightarrow> Some None
                 | Some r \<Rightarrow> do {
                     (b, pos) \<leftarrow> join_copy d (map the xs) (cs_data r) 0;
                     b \<leftarrow> wr b pos 0;
                     Some (Some ((set_data b r)\<lparr>cs_length := pos mod 2 ^ 32\<rparr>))
                   }
               }))"

section \<open>The search finds the first occurrence\<close>

lemma mid_loop_iff: "mid_loop hs cur nd k i \<longleftrightarrow> (\<forall>j. i \<le> j \<and> j < k \<longrightarrow> hs ! (cur + 1 + j) = nd ! (1 + j))"
proof (induction hs cur nd k i rule: mid_loop.induct)
  case (1 hs cur nd k i)
  have "(\<forall>j. i \<le> j \<and> j < k \<longrightarrow> hs ! (cur + 1 + j) = nd ! (1 + j)) \<longleftrightarrow>
      (i < k \<longrightarrow> hs ! (cur + 1 + i) = nd ! (1 + i)) \<and>
      (\<forall>j. i + 1 \<le> j \<and> j < k \<longrightarrow> hs ! (cur + 1 + j) = nd ! (1 + j))"
    by (metis Suc_eq_plus1 Suc_leI le_eq_less_or_eq Suc_leD)
  with 1 show ?case by (subst mid_loop.simps) auto
qed

lemma match_check:
  assumes len: "2 \<le> length nd" "cur + length nd \<le> length hs" and first: "hs ! cur = nd ! 0"
  shows "hs ! (cur + length nd - 1) = nd ! (length nd - 1) \<and>
    (if length nd \<le> 9 then mid_loop hs cur nd (length nd - 2) 0
     else take (length nd - 2) (drop (cur + 1) hs) = take (length nd - 2) (drop 1 nd))
    \<longleftrightarrow> occurs_at nd hs cur"
proof -
  let ?n = "length nd"
  have mid: "(if ?n \<le> 9 then mid_loop hs cur nd (?n - 2) 0
     else take (?n - 2) (drop (cur + 1) hs) = take (?n - 2) (drop 1 nd))
     \<longleftrightarrow> (\<forall>j<?n - 2. hs ! (cur + 1 + j) = nd ! (1 + j))"
    using len by (auto simp: mid_loop_iff list_eq_iff_nth_eq)
  have idx: "(\<forall>j<?n. hs ! (cur + j) = nd ! j) \<longleftrightarrow>
      hs ! cur = nd ! 0 \<and> (\<forall>j<?n - 2. hs ! (cur + 1 + j) = nd ! (1 + j)) \<and>
      hs ! (cur + ?n - 1) = nd ! (?n - 1)" (is "?L \<longleftrightarrow> ?R")
  proof
    assume L: ?L
    from L len(1) have "hs ! (cur + ?n - 1) = nd ! (?n - 1)"
      using L [rule_format, of "?n - 1"] by (metis Nat.add_diff_assoc diff_less le_trans one_le_numeral
          less_le_trans zero_less_one zero_less_numeral)
    moreover have "hs ! (cur + 1 + j) = nd ! (1 + j)" if "j < ?n - 2" for j
      using L [rule_format, of "1 + j"] that by simp
    moreover have "hs ! cur = nd ! 0" using L [rule_format, of 0] len(1) by fastforce
    ultimately show ?R using len(1) by simp
  next
    assume R: ?R
    show ?L
    proof (intro allI impI)
      fix j assume j: "j < ?n"
      consider "j = 0" | "j = ?n - 1" | "0 < j" "j - 1 < ?n - 2" using j by linarith
      then show "hs ! (cur + j) = nd ! j"
      proof cases
        case 1 then show ?thesis using R by simp
      next
        case 2 then show ?thesis using R len(1) by simp
      next
        case 3
        with R have "hs ! (cur + 1 + (j - 1)) = nd ! (1 + (j - 1))" by blast
        with 3 show ?thesis by simp
      qed
    qed
  qed
  show ?thesis
    unfolding mid occurs_at_nth using idx first len(2) by blast
qed

lemma search_loop_Some:
  assumes len: "2 \<le> length nd" "length nd \<le> length hs"
  shows "search_loop hs nd cur = Some i \<longleftrightarrow>
    cur \<le> i \<and> occurs_at nd hs i \<and> (\<forall>j. cur \<le> j \<and> j < i \<longrightarrow> \<not> occurs_at nd hs j)"
  using assms
proof (induction hs nd cur arbitrary: i rule: search_loop.induct)
  case (1 hs nd cur)
  let ?win = "take (length hs - length nd - cur + 1) (drop cur hs)"
  let ?first = "\<lambda>c i. c \<le> i \<and> occurs_at nd hs i \<and> (\<forall>j. c \<le> j \<and> j < i \<longrightarrow> \<not> occurs_at nd hs j)"
  have occ: "occurs_at nd hs j \<Longrightarrow> j \<le> length hs - length nd \<and> hs ! j = nd ! 0" for j
    using 1(2,3) by (force simp: occurs_at_nth)
  show ?case
  proof (cases "cur \<le> length hs - length nd")
    case False
    then have "\<not> ?first cur i" using occ by fastforce
    with False show ?thesis by (subst search_loop.simps) auto
  next
    case cur: True
    have win: "?win ! k = hs ! (cur + k)" if "k \<le> length hs - length nd - cur" for k
      using that cur 1(2,3) by simp
    have wlen: "length ?win = length hs - length nd - cur + 1"
      using cur 1(2,3) by simp
    show ?thesis
    proof (cases "memchr ?win (nd ! 0)")
      case None
      have "\<not> occurs_at nd hs j" if "cur \<le> j" for j
      proof
        assume o: "occurs_at nd hs j"
        then have j: "j - cur < length ?win" unfolding wlen using occ [OF o] that cur by linarith
        then have "?win ! (j - cur) = nd ! 0"
          using occ [OF o] that win [of "j - cur"] by simp
        with j nth_mem [OF j] None show False by (simp add: memchr_None)
      qed
      with None cur show ?thesis by (subst search_loop.simps) auto
    next
      case (Some k)
      then have k: "k \<le> length hs - length nd - cur" "hs ! (cur + k) = nd ! 0"
        "\<And>j. j < k \<Longrightarrow> hs ! (cur + j) \<noteq> nd ! 0"
        using win by (auto simp: memchr_Some wlen)
      have skip: "\<not> occurs_at nd hs j" if "cur \<le> j" "j < cur + k" for j
        using occ [of j] k(3) [of "j - cur"] that by auto
      have step: "search_loop hs nd cur =
          (if occurs_at nd hs (cur + k) then Some (cur + k) else search_loop hs nd (cur + k + 1))"
        using cur Some match_check [of nd "cur + k" hs] k 1(2,3)
        by (subst search_loop.simps) (simp add: Let_def)
      show ?thesis
      proof (cases "occurs_at nd hs (cur + k)")
        case True
        then have "Some (cur + k) = Some i \<longleftrightarrow> ?first cur i"
          using skip by (metis le_add1 linorder_neqE_nat option.inject)
        with True show ?thesis by (simp add: step)
      next
        case False
        have "\<not> (hs ! (cur + k + length nd - 1) = nd ! (length nd - 1) \<and>
             (if length nd \<le> 9 then mid_loop hs (cur + k) nd (length nd - 2) 0
              else take (length nd - 2) (drop (cur + k + 1) hs) = take (length nd - 2) (drop 1 nd)))"
          using False match_check [of nd "cur + k" hs] k cur 1(2,3) by simp
        from 1(1) [OF cur Some refl refl this 1(2,3)]
        have "search_loop hs nd (cur + k + 1) = Some i \<longleftrightarrow> ?first (cur + k + 1) i" .
        also have "\<dots> \<longleftrightarrow> ?first cur i"
        proof -
          have none: "\<not> occurs_at nd hs j" if "cur \<le> j" "j < cur + k + 1" for j
            using False skip [of j] that by (cases "j = cur + k") auto
          have "cur + k + 1 \<le> i" if "cur \<le> i" "occurs_at nd hs i"
            using none [of i] that by (meson not_le)
          moreover have "(\<forall>j. cur \<le> j \<and> j < i \<longrightarrow> \<not> occurs_at nd hs j) \<longleftrightarrow>
              (\<forall>j. cur + k + 1 \<le> j \<and> j < i \<longrightarrow> \<not> occurs_at nd hs j)"
            using none by (meson add_leD1 not_le)
          ultimately show ?thesis by (meson add_leD1)
        qed
        finally show ?thesis using False by (simp add: step)
      qed
    qed
  qed
qed

lemma search_is_find_sub: "cstr_search hs nd = find_sub nd hs"
proof (rule option_eqI)
  fix i
  consider "nd = []" | "length hs < length nd" | "length nd = 1" "length nd \<le> length hs"
    | "2 \<le> length nd" "length nd \<le> length hs"
    by (metis One_nat_def Suc_1 Suc_leI leI length_0_conv less_one linorder_neqE_nat)
  then show "cstr_search hs nd = Some i \<longleftrightarrow> find_sub nd hs = Some i"
  proof cases
    case 2
    then show ?thesis by (auto simp: cstr_search_def find_sub_Some occurs_at_def)
  next
    case 3
    then obtain x where "nd = [x]" by (auto simp: length_Suc_conv)
    with 3 show ?thesis
      by (auto simp: cstr_search_def memchr_Some find_sub_Some occurs_at_nth)
  next
    case 4
    then have "cstr_search hs nd = search_loop hs nd 0" by (auto simp: cstr_search_def)
    with 4 show ?thesis by (simp add: search_loop_Some find_sub_Some)
  qed (simp add: cstr_search_def)
qed

lemma cs_text_holds: "holds s c \<Longrightarrow> cs_text s = Some c"
  by (metis cs_text_def get_bytes_whole holds_data holds_length)

lemma find_holds:
  assumes "holds s c"
  shows "cstr_find s sub = Some (npos (find_sub sub c))"
  by (simp add: cstr_find_def cs_text_holds [OF assms] search_is_find_sub)

lemma find_cstr_holds:
  assumes "holds s c" "holds t d"
  shows "cstr_find_cstr s t = Some (npos (find_sub d c))"
  by (simp add: cstr_find_cstr_def cs_text_holds [OF assms(1)] cs_text_holds [OF assms(2)] search_is_find_sub)

lemma find_sub_drop:
  assumes "p \<le> length hs"
  shows "find_sub nd (drop p hs) = Some k \<longleftrightarrow>
    occurs_at nd hs (p + k) \<and> (\<forall>j. p \<le> j \<and> j < p + k \<longrightarrow> \<not> occurs_at nd hs j)"
proof -
  have "(\<forall>j<k. \<not> occurs_at nd hs (p + j)) \<longleftrightarrow> (\<forall>j. p \<le> j \<and> j < p + k \<longrightarrow> \<not> occurs_at nd hs j)"
    by (metis le_add1 le_add_diff_inverse nat_add_left_cancel_less)
  with assms show ?thesis by (simp add: find_sub_Some occurs_at_drop)
qed

lemma find_sub_drop_None:
  assumes "p \<le> length hs"
  shows "find_sub nd (drop p hs) = None \<longleftrightarrow> (\<forall>j\<ge>p. \<not> occurs_at nd hs j)"
  using assms by (metis find_sub_None le_add1 le_add_diff_inverse occurs_at_drop)

lemma rfind_loop_Some:
  assumes "p \<le> length hs" "nd \<noteq> []"
  shows "rfind_loop hs nd p lst = Some i \<longleftrightarrow>
    p \<le> i \<and> occurs_at nd hs i \<and> (\<forall>j>i. \<not> occurs_at nd hs j) \<or>
    lst = Some i \<and> (\<forall>j\<ge>p. \<not> occurs_at nd hs j)"
  using assms
proof (induction hs nd p lst arbitrary: i rule: rfind_loop.induct)
  case (1 hs nd p lst)
  note eq = rfind_loop.simps [of hs nd p lst, unfolded search_is_find_sub]
  show ?case
  proof (cases "find_sub nd (drop p hs)")
    case None
    then show ?thesis
      using find_sub_drop_None [OF 1(2), of nd] by (auto simp: eq)
  next
    case (Some k)
    then have k: "occurs_at nd hs (p + k)" "\<And>j. p \<le> j \<Longrightarrow> j < p + k \<Longrightarrow> \<not> occurs_at nd hs j"
      using find_sub_drop [OF 1(2)] by auto
    have uniq: "(p \<le> i \<and> occurs_at nd hs i \<and> (\<forall>j>i. \<not> occurs_at nd hs j)) \<longleftrightarrow>
        p + k = i \<and> (\<forall>j>p + k. \<not> occurs_at nd hs j) \<or>
        p + k + 1 \<le> i \<and> occurs_at nd hs i \<and> (\<forall>j>i. \<not> occurs_at nd hs j)"
      using k by (metis Suc_eq_plus1 Suc_leI le_add1 le_trans linorder_neqE_nat not_less nat_less_le)
    show ?thesis
    proof (cases "p + k + 1 + length nd > length hs")
      case True
      then have "\<forall>j>p + k. \<not> occurs_at nd hs j" by (auto simp: occurs_at_def)
      moreover from True have "rfind_loop hs nd p lst = Some (p + k)" by (simp add: eq Some)
      ultimately show ?thesis
        using uniq k(1) by (metis Suc_eq_plus1 Suc_le_eq le_add1 option.inject)
    next
      case False
      from False have "rfind_loop hs nd p lst = rfind_loop hs nd (p + k + 1) (Some (p + k))"
        by (simp add: eq Some)
      moreover have "p + k + 1 \<le> length hs" using False by simp
      note IH = 1(1) [of k i, unfolded search_is_find_sub, OF Some False this 1(3)]
      ultimately show ?thesis
        using uniq k(1) IH by (metis Suc_eq_plus1 Suc_le_eq le_add1 option.inject)
    qed
  qed
qed

lemma count_loop_pieces:
  assumes "nd \<noteq> []"
  shows "count_loop hs nd p n + 1 = n + length (pieces nd (drop p hs))"
  using assms
proof (induction hs nd p n rule: count_loop.induct)
  case (1 hs nd p n)
  note eq = count_loop.simps [of hs nd p n, unfolded search_is_find_sub]
  show ?case
  proof (cases "find_sub nd (drop p hs)")
    case None
    then show ?thesis using 1(2) by (subst pieces.simps) (simp add: eq)
  next
    case (Some k)
    have pc: "pieces nd (drop p hs) = take k (drop p hs) # pieces nd (drop (p + k + length nd) hs)"
      using Some 1(2) by (subst pieces.simps) (simp add: ac_simps)
    show ?thesis
    proof (cases "length hs - (p + k + length nd) < length nd")
      case True
      then have "find_sub nd (drop (p + k + length nd) hs) = None"
        by (auto simp: find_sub_None occurs_at_def)
      then have "pieces nd (drop (p + k + length nd) hs) = [drop (p + k + length nd) hs]"
        by (subst pieces.simps) simp
      with True show ?thesis by (simp add: eq Some pc)
    next
      case False
      with 1(2) have "\<not> (length hs - (p + k + length nd) < length nd \<or> length nd = 0)" by simp
      from 1(1) [of k, unfolded search_is_find_sub, OF Some this 1(2)] this
      show ?thesis by (simp add: eq Some pc)
    qed
  qed
qed

section \<open>Replace\<close>

lemma clone_creates:
  assumes "holds s c"
  shows "creates (clone ok1 ok2 s) (can_create ok1 ok2 (length c)) c"
  using new_len_creates [of "length c" c ok1 ok2] holds_lt_63 [OF assms]
  by (simp add: clone_def cs_text_holds [OF assms] holds_length [OF assms])

text \<open>Filling a fresh block from left to right, then terminating it.\<close>

lemma fill_write:
  assumes "length bs \<le> length rest"
  shows "mem_write (map Some out @ rest) (length out) bs
    = Some (map Some (out @ bs) @ drop (length bs) rest)"
  using assms by (simp add: mem_write_def)

lemma finish_holds:
  assumes "wf_mem r" "length out < length (cs_data r)" "length out < CSTR_MAX_LEN"
  shows "\<exists>b. wr (map Some out @ drop (length out) (cs_data r)) (length out) 0 = Some b \<and>
    holds ((set_data b r)\<lparr>cs_length := length out mod 2 ^ 32\<rparr>) out"
proof -
  obtain x z where xz: "drop (length out) (cs_data r) = x # z"
    using assms(2) by (metis Cons_nth_drop_Suc)
  have "wr (map Some out @ x # z) (length out) 0 = Some (map Some out @ Some 0 # z)" by simp
  moreover have "length (map Some out @ Some 0 # z) = length (cs_data r)"
    using arg_cong [OF xz, of length] assms(2) by simp
  then have "holds ((set_data (map Some out @ Some 0 # z) r)\<lparr>cs_length := length out mod 2 ^ 32\<rparr>) out"
    by (rule holds_update [OF assms(1) _ refl]) (use assms(3) in \<open>simp add: CSTR_MAX_LEN_def\<close>)
  ultimately show ?thesis by (simp add: xz)
qed

definition replace_first :: "bytes \<Rightarrow> bytes \<Rightarrow> bytes \<Rightarrow> bytes" where
  "replace_first old new c =
     (if old = [] then c
      else case find_sub old c of None \<Rightarrow> c
           | Some i \<Rightarrow> take i c @ new @ drop (i + length old) c)"

lemma replace_creates [cstr_ops]:
  assumes "holds s c" "length (replace_first old new c) < 2 ^ 64"
  shows "creates (cstr_replace ok1 ok2 s old new)
     (can_create ok1 ok2 (length (replace_first old new c))) (replace_first old new c)"
proof (cases "old = [] \<or> find_sub old c = None")
  case True
  then show ?thesis
    using clone_creates [OF assms(1), of ok1 ok2]
    by (auto simp: cstr_replace_def replace_first_def cs_text_holds [OF assms(1)] search_is_find_sub)
next
  case False
  then obtain i where i: "find_sub old c = Some i" "old \<noteq> []" by auto
  let ?r = "replace_first old new c" and ?suf = "drop (i + length old) c"
  have il: "i + length old \<le> length c" using i(1) by (rule find_sub_le)
  have r: "?r = take i c @ new @ ?suf" using i by (simp add: replace_first_def)
  have len: "(i + length new + (length c - (i + length old))) mod 2 ^ 64 = length ?r"
    using il assms(2) by (simp add: r)
  have suf: "take (length c - i - length old) ?suf = ?suf" using il by simp
  have eq: "cstr_replace ok1 ok2 s old new = do {
      r \<leftarrow> cstr_init ok1 ok2 (length ?r);
      case r of None \<Rightarrow> Some None
      | Some r \<Rightarrow> do {
          b \<leftarrow> mem_write (cs_data r) 0 (take i c);
          b \<leftarrow> mem_write b i new;
          b \<leftarrow> mem_write b (i + length new) ?suf;
          b \<leftarrow> wr b (length ?r) 0;
          Some (Some ((set_data b r)\<lparr>cs_length := length ?r mod 2 ^ 32\<rparr>)) } }"
    using i len suf unfolding cstr_replace_def cs_text_holds [OF assms(1)] search_is_find_sub Let_def
    by (simp cong: option.case_cong)
  show ?thesis
  proof (cases "can_create ok1 ok2 (length ?r)")
    case True
    with init_creates [of ok1 ok2 "length ?r"] obtain u where u:
      "cstr_init ok1 ok2 (length ?r) = Some (Some u)" "holds u []" "length ?r < length (cs_data u)"
      by auto
    have lt: "length ?r < CSTR_MAX_LEN" using True by (simp add: can_create_def)
    have w1: "mem_write (cs_data u) 0 (take i c) = Some (map Some (take i c) @ drop i (cs_data u))"
      using fill_write [of "take i c" "cs_data u" "[]"] u(3) il by (simp add: r)
    have w2: "mem_write (map Some (take i c) @ drop i (cs_data u)) i new
        = Some (map Some (take i c @ new) @ drop (i + length new) (cs_data u))"
      using fill_write [of new "drop i (cs_data u)" "take i c"] u(3) il by (simp add: r ac_simps)
    have w3: "mem_write (map Some (take i c @ new) @ drop (i + length new) (cs_data u)) (i + length new) ?suf
        = Some (map Some ?r @ drop (length ?r) (cs_data u))"
      using fill_write [of ?suf "drop (i + length new) (cs_data u)" "take i c @ new"] u(3) il
      by (simp add: r ac_simps)
    from finish_holds [OF holds_wf [OF u(2)] u(3) lt] w1 w2 w3 u(1) True show ?thesis
      unfolding eq creates_def by (auto simp del: map_append)
  next
    case False
    then show ?thesis
      using init_creates [of ok1 ok2 "length ?r"] by (simp add: creates_def eq)
  qed
qed

section \<open>Replace all\<close>

text \<open>The offsets of the non-overlapping matches from position \<open>p\<close> on.\<close>

function match_offsets :: "bytes \<Rightarrow> bytes \<Rightarrow> nat \<Rightarrow> nat list" where
  "match_offsets d hs p =
     (if d = [] then []
      else case find_sub d (drop p hs) of
             None \<Rightarrow> []
           | Some k \<Rightarrow> (p + k) # match_offsets d hs (p + k + length d))"
  by auto
termination
  by (relation "measure (\<lambda>(d, hs, p). Suc (length hs) - p)")
     (auto simp: search_advances [unfolded search_is_find_sub])

declare match_offsets.simps [simp del]

lemma find_sub_drop_le:
  assumes "d \<noteq> []" "find_sub d (drop p hs) = Some k"
  shows "p + k + length d \<le> length hs"
proof -
  have "k + length d \<le> length hs - p" using find_sub_le [OF assms(2)] by simp
  moreover have "0 < length d" using assms(1) by simp
  ultimately show ?thesis by linarith
qed

text \<open>
  Collecting either runs out of memory or finds exactly these offsets; the table guard
  cannot trigger for a string of at most \<open>2 ^ 31\<close> bytes, because there are at most as many
  matches as bytes.
\<close>

lemma collect_offsets_matches:
  assumes "d \<noteq> []" "p \<le> length hs" "length offs \<le> p" "cap \<le> 64 + 2 * p" "length hs < 2 ^ 31"
  shows "collect_offsets al hs d p cap offs = Some (offs @ match_offsets d hs p) \<or>
     collect_offsets al hs d p cap offs = None \<and> (\<exists>n. \<not> al n)"
  using assms
proof (induction al hs d p cap offs rule: collect_offsets.induct)
  case (1 al hs d p cap offs)
  note eq = collect_offsets.simps [of al hs d p cap offs, unfolded search_is_find_sub]
  show ?case
  proof (cases "find_sub d (drop p hs)")
    case None
    then show ?thesis by (subst match_offsets.simps) (simp add: eq)
  next
    case (Some k)
    have pos: "0 < length d" using 1(2) by simp
    have step: "p + k + length d \<le> length hs" using find_sub_drop_le [OF 1(2) Some] .
    have mo: "match_offsets d hs p = (p + k) # match_offsets d hs (p + k + length d)"
      using Some 1(2) by (subst match_offsets.simps) simp
    have small: "cap \<le> (2 ^ 64 - 1) div 2 div 8" using 1(5,6) 1(3) by simp
    show ?thesis
    proof (cases "cap \<le> length offs \<and> \<not> al (length offs)")
      case True
      then show ?thesis by (auto simp: eq Some)
    next
      case False
      define cap' where "cap' = (if cap \<le> length offs then cap * 2 else cap)"
      have cond: "\<not> (cap \<le> length offs \<and> ((2 ^ 64 - 1) div 2 div 8 < cap \<or> \<not> al (length offs)))"
        using False small by linarith
      have "cap' \<le> 64 + 2 * (p + k + length d)"
        using 1(4,5) pos unfolding cap'_def by (simp split: if_splits)
      moreover have "length (offs @ [p + k]) \<le> p + k + length d"
        using 1(4) pos unfolding length_append list.size by linarith
      moreover have "collect_offsets al hs d p cap offs
          = collect_offsets al hs d (p + k + length d) cap' (offs @ [p + k])"
        unfolding eq Some option.case if_not_P [OF cond] Let_def cap'_def using pos by simp
      moreover note 1(1) [unfolded search_is_find_sub, OF Some cond cap'_def _ 1(2) step _ _ 1(6)]
      ultimately show ?thesis using pos by (simp add: mo)
    qed
  qed
qed

lemma replace_pieces_step:
  assumes "old \<noteq> []" "find_sub old (drop p hs) = Some k"
  shows "replace_pieces old new (drop p hs)
    = take k (drop p hs) @ new @ replace_pieces old new (drop (p + k + length old) hs)"
proof -
  have "pieces old (drop p hs) = take k (drop p hs) # pieces old (drop (p + k + length old) hs)"
    using assms by (subst pieces.simps) (simp add: ac_simps)
  then show ?thesis by (simp add: replace_pieces_def intersperse_Cons)
qed

lemma replace_pieces_done:
  assumes "find_sub old hs = None"
  shows "replace_pieces old new hs = hs"
  using assms unfolding replace_pieces_def by (subst pieces.simps) simp

lemma length_replace_pieces:
  assumes "old \<noteq> []" "p \<le> length hs"
  shows "length (replace_pieces old new (drop p hs)) + length (match_offsets old hs p) * length old
    = length hs - p + length (match_offsets old hs p) * length new"
  using assms
proof (induction old hs p rule: match_offsets.induct)
  case (1 old hs p)
  show ?case
  proof (cases "find_sub old (drop p hs)")
    case None
    then show ?thesis
      by (subst (1 2) match_offsets.simps) (simp add: replace_pieces_done)
  next
    case (Some k)
    have le: "p + k + length old \<le> length hs" using find_sub_drop_le [OF 1(2) Some] .
    have "match_offsets old hs p = (p + k) # match_offsets old hs (p + k + length old)"
      using Some 1(2) by (subst match_offsets.simps) simp
    with 1(1) [OF 1(2) Some 1(2) le] le show ?thesis
      by (simp add: replace_pieces_step [OF 1(2) Some])
  qed
qed

lemma cond_write:
  assumes "length bs \<le> length rest" "n = length bs" "w = length out"
  shows "(if n \<noteq> 0 then mem_write (map Some out @ rest) w bs else Some (map Some out @ rest))
    = Some (map Some (out @ bs) @ drop n rest)"
  using assms fill_write [OF assms(1)] by simp

lemma cond_add: "(if n \<noteq> 0 then w + n else w) = w + (n :: nat)"
  by simp

lemma emit_loop_run:
  assumes "old \<noteq> []" "p \<le> length hs"
    "length (replace_pieces old new (drop p hs)) \<le> length rest"
  shows "\<exists>X p'. emit_loop hs new (length old) (match_offsets old hs p) (map Some out @ rest) (length out) p
      = Some (map Some (out @ X) @ drop (length X) rest, length (out @ X), p') \<and>
    X @ drop p' hs = replace_pieces old new (drop p hs) \<and> p' \<le> length hs"
  using assms
proof (induction old hs p arbitrary: out rest rule: match_offsets.induct)
  case (1 old hs p)
  show ?case
  proof (cases "find_sub old (drop p hs)")
    case None
    then have "match_offsets old hs p = []" by (subst match_offsets.simps) simp
    with None 1(3) show ?thesis by (simp add: replace_pieces_done)
  next
    case (Some k)
    let ?gap = "take k (drop p hs)" and ?p' = "p + k + length old"
    have le: "?p' \<le> length hs" using find_sub_drop_le [OF 1(2) Some] .
    have mo: "match_offsets old hs p = (p + k) # match_offsets old hs ?p'"
      using Some 1(2) by (subst match_offsets.simps) simp
    note rp = replace_pieces_step [OF 1(2) Some, of new]
    have gl: "length ?gap = k" using le by simp
    have room: "k + length new + length (replace_pieces old new (drop ?p' hs)) \<le> length rest"
      using 1(4) gl by (simp add: rp)
    have w1: "(if k \<noteq> 0 then mem_write (map Some out @ rest) (length out) ?gap
        else Some (map Some out @ rest)) = Some (map Some (out @ ?gap) @ drop k rest)"
      by (rule cond_write) (use room gl in auto)
    have w2: "(if length new \<noteq> 0 then mem_write (map Some (out @ ?gap) @ drop k rest) (length out + k) new
        else Some (map Some (out @ ?gap) @ drop k rest))
        = Some (map Some ((out @ ?gap) @ new) @ drop (length new) (drop k rest))"
      by (rule cond_write) (use room gl in auto)
    have step: "emit_loop hs new (length old) (match_offsets old hs p) (map Some out @ rest) (length out) p
        = emit_loop hs new (length old) (match_offsets old hs ?p')
            (map Some ((out @ ?gap) @ new) @ drop (length new) (drop k rest)) (length out + k + length new) ?p'"
      unfolding mo emit_loop.simps Let_def diff_add_inverse cond_add w1 Option.bind_lunit w2 ..
    have fit: "length (replace_pieces old new (drop ?p' hs)) \<le> length (drop (k + length new) rest)"
      using room by simp
    from 1(1) [OF 1(2) Some 1(2) le fit, of "out @ ?gap @ new"] obtain X p' where X:
      "emit_loop hs new (length old) (match_offsets old hs ?p')
         (map Some (out @ ?gap @ new) @ drop (k + length new) rest) (length (out @ ?gap @ new)) ?p'
       = Some (map Some ((out @ ?gap @ new) @ X) @ drop (length X) (drop (k + length new) rest),
               length ((out @ ?gap @ new) @ X), p')"
      "X @ drop p' hs = replace_pieces old new (drop ?p' hs)" "p' \<le> length hs"
      by blast
    have "emit_loop hs new (length old) (match_offsets old hs p) (map Some out @ rest) (length out) p
        = Some (map Some ((out @ ?gap @ new) @ X) @ drop (length X) (drop (k + length new) rest),
               length ((out @ ?gap @ new) @ X), p')"
      using step X(1) gl by (simp add: ac_simps)
    then show ?thesis
      unfolding rp
      by (intro exI [of _ "?gap @ new @ X"] exI [of _ p'])
         (use X(2,3) gl in \<open>simp add: ac_simps\<close>)
  qed
qed

lemma match_offsets_Nil: "old \<noteq> [] \<Longrightarrow> match_offsets old hs 0 = [] \<longleftrightarrow> find_sub old hs = None"
  by (subst match_offsets.simps) (simp split: option.splits)

lemma replace_all_creates [cstr_ops]:
  assumes "holds s c" "\<And>n. al n" "length (replace_pieces old new c) < 2 ^ 64"
  shows "creates (cstr_replace_all al ok1 ok2 s old new)
     (can_create ok1 ok2 (length (replace_pieces old new c))) (replace_pieces old new c)"
proof (cases "old = [] \<or> find_sub old c = None")
  case True
  then have "replace_pieces old new c = c"
    unfolding replace_pieces_def by (subst pieces.simps) auto
  moreover have "cstr_replace_all al ok1 ok2 s old new = clone ok1 ok2 s"
    using True collect_offsets_matches [of old 0 c "[]" 64 al] assms holds_lt_max [OF assms(1)]
    by (auto simp: cstr_replace_all_def cs_text_holds [OF assms(1)] match_offsets_Nil RA_STACK_CAP_def
        CSTR_MAX_LEN_def)
  ultimately show ?thesis
    using clone_creates [OF assms(1), of ok1 ok2] by simp
next
  case False
  then have ne: "old \<noteq> []" by simp
  let ?offs = "match_offsets old c 0" and ?r = "replace_pieces old new c"
  have coll: "collect_offsets al c old 0 64 [] = Some ?offs"
    using collect_offsets_matches [of old 0 c "[]" 64 al] ne assms(2) holds_lt_max [OF assms(1)]
    by (auto simp: CSTR_MAX_LEN_def)
  have len: "length ?r + length ?offs * length old = length c + length ?offs * length new"
    using length_replace_pieces [OF ne, of 0 c new] by simp
  have "(if length new \<ge> length old then length c + length ?offs * (length new - length old)
       else length c - length ?offs * (length old - length new)) = length ?r"
    using len by (auto simp: diff_mult_distrib2 not_le)
  then have rl: "(if length new \<ge> length old then (length c + length ?offs * (length new - length old)) mod 2 ^ 64
       else length c - length ?offs * (length old - length new)) = length ?r"
    using assms(3) by (auto split: if_splits)
  have offs: "length ?offs \<noteq> 0" using match_offsets_Nil [OF ne] False by auto
  have eq: "cstr_replace_all al ok1 ok2 s old new = do {
      r \<leftarrow> cstr_init ok1 ok2 (length ?r);
      case r of None \<Rightarrow> Some None
      | Some r \<Rightarrow> do {
          (b, w, p) \<leftarrow> emit_loop c new (length old) ?offs (cs_data r) 0 0;
          let tail = length c - p;
          b \<leftarrow> (if tail \<noteq> 0 then mem_write b w (take tail (drop p c)) else Some b);
          let w = (if tail \<noteq> 0 then w + tail else w);
          b \<leftarrow> wr b w 0;
          Some (Some ((set_data b r)\<lparr>cs_length := w mod 2 ^ 32\<rparr>)) } }"
    unfolding cstr_replace_all_def cs_text_holds [OF assms(1)] RA_STACK_CAP_def Let_def
    using ne offs by (simp only: coll option.case rl Option.bind_lunit length_0_conv if_False)
  show ?thesis
  proof (cases "can_create ok1 ok2 (length ?r)")
    case True
    with init_creates [of ok1 ok2 "length ?r"] obtain u where u:
      "cstr_init ok1 ok2 (length ?r) = Some (Some u)" "holds u []" "length ?r < length (cs_data u)"
      by auto
    have lt: "length ?r < CSTR_MAX_LEN" using True by (simp add: can_create_def)
    have fit: "length (replace_pieces old new (drop 0 c)) \<le> length (cs_data u)"
      using u(3) by simp
    from emit_loop_run [OF ne le0 fit, of "[]"] obtain X p' where X:
      "emit_loop c new (length old) ?offs (cs_data u) 0 0
         = Some (map Some X @ drop (length X) (cs_data u), length X, p')"
      "X @ drop p' c = ?r" "p' \<le> length c" by auto
    let ?tl = "length c - p'"
    have xl: "length ?r = length X + ?tl" using arg_cong [OF X(2), of length] by simp
    have "(if ?tl \<noteq> 0 then mem_write (map Some X @ drop (length X) (cs_data u)) (length X) (take ?tl (drop p' c))
        else Some (map Some X @ drop (length X) (cs_data u)))
      = Some (map Some ?r @ drop (length ?r) (cs_data u))"
    proof (cases "?tl = 0")
      case True
      then have "X = ?r" using X(2) by simp
      with True show ?thesis by simp
    next
      case False
      have "mem_write (map Some X @ drop (length X) (cs_data u)) (length X) (drop p' c)
          = Some (map Some (X @ drop p' c) @ drop (length (drop p' c)) (drop (length X) (cs_data u)))"
        by (rule fill_write) (use u(3) xl in simp)
      with False X(2) xl show ?thesis by (simp add: ac_simps)
    qed
    moreover have "(if ?tl \<noteq> 0 then length X + ?tl else length X) = length ?r"
      using xl by simp
    ultimately show ?thesis
      using finish_holds [OF holds_wf [OF u(2)] u(3) lt] u(1) X(1) True
      unfolding eq creates_def by (auto simp: Let_def)
  next
    case False
    then show ?thesis
      using init_creates [of ok1 ok2 "length ?r"] by (simp add: creates_def eq)
  qed
qed

section \<open>Split and join\<close>

lemma split_loop_pieces:
  assumes "d \<noteq> []" "start \<le> length hs" "length hs < CSTR_MAX_LEN" "list_all2 holds toks cs"
  shows "(\<exists>toks'. split_loop al al' gr hs d start cap toks = Some (Some toks') \<and>
            list_all2 holds toks' (cs @ pieces d (drop start hs))) \<or>
     split_loop al al' gr hs d start cap toks = Some None \<and> (\<exists>n. \<not> al n \<or> \<not> al' n \<or> \<not> gr n)"
  using assms
proof (induction al al' gr hs d start cap toks arbitrary: cs rule: split_loop.induct)
  case (1 al al' gr hs d start cap toks)
  let ?n = "length toks"
  define found where "found = find_sub d (drop start hs)"
  define tok where "tok = (case found of None \<Rightarrow> drop start hs | Some k \<Rightarrow> take k (drop start hs))"
  define cap' where "cap' = (if cap \<le> ?n then cap * 2 else cap)"
  have te: "(case found of None \<Rightarrow> length hs | Some k \<Rightarrow> start + k) - start = length tok"
    using find_sub_drop_le [OF 1(2), of start hs]
    by (fastforce simp: tok_def found_def split: option.splits)
  have tk: "take (length tok) (drop start hs) = tok"
    by (auto simp: tok_def min_def split: option.splits)
  have lt: "length tok < CSTR_MAX_LEN"
    using 1(4) by (auto simp: tok_def split: option.splits)
  have eq: "split_loop al al' gr hs d start cap toks =
     (if cap \<le> ?n \<and> \<not> gr ?n then Some None
      else do {
        t \<leftarrow> cstr_new_len (al ?n) (al' ?n) (Some tok) (length tok);
        case t of None \<Rightarrow> Some None
        | Some t \<Rightarrow>
            (case found of None \<Rightarrow> Some (Some (toks @ [t]))
             | Some k \<Rightarrow> split_loop al al' gr hs d (start + k + length d) cap' (toks @ [t])) })"
    using 1(2)
    by (subst split_loop.simps)
       (simp add: search_is_find_sub Let_def te tk cap'_def flip: found_def cong: option.case_cong if_cong)
  show ?case
  proof (cases "cap \<le> ?n \<and> \<not> gr ?n")
    case True
    then show ?thesis by (auto simp: eq)
  next
    case ok: False
    have cr: "creates (cstr_new_len (al ?n) (al' ?n) (Some tok) (length tok))
        (can_create (al ?n) (al' ?n) (length tok)) tok"
      using new_len_creates [of "length tok" tok] lt by (simp add: CSTR_MAX_LEN_def)
    show ?thesis
    proof (cases "can_create (al ?n) (al' ?n) (length tok)")
      case False
      with cr lt have "split_loop al al' gr hs d start cap toks = Some None"
        by (auto simp: eq creates_def)
      moreover have "\<not> al ?n \<or> \<not> al' ?n" using False lt by (auto simp: can_create_def)
      ultimately show ?thesis by blast
    next
      case True
      with cr obtain t where t: "cstr_new_len (al ?n) (al' ?n) (Some tok) (length tok) = Some (Some t)"
        "holds t tok" by (auto simp: creates_def)
      have toks: "list_all2 holds (toks @ [t]) (cs @ [tok])"
        using 1(5) t(2) by (simp add: list_all2_appendI)
      show ?thesis
      proof (cases found)
        case None
        then have "pieces d (drop start hs) = [tok]"
          by (subst pieces.simps) (simp add: found_def tok_def)
        moreover have "split_loop al al' gr hs d start cap toks = Some (Some (toks @ [t]))"
          using ok t(1) None by (auto simp: eq)
        ultimately show ?thesis using toks by simp
      next
        case (Some k)
        have le: "start + k + length d \<le> length hs"
          using find_sub_drop_le [OF 1(2)] Some by (simp add: found_def)
        have tk': "take k (drop start hs) = tok" "length tok = k"
          using Some le by (auto simp: tok_def)
        have pc: "pieces d (drop start hs) = tok # pieces d (drop (start + k + length d) hs)"
          using Some 1(2) by (subst pieces.simps) (simp add: found_def tok_def ac_simps)
        have "split_loop al al' gr hs d start cap toks
            = split_loop al al' gr hs d (start + k + length d) cap' (toks @ [t])"
          using ok t(1) Some by (auto simp: eq)
        moreover have "(\<exists>toks'. split_loop al al' gr hs d (start + k + length d) cap' (toks @ [t]) = Some (Some toks') \<and>
              list_all2 holds toks' ((cs @ [tok]) @ pieces d (drop (start + k + length d) hs))) \<or>
           split_loop al al' gr hs d (start + k + length d) cap' (toks @ [t]) = Some None \<and>
              (\<exists>n. \<not> al n \<or> \<not> al' n \<or> \<not> gr n)"
          using 1(2) Some le 1(4) toks t(1) ok
          by (intro 1(1) [OF refl refl refl])
             (auto simp: search_is_find_sub te tk tk' cap'_def simp flip: found_def)
        ultimately show ?thesis by (simp add: pc)
      qed
    qed
  qed
qed

lemma split_pieces [cstr_ops]:
  assumes "holds s c" "d \<noteq> []"
  shows "(\<exists>toks. cstr_split mem al al' gr s (Some d) = Some (Some toks) \<and>
            list_all2 holds toks (pieces d c)) \<or>
     cstr_split mem al al' gr s (Some d) = Some None \<and>
        (\<not> mem \<or> (\<exists>n. \<not> al n \<or> \<not> al' n \<or> \<not> gr n))"
  using split_loop_pieces [OF assms(2) le0 holds_lt_max [OF assms(1)], of "[]" "[]" al al' gr 8] assms(2)
  by (auto simp: cstr_split_def cs_text_holds [OF assms(1)])

lemma join_total_length:
  assumes "list_all2 holds xs cs" "xs \<noteq> []"
  shows "join_total (length d) (map Some xs) = Some (length (intersperse d cs))"
  using assms
proof (induction xs cs rule: list_all2_induct)
  case (Cons x xs c cs)
  show ?case
  proof (cases xs)
    case Nil
    with Cons(1,2) show ?thesis by (auto simp: holds_length)
  next
    case (Cons y ys)
    then have "cs \<noteq> []" using \<open>list_all2 holds xs cs\<close> by auto
    then show ?thesis
      using Cons.IH Cons holds_length [OF \<open>holds x c\<close>] by (simp add: intersperse_Cons)
  qed
qed simp

lemma join_copy_run:
  assumes "list_all2 holds xs cs" "length (intersperse d cs) \<le> length rest"
  shows "join_copy d xs (map Some out @ rest) (length out)
    = Some (map Some (out @ intersperse d cs) @ drop (length (intersperse d cs)) rest,
            length (out @ intersperse d cs))"
  using assms
proof (induction xs cs arbitrary: out rest rule: list_all2_induct)
  case (Cons x xs c cs)
  define sep where "sep = (if xs \<noteq> [] then d else [])"
  have len: "cs_length x = length c" using Cons(1) by (rule holds_length)
  have ic: "intersperse d (c # cs) = c @ sep @ intersperse d cs"
    using Cons(2) by (cases cs) (auto simp: sep_def intersperse_Cons)
  obtain junk where "cs_data x = map Some c @ Some 0 # junk" using Cons(1) by (rule holds_data)
  then have read: "mem_read (cs_data x) 0 (length c) = Some (map Some c)" by simp
  have w1: "(if length c \<noteq> 0 then mem_write (map Some out @ rest) (length out) c
      else Some (map Some out @ rest)) = Some (map Some (out @ c) @ drop (length c) rest)"
    by (rule cond_write) (use Cons.prems ic in auto)
  have w2: "(if length sep \<noteq> 0 then mem_write (map Some (out @ c) @ drop (length c) rest) (length out + length c) sep
      else Some (map Some (out @ c) @ drop (length c) rest))
      = Some (map Some ((out @ c) @ sep) @ drop (length sep) (drop (length c) rest))"
    by (rule cond_write) (use Cons.prems ic in auto)
  have step: "join_copy d (x # xs) (map Some out @ rest) (length out)
      = join_copy d xs (map Some ((out @ c) @ sep) @ drop (length sep) (drop (length c) rest))
          (length ((out @ c) @ sep))"
    using w1 w2 read by (auto simp: len sep_def mem_write_put_cells add.assoc split: if_splits)
  have "length (intersperse d cs) \<le> length (drop (length sep) (drop (length c) rest))"
    using Cons.prems by (simp add: ic)
  from Cons.IH [OF this, of "(out @ c) @ sep"] show ?case
    unfolding step by (simp add: ic ac_simps)
qed simp

lemma join_creates [cstr_ops]:
  assumes "list_all2 holds xs cs" "length (intersperse d cs) < 2 ^ 64"
  shows "creates (cstr_join ok1 ok2 (Some (map Some xs)) (Some d))
     (can_create ok1 ok2 (length (intersperse d cs))) (intersperse d cs)"
proof (cases "xs = []")
  case True
  with assms(1) show ?thesis
    using new_len_creates [of 0 "[]" ok1 ok2] by (simp add: cstr_join_def)
next
  case False
  let ?r = "intersperse d cs"
  have eq: "cstr_join ok1 ok2 (Some (map Some xs)) (Some d) = do {
      r \<leftarrow> cstr_init ok1 ok2 (length ?r);
      case r of None \<Rightarrow> Some None
      | Some r \<Rightarrow> do {
          (b, pos) \<leftarrow> join_copy d xs (cs_data r) 0;
          b \<leftarrow> wr b pos 0;
          Some (Some ((set_data b r)\<lparr>cs_length := pos mod 2 ^ 32\<rparr>)) } }"
    using False join_total_length [OF assms(1) False, of d] assms(2)
    by (cases xs)
       (simp_all add: cstr_join_def comp_def del: join_total.simps join_copy.simps cong: option.case_cong)
  show ?thesis
  proof (cases "can_create ok1 ok2 (length ?r)")
    case True
    with init_creates [of ok1 ok2 "length ?r"] obtain u where u:
      "cstr_init ok1 ok2 (length ?r) = Some (Some u)" "holds u []" "length ?r < length (cs_data u)"
      by auto
    have lt: "length ?r < CSTR_MAX_LEN" using True by (simp add: can_create_def)
    have "join_copy d xs (cs_data u) 0 = Some (map Some ?r @ drop (length ?r) (cs_data u), length ?r)"
      using join_copy_run [OF assms(1), of d "cs_data u" "[]"] u(3) by simp
    with finish_holds [OF holds_wf [OF u(2)] u(3) lt] u(1) True show ?thesis
      unfolding eq creates_def by auto
  next
    case False
    then show ?thesis
      using init_creates [of ok1 ok2 "length ?r"] by (simp add: creates_def eq)
  qed
qed

section \<open>Comparison\<close>

lemma starts_with_holds:
  assumes "holds s c"
  shows "cstr_starts_with s p = Some (take (length p) c = p)"
proof -
  obtain junk where "cs_data s = map Some c @ Some 0 # junk" using assms by (rule holds_data)
  then show ?thesis
    using holds_length [OF assms]
    by (auto simp: cstr_starts_with_def get_bytes_append dest: arg_cong [where f = length])
qed

lemma ends_with_holds:
  assumes "holds s c"
  shows "cstr_ends_with s p = Some (\<exists>u. c = u @ p)"
proof -
  obtain junk where d: "cs_data s = map Some c @ Some 0 # junk" using assms by (rule holds_data)
  have "drop (length c - length p) c = p \<longleftrightarrow> (\<exists>u. c = u @ p)" if "length p \<le> length c"
    by (metis append_eq_conv_conj append_take_drop_id diff_diff_cancel length_append add_diff_cancel_right' that)
  moreover have "get_bytes (cs_data s) (length c - length p) (length p)
      = Some (drop (length c - length p) c)" if "length p \<le> length c"
    using that get_bytes_append [of "length c - length p" "length p" c] by (simp add: d)
  ultimately show ?thesis
    using holds_length [OF assms] by (auto simp: cstr_ends_with_def)
qed

lemma equals_holds:
  assumes "holds s c" "holds t d"
  shows "cstr_equals False (Some s) (Some t) = Some (c = d)"
proof -
  obtain j1 j2 where "cs_data s = map Some c @ Some 0 # j1" "cs_data t = map Some d @ Some 0 # j2"
    using assms by (meson holds_data)
  then show ?thesis
    using holds_length [OF assms(1)] holds_length [OF assms(2)]
    by (auto simp: cstr_equals_def get_bytes_append)
qed

end
