(* ===== verification/Cstr_Inplace.thy ===== *)
theory Cstr_Inplace
  imports Cstr_Search
begin

text \<open>
  The operations of \<^verbatim>\<open>src/cstr.c\<close> that rewrite a string in place, byte by byte: removal by
  compaction with a read and a write cursor, the case conversions, the right-to-left
  expansion to snake case, trimming, and reversal.  Every load and store is a cell access
  of the block, so running over the end or reading an unwritten byte is \<open>None\<close>.
\<close>

section \<open>Removal by compaction\<close>

text \<open>
  \<open>r\<close> and \<open>w\<close> are the read and write cursors, \<open>e\<close> the end; the callers exclude the empty
  pattern, on which the loop would not advance.
\<close>

function remove_all_loop ::
    "bytes \<Rightarrow> buffer \<Rightarrow> nat \<Rightarrow> nat \<Rightarrow> nat \<Rightarrow> nat \<Rightarrow> (buffer \<times> nat \<times> nat) option" where
  "remove_all_loop sub b r w e cnt =
     (if r < e \<and> sub \<noteq> []
      then do {
        hit \<leftarrow> (if e - r \<ge> length sub
               then do { x \<leftarrow> get_bytes b r (length sub); Some (x = sub) } else Some False);
        if hit then remove_all_loop sub b (r + length sub) w e (cnt + 1)
        else do {
          x \<leftarrow> rd b r;
          b \<leftarrow> wr b w x;
          remove_all_loop sub b (r + 1) (w + 1) e cnt
        }
      }
      else Some (b, w, cnt))"
  by auto
termination
  by (relation "measure (\<lambda>(sub, b, r, w, e, cnt). e - r)")
     (auto intro: diff_less_mono2 simp flip: length_greater_0_conv)

declare remove_all_loop.simps [simp del]

definition cstr_remove_all :: "cstr \<Rightarrow> bytes \<Rightarrow> (nat \<times> cstr) option" where
  "cstr_remove_all s sub =
     (if sub = [] then Some (0, s)
      else do {
        (b, w, cnt) \<leftarrow> remove_all_loop sub (cs_data s) 0 0 (cs_length s) 0;
        b \<leftarrow> wr b w 0;
        Some (cnt, (set_data b s)\<lparr>cs_length := w\<rparr>)
      })"

definition cstr_remove_all_cstr :: "cstr \<Rightarrow> operand \<Rightarrow> (nat \<times> cstr) option" where
  "cstr_remove_all_cstr s a =
     (if cs_length (operand_of s a) = 0 then Some (0, s)
      else do {
        sub \<leftarrow> cs_text (operand_of s a);
        (b, w, cnt) \<leftarrow> remove_all_loop sub (cs_data s) 0 0 (cs_length s) 0;
        b \<leftarrow> wr b w 0;
        Some (cnt, (set_data b s)\<lparr>cs_length := w\<rparr>)
      })"

function remove_char_loop :: "u8 \<Rightarrow> buffer \<Rightarrow> nat \<Rightarrow> nat \<Rightarrow> nat \<Rightarrow> (buffer \<times> nat) option" where
  "remove_char_loop c b r w e =
     (if r < e
      then do {
        x \<leftarrow> rd b r;
        if x \<noteq> c
        then do { b \<leftarrow> wr b w x; remove_char_loop c b (r + 1) (w + 1) e }
        else remove_char_loop c b (r + 1) w e
      }
      else Some (b, w))"
  by auto
termination by (relation "measure (\<lambda>(c, b, r, w, e). e - r)") auto

declare remove_char_loop.simps [simp del]

definition cstr_remove_char :: "cstr \<Rightarrow> u8 \<Rightarrow> cstr option" where
  "cstr_remove_char s c =
     do {
       (b, w) \<leftarrow> remove_char_loop c (cs_data s) 0 0 (cs_length s);
       b \<leftarrow> wr b w 0;
       Some ((set_data b s)\<lparr>cs_length := w\<rparr>)
     }"

section \<open>Case conversion\<close>

text \<open>
  The range test \<^verbatim>\<open>(unsigned)(c - 'A') <= 25u\<close>: the difference is an \<^verbatim>\<open>int\<close>, made unsigned.
\<close>

definition in_alphabet :: "u32 \<Rightarrow> u8 \<Rightarrow> bool" where
  "in_alphabet a c \<longleftrightarrow> (ucast c - a :: u32) \<le> 25"

function lower_loop :: "buffer \<Rightarrow> nat \<Rightarrow> nat \<Rightarrow> buffer option" where
  "lower_loop b i n =
     (if i < n
      then do {
        c \<leftarrow> rd b i;
        b \<leftarrow> (if in_alphabet 65 c then wr b i (c OR 0x20) else Some b);
        lower_loop b (i + 1) n
      }
      else Some b)"
  by auto
termination by (relation "measure (\<lambda>(b, i, n). n - i)") auto

function upper_loop :: "buffer \<Rightarrow> nat \<Rightarrow> nat \<Rightarrow> buffer option" where
  "upper_loop b i n =
     (if i < n
      then do {
        c \<leftarrow> rd b i;
        b \<leftarrow> (if in_alphabet 97 c then wr b i (c AND NOT 0x20) else Some b);
        upper_loop b (i + 1) n
      }
      else Some b)"
  by auto
termination by (relation "measure (\<lambda>(b, i, n). n - i)") auto

declare lower_loop.simps [simp del] upper_loop.simps [simp del]

definition cstr_lower :: "cstr \<Rightarrow> cstr option" where
  "cstr_lower s = do { b \<leftarrow> lower_loop (cs_data s) 0 (cs_length s); Some (set_data b s) }"

definition cstr_upper :: "cstr \<Rightarrow> cstr option" where
  "cstr_upper s = do { b \<leftarrow> upper_loop (cs_data s) 0 (cs_length s); Some (set_data b s) }"

text \<open>Counting the capitals from index 1 on.\<close>

function count_capitals :: "buffer \<Rightarrow> nat \<Rightarrow> nat \<Rightarrow> nat \<Rightarrow> nat option" where
  "count_capitals b i n extra =
     (if i < n
      then do { c \<leftarrow> rd b i; count_capitals b (i + 1) n (if in_alphabet 65 c then extra + 1 else extra) }
      else Some extra)"
  by auto
termination by (relation "measure (\<lambda>(b, i, n, extra). n - i)") auto

declare count_capitals.simps [simp del]

text \<open>The store \<^verbatim>\<open>*w-- = v\<close>, where \<open>w\<close> is one past the pointer.\<close>

definition wr_before :: "buffer \<Rightarrow> nat \<Rightarrow> u8 \<Rightarrow> buffer option" where
  "wr_before b w v = (if w = 0 then None else wr b (w - 1) v)"

text \<open>The expansion from the right: \<open>i\<close> source bytes are left, \<open>w\<close> is one past the write pointer.\<close>

fun snake_loop :: "buffer \<Rightarrow> nat \<Rightarrow> nat \<Rightarrow> buffer option" where
  "snake_loop b 0 w = Some b"
| "snake_loop b (Suc i) w =
     do {
       c \<leftarrow> rd b i;
       if i > 0 \<and> in_alphabet 65 c
       then do {
         b \<leftarrow> wr_before b w (c OR 0x20);
         b \<leftarrow> wr_before b (w - 1) 95;
         snake_loop b i (w - 2)
       }
       else do {
         b \<leftarrow> wr_before b w (if in_alphabet 65 c then c OR 0x20 else c);
         snake_loop b i (w - 1)
       }
     }"

definition cstr_snakecase :: "bool \<Rightarrow> cstr \<Rightarrow> (bool \<times> cstr) option" where
  "cstr_snakecase ok s =
     (if cs_length s = 0 then Some (True, s)
      else do {
        extra \<leftarrow> count_capitals (cs_data s) 1 (cs_length s) 0;
        if extra = 0 then do { s \<leftarrow> cstr_lower s; Some (True, s) }
        else let orig = cs_length s; new_len = add32 orig extra
        in do {
          (done, s) \<leftarrow> cstr_ensure_cap ok (add32 new_len 1) s;
          if \<not> done then Some (False, s)
          else do {
            b \<leftarrow> wr (cs_data s) new_len 0;
            b \<leftarrow> snake_loop b orig new_len;
            with_data b new_len s
          }
        }
      })"

definition is_sep :: "u8 \<Rightarrow> bool" where
  "is_sep c \<longleftrightarrow> c = 95 \<or> isspace c"

text \<open>\<open>skip_while P b i n\<close>: \<^verbatim>\<open>while (i < n && P(d[i])) i++\<close>.\<close>

function skip_while :: "(u8 \<Rightarrow> bool) \<Rightarrow> buffer \<Rightarrow> nat \<Rightarrow> nat \<Rightarrow> nat option" where
  "skip_while P b i n =
     (if i < n then do { c \<leftarrow> rd b i; if P c then skip_while P b (i + 1) n else Some i } else Some i)"
  by auto
termination by (relation "measure (\<lambda>(P, b, i, n). n - i)") auto

declare skip_while.simps [simp del]

text \<open>The word loop of \<^verbatim>\<open>cstr_camelcase\<close> and \<^verbatim>\<open>cstr_pascalcase\<close>; \<open>cap\<close>: the next letter is a capital.\<close>

function word_loop :: "buffer \<Rightarrow> nat \<Rightarrow> nat \<Rightarrow> nat \<Rightarrow> bool \<Rightarrow> (buffer \<times> nat) option" where
  "word_loop b r w len cap =
     (if r < len
      then do {
        c \<leftarrow> rd b r;
        if is_sep c then word_loop b (r + 1) w len True
        else do {
          b \<leftarrow> wr b w (if cap then toupper c else tolower c);
          word_loop b (r + 1) (w + 1) len False
        }
      }
      else Some (b, w))"
  by auto
termination by (relation "measure (\<lambda>(b, r, w, len, cap). len - r)") auto

declare word_loop.simps [simp del]

definition cstr_camelcase :: "cstr \<Rightarrow> cstr option" where
  "cstr_camelcase s =
     (let len = cs_length s
      in if len = 0 then Some s
         else do {
           r \<leftarrow> skip_while is_sep (cs_data s) 0 len;
           (b, r, w) \<leftarrow>
             (if r < len
              then do {
                c \<leftarrow> rd (cs_data s) r;
                b \<leftarrow> wr (cs_data s) 0 (if in_alphabet 65 c then c OR 0x20 else c);
                Some (b, r + 1, 1)
              }
              else Some (cs_data s, r, 0));
           (b, w) \<leftarrow> word_loop b r w len False;
           b \<leftarrow> wr b w 0;
           Some ((set_data b s)\<lparr>cs_length := w\<rparr>)
         })"

definition cstr_pascalcase :: "cstr \<Rightarrow> cstr option" where
  "cstr_pascalcase s =
     (let len = cs_length s
      in if len = 0 then Some s
         else do {
           r \<leftarrow> skip_while is_sep (cs_data s) 0 len;
           (b, w) \<leftarrow> word_loop (cs_data s) r 0 len True;
           b \<leftarrow> wr b w 0;
           Some ((set_data b s)\<lparr>cs_length := w\<rparr>)
         })"

function title_loop :: "buffer \<Rightarrow> nat \<Rightarrow> nat \<Rightarrow> bool \<Rightarrow> buffer option" where
  "title_loop b i len cap =
     (if i < len
      then do {
        c \<leftarrow> rd b i;
        if isspace c then title_loop b (i + 1) len True
        else if cap then do { b \<leftarrow> wr b i (toupper c); title_loop b (i + 1) len False }
        else do { b \<leftarrow> wr b i (tolower c); title_loop b (i + 1) len cap }
      }
      else Some b)"
  by auto
termination by (relation "measure (\<lambda>(b, i, len, cap). len - i)") auto

declare title_loop.simps [simp del]

definition cstr_titlecase :: "cstr \<Rightarrow> cstr option" where
  "cstr_titlecase s = do { b \<leftarrow> title_loop (cs_data s) 0 (cs_length s) True; Some (set_data b s) }"

section \<open>Trimming\<close>

text \<open>\<open>back_while P b low i\<close>: \<^verbatim>\<open>while (i > low && P(d[i])) i--\<close>.\<close>

fun back_while :: "(u8 \<Rightarrow> bool) \<Rightarrow> buffer \<Rightarrow> nat \<Rightarrow> nat \<Rightarrow> nat option" where
  "back_while P b low 0 = Some 0"
| "back_while P b low (Suc i) =
     (if Suc i > low
      then do { c \<leftarrow> rd b (Suc i); if P c then back_while P b low i else Some (Suc i) }
      else Some (Suc i))"

definition cstr_trim :: "cstr \<Rightarrow> cstr option" where
  "cstr_trim s =
     (let len = cs_length s; d = cs_data s
      in if len = 0 then Some s
         else do {
           start \<leftarrow> skip_while isspace d 0 len;
           e \<leftarrow> back_while isspace d start (len - 1);
           let new_len = (if start > e then 0 else e - start + 1);
           b \<leftarrow> (if new_len \<noteq> 0 \<and> start \<noteq> 0 then mem_move d 0 start new_len else Some d);
           b \<leftarrow> wr b new_len 0;
           Some ((set_data b s)\<lparr>cs_length := new_len\<rparr>)
         })"

text \<open>\<^verbatim>\<open>while (e > 0 && isspace(d[e - 1])) e--\<close>.\<close>

fun rtrim_loop :: "buffer \<Rightarrow> nat \<Rightarrow> nat option" where
  "rtrim_loop b 0 = Some 0"
| "rtrim_loop b (Suc e) = do { c \<leftarrow> rd b e; if isspace c then rtrim_loop b e else Some (Suc e) }"

definition cstr_rtrim :: "cstr \<Rightarrow> cstr option" where
  "cstr_rtrim s =
     (if cs_length s = 0 then Some s
      else do {
        e \<leftarrow> rtrim_loop (cs_data s) (cs_length s);
        b \<leftarrow> wr (cs_data s) e 0;
        Some ((set_data b s)\<lparr>cs_length := e\<rparr>)
      })"

definition cstr_ltrim :: "cstr \<Rightarrow> cstr option" where
  "cstr_ltrim s =
     (let len = cs_length s
      in if len = 0 then Some s
         else do {
           start \<leftarrow> skip_while isspace (cs_data s) 0 len;
           if start = 0 then Some s
           else do {
             b \<leftarrow> mem_move (cs_data s) 0 start (len - start + 1);
             Some ((set_data b s)\<lparr>cs_length := len - start\<rparr>)
           }
         })"

text \<open>\<^verbatim>\<open>strchr(chars, c)\<close> also finds the terminator: it is non-NULL for a NUL byte.\<close>

definition strchr_found :: "bytes \<Rightarrow> u8 \<Rightarrow> bool" where
  "strchr_found chars c \<longleftrightarrow> c \<in> set chars \<or> c = 0"

definition cstr_trim_chars :: "cstr \<Rightarrow> bytes \<Rightarrow> cstr option" where
  "cstr_trim_chars s chars =
     (let len = cs_length s; d = cs_data s
      in if len = 0 \<or> chars = [] then Some s
         else do {
           start \<leftarrow> skip_while (strchr_found chars) d 0 len;
           if start = len
           then do { b \<leftarrow> wr d 0 0; Some ((set_data b s)\<lparr>cs_length := 0\<rparr>) }
           else do {
             e \<leftarrow> back_while (strchr_found chars) d start (len - 1);
             let new_len = e - start + 1;
             b \<leftarrow> (if start \<noteq> 0 then mem_move d 0 start new_len else Some d);
             b \<leftarrow> wr b new_len 0;
             Some ((set_data b s)\<lparr>cs_length := new_len\<rparr>)
           }
         })"

section \<open>Reversal\<close>

function reverse_loop :: "buffer \<Rightarrow> buffer \<Rightarrow> nat \<Rightarrow> nat \<Rightarrow> buffer option" where
  "reverse_loop src dst i len =
     (if i < len
      then do { c \<leftarrow> rd src (len - 1 - i); dst \<leftarrow> wr dst i c; reverse_loop src dst (i + 1) len }
      else Some dst)"
  by auto
termination by (relation "measure (\<lambda>(src, dst, i, len). len - i)") auto

declare reverse_loop.simps [simp del]

definition cstr_reverse :: "bool \<Rightarrow> bool \<Rightarrow> cstr \<Rightarrow> cstr option option" where
  "cstr_reverse ok1 ok2 s =
     do {
       r \<leftarrow> cstr_init ok1 ok2 (cs_length s);
       case r of None \<Rightarrow> Some None
       | Some r \<Rightarrow> do {
           b \<leftarrow> reverse_loop (cs_data s) (cs_data r) 0 (cs_length s);
           b \<leftarrow> wr b (cs_length s) 0;
           Some (Some ((set_data b r)\<lparr>cs_length := cs_length s\<rparr>))
         }
     }"

function swap_loop :: "buffer \<Rightarrow> nat \<Rightarrow> nat \<Rightarrow> buffer option" where
  "swap_loop b i j =
     (if i < j
      then do {
        t \<leftarrow> rd b i;
        u \<leftarrow> rd b j;
        b \<leftarrow> wr b i u;
        b \<leftarrow> wr b j t;
        swap_loop b (i + 1) (j - 1)
      }
      else Some b)"
  by auto
termination by (relation "measure (\<lambda>(b, i, j). j - i)") auto

declare swap_loop.simps [simp del]

definition cstr_reverse_inplace :: "cstr \<Rightarrow> cstr option" where
  "cstr_reverse_inplace s =
     (if cs_length s < 2 then Some s
      else do { b \<leftarrow> swap_loop (cs_data s) 0 (cs_length s - 1); Some (set_data b s) })"

section \<open>Compaction is correct\<close>

lemma finish_compact:
  assumes "length g = n"
  obtains z where "length z = n + length junk"
    "wr (map Some p @ g @ Some 0 # junk) (length p) 0 = Some (map Some p @ Some 0 # z)"
proof -
  obtain g' where g': "length g' = length g"
    "wr (map Some p @ g @ Some 0 # junk) (length p) 0 = Some (map Some (p @ [0]) @ g' @ junk)"
    by (rule compact_step)
  then show ?thesis using that [of "g' @ junk"] assms by simp
qed

text \<open>Every compaction loop ends with the terminator written at the write cursor.\<close>

lemma compact_holds:
  assumes "holds s c" "b = map Some p @ g @ Some 0 # junk" "length b = length (cs_data s)"
  shows "\<exists>b'. wr b (length p) 0 = Some b' \<and> holds ((set_data b' s)\<lparr>cs_length := length p\<rparr>) p"
proof -
  obtain z where z: "length z = length g + length junk"
    "wr b (length p) 0 = Some (map Some p @ Some 0 # z)"
    unfolding assms(2) by (rule finish_compact [OF refl])
  then have "length (map Some p @ Some 0 # z) = length (cs_data s)"
    using assms(3) by (simp add: assms(2))
  then show ?thesis
    using z(2) holds_update [OF holds_wf [OF assms(1)] _ refl refl] by blast
qed

lemma replace_pieces_Cons:
  assumes "sub \<noteq> []" "take (length sub) (x # q) \<noteq> sub"
  shows "replace_pieces sub [] (x # q) = x # replace_pieces sub [] q"
    and "length (pieces sub (x # q)) = length (pieces sub q)"
proof -
  have f: "find_sub sub (x # q) = map_option Suc (find_sub sub q)" using assms(2) by simp
  have "replace_pieces sub [] (x # q) = x # replace_pieces sub [] q \<and>
      length (pieces sub (x # q)) = length (pieces sub q)"
    unfolding replace_pieces_def using assms
    by (subst (1 2 3 4) pieces.simps) (auto simp: f intersperse_Cons split: option.split)
  then show "replace_pieces sub [] (x # q) = x # replace_pieces sub [] q"
    and "length (pieces sub (x # q)) = length (pieces sub q)" by auto
qed

lemma replace_pieces_hit:
  assumes "sub \<noteq> []"
  shows "replace_pieces sub [] (sub @ q) = replace_pieces sub [] q"
    and "length (pieces sub (sub @ q)) = Suc (length (pieces sub q))"
proof -
  obtain x xs where sub: "sub = x # xs" using assms by (cases sub) auto
  then have "pieces sub (sub @ q) = [] # pieces sub q"
    by (subst pieces.simps) simp
  then show "replace_pieces sub [] (sub @ q) = replace_pieces sub [] q"
    and "length (pieces sub (sub @ q)) = Suc (length (pieces sub q))"
    by (auto simp: replace_pieces_def intersperse_Cons)
qed

lemma replace_pieces_empty [simp]:
  "sub \<noteq> [] \<Longrightarrow> replace_pieces sub new [] = []" "sub \<noteq> [] \<Longrightarrow> pieces sub [] = [[]]"
  unfolding replace_pieces_def by (subst pieces.simps, simp)+

lemma remove_all_loop_run:
  assumes "sub \<noteq> []" "b = map Some p @ g @ map Some q @ z" "w = length p"
    "r = length p + length g" "e = r + length q"
  shows "\<exists>g'. remove_all_loop sub b r w e cnt
      = Some (map Some (p @ replace_pieces sub [] q) @ g' @ z, length (p @ replace_pieces sub [] q),
              cnt + length (pieces sub q) - 1) \<and>
    length (p @ replace_pieces sub [] q) + length g' = e"
  using assms
proof (induction "length q" arbitrary: b p g q w r cnt rule: less_induct)
  case less
  note eq = remove_all_loop.simps [of sub b r w e cnt]
  show ?case
  proof (cases "take (length sub) q = sub")
    case True
    then obtain q' where q: "q = sub @ q'" by (metis append_take_drop_id)
    have pos: "0 < length sub" using less.prems(1) by simp
    have b: "b = map Some p @ (g @ map Some sub) @ map Some q' @ z"
      by (simp add: less.prems(2) q)
    have gb: "get_bytes b r (length sub) = Some sub"
    proof -
      have "take (length sub) (drop r b) = map Some sub"
        using less.prems(2,4) by (simp add: q)
      moreover have "r + length sub \<le> length b" using less.prems(2,4) by (simp add: q)
      ultimately show ?thesis by (simp add: get_bytes_def comp_def)
    qed
    have "remove_all_loop sub b r w e cnt = remove_all_loop sub b (r + length sub) w e (cnt + 1)"
      unfolding eq using gb pos less.prems(1,5) by (simp add: q)
    moreover have "length q' < length q" using pos by (simp add: q)
    note less.hyps [OF this less.prems(1) b less.prems(3), of "r + length sub" "cnt + 1"]
    ultimately show ?thesis
      using less.prems(4,5) replace_pieces_hit [OF less.prems(1), of q'] by (simp add: q)
  next
    case False
    show ?thesis
    proof (cases q)
      case Nil
      with less.prems show ?thesis unfolding eq by (auto intro: exI [of _ g])
    next
      case (Cons x q')
      have hit: "(if e - r \<ge> length sub
          then do { y \<leftarrow> get_bytes b r (length sub); Some (y = sub) } else Some False) = Some False"
      proof (cases "length sub \<le> length q")
        case True
        have tk: "take (length sub) (drop r b) = map Some (take (length sub) q)"
          using True less.prems(2,4) by (simp add: take_map)
        then have "get_bytes b r (length sub) = Some (take (length sub) q)"
          using True less.prems(2,4) by (simp add: get_bytes_def comp_def)
        with False less.prems(5) True show ?thesis by simp
      qed (use less.prems(5) in simp)
      obtain g' where g': "length g' = length g"
        "wr (map Some p @ g @ Some x # (map Some q' @ z)) (length p) x
          = Some (map Some (p @ [x]) @ g' @ map Some q' @ z)"
        by (rule compact_step)
      have acc: "rd b r = Some x" "wr b w x = Some (map Some (p @ [x]) @ g' @ map Some q' @ z)"
        using less.prems(2,3,4) g'(2) by (auto simp: Cons)
      have cond: "r < e \<and> sub \<noteq> []" using less.prems by (simp add: Cons)
      have step: "remove_all_loop sub b r w e cnt
          = remove_all_loop sub (map Some (p @ [x]) @ g' @ map Some q' @ z) (r + 1) (w + 1) e cnt"
        unfolding eq if_P [OF cond] hit by (simp add: acc)
      have *: "length q' < length q" "w + 1 = length (p @ [x])"
        "r + 1 = length (p @ [x]) + length g'" "e = r + 1 + length q'"
        using less.prems g'(1) by (auto simp: Cons)
      have "take (length sub) (x # q') \<noteq> sub" using False by (simp add: Cons)
      note rp = replace_pieces_Cons [OF less.prems(1) this]
      from less.hyps [OF *(1) less.prems(1) refl *(2,3,4), of cnt] show ?thesis
        by (simp add: step Cons rp)
    qed
  qed
qed

lemma remove_all_holds [cstr_ops]:
  assumes "holds s c" "sub \<noteq> []"
  shows "\<exists>s'. cstr_remove_all s sub = Some (length (pieces sub c) - 1, s') \<and>
    holds s' (replace_pieces sub [] c)"
proof -
  obtain junk where d: "cs_data s = map Some c @ Some 0 # junk"
    using assms(1) by (rule holds_data)
  let ?r = "replace_pieces sub [] c"
  from remove_all_loop_run [OF assms(2), of "cs_data s" "[]" "[]" c "Some 0 # junk" 0 0 "length c" 0]
  obtain g' where g': "remove_all_loop sub (cs_data s) 0 0 (length c) 0
      = Some (map Some ?r @ g' @ Some 0 # junk, length ?r, length (pieces sub c) - 1)"
    "length ?r + length g' = length c"
    by (auto simp: d)
  then show ?thesis
    using compact_holds [OF assms(1) refl, of ?r g' junk] assms(2)
    by (auto simp: cstr_remove_all_def holds_length [OF assms(1)] d)
qed

lemma remove_char_loop_run:
  assumes "b = map Some p @ g @ map Some q @ z" "w = length p" "r = length p + length g"
    "e = r + length q"
  shows "\<exists>g'. remove_char_loop c b r w e
      = Some (map Some (p @ filter (\<lambda>x. x \<noteq> c) q) @ g' @ z, length (p @ filter (\<lambda>x. x \<noteq> c) q)) \<and>
    length (p @ filter (\<lambda>x. x \<noteq> c) q) + length g' = e"
  using assms
proof (induction q arbitrary: b p g w r)
  case Nil
  then show ?case by (simp add: remove_char_loop.simps exI [of _ g])
next
  case (Cons x q)
  have rd: "rd b r = Some x" "r < e" using Cons.prems by auto
  show ?case
  proof (cases "x = c")
    case True
    have b: "b = map Some p @ (g @ [Some x]) @ map Some q @ z"
      using Cons.prems by simp
    from Cons.IH [OF b Cons.prems(2), of "r + 1"] Cons.prems rd True show ?thesis
      by (subst remove_char_loop.simps) simp
  next
    case False
    obtain g' where g': "length g' = length g"
      "wr (map Some p @ g @ Some x # (map Some q @ z)) (length p) x
        = Some (map Some (p @ [x]) @ g' @ map Some q @ z)"
      by (rule compact_step)
    from Cons.IH [of _ "p @ [x]" g' "w + 1" "r + 1"] Cons.prems rd False g' show ?thesis
      by (subst remove_char_loop.simps) simp
  qed
qed

lemma remove_char_holds [cstr_ops]:
  assumes "holds s c"
  shows "\<exists>s'. cstr_remove_char s x = Some s' \<and> holds s' (filter (\<lambda>y. y \<noteq> x) c)"
proof -
  obtain junk where d: "cs_data s = map Some c @ Some 0 # junk"
    using assms by (rule holds_data)
  let ?r = "filter (\<lambda>y. y \<noteq> x) c"
  from remove_char_loop_run [of "cs_data s" "[]" "[]" c "Some 0 # junk" 0 0 "length c" x]
  obtain g' where "remove_char_loop x (cs_data s) 0 0 (length c)
      = Some (map Some ?r @ g' @ Some 0 # junk, length ?r)" "length ?r + length g' = length c"
    by (auto simp: d)
  then show ?thesis
    using compact_holds [OF assms refl, of ?r g' junk]
    by (auto simp: cstr_remove_char_def holds_length [OF assms] d)
qed

section \<open>Case conversion is correct\<close>

lemma in_alphabet_upper: "in_alphabet 65 c = is_upper c"
  by (rule exhaust_u8) code_simp

lemma in_alphabet_lower: "in_alphabet 97 c = is_lower c"
  by (rule exhaust_u8) code_simp

lemma or_20: "is_upper c \<Longrightarrow> c OR 0x20 = tolower c"
proof -
  have "is_upper c \<longrightarrow> c OR 0x20 = tolower c" by (rule exhaust_u8) code_simp
  then show "is_upper c \<Longrightarrow> c OR 0x20 = tolower c" by simp
qed

lemma and_not_20: "is_lower c \<Longrightarrow> c AND - 33 = toupper c"
proof -
  have "is_lower c \<longrightarrow> c AND - 33 = toupper c" by (rule exhaust_u8) code_simp
  then show "is_lower c \<Longrightarrow> c AND - 33 = toupper c" by simp
qed

lemma tolower_id: "\<not> is_upper c \<Longrightarrow> tolower c = c"
  by (simp add: tolower_def)

lemma toupper_id: "\<not> is_lower c \<Longrightarrow> toupper c = c"
  by (simp add: toupper_def)

lemma lower_if: "(if in_alphabet 65 c then c OR 0x20 else c) = tolower c"
  by (simp add: in_alphabet_upper or_20 tolower_id)

lemmas ascii_case = in_alphabet_upper in_alphabet_lower or_20 and_not_20 tolower_id toupper_id

lemma lower_loop_run:
  "lower_loop (map Some p @ map Some q @ z) (length p) (length p + length q)
    = Some (map Some (p @ map tolower q) @ z)"
proof (induction q arbitrary: p)
  case Nil
  then show ?case by (subst lower_loop.simps) simp
next
  case (Cons x q)
  have "lower_loop (map Some (p @ [tolower x]) @ map Some q @ z) (length (p @ [tolower x]))
      (length (p @ [tolower x]) + length q) = Some (map Some ((p @ [tolower x]) @ map tolower q) @ z)"
    by (rule Cons.IH)
  then show ?case by (cases "is_upper x"; subst lower_loop.simps) (simp_all add: ascii_case)
qed

lemma upper_loop_run:
  "upper_loop (map Some p @ map Some q @ z) (length p) (length p + length q)
    = Some (map Some (p @ map toupper q) @ z)"
proof (induction q arbitrary: p)
  case Nil
  then show ?case by (subst upper_loop.simps) simp
next
  case (Cons x q)
  have "upper_loop (map Some (p @ [toupper x]) @ map Some q @ z) (length (p @ [toupper x]))
      (length (p @ [toupper x]) + length q) = Some (map Some ((p @ [toupper x]) @ map toupper q) @ z)"
    by (rule Cons.IH)
  then show ?case by (cases "is_lower x"; subst upper_loop.simps) (simp_all add: ascii_case)
qed

text \<open>The reference functions for words.\<close>

fun title :: "bool \<Rightarrow> bytes \<Rightarrow> bytes" where
  "title cap [] = []"
| "title cap (x # xs) =
     (if isspace x then x # title True xs
      else (if cap then toupper x else tolower x) # title False xs)"

fun words_joined :: "bool \<Rightarrow> bytes \<Rightarrow> bytes" where
  "words_joined cap [] = []"
| "words_joined cap (x # xs) =
     (if is_sep x then words_joined True xs
      else (if cap then toupper x else tolower x) # words_joined False xs)"

definition camel :: "bytes \<Rightarrow> bytes" where
  "camel c = (case dropWhile is_sep c of [] \<Rightarrow> [] | x # xs \<Rightarrow> tolower x # words_joined False xs)"

definition snake_tail :: "bytes \<Rightarrow> bytes" where
  "snake_tail xs = concat (map (\<lambda>x. if is_upper x then [95, tolower x] else [x]) xs)"

definition snake :: "bytes \<Rightarrow> bytes" where
  "snake c = (case c of [] \<Rightarrow> [] | x # xs \<Rightarrow> tolower x # snake_tail xs)"

lemma title_loop_run:
  "title_loop (map Some p @ map Some q @ z) (length p) (length p + length q) cap
    = Some (map Some (p @ title cap q) @ z)"
proof (induction q arbitrary: p cap)
  case Nil
  then show ?case by (subst title_loop.simps) simp
next
  case (Cons x q)
  have "title_loop (map Some (p @ [y]) @ map Some q @ z) (length (p @ [y])) (length (p @ [y]) + length q) cap'
      = Some (map Some ((p @ [y]) @ title cap' q) @ z)" for y cap'
    by (rule Cons.IH)
  from this [of x True] this [of "toupper x" False] this [of "tolower x" False]
  show ?case by (subst title_loop.simps) simp
qed

lemma holds_same_length:
  assumes "holds s c" "b = map Some c' @ Some 0 # junk" "length b = length (cs_data s)"
    "length c' = length c"
  shows "holds (set_data b s) c'"
  using assms by (auto simp: holds_def)

lemma bytewise_holds [cstr_ops]:
  assumes "holds s c"
  shows "\<exists>s'. cstr_lower s = Some s' \<and> holds s' (map tolower c)"
    and "\<exists>s'. cstr_upper s = Some s' \<and> holds s' (map toupper c)"
    and "\<exists>s'. cstr_titlecase s = Some s' \<and> holds s' (title True c)"
proof -
  obtain junk where d: "cs_data s = map Some c @ Some 0 # junk"
    using assms by (rule holds_data)
  have len: "length (title cap c) = length c" for cap
    by (induction c arbitrary: cap) auto
  have *: "holds (set_data (map Some c' @ Some 0 # junk) s) c'" if "length c' = length c" for c'
    by (rule holds_same_length [OF assms refl _ that]) (use that in \<open>simp add: d\<close>)
  show "\<exists>s'. cstr_lower s = Some s' \<and> holds s' (map tolower c)"
    using lower_loop_run [of "[]" c "Some 0 # junk"] * [of "map tolower c"]
    by (simp add: cstr_lower_def d holds_length [OF assms])
  show "\<exists>s'. cstr_upper s = Some s' \<and> holds s' (map toupper c)"
    using upper_loop_run [of "[]" c "Some 0 # junk"] * [of "map toupper c"]
    by (simp add: cstr_upper_def d holds_length [OF assms])
  show "\<exists>s'. cstr_titlecase s = Some s' \<and> holds s' (title True c)"
    using title_loop_run [of "[]" c "Some 0 # junk" True] * len
    by (simp add: cstr_titlecase_def d holds_length [OF assms])
qed

lemma skip_while_run:
  "skip_while P (map Some p @ map Some q @ z) (length p) (length p + length q)
    = Some (length p + length (takeWhile P q))"
proof (induction q arbitrary: p)
  case Nil
  then show ?case by (subst skip_while.simps) simp
next
  case (Cons x q)
  from Cons.IH [of "p @ [x]"] show ?case by (subst skip_while.simps) simp
qed

lemma word_loop_run:
  assumes "b = map Some p @ g @ map Some q @ z" "w = length p" "r = length p + length g"
    "e = r + length q"
  shows "\<exists>g'. word_loop b r w e cap
      = Some (map Some (p @ words_joined cap q) @ g' @ z, length (p @ words_joined cap q)) \<and>
    length (p @ words_joined cap q) + length g' = e"
  using assms
proof (induction q arbitrary: b p g w r cap)
  case Nil
  then show ?case by (subst word_loop.simps) (auto intro: exI [of _ g])
next
  case (Cons x q)
  have rd: "rd b r = Some x" "r < e" using Cons.prems by auto
  show ?case
  proof (cases "is_sep x")
    case True
    have b: "b = map Some p @ (g @ [Some x]) @ map Some q @ z"
      using Cons.prems by simp
    from Cons.IH [OF b Cons.prems(2), of "r + 1" True] Cons.prems rd True show ?thesis
      by (subst word_loop.simps) simp
  next
    case False
    let ?y = "if cap then toupper x else tolower x"
    obtain g' where g': "length g' = length g"
      "wr (map Some p @ g @ Some x # (map Some q @ z)) (length p) ?y
        = Some (map Some (p @ [?y]) @ g' @ map Some q @ z)"
      by (rule compact_step)
    have "wr b w ?y = Some (map Some (p @ [?y]) @ g' @ map Some q @ z)"
      using g'(2) Cons.prems(1,2) by simp
    then have "word_loop b r w e cap
        = word_loop (map Some (p @ [?y]) @ g' @ map Some q @ z) (r + 1) (w + 1) e False"
      using rd False by (subst word_loop.simps) simp
    with Cons.IH [OF refl, of "w + 1" "p @ [?y]" "r + 1" g' False] Cons.prems False g'(1)
    show ?thesis by simp
  qed
qed

lemma words_joined_skip: "words_joined True (dropWhile is_sep c) = words_joined True c"
  by (induction c) auto

lemma takeWhile_split: "c = takeWhile P c @ dropWhile P c" "length c = length (takeWhile P c) + length (dropWhile P c)"
  by (metis takeWhile_dropWhile_id, metis length_append takeWhile_dropWhile_id)

lemma pascalcase_holds [cstr_ops]:
  assumes "holds s c"
  shows "\<exists>s'. cstr_pascalcase s = Some s' \<and> holds s' (words_joined True c)"
proof (cases "c = []")
  case True
  then show ?thesis using assms by (simp add: cstr_pascalcase_def holds_length [OF assms])
next
  case False
  obtain junk where d: "cs_data s = map Some c @ Some 0 # junk"
    using assms by (rule holds_data)
  let ?a = "takeWhile is_sep c" and ?q = "dropWhile is_sep c" and ?r = "words_joined True c"
  have split: "cs_data s = map Some [] @ map Some ?a @ map Some ?q @ Some 0 # junk"
    by (metis append_assoc append_Nil d list.map_disc_iff map_append takeWhile_dropWhile_id)
  from word_loop_run [OF split, of 0 "length ?a" "length c" True] obtain g' where g':
    "word_loop (cs_data s) (length ?a) 0 (length c) True = Some (map Some ?r @ g' @ Some 0 # junk, length ?r)"
    "length ?r + length g' = length c"
    using takeWhile_split(2) [of c is_sep] by (auto simp: words_joined_skip)
  moreover have "skip_while is_sep (cs_data s) 0 (length c) = Some (length ?a)"
    using skip_while_run [of is_sep "[]" c "Some 0 # junk"] by (simp add: d)
  ultimately show ?thesis
    using compact_holds [OF assms refl, of ?r g' junk] False
    by (auto simp: cstr_pascalcase_def holds_length [OF assms] d)
qed

lemma camelcase_holds [cstr_ops]:
  assumes "holds s c"
  shows "\<exists>s'. cstr_camelcase s = Some s' \<and> holds s' (camel c)"
proof (cases "c = []")
  case True
  then show ?thesis using assms by (simp add: cstr_camelcase_def camel_def holds_length [OF assms])
next
  case False
  obtain junk where d: "cs_data s = map Some c @ Some 0 # junk"
    using assms by (rule holds_data)
  let ?a = "takeWhile is_sep c" and ?q = "dropWhile is_sep c"
  have split: "cs_data s = map Some [] @ map Some ?a @ map Some ?q @ Some 0 # junk"
    by (metis append_assoc append_Nil d list.map_disc_iff map_append takeWhile_dropWhile_id)
  have skip: "skip_while is_sep (cs_data s) 0 (length c) = Some (length ?a)"
    using skip_while_run [of is_sep "[]" c "Some 0 # junk"] by (simp add: d)
  have tw: "length c = length ?a + length ?q" by (rule takeWhile_split)
  obtain b r w p g q where b: "(if length ?a < length c
        then do { x \<leftarrow> rd (cs_data s) (length ?a);
                  b \<leftarrow> wr (cs_data s) 0 (if in_alphabet 65 x then x OR 0x20 else x);
                  Some (b, length ?a + 1, 1) }
        else Some (cs_data s, length ?a, 0)) = Some (b, r, w)"
    and b_eq: "b = map Some p @ g @ map Some q @ Some 0 # junk"
    and cur: "w = length p" "r = length p + length g" "length c = r + length q"
    and res: "p @ words_joined False q = camel c"
  proof (cases ?q)
    case Nil
    have no: "\<not> length ?a < length c" unfolding tw by (simp only: Nil) simp
    have d': "cs_data s = map Some [] @ map Some ?a @ map Some [] @ Some 0 # junk"
      using split by (simp only: Nil)
    have l': "length c = length ?a + length ([] :: bytes)" using tw by (simp only: Nil)
    have c': "[] @ words_joined False [] = camel c"
      unfolding camel_def by (simp only: Nil) simp
    show ?thesis
      by (rule that [OF if_not_P [OF no] d' _ _ l' c']) simp_all
  next
    case (Cons x q)
    obtain g' where g': "length g' = length (map Some ?a)"
      "wr (map Some [] @ map Some ?a @ Some x # (map Some q @ Some 0 # junk)) (length ([] :: bytes)) (tolower x)
         = Some (map Some ([] @ [tolower x]) @ g' @ map Some q @ Some 0 # junk)"
      by (rule compact_step)
    have "rd (cs_data s) (length ?a) = Some x" using Cons by (simp add: split)
    with g' Cons tw show ?thesis
      using that [of "map Some [tolower x] @ g' @ map Some q @ Some 0 # junk" "length ?a + 1" 1 "[tolower x]" g' q]
      by (simp add: split camel_def lower_if)
  qed
  from word_loop_run [OF b_eq cur] obtain g' where g':
    "word_loop b r w (length c) False = Some (map Some (camel c) @ g' @ Some 0 # junk, length (camel c))"
    "length (camel c) + length g' = length c"
    using res by (metis append_assoc)
  have "cstr_camelcase s = do { b \<leftarrow> wr (map Some (camel c) @ g' @ Some 0 # junk) (length (camel c)) 0;
      Some ((set_data b s)\<lparr>cs_length := length (camel c)\<rparr>) }"
    unfolding cstr_camelcase_def holds_length [OF assms] Let_def
    using False b g'(1) skip by simp
  then show ?thesis
    using compact_holds [OF assms refl, of "camel c" g' junk] g'(2) by (auto simp: d)
qed

section \<open>The expansion to snake case\<close>

definition capitals :: "bytes \<Rightarrow> nat" where
  "capitals xs = length (filter is_upper xs)"

lemma length_snake_tail: "length (snake_tail xs) = length xs + capitals xs"
  by (induction xs) (auto simp: snake_tail_def capitals_def)

lemma count_capitals_run:
  "count_capitals (map Some p @ map Some q @ z) (length p) (length p + length q) extra
    = Some (extra + capitals q)"
proof (induction q arbitrary: p extra)
  case Nil
  then show ?case by (subst count_capitals.simps) (simp add: capitals_def)
next
  case (Cons x q)
  from Cons.IH [of "p @ [x]"] show ?case
    by (subst count_capitals.simps) (simp add: in_alphabet_upper capitals_def)
qed

text \<open>Writing at the end of a stretch of cells that is free to be overwritten.\<close>

lemma wr_before_end:
  assumes "G \<noteq> []" "w = length A + length G"
  shows "wr_before (A @ G @ z) w v = Some (A @ butlast G @ Some v # z)"
proof -
  obtain G' y where G: "G = G' @ [y]" using assms(1) by (meson rev_exhaust)
  have "wr ((A @ G') @ y # z) (length (A @ G')) v = Some ((A @ G') @ Some v # z)"
    by (rule wr_append_here)
  then show ?thesis using assms(2) by (simp add: G wr_before_def)
qed

lemma snake_loop_run:
  assumes "length gap = capitals q" "w = 1 + length q + length gap"
  shows "snake_loop (map Some (x # q) @ gap @ z) (Suc (length q)) w
    = Some (map Some (tolower x # snake_tail q) @ z)"
  using assms
proof (induction q arbitrary: gap w z rule: rev_induct)
  case Nil
  then have "gap = []" by (simp add: capitals_def)
  moreover have "wr_before (Some x # z) 1 (tolower x) = Some (Some (tolower x) # z)"
    using wr_before_end [of "[Some x]" 1 "[]" z] by simp
  ultimately show ?case
    using Nil.prems by (cases "is_upper x") (simp_all add: snake_tail_def ascii_case)
next
  case (snoc y q)
  let ?A = "map Some (x # q)" and ?G = "Some y # gap"
  have r: "rd (map Some (x # q @ [y]) @ gap @ z) (length (x # q)) = Some y"
    by simp
  have st: "snake_tail (q @ [y]) = snake_tail q @ (if is_upper y then [95, tolower y] else [y])"
    by (simp add: snake_tail_def)
  have b: "map Some (x # q @ [y]) @ gap @ z = ?A @ ?G @ z" by simp
  show ?case
  proof (cases "is_upper y")
    case True
    then have ne: "gap \<noteq> []" "length gap = Suc (capitals q)"
      using snoc.prems(1) by (auto simp: capitals_def)
    then have bl: "butlast ?G \<noteq> []" "length (butlast ?G) = Suc (capitals q)" by auto
    have l2: "length (butlast (butlast ?G)) = capitals q"
      using bl(2) by (metis diff_Suc_1 length_butlast)
    have w1: "wr_before (?A @ ?G @ z) w (tolower y) = Some (?A @ butlast ?G @ Some (tolower y) # z)"
      by (rule wr_before_end) (use snoc.prems(2) in auto)
    have w2: "wr_before (?A @ butlast ?G @ Some (tolower y) # z) (w - 1) 95
        = Some (?A @ butlast (butlast ?G) @ Some 95 # Some (tolower y) # z)"
      by (rule wr_before_end [OF bl(1)]) (use snoc.prems(2) bl(2) ne in auto)
    have "snake_loop (map Some (x # q @ [y]) @ gap @ z) (Suc (length (q @ [y]))) w
        = snake_loop (?A @ butlast (butlast ?G) @ Some 95 # Some (tolower y) # z) (Suc (length q)) (w - 2)"
      using w1 w2 r True unfolding b by (simp add: in_alphabet_upper or_20)
    also have "\<dots> = Some (map Some (tolower x # snake_tail q) @ Some 95 # Some (tolower y) # z)"
      by (rule snoc.IH) (use snoc.prems(2) l2 ne in \<open>simp_all del: butlast.simps\<close>)
    finally show ?thesis using True by (simp add: st)
  next
    case False
    then have ne: "length gap = capitals q"
      using snoc.prems(1) by (auto simp: capitals_def)
    have w1: "wr_before (?A @ ?G @ z) w y = Some (?A @ butlast ?G @ Some y # z)"
      by (rule wr_before_end) (use snoc.prems(2) in auto)
    have "snake_loop (map Some (x # q @ [y]) @ gap @ z) (Suc (length (q @ [y]))) w
        = snake_loop (?A @ butlast ?G @ Some y # z) (Suc (length q)) (w - 1)"
      using w1 r False unfolding b by (simp add: in_alphabet_upper)
    also have "\<dots> = Some (map Some (tolower x # snake_tail q) @ Some y # z)"
      by (rule snoc.IH) (use snoc.prems(2) ne in \<open>simp_all del: butlast.simps\<close>)
    finally show ?thesis using False by (simp add: st)
  qed
qed

lemma snake_lower: "capitals q = 0 \<Longrightarrow> snake_tail q = map tolower q"
  by (induction q) (auto simp: capitals_def snake_tail_def tolower_id split: if_splits)

lemma snakecase_edits [cstr_ops]:
  assumes "holds s c"
  shows "edits (cstr_snakecase ok s) s
     (length (snake c) = length c \<or> room ok s (length (snake c))) (snake c)"
proof (cases c)
  case Nil
  then show ?thesis
    using assms by (simp add: edits_def cstr_snakecase_def holds_length [OF assms] snake_def)
next
  case (Cons x q)
  obtain junk where d: "cs_data s = map Some c @ Some 0 # junk"
    using assms by (rule holds_data)
  have sl: "length (snake c) = length c + capitals q" "snake c = tolower x # snake_tail q"
    by (auto simp: Cons snake_def length_snake_tail)
  have cc: "count_capitals (cs_data s) 1 (length c) 0 = Some (capitals q)"
    using count_capitals_run [of "[x]" q "Some 0 # junk" 0] by (simp add: d Cons)
  show ?thesis
  proof (cases "capitals q = 0")
    case True
    then have "snake c = map tolower c" using sl(2) by (simp add: Cons snake_lower)
    with True show ?thesis
      using bytewise_holds(1) [OF assms] cc Cons sl(1)
      by (auto simp: edits_def cstr_snakecase_def holds_length [OF assms])
  next
    case False
    let ?n = "length c + capitals q"
    have "capitals q \<le> length q" by (simp add: capitals_def)
    then have add: "add32 (length c) (capitals q) = ?n" "add32 ?n 1 = ?n + 1"
      using holds_lt_max [OF assms] by (auto simp: add32_def CSTR_MAX_LEN_def Cons)
    have "edits (do { (done, s) \<leftarrow> cstr_ensure_cap ok (?n + 1) s;
          if \<not> done then Some (False, s)
          else do { b \<leftarrow> wr (cs_data s) ?n 0; b \<leftarrow> snake_loop b (length c) ?n; with_data b ?n s } })
        s (room ok s ?n) (snake c)"
      using assms
    proof (rule edits_grow)
      fix s' junk'
      assume s': "?n < length (cs_data s')" "cs_data s' = map Some c @ Some 0 # junk'"
      define gap where "gap = take (capitals q) (Some (0 :: u8) # junk')"
      have gl: "length gap = capitals q" using s' by (simp add: gap_def)
      obtain y z where yz: "drop (capitals q) (Some 0 # junk') = y # z"
        using s' by (metis Cons_nth_drop_Suc add_less_cancel_left length_append length_map)
      have data: "cs_data s' = (map Some c @ gap) @ y # z"
        unfolding s'(2) gap_def using yz by (metis append_assoc append_take_drop_id)
      have "wr (cs_data s') ?n 0 = Some ((map Some c @ gap) @ Some 0 # z)"
        using wr_append_here [of "map Some c @ gap" y z 0] gl by (simp add: data)
      moreover have "snake_loop ((map Some c @ gap) @ Some 0 # z) (length c) ?n
          = Some (map Some (snake c) @ Some 0 # z)"
        using snake_loop_run [OF gl, of ?n x "Some 0 # z"] gl by (simp add: Cons snake_def del: snake_loop.simps)
      moreover have "length (map Some (snake c) @ Some 0 # z) = length (cs_data s')"
        using gl sl(1) by (simp add: data)
      ultimately show "\<exists>b junk'. do { b \<leftarrow> wr (cs_data s') ?n 0; b \<leftarrow> snake_loop b (length c) ?n;
            with_data b ?n s' } = with_data b (length (snake c)) s' \<and>
          length b = length (cs_data s') \<and> b = map Some (snake c) @ Some 0 # junk'"
        using sl(1) by auto
    qed simp
    moreover have "cstr_snakecase ok s = do { (done, s) \<leftarrow> cstr_ensure_cap ok (?n + 1) s;
          if \<not> done then Some (False, s)
          else do { b \<leftarrow> wr (cs_data s) ?n 0; b \<leftarrow> snake_loop b (length c) ?n; with_data b ?n s } }"
      unfolding cstr_snakecase_def holds_length [OF assms] cc Let_def Option.bind_lunit add
      using False Cons by (simp add: Let_def add cong: if_cong)
    ultimately show ?thesis using sl(1) False by simp
  qed
qed

section \<open>Trimming is correct\<close>

definition trim_end :: "(u8 \<Rightarrow> bool) \<Rightarrow> bytes \<Rightarrow> bytes" where
  "trim_end P c = rev (dropWhile P (rev c))"

lemma trim_end_split:
  assumes "\<not> P y" "\<forall>x\<in>set v. P x"
  shows "trim_end P (u @ y # v) = u @ [y]"
proof -
  have "dropWhile P (rev v @ y # rev u) = dropWhile P (y # rev u)"
    using assms(2) by (intro dropWhile_append2) auto
  then show ?thesis using assms(1) by (simp add: trim_end_def)
qed

lemma trim_end_all: "\<forall>x\<in>set v. P x \<Longrightarrow> trim_end P v = []"
  by (simp add: trim_end_def)

lemma back_while_run:
  assumes "i < length c" "low \<le> i"
  shows "\<exists>e. back_while P (map Some c @ z) low i = Some e \<and> low \<le> e \<and> e \<le> i \<and>
    (\<forall>j. e < j \<and> j \<le> i \<longrightarrow> P (c ! j)) \<and> (low < e \<longrightarrow> \<not> P (c ! e))"
  using assms
proof (induction i)
  case (Suc i)
  show ?case
  proof (cases "Suc i > low \<and> P (c ! Suc i)")
    case True
    then obtain e where e: "back_while P (map Some c @ z) low i = Some e" "low \<le> e" "e \<le> i"
      "\<forall>j. e < j \<and> j \<le> i \<longrightarrow> P (c ! j)" "low < e \<longrightarrow> \<not> P (c ! e)"
      using Suc by auto
    have "\<forall>j. e < j \<and> j \<le> Suc i \<longrightarrow> P (c ! j)"
      using e(4) True by (metis le_Suc_eq)
    with e True Suc.prems show ?thesis by auto
  qed (use Suc.prems in auto)
qed simp

text \<open>Moving the kept part to the front and terminating it.\<close>

lemma keep_holds:
  assumes "holds s c" "start + n \<le> length c"
  shows "\<exists>b b'. (if start \<noteq> 0 then mem_move (cs_data s) 0 start n else Some (cs_data s)) = Some b \<and>
    wr b n 0 = Some b' \<and> holds ((set_data b' s)\<lparr>cs_length := n\<rparr>) (take n (drop start c))"
proof -
  obtain junk where d: "cs_data s = map Some c @ Some 0 # junk"
    using assms(1) by (rule holds_data)
  let ?k = "take n (drop start c)"
  have kl: "length ?k = n" using assms(2) by simp
  have "\<exists>rest. (if start \<noteq> 0 then mem_move (cs_data s) 0 start n else Some (cs_data s))
      = Some (map Some ?k @ rest) \<and> length rest = length (cs_data s) - n"
  proof (cases "start = 0")
    case True
    have "cs_data s = map Some (take n c) @ map Some (drop n c) @ Some 0 # junk"
      unfolding d by (metis append_assoc append_take_drop_id map_append)
    with True assms(2) show ?thesis by (auto simp: d)
  next
    case False
    have "mem_read (cs_data s) start n = Some (map Some ?k)"
      using assms(2) by (simp add: d take_map drop_map)
    then have "mem_move (cs_data s) 0 start n = Some (map Some ?k @ drop n (cs_data s))"
      using kl assms(2) by (simp add: mem_move_def put_cells_def d)
    with False show ?thesis by auto
  qed
  then obtain rest where rest: "(if start \<noteq> 0 then mem_move (cs_data s) 0 start n else Some (cs_data s))
      = Some (map Some ?k @ rest)" "length rest = length (cs_data s) - n" by blast
  have "length rest > 0" using rest(2) assms(2) by (simp add: d)
  then obtain y z where yz: "rest = y # z" by (cases rest) auto
  have "wr (map Some ?k @ rest) n 0 = Some (map Some ?k @ Some 0 # z)"
    using wr_map_here [of ?k y z 0] kl by (simp add: yz)
  moreover have "length (map Some ?k @ Some 0 # z) = length (cs_data s)"
    using rest(2) kl assms(2) by (simp add: yz d)
  then have "holds ((set_data (map Some ?k @ Some 0 # z) s)\<lparr>cs_length := n\<rparr>) ?k"
    by (rule holds_update [OF holds_wf [OF assms(1)] _ refl]) (use kl in simp)
  ultimately show ?thesis using rest(1) by blast
qed

text \<open>
  What the two scans of \<^verbatim>\<open>cstr_trim\<close> and \<^verbatim>\<open>cstr_trim_chars\<close> compute on a string that has a
  byte to keep.
\<close>

lemma trim_scans:
  assumes "dropWhile P c \<noteq> []"
  shows "\<exists>e. back_while P (map Some c @ z) (length (takeWhile P c)) (length c - 1) = Some e \<and>
    length (takeWhile P c) \<le> e \<and> e < length c \<and>
    take (e - length (takeWhile P c) + 1) (drop (length (takeWhile P c)) c) = trim_end P (dropWhile P c)"
proof -
  define k where "k = length (takeWhile P c)"
  have k: "k < length c" "\<not> P (c ! k)"
    using assms unfolding k_def
    by (metis append_Nil2 length_takeWhile_le le_neq_implies_less takeWhile_dropWhile_id
          append_eq_conv_conj same_append_eq take_all_iff order.refl dropWhile_eq_drop drop_all)
       (metis assms hd_conv_nth hd_dropWhile hd_drop_conv_nth dropWhile_eq_drop drop_eq_Nil2 leI)
  then have "length c - 1 < length c" "k \<le> length c - 1" by auto
  from back_while_run [OF this, of P z] obtain e where e:
    "back_while P (map Some c @ z) k (length c - 1) = Some e" "k \<le> e" "e \<le> length c - 1"
    "\<forall>j. e < j \<and> j \<le> length c - 1 \<longrightarrow> P (c ! j)" "k < e \<longrightarrow> \<not> P (c ! e)"
    by auto
  have lt: "e < length c" using e(3) k(1) by simp
  have np: "\<not> P (c ! e)" using e(2,5) k(2) by (cases "e = k") auto
  have d: "dropWhile P c = drop k c" by (simp add: dropWhile_eq_drop k_def)
  have "drop k c = take (e - k) (drop k c) @ c ! e # drop (Suc e) c"
    using id_take_nth_drop [of "e - k" "drop k c"] lt e(2) by simp
  moreover have "\<forall>x\<in>set (drop (Suc e) c). P x"
    using e(4) lt by (auto simp: in_set_conv_nth)
  ultimately have "trim_end P (drop k c) = take (e - k) (drop k c) @ [c ! e]"
    using trim_end_split [of P "c ! e", OF np] by metis
  also have "\<dots> = take (e - k + 1) (drop k c)"
    using lt e(2) by (simp add: take_Suc_conv_app_nth)
  finally show ?thesis
    using e(1,2) lt by (auto simp: d simp flip: k_def)
qed

lemma trim_holds [cstr_ops]:
  assumes "holds s c"
  shows "\<exists>s'. cstr_trim s = Some s' \<and> holds s' (trim_end isspace (dropWhile isspace c))"
proof (cases "c = []")
  case True
  then show ?thesis using assms by (simp add: cstr_trim_def holds_length [OF assms] trim_end_def)
next
  case False
  obtain junk where d: "cs_data s = map Some c @ Some 0 # junk"
    using assms by (rule holds_data)
  let ?k = "length (takeWhile isspace c)"
  have skip: "skip_while isspace (cs_data s) 0 (length c) = Some ?k"
    using skip_while_run [of isspace "[]" c "Some 0 # junk"] by (simp add: d)
  have eq: "cstr_trim s = do {
      e \<leftarrow> back_while isspace (cs_data s) ?k (length c - 1);
      let new_len = (if ?k > e then 0 else e - ?k + 1);
      b \<leftarrow> (if new_len \<noteq> 0 \<and> ?k \<noteq> 0 then mem_move (cs_data s) 0 ?k new_len else Some (cs_data s));
      b \<leftarrow> wr b new_len 0;
      Some ((set_data b s)\<lparr>cs_length := new_len\<rparr>) }"
    unfolding cstr_trim_def holds_length [OF assms] Let_def using False skip by simp
  show ?thesis
  proof (cases "dropWhile isspace c = []")
    case True
    then have kl: "?k = length c" by (metis append_Nil2 takeWhile_dropWhile_id)
    have "back_while isspace (cs_data s) (length c) (length c - 1) = Some (length c - 1)"
      using False by (cases "length c - 1") auto
    moreover have "length c - 1 < length c" using False by simp
    ultimately have "cstr_trim s = do { b \<leftarrow> wr (cs_data s) 0 0; Some ((set_data b s)\<lparr>cs_length := 0\<rparr>) }"
      unfolding eq kl by simp
    moreover obtain b' where "wr (cs_data s) 0 0 = Some b'" "holds ((set_data b' s)\<lparr>cs_length := 0\<rparr>) []"
      using keep_holds [OF assms, of 0 0] by auto
    ultimately show ?thesis by (simp add: True trim_end_def)
  next
    case ne: False
    from trim_scans [OF ne, of "Some 0 # junk"] obtain e where e:
      "back_while isspace (cs_data s) ?k (length c - 1) = Some e" "?k \<le> e" "e < length c"
      "take (e - ?k + 1) (drop ?k c) = trim_end isspace (dropWhile isspace c)"
      by (auto simp: d)
    have le: "?k + (e - ?k + 1) \<le> length c" using e(2,3) by simp
    have "cstr_trim s = do {
        b \<leftarrow> (if ?k \<noteq> 0 then mem_move (cs_data s) 0 ?k (e - ?k + 1) else Some (cs_data s));
        b \<leftarrow> wr b (e - ?k + 1) 0;
        Some ((set_data b s)\<lparr>cs_length := e - ?k + 1\<rparr>) }"
      unfolding eq e(1) using e(2) by (simp add: Let_def)
    with keep_holds [OF assms le] e(4) show ?thesis by auto
  qed
qed

lemma trim_chars_holds [cstr_ops]:
  assumes "holds s c" "chars \<noteq> []"
  shows "\<exists>s'. cstr_trim_chars s chars = Some s' \<and>
    holds s' (trim_end (strchr_found chars) (dropWhile (strchr_found chars) c))"
proof (cases "c = []")
  case True
  then show ?thesis using assms by (simp add: cstr_trim_chars_def holds_length [OF assms(1)] trim_end_def)
next
  case False
  obtain junk where d: "cs_data s = map Some c @ Some 0 # junk"
    using assms(1) by (rule holds_data)
  let ?P = "strchr_found chars"
  let ?k = "length (takeWhile ?P c)"
  have skip: "skip_while ?P (cs_data s) 0 (length c) = Some ?k"
    using skip_while_run [of ?P "[]" c "Some 0 # junk"] by (simp add: d)
  show ?thesis
  proof (cases "dropWhile ?P c = []")
    case True
    then have kl: "?k = length c" by (metis append_Nil2 takeWhile_dropWhile_id)
    have "cstr_trim_chars s chars = do { b \<leftarrow> wr (cs_data s) 0 0; Some ((set_data b s)\<lparr>cs_length := 0\<rparr>) }"
      unfolding cstr_trim_chars_def holds_length [OF assms(1)] Let_def using False assms(2) skip kl by simp
    moreover obtain b' where "wr (cs_data s) 0 0 = Some b'" "holds ((set_data b' s)\<lparr>cs_length := 0\<rparr>) []"
      using keep_holds [OF assms(1), of 0 0] by auto
    ultimately show ?thesis by (simp add: True trim_end_def)
  next
    case ne: False
    from trim_scans [OF ne, of "Some 0 # junk"] obtain e where e:
      "back_while ?P (cs_data s) ?k (length c - 1) = Some e" "?k \<le> e" "e < length c"
      "take (e - ?k + 1) (drop ?k c) = trim_end ?P (dropWhile ?P c)"
      by (auto simp: d)
    have le: "?k + (e - ?k + 1) \<le> length c" and nk: "?k \<noteq> length c" using e(2,3) by auto
    have "cstr_trim_chars s chars = do {
        b \<leftarrow> (if ?k \<noteq> 0 then mem_move (cs_data s) 0 ?k (e - ?k + 1) else Some (cs_data s));
        b \<leftarrow> wr b (e - ?k + 1) 0;
        Some ((set_data b s)\<lparr>cs_length := e - ?k + 1\<rparr>) }"
      unfolding cstr_trim_chars_def holds_length [OF assms(1)] Let_def
      using False assms(2) skip e(1) nk by simp
    with keep_holds [OF assms(1) le] e(4) show ?thesis by auto
  qed
qed

lemma rtrim_loop_run:
  "rtrim_loop (map Some c @ z) (length c) = Some (length (trim_end isspace c))"
proof (induction c arbitrary: z rule: rev_induct)
  case Nil
  then show ?case by (simp add: trim_end_def)
next
  case (snoc x c)
  from snoc.IH [of "Some x # z"] show ?case by (simp add: trim_end_def)
qed

lemma trim_end_prefix: "\<exists>v. c = trim_end P c @ v"
  unfolding trim_end_def by (metis rev_append rev_rev_ident takeWhile_dropWhile_id)

lemma rtrim_holds [cstr_ops]:
  assumes "holds s c"
  shows "\<exists>s'. cstr_rtrim s = Some s' \<and> holds s' (trim_end isspace c)"
proof (cases "c = []")
  case True
  then show ?thesis using assms by (simp add: cstr_rtrim_def holds_length [OF assms] trim_end_def)
next
  case False
  obtain junk where d: "cs_data s = map Some c @ Some 0 # junk"
    using assms by (rule holds_data)
  obtain v where v: "c = trim_end isspace c @ v" using trim_end_prefix by blast
  let ?n = "length (trim_end isspace c)"
  have n: "0 + ?n \<le> length c" "take ?n (drop 0 c) = trim_end isspace c"
    using v by (metis add_0 le_add1 length_append, metis append_eq_conv_conj drop0)
  from keep_holds [OF assms n(1)] obtain b' where
    "wr (cs_data s) ?n 0 = Some b'" "holds ((set_data b' s)\<lparr>cs_length := ?n\<rparr>) (trim_end isspace c)"
    using n(2) by auto
  then show ?thesis
    using rtrim_loop_run [of c "Some 0 # junk"] False
    by (simp add: cstr_rtrim_def holds_length [OF assms] d)
qed

lemma ltrim_holds [cstr_ops]:
  assumes "holds s c"
  shows "\<exists>s'. cstr_ltrim s = Some s' \<and> holds s' (dropWhile isspace c)"
proof -
  obtain junk where d: "cs_data s = map Some c @ Some 0 # junk"
    using assms by (rule holds_data)
  let ?k = "length (takeWhile isspace c)"
  have dw: "dropWhile isspace c = drop ?k c" by (simp add: dropWhile_eq_drop)
  have kle: "0 + ?k \<le> length c" by (simp add: length_takeWhile_le)
  have skip: "skip_while isspace (cs_data s) 0 (length c) = Some ?k"
    using skip_while_run [of isspace "[]" c "Some 0 # junk"] by (simp add: d)
  show ?thesis
  proof (cases "c = [] \<or> ?k = 0")
    case True
    then have "cstr_ltrim s = Some s"
      using skip by (auto simp: cstr_ltrim_def holds_length [OF assms] Let_def)
    moreover have "dropWhile isspace c = c" unfolding dw using True by auto
    ultimately show ?thesis using assms by simp
  next
    case False
    obtain b junk' where b: "mem_move (cs_data s) 0 ?k (length c - ?k + 1) = Some b"
      "length b = length (cs_data s)" "b = map Some (drop ?k c) @ Some 0 # junk'"
      using close_gap [OF kle, of junk] by (auto simp: d delete_at_def)
    have "holds ((set_data b s)\<lparr>cs_length := length c - ?k\<rparr>) (drop ?k c)"
      by (rule holds_update [OF holds_wf [OF assms] b(2,3)]) simp
    then show ?thesis
      unfolding dw using False b(1) skip by (auto simp: cstr_ltrim_def holds_length [OF assms] Let_def)
  qed
qed

section \<open>Reversal is correct\<close>

lemma reverse_loop_run:
  assumes that: "length c \<le> length rest" and "n \<le> length c"
  shows "reverse_loop (map Some c @ z) (map Some (take n (rev c)) @ drop n rest) n (length c)
      = Some (map Some (rev c) @ drop (length c) rest)"
  using assms(2)
proof (induction "length c - n" arbitrary: n)
  case 0
  then show ?case by (subst reverse_loop.simps) simp
next
  case (Suc k)
  then have n: "n < length c" by simp
  have r: "rd (map Some c @ z) (length c - 1 - n) = Some (rev c ! n)"
    using n by (auto simp: rev_nth)
  have "n < length rest" using n that by simp
  then obtain y t where yt: "drop n rest = y # t" "drop (Suc n) rest = t"
    using Cons_nth_drop_Suc [of n rest] by metis
  have "wr (map Some (take n (rev c)) @ drop n rest) n (rev c ! n)
      = Some (map Some (take n (rev c)) @ Some (rev c ! n) # t)"
    using wr_map_here [of "take n (rev c)" y t] n by (simp add: yt(1) min_absorb2)
  also have "map Some (take n (rev c)) @ Some (rev c ! n) # t
      = map Some (take (Suc n) (rev c)) @ drop (Suc n) rest"
    using n by (simp add: take_Suc_conv_app_nth yt(2))
  finally show ?case
    using Suc.hyps(1) [of "Suc n"] Suc.hyps(2) n r by (subst reverse_loop.simps) simp
qed

lemma reverse_creates [cstr_ops]:
  assumes "holds s c"
  shows "creates (cstr_reverse ok1 ok2 s) (can_create ok1 ok2 (length c)) (rev c)"
proof (cases "can_create ok1 ok2 (length c)")
  case True
  obtain junk where d: "cs_data s = map Some c @ Some 0 # junk"
    using assms by (rule holds_data)
  from True init_creates [of ok1 ok2 "length c"] obtain u where u:
    "cstr_init ok1 ok2 (length c) = Some (Some u)" "holds u []" "length c < length (cs_data u)"
    by auto
  have "reverse_loop (cs_data s) (cs_data u) 0 (length c)
      = Some (map Some (rev c) @ drop (length (rev c)) (cs_data u))"
    using reverse_loop_run [of c "cs_data u" 0 "Some 0 # junk"] u(3) by (simp add: d)
  moreover have "length (rev c) mod 2 ^ 32 = length c" "length (rev c) < CSTR_MAX_LEN"
    using True by (auto simp: can_create_def CSTR_MAX_LEN_def)
  ultimately show ?thesis
    using finish_holds [OF holds_wf [OF u(2)], of "rev c"] u(1,3) True
    by (auto simp: creates_def cstr_reverse_def holds_length [OF assms])
next
  case False
  then show ?thesis
    using init_creates [of ok1 ok2 "length c"]
    by (simp add: creates_def cstr_reverse_def holds_length [OF assms])
qed

lemma swap_loop_run:
  "swap_loop (a @ map Some m @ z) (length a) (length a + length m - 1) = Some (a @ map Some (rev m) @ z)"
proof (induction "length m" arbitrary: a m z rule: less_induct)
  case less
  show ?case
  proof (cases "length m < 2")
    case True
    then have "\<not> length a < length a + length m - 1" by linarith
    moreover have "rev m = m" using True by (cases m) (auto simp: less_Suc_eq)
    ultimately show ?thesis by (subst swap_loop.simps) simp
  next
    case False
    then obtain x m' y where m: "m = x # m' @ [y]"
      by (metis (no_types, lifting) One_nat_def Suc_1 append_butlast_last_id length_Cons less_2_cases_iff
          list.exhaust list.size(3) not_less_eq zero_less_Suc)
    let ?b = "a @ map Some m @ z"
    have b: "?b = a @ Some x # (map Some m' @ Some y # z)" by (simp add: m)
    have w1: "wr ?b (length a) y = Some (a @ Some y # (map Some m' @ Some y # z))"
      unfolding b by (rule wr_append_here)
    have w2: "wr ((a @ Some y # map Some m') @ Some y # z) (length (a @ Some y # map Some m')) x
        = Some ((a @ Some y # map Some m') @ Some x # z)"
      by (rule wr_append_here)
    have "rd ?b (length a) = Some x" "rd ?b (length a + length m - 1) = Some y"
      by (auto simp: m nth_append)
    then have "swap_loop ?b (length a) (length a + length m - 1)
        = swap_loop ((a @ [Some y]) @ map Some m' @ Some x # z) (length (a @ [Some y]))
            (length (a @ [Some y]) + length m' - 1)"
      using w1 w2 by (subst swap_loop.simps) (simp add: m)
    also have "\<dots> = Some ((a @ [Some y]) @ map Some (rev m') @ Some x # z)"
      by (rule less) (simp add: m)
    finally show ?thesis by (simp add: m)
  qed
qed

lemma reverse_inplace_holds [cstr_ops]:
  assumes "holds s c"
  shows "\<exists>s'. cstr_reverse_inplace s = Some s' \<and> holds s' (rev c)"
proof (cases "length c < 2")
  case True
  then have "rev c = c" by (cases c) (auto simp: less_Suc_eq)
  with True assms show ?thesis by (simp add: cstr_reverse_inplace_def holds_length [OF assms])
next
  case False
  obtain junk where d: "cs_data s = map Some c @ Some 0 # junk"
    using assms by (rule holds_data)
  have "holds (set_data (map Some (rev c) @ Some 0 # junk) s) (rev c)"
    by (rule holds_same_length [OF assms refl]) (auto simp: d)
  then show ?thesis
    using swap_loop_run [of "[]" c "Some 0 # junk"] False
    by (simp add: cstr_reverse_inplace_def holds_length [OF assms] d)
qed

end
