(* ===== verification/Text_Spec.thy ===== *)
theory Text_Spec
  imports Byte_Strings
begin

text \<open>
  The contract of a text buffer or another structure that is edited in place: a representation
  relation between the concrete state and the value it stands for, and a step that applies
  one edit.  A step is never undefined; it either reports success and has the effect of the
  edit on the value, or it reports failure and the value is unchanged.
\<close>

locale buffer_runs =
  fixes step :: "'e \<Rightarrow> 's \<Rightarrow> (bool \<times> 's) option"
    and effect :: "'e \<Rightarrow> 'c \<Rightarrow> 'c"
begin

fun run :: "'e list \<Rightarrow> 's \<Rightarrow> (bool list \<times> 's) option" where
  "run [] s = Some ([], s)"
| "run (e # es) s =
     (case step e s of None \<Rightarrow> None
      | Some (ok, s') \<Rightarrow> map_option (\<lambda>(oks, t). (ok # oks, t)) (run es s'))"

text \<open>The abstract replay: only the edits that were reported as done take effect.\<close>

fun replay :: "('e \<times> bool) list \<Rightarrow> 'c \<Rightarrow> 'c" where
  "replay [] c = c"
| "replay ((e, ok) # es) c = replay es (if ok then effect e c else c)"

end

text \<open>
  The weaker contract of a structure that some failures can damage: a step that is defined
  either has its effect or changes nothing.
\<close>

locale sound_buffer = buffer_runs step effect
  for rep :: "'s \<Rightarrow> 'c \<Rightarrow> bool"
    and admissible :: "'e \<Rightarrow> bool"
    and step :: "'e \<Rightarrow> 's \<Rightarrow> (bool \<times> 's) option"
    and effect :: "'e \<Rightarrow> 'c \<Rightarrow> 'c" +
  assumes step_sound: "rep s c \<Longrightarrow> admissible e \<Longrightarrow> step e s = Some (ok, s') \<Longrightarrow>
    rep s' (if ok then effect e c else c)"
begin

lemma run_sound:
  "rep s c \<Longrightarrow> list_all admissible es \<Longrightarrow> run es s = Some (oks, t) \<Longrightarrow>
     length oks = length es \<and> rep t (replay (zip es oks) c)"
proof (induction es arbitrary: s c oks)
  case (Cons e es)
  from Cons.prems(3) obtain ok s' oks' where s': "step e s = Some (ok, s')" "run es s' = Some (oks', t)" "oks = ok # oks'"
    by (auto split: option.splits)
  have "rep s' (if ok then effect e c else c)" using step_sound [OF Cons.prems(1) _ s'(1)] Cons.prems(2) by simp
  from Cons.IH [OF this _ s'(2)] Cons.prems(2) show ?case by (simp add: s'(3))
qed simp

end

text \<open>The full contract.\<close>

locale text_buffer = buffer_runs step effect
  for rep :: "'s \<Rightarrow> 'c \<Rightarrow> bool"
    and legal :: "'e \<Rightarrow> bool"
    and step :: "'e \<Rightarrow> 's \<Rightarrow> (bool \<times> 's) option"
    and effect :: "'e \<Rightarrow> 'c \<Rightarrow> 'c" +
  assumes step_rep: "rep s c \<Longrightarrow> legal e \<Longrightarrow>
    \<exists>ok s'. step e s = Some (ok, s') \<and> rep s' (if ok then effect e c else c)"
begin

lemma run_replays:
  assumes "rep s c" "list_all legal es"
  shows "\<exists>oks t. run es s = Some (oks, t) \<and> length oks = length es \<and> rep t (replay (zip es oks) c)"
  using assms
proof (induction es arbitrary: s c)
  case Nil
  then show ?case by simp
next
  case (Cons e es)
  then obtain ok s' where s': "step e s = Some (ok, s')" "rep s' (if ok then effect e c else c)"
    using step_rep [of s c e] by auto
  from Cons.IH [OF s'(2)] Cons.prems(2) obtain oks t where
    "run es s' = Some (oks, t)" "length oks = length es"
    "rep t (replay (zip es oks) (if ok then effect e c else c))" by auto
  with s'(1) show ?case by auto
qed

end

sublocale text_buffer \<subseteq> sound_buffer rep legal step effect
  by unfold_locales (use step_rep in fastforce)

text \<open>
  The same contract for a structure that works only up to a size: an edit makes the content
  larger by at most one, and steps are promised for contents of at most \<open>bound\<close>.
\<close>

locale bounded_buffer = buffer_runs step effect
  for rep :: "'s \<Rightarrow> 'c \<Rightarrow> bool"
    and legal :: "'e \<Rightarrow> bool"
    and step :: "'e \<Rightarrow> 's \<Rightarrow> (bool \<times> 's) option"
    and effect :: "'e \<Rightarrow> 'c \<Rightarrow> 'c" +
  fixes extent :: "'c \<Rightarrow> nat"
    and bound :: nat
  assumes step_rep: "rep s c \<Longrightarrow> legal e \<Longrightarrow> extent c \<le> bound \<Longrightarrow>
      \<exists>ok s'. step e s = Some (ok, s') \<and> rep s' (if ok then effect e c else c)"
    and grows: "extent (effect e c) \<le> Suc (extent c)"
begin

lemma run_replays:
  assumes "rep s c" "list_all legal es" "extent c + length es \<le> Suc bound"
  shows "\<exists>oks t. run es s = Some (oks, t) \<and> length oks = length es \<and> rep t (replay (zip es oks) c)"
  using assms
proof (induction es arbitrary: s c)
  case Nil
  then show ?case by simp
next
  case (Cons e es)
  then obtain ok s' where s': "step e s = Some (ok, s')" "rep s' (if ok then effect e c else c)"
    using step_rep [of s c e] by auto
  have "extent (if ok then effect e c else c) + length es \<le> Suc bound"
    using grows [of e c] Cons.prems(3) by auto
  from Cons.IH [OF s'(2) _ this] Cons.prems(2) obtain oks t where
    "run es s' = Some (oks, t)" "length oks = length es"
    "rep t (replay (zip es oks) (if ok then effect e c else c))" by auto
  with s'(1) show ?case by auto
qed

end

end
