(* ===== verification/Cstr_Theorems.thy ===== *)
theory Cstr_Theorems
  imports Cstr_Inplace Text_Spec "HOL-Library.Code_Target_Nat"
begin

text \<open>
  The properties of the dynamic string.  The editing operations are gathered in one type
  of edits, which interprets the text-buffer contract; searching, replacing, splitting and
  joining are compared with the reference definitions on lists.
\<close>

section \<open>The string as a text buffer\<close>

datatype edit =
    Append bytes | Append_Char u8 | Append_Format "bytes option" | Prepend bytes | Insert nat bytes
  | Append_Other cstr | Copy_Other cstr | Insert_Other nat cstr
  | Remove nat nat | Remove_Substr nat nat | Remove_Char u8 | Remove_All bytes
  | Lower | Upper | Title | Snake | Camel | Pascal | Trim | Ltrim | Rtrim | Trim_Chars bytes
  | Reverse | Clear | Reserve size_t | Shrink

definition always :: "cstr option \<Rightarrow> (bool \<times> cstr) option" where
  "always r = map_option (\<lambda>s. (True, s)) r"

text \<open>One call of the C interface; the flag is the outcome of the allocation it may make.\<close>

fun cstr_edit :: "bool \<times> edit \<Rightarrow> cstr \<Rightarrow> (bool \<times> cstr) option" where
  "cstr_edit (ok, Append a) s = cstr_append ok s a"
| "cstr_edit (ok, Append_Char x) s = cstr_append_char ok s x"
| "cstr_edit (ok, Append_Format t) s = cstr_append_fmt ok s t"
| "cstr_edit (ok, Prepend a) s = cstr_prepend ok s a"
| "cstr_edit (ok, Insert i a) s = cstr_insert ok s i a"
| "cstr_edit (ok, Append_Other t) s = cstr_append_cstr ok s (Other t)"
| "cstr_edit (ok, Copy_Other t) s = cstr_copy ok s (Other t)"
| "cstr_edit (ok, Insert_Other i t) s = cstr_insert_cstr ok s i (Other t)"
| "cstr_edit (ok, Remove i n) s = cstr_remove s i n"
| "cstr_edit (ok, Remove_Substr i n) s = always (cstr_remove_substr s i n)"
| "cstr_edit (ok, Remove_Char x) s = always (cstr_remove_char s x)"
| "cstr_edit (ok, Remove_All a) s = always (map_option snd (cstr_remove_all s a))"
| "cstr_edit (ok, Lower) s = always (cstr_lower s)"
| "cstr_edit (ok, Upper) s = always (cstr_upper s)"
| "cstr_edit (ok, Title) s = always (cstr_titlecase s)"
| "cstr_edit (ok, Snake) s = cstr_snakecase ok s"
| "cstr_edit (ok, Camel) s = always (cstr_camelcase s)"
| "cstr_edit (ok, Pascal) s = always (cstr_pascalcase s)"
| "cstr_edit (ok, Trim) s = always (cstr_trim s)"
| "cstr_edit (ok, Ltrim) s = always (cstr_ltrim s)"
| "cstr_edit (ok, Rtrim) s = always (cstr_rtrim s)"
| "cstr_edit (ok, Trim_Chars a) s = always (cstr_trim_chars s a)"
| "cstr_edit (ok, Reverse) s = always (cstr_reverse_inplace s)"
| "cstr_edit (ok, Clear) s = always (cstr_clear s)"
| "cstr_edit (ok, Reserve n) s = cstr_reserve ok n s"
| "cstr_edit (ok, Shrink) s = Some (True, cstr_shrink_to_fit ok s)"

text \<open>The text another string holds.\<close>

definition text_of :: "cstr \<Rightarrow> bytes" where
  "text_of s = map the (take (cs_length s) (cs_data s))"

fun edit_effect :: "bool \<times> edit \<Rightarrow> bytes \<Rightarrow> bytes" where
  "edit_effect (_, Append a) c = c @ a"
| "edit_effect (_, Append_Char x) c = c @ [x]"
| "edit_effect (_, Append_Format t) c = c @ (case t of None \<Rightarrow> [] | Some a \<Rightarrow> a)"
| "edit_effect (_, Prepend a) c = a @ c"
| "edit_effect (_, Insert i a) c = take i c @ a @ drop i c"
| "edit_effect (_, Append_Other t) c = c @ text_of t"
| "edit_effect (_, Copy_Other t) c = text_of t"
| "edit_effect (_, Insert_Other i t) c = take i c @ text_of t @ drop i c"
| "edit_effect (_, Remove i n) c = take i c @ drop (i + n) c"
| "edit_effect (_, Remove_Substr i n) c = take i c @ drop (i + n) c"
| "edit_effect (_, Remove_Char x) c = filter (\<lambda>y. y \<noteq> x) c"
| "edit_effect (_, Remove_All a) c = (if a = [] then c else intersperse [] (pieces a c))"
| "edit_effect (_, Lower) c = map tolower c"
| "edit_effect (_, Upper) c = map toupper c"
| "edit_effect (_, Title) c = title True c"
| "edit_effect (_, Snake) c = snake c"
| "edit_effect (_, Camel) c = camel c"
| "edit_effect (_, Pascal) c = words_joined True c"
| "edit_effect (_, Trim) c = trim_end isspace (dropWhile isspace c)"
| "edit_effect (_, Ltrim) c = dropWhile isspace c"
| "edit_effect (_, Rtrim) c = trim_end isspace c"
| "edit_effect (_, Trim_Chars a) c =
     (if a = [] then c else trim_end (strchr_found a) (dropWhile (strchr_found a) c))"
| "edit_effect (_, Reverse) c = rev c"
| "edit_effect (_, Clear) c = []"
| "edit_effect (_, Reserve n) c = c"
| "edit_effect (_, Shrink) c = c"

text \<open>
  Arguments a C program can pass: strings that fit the address space, \<^verbatim>\<open>vsnprintf\<close> outputs
  that fit an \<^verbatim>\<open>int\<close>, and well-formed other strings.
\<close>

fun edit_legal :: "bool \<times> edit \<Rightarrow> bool" where
  "edit_legal (_, Append a) \<longleftrightarrow> length a < 2 ^ 63"
| "edit_legal (_, Prepend a) \<longleftrightarrow> length a < 2 ^ 63"
| "edit_legal (_, Insert i a) \<longleftrightarrow> length a < 2 ^ 63"
| "edit_legal (_, Append_Format t) \<longleftrightarrow> (case t of None \<Rightarrow> True | Some a \<Rightarrow> length a < 2 ^ 31)"
| "edit_legal (_, Append_Other t) \<longleftrightarrow> holds t (text_of t)"
| "edit_legal (_, Copy_Other t) \<longleftrightarrow> holds t (text_of t)"
| "edit_legal (_, Insert_Other i t) \<longleftrightarrow> holds t (text_of t)"
| "edit_legal _ \<longleftrightarrow> True"

definition steps :: "(bool \<times> cstr) option \<Rightarrow> bytes \<Rightarrow> bytes \<Rightarrow> bool" where
  "steps r c c0 \<longleftrightarrow> (\<exists>ok s'. r = Some (ok, s') \<and> holds s' (if ok then c else c0))"

lemma editsD: "edits r s can c \<Longrightarrow> holds s c0 \<Longrightarrow> steps r c c0"
  by (auto simp: steps_def edits_def split: if_splits)

lemma alwaysD: "\<exists>s'. r = Some s' \<and> holds s' c \<Longrightarrow> steps (always r) c c0"
  by (auto simp: steps_def always_def)

lemma steps_same: "holds s c \<Longrightarrow> steps (Some (b, s)) c c"
  by (simp add: steps_def)

lemma reserve_edits:
  assumes "holds s c"
  shows "steps (cstr_reserve ok n s) c c"
proof -
  have wf: "wf_mem s" using assms by (rule holds_wf)
  consider "unat (n + 1) \<le> length (cs_data s)"
    | "length (cs_data s) < unat (n + 1)" "\<not> ok \<or> CSTR_MAX_LEN < unat (n + 1)"
    | "length (cs_data s) < unat (n + 1)" "unat (n + 1) \<le> CSTR_MAX_LEN" ok
    by linarith
  then show ?thesis
  proof cases
    case 1
    then show ?thesis using ensure_cap_fits [OF wf] assms by (simp add: cstr_reserve_def steps_same)
  next
    case 2
    then show ?thesis using ensure_cap_fails [OF wf] assms by (simp add: cstr_reserve_def steps_same)
  next
    case 3
    from ensure_cap_grows [OF assms 3] show ?thesis by (auto simp: cstr_reserve_def steps_same)
  qed
qed

lemma edit_step:
  assumes "holds s c" "edit_legal e"
  shows "steps (cstr_edit e s) (edit_effect e c) c"
proof -
  obtain ok ed where e: "e = (ok, ed)" by (cases e)
  note h = assms(1)
  show ?thesis
  proof (cases ed)
    case (Append a)
    with assms editsD [OF append_edits [OF h] h] show ?thesis by (simp add: e)
  next
    case (Append_Char x)
    with editsD [OF append_char_edits [OF h] h] show ?thesis by (simp add: e)
  next
    case (Append_Format t)
    with assms editsD [OF append_fmt_edits [OF h] h] show ?thesis
      by (cases t) (auto simp: e cstr_append_fmt_def steps_def)
  next
    case (Prepend a)
    with assms editsD [OF prepend_edits [OF h] h] show ?thesis by (simp add: e)
  next
    case (Insert i a)
    with assms editsD [OF insert_edits [OF h] h, of a] show ?thesis by (simp add: e insert_at_def)
  next
    case (Append_Other t)
    with assms editsD [OF append_cstr_edits [OF h] h] show ?thesis by (simp add: e)
  next
    case (Copy_Other t)
    with assms editsD [OF copy_edits [OF h] h] show ?thesis by (simp add: e)
  next
    case (Insert_Other i t)
    with assms editsD [OF insert_cstr_edits [OF h] h, of t "text_of t"] show ?thesis
      by (simp add: e insert_at_def)
  next
    case (Remove i n)
    with editsD [OF remove_edits [OF h] h, of i n] show ?thesis by (simp add: e delete_at_def)
  next
    case (Remove_Substr i n)
    with alwaysD [OF remove_substr_holds [OF h, of i n]] show ?thesis by (simp add: e delete_at_def)
  next
    case (Remove_Char x)
    with alwaysD [OF remove_char_holds [OF h, of x]] show ?thesis by (simp add: e)
  next
    case (Remove_All a)
    with h remove_all_holds [OF h, of a] show ?thesis
      by (cases "a = []") (auto simp: e always_def replace_pieces_def cstr_remove_all_def steps_def)
  next
    case Lower
    with alwaysD [OF bytewise_holds(1) [OF h]] show ?thesis by (simp add: e)
  next
    case Upper
    with alwaysD [OF bytewise_holds(2) [OF h]] show ?thesis by (simp add: e)
  next
    case Title
    with alwaysD [OF bytewise_holds(3) [OF h]] show ?thesis by (simp add: e)
  next
    case Snake
    with editsD [OF snakecase_edits [OF h] h] show ?thesis by (simp add: e)
  next
    case Camel
    with alwaysD [OF camelcase_holds [OF h]] show ?thesis by (simp add: e)
  next
    case Pascal
    with alwaysD [OF pascalcase_holds [OF h]] show ?thesis by (simp add: e)
  next
    case Trim
    with alwaysD [OF trim_holds [OF h]] show ?thesis by (simp add: e)
  next
    case Ltrim
    with alwaysD [OF ltrim_holds [OF h]] show ?thesis by (simp add: e)
  next
    case Rtrim
    with alwaysD [OF rtrim_holds [OF h]] show ?thesis by (simp add: e)
  next
    case (Trim_Chars a)
    with h trim_chars_holds [OF h, of a] show ?thesis
      by (cases "a = []") (auto simp: e always_def cstr_trim_chars_def steps_def)
  next
    case Reverse
    with alwaysD [OF reverse_inplace_holds [OF h]] show ?thesis by (simp add: e)
  next
    case Clear
    with alwaysD [OF clear_holds [OF h]] show ?thesis by (simp add: e)
  next
    case (Reserve n)
    with reserve_edits [OF h, of ok n] show ?thesis by (simp add: e)
  next
    case Shrink
    with shrink_to_fit_holds(1) [OF h] show ?thesis by (simp add: e steps_same)
  qed
qed

interpretation ctext: text_buffer holds edit_legal cstr_edit edit_effect
  by unfold_locales (drule (1) edit_step, simp only: steps_def)

section \<open>Properties\<close>

text \<open>A concrete string for the witnesses: the one \<^verbatim>\<open>cstr_init(0)\<close> returns.\<close>

definition empty_cstr :: cstr where
  "empty_cstr = cstr_init_inplace cstr_malloc"

lemma empty_cstr_holds: "holds empty_cstr []"
  by (simp add: empty_cstr_def init_inplace_holds)

text \<open>(C12) Refinement of the text-buffer contract: any sequence of calls of the editing
  interface (appending, inserting, removing, case conversion, trimming, reversal, capacity
  changes), with any outcomes of the allocations they make, stays inside the string's
  memory and keeps the representation invariant; the final contents are those of the same
  edits on a plain byte list, where exactly the calls that returned true took effect.\<close>

theorem cstr_edits_refine:
  assumes "holds s c" "list_all edit_legal es"
  shows "\<exists>oks t. ctext.run es s = Some (oks, t) \<and> length oks = length es \<and>
    holds t (ctext.replay (zip es oks) c)"
  using assms by (rule ctext.run_replays)

theorem cstr_edits_refine_witness:
  "\<exists>oks t. ctext.run [(True, Append [104, 105]), (False, Insert 1 [45]), (True, Upper)] empty_cstr
       = Some (oks, t) \<and> length oks = 3 \<and>
     holds t (ctext.replay (zip [(True, Append [104, 105]), (False, Insert 1 [45]), (True, Upper)] oks) [])"
  using cstr_edits_refine [OF empty_cstr_holds,
      of "[(True, Append [104, 105]), (False, Insert 1 [45]), (True, Upper)]"]
  by (simp add: numeral_3_eq_3 del: ctext.run.simps)

text \<open>\<^verbatim>\<open>cstr_insert\<close> on every branch: it fails exactly when the index is beyond the end,
  when the new length would reach the limit of 2^31 - 1 bytes, or when it needs memory and
  the allocation fails, and then the string is unchanged; otherwise it is memory safe and
  the contents are the old ones with the new bytes at the index.\<close>

theorem cstr_insert_correct:
  assumes "holds s c" "length a < 2 ^ 63"
  shows "if i \<le> length c \<and> (a = [] \<or> length c + length a < CSTR_MAX_LEN \<and>
              (ok \<or> length c + length a < length (cs_data s)))
         then \<exists>s'. cstr_insert ok s i a = Some (True, s') \<and> holds s' (take i c @ a @ drop i c)
         else cstr_insert ok s i a = Some (False, s)"
  using insert_edits [OF assms, of ok i] by (simp only: edits_def room_def insert_at_def)

theorem cstr_insert_correct_witness:
  "\<exists>s'. cstr_insert False empty_cstr 0 [97, 98] = Some (True, s') \<and> holds s' [97, 98]"
proof -
  have "length (cs_data empty_cstr) = 16"
    by (simp add: empty_cstr_def length_init_inplace CSTR_SSO_CAP_def)
  then show ?thesis
    using cstr_insert_correct [OF empty_cstr_holds, of "[97, 98]" 0 False]
    by (simp add: CSTR_MAX_LEN_def)
qed

text \<open>(C13) The optimised search (a scan for the first byte, a check of the last byte, then a
  comparison of the middle) returns the offset of the first occurrence of the needle, and
  none exactly when there is none.\<close>

theorem cstr_search_first:
  "cstr_search hs nd = find_sub nd hs \<and>
   (cstr_search hs nd = Some i \<longleftrightarrow> occurs_at nd hs i \<and> (\<forall>j<i. \<not> occurs_at nd hs j)) \<and>
   (cstr_search hs nd = None \<longleftrightarrow> (\<forall>j. \<not> occurs_at nd hs j))"
  by (simp add: search_is_find_sub find_sub_Some find_sub_None)

theorem cstr_search_first_witness:
  "cstr_search [97, 98, 97, 98, 99] [97, 98, 99] = Some 2 \<and>
   occurs_at [97, 98, 99] [97, 98, 97, 98, 99 :: u8] 2"
proof -
  have "cstr_search [97, 98, 97, 98, 99] [97, 98, 99] = Some 2" by code_simp
  with cstr_search_first [of "[97, 98, 97, 98, 99]" "[97, 98, 99]" 2] show ?thesis by simp
qed

text \<open>\<^verbatim>\<open>cstr_rfind\<close> returns the offset of the last occurrence of a non-empty needle and
  \<^verbatim>\<open>CSTR_NPOS\<close> when there is none; for the empty needle it returns \<^verbatim>\<open>CSTR_NPOS\<close>, although
  \<^verbatim>\<open>cstr_find\<close> finds it and \<^verbatim>\<open>cstr_rfind_cstr\<close> returns the length.\<close>

theorem cstr_rfind_last:
  assumes "holds s c"
  shows "(nd \<noteq> [] \<and> occurs_at nd c i \<and> (\<forall>j>i. \<not> occurs_at nd c j) \<longrightarrow>
      cstr_rfind s nd = Some (int i)) \<and>
    (nd \<noteq> [] \<and> (\<forall>j. \<not> occurs_at nd c j) \<longrightarrow> cstr_rfind s nd = Some CSTR_NPOS) \<and>
    cstr_rfind s [] = Some CSTR_NPOS \<and> cstr_find s [] = Some 0"
proof (intro conjI impI; (elim conjE)?)
  have run: "cstr_rfind s nd = (if length nd > length c then Some CSTR_NPOS
      else Some (npos (rfind_loop c nd 0 None)))" if "nd \<noteq> []"
    using that by (simp add: cstr_rfind_def cs_text_holds [OF assms] holds_length [OF assms])
  note loop = rfind_loop_Some [OF le0, of nd c None]
  {
    assume nd: "nd \<noteq> []" "occurs_at nd c i" "\<forall>j>i. \<not> occurs_at nd c j"
    then have "rfind_loop c nd 0 None = Some i" using loop [OF nd(1), of i] by simp
    moreover have "length nd \<le> length c" using nd(2) by (simp add: occurs_at_def)
    ultimately show "cstr_rfind s nd = Some (int i)" using run [OF nd(1)] by (simp add: npos_def)
  }
  {
    assume nd: "nd \<noteq> []" "\<forall>j. \<not> occurs_at nd c j"
    then have "rfind_loop c nd 0 None = None" using loop [OF nd(1)] by (metis not_None_eq option.simps(3))
    then show "cstr_rfind s nd = Some CSTR_NPOS" using run [OF nd(1)] by (simp add: npos_def)
  }
  show "cstr_rfind s [] = Some CSTR_NPOS" by (simp add: cstr_rfind_def)
  show "cstr_find s [] = Some 0" by (simp add: find_holds [OF assms] npos_def)
qed

theorem cstr_rfind_last_witness:
  "cstr_rfind empty_cstr [] = Some CSTR_NPOS \<and> cstr_find empty_cstr [] = Some 0 \<and>
   cstr_rfind empty_cstr [97] = Some CSTR_NPOS"
proof -
  have "\<forall>j. \<not> occurs_at [97] [] j" by (simp add: occurs_at_def)
  then show ?thesis
    using cstr_rfind_last [OF empty_cstr_holds, of "[97]"] by simp
qed

text \<open>(C14) \<^verbatim>\<open>cstr_replace_all\<close> with working allocations: the match table never overflows, the
  length computed in advance is exactly the number of bytes written, and the new string
  holds the old contents with every non-overlapping occurrence, taken from the left,
  replaced.\<close>

theorem cstr_replace_all_correct:
  assumes "holds s c" "\<And>n. al n" "length (replace_pieces old new c) < CSTR_MAX_LEN"
  shows "\<exists>r. cstr_replace_all al True True s old new = Some (Some r) \<and>
    holds r (intersperse new (pieces old c))"
  using replace_all_creates [OF assms(1), of al old new True True] assms(2,3)
  by (simp add: creates_def can_create_def replace_pieces_def CSTR_MAX_LEN_def)

theorem cstr_replace_all_correct_witness:
  "\<exists>r. cstr_replace_all (\<lambda>_. True) True True empty_cstr [97] [98, 98] = Some (Some r) \<and>
     holds r (intersperse [98, 98] (pieces [97] []))"
  using cstr_replace_all_correct [OF empty_cstr_holds, of "\<lambda>_. True" "[97]" "[98, 98]"]
  by (simp add: CSTR_MAX_LEN_def)

text \<open>(C15) Splitting at a non-empty delimiter and joining with the same delimiter gives the
  original contents back; the pieces are those between the occurrences of the delimiter.\<close>

theorem cstr_split_join_roundtrip:
  assumes "holds s c" "d \<noteq> []"
  shows "\<exists>toks r. cstr_split True (\<lambda>_. True) (\<lambda>_. True) (\<lambda>_. True) s (Some d) = Some (Some toks) \<and>
    list_all2 holds toks (pieces d c) \<and>
    cstr_join True True (Some (map Some toks)) (Some d) = Some (Some r) \<and> holds r c"
proof -
  from split_pieces [OF assms, of True "\<lambda>_. True" "\<lambda>_. True" "\<lambda>_. True"] obtain toks where toks:
    "cstr_split True (\<lambda>_. True) (\<lambda>_. True) (\<lambda>_. True) s (Some d) = Some (Some toks)"
    "list_all2 holds toks (pieces d c)" by auto
  have "length (intersperse d (pieces d c)) < CSTR_MAX_LEN"
    using holds_lt_max [OF assms(1)] by (simp add: intersperse_pieces)
  with join_creates [OF toks(2), of d True True] toks show ?thesis
    by (auto simp: creates_def can_create_def intersperse_pieces CSTR_MAX_LEN_def)
qed

theorem cstr_split_join_roundtrip_witness:
  "\<exists>toks r. cstr_split True (\<lambda>_. True) (\<lambda>_. True) (\<lambda>_. True) empty_cstr (Some [44]) = Some (Some toks) \<and>
    list_all2 holds toks (pieces [44] []) \<and>
    cstr_join True True (Some (map Some toks)) (Some [44]) = Some (Some r) \<and> holds r []"
  using cstr_split_join_roundtrip [OF empty_cstr_holds, of "[44]"] by simp

text \<open>Growth: for a request within the 2^31 - 1 limit the doubling loop of
  \<^verbatim>\<open>cstr_grow_cap\<close> returns, the new capacity holds the request, is never smaller than the
  old one and stays within the limit; it is the limit itself or the first doubling of the
  old capacity (at least 32) that is large enough.\<close>

theorem cstr_grow_cap_bounds:
  assumes "current \<le> CSTR_MAX_LEN" "need \<le> CSTR_MAX_LEN"
  shows "\<exists>cap. cstr_grow_cap current need = Some cap \<and> need \<le> cap \<and> current \<le> cap \<and>
    cap \<le> CSTR_MAX_LEN \<and>
    (cap = CSTR_MAX_LEN \<or>
     (\<exists>k. cap = max current CSTR_MIN_HEAP * 2 ^ k \<and>
          (k = 0 \<or> max current CSTR_MIN_HEAP * 2 ^ (k - 1) < need)))"
proof -
  have "(if current < CSTR_MIN_HEAP then CSTR_MIN_HEAP else current) = max current CSTR_MIN_HEAP"
    by simp
  then have eq: "cstr_grow_cap current need = grow_loop (max current CSTR_MIN_HEAP) need"
    by (simp add: cstr_grow_cap_def)
  have "0 < max current CSTR_MIN_HEAP" "max current CSTR_MIN_HEAP \<le> CSTR_MAX_LEN"
    using assms(1) by (auto simp: CSTR_MIN_HEAP_def CSTR_MAX_LEN_def)
  from grow_loop_returns [OF this assms(2)] obtain r where r:
    "grow_loop (max current CSTR_MIN_HEAP) need = Some r" "need \<le> r" "max current CSTR_MIN_HEAP \<le> r"
    "r \<le> CSTR_MAX_LEN"
    "r = CSTR_MAX_LEN \<or> (\<exists>k. r = max current CSTR_MIN_HEAP * 2 ^ k \<and>
       (k = 0 \<or> max current CSTR_MIN_HEAP * 2 ^ (k - 1) < need))" by blast
  have "current \<le> r" using r(3) by simp
  with r(1,2,4,5) show ?thesis unfolding eq by blast
qed

theorem cstr_grow_cap_bounds_witness:
  "\<exists>cap. cstr_grow_cap 16 100 = Some cap \<and> 100 \<le> cap \<and> 16 \<le> cap \<and> cap \<le> CSTR_MAX_LEN"
  using cstr_grow_cap_bounds [of 16 100] by (auto simp: CSTR_MAX_LEN_def)

text \<open>Appending a non-empty string to itself, \<^verbatim>\<open>cstr_append_cstr(s, s)\<close>, is undefined
  behaviour whenever there is room for the result: the \<^verbatim>\<open>memcpy\<close> copies \<^verbatim>\<open>n + 1\<close> bytes from
  the start of the block to offset \<^verbatim>\<open>n\<close> of the same block, and the ranges overlap in the byte
  of the terminator.\<close>

theorem cstr_append_self_undefined:
  assumes "holds s c" "c \<noteq> []" "room ok s (2 * length c)"
  shows "cstr_append_cstr ok s Self = None"
proof -
  have "add32 (length c) (length c) = 2 * length c"
    using add32_exact [OF assms(1) assms(1)] by simp
  moreover have "length c \<le> 2 * length c" by simp
  from ensure_cap_room [OF assms(1) this, of ok] assms(3) obtain s' where
    "cstr_ensure_cap ok (2 * length c + 1) s = Some (True, s')" "cs_length s' = length c" by auto
  ultimately show ?thesis
    using assms(2) holds_length [OF assms(1)]
    by (simp add: cstr_append_cstr_def copy_operand_def)
qed

definition a_cstr :: cstr where
  "a_cstr = empty_cstr\<lparr>cs_buf := Some 97 # Some 0 # replicate 14 None, cs_length := 1\<rparr>"

lemma a_cstr_holds: "holds a_cstr [97]"
  by (simp add: holds_def wf_mem_def a_cstr_def empty_cstr_def cstr_init_inplace_def cstr_malloc_def
      cstr_is_heap_def CSTR_SSO_CAP_def cs_data_def)

theorem cstr_append_self_undefined_witness: "cstr_append_cstr True a_cstr Self = None"
  using cstr_append_self_undefined [OF a_cstr_holds, of True] by (simp add: room_def CSTR_MAX_LEN_def)

text \<open>\<^verbatim>\<open>cstr_reserve(s, SIZE_MAX)\<close> reports success without reserving anything: the
  terminator is added to the request in \<^verbatim>\<open>size_t\<close> arithmetic and the sum wraps to 0, so the
  bound check does not see the request.  Every smaller request above the limit is refused.\<close>

theorem cstr_reserve_wraps:
  assumes "holds s c"
  shows "cstr_reserve ok SIZE_MAX s = Some (True, s) \<and>
    (n < SIZE_MAX \<and> CSTR_MAX_LEN \<le> unat n \<longrightarrow> cstr_reserve ok n s = Some (False, s))"
proof (intro conjI impI)
  have "unat (SIZE_MAX + 1) = 0" by (simp add: SIZE_MAX_def)
  then show "cstr_reserve ok SIZE_MAX s = Some (True, s)"
    using ensure_cap_fits [OF holds_wf [OF assms], of 0] by (simp add: cstr_reserve_def)
next
  assume n: "n < SIZE_MAX \<and> CSTR_MAX_LEN \<le> unat n"
  then have "unat (n + 1) = unat n + 1"
    using unat_add_no_wrap [of n 1] by (simp add: word_less_nat_alt)
  then show "cstr_reserve ok n s = Some (False, s)"
    using n by (simp add: cstr_reserve_def cstr_ensure_cap_def)
qed

theorem cstr_reserve_wraps_witness:
  "cstr_reserve True SIZE_MAX empty_cstr = Some (True, empty_cstr) \<and>
   cstr_reserve True 0x100000000 empty_cstr = Some (False, empty_cstr)"
  using cstr_reserve_wraps [where ok = True and n = "0x100000000", OF empty_cstr_holds]
  by (simp add: SIZE_MAX_def CSTR_MAX_LEN_def)

text \<open>(C16) \<^verbatim>\<open>cstr_snakecase\<close>: the capitals are counted first and the string is expanded from
  the right in its own block without overwriting a byte that is still to be read; every
  capital but a leading one becomes an underscore and the lower-case letter.  It fails,
  leaving the string unchanged, exactly when underscores are needed and there is no room.\<close>

theorem cstr_snakecase_correct:
  assumes "holds s c"
  shows "if length (snake c) = length c \<or>
           length (snake c) < CSTR_MAX_LEN \<and> (ok \<or> length (snake c) < length (cs_data s))
         then \<exists>s'. cstr_snakecase ok s = Some (True, s') \<and> holds s' (snake c)
         else cstr_snakecase ok s = Some (False, s)"
  using snakecase_edits [OF assms, of ok] by (simp only: edits_def room_def)

definition camel_cstr :: cstr where
  "camel_cstr = empty_cstr\<lparr>cs_buf := Some 97 # Some 66 # Some 0 # replicate 13 None, cs_length := 2\<rparr>"

lemma camel_cstr_holds: "holds camel_cstr [97, 66]" "length (cs_data camel_cstr) = 16"
  by (simp_all add: holds_def wf_mem_def camel_cstr_def empty_cstr_def cstr_init_inplace_def cstr_malloc_def
      cstr_is_heap_def CSTR_SSO_CAP_def cs_data_def)

theorem cstr_snakecase_correct_witness:
  "\<exists>s'. cstr_snakecase False camel_cstr = Some (True, s') \<and> holds s' [97, 95, 98]"
proof -
  have "snake [97, 66] = [97, 95, 98]" by (simp add: snake_def snake_tail_def tolower_def is_upper_def)
  then show ?thesis using cstr_snakecase_correct [OF camel_cstr_holds(1), of False] camel_cstr_holds(2) by (simp add: CSTR_MAX_LEN_def)
qed

end
