(* ===== verification/Utf8_Codec.thy ===== *)
theory Utf8_Codec
  imports Byte_Strings
begin

text \<open>
  Encoding, decoding, counting and validation of UTF-8 (\<^verbatim>\<open>src/unicode.c\<close>, first half).  A C
  string is the list of its bytes before the terminating NUL; \<open>peek s i\<close> reads \<^verbatim>\<open>s[i]\<close>, which
  is 0 at the terminator and undefined beyond it, so the order of the short-circuit tests
  matters.  Pointers into a string are suffixes of the list.
\<close>

definition UNICODE_MAX_CODEPOINT :: u32 where
  "UNICODE_MAX_CODEPOINT = 0x10FFFF"

definition peek :: "bytes \<Rightarrow> nat \<Rightarrow> u8 option" where
  "peek s i = (if i < length s then Some (s ! i) else if i = length s then Some 0 else None)"

text \<open>Short-circuit conjunctions over the bytes at the given indices.\<close>

definition is_cont :: "u8 \<Rightarrow> bool" where
  "is_cont b \<longleftrightarrow> b AND 0xC0 = 0x80"

fun conts :: "bytes \<Rightarrow> nat list \<Rightarrow> bool option" where
  "conts s [] = Some True"
| "conts s (i # is) = do { b \<leftarrow> peek s i; if is_cont b then conts s is else Some False }"

fun nonzeros :: "bytes \<Rightarrow> nat list \<Rightarrow> bool option" where
  "nonzeros s [] = Some True"
| "nonzeros s (i # is) = do { b \<leftarrow> peek s i; if b \<noteq> 0 then nonzeros s is else Some False }"

section \<open>Encoding\<close>

text \<open>The bytes written to the buffer, without the terminator; empty when out of range.\<close>

definition ucp_to_utf8 :: "u32 \<Rightarrow> bytes" where
  "ucp_to_utf8 cp =
     (if cp \<le> 0x7F then [ucast cp]
      else if cp \<le> 0x7FF then [ucast (0xC0 OR drop_bit 6 cp), ucast (0x80 OR (cp AND 0x3F))]
      else if cp \<le> 0xFFFF then
        [ucast (0xE0 OR drop_bit 12 cp), ucast (0x80 OR (drop_bit 6 cp AND 0x3F)),
         ucast (0x80 OR (cp AND 0x3F))]
      else if cp \<le> UNICODE_MAX_CODEPOINT then
        [ucast (0xF0 OR drop_bit 18 cp), ucast (0x80 OR (drop_bit 12 cp AND 0x3F)),
         ucast (0x80 OR (drop_bit 6 cp AND 0x3F)), ucast (0x80 OR (cp AND 0x3F))]
      else [])"

section \<open>Decoding\<close>

text \<open>The code points assembled from two, three and four bytes.\<close>

definition cp2 :: "u8 \<Rightarrow> u8 \<Rightarrow> u32" where
  "cp2 a b = push_bit 6 (ucast (a AND 0x1F)) OR ucast (b AND 0x3F)"

definition cp3 :: "u8 \<Rightarrow> u8 \<Rightarrow> u8 \<Rightarrow> u32" where
  "cp3 a b c = push_bit 12 (ucast (a AND 0x0F)) OR push_bit 6 (ucast (b AND 0x3F)) OR ucast (c AND 0x3F)"

definition cp4 :: "u8 \<Rightarrow> u8 \<Rightarrow> u8 \<Rightarrow> u8 \<Rightarrow> u32" where
  "cp4 a b c d = push_bit 18 (ucast (a AND 0x07)) OR push_bit 12 (ucast (b AND 0x3F)) OR
     push_bit 6 (ucast (c AND 0x3F)) OR ucast (d AND 0x3F)"

definition REPLACEMENT :: u32 where
  "REPLACEMENT = 0xFFFD"

definition utf8_to_codepoint :: "bytes \<Rightarrow> u32 option" where
  "utf8_to_codepoint s =
     do {
       u0 \<leftarrow> peek s 0;
       if u0 AND 0x80 = 0 then Some (ucast u0)
       else if u0 AND 0xE0 = 0xC0 then do {
         ok \<leftarrow> conts s [1];
         if ok then do {
           u1 \<leftarrow> peek s 1;
           Some (if cp2 u0 u1 < 0x80 then REPLACEMENT else cp2 u0 u1)
         }
         else Some REPLACEMENT
       }
       else if u0 AND 0xF0 = 0xE0 then do {
         ok \<leftarrow> conts s [1, 2];
         if ok then do {
           u1 \<leftarrow> peek s 1; u2 \<leftarrow> peek s 2;
           let cp = cp3 u0 u1 u2;
           Some (if cp < 0x800 then REPLACEMENT
                 else if cp \<ge> 0xD800 \<and> cp \<le> 0xDFFF then REPLACEMENT else cp)
         }
         else Some REPLACEMENT
       }
       else if u0 AND 0xF8 = 0xF0 then do {
         ok \<leftarrow> conts s [1, 2, 3];
         if ok then do {
           u1 \<leftarrow> peek s 1; u2 \<leftarrow> peek s 2; u3 \<leftarrow> peek s 3;
           let cp = cp4 u0 u1 u2 u3;
           Some (if cp < 0x10000 then REPLACEMENT
                 else if cp > UNICODE_MAX_CODEPOINT then REPLACEMENT else cp)
         }
         else Some REPLACEMENT
       }
       else Some REPLACEMENT
     }"

section \<open>Counting and lengths\<close>

primrec utf8_count_codepoints :: "bytes \<Rightarrow> nat" where
  "utf8_count_codepoints [] = 0"
| "utf8_count_codepoints (b # s) =
     (if b AND 0xC0 \<noteq> 0x80 then utf8_count_codepoints s + 1 else utf8_count_codepoints s)"

fun utf8_valid_byte_count :: "bytes \<Rightarrow> nat option" where
  "utf8_valid_byte_count [] = Some 0"
| "utf8_valid_byte_count (b # t) =
     (let s = b # t
      in if b AND 0x80 = 0 then map_option (\<lambda>n. n + 1) (utf8_valid_byte_count t)
         else do {
           two \<leftarrow> (if b AND 0xE0 = 0xC0 then nonzeros s [1] else Some False);
           if two then do {
             ok \<leftarrow> conts s [1];
             if ok then map_option (\<lambda>n. n + 2) (utf8_valid_byte_count (drop 1 t))
             else utf8_valid_byte_count t
           }
           else do {
             three \<leftarrow> (if b AND 0xF0 = 0xE0 then nonzeros s [1, 2] else Some False);
             if three then do {
               ok \<leftarrow> conts s [1, 2];
               if ok then map_option (\<lambda>n. n + 3) (utf8_valid_byte_count (drop 2 t))
               else utf8_valid_byte_count t
             }
             else do {
               four \<leftarrow> (if b AND 0xF8 = 0xF0 then nonzeros s [1, 2, 3] else Some False);
               if four then do {
                 ok \<leftarrow> conts s [1, 2, 3];
                 if ok then map_option (\<lambda>n. n + 4) (utf8_valid_byte_count (drop 3 t))
                 else utf8_valid_byte_count t
               }
               else utf8_valid_byte_count t
             }
           }
         })"

definition utf8_char_length :: "u8 \<Rightarrow> nat" where
  "utf8_char_length byte =
     (if byte \<le> 0x7F then 1
      else if byte \<le> 0xDF then 2
      else if byte \<le> 0xEF then 3
      else if byte \<le> 0xF7 then 4
      else 0)"

section \<open>Validation\<close>

definition is_valid_codepoint :: "u32 \<Rightarrow> bool" where
  "is_valid_codepoint cp \<longleftrightarrow> cp \<le> UNICODE_MAX_CODEPOINT"

fun is_valid_utf8 :: "bytes \<Rightarrow> bool option" where
  "is_valid_utf8 [] = Some True"
| "is_valid_utf8 (b # t) =
     (let s = b # t
      in if b AND 0x80 = 0 then is_valid_utf8 t
         else if b AND 0xE0 = 0xC0 then do {
           nz \<leftarrow> nonzeros s [1];
           ok \<leftarrow> (if nz then conts s [1] else Some False);
           if \<not> ok then Some False
           else do {
             b1 \<leftarrow> peek s 1;
             if cp2 b b1 < 0x80 then Some False else is_valid_utf8 (drop 1 t)
           }
         }
         else if b AND 0xF0 = 0xE0 then do {
           nz \<leftarrow> nonzeros s [1, 2];
           ok \<leftarrow> (if nz then conts s [1, 2] else Some False);
           if \<not> ok then Some False
           else do {
             b1 \<leftarrow> peek s 1; b2 \<leftarrow> peek s 2;
             let cp = cp3 b b1 b2;
             if cp < 0x800 \<or> (cp \<ge> 0xD800 \<and> cp \<le> 0xDFFF) then Some False
             else is_valid_utf8 (drop 2 t)
           }
         }
         else if b AND 0xF8 = 0xF0 then do {
           nz \<leftarrow> nonzeros s [1, 2, 3];
           ok \<leftarrow> (if nz then conts s [1, 2, 3] else Some False);
           if \<not> ok then Some False
           else do {
             b1 \<leftarrow> peek s 1; b2 \<leftarrow> peek s 2; b3 \<leftarrow> peek s 3;
             let cp = cp4 b b1 b2 b3;
             if cp < 0x10000 \<or> cp > UNICODE_MAX_CODEPOINT then Some False
             else is_valid_utf8 (drop 3 t)
           }
         }
         else Some False)"

section \<open>Bytes and code points as numbers\<close>

lemma or_shift:
  assumes "b < 2 ^ k"
  shows "push_bit k a OR b = a * 2 ^ k + (b :: nat)"
proof -
  have "\<not> bit b n" if "k \<le> n" for n
    using assms that by (metis bit_nat_iff div_less less_le_trans odd_one one_le_numeral
        power_increasing even_zero bit_iff_odd)
  then have "push_bit k a + b = push_bit k a OR b"
    by (intro disjunctive_add) (auto simp: bit_push_bit_iff)
  then show ?thesis by (simp add: push_bit_eq_mult)
qed

lemma unat_u8_lt: "unat (b :: u8) < 256"
proof -
  have "unat b < 2 ^ LENGTH(8)" by (rule unsigned_less)
  then show ?thesis by simp
qed

lemma unat_ucast_32: "unat (ucast (b :: u8) :: u32) = unat b"
  using unat_u8_lt [of b] by (simp add: unsigned_ucast_eq take_bit_nat_eq_self)

lemma unat_cp2: "unat (cp2 a b) = unat a mod 32 * 64 + unat b mod 64"
proof -
  have "unat (cp2 a b) = take_bit 32 (push_bit 6 (unat a mod 32)) OR (unat b mod 64)"
    by (simp add: cp2_def unsigned_or_eq unsigned_push_bit_eq unat_ucast_32 low_masks)
  also have "take_bit 32 (push_bit 6 (unat a mod 32)) = push_bit 6 (unat a mod 32)"
    by (simp add: take_bit_nat_eq_self_iff push_bit_eq_mult)
  finally show ?thesis using or_shift [of "unat b mod 64" 6 "unat a mod 32"] by simp
qed

lemma unat_cp3: "unat (cp3 a b c) = unat a mod 16 * 4096 + unat b mod 64 * 64 + unat c mod 64"
proof -
  have "unat (cp3 a b c) = take_bit 32 (push_bit 12 (unat a mod 16)) OR
      (take_bit 32 (push_bit 6 (unat b mod 64)) OR (unat c mod 64))"
    by (simp add: cp3_def unsigned_or_eq unsigned_push_bit_eq unat_ucast_32 low_masks or.assoc)
  also have "take_bit 32 (push_bit 12 (unat a mod 16)) = push_bit 12 (unat a mod 16)"
    by (simp add: take_bit_nat_eq_self_iff push_bit_eq_mult)
  also have "take_bit 32 (push_bit 6 (unat b mod 64)) = push_bit 6 (unat b mod 64)"
    by (simp add: take_bit_nat_eq_self_iff push_bit_eq_mult)
  also have "push_bit 6 (unat b mod 64) OR (unat c mod 64) = unat b mod 64 * 64 + unat c mod 64"
    using or_shift [of "unat c mod 64" 6 "unat b mod 64"] by simp
  also have "push_bit 12 (unat a mod 16) OR (unat b mod 64 * 64 + unat c mod 64)
      = unat a mod 16 * 2 ^ 12 + (unat b mod 64 * 64 + unat c mod 64)"
  proof (rule or_shift)
    have "unat b mod 64 < 64" "unat c mod 64 < 64" by auto
    then have "unat b mod 64 * 64 + unat c mod 64 < 64 * 64" by linarith
    then show "unat b mod 64 * 64 + unat c mod 64 < 2 ^ 12" by simp
  qed
  finally show ?thesis by simp
qed

lemma unat_cp4:
  "unat (cp4 a b c d)
    = unat a mod 8 * 262144 + unat b mod 64 * 4096 + unat c mod 64 * 64 + unat d mod 64"
proof -
  have lt: "unat b mod 64 < 64" "unat c mod 64 < 64" "unat d mod 64 < 64" by auto
  have "unat (cp4 a b c d) = take_bit 32 (push_bit 18 (unat a mod 8)) OR
      (take_bit 32 (push_bit 12 (unat b mod 64)) OR (take_bit 32 (push_bit 6 (unat c mod 64)) OR (unat d mod 64)))"
    by (simp add: cp4_def unsigned_or_eq unsigned_push_bit_eq unat_ucast_32 low_masks or.assoc)
  also have "take_bit 32 (push_bit 18 (unat a mod 8)) = push_bit 18 (unat a mod 8)"
    by (simp add: take_bit_nat_eq_self_iff push_bit_eq_mult)
  also have "take_bit 32 (push_bit 12 (unat b mod 64)) = push_bit 12 (unat b mod 64)"
    by (simp add: take_bit_nat_eq_self_iff push_bit_eq_mult)
  also have "take_bit 32 (push_bit 6 (unat c mod 64)) = push_bit 6 (unat c mod 64)"
    by (simp add: take_bit_nat_eq_self_iff push_bit_eq_mult)
  also have "push_bit 6 (unat c mod 64) OR (unat d mod 64) = unat c mod 64 * 64 + unat d mod 64"
    using or_shift [of "unat d mod 64" 6 "unat c mod 64"] by simp
  also have "push_bit 12 (unat b mod 64) OR (unat c mod 64 * 64 + unat d mod 64)
      = unat b mod 64 * 2 ^ 12 + (unat c mod 64 * 64 + unat d mod 64)"
    by (rule or_shift) (use lt in simp)
  also have "push_bit 18 (unat a mod 8) OR (unat b mod 64 * 2 ^ 12 + (unat c mod 64 * 64 + unat d mod 64))
      = unat a mod 8 * 2 ^ 18 + (unat b mod 64 * 2 ^ 12 + (unat c mod 64 * 64 + unat d mod 64))"
    by (rule or_shift) (use lt in simp)
  finally show ?thesis by simp
qed

lemma enc_byte:
  fixes x v :: u32
  assumes "unat x < 2 ^ k" "unat v * 2 ^ k + unat x < 256"
  shows "unat (ucast (push_bit k v OR x) :: u8) = unat v * 2 ^ k + unat x"
proof -
  have v: "push_bit k (unat v) < 2 ^ 32"
    using assms(2) by (simp add: push_bit_eq_mult)
  then have "unat (push_bit k v OR x) = push_bit k (unat v) OR unat x"
    by (simp add: unsigned_or_eq unsigned_push_bit_eq take_bit_nat_eq_self)
  also have "\<dots> = unat v * 2 ^ k + unat x" by (rule or_shift [OF assms(1)])
  finally show ?thesis
    using assms(2) by (simp add: unsigned_ucast_eq take_bit_nat_eq_self)
qed

lemma and_3F: "unat (x AND 0x3F) = unat x mod 64" for x :: u32
proof -
  have "unat (x AND mask 6) = take_bit 6 (unat x)"
    by (simp add: unsigned_take_bit_eq flip: take_bit_eq_mask)
  then show ?thesis by (simp add: take_bit_eq_mod mask_numeral)
qed

text \<open>The encoder on numbers.\<close>

fun enc :: "nat \<Rightarrow> nat list" where
  "enc n =
     (if n < 0x80 then [n]
      else if n < 0x800 then [0xC0 + n div 64, 0x80 + n mod 64]
      else if n < 0x10000 then [0xE0 + n div 4096, 0x80 + n div 64 mod 64, 0x80 + n mod 64]
      else if n < 0x110000 then
        [0xF0 + n div 262144, 0x80 + n div 4096 mod 64, 0x80 + n div 64 mod 64, 0x80 + n mod 64]
      else [])"

lemma cont_byte: "unat (ucast (0x80 OR (x AND 0x3F)) :: u8) = 0x80 + unat x mod 64" for x :: u32
proof -
  have "unat x mod 64 < 64" by simp
  then show ?thesis using enc_byte [of "x AND 0x3F" 6 2] by (simp add: and_3F)
qed

lemma unat_ucp_to_utf8: "map unat (ucp_to_utf8 cp) = enc (unat cp)"
proof -
  define n where "n = unat cp"
  have cmp: "cp \<le> 0x7F \<longleftrightarrow> n < 0x80" "cp \<le> 0x7FF \<longleftrightarrow> n < 0x800" "cp \<le> 0xFFFF \<longleftrightarrow> n < 0x10000"
    "cp \<le> UNICODE_MAX_CODEPOINT \<longleftrightarrow> n < 0x110000"
    by (auto simp: word_le_nat_alt n_def UNICODE_MAX_CODEPOINT_def)
  have d: "unat (drop_bit k cp) = n div 2 ^ k" for k
    unfolding n_def unat_drop_bit_eq by (simp add: drop_bit_eq_div)
  have "unat (ucast cp :: u8) = n" if "n < 0x80"
    using that by (simp add: n_def unsigned_ucast_eq take_bit_nat_eq_self)
  moreover have "unat (ucast (0xC0 OR drop_bit 6 cp) :: u8) = 0xC0 + n div 64" if "n < 0x800"
    using that enc_byte [of "drop_bit 6 cp" 5 6] d [of 6] by simp
  moreover have "unat (ucast (0xE0 OR drop_bit 12 cp) :: u8) = 0xE0 + n div 4096" if "n < 0x10000"
    using that enc_byte [of "drop_bit 12 cp" 4 14] d [of 12] by simp
  moreover have "unat (ucast (0xF0 OR drop_bit 18 cp) :: u8) = 0xF0 + n div 262144" if "n < 0x110000"
    using that enc_byte [of "drop_bit 18 cp" 3 30] d [of 18] by simp
  ultimately show ?thesis
    using d [of 6] d [of 12]
    by (simp add: ucp_to_utf8_def cmp cont_byte flip: n_def)
qed

section \<open>Sequences\<close>

text \<open>A Unicode scalar value: in range and not a surrogate.\<close>

definition scalar :: "u32 \<Rightarrow> bool" where
  "scalar cp \<longleftrightarrow> unat cp < 0x110000 \<and> \<not> (0xD800 \<le> unat cp \<and> unat cp < 0xE000)"

lemma ucp_cases:
  assumes "unat cp < 0x110000"
  obtains (one) a where "ucp_to_utf8 cp = [a]" "unat cp < 0x80" "unat a = unat cp"
  | (two) a b where "ucp_to_utf8 cp = [a, b]" "0x80 \<le> unat cp" "unat cp < 0x800"
      "unat a = 0xC0 + unat cp div 64" "unat b = 0x80 + unat cp mod 64"
  | (three) a b c where "ucp_to_utf8 cp = [a, b, c]" "0x800 \<le> unat cp" "unat cp < 0x10000"
      "unat a = 0xE0 + unat cp div 4096" "unat b = 0x80 + unat cp div 64 mod 64"
      "unat c = 0x80 + unat cp mod 64"
  | (four) a b c d where "ucp_to_utf8 cp = [a, b, c, d]" "0x10000 \<le> unat cp"
      "unat a = 0xF0 + unat cp div 262144" "unat b = 0x80 + unat cp div 4096 mod 64"
      "unat c = 0x80 + unat cp div 64 mod 64" "unat d = 0x80 + unat cp mod 64"
proof -
  have e: "map unat (ucp_to_utf8 cp) = enc (unat cp)" by (rule unat_ucp_to_utf8)
  consider "unat cp < 0x80" | "0x80 \<le> unat cp" "unat cp < 0x800"
    | "0x800 \<le> unat cp" "unat cp < 0x10000" | "0x10000 \<le> unat cp"
    by linarith
  then show ?thesis
  proof cases
    case 1
    with e have "map unat (ucp_to_utf8 cp) = [unat cp]" by simp
    with 1 one show ?thesis by (auto simp: map_eq_Cons_conv)
  next
    case 2
    with e have "map unat (ucp_to_utf8 cp) = [0xC0 + unat cp div 64, 0x80 + unat cp mod 64]" by simp
    with 2 two show ?thesis by (auto simp: map_eq_Cons_conv)
  next
    case 3
    with e have "map unat (ucp_to_utf8 cp)
        = [0xE0 + unat cp div 4096, 0x80 + unat cp div 64 mod 64, 0x80 + unat cp mod 64]" by simp
    with 3 three show ?thesis by (auto simp: map_eq_Cons_conv)
  next
    case 4
    with e assms have "map unat (ucp_to_utf8 cp) = [0xF0 + unat cp div 262144,
        0x80 + unat cp div 4096 mod 64, 0x80 + unat cp div 64 mod 64, 0x80 + unat cp mod 64]" by simp
    with 4 four show ?thesis by (auto simp: map_eq_Cons_conv)
  qed
qed

text \<open>The converse: a structurally sound, shortest-form sequence is the encoding of its value.\<close>

lemma map_unat_inj: "map unat xs = map unat ys \<Longrightarrow> xs = (ys :: u8 list)"
  by (rule injD [OF inj_mapI]) (auto intro: injI)

lemma digit64: "z < 64 \<Longrightarrow> (q * 64 + z) div 64 = q" "z < 64 \<Longrightarrow> (q * 64 + z) mod 64 = (z :: nat)"
  by auto

lemma div_powers_64: "n div 4096 = n div 64 div 64" "n div 262144 = n div 64 div 64 div 64" for n :: nat
  by (simp_all flip: div_mult2_eq)

lemma lead_digit:
  "x < 32 \<Longrightarrow> (x + 0xC0) mod 32 = x" "x < 16 \<Longrightarrow> (x + 0xE0) mod 16 = x"
  "x < 8 \<Longrightarrow> (x + 0xF0) mod 8 = x" "x < 64 \<Longrightarrow> (x + 0x80) mod 64 = x" for x :: nat
  using mod_mult_self1 [of x 6 32] mod_mult_self1 [of x 14 16] mod_mult_self1 [of x 30 8]
    mod_mult_self1 [of x 2 64] by simp_all

lemma lead_digit':
  "x < 32 \<Longrightarrow> (0xC0 + x) mod 32 = x" "x < 16 \<Longrightarrow> (0xE0 + x) mod 16 = x"
  "x < 8 \<Longrightarrow> (0xF0 + x) mod 8 = x" "x < 64 \<Longrightarrow> (0x80 + x) mod 64 = x" for x :: nat
  using lead_digit [of x] by (simp_all add: add.commute)

lemma two_encodes:
  assumes "0xC0 \<le> unat a" "unat a < 0xE0" "0x80 \<le> unat b" "unat b < 0xC0" "0x80 \<le> unat (cp2 a b)"
  shows "ucp_to_utf8 (cp2 a b) = [a, b]"
proof (rule map_unat_inj)
  obtain x y where xy: "unat a = x + 0xC0" "unat b = y + 0x80"
    using assms by (metis le_iff_add add.commute)
  then have lt: "x < 32" "y < 64" using assms by auto
  have n: "unat (cp2 a b) = x * 64 + y"
    unfolding unat_cp2 xy using lt by (simp add: lead_digit)
  then have "unat (cp2 a b) < 0x800" using lt by linarith
  with assms(5) lt show "map unat (ucp_to_utf8 (cp2 a b)) = map unat [a, b]"
    by (simp add: unat_ucp_to_utf8 n xy digit64)
qed

lemma three_encodes:
  assumes "0xE0 \<le> unat a" "unat a < 0xF0" "0x80 \<le> unat b" "unat b < 0xC0"
    "0x80 \<le> unat c" "unat c < 0xC0" "0x800 \<le> unat (cp3 a b c)"
  shows "ucp_to_utf8 (cp3 a b c) = [a, b, c]"
proof (rule map_unat_inj)
  obtain x y z where xyz: "unat a = x + 0xE0" "unat b = y + 0x80" "unat c = z + 0x80"
    using assms by (metis le_iff_add add.commute)
  then have lt: "x < 16" "y < 64" "z < 64" using assms by auto
  have n: "unat (cp3 a b c) = x * 4096 + y * 64 + z"
    unfolding unat_cp3 xyz using lt by (simp add: lead_digit)
  then have "unat (cp3 a b c) < 0x10000" using lt by linarith
  moreover have "unat (cp3 a b c) div 64 = x * 64 + y" "unat (cp3 a b c) mod 64 = z"
    using digit64 [OF lt(3), of "x * 64 + y"] by (simp_all add: n algebra_simps)
  ultimately show "map unat (ucp_to_utf8 (cp3 a b c)) = map unat [a, b, c]"
    using assms(7) digit64 [OF lt(2), of x] by (simp add: unat_ucp_to_utf8 xyz div_powers_64)
qed

lemma four_encodes:
  assumes "0xF0 \<le> unat a" "unat a < 0xF8" "0x80 \<le> unat b" "unat b < 0xC0"
    "0x80 \<le> unat c" "unat c < 0xC0" "0x80 \<le> unat d" "unat d < 0xC0"
    "0x10000 \<le> unat (cp4 a b c d)" "unat (cp4 a b c d) < 0x110000"
  shows "ucp_to_utf8 (cp4 a b c d) = [a, b, c, d]"
proof (rule map_unat_inj)
  obtain x y z t where xyz: "unat a = x + 0xF0" "unat b = y + 0x80" "unat c = z + 0x80" "unat d = t + 0x80"
    using assms(1,3,5,7) by (metis le_iff_add add.commute)
  then have lt: "x < 8" "y < 64" "z < 64" "t < 64" using assms(2,4,6,8) by auto
  define m where "m = x * 64 + y"
  define k where "k = m * 64 + z"
  have n: "unat (cp4 a b c d) = k * 64 + t"
    unfolding unat_cp4 xyz using lt by (simp add: lead_digit k_def m_def)
  have "unat (cp4 a b c d) div 64 = k" "unat (cp4 a b c d) mod 64 = t" "k div 64 = m" "k mod 64 = z"
    "m div 64 = x" "m mod 64 = y"
    using digit64 [OF lt(4), of k] digit64 [OF lt(3), of m] digit64 [OF lt(2), of x]
    by (simp_all only: n k_def m_def)
  with assms(9,10) show "map unat (ucp_to_utf8 (cp4 a b c d)) = map unat [a, b, c, d]"
    by (simp add: unat_ucp_to_utf8 xyz div_powers_64)
qed

lemma decodes:
  "unat cp < 0x800 \<Longrightarrow> unat a = 0xC0 + unat cp div 64 \<Longrightarrow> unat b = 0x80 + unat cp mod 64 \<Longrightarrow>
     cp2 a b = cp"
  "unat cp < 0x10000 \<Longrightarrow> unat a = 0xE0 + unat cp div 4096 \<Longrightarrow> unat b = 0x80 + unat cp div 64 mod 64 \<Longrightarrow>
     unat c = 0x80 + unat cp mod 64 \<Longrightarrow> cp3 a b c = cp"
  "unat cp < 0x110000 \<Longrightarrow> unat a = 0xF0 + unat cp div 262144 \<Longrightarrow>
     unat b = 0x80 + unat cp div 4096 mod 64 \<Longrightarrow> unat c = 0x80 + unat cp div 64 mod 64 \<Longrightarrow>
     unat d = 0x80 + unat cp mod 64 \<Longrightarrow> cp4 a b c d = cp"
proof -
  let ?n = "unat cp"
  have parts: "?n div 64 * 64 + ?n mod 64 = ?n"
    "?n div 64 div 64 * 4096 + ?n div 64 mod 64 * 64 + ?n mod 64 = ?n"
    "?n div 64 div 64 div 64 * 262144 + ?n div 64 div 64 mod 64 * 4096 + ?n div 64 mod 64 * 64 + ?n mod 64 = ?n"
    using div_mult_mod_eq [of ?n 64] div_mult_mod_eq [of "?n div 64" 64]
      div_mult_mod_eq [of "?n div 64 div 64" 64] by linarith+
  show "cp2 a b = cp" if "?n < 0x800" "unat a = 0xC0 + ?n div 64" "unat b = 0x80 + ?n mod 64"
  proof -
    have "?n div 64 < 32" using that(1) by simp
    then have "unat (cp2 a b) = ?n div 64 * 64 + ?n mod 64"
      unfolding unat_cp2 that(2,3) by (simp only: lead_digit' mod_less_divisor zero_less_numeral)
    then show ?thesis unfolding parts(1) by (simp add: word_unat_eq_iff)
  qed
  show "cp3 a b c = cp" if "?n < 0x10000" "unat a = 0xE0 + ?n div 4096"
    "unat b = 0x80 + ?n div 64 mod 64" "unat c = 0x80 + ?n mod 64"
  proof -
    have "?n div 4096 < 16" using that(1) by simp
    then have "unat (cp3 a b c) = ?n div 4096 * 4096 + ?n div 64 mod 64 * 64 + ?n mod 64"
      unfolding unat_cp3 that(2,3,4) by (simp only: lead_digit' mod_less_divisor zero_less_numeral)
    then show ?thesis unfolding div_powers_64 parts(2) by (simp add: word_unat_eq_iff)
  qed
  show "cp4 a b c d = cp" if "?n < 0x110000" "unat a = 0xF0 + ?n div 262144"
    "unat b = 0x80 + ?n div 4096 mod 64" "unat c = 0x80 + ?n div 64 mod 64" "unat d = 0x80 + ?n mod 64"
  proof -
    have "?n div 262144 < 8" using that(1) by simp
    then have "unat (cp4 a b c d)
        = ?n div 262144 * 262144 + ?n div 4096 mod 64 * 4096 + ?n div 64 mod 64 * 64 + ?n mod 64"
      unfolding unat_cp4 that(2,3,4,5) by (simp only: lead_digit' mod_less_divisor zero_less_numeral)
    then show ?thesis unfolding div_powers_64 parts(3) by (simp add: word_unat_eq_iff)
  qed
qed

text \<open>
  The first byte of an encoding has its class, the others are continuation bytes; every
  function that walks over a string uses these facts.
\<close>

lemma ucp_shapes:
  assumes "unat cp < 0x110000"
  obtains (one) a where "ucp_to_utf8 cp = [a]" "unat a < 0x80" "ucast a = cp"
  | (two) a b where "ucp_to_utf8 cp = [a, b]" "0xC0 \<le> unat a" "unat a < 0xE0"
      "0x80 \<le> unat b" "unat b < 0xC0" "cp2 a b = cp" "0x80 \<le> unat cp"
  | (three) a b c where "ucp_to_utf8 cp = [a, b, c]" "0xE0 \<le> unat a" "unat a < 0xF0"
      "0x80 \<le> unat b" "unat b < 0xC0" "0x80 \<le> unat c" "unat c < 0xC0" "cp3 a b c = cp" "0x800 \<le> unat cp"
  | (four) a b c d where "ucp_to_utf8 cp = [a, b, c, d]" "0xF0 \<le> unat a" "unat a < 0xF8"
      "0x80 \<le> unat b" "unat b < 0xC0" "0x80 \<le> unat c" "unat c < 0xC0" "0x80 \<le> unat d" "unat d < 0xC0"
      "cp4 a b c d = cp" "0x10000 \<le> unat cp"
proof -
  let ?n = "unat cp"
  have m: "?n mod 64 < 64" "?n div 64 mod 64 < 64" "?n div 4096 mod 64 < 64" by auto
  from assms show ?thesis
  proof (cases rule: ucp_cases)
    case (one a)
    then have "ucast a = cp" by (simp add: word_unat_eq_iff unat_ucast_32)
    with one that(1) show ?thesis by simp
  next
    case (two a b)
    have "?n div 64 < 32" using two(3) by simp
    with two m that(2) [OF two(1)] decodes(1) [OF two(3,4,5)] show ?thesis by simp
  next
    case (three a b c)
    have "?n div 4096 < 16" using three(3) by simp
    with three m that(3) [OF three(1)] decodes(2) [OF three(3,4,5,6)] show ?thesis by simp
  next
    case (four a b c d)
    have "?n div 262144 < 8" using assms by simp
    with four m that(4) [OF four(1)] decodes(3) [OF assms four(3,4,5,6)] show ?thesis by simp
  qed
qed

lemma is_cont_iff: "is_cont b \<longleftrightarrow> 0x80 \<le> unat b \<and> unat b < 0xC0"
  by (simp add: is_cont_def lead_classes)

lemma nz_iff: "b \<noteq> 0 \<longleftrightarrow> unat b \<noteq> 0" for b :: u8
  by (simp add: unat_eq_0)

lemmas utf8_walk = lead_classes is_cont_iff peek_def REPLACEMENT_def UNICODE_MAX_CODEPOINT_def
  word_less_nat_alt word_le_nat_alt Let_def

lemma decode_encode:
  assumes "scalar cp"
  shows "utf8_to_codepoint (ucp_to_utf8 cp @ rest) = Some cp"
proof -
  from assms have n: "unat cp < 0x110000" and s: "\<not> (0xD800 \<le> unat cp \<and> unat cp < 0xE000)"
    by (auto simp: scalar_def)
  from n show ?thesis
    by (cases rule: ucp_shapes) (use n s in \<open>auto simp: utf8_to_codepoint_def utf8_walk\<close>)
qed

lemma valid_encode:
  assumes "scalar cp"
  shows "is_valid_utf8 (ucp_to_utf8 cp @ rest) = is_valid_utf8 rest"
proof -
  from assms have n: "unat cp < 0x110000" and s: "\<not> (0xD800 \<le> unat cp \<and> unat cp < 0xE000)"
    by (auto simp: scalar_def)
  from n show ?thesis
    by (cases rule: ucp_shapes) (use n s in \<open>auto simp: utf8_walk nz_iff\<close>)
qed

lemma count_encode:
  assumes "unat cp < 0x110000"
  shows "utf8_count_codepoints (ucp_to_utf8 cp @ rest) = utf8_count_codepoints rest + 1"
  using assms by (cases rule: ucp_shapes) (auto simp: lead_classes)

lemma byte_count_encode:
  assumes "unat cp < 0x110000"
  shows "utf8_valid_byte_count (ucp_to_utf8 cp @ rest)
    = map_option (\<lambda>n. n + length (ucp_to_utf8 cp)) (utf8_valid_byte_count rest)"
  using assms by (cases rule: ucp_shapes; cases "utf8_valid_byte_count rest") (auto simp: utf8_walk nz_iff)

lemma char_length_encode:
  assumes "unat cp < 0x110000"
  shows "ucp_to_utf8 cp \<noteq> []" "utf8_char_length (hd (ucp_to_utf8 cp)) = length (ucp_to_utf8 cp)"
  using assms by (cases rule: ucp_shapes; auto simp: utf8_char_length_def word_le_nat_alt)+

section \<open>Decoding and validation are sound and complete\<close>

definition encode_all :: "u32 list \<Rightarrow> bytes" where
  "encode_all cps = concat (map ucp_to_utf8 cps)"

lemma scalar_cps:
  "scalar (cp2 a b)"
  "unat (cp3 a b c) < 0xD800 \<or> 0xE000 \<le> unat (cp3 a b c) \<Longrightarrow> scalar (cp3 a b c)"
  "0x10000 \<le> unat (cp4 a b c d) \<Longrightarrow> unat (cp4 a b c d) < 0x110000 \<Longrightarrow> scalar (cp4 a b c d)"
proof -
  have "unat a mod 32 < 32" "unat b mod 64 < 64" by auto
  then have "unat (cp2 a b) < 0x800" unfolding unat_cp2 by linarith
  then show "scalar (cp2 a b)" by (simp add: scalar_def)
  have "unat a mod 16 < 16" "unat b mod 64 < 64" "unat c mod 64 < 64" by auto
  then have "unat (cp3 a b c) < 0x10000" unfolding unat_cp3 by linarith
  then show "unat (cp3 a b c) < 0xD800 \<or> 0xE000 \<le> unat (cp3 a b c) \<Longrightarrow> scalar (cp3 a b c)"
    by (auto simp: scalar_def)
  show "0x10000 \<le> unat (cp4 a b c d) \<Longrightarrow> unat (cp4 a b c d) < 0x110000 \<Longrightarrow> scalar (cp4 a b c d)"
    by (simp add: scalar_def)
qed

lemma ascii_encodes:
  assumes "unat a < 0x80"
  shows "ucp_to_utf8 (ucast a) = [a]" "scalar (ucast a)"
proof -
  have n: "unat (ucast a :: u32) = unat a" by (rule unat_ucast_32)
  show "ucp_to_utf8 (ucast a) = [a]"
    by (rule map_unat_inj) (use assms in \<open>simp add: unat_ucp_to_utf8 n\<close>)
  show "scalar (ucast a)" using assms by (simp add: scalar_def n)
qed

lemma four_bytes:
  obtains "t = []" | b1 where "t = [b1]" | b1 b2 where "t = [b1, b2]" | b1 b2 b3 t' where "t = b1 # b2 # b3 # t'"
  by (metis list.exhaust)

text \<open>What the decoder finds at the front of a string.\<close>

lemma decode_front:
  obtains "utf8_to_codepoint (b # t) = Some REPLACEMENT"
  | cp rest where "utf8_to_codepoint (b # t) = Some cp" "scalar cp" "b # t = ucp_to_utf8 cp @ rest"
proof -
  consider "unat b < 0x80" | "0x80 \<le> unat b" "unat b < 0xC0" | "0xC0 \<le> unat b" "unat b < 0xE0"
    | "0xE0 \<le> unat b" "unat b < 0xF0" | "0xF0 \<le> unat b" "unat b < 0xF8" | "0xF8 \<le> unat b"
    by linarith
  then show ?thesis
  proof cases
    case 1
    then have "utf8_to_codepoint (b # t) = Some (ucast b)"
      by (simp add: utf8_to_codepoint_def utf8_walk)
    moreover have "b # t = ucp_to_utf8 (ucast b) @ t" using ascii_encodes(1) [OF 1] by simp
    ultimately show ?thesis using that(2) [OF _ ascii_encodes(2) [OF 1]] by blast
  next
    case 3
    show ?thesis
    proof (cases t)
      case Nil
      then have "utf8_to_codepoint (b # t) = Some REPLACEMENT"
        using 3 by (simp add: utf8_to_codepoint_def utf8_walk)
      with that show ?thesis by blast
    next
      case (Cons b1 t')
      have "utf8_to_codepoint (b # t) = Some REPLACEMENT \<or>
          utf8_to_codepoint (b # t) = Some (cp2 b b1) \<and> ucp_to_utf8 (cp2 b b1) = [b, b1]"
        using 3 two_encodes [OF 3, of b1] by (auto simp: Cons utf8_to_codepoint_def utf8_walk)
      with that(1) that(2) [of "cp2 b b1" t'] scalar_cps(1) [of b b1] Cons show ?thesis by auto
    qed
  next
    case 4
    show ?thesis
    proof (cases "\<exists>b1 b2 t'. t = b1 # b2 # t'")
      case True
      then obtain b1 b2 t' where t: "t = b1 # b2 # t'" by blast
      have "utf8_to_codepoint (b # t) = Some REPLACEMENT \<or>
          utf8_to_codepoint (b # t) = Some (cp3 b b1 b2) \<and> scalar (cp3 b b1 b2) \<and>
          ucp_to_utf8 (cp3 b b1 b2) = [b, b1, b2]"
        using 4 three_encodes [OF 4, of b1 b2] scalar_cps(2) [of b b1 b2]
        by (auto simp: t utf8_to_codepoint_def utf8_walk)
      with that(1) that(2) [of "cp3 b b1 b2" t'] t show ?thesis by auto
    next
      case False
      then have "utf8_to_codepoint (b # t) = Some REPLACEMENT"
        using 4 by (cases t rule: four_bytes) (auto simp: utf8_to_codepoint_def utf8_walk)
      with that show ?thesis by blast
    qed
  next
    case 5
    show ?thesis
    proof (cases "\<exists>b1 b2 b3 t'. t = b1 # b2 # b3 # t'")
      case True
      then obtain b1 b2 b3 t' where t: "t = b1 # b2 # b3 # t'" by blast
      have "utf8_to_codepoint (b # t) = Some REPLACEMENT \<or>
          utf8_to_codepoint (b # t) = Some (cp4 b b1 b2 b3) \<and> scalar (cp4 b b1 b2 b3) \<and>
          ucp_to_utf8 (cp4 b b1 b2 b3) = [b, b1, b2, b3]"
        using 5 four_encodes [OF 5, of b1 b2 b3] scalar_cps(3) [of b b1 b2 b3]
        by (auto simp: t utf8_to_codepoint_def utf8_walk)
      with that(1) that(2) [of "cp4 b b1 b2 b3" t'] t show ?thesis by auto
    next
      case False
      then have "utf8_to_codepoint (b # t) = Some REPLACEMENT"
        using 5 by (cases t rule: four_bytes) (auto simp: utf8_to_codepoint_def utf8_walk)
      with that show ?thesis by blast
    qed
  qed (auto intro!: that(1) simp: utf8_to_codepoint_def utf8_walk)
qed

lemma valid_front:
  "is_valid_utf8 (b # t) = Some False \<or>
   (\<exists>cp rest. scalar cp \<and> b # t = ucp_to_utf8 cp @ rest)"
proof -
  consider "unat b < 0x80" | "0x80 \<le> unat b" "unat b < 0xC0" | "0xC0 \<le> unat b" "unat b < 0xE0"
    | "0xE0 \<le> unat b" "unat b < 0xF0" | "0xF0 \<le> unat b" "unat b < 0xF8" | "0xF8 \<le> unat b"
    by linarith
  then show ?thesis
  proof cases
    case 1
    with ascii_encodes [OF 1] show ?thesis by (metis append_Cons append_Nil)
  next
    case 3
    show ?thesis
    proof (cases t)
      case (Cons b1 t')
      have "is_valid_utf8 (b # t) = Some False \<or> ucp_to_utf8 (cp2 b b1) = [b, b1]"
        using 3 two_encodes [OF 3, of b1] by (auto simp: Cons utf8_walk nz_iff)
      with scalar_cps(1) Cons show ?thesis by (metis append_Cons append_Nil)
    qed (use 3 in \<open>auto simp: utf8_walk nz_iff\<close>)
  next
    case 4
    show ?thesis
    proof (cases "\<exists>b1 b2 t'. t = b1 # b2 # t'")
      case True
      then obtain b1 b2 t' where t: "t = b1 # b2 # t'" by blast
      have "is_valid_utf8 (b # t) = Some False \<or>
          scalar (cp3 b b1 b2) \<and> ucp_to_utf8 (cp3 b b1 b2) = [b, b1, b2]"
        using 4 three_encodes [OF 4, of b1 b2] scalar_cps(2) [of b b1 b2]
        by (auto simp: t utf8_walk nz_iff)
      with t show ?thesis by (metis append_Cons append_Nil)
    next
      case False
      then show ?thesis
        using 4 by (cases t rule: four_bytes) (auto simp: utf8_walk nz_iff)
    qed
  next
    case 5
    show ?thesis
    proof (cases "\<exists>b1 b2 b3 t'. t = b1 # b2 # b3 # t'")
      case True
      then obtain b1 b2 b3 t' where t: "t = b1 # b2 # b3 # t'" by blast
      have "is_valid_utf8 (b # t) = Some False \<or>
          scalar (cp4 b b1 b2 b3) \<and> ucp_to_utf8 (cp4 b b1 b2 b3) = [b, b1, b2, b3]"
        using 5 four_encodes [OF 5, of b1 b2 b3] scalar_cps(3) [of b b1 b2 b3]
        by (auto simp: t utf8_walk nz_iff)
      with t show ?thesis by (metis append_Cons append_Nil)
    next
      case False
      then show ?thesis
        using 5 by (cases t rule: four_bytes) (auto simp: utf8_walk nz_iff)
    qed
  qed (auto simp: utf8_walk)
qed

lemma valid_encode_all: "\<forall>cp\<in>set cps. scalar cp \<Longrightarrow> is_valid_utf8 (encode_all cps) = Some True"
  by (induction cps) (auto simp: encode_all_def valid_encode)

lemma is_valid_utf8_iff:
  "is_valid_utf8 s = Some (\<exists>cps. (\<forall>cp\<in>set cps. scalar cp) \<and> s = encode_all cps)"
proof (induction "length s" arbitrary: s rule: less_induct)
  case less
  show ?case
  proof (cases s)
    case Nil
    then show ?thesis by (auto simp: encode_all_def intro: exI [of _ "[]"])
  next
    case (Cons b t)
    from valid_front [of b t] show ?thesis
    proof (elim disjE exE conjE)
      assume no: "is_valid_utf8 (b # t) = Some False"
      then have "\<nexists>cps. (\<forall>cp\<in>set cps. scalar cp) \<and> s = encode_all cps"
        using valid_encode_all Cons by force
      with no Cons show ?thesis by simp
    next
      fix cp rest assume f: "scalar cp" "b # t = ucp_to_utf8 cp @ rest"
      have "length rest < length s"
        using f char_length_encode(1) [of cp] Cons by (auto simp: scalar_def)
      note IH = less [OF this]
      have step: "is_valid_utf8 s = is_valid_utf8 rest"
        using valid_encode [OF f(1), of rest] f(2) Cons by simp
      show ?thesis
      proof (cases "\<exists>cps. (\<forall>cp\<in>set cps. scalar cp) \<and> rest = encode_all cps")
        case True
        then obtain cps where "\<forall>cp\<in>set cps. scalar cp" "rest = encode_all cps" by blast
        then have "(\<forall>x\<in>set (cp # cps). scalar x) \<and> s = encode_all (cp # cps)"
          using f Cons by (simp add: encode_all_def)
        then have "\<exists>cps. (\<forall>cp\<in>set cps. scalar cp) \<and> s = encode_all cps" by blast
        with True IH step show ?thesis by simp
      next
        case False
        then have no: "is_valid_utf8 s = Some False" using IH step by simp
        then have "\<nexists>cps. (\<forall>cp\<in>set cps. scalar cp) \<and> s = encode_all cps"
          using valid_encode_all by force
        with no show ?thesis by simp
      qed
    qed
  qed
qed

lemma count_encode_all:
  assumes "\<forall>cp\<in>set cps. scalar cp"
  shows "utf8_count_codepoints (encode_all cps) = length cps"
    and "utf8_valid_byte_count (encode_all cps) = Some (length (encode_all cps))"
  using assms
  by (induction cps) (auto simp: encode_all_def count_encode byte_count_encode scalar_def)

text \<open>The tests never leave the string, because they stop at its terminator.\<close>

lemma nonzeros_upt:
  "i \<le> length s \<Longrightarrow> i \<le> j \<Longrightarrow> \<exists>r. nonzeros s [i..<j] = Some r \<and> (r \<longrightarrow> j \<le> length s)"
proof (induction "j - i" arbitrary: i)
  case (Suc k)
  then have "[i..<j] = i # [Suc i..<j]" by (simp add: upt_conv_Cons)
  moreover have "i < length s \<Longrightarrow> \<exists>r. nonzeros s [Suc i..<j] = Some r \<and> (r \<longrightarrow> j \<le> length s)"
    using Suc.hyps Suc.prems by (intro Suc.hyps(1)) auto
  ultimately show ?case using Suc.prems by (auto simp: peek_def)
qed auto

lemma conts_upt:
  "i \<le> length s \<Longrightarrow> i \<le> j \<Longrightarrow> \<exists>r. conts s [i..<j] = Some r \<and> (r \<longrightarrow> j \<le> length s)"
proof (induction "j - i" arbitrary: i)
  case (Suc k)
  then have "[i..<j] = i # [Suc i..<j]" by (simp add: upt_conv_Cons)
  moreover have "i < length s \<Longrightarrow> \<exists>r. conts s [Suc i..<j] = Some r \<and> (r \<longrightarrow> j \<le> length s)"
    using Suc.hyps Suc.prems by (intro Suc.hyps(1)) auto
  ultimately show ?case using Suc.prems by (auto simp: peek_def is_cont_iff)
qed auto

lemma small_ranges: "[1..<2] = [1 :: nat]" "[1..<3] = [1, 2 :: nat]" "[1..<4] = [1, 2, 3 :: nat]"
  by (simp_all add: upt_conv_Cons)

lemma nonzeros_total:
  "\<exists>r. nonzeros (b # t) [1] = Some r \<and> (r \<longrightarrow> 1 \<le> length t)"
  "\<exists>r. nonzeros (b # t) [1, 2] = Some r \<and> (r \<longrightarrow> 2 \<le> length t)"
  "\<exists>r. nonzeros (b # t) [1, 2, 3] = Some r \<and> (r \<longrightarrow> 3 \<le> length t)"
  using nonzeros_upt [of 1 "b # t" 2] nonzeros_upt [of 1 "b # t" 3] nonzeros_upt [of 1 "b # t" 4]
  unfolding small_ranges by fastforce+

lemma conts_total:
  "\<exists>r. conts (b # t) [1] = Some r" "\<exists>r. conts (b # t) [1, 2] = Some r"
  "\<exists>r. conts (b # t) [1, 2, 3] = Some r"
  using conts_upt [of 1 "b # t" 2] conts_upt [of 1 "b # t" 3] conts_upt [of 1 "b # t" 4]
  unfolding small_ranges by fastforce+

lemma byte_count_total: "\<exists>n. utf8_valid_byte_count s = Some n \<and> n \<le> length s"
proof (induction "length s" arbitrary: s rule: less_induct)
  case less
  show ?case
  proof (cases s)
    case (Cons b t)
    let ?f = utf8_valid_byte_count
    obtain n where t: "?f t = Some n" "n \<le> length t"
      using less Cons by (metis length_Cons lessI)
    have d: "\<exists>n. ?f (drop k t) = Some n \<and> n \<le> length t - k" for k
      using less [of "drop k t"] Cons by simp
    obtain n1 n2 n3 where d': "?f (drop 1 t) = Some n1" "n1 \<le> length t - 1"
      "?f (drop 2 t) = Some n2" "n2 \<le> length t - 2" "?f (drop 3 t) = Some n3" "n3 \<le> length t - 3"
      using d by metis
    obtain z1 z2 z3 where z: "nonzeros (b # t) [1] = Some z1" "z1 \<longrightarrow> 1 \<le> length t"
      "nonzeros (b # t) [1, 2] = Some z2" "z2 \<longrightarrow> 2 \<le> length t"
      "nonzeros (b # t) [1, 2, 3] = Some z3" "z3 \<longrightarrow> 3 \<le> length t"
      using nonzeros_total by metis
    obtain c1 c2 c3 where c: "conts (b # t) [1] = Some c1" "conts (b # t) [1, 2] = Some c2"
      "conts (b # t) [1, 2, 3] = Some c3"
      using conts_total by metis
    define two where "two \<longleftrightarrow> b AND 0xE0 = 0xC0 \<and> z1"
    define three where "three \<longleftrightarrow> b AND 0xF0 = 0xE0 \<and> z2"
    define four where "four \<longleftrightarrow> b AND 0xF8 = 0xF0 \<and> z3"
    have g: "(if b AND 0xE0 = 0xC0 then nonzeros (b # t) [1] else Some False) = Some two"
      "(if b AND 0xF0 = 0xE0 then nonzeros (b # t) [1, 2] else Some False) = Some three"
      "(if b AND 0xF8 = 0xF0 then nonzeros (b # t) [1, 2, 3] else Some False) = Some four"
      using z by (auto simp: two_def three_def four_def)
    have eq: "?f s = (if b AND 0x80 = 0 then map_option (\<lambda>n. n + 1) (?f t)
        else if two then (if c1 then map_option (\<lambda>n. n + 2) (?f (drop 1 t)) else ?f t)
        else if three then (if c2 then map_option (\<lambda>n. n + 3) (?f (drop 2 t)) else ?f t)
        else if four then (if c3 then map_option (\<lambda>n. n + 4) (?f (drop 3 t)) else ?f t)
        else ?f t)"
      unfolding Cons utf8_valid_byte_count.simps(2) Let_def g c Option.bind_lunit by simp
    have lens: "two \<Longrightarrow> 1 \<le> length t" "three \<Longrightarrow> 2 \<le> length t" "four \<Longrightarrow> 3 \<le> length t"
      using z by (auto simp: two_def three_def four_def)
    show ?thesis
      unfolding eq t(1) d'(1,3,5) using t(2) d'(2,4,6) lens by (auto simp: Cons)
  qed simp
qed

end
