(* ===== verification/Utf8_String.thy ===== *)
theory Utf8_String
  imports Utf8_Codec
begin

text \<open>
  The \<^verbatim>\<open>utf8_string\<close> object and the functions on raw UTF-8 strings (\<^verbatim>\<open>src/unicode.c\<close>, second
  half).  The object and its bytes are one heap block; the record keeps the data part,
  \<open>capacity + 1\<close> bytes, and the three sizes.  Sizes are natural numbers with the 64-bit
  wrap-around written out.  \<open>None\<close> is undefined behaviour or a loop that does not return, a
  NULL result is \<open>Some None\<close>.  The outcome of an allocation is a boolean argument; no object
  is larger than \<^verbatim>\<open>PTRDIFF_MAX\<close> bytes.  The wide-character classification and conversion
  functions depend on the locale and are arguments.  NULL arguments, which every function
  rejects in its first line, are left out.
\<close>

section \<open>Classification\<close>

definition is_codepoint_whitespace :: "(u32 \<Rightarrow> bool) \<Rightarrow> u32 \<Rightarrow> bool" where
  "is_codepoint_whitespace iswspace cp = iswspace cp"

definition is_utf8_whitespace :: "(u32 \<Rightarrow> bool) \<Rightarrow> bytes \<Rightarrow> bool option" where
  "is_utf8_whitespace iswspace s = map_option (is_codepoint_whitespace iswspace) (utf8_to_codepoint s)"

definition is_codepoint_digit :: "(u32 \<Rightarrow> bool) \<Rightarrow> u32 \<Rightarrow> bool" where
  "is_codepoint_digit iswdigit cp = iswdigit cp"

definition is_utf8_digit :: "(u32 \<Rightarrow> bool) \<Rightarrow> bytes \<Rightarrow> bool option" where
  "is_utf8_digit iswdigit s = map_option (is_codepoint_digit iswdigit) (utf8_to_codepoint s)"

definition is_codepoint_alpha :: "(u32 \<Rightarrow> bool) \<Rightarrow> u32 \<Rightarrow> bool" where
  "is_codepoint_alpha iswalpha cp = iswalpha cp"

definition is_utf8_alpha :: "(u32 \<Rightarrow> bool) \<Rightarrow> bytes \<Rightarrow> bool option" where
  "is_utf8_alpha iswalpha s = map_option (is_codepoint_alpha iswalpha) (utf8_to_codepoint s)"

definition is_codepoint_alnum :: "(u32 \<Rightarrow> bool) \<Rightarrow> u32 \<Rightarrow> bool" where
  "is_codepoint_alnum iswalnum cp = iswalnum cp"

definition is_utf8_alnum :: "(u32 \<Rightarrow> bool) \<Rightarrow> bytes \<Rightarrow> bool option" where
  "is_utf8_alnum iswalnum s = map_option (is_codepoint_alnum iswalnum) (utf8_to_codepoint s)"

definition is_codepoint_punct :: "(u32 \<Rightarrow> bool) \<Rightarrow> u32 \<Rightarrow> bool" where
  "is_codepoint_punct iswpunct cp = iswpunct cp"

definition is_utf8_punct :: "(u32 \<Rightarrow> bool) \<Rightarrow> bytes \<Rightarrow> bool option" where
  "is_utf8_punct iswpunct s = map_option (is_codepoint_punct iswpunct) (utf8_to_codepoint s)"

section \<open>Allocation\<close>

record utf8_string =
  us_data :: buffer
  us_length :: nat
  us_count :: nat
  us_capacity :: nat

definition SIZEOF_UTF8_STRING :: nat where
  "SIZEOF_UTF8_STRING = 32"

definition alloc_ok :: "bool \<Rightarrow> nat \<Rightarrow> bool" where
  "alloc_ok ok n \<longleftrightarrow> ok \<and> n < 2 ^ 63"

definition utf8_string_alloc :: "bool \<Rightarrow> nat \<Rightarrow> utf8_string option" where
  "utf8_string_alloc ok data_capacity =
     (if data_capacity > 2 ^ 64 - 1 - SIZEOF_UTF8_STRING - 1 then None
      else if \<not> alloc_ok ok (SIZEOF_UTF8_STRING + data_capacity + 1) then None
      else Some \<lparr>us_data = (malloc_buf (data_capacity + 1))[0 := Some 0], us_length = 0, us_count = 0,
                 us_capacity = data_capacity\<rparr>)"

definition utf8_string_grow :: "bool \<Rightarrow> nat \<Rightarrow> utf8_string \<Rightarrow> bool \<times> utf8_string" where
  "utf8_string_grow ok min_capacity s =
     (if us_capacity s \<ge> min_capacity then (True, s)
      else let doubled = us_capacity s * 2 mod 2 ^ 64;
               new_capacity = (if doubled < min_capacity then min_capacity else doubled)
      in if new_capacity > 2 ^ 64 - 1 - SIZEOF_UTF8_STRING - 1 then (False, s)
         else if \<not> alloc_ok ok (SIZEOF_UTF8_STRING + new_capacity + 1) then (False, s)
         else (True, s\<lparr>us_data := realloc_buf (us_data s) (new_capacity + 1),
                       us_capacity := new_capacity\<rparr>))"

section \<open>Construction\<close>

text \<open>The copy, without its terminator.\<close>

definition utf8_copy :: "bool \<Rightarrow> bytes \<Rightarrow> bytes option option" where
  "utf8_copy ok data =
     do {
       n \<leftarrow> utf8_valid_byte_count data;
       if \<not> alloc_ok ok (n + 1) then Some None
       else do {
         b \<leftarrow> mem_copy (malloc_buf (n + 1)) 0 data n;
         b \<leftarrow> wr b n 0;
         map_option Some (get_bytes b 0 n)
       }
     }"

definition utf8_new :: "bool \<Rightarrow> bytes \<Rightarrow> utf8_string option option" where
  "utf8_new ok data =
     do {
       n \<leftarrow> utf8_valid_byte_count data;
       case utf8_string_alloc ok n of None \<Rightarrow> Some None
       | Some s \<Rightarrow> do {
           b \<leftarrow> mem_copy (us_data s) 0 data n;
           b \<leftarrow> wr b n 0;
           stored \<leftarrow> get_bytes b 0 n;
           Some (Some (s\<lparr>us_data := b, us_length := n, us_count := utf8_count_codepoints stored\<rparr>))
         }
     }"

definition utf8_new_with_capacity :: "bool \<Rightarrow> nat \<Rightarrow> utf8_string option" where
  "utf8_new_with_capacity ok capacity = utf8_string_alloc ok capacity"

text \<open>The string a \<^verbatim>\<open>char*\<close> points to: the bytes before the first NUL of the block.\<close>

fun c_string :: "buffer \<Rightarrow> bytes option" where
  "c_string [] = None"
| "c_string (None # b) = None"
| "c_string (Some x # b) = (if x = 0 then Some [] else map_option ((#) x) (c_string b))"

definition utf8_clone :: "bool \<Rightarrow> utf8_string \<Rightarrow> utf8_string option option" where
  "utf8_clone ok s = do { data \<leftarrow> c_string (us_data s); utf8_new ok data }"

section \<open>Search and comparison\<close>

text \<open>The conversion of an offset to a 32-bit \<^verbatim>\<open>int\<close>; \<^verbatim>\<open>strstr\<close> is the first occurrence.\<close>

definition c_int :: "nat \<Rightarrow> int" where
  "c_int n = sint (word_of_nat n :: 32 word)"

definition utf8_index_of :: "utf8_string \<Rightarrow> bytes \<Rightarrow> int option" where
  "utf8_index_of s utf8 =
     do {
       hs \<leftarrow> c_string (us_data s);
       Some (case find_sub utf8 hs of None \<Rightarrow> -1 | Some i \<Rightarrow> c_int i)
     }"

fun last_index_loop :: "buffer \<Rightarrow> bytes \<Rightarrow> nat \<Rightarrow> int option" where
  "last_index_loop b nd i =
     do {
       x \<leftarrow> get_bytes b i (length nd);
       if x = nd then Some (c_int i)
       else case i of 0 \<Rightarrow> Some (-1) | Suc j \<Rightarrow> last_index_loop b nd j
     }"

declare last_index_loop.simps [simp del]

definition utf8_last_index_of :: "utf8_string \<Rightarrow> bytes \<Rightarrow> int option" where
  "utf8_last_index_of s utf8 =
     do {
       n \<leftarrow> utf8_valid_byte_count utf8;
       if n = 0 \<or> n > us_length s then Some (-1)
       else last_index_loop (us_data s) (take n utf8) (us_length s - n)
     }"

fun starts_loop :: "bytes \<Rightarrow> bytes \<Rightarrow> nat \<Rightarrow> bool option" where
  "starts_loop str prefix 0 = Some True"
| "starts_loop str prefix (Suc n) =
     do {
       x \<leftarrow> peek str 0;
       y \<leftarrow> peek prefix 0;
       if x \<noteq> y then Some False
       else if x = 0 then Some False
       else starts_loop (drop 1 str) (drop 1 prefix) n
     }"

definition utf8_starts_with :: "bytes \<Rightarrow> bytes \<Rightarrow> bool option" where
  "utf8_starts_with str prefix =
     do { n \<leftarrow> utf8_valid_byte_count prefix; starts_loop str prefix n }"

definition utf8_ends_with :: "bytes \<Rightarrow> bytes \<Rightarrow> bool option" where
  "utf8_ends_with str suffix =
     do {
       len \<leftarrow> utf8_valid_byte_count str;
       suf \<leftarrow> utf8_valid_byte_count suffix;
       if suf > len then Some False
       else Some (take suf (drop (len - suf) str) = take suf suffix)
     }"

definition utf8_contains :: "bytes \<Rightarrow> bytes \<Rightarrow> bool" where
  "utf8_contains str sub = (find_sub sub str \<noteq> None)"

text \<open>The sign of \<^verbatim>\<open>strcmp\<close> on two strings without NUL.\<close>

fun str_cmp :: "bytes \<Rightarrow> bytes \<Rightarrow> int" where
  "str_cmp [] [] = 0"
| "str_cmp [] (y # ys) = -1"
| "str_cmp (x # xs) [] = 1"
| "str_cmp (x # xs) (y # ys) = (if x = y then str_cmp xs ys else if x < y then -1 else 1)"

definition utf8_compare :: "bytes option \<Rightarrow> bytes option \<Rightarrow> int" where
  "utf8_compare s1 s2 =
     (case (s1, s2) of
        (None, None) \<Rightarrow> 0
      | (None, Some _) \<Rightarrow> -1
      | (Some _, None) \<Rightarrow> 1
      | (Some a, Some b) \<Rightarrow> str_cmp a b)"

definition utf8_equals :: "bytes option \<Rightarrow> bytes option \<Rightarrow> bool" where
  "utf8_equals s1 s2 =
     (case (s1, s2) of
        (Some a, Some b) \<Rightarrow> str_cmp a b = 0
      | (None, None) \<Rightarrow> True
      | _ \<Rightarrow> False)"

section \<open>Modification\<close>

definition sub64 :: "nat \<Rightarrow> nat \<Rightarrow> nat" where
  "sub64 a b = (a + 2 ^ 64 - b) mod 2 ^ 64"

definition utf8_append :: "bool \<Rightarrow> utf8_string \<Rightarrow> bytes \<Rightarrow> (bool \<times> utf8_string) option" where
  "utf8_append ok s data =
     do {
       n \<leftarrow> utf8_valid_byte_count data;
       let cnt = utf8_count_codepoints data;
       let (grown, s) = utf8_string_grow ok ((us_length s + n) mod 2 ^ 64) s;
       if \<not> grown then Some (False, s)
       else do {
         b \<leftarrow> mem_copy (us_data s) (us_length s) data n;
         b \<leftarrow> wr b (us_length s + n) 0;
         Some (True, s\<lparr>us_data := b, us_length := us_length s + n, us_count := us_count s + cnt\<rparr>)
       }
     }"

definition utf8_substr :: "bool \<Rightarrow> utf8_string \<Rightarrow> nat \<Rightarrow> nat \<Rightarrow> bytes option option" where
  "utf8_substr ok s index n =
     (if index \<ge> us_length s \<or> n = 0 then Some None
      else let n = (if (index + n) mod 2 ^ 64 > us_length s then us_length s - index else n)
      in if \<not> alloc_ok ok ((n + 1) mod 2 ^ 64) then Some None
         else map_option Some (get_bytes (us_data s) index n))"

definition utf8_insert :: "bool \<Rightarrow> utf8_string \<Rightarrow> nat \<Rightarrow> bytes \<Rightarrow> (bool \<times> utf8_string) option" where
  "utf8_insert ok s index data =
     (if index > us_length s then Some (False, s)
      else do {
        n \<leftarrow> utf8_valid_byte_count data;
        let cnt = utf8_count_codepoints data;
        if n = 0 then Some (True, s)
        else do {
          let (grown, s) = utf8_string_grow ok ((us_length s + n) mod 2 ^ 64) s;
          if \<not> grown then Some (False, s)
          else do {
            b \<leftarrow> mem_move (us_data s) (index + n) index (us_length s - index + 1);
            b \<leftarrow> mem_copy b index data n;
            Some (True, s\<lparr>us_data := b, us_length := us_length s + n, us_count := us_count s + cnt\<rparr>)
          }
        }
      })"

text \<open>The walk of \<^verbatim>\<open>utf8_remove\<close> over \<open>todo\<close> characters, at most; \<open>i\<close> is the byte offset.\<close>

fun remove_walk :: "buffer \<Rightarrow> nat \<Rightarrow> nat \<Rightarrow> nat \<Rightarrow> nat \<Rightarrow> (nat \<times> nat) option" where
  "remove_walk b len i removed 0 = Some (i, removed)"
| "remove_walk b len i removed (Suc todo) =
     (if i < len
      then do {
        x \<leftarrow> rd b i;
        if utf8_char_length x = 0 then Some (i, removed)
        else remove_walk b len (i + utf8_char_length x) (removed + 1) todo
      }
      else Some (i, removed))"

definition utf8_remove :: "utf8_string \<Rightarrow> nat \<Rightarrow> nat \<Rightarrow> (bool \<times> utf8_string) option" where
  "utf8_remove s index cnt =
     (if index \<ge> us_length s \<or> cnt = 0 then Some (False, s)
      else do {
        (i, removed) \<leftarrow> remove_walk (us_data s) (us_length s) index 0 cnt;
        let i = (if i > us_length s then us_length s else i);
        b \<leftarrow> mem_move (us_data s) index i (us_length s - i + 1);
        Some (True, s\<lparr>us_data := b, us_length := us_length s - (i - index),
                      us_count := sub64 (us_count s) removed\<rparr>)
      })"

text \<open>Replacing the bytes at one occurrence, the common part of the two functions below.\<close>

definition replace_at :: "bool \<Rightarrow> utf8_string \<Rightarrow> nat \<Rightarrow> nat \<Rightarrow> bytes \<Rightarrow> nat \<Rightarrow> nat \<Rightarrow> nat
    \<Rightarrow> (bool \<times> utf8_string) option" where
  "replace_at ok s offset old_len new new_len old_count new_count =
     (let target = sub64 (us_length s + new_len) old_len;
          (grown, s) = (if new_len > old_len then utf8_string_grow ok target s else (True, s))
      in if \<not> grown then Some (False, s)
         else do {
           b \<leftarrow> mem_move (us_data s) (offset + new_len) (offset + old_len)
                  (us_length s - offset - old_len + 1);
           b \<leftarrow> mem_copy b offset new new_len;
           Some (True, s\<lparr>us_data := b, us_length := target,
                         us_count := sub64 (us_count s + new_count) old_count\<rparr>)
         })"

definition utf8_replace :: "bool \<Rightarrow> utf8_string \<Rightarrow> bytes \<Rightarrow> bytes \<Rightarrow> (bool \<times> utf8_string) option" where
  "utf8_replace ok s old new =
     do {
       hs \<leftarrow> c_string (us_data s);
       case find_sub old hs of None \<Rightarrow> Some (False, s)
       | Some offset \<Rightarrow> do {
           old_len \<leftarrow> utf8_valid_byte_count old;
           new_len \<leftarrow> utf8_valid_byte_count new;
           replace_at ok s offset old_len new new_len
             (utf8_count_codepoints old) (utf8_count_codepoints new)
         }
     }"

text \<open>\<open>cur\<close> is the offset of the cursor, \<open>al n\<close> the outcome of the allocation of replacement \<open>n\<close>.\<close>

partial_function (option) replace_loop ::
    "(nat \<Rightarrow> bool) \<Rightarrow> bytes \<Rightarrow> bytes \<Rightarrow> nat \<Rightarrow> nat \<Rightarrow> nat \<Rightarrow> nat \<Rightarrow> nat \<Rightarrow> utf8_string
      \<Rightarrow> (nat \<times> utf8_string) option" where
  "replace_loop al old new old_len new_len old_count new_count cur s =
     do {
       hs \<leftarrow> c_string (drop cur (us_data s));
       case find_sub old hs of None \<Rightarrow> Some (0, s)
       | Some k \<Rightarrow> do {
           (done, s) \<leftarrow> replace_at (al cur) s (cur + k) old_len new new_len old_count new_count;
           if \<not> done then Some (0, s)
           else do {
             (n, s) \<leftarrow> replace_loop al old new old_len new_len old_count new_count (cur + k + new_len) s;
             Some (n + 1, s)
           }
         }
     }"

definition utf8_replace_all ::
    "(nat \<Rightarrow> bool) \<Rightarrow> utf8_string \<Rightarrow> bytes \<Rightarrow> bytes \<Rightarrow> (nat \<times> utf8_string) option" where
  "utf8_replace_all al s old new =
     do {
       old_len \<leftarrow> utf8_valid_byte_count old;
       if old_len = 0 then Some (0, s)
       else do {
         new_len \<leftarrow> utf8_valid_byte_count new;
         replace_loop al old new old_len new_len (utf8_count_codepoints old) (utf8_count_codepoints new) 0 s
       }
     }"

text \<open>
  \<^verbatim>\<open>utf8_reverse\<close> reads the bytes of the new object, of which only the first is written, and
  stores through \<^verbatim>\<open>&scratch[write_pos]\<close>, \<open>32 * write_pos\<close> bytes behind the start of the object
  and not inside its data.  A store over the fields of the object or outside its block is
  undefined here.
\<close>

function reverse_walk :: "buffer \<Rightarrow> nat \<Rightarrow> nat \<Rightarrow> nat \<Rightarrow> buffer option option" where
  "reverse_walk b len i write_pos =
     (if i < len
      then do {
        x \<leftarrow> rd b i;
        let n = utf8_char_length x;
        if n = 0 \<or> write_pos < n then Some None
        else do {
          let target = (write_pos - n) * SIZEOF_UTF8_STRING;
          cs \<leftarrow> mem_read b i n;
          b \<leftarrow> (if target < SIZEOF_UTF8_STRING then None
                else put_cells b (target - SIZEOF_UTF8_STRING) cs);
          reverse_walk b len (i + n) (write_pos - n)
        }
      }
      else Some (Some b))"
  by auto
termination by (relation "measure (\<lambda>(b, len, i, w). len - i)") auto

declare reverse_walk.simps [simp del]

definition utf8_reverse :: "bool \<Rightarrow> utf8_string \<Rightarrow> utf8_string option option" where
  "utf8_reverse ok s =
     (if us_length s = 0 then Some None
      else case utf8_new_with_capacity ok ((us_length s + 1) mod 2 ^ 64) of
        None \<Rightarrow> Some None
      | Some scratch \<Rightarrow> do {
          r \<leftarrow> reverse_walk (us_data scratch) (us_length s) 0 (us_length s);
          case r of None \<Rightarrow> Some None
          | Some b \<Rightarrow> do { b \<leftarrow> wr b (us_length s) 0; Some (Some (scratch\<lparr>us_data := b\<rparr>)) }
        })"

definition utf8_concat :: "bool \<Rightarrow> utf8_string \<Rightarrow> utf8_string \<Rightarrow> utf8_string option option" where
  "utf8_concat ok s1 s2 =
     (case utf8_new_with_capacity ok ((us_length s1 + us_length s2) mod 2 ^ 64) of
        None \<Rightarrow> Some None
      | Some r \<Rightarrow> do {
          c1 \<leftarrow> mem_read (us_data s1) 0 (us_length s1);
          b \<leftarrow> put_cells (us_data r) 0 c1;
          c2 \<leftarrow> mem_read (us_data s2) 0 (us_length s2);
          b \<leftarrow> put_cells b (us_length s1) c2;
          b \<leftarrow> wr b (us_length s1 + us_length s2) 0;
          Some (Some (r\<lparr>us_data := b, us_length := us_length s1 + us_length s2,
                        us_count := us_count s1 + us_count s2\<rparr>))
        })"

end
