(* ===== verification/Utf8_Text.thy ===== *)
theory Utf8_Text
  imports Utf8_String
begin

text \<open>
  The functions of \<^verbatim>\<open>src/unicode.c\<close> that trim, convert and split text.  The in-place functions
  on \<^verbatim>\<open>char*\<close> are functions from the old to the new string; \<open>None\<close> is a read or write outside
  the caller's buffer.
\<close>

section \<open>Trimming\<close>

function ltrim_loop :: "(u32 \<Rightarrow> bool) \<Rightarrow> bytes \<Rightarrow> nat \<Rightarrow> nat option" where
  "ltrim_loop iswspace s i =
     (if i < length s
      then do {
        ws \<leftarrow> is_utf8_whitespace iswspace (drop i s);
        let n = utf8_char_length (s ! i);
        if \<not> ws \<or> n = 0 then Some i else ltrim_loop iswspace s (i + n)
      }
      else Some i)"
  by auto
termination by (relation "measure (\<lambda>(ws, s, i). length s - i)") auto

declare ltrim_loop.simps [simp del]

text \<open>The move of \<^verbatim>\<open>len - i + 1\<close> bytes is out of range when the cursor ran past the terminator.\<close>

definition utf8_ltrim :: "(u32 \<Rightarrow> bool) \<Rightarrow> bytes \<Rightarrow> bytes option" where
  "utf8_ltrim iswspace s =
     do { i \<leftarrow> ltrim_loop iswspace s 0; if i > length s then None else Some (drop i s) }"

text \<open>Walking back over continuation bytes to the first byte of a character.\<close>

fun back_to_lead :: "bytes \<Rightarrow> nat \<Rightarrow> nat" where
  "back_to_lead s 0 = 0"
| "back_to_lead s (Suc k) = (if is_cont (s ! Suc k) then back_to_lead s k else Suc k)"

lemma back_to_lead_le: "back_to_lead s k \<le> k"
  by (induction k) auto

function rtrim_walk :: "(u32 \<Rightarrow> bool) \<Rightarrow> bytes \<Rightarrow> nat \<Rightarrow> nat option" where
  "rtrim_walk iswspace s i =
     (if i > 0
      then let start = back_to_lead s (i - 1); n = utf8_char_length (s ! start)
      in if n > 0 \<and> start + n = i
         then do {
           ws \<leftarrow> is_utf8_whitespace iswspace (drop start s);
           if ws then rtrim_walk iswspace s start else Some i
         }
         else Some i
      else Some i)"
  by auto
termination
  by (relation "measure (\<lambda>(ws, s, i). i)") (auto intro: le_less_trans [OF back_to_lead_le])

declare rtrim_walk.simps [simp del]

definition utf8_rtrim :: "(u32 \<Rightarrow> bool) \<Rightarrow> bytes \<Rightarrow> bytes option" where
  "utf8_rtrim iswspace s = do { i \<leftarrow> rtrim_walk iswspace s (length s); Some (take i s) }"

definition utf8_trim :: "(u32 \<Rightarrow> bool) \<Rightarrow> bytes \<Rightarrow> bytes option" where
  "utf8_trim iswspace s = do { s \<leftarrow> utf8_ltrim iswspace s; utf8_rtrim iswspace s }"

definition MAX_TRIM_CODEPOINTS :: nat where
  "MAX_TRIM_CODEPOINTS = 256"

text \<open>The set of code points to trim, in the order they are found.\<close>

function trim_set :: "bytes \<Rightarrow> nat \<Rightarrow> u32 list \<Rightarrow> u32 list option" where
  "trim_set chars k acc =
     (if k < length chars \<and> length acc < MAX_TRIM_CODEPOINTS
      then let n = utf8_char_length (chars ! k)
      in if n = 0 \<or> k + n > length chars then trim_set chars (k + 1) acc
         else do {
           cp \<leftarrow> utf8_to_codepoint (drop k chars);
           trim_set chars (k + n)
             (if cp \<noteq> REPLACEMENT \<and> cp \<notin> set acc \<and> length acc < MAX_TRIM_CODEPOINTS
              then acc @ [cp] else acc)
         }
      else Some acc)"
  by auto
termination by (relation "measure (\<lambda>(chars, k, acc). length chars - k)") auto

declare trim_set.simps [simp del]

function trim_front :: "u32 list \<Rightarrow> bytes \<Rightarrow> nat \<Rightarrow> nat option" where
  "trim_front cps s i =
     (if i < length s
      then let n = utf8_char_length (s ! i)
      in if n = 0 \<or> i + n > length s then Some i
         else do {
           cp \<leftarrow> utf8_to_codepoint (drop i s);
           if cp \<noteq> REPLACEMENT \<and> cp \<in> set cps then trim_front cps s (i + n) else Some i
         }
      else Some i)"
  by auto
termination by (relation "measure (\<lambda>(cps, s, i). length s - i)") auto

declare trim_front.simps [simp del]

function trim_back :: "u32 list \<Rightarrow> bytes \<Rightarrow> nat \<Rightarrow> nat option" where
  "trim_back cps s i =
     (if i > 0
      then let start = back_to_lead s (i - 1); n = utf8_char_length (s ! start)
      in if is_cont (s ! start) then Some i
         else if n = 0 \<or> start + n \<noteq> i then Some i
         else do {
           cp \<leftarrow> utf8_to_codepoint (drop start s);
           if cp \<noteq> REPLACEMENT \<and> cp \<in> set cps then trim_back cps s start else Some i
         }
      else Some i)"
  by auto
termination
  by (relation "measure (\<lambda>(cps, s, i). i)") (auto intro: le_less_trans [OF back_to_lead_le])

declare trim_back.simps [simp del]

definition utf8_trim_chars :: "bytes \<Rightarrow> bytes \<Rightarrow> bytes option" where
  "utf8_trim_chars s chars =
     do {
       cps \<leftarrow> trim_set chars 0 [];
       i \<leftarrow> trim_front cps s 0;
       let s = (if i > 0 then drop i s else s);
       j \<leftarrow> trim_back cps s (length s);
       Some (take j s)
     }"

text \<open>\<^verbatim>\<open>while (i < len && str[i] == c) i++\<close> and \<^verbatim>\<open>while (len > 0 && str[len - 1] == c) len--\<close>.\<close>

fun skip_char :: "u8 \<Rightarrow> bytes \<Rightarrow> bytes" where
  "skip_char c [] = []"
| "skip_char c (x # s) = (if x = c then skip_char c s else x # s)"

fun drop_char :: "u8 \<Rightarrow> bytes \<Rightarrow> nat \<Rightarrow> nat" where
  "drop_char c s 0 = 0"
| "drop_char c s (Suc n) = (if s ! n = c then drop_char c s n else Suc n)"

definition utf8_trim_char :: "bytes \<Rightarrow> u8 \<Rightarrow> bytes" where
  "utf8_trim_char s c = (let s = skip_char c s in take (drop_char c s (length s)) s)"

section \<open>Case conversion\<close>

text \<open>
  The ASCII fast path: the test \<^verbatim>\<open>byte - 'A' + 1u <= 26u\<close> in unsigned arithmetic, and the bit
  set or cleared by it.
\<close>

definition case_bit :: "u32 \<Rightarrow> u8 \<Rightarrow> u8" where
  "case_bit letter b = push_bit 5 (if (ucast b - letter + 1 :: u32) \<le> 26 then 1 else 0)"

text \<open>
  One walk for both directions: \<open>fast\<close> is the ASCII conversion, \<open>isw\<close> and \<open>tow\<close> are the locale's
  test and conversion, \<open>cap\<close> is the size of the caller's buffer.  \<open>acc\<close> is the finished part,
  the list argument the rest of the string.
\<close>

function case_walk ::
    "(u8 \<Rightarrow> u8) \<Rightarrow> (u32 \<Rightarrow> bool) \<Rightarrow> (u32 \<Rightarrow> u32) \<Rightarrow> nat \<Rightarrow> bytes \<Rightarrow> bytes \<Rightarrow> bytes option" where
  "case_walk fast isw tow cap acc s =
     (if s = [] then Some acc
      else if hd s < 0x80 then case_walk fast isw tow cap (acc @ [fast (hd s)]) (tl s)
      else do {
        cp \<leftarrow> utf8_to_codepoint s;
        let old_len = utf8_char_length (hd s);
        if old_len = 0 then Some (acc @ s)
        else if length s < old_len then None
        else if isw cp
        then do {
          let utf8 = takeWhile (\<lambda>x. x \<noteq> 0) (ucp_to_utf8 (tow cp));
          new_len \<leftarrow> utf8_valid_byte_count utf8;
          if length acc + new_len + (length s - old_len) + 1 > cap then None
          else case_walk fast isw tow cap (acc @ take new_len utf8) (drop old_len s)
        }
        else case_walk fast isw tow cap (acc @ take old_len s) (drop old_len s)
      })"
  by auto
termination
  by (relation "measure (\<lambda>(fast, isw, tow, cap, acc, s). length s)") auto

declare case_walk.simps [simp del]

definition utf8_tolower :: "(u32 \<Rightarrow> bool) \<Rightarrow> (u32 \<Rightarrow> u32) \<Rightarrow> nat \<Rightarrow> bytes \<Rightarrow> bytes option" where
  "utf8_tolower iswupper towlower cap s =
     case_walk (\<lambda>b. b OR case_bit 65 b) iswupper towlower cap [] s"

definition utf8_toupper :: "(u32 \<Rightarrow> bool) \<Rightarrow> (u32 \<Rightarrow> u32) \<Rightarrow> nat \<Rightarrow> bytes \<Rightarrow> bytes option" where
  "utf8_toupper iswlower towupper cap s =
     case_walk (\<lambda>b. b AND NOT (case_bit 97 b)) iswlower towupper cap [] s"

section \<open>Splitting\<close>

text \<open>The first pass counts the delimiters; the callers exclude the empty one.\<close>

function count_delims :: "bytes \<Rightarrow> bytes \<Rightarrow> nat \<Rightarrow> nat" where
  "count_delims c d i =
     (if i < length c \<and> d \<noteq> []
      then if i + length d \<le> length c \<and> take (length d) (drop i c) = d
           then 1 + count_delims c d (i + length d)
           else let n = utf8_char_length (c ! i)
                in if n = 0 then 0 else count_delims c d (i + n)
      else 0)"
  by auto
termination
  by (relation "measure (\<lambda>(c, d, i). length c - i)")
     (auto intro: diff_less_mono2 simp flip: length_greater_0_conv)

declare count_delims.simps [simp del]

text \<open>
  The second pass.  \<open>al\<close> and \<open>al'\<close> are the outcomes of the two allocations of a part, \<open>slots\<close> is
  the size of the result array.  The inner \<open>None\<close> is \<^verbatim>\<open>split_alloc_failed\<close>.
\<close>

definition split_part ::
    "(nat \<Rightarrow> bool) \<Rightarrow> (nat \<Rightarrow> bool) \<Rightarrow> nat \<Rightarrow> bytes \<Rightarrow> nat \<Rightarrow> nat \<Rightarrow> utf8_string list
      \<Rightarrow> utf8_string list option option" where
  "split_part al al' slots c start i parts =
     (if length parts \<ge> slots then None
      else if \<not> alloc_ok (al (length parts)) (i - start + 1) then Some None
      else do {
        p \<leftarrow> utf8_new (al' (length parts)) (take (i - start) (drop start c));
        Some (map_option (\<lambda>p. parts @ [p]) p)
      })"

function split_walk ::
    "(nat \<Rightarrow> bool) \<Rightarrow> (nat \<Rightarrow> bool) \<Rightarrow> nat \<Rightarrow> bytes \<Rightarrow> bytes \<Rightarrow> nat \<Rightarrow> nat \<Rightarrow> utf8_string list
      \<Rightarrow> utf8_string list option option" where
  "split_walk al al' slots c d i start parts =
     (if i < length c \<and> d \<noteq> []
      then if i + length d \<le> length c \<and> take (length d) (drop i c) = d
           then do {
             r \<leftarrow> split_part al al' slots c start i parts;
             case r of None \<Rightarrow> Some None
             | Some parts \<Rightarrow> split_walk al al' slots c d (i + length d) (i + length d) parts
           }
           else let n = utf8_char_length (c ! i)
                in if n = 0 then split_part al al' slots c start (length c) parts
                   else split_walk al al' slots c d (i + n) start parts
      else split_part al al' slots c start (length c) parts)"
  by auto
termination
  by (relation "measure (\<lambda>(al, al', slots, c, d, i, start, parts). length c - i)")
     (auto intro: diff_less_mono2 simp flip: length_greater_0_conv)

declare split_walk.simps [simp del]

definition utf8_split ::
    "bool \<Rightarrow> (nat \<Rightarrow> bool) \<Rightarrow> (nat \<Rightarrow> bool) \<Rightarrow> utf8_string \<Rightarrow> bytes \<Rightarrow> utf8_string list option option" where
  "utf8_split ok al al' s delim =
     do {
       n \<leftarrow> utf8_valid_byte_count delim;
       if n = 0 then Some None
       else do {
         c \<leftarrow> get_bytes (us_data s) 0 (us_length s);
         let d = take n delim;
         let slots = 1 + count_delims c d 0;
         if \<not> ok then Some None
         else split_walk al al' slots c d 0 0 []
       }
     }"

text \<open>Removing an element of a pointer array: the rest moves down and the last entry is NULL.\<close>

definition utf8_array_remove :: "'a option list \<Rightarrow> nat \<Rightarrow> 'a option list" where
  "utf8_array_remove a index =
     (if index \<ge> length a then a else take index a @ drop (index + 1) a @ [None])"

end
