(* ===== verification/Utf8_Correct.thy ===== *)
theory Utf8_Correct
  imports Utf8_Text
begin

text \<open>
  Correctness of the \<^verbatim>\<open>utf8_string\<close> operations on well-formed arguments: the invariant
  \<open>uholds s c\<close> says that the object holds the bytes \<open>c\<close>, that its byte and code point counters
  agree with them, and that the block is as large as the capacity says.
\<close>

named_theorems utf8_ops \<open>behaviour of the utf8_string operations under the invariant\<close>

definition uholds :: "utf8_string \<Rightarrow> bytes \<Rightarrow> bool" where
  "uholds s c \<longleftrightarrow> us_length s = length c \<and> us_count s = utf8_count_codepoints c \<and>
     length (us_data s) = us_capacity s + 1 \<and> us_capacity s < 2 ^ 63 \<and> 0 \<notin> set c \<and>
     (\<exists>junk. us_data s = map Some c @ Some 0 # junk)"

text \<open>Data all of whose bytes belong to structurally sound sequences.\<close>

definition well_formed :: "bytes \<Rightarrow> bool" where
  "well_formed d \<longleftrightarrow> 0 \<notin> set d \<and> length d < 2 ^ 63 \<and> utf8_valid_byte_count d = Some (length d)"

lemma well_formed_encode_all:
  assumes "\<forall>cp\<in>set cps. scalar cp" "0 \<notin> set cps" "length (encode_all cps) < 2 ^ 63"
  shows "well_formed (encode_all cps)"
proof -
  have "0 \<notin> set (ucp_to_utf8 cp)" if "scalar cp" "cp \<noteq> 0" for cp
  proof -
    from that(1) have "unat cp < 0x110000" by (simp add: scalar_def)
    then show ?thesis
      by (cases rule: ucp_shapes) (use that(2) in auto)
  qed
  then have "0 \<notin> set (encode_all cps)"
    using assms(1,2) by (auto simp: encode_all_def)
  then show ?thesis
    using assms count_encode_all(2) by (simp add: well_formed_def)
qed

definition fits :: "bool \<Rightarrow> utf8_string \<Rightarrow> nat \<Rightarrow> bool" where
  "fits ok s m \<longleftrightarrow> m \<le> us_capacity s \<or> ok \<and> 33 + max m (2 * us_capacity s) < 2 ^ 63"

lemma count_append: "utf8_count_codepoints (a @ b) = utf8_count_codepoints a + utf8_count_codepoints b"
  by (induction a) auto

lemma count_le: "utf8_count_codepoints c \<le> length c"
  by (induction c) auto

lemma uholds_data:
  assumes "uholds s c"
  obtains junk where "us_data s = map Some c @ Some 0 # junk"
  using assms by (auto simp: uholds_def)

lemma c_string_block:
  "0 \<notin> set c \<Longrightarrow> c_string (map Some c @ Some 0 # junk) = Some c"
  by (induction c) auto

lemma uholds_c_string: "uholds s c \<Longrightarrow> c_string (us_data s) = Some c"
  by (auto simp: uholds_def c_string_block)

lemma grow_uholds:
  assumes "uholds s c" "length c \<le> m"
  shows "if fits ok s m
         then \<exists>s' junk. utf8_string_grow ok m s = (True, s') \<and> uholds s' c \<and> m \<le> us_capacity s' \<and>
                us_data s' = map Some c @ Some 0 # junk
         else utf8_string_grow ok m s = (False, s)"
proof -
  obtain junk where d: "us_data s = map Some c @ Some 0 # junk"
    using assms(1) by (rule uholds_data)
  have cap: "us_capacity s < 2 ^ 63" "length (us_data s) = us_capacity s + 1"
    using assms(1) by (auto simp: uholds_def)
  show ?thesis
  proof (cases "m \<le> us_capacity s")
    case True
    then show ?thesis using assms d by (auto simp: utf8_string_grow_def fits_def)
  next
    case False
    define n where "n = max m (2 * us_capacity s)"
    have "us_capacity s * 2 mod 2 ^ 64 = 2 * us_capacity s" using cap(1) by simp
    then have nc: "(if us_capacity s * 2 mod 2 ^ 64 < m then m else us_capacity s * 2 mod 2 ^ 64) = n"
      by (simp add: n_def max_def)
    have eq: "utf8_string_grow ok m s =
        (if n > 2 ^ 64 - 1 - SIZEOF_UTF8_STRING - 1 then (False, s)
         else if \<not> alloc_ok ok (SIZEOF_UTF8_STRING + n + 1) then (False, s)
         else (True, s\<lparr>us_data := realloc_buf (us_data s) (n + 1), us_capacity := n\<rparr>))"
      unfolding utf8_string_grow_def Let_def nc using False by simp
    show ?thesis
    proof (cases "ok \<and> 33 + n < 2 ^ 63")
      case True
      have len: "length (us_data s) \<le> n + 1" using False cap(2) by (simp add: n_def)
      then have "realloc_buf (us_data s) (n + 1)
          = map Some c @ Some 0 # junk @ replicate (n + 1 - length (us_data s)) None"
        by (simp add: realloc_buf_def d)
      moreover have "utf8_string_grow ok m s
          = (True, s\<lparr>us_data := realloc_buf (us_data s) (n + 1), us_capacity := n\<rparr>)"
        unfolding eq using True by (simp add: SIZEOF_UTF8_STRING_def alloc_ok_def)
      moreover have "m \<le> n" by (simp add: n_def)
      moreover have "length (realloc_buf (us_data s) (n + 1)) = n + 1" by simp
      ultimately show ?thesis
        using True assms(1) unfolding fits_def n_def [symmetric] by (auto simp: uholds_def)
    next
      case no: False
      then have "utf8_string_grow ok m s = (False, s)"
        unfolding eq by (auto simp: SIZEOF_UTF8_STRING_def alloc_ok_def)
      with no False show ?thesis unfolding fits_def n_def [symmetric] by auto
    qed
  qed
qed

lemma uholds_update:
  assumes "uholds s c" "0 \<notin> set c'" "b = map Some c' @ Some 0 # junk" "length b = length (us_data s)"
  shows "uholds (s\<lparr>us_data := b, us_length := length c', us_count := utf8_count_codepoints c'\<rparr>) c'"
  using assms by (auto simp: uholds_def)

lemma append_uholds [utf8_ops]:
  assumes "uholds s c" "well_formed d"
  shows "if fits ok s (length c + length d)
         then \<exists>s'. utf8_append ok s d = Some (True, s') \<and> uholds s' (c @ d)
         else utf8_append ok s d = Some (False, s)"
proof -
  have lt: "length c < 2 ^ 63" "us_length s = length c" "us_count s = utf8_count_codepoints c"
    using assms(1) by (auto simp: uholds_def)
  have vc: "utf8_valid_byte_count d = Some (length d)" "length d < 2 ^ 63" "0 \<notin> set d"
    using assms(2) by (auto simp: well_formed_def)
  note g = grow_uholds [OF assms(1), of "length c + length d" ok]
  show ?thesis
  proof (cases "fits ok s (length c + length d)")
    case True
    with g obtain s' junk where s': "utf8_string_grow ok (length c + length d) s = (True, s')"
      "uholds s' c" "length c + length d \<le> us_capacity s'" "us_data s' = map Some c @ Some 0 # junk"
      by auto
    have l': "us_length s' = length c" "us_count s' = utf8_count_codepoints c"
      "length (us_data s') = us_capacity s' + 1" "0 \<notin> set c"
      using s'(2) by (auto simp: uholds_def)
    have "length d \<le> length (Some (0 :: u8) # junk)" using s'(3,4) l'(3) by simp
    then have w: "mem_copy (us_data s') (length c) d (length d)
        = Some (map Some (c @ d) @ drop (length d) (Some 0 # junk))"
      by (simp add: mem_copy_def mem_write_def s'(4))
    obtain y z where yz: "drop (length d) (Some 0 # junk) = y # z"
      using s'(3,4) l'(3) by (cases "drop (length d) (Some 0 # junk)") auto
    have "wr (map Some (c @ d) @ y # z) (length c + length d) 0 = Some (map Some (c @ d) @ Some 0 # z)"
      using wr_map_here [of "c @ d" y z 0] by simp
    moreover have "length (map Some (c @ d) @ Some 0 # z) = length (us_data s')"
      using arg_cong [OF yz, of length] s'(3,4) l'(3) by simp
    then have "uholds (s'\<lparr>us_data := map Some (c @ d) @ Some 0 # z, us_length := length (c @ d),
        us_count := utf8_count_codepoints (c @ d)\<rparr>) (c @ d)"
      using l'(4) vc(3) by (intro uholds_update [OF s'(2)]) auto
    ultimately show ?thesis
      using True s'(1) w lt vc yz l' by (simp add: utf8_append_def count_append)
  next
    case False
    with g show ?thesis using lt vc by (simp add: utf8_append_def)
  qed
qed

lemma insert_uholds [utf8_ops]:
  assumes "uholds s c" "well_formed d"
  shows "if i \<le> length c \<and> (d = [] \<or> fits ok s (length c + length d))
         then \<exists>s'. utf8_insert ok s i d = Some (True, s') \<and> uholds s' (insert_at i d c)
         else utf8_insert ok s i d = Some (False, s)"
proof -
  have lt: "length c < 2 ^ 63" "us_length s = length c" "us_count s = utf8_count_codepoints c"
    using assms(1) by (auto simp: uholds_def)
  have vc: "utf8_valid_byte_count d = Some (length d)" "length d < 2 ^ 63" "0 \<notin> set d"
    using assms(2) by (auto simp: well_formed_def)
  note g = grow_uholds [OF assms(1), of "length c + length d" ok]
  consider "length c < i" | "i \<le> length c" "d = []" | "i \<le> length c" "d \<noteq> []" by linarith
  then show ?thesis
  proof cases
    case 3
    have start: "utf8_insert ok s i d = (let (grown, s) = utf8_string_grow ok (length c + length d) s
      in if \<not> grown then Some (False, s)
         else do {
           b \<leftarrow> mem_move (us_data s) (i + length d) i (us_length s - i + 1);
           b \<leftarrow> mem_copy b i d (length d);
           Some (True, s\<lparr>us_data := b, us_length := us_length s + length d,
             us_count := us_count s + utf8_count_codepoints d\<rparr>) })"
      using 3 lt vc by (simp add: utf8_insert_def)
    show ?thesis
    proof (cases "fits ok s (length c + length d)")
      case True
      with g obtain s' junk where s': "utf8_string_grow ok (length c + length d) s = (True, s')"
        "uholds s' c" "length c + length d \<le> us_capacity s'" "us_data s' = map Some c @ Some 0 # junk"
        by auto
      have l': "us_length s' = length c" "us_count s' = utf8_count_codepoints c"
        "length (us_data s') = us_capacity s' + 1" "0 \<notin> set c"
        using s'(2) by (auto simp: uholds_def)
      have fit: "length d + length c < length (map Some c @ Some 0 # junk)"
        using s'(3,4) l'(3) by simp
      have cnt: "utf8_count_codepoints (insert_at i d c) = utf8_count_codepoints c + utf8_count_codepoints d"
        using count_append [of "take i c" "drop i c"] by (simp add: insert_at_def count_append)
      have moved: "do { b \<leftarrow> mem_move (us_data s') (i + length d) i (length c - i + 1); mem_copy b i d (length d) }
          = Some (map Some (insert_at i d c) @ Some 0 # drop (length d) junk)"
        using insert_cells [OF 3(1) fit] by (simp add: s'(4) mem_copy_def mem_write_put_cells)
      have "0 \<notin> set (insert_at i d c)"
        using l'(4) vc(3) by (auto simp: insert_at_def dest: in_set_takeD in_set_dropD)
      moreover have "length (map Some (insert_at i d c) @ Some 0 # drop (length d) junk) = length (us_data s')"
        using s'(3,4) l'(3) by simp
      ultimately have "uholds (s'\<lparr>us_data := map Some (insert_at i d c) @ Some 0 # drop (length d) junk,
          us_length := length (insert_at i d c),
          us_count := utf8_count_codepoints (insert_at i d c)\<rparr>) (insert_at i d c)"
        by (intro uholds_update [OF s'(2) _ refl])
      with moved show ?thesis
        unfolding start using True s'(1) l' 3 cnt by (auto split: bind_splits)
    next
      case False
      with g 3 show ?thesis by (simp add: start)
    qed
  qed (use lt vc assms(1) in \<open>auto simp: utf8_insert_def\<close>)
qed

text \<open>Construction: the object holds the first \<open>n\<close> bytes, both counters right.\<close>

lemma new_stores [utf8_ops]:
  assumes "0 \<notin> set d" "utf8_valid_byte_count d = Some n" "n \<le> length d"
  shows "if ok \<and> 33 + n < 2 ^ 63
         then \<exists>s. utf8_new ok d = Some (Some s) \<and> uholds s (take n d)
         else utf8_new ok d = Some None"
proof (cases "ok \<and> 33 + n < 2 ^ 63")
  case True
  let ?b = "(malloc_buf (n + 1))[0 := Some 0]"
  have al: "utf8_string_alloc ok n
      = Some \<lparr>us_data = ?b, us_length = 0, us_count = 0, us_capacity = n\<rparr>"
    using True by (simp add: utf8_string_alloc_def alloc_ok_def SIZEOF_UTF8_STRING_def)
  have len: "length ?b = n + 1" by simp
  then have w: "mem_copy ?b 0 d n = Some (map Some (take n d) @ drop n ?b)"
    using assms(3) by (simp add: mem_copy_def mem_write_def)
  obtain y where y: "drop n ?b = [y]"
    using len by (metis (no_types, lifting) add_diff_cancel_left' length_drop length_Suc_conv length_0_conv One_nat_def)
  have ln: "length (take n d) = n" using assms(3) by simp
  have w2: "wr (map Some (take n d) @ [y]) n 0 = Some (map Some (take n d) @ [Some 0])"
    using wr_map_here [of "take n d" y "[]" 0] by (simp only: ln)
  have g: "get_bytes (map Some (take n d) @ [Some 0]) 0 n = Some (take n d)"
    using get_bytes_append [of 0 n "take n d" "[Some 0]"] ln by simp
  have nz: "0 \<notin> set (take n d)" using assms(1) by (auto dest: in_set_takeD)
  have "utf8_new ok d = Some (Some \<lparr>us_data = map Some (take n d) @ [Some 0], us_length = n,
      us_count = utf8_count_codepoints (take n d), us_capacity = n\<rparr>)"
    using al w y w2 g by (simp add: utf8_new_def assms(2))
  then show ?thesis using True nz ln by (simp add: uholds_def)
next
  case False
  have "utf8_string_alloc ok n = None"
    using False by (auto simp: utf8_string_alloc_def alloc_ok_def SIZEOF_UTF8_STRING_def)
  with False assms(2) show ?thesis by (auto simp: utf8_new_def)
qed

lemma new_uholds:
  assumes "well_formed d"
  shows "if ok \<and> 33 + length d < 2 ^ 63
         then \<exists>s. utf8_new ok d = Some (Some s) \<and> uholds s d
         else utf8_new ok d = Some None"
  using new_stores [of d "length d" ok] assms by (auto simp: well_formed_def split: if_splits)

text \<open>Removal at character positions.\<close>

lemma encode_all_simps [simp]:
  "encode_all [] = []" "encode_all (cp # cps) = ucp_to_utf8 cp @ encode_all cps"
  "encode_all (xs @ ys) = encode_all xs @ encode_all ys"
  by (simp_all add: encode_all_def)

lemma rd_map_here: "rd (map Some c @ Some x # z) (length c) = Some x"
  by (simp add: rd_def nth_append)

lemma remove_walk_encode:
  assumes "\<forall>cp\<in>set cps. scalar cp"
  shows "remove_walk (map Some (encode_all pre @ encode_all cps) @ rest)
      (length (encode_all pre) + length (encode_all cps)) (length (encode_all pre)) r n
    = Some (length (encode_all pre) + length (encode_all (take n cps)), r + min n (length cps))"
  using assms
proof (induction n arbitrary: pre cps r)
  case (Suc n)
  show ?case
  proof (cases cps)
    case (Cons cp cps')
    then have cp: "unat cp < 0x110000" using Suc.prems by (simp add: scalar_def)
    obtain x xs where x: "ucp_to_utf8 cp = x # xs"
      using char_length_encode(1) [OF cp] by (cases "ucp_to_utf8 cp") auto
    have cl: "utf8_char_length x = length (ucp_to_utf8 cp)"
      using char_length_encode(2) [OF cp] by (simp add: x)
    have r: "rd (map Some (encode_all pre @ encode_all cps) @ rest) (length (encode_all pre)) = Some x"
      using rd_map_here [of "encode_all pre" x "map Some (xs @ encode_all cps') @ rest"]
      by (simp add: Cons x)
    have "0 < length (encode_all cps)" "length (ucp_to_utf8 cp) \<noteq> 0" using x Cons by simp_all
    with Suc.IH [of cps' "pre @ [cp]" "r + 1"] Suc.prems r show ?thesis
      by (simp add: Cons cl add.assoc)
  qed simp
qed simp

lemma sub64_le: "b \<le> a \<Longrightarrow> a < 2 ^ 64 \<Longrightarrow> sub64 a b = a - b"
  unfolding sub64_def using mod_add_self2 [of "a - b" "2 ^ 64"] by simp

lemma remove_uholds [utf8_ops]:
  assumes h: "uholds s (encode_all cps)" and sc: "\<forall>cp\<in>set cps. scalar cp" and k: "k < length cps"
    and n: "0 < n"
  shows "\<exists>s'. utf8_remove s (length (encode_all (take k cps))) n = Some (True, s') \<and>
    uholds s' (encode_all (take k cps @ drop (k + n) cps))"
proof -
  let ?c = "encode_all cps" and ?pre = "encode_all (take k cps)" and ?mid = "encode_all (take n (drop k cps))"
    and ?suf = "encode_all (drop (k + n) cps)"
  have parts: "cps = take k cps @ take n (drop k cps) @ drop (k + n) cps"
    by (metis add.commute append_take_drop_id drop_drop)
  have c: "?c = ?pre @ ?mid @ ?suf" using arg_cong [OF parts, of encode_all] by simp
  have dk: "encode_all (drop k cps) = ?mid @ ?suf"
    using arg_cong [OF append_take_drop_id [of n "drop k cps"], of encode_all]
    by (simp add: add.commute)
  obtain junk where d: "us_data s = map Some ?c @ Some 0 # junk" using h by (rule uholds_data)
  have us: "us_length s = length ?c" "us_count s = utf8_count_codepoints ?c"
    "length (us_data s) = us_capacity s + 1" "0 \<notin> set ?c" "us_capacity s < 2 ^ 63"
    using h by (auto simp: uholds_def)
  have walk: "remove_walk (us_data s) (us_length s) (length ?pre) 0 n
      = Some (length ?pre + length ?mid, min n (length cps - k))"
    using remove_walk_encode [of "drop k cps" "take k cps" "Some 0 # junk" 0 n] sc
    by (simp add: d us(1) c dk) (simp add: dk [symmetric] in_set_dropD)
  have ne: "?mid \<noteq> []"
  proof -
    obtain cp z where z: "take n (drop k cps) = cp # z"
      using k n by (cases "take n (drop k cps)") auto
    then have "cp \<in> set cps" by (metis in_set_dropD in_set_takeD list.set_intros(1))
    with sc have "ucp_to_utf8 cp \<noteq> []" using char_length_encode(1) by (auto simp: scalar_def)
    with z show ?thesis by simp
  qed
  obtain b junk' where b: "mem_move (us_data s) (length ?pre) (length ?pre + length ?mid)
      (length ?c - length ?pre - length ?mid + 1) = Some b"
    "length b = length ?c + 1 + length junk" "b = map Some (?pre @ ?suf) @ Some 0 # junk'"
    using close_gap [of "length ?pre" "length ?mid" ?c junk] by (auto simp: c d delete_at_def)
  have nz: "0 \<notin> set (?pre @ ?suf)" using us(4) by (simp add: c)
  have sub_sc: "\<forall>cp\<in>set (take k cps). scalar cp" "\<forall>cp\<in>set (drop (k + n) cps). scalar cp"
    "\<forall>cp\<in>set (take n (drop k cps)). scalar cp"
    using sc by (meson in_set_takeD in_set_dropD)+
  have cnt: "utf8_count_codepoints ?c = length cps" "utf8_count_codepoints ?mid = min n (length cps - k)"
    "utf8_count_codepoints (?pre @ ?suf) = length cps - min n (length cps - k)"
    using count_encode_all(1) [OF sc] sub_sc [THEN count_encode_all(1)] k
    by (simp_all add: count_append min.commute min_def)
  have sub: "sub64 (us_count s) (min n (length cps - k)) = utf8_count_codepoints (?pre @ ?suf)"
  proof -
    have "length cps < 2 ^ 64" using us cnt(1) count_le [of ?c] d by simp
    then show ?thesis unfolding us(2) cnt by (intro sub64_le) auto
  qed
  have "utf8_remove s (length ?pre) n = Some (True, s\<lparr>us_data := b, us_length := length (?pre @ ?suf),
      us_count := utf8_count_codepoints (?pre @ ?suf)\<rparr>)"
    using walk ne n b(1) sub by (simp add: utf8_remove_def us(1) c)
  moreover have "uholds (s\<lparr>us_data := b, us_length := length (?pre @ ?suf),
      us_count := utf8_count_codepoints (?pre @ ?suf)\<rparr>) (?pre @ ?suf)"
    using b(2) d by (intro uholds_update [OF h nz b(3)]) simp
  ultimately show ?thesis by simp
qed

end
