(* ===== verification/Utf8_Theorems.thy ===== *)
theory Utf8_Theorems
  imports Utf8_Correct Text_Spec "HOL-Library.Code_Target_Nat"
begin

text \<open>
  The properties of the Unicode functions: the codec, validation, the \<^verbatim>\<open>utf8_string\<close> object
  as an editable sequence of code points, and the behaviour of construction, case conversion
  and reversal.
\<close>

section \<open>The object as a sequence of code points\<close>

definition chars :: "u32 list \<Rightarrow> bool" where
  "chars cps \<longleftrightarrow> (\<forall>cp\<in>set cps. scalar cp) \<and> 0 \<notin> set cps"

definition holds_chars :: "utf8_string \<Rightarrow> u32 list \<Rightarrow> bool" where
  "holds_chars s cps \<longleftrightarrow> uholds s (encode_all cps) \<and> chars cps"

datatype char_edit = Append_Chars "u32 list" | Insert_Chars nat "u32 list" | Remove_Chars nat nat

text \<open>A client that edits at a character position finds the byte offset by walking.\<close>

definition char_offset :: "utf8_string \<Rightarrow> nat \<Rightarrow> nat option" where
  "char_offset s k = map_option fst (remove_walk (us_data s) (us_length s) 0 0 k)"

fun utf8_edit :: "bool \<times> char_edit \<Rightarrow> utf8_string \<Rightarrow> (bool \<times> utf8_string) option" where
  "utf8_edit (ok, Append_Chars a) s = utf8_append ok s (encode_all a)"
| "utf8_edit (ok, Insert_Chars k a) s = do { i \<leftarrow> char_offset s k; utf8_insert ok s i (encode_all a) }"
| "utf8_edit (ok, Remove_Chars k n) s = do { i \<leftarrow> char_offset s k; utf8_remove s i n }"

fun char_effect :: "bool \<times> char_edit \<Rightarrow> u32 list \<Rightarrow> u32 list" where
  "char_effect (_, Append_Chars a) c = c @ a"
| "char_effect (_, Insert_Chars k a) c = take k c @ a @ drop k c"
| "char_effect (_, Remove_Chars k n) c = take k c @ drop (k + n) c"

fun char_legal :: "bool \<times> char_edit \<Rightarrow> bool" where
  "char_legal (_, Append_Chars a) \<longleftrightarrow> chars a \<and> length (encode_all a) < 2 ^ 63"
| "char_legal (_, Insert_Chars k a) \<longleftrightarrow> chars a \<and> length (encode_all a) < 2 ^ 63"
| "char_legal (_, Remove_Chars k n) \<longleftrightarrow> True"

lemma chars_take_drop: "chars c \<Longrightarrow> chars (take k c)" "chars c \<Longrightarrow> chars (drop k c)"
  by (auto simp: chars_def dest: in_set_takeD in_set_dropD)

lemma chars_append: "chars (a @ b) \<longleftrightarrow> chars a \<and> chars b"
  by (auto simp: chars_def)

lemma char_offset_encode:
  assumes "holds_chars s c"
  shows "char_offset s k = Some (length (encode_all (take k c)))"
proof -
  have h: "uholds s (encode_all c)" "\<forall>cp\<in>set c. scalar cp"
    using assms by (auto simp: holds_chars_def chars_def)
  obtain junk where "us_data s = map Some (encode_all c) @ Some 0 # junk" using h(1) by (rule uholds_data)
  moreover have "us_length s = length (encode_all c)" using h(1) by (simp add: uholds_def)
  ultimately show ?thesis
    using remove_walk_encode [OF h(2), of "[]" "Some 0 # junk" 0 k] by (simp add: char_offset_def)
qed

lemma insert_at_encode:
  "insert_at (length (encode_all (take k c))) (encode_all a) (encode_all c)
    = encode_all (take k c @ a @ drop k c)"
proof -
  have "encode_all c = encode_all (take k c) @ encode_all (drop k c)"
    by (metis append_take_drop_id encode_all_simps(3))
  then show ?thesis by (simp add: insert_at_def)
qed

lemma utf8_edit_step:
  assumes "holds_chars s c" "char_legal e"
  shows "\<exists>ok s'. utf8_edit e s = Some (ok, s') \<and> holds_chars s' (if ok then char_effect e c else c)"
proof -
  have h: "uholds s (encode_all c)" "chars c" "\<forall>cp\<in>set c. scalar cp"
    using assms(1) by (auto simp: holds_chars_def chars_def)
  note off = char_offset_encode [OF assms(1)]
  have wf: "well_formed (encode_all a)" if "chars a" "length (encode_all a) < 2 ^ 63" for a
    using that well_formed_encode_all by (auto simp: chars_def)
  obtain ok ed where e: "e = (ok, ed)" by (cases e)
  show ?thesis
  proof (cases ed)
    case (Append_Chars a)
    then have a: "chars a" "length (encode_all a) < 2 ^ 63" using assms(2) by (simp_all add: e)
    from append_uholds [OF h(1) wf [OF a], of ok] a(1) assms(1) h(2) show ?thesis
      by (auto simp: e Append_Chars holds_chars_def chars_append split: if_splits)
  next
    case (Insert_Chars k a)
    then have a: "chars a" "length (encode_all a) < 2 ^ 63" using assms(2) by (simp_all add: e)
    have "chars (take k c @ a @ drop k c)" using a(1) h(2) by (simp add: chars_append chars_take_drop)
    with insert_uholds [OF h(1) wf [OF a], of "length (encode_all (take k c))" ok] assms(1)
    show ?thesis unfolding insert_at_encode
      by (auto simp: e Insert_Chars off holds_chars_def simp del: encode_all_simps split: if_splits)
  next
    case (Remove_Chars k n)
    show ?thesis
    proof (cases "k < length c \<and> 0 < n")
      case True
      have "chars (take k c @ drop (k + n) c)" using h(2) by (simp add: chars_append chars_take_drop)
      with remove_uholds [OF h(1,3), of k n] True show ?thesis
        by (auto simp: e Remove_Chars off holds_chars_def simp del: encode_all_simps)
    next
      case False
      then have "utf8_remove s (length (encode_all (take k c))) n = Some (False, s)"
        using h(1) by (auto simp: utf8_remove_def uholds_def)
      with assms(1) show ?thesis by (auto simp: e Remove_Chars off)
    qed
  qed
qed

interpretation utext: text_buffer holds_chars char_legal utf8_edit char_effect
  by unfold_locales (rule utf8_edit_step)

text \<open>The object \<^verbatim>\<open>utf8_new("")\<close> returns.\<close>

definition empty_utf8 :: utf8_string where
  "empty_utf8 = \<lparr>us_data = [Some 0], us_length = 0, us_count = 0, us_capacity = 0\<rparr>"

lemma empty_utf8_holds: "holds_chars empty_utf8 []" "utf8_new True [] = Some (Some empty_utf8)"
  by (simp_all add: holds_chars_def chars_def uholds_def empty_utf8_def)
     (simp add: utf8_new_def utf8_string_alloc_def alloc_ok_def SIZEOF_UTF8_STRING_def malloc_buf_def
        mem_copy_def mem_write_def wr_def get_bytes_def)

section \<open>The ASCII path of the case conversion\<close>

lemma case_bit_iff:
  assumes "letter = 65 \<or> letter = 97"
  shows "case_bit letter b
    = (if unat letter \<le> unat b + 1 \<and> unat b < unat letter + 26 then 32 else 0)"
proof -
  have "ucast b - (letter - 1) \<le> (26 :: u32)
      \<longleftrightarrow> unat letter \<le> unat b + 1 \<and> unat b < unat letter + 26"
    using assms unat_u8_lt [of b]
    by (auto simp: word_le_nat_alt unat_sub_if_size unat_ucast_32 word_size split: if_splits)
  moreover have "ucast b - (letter - 1) = (ucast b - letter + 1 :: u32)" by simp
  ultimately show ?thesis by (simp only: case_bit_def) simp
qed

lemma bit_5: "bit b 5 \<longleftrightarrow> odd (unat b div 32)" for b :: u8
proof -
  have "bit b 5 \<longleftrightarrow> bit (unat b) 5" by (simp add: bit_unsigned_iff)
  then show ?thesis by (simp add: bit_iff_odd [of "unat b"])
qed

lemma bit_32: "bit (32 :: u8) n \<longleftrightarrow> n = 5"
proof -
  have "(32 :: u8) = push_bit 5 1" by simp
  then show ?thesis by (auto simp only: bit_push_bit_iff bit_1_iff possible_bit_word) auto
qed

lemma set_bit_5: "even (unat b div 32) \<Longrightarrow> b OR 32 = b + 32" for b :: u8
  by (rule disjunctive_add [symmetric]) (auto simp only: bit_32 bit_5)

lemma clear_bit_5: "odd (unat b div 32) \<Longrightarrow> b AND - 33 = b - 32" for b :: u8
  using disjunctive_diff [of "32 :: u8" b] by (simp add: bit_32 [simplified] bit_5)

lemma case_walk_ascii:
  assumes "\<forall>b\<in>set s. b < 0x80"
  shows "case_walk fast isw tow cap acc s = Some (acc @ map fast s)"
  using assms by (induction s arbitrary: acc) (simp_all add: case_walk.simps)

section \<open>Properties\<close>

text \<open>(C17) Round trip of the codec: for every Unicode scalar value the decoder reads back what
  the encoder wrote, whatever follows, and \<^verbatim>\<open>utf8_char_length\<close> of the first byte is the
  number of bytes written (1 to 4).  Conversely a decoded character other than U+FFFD is a
  scalar value and the text starts with exactly its encoding, so overlong forms,
  surrogates and truncated sequences all decode to U+FFFD.\<close>

theorem utf8_codec_roundtrip:
  "(scalar cp \<longrightarrow> utf8_to_codepoint (ucp_to_utf8 cp @ rest) = Some cp \<and>
      utf8_char_length (hd (ucp_to_utf8 cp)) = length (ucp_to_utf8 cp) \<and>
      length (ucp_to_utf8 cp) \<in> {1..4}) \<and>
   (s \<noteq> [] \<longrightarrow> (\<exists>cp'. utf8_to_codepoint s = Some cp' \<and>
      (cp' = REPLACEMENT \<or> scalar cp' \<and> (\<exists>rest'. s = ucp_to_utf8 cp' @ rest'))))"
proof (intro conjI impI)
  assume cp: "scalar cp"
  then have lt: "unat cp < 0x110000" by (simp add: scalar_def)
  show "utf8_to_codepoint (ucp_to_utf8 cp @ rest) = Some cp" using cp by (rule decode_encode)
  show "utf8_char_length (hd (ucp_to_utf8 cp)) = length (ucp_to_utf8 cp)"
    using lt by (rule char_length_encode(2))
  show "length (ucp_to_utf8 cp) \<in> {1..4}" using lt by (cases rule: ucp_shapes) simp_all
next
  assume "s \<noteq> []"
  then obtain b t where s: "s = b # t" by (cases s) auto
  show "\<exists>cp'. utf8_to_codepoint s = Some cp' \<and>
      (cp' = REPLACEMENT \<or> scalar cp' \<and> (\<exists>rest'. s = ucp_to_utf8 cp' @ rest'))"
    unfolding s by (rule decode_front [of b t]) auto
qed

theorem utf8_codec_roundtrip_witness:
  "utf8_to_codepoint (ucp_to_utf8 0x20AC @ [33]) = Some 0x20AC \<and> length (ucp_to_utf8 0x20AC) = 3"
proof -
  have "scalar 0x20AC" "length (ucp_to_utf8 0x20AC) = 3" by (simp_all add: scalar_def ucp_to_utf8_def)
  with utf8_codec_roundtrip [of "0x20AC" "[33]" "[]"] show ?thesis by simp
qed

text \<open>(C18) Validation is exact and memory safe: for every byte string \<^verbatim>\<open>is_valid_utf8\<close> returns
  without reading behind the terminator, and it returns true precisely on concatenations
  of encodings of scalar values; on these \<^verbatim>\<open>utf8_count_codepoints\<close> is the number of
  characters and \<^verbatim>\<open>utf8_valid_byte_count\<close> the number of bytes.\<close>

theorem is_valid_utf8_exact:
  "is_valid_utf8 s = Some (\<exists>cps. (\<forall>cp\<in>set cps. scalar cp) \<and> s = encode_all cps) \<and>
   (\<forall>cps. (\<forall>cp\<in>set cps. scalar cp) \<longrightarrow>
      utf8_count_codepoints (encode_all cps) = length cps \<and>
      utf8_valid_byte_count (encode_all cps) = Some (length (encode_all cps)))"
  using is_valid_utf8_iff count_encode_all by blast

theorem is_valid_utf8_exact_witness:
  "is_valid_utf8 [0xC3, 0xA9, 0x21] = Some True \<and> is_valid_utf8 [0xC0, 0x80] = Some False \<and>
   utf8_count_codepoints (encode_all [0xE9, 0x21]) = 2"
proof -
  have e: "encode_all [0xE9, 0x21] = [0xC3, 0xA9, 0x21]"
    by (simp add: ucp_to_utf8_def)
  have s: "\<forall>cp\<in>set [0xE9, 0x21 :: u32]. scalar cp" by (simp add: scalar_def)
  have "is_valid_utf8 [0xC0, 0x80] = Some False" by code_simp
  moreover have "\<exists>cps. (\<forall>cp\<in>set cps. scalar cp) \<and> [0xC3, 0xA9, 0x21] = encode_all cps"
    using e s by metis
  ultimately show ?thesis
    using is_valid_utf8_exact [of "[0xC3, 0xA9, 0x21]"] s by fastforce
qed

text \<open>(C19) Refinement: any sequence of appends, insertions and removals at character positions,
  with any outcomes of the allocations, stays inside the object's block; afterwards the
  object holds the encodings of the characters that the same edits give on a list of code
  points, with the byte counter, the code point counter and the terminator all in step.\<close>

theorem utf8_edits_refine:
  assumes "holds_chars s c" "list_all char_legal es"
  shows "\<exists>oks t. utext.run es s = Some (oks, t) \<and> length oks = length es \<and>
    holds_chars t (utext.replay (zip es oks) c) \<and>
    us_count t = length (utext.replay (zip es oks) c) \<and>
    us_length t = length (encode_all (utext.replay (zip es oks) c))"
proof -
  obtain oks t where t: "utext.run es s = Some (oks, t)" "length oks = length es"
    "holds_chars t (utext.replay (zip es oks) c)"
    using utext.run_replays [OF assms] by blast
  moreover have "us_count t = length (utext.replay (zip es oks) c)"
    using t(3) by (auto simp: holds_chars_def uholds_def chars_def count_encode_all(1))
  moreover have "us_length t = length (encode_all (utext.replay (zip es oks) c))"
    using t(3) by (simp add: holds_chars_def uholds_def)
  ultimately show ?thesis by blast
qed

theorem utf8_edits_refine_witness:
  "\<exists>oks t. utext.run [(True, Append_Chars [0xE9, 0x61]), (False, Insert_Chars 1 [0x20AC]),
       (True, Remove_Chars 0 1)] empty_utf8 = Some (oks, t) \<and> length oks = 3"
proof -
  have "scalar 0xE9" "scalar 0x61" "scalar 0x20AC" by (simp_all add: scalar_def)
  moreover have "length (encode_all [0xE9, 0x61]) = 3" "length (encode_all [0x20AC]) = 3"
    by (simp_all add: ucp_to_utf8_def)
  ultimately have "list_all char_legal [(True, Append_Chars [0xE9, 0x61]),
      (False, Insert_Chars 1 [0x20AC]), (True, Remove_Chars 0 1)]"
    by (simp add: chars_def del: encode_all_simps)
  from utf8_edits_refine [OF empty_utf8_holds(1) this] show ?thesis
    by (auto simp del: utext.run.simps)
qed

text \<open>Construction: \<^verbatim>\<open>utf8_new\<close> stores the first \<open>n\<close> bytes of its argument, where \<open>n\<close> is
  the number of structurally valid bytes, with counters that agree with what is stored;
  it fails exactly when the allocation does.  So valid text is copied whole, while an
  argument with an invalid byte loses a byte at its end and keeps the invalid one.\<close>

theorem utf8_new_prefix:
  assumes "0 \<notin> set d" "length d + 33 < 2 ^ 63"
  shows "(\<exists>n s. utf8_valid_byte_count d = Some n \<and> n \<le> length d \<and> utf8_new True d = Some (Some s) \<and>
      uholds s (take n d)) \<and>
    (is_valid_utf8 d = Some True \<longrightarrow> (\<exists>s. utf8_new True d = Some (Some s) \<and> uholds s d)) \<and>
    utf8_new False d = Some None"
proof -
  obtain n where n: "utf8_valid_byte_count d = Some n" "n \<le> length d"
    using byte_count_total by blast
  note new = new_stores [OF assms(1) n]
  obtain s where s: "utf8_new True d = Some (Some s)" "uholds s (take n d)"
    using new [of True] assms(2) n(2) by auto
  moreover have "take n d = d" if "is_valid_utf8 d = Some True"
  proof -
    from that obtain cps where "\<forall>cp\<in>set cps. scalar cp" "d = encode_all cps"
      by (auto simp: is_valid_utf8_iff)
    then show ?thesis using count_encode_all(2) n(1) by simp
  qed
  ultimately show ?thesis using new [of False] n by auto
qed

theorem utf8_new_prefix_witness:
  "\<exists>s. utf8_new True [0x80, 0x41] = Some (Some s) \<and> uholds s [0x80]"
proof -
  have "utf8_valid_byte_count [0x80, 0x41] = Some 1" by code_simp
  with utf8_new_prefix [of "[0x80, 0x41]"] show ?thesis by auto
qed

text \<open>Case conversion of ASCII text: \<^verbatim>\<open>utf8_tolower\<close> and \<^verbatim>\<open>utf8_toupper\<close> never fail, keep
  the length and move every letter to the other case, but the branchless range test is one
  too wide, so \<^verbatim>\<open>'@'\<close> becomes a backquote in lower case and a backquote becomes \<^verbatim>\<open>'@'\<close> in upper
  case.\<close>

theorem utf8_case_ascii:
  assumes "\<forall>b\<in>set s. b < 0x80"
  shows "utf8_tolower iswupper towlower cap s
      = Some (map (\<lambda>b. if b = 0x40 \<or> 0x41 \<le> b \<and> b \<le> 0x5A then b + 32 else b) s) \<and>
    utf8_toupper iswlower towupper cap s
      = Some (map (\<lambda>b. if b = 0x60 \<or> 0x61 \<le> b \<and> b \<le> 0x7A then b - 32 else b) s)"
proof -
  have nat_eq: "b = 0x40 \<longleftrightarrow> unat b = 0x40" "b = 0x60 \<longleftrightarrow> unat b = 0x60" for b :: u8
    by (simp_all add: word_unat_eq_iff)
  have lo: "b OR case_bit 65 b = (if b = 0x40 \<or> 0x41 \<le> b \<and> b \<le> 0x5A then b + 32 else b)" for b
  proof (cases "64 \<le> unat b \<and> unat b < 91")
    case True
    then have "unat b div 32 = 2" by linarith
    with True show ?thesis
      by (auto simp: case_bit_iff set_bit_5 word_le_nat_alt nat_eq)
  qed (auto simp: case_bit_iff word_le_nat_alt nat_eq)
  have up: "b AND NOT (case_bit 97 b) = (if b = 0x60 \<or> 0x61 \<le> b \<and> b \<le> 0x7A then b - 32 else b)" for b
  proof (cases "96 \<le> unat b \<and> unat b < 123")
    case True
    then have "unat b div 32 = 3" by linarith
    with True show ?thesis
      by (auto simp: case_bit_iff clear_bit_5 word_le_nat_alt nat_eq)
  qed (auto simp: case_bit_iff word_le_nat_alt nat_eq)
  show ?thesis
    using assms by (simp add: utf8_tolower_def utf8_toupper_def case_walk_ascii lo up)
qed

theorem utf8_case_ascii_witness:
  "utf8_tolower (\<lambda>_. False) id 4 [0x40, 0x41, 0x62] = Some [0x60, 0x61, 0x62]"
  using utf8_case_ascii [of "[0x40, 0x41, 0x62]" "\<lambda>_. False" id 4 "\<lambda>_. False" id] by simp

text \<open>\<^verbatim>\<open>utf8_reverse\<close> has no defined result: for every object that holds at least one byte
  and every successful allocation it either stores over the fields of the new object,
  stores behind its block, or reads a byte of it that was never written.\<close>

theorem utf8_reverse_undefined:
  assumes "uholds s c" "c \<noteq> []" "length c + 34 < 2 ^ 63"
  shows "utf8_reverse True s = None"
proof -
  define n where "n = length c"
  define b where "b = (malloc_buf (n + 2))[0 := Some (0 :: u8)]"
  have n: "us_length s = n" "0 < n" "n + 34 < 2 ^ 63" using assms by (auto simp: uholds_def n_def)
  have al: "utf8_new_with_capacity True ((us_length s + 1) mod 2 ^ 64)
      = Some \<lparr>us_data = b, us_length = 0, us_count = 0, us_capacity = n + 1\<rparr>"
    using n
    by (simp add: utf8_new_with_capacity_def utf8_string_alloc_def alloc_ok_def SIZEOF_UTF8_STRING_def b_def)
  have b: "length b = n + 2" "rd b 0 = Some 0" "rd b 1 = None" "mem_read b 0 1 = Some [Some 0]"
    "put_cells b 0 [Some 0] = Some b"
    by (simp_all add: b_def rd_def mem_read_def put_cells_def malloc_buf_def)
  have len0: "utf8_char_length 0 = 1" by (simp add: utf8_char_length_def)
  consider "n = 1" | "n = 2" | "2 < n" using n(2) by linarith
  then have "reverse_walk b n 0 n = None"
  proof cases
    case 1
    then show ?thesis using b len0 by (subst reverse_walk.simps) (simp add: SIZEOF_UTF8_STRING_def)
  next
    case 2
    have "reverse_walk b 2 1 1 = None" using b(3) by (subst reverse_walk.simps) simp
    with 2 b len0 show ?thesis
      by (subst reverse_walk.simps) (simp add: SIZEOF_UTF8_STRING_def)
  next
    case 3
    then have "put_cells b ((n - 1) * 32 - 32) [Some 0] = None"
      using b(1) by (simp add: put_cells_def)
    with 3 b len0 show ?thesis
      by (subst reverse_walk.simps) (simp add: SIZEOF_UTF8_STRING_def)
  qed
  then show ?thesis using n al by (simp add: utf8_reverse_def)
qed

theorem utf8_reverse_undefined_witness:
  "utf8_reverse True \<lparr>us_data = [Some 0x61, Some 0], us_length = 1, us_count = 1, us_capacity = 1\<rparr> = None"
  by (rule utf8_reverse_undefined [of _ "[0x61]"]) (simp_all add: uholds_def)

end
