(* ===== verification/Strsim.thy ===== *)
theory Strsim
  imports Byte_Strings Complex_Main
begin

text \<open>
  The string similarity measures of \<^verbatim>\<open>src/strsim.c\<close>.  Arguments are the bytes of the two
  strings; the NULL checks of the first lines are left out.  A result is \<open>Inl\<close> of the
  negative error code or \<open>Inr\<close> of the value stored through the output pointer; \<open>None\<close> is
  undefined behaviour (a read of a cell never written, an access outside a block).  Blocks
  of \<^verbatim>\<open>size_t\<close> are lists of cells, and the byte counts passed to \<^verbatim>\<open>malloc\<close> wrap at 64 bits.
  Cell values never exceed the sum of the lengths and are natural numbers.  The arithmetic
  on \<^verbatim>\<open>double\<close> is an argument: the measures compute integers exactly and combine them in one
  floating-point expression.
\<close>

type_synonym cells = "nat option list"

definition ld :: "cells \<Rightarrow> nat \<Rightarrow> nat option" where
  "ld d i = (if i < length d then d ! i else None)"

definition st :: "cells \<Rightarrow> nat \<Rightarrow> nat \<Rightarrow> cells option" where
  "st d i v = (if i < length d then Some (d[i := Some v]) else None)"

definition malloc_cells :: "nat \<Rightarrow> cells" where
  "malloc_cells n = replicate (n * 8 mod 2 ^ 64 div 8) None"

definition min2 :: "nat \<Rightarrow> nat \<Rightarrow> nat" where
  "min2 a b = (if a < b then a else b)"

definition max2 :: "nat \<Rightarrow> nat \<Rightarrow> nat" where
  "max2 a b = (if a > b then a else b)"

definition min3 :: "nat \<Rightarrow> nat \<Rightarrow> nat \<Rightarrow> nat" where
  "min3 a b c = min2 a (min2 b c)"

definition ALPHABET_SIZE :: nat where
  "ALPHABET_SIZE = 256"

text \<open>\<open>fill f g i k d\<close>: the loop that stores \<open>g i\<close> at index \<open>f i\<close> for \<open>k\<close> values from \<open>i\<close> on.\<close>

fun fill :: "(nat \<Rightarrow> nat) \<Rightarrow> (nat \<Rightarrow> nat) \<Rightarrow> nat \<Rightarrow> nat \<Rightarrow> cells \<Rightarrow> cells option" where
  "fill f g i 0 d = Some d"
| "fill f g i (Suc k) d = do { d \<leftarrow> st d (f i) (g i); fill f g (i + 1) k d }"

section \<open>Double arithmetic\<close>

record 'f double_ops =
  d_of :: "nat \<Rightarrow> 'f"
  d_add :: "'f \<Rightarrow> 'f \<Rightarrow> 'f"
  d_sub :: "'f \<Rightarrow> 'f \<Rightarrow> 'f"
  d_mul :: "'f \<Rightarrow> 'f \<Rightarrow> 'f"
  d_div :: "'f \<Rightarrow> 'f \<Rightarrow> 'f"
  d_sqrt :: "'f \<Rightarrow> 'f"
  JARO_WINKLER_P :: 'f

text \<open>Exact arithmetic, one instance of the operations.\<close>

definition exact :: "real double_ops" where
  "exact = \<lparr>d_of = real, d_add = (+), d_sub = (-), d_mul = (*), d_div = (/), d_sqrt = sqrt,
            JARO_WINKLER_P = 1 / 10\<rparr>"

section \<open>Cosine similarity\<close>

fun build_tf :: "bytes \<Rightarrow> (nat \<Rightarrow> u64) \<Rightarrow> nat \<Rightarrow> u64" where
  "build_tf [] tf = tf"
| "build_tf (c # s) tf = build_tf s (tf(unat c := tf (unat c) + 1))"

fun cosine_sums :: "(nat \<Rightarrow> u64) \<Rightarrow> (nat \<Rightarrow> u64) \<Rightarrow> nat \<Rightarrow> nat \<Rightarrow> u64 \<times> u64 \<times> u64 \<Rightarrow> u64 \<times> u64 \<times> u64" where
  "cosine_sums f g i 0 acc = acc"
| "cosine_sums f g i (Suc k) (dot, na, nb) =
     cosine_sums f g (i + 1) k (dot + f i * g i, na + f i * f i, nb + g i * g i)"

definition strsim_cosine :: "'f double_ops \<Rightarrow> bytes \<Rightarrow> bytes \<Rightarrow> int + 'f" where
  "strsim_cosine fl a b =
     (if a = [] \<or> b = [] then Inl (-2)
      else let (dot, na, nb) = cosine_sums (build_tf a (\<lambda>_. 0)) (build_tf b (\<lambda>_. 0)) 0 ALPHABET_SIZE (0, 0, 0)
      in Inr (d_div fl (d_of fl (unat dot))
               (d_mul fl (d_sqrt fl (d_of fl (unat na))) (d_sqrt fl (d_of fl (unat nb))))))"

section \<open>Levenshtein distance\<close>

text \<open>\<open>p\<close> and \<open>c\<close> are the offsets of \<^verbatim>\<open>prev\<close> and \<^verbatim>\<open>curr\<close> in the block.\<close>

fun lev_inner :: "bytes \<Rightarrow> u8 \<Rightarrow> nat \<Rightarrow> nat \<Rightarrow> nat \<Rightarrow> nat \<Rightarrow> cells \<Rightarrow> cells option" where
  "lev_inner a y p c i 0 buf = Some buf"
| "lev_inner a y p c i (Suc k) buf =
     do {
       let sub_cost = (if a ! (i - 1) = y then 0 else 1);
       up \<leftarrow> ld buf (p + i);
       left \<leftarrow> ld buf (c + i - 1);
       diag \<leftarrow> ld buf (p + i - 1);
       buf \<leftarrow> st buf (c + i) (min3 (up + 1) (left + 1) (diag + sub_cost));
       lev_inner a y p c (i + 1) k buf
     }"

fun lev_outer :: "bytes \<Rightarrow> bytes \<Rightarrow> nat \<Rightarrow> nat \<Rightarrow> nat \<Rightarrow> cells \<Rightarrow> (cells \<times> nat) option" where
  "lev_outer a [] p c j buf = Some (buf, p)"
| "lev_outer a (y # ys) p c j buf =
     do {
       buf \<leftarrow> st buf c j;
       buf \<leftarrow> lev_inner a y p c 1 (length a) buf;
       lev_outer a ys c p (j + 1) buf
     }"

definition strsim_levenshtein :: "bool \<Rightarrow> bytes \<Rightarrow> bytes \<Rightarrow> (int + nat) option" where
  "strsim_levenshtein ok a b =
     (let (a, b) = (if length a > length b then (b, a) else (a, b))
      in if length a = 0 then Some (Inr (length b))
         else let row_len = length a + 1
         in if \<not> ok then Some (Inl (-2))
            else do {
              buf \<leftarrow> fill id id 0 row_len (malloc_cells (2 * row_len));
              (buf, prev) \<leftarrow> lev_outer a b 0 row_len 1 buf;
              r \<leftarrow> ld buf (prev + length a);
              Some (Inr r)
            })"

section \<open>Damerau-Levenshtein distance\<close>

fun dl_inner :: "nat \<Rightarrow> nat \<Rightarrow> u8 \<Rightarrow> (u8 \<Rightarrow> nat) \<Rightarrow> nat \<Rightarrow> bytes \<Rightarrow> nat \<Rightarrow> nat \<Rightarrow> cells \<Rightarrow> cells option" where
  "dl_inner cols inf_val ca last_b i [] j last_a d = Some d"
| "dl_inner cols inf_val ca last_b i (cb # bs) j last_a d =
     do {
       let i1 = last_b cb;
       let j1 = last_a;
       let sub_cost = (if ca = cb then 0 else 1);
       let last_a = (if ca = cb then j else last_a);
       x \<leftarrow> ld d (i * cols + j);
       y \<leftarrow> ld d ((i + 1) * cols + j);
       z \<leftarrow> ld d (i * cols + (j + 1));
       cost_trans \<leftarrow> (if i1 > 0 \<and> j1 > 0
         then do { t \<leftarrow> ld d (i1 * cols + j1); Some (t + (i - i1 - 1) + 1 + (j - j1 - 1)) }
         else Some inf_val);
       d \<leftarrow> st d ((i + 1) * cols + (j + 1)) (min3 (min2 (x + sub_cost) (y + 1)) (min2 (z + 1) cost_trans) inf_val);
       dl_inner cols inf_val ca last_b i bs (j + 1) last_a d
     }"

fun dl_outer :: "nat \<Rightarrow> nat \<Rightarrow> bytes \<Rightarrow> bytes \<Rightarrow> nat \<Rightarrow> (u8 \<Rightarrow> nat) \<Rightarrow> cells \<Rightarrow> cells option" where
  "dl_outer cols inf_val [] b i last_b d = Some d"
| "dl_outer cols inf_val (ca # as) b i last_b d =
     do {
       d \<leftarrow> dl_inner cols inf_val ca last_b i b 1 0 d;
       dl_outer cols inf_val as b (i + 1) (last_b(ca := i)) d
     }"

definition strsim_damerau_levenshtein :: "bool \<Rightarrow> bytes \<Rightarrow> bytes \<Rightarrow> (int + nat) option" where
  "strsim_damerau_levenshtein ok a b =
     (if length a = 0 then Some (Inr (length b))
      else if length b = 0 then Some (Inr (length a))
      else let rows = length a + 2; cols = length b + 2; inf_val = length a + length b + 1
      in if \<not> ok then Some (Inl (-2))
         else do {
           d \<leftarrow> fill (\<lambda>i. i * cols) (\<lambda>i. inf_val) 0 rows (malloc_cells (rows * cols));
           d \<leftarrow> fill (\<lambda>j. j) (\<lambda>j. inf_val) 0 cols d;
           d \<leftarrow> fill (\<lambda>i. (i + 1) * cols + 1) (\<lambda>i. i) 0 (length a + 1) d;
           d \<leftarrow> fill (\<lambda>j. 1 * cols + (j + 1)) (\<lambda>j. j) 0 (length b + 1) d;
           d \<leftarrow> dl_outer cols inf_val a b 1 (\<lambda>_. 0) d;
           r \<leftarrow> ld d ((length a + 1) * cols + (length b + 1));
           Some (Inr r)
         })"

section \<open>Jaro-Winkler similarity\<close>

definition JARO_WINKLER_MAX_PREFIX :: nat where
  "JARO_WINKLER_MAX_PREFIX = 4"

text \<open>
  The first unmatched equal byte of \<open>b\<close> among the \<open>k\<close> positions from \<open>j\<close> on, if any; a read behind
  one of the arrays is undefined.
\<close>

fun find_match :: "bytes \<Rightarrow> bool list \<Rightarrow> u8 \<Rightarrow> nat \<Rightarrow> nat \<Rightarrow> nat option option" where
  "find_match b mb x j 0 = Some None"
| "find_match b mb x j (Suc k) =
     (if j \<ge> length mb then None
      else if mb ! j then find_match b mb x (j + 1) k
      else if j \<ge> length b then None
      else if x \<noteq> b ! j then find_match b mb x (j + 1) k
      else Some (Some j))"

fun match_loop ::
    "bytes \<Rightarrow> bytes \<Rightarrow> nat \<Rightarrow> nat \<Rightarrow> nat \<Rightarrow> bool list \<times> bool list \<times> nat \<Rightarrow> (bool list \<times> bool list \<times> nat) option" where
  "match_loop a b match_dist i 0 acc = Some acc"
| "match_loop a b match_dist i (Suc k) (ma, mb, matches) =
     (let lo = (if i > match_dist then i - match_dist else 0);
          hi = min2 (i + match_dist + 1) (length b)
      in if i \<ge> length a then None
         else do {
           r \<leftarrow> find_match b mb (a ! i) lo (hi - lo);
           case r of
             None \<Rightarrow> match_loop a b match_dist (i + 1) k (ma, mb, matches)
           | Some j \<Rightarrow> match_loop a b match_dist (i + 1) k (ma[i := True], mb[j := True], matches + 1) })"

text \<open>\<^verbatim>\<open>while (!matched_b[k]) ++k\<close>; a read behind the array is undefined.\<close>

function next_matched :: "bool list \<Rightarrow> nat \<Rightarrow> nat option" where
  "next_matched mb k =
     (if k < length mb then if mb ! k then Some k else next_matched mb (k + 1) else None)"
  by auto
termination by (relation "measure (\<lambda>(mb, k). length mb - k)") auto

declare next_matched.simps [simp del]

fun trans_loop :: "bytes \<Rightarrow> bytes \<Rightarrow> bool list \<Rightarrow> bool list \<Rightarrow> nat \<Rightarrow> nat \<Rightarrow> nat \<Rightarrow> nat \<Rightarrow> nat option" where
  "trans_loop a b ma mb i 0 k t = Some t"
| "trans_loop a b ma mb i (Suc n) k t =
     (if i \<ge> length ma then None
      else if \<not> ma ! i then trans_loop a b ma mb (i + 1) n k t
      else do {
        k \<leftarrow> next_matched mb k;
        if i \<ge> length a \<or> k \<ge> length b then None else
        trans_loop a b ma mb (i + 1) n (k + 1) (if a ! i \<noteq> b ! k then t + 1 else t)
      })"

fun prefix_loop :: "bytes \<Rightarrow> bytes \<Rightarrow> nat \<Rightarrow> nat \<Rightarrow> nat option" where
  "prefix_loop a b prefix 0 = Some prefix"
| "prefix_loop a b prefix (Suc k) =
     (if prefix \<ge> length a \<or> prefix \<ge> length b then None
      else if a ! prefix = b ! prefix then prefix_loop a b (prefix + 1) k else Some prefix)"

definition jaro_score :: "'f double_ops \<Rightarrow> nat \<Rightarrow> nat \<Rightarrow> nat \<Rightarrow> nat \<Rightarrow> nat \<Rightarrow> 'f" where
  "jaro_score fl len_a len_b matches transpositions prefix =
     (let m = d_of fl matches;
          t = d_div fl (d_of fl transpositions) (d_of fl 2);
          jaro = d_div fl
            (d_add fl (d_add fl (d_div fl m (d_of fl len_a)) (d_div fl m (d_of fl len_b)))
                      (d_div fl (d_sub fl m t) m))
            (d_of fl 3)
      in d_add fl jaro
           (d_mul fl (d_mul fl (d_of fl prefix) (JARO_WINKLER_P fl)) (d_sub fl (d_of fl 1) jaro)))"

definition strsim_jaro_winkler :: "'f double_ops \<Rightarrow> bool \<Rightarrow> bytes \<Rightarrow> bytes \<Rightarrow> (int + 'f) option" where
  "strsim_jaro_winkler fl ok a b =
     (if a = [] \<and> b = [] then Some (Inr (d_of fl 1))
      else if a = [] \<or> b = [] then Some (Inr (d_of fl 0))
      else let max_len = max2 (length a) (length b);
               match_dist = (if max_len div 2 > 0 then max_len div 2 - 1 else 0)
      in if \<not> ok then Some (Inl (-2))
         else do {
           (ma, mb, matches) \<leftarrow> match_loop a b match_dist 0 (length a)
                    (replicate (length a) False, replicate (length b) False, 0);
           if matches = 0 then Some (Inr (d_of fl 0))
           else do {
             t \<leftarrow> trans_loop a b ma mb 0 (length a) 0 0;
             prefix \<leftarrow> prefix_loop a b 0 (min2 (min2 (length a) (length b)) JARO_WINKLER_MAX_PREFIX);
             Some (Inr (jaro_score fl (length a) (length b) matches t prefix))
           } })"

section \<open>Jaccard similarity on bigrams\<close>

definition BIGRAM_TABLE_SIZE :: nat where
  "BIGRAM_TABLE_SIZE = ALPHABET_SIZE * ALPHABET_SIZE"

fun bigram_freq :: "bytes \<Rightarrow> (nat \<Rightarrow> u32) \<Rightarrow> nat \<Rightarrow> u32" where
  "bigram_freq (x # y # s) freq =
     (let idx = unat x * ALPHABET_SIZE + unat y in bigram_freq (y # s) (freq(idx := freq idx + 1)))"
| "bigram_freq s freq = freq"

fun jaccard_sums :: "(nat \<Rightarrow> u32) \<Rightarrow> (nat \<Rightarrow> u32) \<Rightarrow> nat \<Rightarrow> nat \<Rightarrow> nat \<times> nat \<Rightarrow> nat \<times> nat" where
  "jaccard_sums f g i 0 acc = acc"
| "jaccard_sums f g i (Suc k) (common, union_size) =
     jaccard_sums f g (i + 1) k (common + min2 (unat (f i)) (unat (g i)), union_size + max2 (unat (f i)) (unat (g i)))"

definition strsim_jaccard_bigram :: "'f double_ops \<Rightarrow> bool \<Rightarrow> bytes \<Rightarrow> bytes \<Rightarrow> int + 'f" where
  "strsim_jaccard_bigram fl ok a b =
     (if length a < 2 \<and> length b < 2
      then Inr (if length a = length b \<and> (length a = 0 \<or> a ! 0 = b ! 0) then d_of fl 1 else d_of fl 0)
      else if length a < 2 \<or> length b < 2 then Inr (d_of fl 0)
      else if \<not> ok then Inl (-2)
      else let (common, union_size) = jaccard_sums (bigram_freq a (\<lambda>_. 0)) (bigram_freq b (\<lambda>_. 0)) 0
                 BIGRAM_TABLE_SIZE (0, 0)
      in Inr (d_div fl (d_of fl common) (d_of fl union_size)))"

end
