(* ===== verification/Strsim_Distance.thy ===== *)
theory Strsim_Distance
  imports Strsim
begin

text \<open>
  The edit distances.  The contract of \<^verbatim>\<open>strsim.h\<close> is stated over single edits of a byte
  string; the recursive function \<open>lev\<close> attains its minimum, and the two-row computation of the
  C code fills in \<open>lev\<close> of the prefixes.
\<close>

section \<open>Single edits\<close>

inductive edit1 :: "'a list \<Rightarrow> 'a list \<Rightarrow> bool" where
  ins: "edit1 (us @ vs) (us @ x # vs)"
| del: "edit1 (us @ x # vs) (us @ vs)"
| sub: "edit1 (us @ x # vs) (us @ y # vs)"

definition fewest_edits :: "'a list \<Rightarrow> 'a list \<Rightarrow> nat \<Rightarrow> bool" where
  "fewest_edits a b n \<longleftrightarrow> (edit1 ^^ n) a b \<and> (\<forall>m. (edit1 ^^ m) a b \<longrightarrow> n \<le> m)"

lemma edit1_sym: "edit1 a b \<Longrightarrow> edit1 b a"
  by (induction rule: edit1.induct) (rule edit1.intros)+

lemma edit1_rev: "edit1 a b \<Longrightarrow> edit1 (rev a) (rev b)"
proof (induction rule: edit1.induct)
  case (ins us vs x)
  show ?case using edit1.ins [of "rev vs" "rev us" x] by simp
next
  case (del us x vs)
  show ?case using edit1.del [of "rev vs" x "rev us"] by simp
next
  case (sub us x vs y)
  show ?case using edit1.sub [of "rev vs" x "rev us" y] by simp
qed

lemma edit1_Cons: "edit1 a b \<Longrightarrow> edit1 (z # a) (z # b)"
proof (induction rule: edit1.induct)
  case (ins us vs x)
  show ?case using edit1.ins [of "z # us" vs x] by simp
next
  case (del us x vs)
  show ?case using edit1.del [of "z # us" x vs] by simp
next
  case (sub us x vs y)
  show ?case using edit1.sub [of "z # us" x vs y] by simp
qed

lemma steps_map:
  assumes "\<And>a b. R a b \<Longrightarrow> R (f a) (f b)" "(R ^^ n) a b"
  shows "(R ^^ n) (f a) (f b)"
  using assms(2)
proof (induction n arbitrary: b)
  case (Suc n)
  then obtain c where "(R ^^ n) a c" "R c b" by (auto elim: relpowp_Suc_E)
  with Suc.IH assms(1) show ?case by (auto intro: relpowp_Suc_I)
qed simp

lemma steps_sym:
  assumes "\<And>a b. R a b \<Longrightarrow> R b a" "(R ^^ n) a b"
  shows "(R ^^ n) b a"
  using assms(2)
proof (induction n arbitrary: b)
  case (Suc n)
  then obtain c where "(R ^^ n) a c" "R c b" by (auto elim: relpowp_Suc_E)
  then have "R b c" "(R ^^ n) c a" using Suc.IH assms(1) by blast+
  then show ?case by (rule relpowp_Suc_I2)
qed simp

lemma fewest_edits_rev: "fewest_edits (rev a) (rev b) n = fewest_edits a b n"
proof -
  have "(edit1 ^^ m) (rev a) (rev b) \<longleftrightarrow> (edit1 ^^ m) a b" for m
    using steps_map [of edit1 rev m a b] steps_map [of edit1 rev m "rev a" "rev b"] edit1_rev by auto
  then show ?thesis by (simp add: fewest_edits_def)
qed

lemma fewest_edits_sym: "fewest_edits a b n = fewest_edits b a n"
proof -
  have "(edit1 ^^ m) a b \<longleftrightarrow> (edit1 ^^ m) b a" for m
    using steps_sym [of edit1] edit1_sym by metis
  then show ?thesis by (simp add: fewest_edits_def)
qed

section \<open>The recursive distance\<close>

fun lev :: "'a list \<Rightarrow> 'a list \<Rightarrow> nat" where
  "lev [] ys = length ys"
| "lev (x # xs) [] = length (x # xs)"
| "lev (x # xs) (y # ys) =
     min (lev (x # xs) ys + 1) (min (lev xs (y # ys) + 1) (lev xs ys + (if x = y then 0 else 1)))"

lemma lev_Nil2 [simp]: "lev xs [] = length xs"
  by (cases xs) simp_all

lemma lev_self: "lev xs xs = 0"
  by (induction xs) simp_all

lemma lev_cons_grow: "lev (x # xs) zs \<le> lev xs zs + 1" "lev xs (z # zs) \<le> lev xs zs + 1"
  by (cases zs; simp) (cases xs; simp)

lemma lev_cons_shrink: "lev xs zs \<le> lev (x # xs) zs + 1"
proof (induction zs)
  case (Cons z zs)
  have "lev xs (z # zs) \<le> lev xs zs + 1" by (rule lev_cons_grow)
  with Cons show ?case by auto
qed simp

lemma lev_cons_change: "lev (x # xs) zs \<le> lev (y # xs) zs + 1"
proof (induction zs)
  case (Cons z zs)
  have "lev (x # xs) (z # zs) \<le> lev xs zs + 1" by (auto simp: min_def)
  with Cons show ?case by auto
qed simp

lemma lev_common:
  assumes "\<And>zs. lev xs zs \<le> lev ys zs + 1"
  shows "lev (u # xs) zs \<le> lev (u # ys) zs + 1"
proof (induction zs)
  case Nil
  show ?case using assms [of "[]"] by simp
next
  case (Cons z zs)
  show ?case using Cons assms [of "z # zs"] assms [of zs] by auto
qed

lemma lev_prefix:
  assumes "\<And>zs. lev xs zs \<le> lev ys zs + 1"
  shows "lev (us @ xs) zs \<le> lev (us @ ys) zs + 1"
proof (induction us arbitrary: zs)
  case (Cons u us)
  then show ?case using lev_common [of "us @ xs" "us @ ys"] by simp
qed (use assms in simp)

lemma lev_edit1: "edit1 xs ys \<Longrightarrow> lev xs zs \<le> lev ys zs + 1"
proof (induction arbitrary: zs rule: edit1.induct)
  case (ins us vs x)
  show ?case by (rule lev_prefix) (rule lev_cons_shrink)
next
  case (del us x vs)
  show ?case by (rule lev_prefix) (rule lev_cons_grow)
next
  case (sub us x vs y)
  show ?case by (rule lev_prefix) (rule lev_cons_change)
qed

lemma lev_lower: "(edit1 ^^ n) xs ys \<Longrightarrow> lev xs ys \<le> n"
proof (induction n arbitrary: xs)
  case (Suc n)
  then obtain zs where "edit1 xs zs" "(edit1 ^^ n) zs ys" by (metis relpowp_Suc_E2)
  with Suc.IH lev_edit1 [of xs zs ys] show ?case by fastforce
qed (simp add: lev_self)

lemma insert_all: "(edit1 ^^ length ys) [] ys"
proof (induction ys)
  case (Cons y ys)
  then show ?case using edit1.ins [of "[]" ys y] by (auto intro: relpowp_Suc_I)
qed simp

lemma lev_attained: "(edit1 ^^ lev xs ys) xs ys"
proof (induction xs ys rule: lev.induct)
  case (1 ys)
  show ?case by (simp add: insert_all)
next
  case (2 x xs)
  show ?case using steps_sym [OF edit1_sym insert_all [of "x # xs"]] by simp
next
  case (3 x xs y ys)
  consider "lev (x # xs) (y # ys) = Suc (lev (x # xs) ys)"
    | "lev (x # xs) (y # ys) = Suc (lev xs (y # ys))"
    | "x = y" "lev (x # xs) (y # ys) = lev xs ys"
    | "x \<noteq> y" "lev (x # xs) (y # ys) = Suc (lev xs ys)"
  proof -
    have "lev (x # xs) (y # ys) \<in> {Suc (lev (x # xs) ys), Suc (lev xs (y # ys)),
        lev xs ys + (if x = y then 0 else 1)}"
      by (simp add: min_def)
    then show thesis using that by (cases "x = y") (auto simp del: lev.simps)
  qed
  then show ?case
  proof cases
    case 1
    with "3.IH"(1) edit1.ins [of "[]" ys y] show ?thesis
      unfolding 1 by (auto intro: relpowp_Suc_I)
  next
    case 2
    have "edit1 (x # xs) xs" using edit1.del [of "[]" x xs] by simp
    then show ?thesis unfolding 2 using "3.IH"(2) by (rule relpowp_Suc_I2)
  next
    case 3
    show ?thesis unfolding 3(2) using steps_map [OF edit1_Cons "3.IH"(3)] 3(1) by simp
  next
    case 4
    have "edit1 (x # xs) (y # xs)" using edit1.sub [of "[]" x xs y] by simp
    then show ?thesis unfolding 4(2) using steps_map [OF edit1_Cons "3.IH"(3)] by (rule relpowp_Suc_I2)
  qed
qed

lemma lev_fewest: "fewest_edits xs ys (lev xs ys)"
  by (simp add: fewest_edits_def lev_attained lev_lower)

section \<open>Cells\<close>

lemma ld_nth [simp]: "i < length d \<Longrightarrow> d ! i = Some v \<Longrightarrow> ld d i = Some v"
  by (simp add: ld_def)

lemma st_some: "i < length d \<Longrightarrow> st d i v = Some (d[i := Some v])"
  by (simp add: st_def)

lemma length_malloc_cells: "n * 8 < 2 ^ 64 \<Longrightarrow> length (malloc_cells n) = n"
  by (simp add: malloc_cells_def)

lemma min23: "min2 a b = min a b" "min3 a b c = min a (min b c)"
  by (simp_all add: min2_def min3_def min_def)

text \<open>A loop that stores at distinct indices inside the block.\<close>

lemma fill_run:
  assumes "\<And>i'. i \<le> i' \<Longrightarrow> i' < i + k \<Longrightarrow> f i' < length d" "inj f"
  shows "\<exists>d'. fill f g i k d = Some d' \<and> length d' = length d \<and>
    (\<forall>i'. i \<le> i' \<longrightarrow> i' < i + k \<longrightarrow> d' ! f i' = Some (g i')) \<and>
    (\<forall>x. (\<forall>i'. i \<le> i' \<longrightarrow> i' < i + k \<longrightarrow> x \<noteq> f i') \<longrightarrow> d' ! x = d ! x)"
  using assms(1)
proof (induction k arbitrary: i d)
  case (Suc k)
  have fi: "f i < length d" using Suc.prems [of i] by simp
  let ?d = "d[f i := Some (g i)]"
  have "\<And>i'. i + 1 \<le> i' \<Longrightarrow> i' < i + 1 + k \<Longrightarrow> f i' < length ?d" using Suc.prems by simp
  from Suc.IH [of "i + 1" ?d, OF this] obtain d' where d': "fill f g (i + 1) k ?d = Some d'"
    "length d' = length d" "\<forall>i'. i + 1 \<le> i' \<longrightarrow> i' < i + 1 + k \<longrightarrow> d' ! f i' = Some (g i')"
    "\<forall>x. (\<forall>i'. i + 1 \<le> i' \<longrightarrow> i' < i + 1 + k \<longrightarrow> x \<noteq> f i') \<longrightarrow> d' ! x = ?d ! x"
    by auto
  have "d' ! f i = Some (g i)" using d'(4) fi inj_eq [OF assms(2)] by simp
  then have "\<forall>i'. i \<le> i' \<longrightarrow> i' < i + Suc k \<longrightarrow> d' ! f i' = Some (g i')"
    using d'(3) by (metis Suc_eq_plus1 add_Suc_shift le_SucE le_antisym not_less_eq_eq)
  moreover have "\<forall>x. (\<forall>i'. i \<le> i' \<longrightarrow> i' < i + Suc k \<longrightarrow> x \<noteq> f i') \<longrightarrow> d' ! x = d ! x"
    using d'(4) by auto
  ultimately show ?case using d'(1,2) fi by (auto simp: st_some)
qed simp

section \<open>The two-row computation\<close>

text \<open>Row \<open>j\<close> of the table.\<close>

definition lev_at :: "bytes \<Rightarrow> bytes \<Rightarrow> nat \<Rightarrow> nat \<Rightarrow> nat" where
  "lev_at a b j i = lev (rev (take i a)) (rev (take j b))"

lemma lev_at_0 [simp]: "j \<le> length b \<Longrightarrow> lev_at a b j 0 = j" "i \<le> length a \<Longrightarrow> lev_at a b 0 i = i"
  by (simp_all add: lev_at_def)

lemma lev_at_step:
  assumes "i < length a" "j < length b"
  shows "lev_at a b (Suc j) (Suc i) = min (lev_at a b j (Suc i) + 1)
    (min (lev_at a b (Suc j) i + 1) (lev_at a b j i + (if a ! i = b ! j then 0 else 1)))"
  using assms by (simp add: lev_at_def take_Suc_conv_app_nth)

definition row_is :: "cells \<Rightarrow> nat \<Rightarrow> nat \<Rightarrow> (nat \<Rightarrow> nat) \<Rightarrow> bool" where
  "row_is buf off n f \<longleftrightarrow> (\<forall>i<n. buf ! (off + i) = Some (f i))"

lemma row_ld: "row_is buf off n f \<Longrightarrow> i < n \<Longrightarrow> off + i < length buf \<Longrightarrow> ld buf (off + i) = Some (f i)"
  by (simp add: row_is_def)

lemma lev_inner_run:
  assumes "row_is buf p n (lev_at a b j)" "row_is buf c i (lev_at a b (Suc j))" "length buf = 2 * n"
    "n = length a + 1" "{p, c} = {0, n}" "i + k = n" "0 < i" "j < length b"
  shows "\<exists>buf'. lev_inner a (b ! j) p c i k buf = Some buf' \<and> length buf' = 2 * n \<and>
    row_is buf' c n (lev_at a b (Suc j))"
  using assms
proof (induction k arbitrary: i buf)
  case (Suc k)
  obtain i0 where i: "i = Suc i0" using Suc.prems(7) by (cases i) auto
  have pc: "p + i < 2 * n" "c + i < 2 * n" "p = 0 \<and> c = n \<or> p = n \<and> c = 0"
    using Suc.prems(4-6) by (auto simp: doubleton_eq_iff)
  have up: "ld buf (p + i) = Some (lev_at a b j i)" "ld buf (p + i - 1) = Some (lev_at a b j i0)"
    using row_ld [OF Suc.prems(1), of i] row_ld [OF Suc.prems(1), of i0] Suc.prems(3,6) pc
    by (simp_all add: i)
  have left: "ld buf (c + i - 1) = Some (lev_at a b (Suc j) i0)"
    using row_ld [OF Suc.prems(2), of i0] Suc.prems(3,6) pc by (simp add: i)
  let ?b = "buf[c + i := Some (lev_at a b (Suc j) i)]"
  have s: "st buf (c + i) (min3 (lev_at a b j i + 1) (lev_at a b (Suc j) i0 + 1)
      (lev_at a b j i0 + (if a ! (i - 1) = b ! j then 0 else 1))) = Some ?b"
    using Suc.prems pc by (simp add: st_some min23 lev_at_step i)
  have "row_is ?b p n (lev_at a b j)" "row_is ?b c (i + 1) (lev_at a b (Suc j))"
    using Suc.prems(1-3,6) pc by (auto simp: row_is_def nth_list_update less_Suc_eq)
  with Suc.IH [of ?b "i + 1"] Suc.prems obtain buf' where
    "lev_inner a (b ! j) p c (i + 1) k ?b = Some buf'" "length buf' = 2 * n"
    "row_is buf' c n (lev_at a b (Suc j))" by auto
  then show ?case using up left s by (auto simp: Let_def)
qed auto

lemma lev_outer_run:
  assumes "row_is buf p n (lev_at a b j)" "length buf = 2 * n" "n = length a + 1" "{p, c} = {0, n}"
    "j + length ys = length b" "ys = drop j b"
  shows "\<exists>buf' p'. lev_outer a ys p c (Suc j) buf = Some (buf', p') \<and> length buf' = 2 * n \<and>
    p' + length a < 2 * n \<and> row_is buf' p' n (lev_at a b (length b))"
  using assms
proof (induction ys arbitrary: buf p c j)
  case Nil
  then show ?case by (auto simp: doubleton_eq_iff)
next
  case (Cons y ys)
  have lt: "j < length b" using Cons.prems(5) by simp
  then have j: "j < length b" "y = b ! j" "ys = drop (Suc j) b"
    using Cons.prems(6) Cons_nth_drop_Suc [OF lt] by (simp, metis list.inject, metis list.inject)
  have pc: "c < 2 * n" "p = 0 \<and> c = n \<or> p = n \<and> c = 0" using Cons.prems(3,4) by (auto simp: doubleton_eq_iff)
  let ?b = "buf[c := Some (Suc j)]"
  have s: "st buf c (Suc j) = Some ?b" using pc Cons.prems(2) by (simp add: st_some)
  have "row_is ?b p n (lev_at a b j)" "row_is ?b c 1 (lev_at a b (Suc j))"
    using Cons.prems(1,2) pc j(1) by (auto simp: row_is_def nth_list_update)
  from lev_inner_run [OF this, of "length a"] Cons.prems(2-4) j obtain b2 where
    b2: "lev_inner a y p c 1 (length a) ?b = Some b2" "length b2 = 2 * n"
      "row_is b2 c n (lev_at a b (Suc j))" by auto
  have "{c, p} = {0, n}" using Cons.prems(4) by (simp add: insert_commute)
  from Cons.IH [OF b2(3,2) Cons.prems(3) this] Cons.prems(5) j obtain buf' p' where
    "lev_outer a ys c p (Suc (Suc j)) b2 = Some (buf', p')" "length buf' = 2 * n"
    "p' + length a < 2 * n" "row_is buf' p' n (lev_at a b (length b))" by auto
  then show ?case using s b2 by auto
qed

lemma lev_rows:
  assumes "a \<noteq> []" "length a < 2 ^ 59"
  shows "do { buf \<leftarrow> fill id id 0 (length a + 1) (malloc_cells (2 * (length a + 1)));
              (buf, prev) \<leftarrow> lev_outer a b 0 (length a + 1) 1 buf;
              r \<leftarrow> ld buf (prev + length a);
              Some (Inr r :: int + nat) }
    = Some (Inr (lev (rev a) (rev b)))"
proof -
  define n where "n = length a + 1"
  have len: "length (malloc_cells (2 * n)) = 2 * n"
    using assms(2) by (intro length_malloc_cells) (simp add: n_def)
  obtain b1 where b1: "fill id id 0 n (malloc_cells (2 * n)) = Some b1" "length b1 = 2 * n"
    "\<forall>i<n. b1 ! i = Some i"
    using fill_run [of 0 n id "malloc_cells (2 * n)" id] len by auto
  have "row_is b1 0 n (lev_at a b 0)" using b1(3) by (simp add: row_is_def n_def)
  from lev_outer_run [OF this b1(2), of n b] obtain b2 p where
    "lev_outer a b 0 n 1 b1 = Some (b2, p)" "length b2 = 2 * n" "p + length a < 2 * n"
    "row_is b2 p n (lev_at a b (length b))" by (auto simp: n_def)
  moreover from this have "ld b2 (p + length a) = Some (lev (rev a) (rev b))"
    by (auto simp: row_is_def n_def lev_at_def)
  ultimately show ?thesis using b1(1) by (simp add: n_def)
qed

lemma levenshtein_spec:
  assumes "min (length a) (length b) < 2 ^ 59"
  shows "\<exists>r. strsim_levenshtein True a b = Some (Inr r) \<and> fewest_edits a b r"
proof -
  have *: "fewest_edits a b (lev (rev a) (rev b))" for a b :: bytes
    using lev_fewest [of "rev a" "rev b"] by (simp add: fewest_edits_rev)
  have main: "\<exists>r. strsim_levenshtein True a b = Some (Inr r) \<and> fewest_edits a b r"
    if "length a \<le> length b" "length a < 2 ^ 59" for a b
  proof (cases "a = []")
    case True
    then show ?thesis using * [of "[]" b] by (simp add: strsim_levenshtein_def)
  next
    case False
    with that lev_rows [OF False that(2), of b] * show ?thesis
      by (auto simp: strsim_levenshtein_def Let_def)
  qed
  show ?thesis
  proof (cases "length a \<le> length b")
    case True
    then show ?thesis using main assms by simp
  next
    case False
    then have "strsim_levenshtein True a b = strsim_levenshtein True b a"
      by (simp add: strsim_levenshtein_def)
    with main [of b a] False assms show ?thesis by (simp add: fewest_edits_sym min_def)
  qed
qed

section \<open>Transpositions\<close>

text \<open>The recurrence over prefixes, with the last earlier position of a byte (0 for none).\<close>

fun last_occ :: "'a \<Rightarrow> 'a list \<Rightarrow> nat \<Rightarrow> nat" where
  "last_occ c xs 0 = 0"
| "last_occ c xs (Suc n) = (if xs ! n = c then Suc n else last_occ c xs n)"

lemma last_occ_le: "last_occ c xs n \<le> n"
  by (induction n) auto

lemma last_occ_hit: "0 < last_occ c xs n \<Longrightarrow> xs ! (last_occ c xs n - 1) = c"
  by (induction n) (auto split: if_splits)

lemma last_occ_sum: "last_occ c xs n + last_occ c' ys m - k \<le> Suc (n + m)"
  using last_occ_le [of c xs n] last_occ_le [of c' ys m] by linarith

function dl :: "'a list \<Rightarrow> 'a list \<Rightarrow> nat \<Rightarrow> nat \<Rightarrow> nat" where
  "dl a b 0 j = j"
| "dl a b (Suc i) 0 = Suc i"
| "dl a b (Suc i) (Suc j) =
     (let i1 = last_occ (b ! j) a i; j1 = last_occ (a ! i) b j;
          plain = min (dl a b i j + (if a ! i = b ! j then 0 else 1))
                      (min (dl a b (Suc i) j + 1) (dl a b i (Suc j) + 1))
      in if 0 < i1 \<and> 0 < j1
         then min plain (dl a b (i1 - 1) (j1 - 1) + (i - i1) + 1 + (j - j1))
         else plain)"
  by pat_completeness auto
termination
  by (relation "measure (\<lambda>(a, b, i, j). i + j)") (auto simp: less_Suc_eq_le last_occ_sum)

declare dl.simps(3) [simp del]

lemma dl_le: "dl a b i j \<le> i + j"
proof (induction a b i j rule: dl.induct)
  case (3 a b i j)
  have "dl a b (Suc i) j \<le> Suc i + j" using "3.IH" by blast
  then show ?case by (simp add: dl.simps(3) Let_def min_def)
qed auto

lemma dl_0 [simp]: "dl a b i 0 = i"
  by (cases i) simp_all

section \<open>The full matrix\<close>

text \<open>Cell \<open>(r, c)\<close> of a matrix stored by rows.\<close>

definition mat :: "cells \<Rightarrow> nat \<Rightarrow> nat \<Rightarrow> nat \<Rightarrow> nat option" where
  "mat d cols r c = d ! (r * cols + c)"

lemma cell_inj:
  assumes "c < cols" "c' < cols"
  shows "r * cols + c = r' * cols + c' \<longleftrightarrow> r = r' \<and> c = (c' :: nat)"
proof
  assume eq: "r * cols + c = r' * cols + c'"
  have "(r * cols + c) div cols = r" "(r' * cols + c') div cols = r'" using assms by simp_all
  with eq show "r = r' \<and> c = c'" by simp
qed simp

lemma cell_lt: "r < rows \<Longrightarrow> c < cols \<Longrightarrow> r * cols + c < rows * (cols :: nat)"
proof -
  assume "r < rows" "c < cols"
  then have "r * cols + c < Suc r * cols" "Suc r * cols \<le> rows * cols"
    by (simp, intro mult_le_mono1, simp)
  then show ?thesis by (rule less_le_trans)
qed

lemma mat_update:
  assumes "length d = rows * cols" "r < rows" "c < cols" "c' < cols"
  shows "mat (d[r * cols + c := v]) cols r' c' = (if r = r' \<and> c = c' then v else mat d cols r' c')"
  using cell_lt [OF assms(2,3)] cell_inj [OF assms(3,4), of r r'] assms(1)
  by (auto simp: mat_def nth_list_update)

lemma ld_mat:
  assumes "length d = rows * cols" "r < rows" "c < cols" "mat d cols r c = Some v"
  shows "ld d (r * cols + c) = Some v"
  using cell_lt [OF assms(2,3)] assms(1,4) by (simp add: mat_def)

lemma st_mat:
  assumes "length d = rows * cols" "r < rows" "c < cols"
  shows "st d (r * cols + c) v = Some (d[r * cols + c := Some v])"
  using cell_lt [OF assms(2,3)] assms(1) by (simp add: st_some)

text \<open>The matrix with the rows of the first \<open>i\<close> bytes finished and the next row up to column \<open>j\<close>.\<close>

definition dl_filled :: "bytes \<Rightarrow> bytes \<Rightarrow> nat \<Rightarrow> nat \<Rightarrow> cells \<Rightarrow> bool" where
  "dl_filled a b i j d \<longleftrightarrow> length d = (length a + 2) * (length b + 2) \<and> i \<le> length a \<and>
     (\<forall>r\<le>length a. mat d (length b + 2) (Suc r) 1 = Some r) \<and>
     (\<forall>r\<le>i. \<forall>c\<le>length b. mat d (length b + 2) (Suc r) (Suc c) = Some (dl a b r c)) \<and>
     (i < length a \<longrightarrow> (\<forall>c\<le>j. mat d (length b + 2) (Suc (Suc i)) (Suc c) = Some (dl a b (Suc i) c)))"

lemma dl_min:
  assumes "Y \<le> n"
  shows "min3 (min2 X Y) (min2 Z (if P then T else n)) n
    = (if P then min (min X (min Y Z)) T else min X (min Y Z))"
  using assms by (auto simp: min23 min_def)

lemma dl_cost:
  assumes "i < length a" "j < length b" "i1 = last_occ (b ! j) a i" "j1 = last_occ (a ! i) b j"
    "n = length a + length b + 1"
  shows "min3 (min2 (dl a b i j + (if a ! i = b ! j then 0 else 1)) (dl a b (Suc i) j + 1))
      (min2 (dl a b i (Suc j) + 1)
        (if 0 < i1 \<and> 0 < j1 then dl a b (i1 - 1) (j1 - 1) + (Suc i - i1 - 1) + 1 + (Suc j - j1 - 1) else n)) n
    = dl a b (Suc i) (Suc j)"
proof -
  have "dl a b (Suc i) j + 1 \<le> n" using dl_le [of a b "Suc i" j] assms(1,2,5) by simp
  then show ?thesis
    by (simp only: dl_min) (simp add: dl.simps(3) Let_def assms(3,4) cong: if_cong)
qed

lemma dl_inner_run:
  assumes "dl_filled a b i j d" "i < length a" "j + length bs = length b" "bs = drop j b"
    "n = length a + length b + 1"
  shows "\<exists>d'. dl_inner (length b + 2) n (a ! i) (\<lambda>c. last_occ c a i) (Suc i) bs (Suc j)
      (last_occ (a ! i) b j) d = Some d' \<and> dl_filled a b i (length b) d'"
  using assms
proof (induction bs arbitrary: j d)
  case (Cons cb bs)
  have lt: "j < length b" using Cons.prems(3) by simp
  then have cb: "cb = b ! j" "bs = drop (Suc j) b"
    using Cons.prems(4) Cons_nth_drop_Suc [OF lt] by (metis list.inject)+
  define cols where "cols = length b + 2"
  define i1 where "i1 = last_occ (b ! j) a i"
  define j1 where "j1 = last_occ (a ! i) b j"
  have i1: "i1 \<le> i" and j1: "j1 \<le> j" by (simp_all add: i1_def j1_def last_occ_le)
  have f: "length d = (length a + 2) * cols" "\<forall>r\<le>i. \<forall>c\<le>length b. mat d cols (Suc r) (Suc c) = Some (dl a b r c)"
    "\<forall>c\<le>j. mat d cols (Suc (Suc i)) (Suc c) = Some (dl a b (Suc i) c)"
    "\<forall>r\<le>length a. mat d cols (Suc r) 1 = Some r"
    using Cons.prems(1,2) by (simp_all add: dl_filled_def cols_def)
  have rows: "Suc i < length a + 2" "Suc (Suc i) < length a + 2" "i1 < length a + 2"
    using Cons.prems(2) i1 by simp_all
  have col: "Suc j < cols" "Suc (Suc j) < cols" "j1 < cols" using lt j1 by (simp_all add: cols_def)
  have x: "ld d (Suc i * cols + Suc j) = Some (dl a b i j)"
    using f(2) lt by (intro ld_mat [OF f(1) rows(1) col(1)]) simp
  have y: "ld d (Suc (Suc i) * cols + Suc j) = Some (dl a b (Suc i) j)"
    using f(3) by (intro ld_mat [OF f(1) rows(2) col(1)]) simp
  have z: "ld d (Suc i * cols + Suc (Suc j)) = Some (dl a b i (Suc j))"
    using f(2) lt by (intro ld_mat [OF f(1) rows(1) col(2)]) simp
  have tr: "ld d (i1 * cols + j1) = Some (dl a b (i1 - 1) (j1 - 1))" if "0 < i1" "0 < j1"
  proof (rule ld_mat [OF f(1) rows(3) col(3)])
    have "mat d cols (Suc (i1 - 1)) (Suc (j1 - 1)) = Some (dl a b (i1 - 1) (j1 - 1))"
      using f(2) i1 j1 lt by (intro f(2) [rule_format]) simp_all
    with that show "mat d cols i1 j1 = Some (dl a b (i1 - 1) (j1 - 1))" by simp
  qed
  have trans: "(if 0 < i1 \<and> 0 < j1
      then do { t \<leftarrow> ld d (i1 * cols + j1); Some (t + (Suc i - i1 - 1) + 1 + (Suc j - j1 - 1)) }
      else Some n)
    = Some (if 0 < i1 \<and> 0 < j1 then dl a b (i1 - 1) (j1 - 1) + (Suc i - i1 - 1) + 1 + (Suc j - j1 - 1) else n)"
    using tr by simp
  let ?d = "d[Suc (Suc i) * cols + Suc (Suc j) := Some (dl a b (Suc i) (Suc j))]"
  have s: "st d (Suc (Suc i) * cols + Suc (Suc j)) v = Some (d[Suc (Suc i) * cols + Suc (Suc j) := Some v])" for v
    by (rule st_mat [OF f(1) rows(2) col(2)])
  have upd: "mat ?d cols r c = (if Suc (Suc i) = r \<and> Suc (Suc j) = c
      then Some (dl a b (Suc i) (Suc j)) else mat d cols r c)" if "c < cols" for r c
    by (rule mat_update [OF f(1) rows(2) col(2) that])
  have len: "Suc j + length bs = length b" using Cons.prems(3) by simp
  have filled: "dl_filled a b i (Suc j) ?d"
    unfolding dl_filled_def cols_def [symmetric]
    using f Cons.prems(2) upd lt by (auto simp: cols_def le_Suc_eq simp del: mult_Suc)
  have "last_occ (a ! i) b (Suc j) = (if a ! i = b ! j then Suc j else j1)"
    by (simp add: j1_def)
  with Cons.IH [OF filled Cons.prems(2) len cb(2) Cons.prems(5)]
  obtain d' where d': "dl_inner cols n (a ! i) (\<lambda>c. last_occ c a i) (Suc i) bs (Suc (Suc j))
      (if a ! i = b ! j then Suc j else j1) ?d = Some d'" "dl_filled a b i (length b) d'"
    unfolding cols_def [symmetric] by auto
  have "dl_inner cols n (a ! i) (\<lambda>c. last_occ c a i) (Suc i) (cb # bs) (Suc j) j1 d = Some d'"
    using x y z trans s d'(1) dl_cost [OF Cons.prems(2) lt i1_def j1_def Cons.prems(5)]
    by (simp add: cb(1) i1_def [symmetric] Let_def del: mult_Suc cong: if_cong)
  with d'(2) show ?case by (auto simp: cols_def j1_def)
qed auto

lemma dl_outer_run:
  assumes "dl_filled a b i 0 d" "i + length as = length a" "as = drop i a" "n = length a + length b + 1"
  shows "\<exists>d'. dl_outer (length b + 2) n as b (Suc i) (\<lambda>c. last_occ c a i) d = Some d' \<and>
    dl_filled a b (length a) 0 d'"
  using assms
proof (induction as arbitrary: i d)
  case (Cons ca as)
  have lt: "i < length a" using Cons.prems(2) by simp
  then have ca: "ca = a ! i" "as = drop (Suc i) a"
    using Cons.prems(3) Cons_nth_drop_Suc [OF lt] by (metis list.inject)+
  from dl_inner_run [OF Cons.prems(1) lt, of b n] Cons.prems(4) obtain d1 where
    d1: "dl_inner (length b + 2) n ca (\<lambda>c. last_occ c a i) (Suc i) b 1 0 d = Some d1"
      "dl_filled a b i (length b) d1" by (auto simp: ca)
  have "dl_filled a b (Suc i) 0 d1"
    using d1(2) lt by (auto simp: dl_filled_def le_Suc_eq)
  moreover have "(\<lambda>c. last_occ c a i)(ca := Suc i) = (\<lambda>c. last_occ c a (Suc i))"
    by (auto simp: ca)
  ultimately show ?case using Cons.IH [of "Suc i" d1] Cons.prems(2,4) ca d1(1) by auto
qed simp

lemma dl_base:
  assumes "(length a + 2) * (length b + 2) * 8 < 2 ^ 64"
  obtains d1 d2 d3 d4 where
    "fill (\<lambda>i. i * (length b + 2)) (\<lambda>i. n) 0 (length a + 2) (malloc_cells ((length a + 2) * (length b + 2))) = Some d1"
    "fill (\<lambda>j. j) (\<lambda>j. n) 0 (length b + 2) d1 = Some d2"
    "fill (\<lambda>i. (i + 1) * (length b + 2) + 1) (\<lambda>i. i) 0 (length a + 1) d2 = Some d3"
    "fill (\<lambda>j. 1 * (length b + 2) + (j + 1)) (\<lambda>j. j) 0 (length b + 1) d3 = Some d4"
    "dl_filled a b 0 0 d4"
proof -
  define rows cols where "rows = length a + 2" and "cols = length b + 2"
  let ?d0 = "malloc_cells (rows * cols)"
  have len0: "length ?d0 = rows * cols"
    using assms by (intro length_malloc_cells) (simp add: rows_def cols_def)
  have cols: "1 < cols" "0 < cols" by (simp_all add: cols_def)
  have injs: "inj (\<lambda>i. i * cols)" "inj (\<lambda>i. (i + 1) * cols + 1)" "inj (\<lambda>j. 1 * cols + (j + 1))"
    using cols by (auto intro!: injI)
  obtain d1 where d1: "fill (\<lambda>i. i * cols) (\<lambda>i. n) 0 rows ?d0 = Some d1" "length d1 = rows * cols"
    using fill_run [of 0 rows "\<lambda>i. i * cols" ?d0 "\<lambda>_. n"] injs(1) len0 cols by auto
  have "x < cols \<Longrightarrow> x < rows * cols" for x
    using cell_lt [of 0 rows x cols] by (simp add: rows_def)
  then obtain d2 where d2: "fill (\<lambda>j. j) (\<lambda>j. n) 0 cols d1 = Some d2" "length d2 = rows * cols"
    using fill_run [of 0 cols "\<lambda>j. j" d1 "\<lambda>_. n"] d1(2) by (auto simp: inj_def)
  have lt3: "(i + 1) * cols + 1 < rows * cols" if "i < length a + 1" for i
    using cell_lt [of "i + 1" rows 1 cols] that cols by (simp add: rows_def)
  obtain d3 where d3: "fill (\<lambda>i. (i + 1) * cols + 1) (\<lambda>i. i) 0 (length a + 1) d2 = Some d3"
    "length d3 = rows * cols" "\<forall>i<length a + 1. d3 ! ((i + 1) * cols + 1) = Some i"
    using fill_run [of 0 "length a + 1" "\<lambda>i. (i + 1) * cols + 1" d2 "\<lambda>i. i"] lt3 d2(2) injs(2)
    by (auto simp del: mult_Suc add_mult_distrib)
  have lt4: "1 * cols + (j + 1) < rows * cols" if "j < length b + 1" for j
    using cell_lt [of 1 rows "j + 1" cols] that by (simp add: rows_def cols_def)
  obtain d4 where d4: "fill (\<lambda>j. 1 * cols + (j + 1)) (\<lambda>j. j) 0 (length b + 1) d3 = Some d4"
    "length d4 = rows * cols" "\<forall>j<length b + 1. d4 ! (1 * cols + (j + 1)) = Some j"
    "\<forall>x. (\<forall>j<length b + 1. x \<noteq> 1 * cols + (j + 1)) \<longrightarrow> d4 ! x = d3 ! x"
    using fill_run [of 0 "length b + 1" "\<lambda>j. 1 * cols + (j + 1)" d3 "\<lambda>j. j"] lt4 d3(2) injs(3)
    by auto
  have first_row: "mat d4 cols 1 (Suc c) = Some c" if "c \<le> length b" for c
    using d4(3) that by (simp add: mat_def)
  have first_col: "mat d4 cols (Suc r) 1 = Some r" if "r \<le> length a" for r
  proof (cases "r = 0")
    case True
    then show ?thesis using first_row [of 0] by simp
  next
    case False
    have "(r + 1) * cols + 1 \<noteq> 1 * cols + (j + 1)" if "j < length b + 1" for j
      using cell_inj [of 1 cols "j + 1" "r + 1" 1] False that by (simp add: cols_def)
    then show ?thesis using d4(4) d3(3) that by (simp add: mat_def del: mult_Suc add_mult_distrib)
  qed
  have "dl_filled a b 0 0 d4"
    using d4(2) first_row first_col first_col [of "Suc 0"]
    by (auto simp: dl_filled_def rows_def cols_def Suc_le_eq)
  then show thesis
    using that d1(1) d2(1) d3(1) d4(1) unfolding rows_def cols_def by blast
qed

lemma damerau_spec:
  assumes "(length a + 2) * (length b + 2) * 8 < 2 ^ 64"
  shows "strsim_damerau_levenshtein True a b = Some (Inr (dl a b (length a) (length b)))"
proof (cases "a = [] \<or> b = []")
  case True
  then show ?thesis by (auto simp: strsim_damerau_levenshtein_def)
next
  case False
  define n where "n = length a + length b + 1"
  obtain d1 d2 d3 d4 where d:
    "fill (\<lambda>i. i * (length b + 2)) (\<lambda>i. n) 0 (length a + 2) (malloc_cells ((length a + 2) * (length b + 2))) = Some d1"
    "fill (\<lambda>j. j) (\<lambda>j. n) 0 (length b + 2) d1 = Some d2"
    "fill (\<lambda>i. (i + 1) * (length b + 2) + 1) (\<lambda>i. i) 0 (length a + 1) d2 = Some d3"
    "fill (\<lambda>j. 1 * (length b + 2) + (j + 1)) (\<lambda>j. j) 0 (length b + 1) d3 = Some d4"
    "dl_filled a b 0 0 d4"
    using dl_base [OF assms] by blast
  obtain d' where d': "dl_outer (length b + 2) n a b 1 (\<lambda>_. 0) d4 = Some d'" "dl_filled a b (length a) 0 d'"
    using dl_outer_run [OF d(5), of a n] by (auto simp: n_def)
  have "ld d' ((length a + 1) * (length b + 2) + (length b + 1)) = Some (dl a b (length a) (length b))"
    using d'(2) by (intro ld_mat [of _ "length a + 2"]) (simp_all add: dl_filled_def)
  then show ?thesis
    using False d(1-4) d'(1) unfolding strsim_damerau_levenshtein_def Let_def n_def
    by (simp del: mult_Suc fill.simps)
qed

text \<open>When the byte count of the matrix wraps, the block is too small for the last cell.\<close>

lemma st_length: "st d i v = Some d' \<Longrightarrow> length d' = length d"
  by (auto simp: st_def split: if_splits)

lemma fill_length: "fill f g i k d = Some d' \<Longrightarrow> length d' = length d"
  by (induction k arbitrary: i d) (auto simp: st_length split: bind_splits)

lemma dl_inner_length: "dl_inner cols n ca last_b i bs j last_a d = Some d' \<Longrightarrow> length d' = length d"
  by (induction bs arbitrary: j last_a d) (auto simp: Let_def st_length split: bind_splits if_splits)

lemma dl_outer_length: "dl_outer cols n as b i last_b d = Some d' \<Longrightarrow> length d' = length d"
  by (induction as arbitrary: i last_b d) (auto simp: dl_inner_length split: bind_splits)

lemma damerau_wraps:
  assumes "2 ^ 64 \<le> (length a + 2) * (length b + 2) * 8" "a \<noteq> []" "b \<noteq> []"
  shows "strsim_damerau_levenshtein True a b = None"
proof (rule ccontr)
  define rows cols n where "rows = length a + 2" and "cols = length b + 2" and "n = length a + length b + 1"
  assume "strsim_damerau_levenshtein True a b \<noteq> None"
  then obtain d1 d2 d3 d4 d5 r where
    "fill (\<lambda>i. i * cols) (\<lambda>i. n) 0 rows (malloc_cells (rows * cols)) = Some d1"
    "fill (\<lambda>j. j) (\<lambda>j. n) 0 cols d1 = Some d2"
    "fill (\<lambda>i. (i + 1) * cols + 1) (\<lambda>i. i) 0 (length a + 1) d2 = Some d3"
    "fill (\<lambda>j. 1 * cols + (j + 1)) (\<lambda>j. j) 0 (length b + 1) d3 = Some d4"
    "dl_outer cols n a b 1 (\<lambda>_. 0) d4 = Some d5" "ld d5 ((length a + 1) * cols + (length b + 1)) = Some r"
    using assms(2,3) unfolding strsim_damerau_levenshtein_def Let_def rows_def cols_def n_def
    by (auto simp del: fill.simps mult_Suc split: bind_splits)
  then have "(length a + 1) * cols + (length b + 1) < length (malloc_cells (rows * cols))"
    by (auto simp: ld_def simp del: fill.simps dest!: fill_length dl_outer_length split: if_splits)
  moreover have "(length a + 1) * cols + (length b + 1) = rows * cols - 1"
    by (simp add: rows_def cols_def)
  moreover have "length (malloc_cells (rows * cols)) < rows * cols"
  proof -
    have "rows * cols * 8 mod 2 ^ 64 < rows * cols * 8"
      using assms(1) less_le_trans [OF mod_less_divisor [of "2 ^ 64" "rows * cols * 8"]]
      by (simp add: rows_def cols_def)
    then show ?thesis by (simp add: malloc_cells_def less_mult_imp_div_less)
  qed
  ultimately show False by linarith
qed

section \<open>The distance with transpositions is attained\<close>

inductive edit2 :: "'a list \<Rightarrow> 'a list \<Rightarrow> bool" where
  single: "edit1 a b \<Longrightarrow> edit2 a b"
| swap: "edit2 (us @ x # y # vs) (us @ y # x # vs)"

lemma edit2_snoc: "edit2 a b \<Longrightarrow> edit2 (a @ ws) (b @ ws)"
proof (induction rule: edit2.induct)
  case (single a b)
  have "edit1 (a @ ws) (b @ ws)"
    using single
  proof (induction rule: edit1.induct)
    case (ins us vs x)
    show ?case using edit1.ins [of us "vs @ ws" x] by simp
  next
    case (del us x vs)
    show ?case using edit1.del [of us x "vs @ ws"] by simp
  next
    case (sub us x vs y)
    show ?case using edit1.sub [of us x "vs @ ws" y] by simp
  qed
  then show ?case by (rule edit2.single)
next
  case (swap us x y vs)
  show ?case using edit2.swap [of us x y "vs @ ws"] by simp
qed

lemma edit2_steps_snoc: "(edit2 ^^ n) a b \<Longrightarrow> (edit2 ^^ n) (a @ ws) (b @ ws)"
  using steps_map [of edit2 "\<lambda>xs. xs @ ws"] edit2_snoc by blast

lemma delete_run: "(edit2 ^^ length ms) (us @ ms @ vs) (us @ vs)"
proof (induction ms)
  case (Cons m ms)
  have "edit2 (us @ (m # ms) @ vs) (us @ ms @ vs)"
    using edit1.del [of us m "ms @ vs"] by (simp add: edit2.single)
  then show ?case using relpowp_Suc_I2 [OF _ Cons] by simp
qed simp

lemma insert_run: "(edit2 ^^ length ms) (us @ vs) (us @ ms @ vs)"
proof (induction ms)
  case (Cons m ms)
  have "edit2 (us @ ms @ vs) (us @ (m # ms) @ vs)"
    using edit1.ins [of us "ms @ vs" m] by (simp add: edit2.single)
  then show ?case using relpowp_Suc_I [OF Cons] by simp
qed simp

text \<open>A transposition across deleted and inserted material.\<close>

lemma transpose_run:
  assumes "(edit2 ^^ n) p q"
  shows "(edit2 ^^ (n + length ms + 1 + length ns)) (p @ [x] @ ms @ [y]) (q @ [y] @ ns @ [x])"
proof -
  have "(edit2 ^^ n) (p @ [x] @ ms @ [y]) (q @ [x] @ ms @ [y])" using assms by (rule edit2_steps_snoc)
  moreover have "(edit2 ^^ length ms) (q @ [x] @ ms @ [y]) (q @ [x, y])"
    using delete_run [of ms "q @ [x]" "[y]"] by simp
  moreover have "(edit2 ^^ 1) (q @ [x, y]) (q @ [y, x])" using edit2.swap [of q x y "[]"] by (simp only: relpowp_1)
  moreover have "(edit2 ^^ length ns) (q @ [y, x]) (q @ [y] @ ns @ [x])"
    using insert_run [of ns "q @ [y]" "[x]"] by simp
  ultimately show ?thesis unfolding relpowp_add by (meson relcomppI)
qed

lemma split_at_occ:
  assumes "i < length a" "0 < i1" "i1 \<le> i"
  shows "take (Suc i) a = take (i1 - 1) a @ [a ! (i1 - 1)] @ drop i1 (take i a) @ [a ! i]"
proof -
  have "take i1 a = take (i1 - 1) a @ [a ! (i1 - 1)]"
    using assms take_Suc_conv_app_nth [of "i1 - 1" a] by simp
  moreover have "take i a = take i1 a @ drop i1 (take i a)"
    using assms by (metis append_take_drop_id min.absorb1 take_take)
  ultimately show ?thesis using assms(1) by (simp add: take_Suc_conv_app_nth)
qed

lemma dl_attained:
  "i \<le> length a \<Longrightarrow> j \<le> length b \<Longrightarrow> (edit2 ^^ dl a b i j) (take i a) (take j b)"
proof (induction a b i j rule: dl.induct)
  case (1 a b j)
  then show ?case using insert_run [of "take j b" "[]" "[]"] by simp
next
  case (2 a b i)
  then show ?case using delete_run [of "take (Suc i) a" "[]" "[]"] by simp
next
  case (3 a b i j)
  define i1 where "i1 = last_occ (b ! j) a i"
  define j1 where "j1 = last_occ (a ! i) b j"
  have lt: "i < length a" "j < length b" using "3.prems" by simp_all
  have ta: "take (Suc i) a = take i a @ [a ! i]" "take (Suc j) b = take j b @ [b ! j]"
    using lt by (simp_all add: take_Suc_conv_app_nth)
  have le: "i1 \<le> i" "j1 \<le> j" by (simp_all add: i1_def j1_def last_occ_le)
  have hit: "a ! (i1 - 1) = b ! j" "b ! (j1 - 1) = a ! i" if "0 < i1" "0 < j1"
    using that last_occ_hit [of "b ! j" a i] last_occ_hit [of "a ! i" b j] by (simp_all add: i1_def j1_def)
  have "dl a b (Suc i) (Suc j) \<in> {dl a b i j + (if a ! i = b ! j then 0 else 1), dl a b (Suc i) j + 1,
      dl a b i (Suc j) + 1} \<union> (if 0 < i1 \<and> 0 < j1 then {dl a b (i1 - 1) (j1 - 1) + (i - i1) + 1 + (j - j1)} else {})"
    by (auto simp: dl.simps(3) Let_def min_def i1_def j1_def)
  then consider "dl a b (Suc i) (Suc j) = dl a b i j + (if a ! i = b ! j then 0 else 1)"
    | "dl a b (Suc i) (Suc j) = dl a b (Suc i) j + 1" | "dl a b (Suc i) (Suc j) = dl a b i (Suc j) + 1"
    | "0 < i1" "0 < j1" "dl a b (Suc i) (Suc j) = dl a b (i1 - 1) (j1 - 1) + (i - i1) + 1 + (j - j1)"
    by (auto split: if_splits)
  then show ?case
  proof cases
    case 1
    have s: "(edit2 ^^ dl a b i j) (take i a @ [a ! i]) (take j b @ [a ! i])"
      using "3.IH" lt by (intro edit2_steps_snoc) auto
    have "edit2 (take j b @ [a ! i]) (take j b @ [b ! j])"
      using edit1.sub [of "take j b" "a ! i" "[]" "b ! j"] by (simp add: edit2.single)
    with s 1 ta show ?thesis by (auto intro: relpowp_Suc_I)
  next
    case 2
    have s: "(edit2 ^^ dl a b (Suc i) j) (take (Suc i) a) (take j b)" using "3.IH" lt by auto
    have "edit2 (take j b) (take j b @ [b ! j])"
      using edit1.ins [of "take j b" "[]" "b ! j"] by (simp add: edit2.single)
    with s 2 ta(2) show ?thesis by (auto intro: relpowp_Suc_I)
  next
    case 3
    have s: "(edit2 ^^ dl a b i (Suc j)) (take i a) (take (Suc j) b)" using "3.IH" lt by auto
    have "edit2 (take i a @ [a ! i]) (take i a)"
      using edit1.del [of "take i a" "a ! i" "[]"] by (simp add: edit2.single)
    from relpowp_Suc_I2 [OF this s] 3 ta(1) show ?thesis by simp
  next
    case 4
    have s: "(edit2 ^^ dl a b (i1 - 1) (j1 - 1)) (take (i1 - 1) a) (take (j1 - 1) b)"
      using "3.IH" lt le 4(1,2) by (auto simp: i1_def j1_def)
    show ?thesis
      using transpose_run [OF s, of "drop i1 (take i a)" "drop j1 (take j b)" "b ! j" "a ! i"]
        split_at_occ [OF lt(1) 4(1) le(1)] split_at_occ [OF lt(2) 4(2) le(2)] hit [OF 4(1,2)] lt le
      by (simp add: 4(3))
  qed
qed

lemma dl_le_lev: "i \<le> length a \<Longrightarrow> j \<le> length b \<Longrightarrow> dl a b i j \<le> lev_at a b j i"
proof (induction a b i j rule: dl.induct)
  case (3 a b i j)
  then have "dl a b i j \<le> lev_at a b j i" "dl a b (Suc i) j \<le> lev_at a b j (Suc i)"
    "dl a b i (Suc j) \<le> lev_at a b (Suc j) i" by auto
  then show ?case using "3.prems" by (auto simp: dl.simps(3) Let_def lev_at_step min_def)
qed simp_all

end
