(* ===== verification/Strsim_Similarity.thy ===== *)
theory Strsim_Similarity
  imports Strsim
begin

text \<open>
  The similarity measures: the bookkeeping of the Jaro matching and the scan over the matched
  bytes, and the frequency tables behind the cosine and Jaccard measures, which are compared
  with multisets of bytes and of bigrams.
\<close>

section \<open>Matched bytes\<close>

definition trues :: "bool list \<Rightarrow> nat" where
  "trues bs = length (filter id bs)"

lemma trues_simps [simp]: "trues [] = 0" "trues (x # bs) = (if x then 1 else 0) + trues bs"
  "trues (replicate n False) = 0" "trues (replicate n True) = n"
  by (simp_all add: trues_def filter_replicate)

lemma trues_le: "trues bs \<le> length bs"
  by (simp add: trues_def)

lemma trues_mark: "i < length bs \<Longrightarrow> \<not> bs ! i \<Longrightarrow> trues (bs[i := True]) = trues bs + 1"
  by (induction bs arbitrary: i) (auto split: nat.splits simp: nth_Cons')

lemma find_match_run:
  assumes "length mb = length b" "k = 0 \<or> j + k \<le> length b"
  shows "find_match b mb x j k = Some None \<or>
    (\<exists>j'. find_match b mb x j k = Some (Some j') \<and> j' < length b \<and> \<not> mb ! j' \<and> b ! j' = x)"
  using assms(2)
proof (induction k arbitrary: j)
  case (Suc k)
  then show ?case using Suc.IH [of "Suc j"] assms(1) by auto
qed simp

lemma match_loop_marks:
  assumes "i + k = length a" "length ma = length a" "length mb = length b" "trues ma = m" "trues mb = m"
    "\<forall>i'\<ge>i. i' < length a \<longrightarrow> \<not> ma ! i'"
  shows "\<exists>ma' mb' m'. match_loop a b dst i k (ma, mb, m) = Some (ma', mb', m') \<and>
    length ma' = length a \<and> length mb' = length b \<and> trues ma' = m' \<and> trues mb' = m'"
  using assms
proof (induction k arbitrary: i ma mb m)
  case (Suc k)
  let ?lo = "if i > dst then i - dst else 0" and ?hi = "min2 (i + dst + 1) (length b)"
  have "?hi - ?lo = 0 \<or> ?lo + (?hi - ?lo) \<le> length b" by (auto simp: min2_def)
  from find_match_run [OF Suc.prems(3) this, of "a ! i"] consider
    "find_match b mb (a ! i) ?lo (?hi - ?lo) = Some None"
    | j where "find_match b mb (a ! i) ?lo (?hi - ?lo) = Some (Some j)" "j < length b" "\<not> mb ! j" by blast
  then show ?case
  proof cases
    case 1
    with Suc.IH [of "i + 1" ma mb m] Suc.prems show ?thesis by (auto simp: Let_def)
  next
    case (2 j)
    with Suc.IH [of "i + 1" "ma[i := True]" "mb[j := True]" "m + 1"] Suc.prems show ?thesis
      by (auto simp: Let_def trues_mark)
  qed
qed simp

lemma next_matched_run:
  assumes "0 < trues (drop k mb)"
  shows "\<exists>k'. next_matched mb k = Some k' \<and> k' < length mb \<and> trues (drop (Suc k') mb) + 1 = trues (drop k mb)"
  using assms
proof (induction mb k rule: next_matched.induct)
  case (1 mb k)
  show ?case
  proof (cases "k < length mb")
    case True
    then have d: "drop k mb = mb ! k # drop (Suc k) mb" by (simp add: Cons_nth_drop_Suc)
    with 1 True show ?thesis by (cases "mb ! k") (auto simp: next_matched.simps [of mb k])
  next
    case False
    with 1 show ?thesis by simp
  qed
qed

lemma trans_loop_run:
  assumes "i + n = length ma" "trues (drop i ma) = trues (drop k mb)" "length ma = length a" "length mb = length b"
  shows "\<exists>t'. trans_loop a b ma mb i n k t = Some t' \<and> t' \<le> t + trues (drop i ma)"
  using assms
proof (induction n arbitrary: i k t)
  case (Suc n)
  have d: "drop i ma = ma ! i # drop (Suc i) ma" using Suc.prems(1) by (simp add: Cons_nth_drop_Suc)
  show ?case
  proof (cases "ma ! i")
    case True
    then obtain k' where k': "next_matched mb k = Some k'" "trues (drop (Suc k') mb) + 1 = trues (drop k mb)" "k' < length mb"
      using next_matched_run [of k mb] Suc.prems(2) d by auto
    have "trues (drop (Suc i) ma) = trues (drop (Suc k') mb)" using k'(2) Suc.prems(2) d True by simp
    with Suc.IH [of "Suc i" "Suc k'" "if a ! i \<noteq> b ! k' then t + 1 else t"] Suc.prems(1,3,4)
    obtain t' where "trans_loop a b ma mb (Suc i) n (Suc k') (if a ! i \<noteq> b ! k' then t + 1 else t) = Some t'"
      "t' \<le> (if a ! i \<noteq> b ! k' then t + 1 else t) + trues (drop (Suc i) ma)" by auto
    with True k'(1,3) d Suc.prems(1,3,4) show ?thesis by (auto split: if_splits)
  next
    case False
    with Suc.IH [of "Suc i" k t] Suc.prems d show ?thesis by auto
  qed
qed simp

lemma prefix_loop_run:
  assumes "p + k \<le> length a" "p + k \<le> length b"
  shows "prefix_loop a b p k = Some (p + length (takeWhile (\<lambda>(x, y). x = y) (take k (zip (drop p a) (drop p b)))))"
  using assms
proof (induction k arbitrary: p)
  case (Suc k)
  then have "drop p a = a ! p # drop (Suc p) a" "drop p b = b ! p # drop (Suc p) b" by (simp_all add: Cons_nth_drop_Suc)
  then show ?case using Suc.IH [of "Suc p"] Suc.prems by simp
qed simp

section \<open>The Jaro score\<close>

lemma jaro_score_range:
  assumes "0 < m" "m \<le> la" "m \<le> lb" "t \<le> m" "p \<le> 4"
  shows "0 \<le> jaro_score exact la lb m t p \<and> jaro_score exact la lb m t p \<le> 1"
proof -
  define jaro where "jaro = (real m / real la + real m / real lb + (real m - real t / 2) / real m) / 3"
  have "0 \<le> real m / real la" "real m / real la \<le> 1" "0 \<le> real m / real lb" "real m / real lb \<le> 1"
    "0 \<le> (real m - real t / 2) / real m" "(real m - real t / 2) / real m \<le> 1"
    using assms by (simp_all add: field_simps)
  then have j: "0 \<le> jaro" "jaro \<le> 1" by (simp_all add: jaro_def)
  have "real p * (1 / 10) * (1 - jaro) \<le> 1 * (1 - jaro)"
    using assms(5) j(2) by (intro mult_right_mono) simp_all
  moreover have "0 \<le> real p * (1 / 10) * (1 - jaro)" using j(2) by simp
  moreover have "jaro_score exact la lb m t p = jaro + real p * (1 / 10) * (1 - jaro)"
    by (simp add: jaro_score_def exact_def jaro_def Let_def)
  ultimately show ?thesis using j by simp
qed

text \<open>The length of the common prefix, at most 4.\<close>

definition jaro_prefix :: "bytes \<Rightarrow> bytes \<Rightarrow> nat" where
  "jaro_prefix a b = length (takeWhile (\<lambda>(x, y). x = y) (take 4 (zip a b)))"

lemma jaro_prefix_le: "jaro_prefix a b \<le> 4"
  unfolding jaro_prefix_def by (rule order_trans [OF length_takeWhile_le]) simp

lemma jaro_prefix_run: "prefix_loop a b 0 (min2 (min2 (length a) (length b)) JARO_WINKLER_MAX_PREFIX) = Some (jaro_prefix a b)"
proof -
  let ?k = "min2 (min2 (length a) (length b)) JARO_WINKLER_MAX_PREFIX"
  have k: "?k = min (length (zip a b)) 4" by (auto simp: min2_def JARO_WINKLER_MAX_PREFIX_def)
  then have "take ?k (zip a b) = take 4 (zip a b)" by (metis min.commute take_all_iff order_refl take_take)
  then show ?thesis using prefix_loop_run [of 0 ?k a b] k by (simp add: jaro_prefix_def)
qed

lemma jaro_run:
  assumes "a \<noteq> []" "b \<noteq> []"
  shows "\<exists>m t. m \<le> length a \<and> m \<le> length b \<and> t \<le> m \<and>
    strsim_jaro_winkler fl True a b
      = Some (Inr (if m = 0 then d_of fl 0 else jaro_score fl (length a) (length b) m t (jaro_prefix a b)))"
proof -
  let ?n = "max2 (length a) (length b)"
  let ?dst = "if ?n div 2 > 0 then ?n div 2 - 1 else 0"
  obtain ma mb m where ml: "match_loop a b ?dst 0 (length a)
      (replicate (length a) False, replicate (length b) False, 0) = Some (ma, mb, m)"
    and inv: "length ma = length a" "length mb = length b" "trues ma = m" "trues mb = m"
    using match_loop_marks [of 0 "length a" a "replicate (length a) False" "replicate (length b) False" b 0 ?dst] by auto
  then have le: "m \<le> length a" "m \<le> length b" using trues_le [of ma] trues_le [of mb] by simp_all
  obtain t where t: "trans_loop a b ma mb 0 (length a) 0 0 = Some t" "t \<le> m"
    using trans_loop_run [of 0 "length a" ma 0 mb a b 0] inv by auto
  have "strsim_jaro_winkler fl True a b
      = Some (Inr (if m = 0 then d_of fl 0 else jaro_score fl (length a) (length b) m t (jaro_prefix a b)))"
    using assms ml t(1) by (simp add: strsim_jaro_winkler_def Let_def jaro_prefix_run)
  with le t(2) show ?thesis by blast
qed

section \<open>Equal strings\<close>

lemma find_match_here:
  assumes "\<forall>j'. j \<le> j' \<longrightarrow> j' < i \<longrightarrow> mb ! j'" "\<not> mb ! i" "b ! i = x" "j \<le> i" "i < j + k" "i < length b" "length mb = length b"
  shows "find_match b mb x j k = Some (Some i)"
  using assms
proof (induction k arbitrary: j)
  case (Suc k)
  then show ?case by (cases "j = i") auto
qed simp

lemma match_loop_equal:
  assumes "i + k = length a" "ms = replicate i True @ replicate k False"
  shows "match_loop a a dst i k (ms, ms, i) = Some (replicate (length a) True, replicate (length a) True, length a)"
  using assms
proof (induction k arbitrary: i ms)
  case (Suc k)
  let ?lo = "if i > dst then i - dst else 0" and ?hi = "min2 (i + dst + 1) (length a)"
  have "find_match a ms (a ! i) ?lo (?hi - ?lo) = Some (Some i)"
    using Suc.prems by (intro find_match_here) (auto simp: nth_append min2_def)
  moreover have "ms[i := True] = replicate (Suc i) True @ replicate k False"
    using Suc.prems(2) by (simp add: list_update_append replicate_append_same)
  ultimately show ?case using Suc.IH [of "Suc i"] Suc.prems(1) by (simp add: Let_def)
qed simp

lemma trans_loop_equal:
  assumes "i + n = length a" "ms = replicate (length a) True"
  shows "trans_loop a a ms ms i n i t = Some t"
  using assms
proof (induction n arbitrary: i)
  case (Suc n)
  then show ?case by (simp add: next_matched.simps [of _ i])
qed simp

lemma jaro_equal:
  assumes "a \<noteq> []"
  shows "strsim_jaro_winkler exact True a a = Some (Inr 1)"
proof -
  have ml: "match_loop a a dst 0 (length a) (replicate (length a) False, replicate (length a) False, 0)
      = Some (replicate (length a) True, replicate (length a) True, length a)" for dst
    using match_loop_equal [of 0 "length a" a "replicate (length a) False" dst] by simp
  have tl: "trans_loop a a (replicate (length a) True) (replicate (length a) True) 0 (length a) 0 0 = Some 0"
    by (rule trans_loop_equal) simp_all
  show ?thesis
    using assms by (simp add: strsim_jaro_winkler_def Let_def ml tl jaro_prefix_run jaro_score_def exact_def)
qed

section \<open>Frequency tables\<close>

lemma build_tf_counts: "build_tf s tf (unat c) = tf (unat c) + of_nat (count (mset s) c)"
proof (induction s arbitrary: tf)
  case (Cons x s)
  then show ?case by (cases "x = c") (simp_all add: word_unat_eq_iff [of x c])
qed simp

lemma cosine_sums_run:
  "cosine_sums f g i k (x, y, z)
    = (x + (\<Sum>n\<in>{i..<i + k}. f n * g n), y + (\<Sum>n\<in>{i..<i + k}. f n * f n), z + (\<Sum>n\<in>{i..<i + k}. g n * g n))"
proof (induction k arbitrary: i x y z)
  case (Suc k)
  have "(\<Sum>n\<in>{i..<i + Suc k}. h n) = h i + (\<Sum>n\<in>{Suc i..<Suc i + k}. h n)" for h :: "nat \<Rightarrow> u64"
    by (simp add: sum.atLeast_Suc_lessThan)
  with Suc [of "Suc i"] show ?case by (simp add: add.assoc del: sum.op_ivl_Suc)
qed simp

lemma bij_byte: "bij_betw unat (UNIV :: u8 set) {0..<256}"
proof (rule bij_betw_byWitness [where f' = "word_of_nat"])
  have "unat (b :: u8) < 256" for b using unsigned_less [of b] by simp
  then show "unat ` (UNIV :: u8 set) \<subseteq> {0..<256}" by auto
qed (auto simp: unat_of_nat)

text \<open>Sums over the table are sums over the bytes.\<close>

lemma table_sum: "(\<Sum>n\<in>{0..<256}. h n) = (\<Sum>c\<in>(UNIV :: u8 set). h (unat c))"
  using sum.reindex_bij_betw [OF bij_byte, of h] by simp

definition dot :: "'a :: finite multiset \<Rightarrow> 'a multiset \<Rightarrow> nat" where
  "dot A B = (\<Sum>x\<in>UNIV. count A x * count B x)"

lemma cosine_tables:
  "cosine_sums (build_tf a (\<lambda>_. 0)) (build_tf b (\<lambda>_. 0)) 0 256 (0, 0, 0)
    = (of_nat (dot (mset a) (mset b)), of_nat (dot (mset a) (mset a)), of_nat (dot (mset b) (mset b)))"
  by (simp add: cosine_sums_run table_sum build_tf_counts dot_def)

lemma dot_le: "dot A B \<le> size A * size B"
proof -
  have "count B x \<le> size B" for x by (rule count_le_size)
  then have "dot A B \<le> (\<Sum>x\<in>UNIV. count A x * size B)"
    unfolding dot_def by (intro sum_mono mult_le_mono) auto
  also have "\<dots> = (\<Sum>x\<in>UNIV. count A x) * size B" by (simp add: sum_distrib_right)
  also have "(\<Sum>x\<in>UNIV. count A x) = size A"
    unfolding size_multiset_overloaded_eq by (intro sum.mono_neutral_right) (auto simp: not_in_iff)
  finally show ?thesis .
qed

section \<open>Bigrams\<close>

definition bigrams :: "bytes \<Rightarrow> (u8 \<times> u8) multiset" where
  "bigrams s = mset (zip s (tl s))"

definition bigram_idx :: "u8 \<times> u8 \<Rightarrow> nat" where
  "bigram_idx p = unat (fst p) * 256 + unat (snd p)"

lemma unat_byte: "unat (b :: u8) < 256"
  using unsigned_less [of b] by simp

lemma bij_bigram: "bij_betw bigram_idx UNIV {0..<65536}"
proof (rule bij_betw_byWitness [where f' = "\<lambda>n. (word_of_nat (n div 256), word_of_nat (n mod 256))"])
  show "\<forall>p\<in>UNIV. (word_of_nat (bigram_idx p div 256), word_of_nat (bigram_idx p mod 256)) = p"
    using unat_byte by (auto simp: bigram_idx_def)
  show "\<forall>n\<in>{0..<65536}. bigram_idx (word_of_nat (n div 256), word_of_nat (n mod 256)) = n"
    by (auto simp: bigram_idx_def unat_of_nat less_mult_imp_div_less)
  show "bigram_idx ` UNIV \<subseteq> {0..<65536}"
  proof clarsimp
    fix a b :: u8
    show "bigram_idx (a, b) < 65536"
      using unat_byte [of a] unat_byte [of b] by (simp add: bigram_idx_def)
  qed
qed simp

lemma bigram_idx_eq: "bigram_idx p = bigram_idx q \<longleftrightarrow> p = q"
  using bij_bigram by (metis bij_betw_def inj_eq)

lemma bigram_freq_counts:
  "bigram_freq s f (bigram_idx p) = f (bigram_idx p) + of_nat (count (bigrams s) p)"
proof (induction s f rule: bigram_freq.induct)
  case (1 x y s f)
  have "unat x * ALPHABET_SIZE + unat y = bigram_idx (x, y)" by (simp add: bigram_idx_def ALPHABET_SIZE_def)
  with 1 [OF refl] show ?case by (auto simp: bigrams_def Let_def bigram_idx_eq fun_upd_def)
qed (simp_all add: bigrams_def)

lemma jaccard_sums_run:
  "jaccard_sums f g i k (x, y)
    = (x + (\<Sum>n\<in>{i..<i + k}. min (unat (f n)) (unat (g n))), y + (\<Sum>n\<in>{i..<i + k}. max (unat (f n)) (unat (g n))))"
proof (induction k arbitrary: i x y)
  case (Suc k)
  have "(\<Sum>n\<in>{i..<i + Suc k}. h n) = h i + (\<Sum>n\<in>{Suc i..<Suc i + k}. h n)" for h :: "nat \<Rightarrow> nat"
    by (simp add: sum.atLeast_Suc_lessThan)
  moreover have "min2 p q = min p q" "max2 p q = max p q" for p q
    by (simp_all add: min2_def max2_def min_def max_def)
  ultimately show ?case using Suc [of "Suc i"] by (simp add: add.assoc del: sum.op_ivl_Suc)
qed simp

lemma bigram_sum: "(\<Sum>n\<in>{0..<65536}. h n) = (\<Sum>p\<in>UNIV. h (bigram_idx p))"
  using sum.reindex_bij_betw [OF bij_bigram, of h] by simp

lemma size_UNIV: "size (M :: 'a :: finite multiset) = (\<Sum>x\<in>UNIV. count M x)"
  unfolding size_multiset_overloaded_eq by (intro sum.mono_neutral_left) (auto simp: not_in_iff)

lemma bigram_freq_exact:
  assumes "length s \<le> 2 ^ 32"
  shows "unat (bigram_freq s (\<lambda>_. 0) (bigram_idx p)) = count (bigrams s) p"
proof (cases "s = []")
  case False
  have "count (bigrams s) p \<le> size (bigrams s)" by (rule count_le_size)
  also have "\<dots> < 2 ^ 32" using assms False by (cases s) (simp_all add: bigrams_def)
  finally show ?thesis by (simp add: bigram_freq_counts unat_of_nat)
qed (simp add: bigram_freq_counts bigrams_def)

lemma jaccard_tables:
  assumes "length a \<le> 2 ^ 32" "length b \<le> 2 ^ 32"
  shows "jaccard_sums (bigram_freq a (\<lambda>_. 0)) (bigram_freq b (\<lambda>_. 0)) 0 65536 (0, 0)
    = (size (bigrams a \<inter># bigrams b), size (bigrams a \<union># bigrams b))"
  by (simp add: jaccard_sums_run bigram_sum size_UNIV bigram_freq_exact [OF assms(1)]
      bigram_freq_exact [OF assms(2)])

end
