(* ===== verification/Strsim_Theorems.thy ===== *)
theory Strsim_Theorems
  imports Strsim_Distance Strsim_Similarity "HOL-Library.Code_Target_Nat"
begin

text \<open>The properties of the string similarity measures.\<close>

text \<open>(C20) The two-row computation of \<^verbatim>\<open>strsim_levenshtein\<close> is memory safe and returns the edit
  distance: some sequence of that many insertions, deletions and substitutions of single
  bytes turns the first string into the second, and no shorter one does.  Without memory
  it reports -2, except when a string is empty, where it needs none.\<close>

theorem strsim_levenshtein_minimal:
  assumes "min (length a) (length b) < 2 ^ 59"
  shows "(\<exists>r. strsim_levenshtein True a b = Some (Inr r) \<and> (edit1 ^^ r) a b \<and>
      (\<forall>m. (edit1 ^^ m) a b \<longrightarrow> r \<le> m)) \<and>
    strsim_levenshtein False a b
      = Some (if a = [] \<or> b = [] then Inr (max (length a) (length b)) else Inl (-2))"
  using levenshtein_spec [OF assms]
  by (auto simp: fewest_edits_def) (auto simp: strsim_levenshtein_def max_def)

theorem strsim_levenshtein_minimal_witness:
  "\<exists>r. strsim_levenshtein True [107, 105, 116] [115, 105, 116, 116] = Some (Inr r) \<and>
     (edit1 ^^ r) [107, 105, 116] [115, 105, 116, 116 :: u8] \<and> r = 2"
proof -
  have "strsim_levenshtein True [107, 105, 116] [115, 105, 116, 116] = Some (Inr 2)"
    by code_simp
  with strsim_levenshtein_minimal [of "[107, 105, 116]" "[115, 105, 116, 116]"] show ?thesis by auto
qed

text \<open>(C21) \<^verbatim>\<open>strsim_damerau_levenshtein\<close> on two non-empty strings: when the byte count of the
  matrix fits \<^verbatim>\<open>size_t\<close>, every access is inside the block, no unwritten cell is read, and
  the result is the Lowrance-Wagner recurrence; that many edits, transpositions of adjacent
  bytes included, do turn one string into the other, and edits without transpositions need
  at least as many.  When the byte count wraps, the computation leaves its block.\<close>

theorem strsim_damerau_safe:
  assumes "a \<noteq> []" "b \<noteq> []"
  shows "strsim_damerau_levenshtein True a b
      = (if (length a + 2) * (length b + 2) * 8 < 2 ^ 64 then Some (Inr (dl a b (length a) (length b))) else None) \<and>
    (edit2 ^^ dl a b (length a) (length b)) a b \<and>
    (\<forall>m. (edit1 ^^ m) a b \<longrightarrow> dl a b (length a) (length b) \<le> m)"
proof (intro conjI allI impI)
  show "strsim_damerau_levenshtein True a b
      = (if (length a + 2) * (length b + 2) * 8 < 2 ^ 64 then Some (Inr (dl a b (length a) (length b))) else None)"
    using damerau_spec [of a b] damerau_wraps [of a b] assms by (simp add: not_less del: mult_Suc add_mult_distrib)
  show "(edit2 ^^ dl a b (length a) (length b)) a b"
    using dl_attained [of "length a" a "length b" b] by simp
next
  fix m
  assume "(edit1 ^^ m) a b"
  then have "(edit1 ^^ m) (rev a) (rev b)" using steps_map [of edit1 rev] edit1_rev by blast
  then have "lev (rev a) (rev b) \<le> m" by (rule lev_lower)
  with dl_le_lev [of "length a" a "length b" b] show "dl a b (length a) (length b) \<le> m"
    by (simp add: lev_at_def)
qed

theorem strsim_damerau_safe_witness:
  "strsim_damerau_levenshtein True [116, 101, 104] [116, 104, 101] = Some (Inr 1)"
proof -
  have "dl [116, 101, 104] [116, 104, 101 :: u8] 3 3 = 1"
    by code_simp
  with strsim_damerau_safe [of "[116, 101, 104]" "[116, 104, 101]"] show ?thesis
    by (simp add: numeral_3_eq_3)
qed

text \<open>(C22) \<^verbatim>\<open>strsim_jaro_winkler\<close> is memory safe: the numbers of marked bytes of the two strings
  agree, so the scan for the next marked byte always stops inside the array; the matches
  are at most the shorter length and the transpositions at most the matches.  In exact
  arithmetic the score lies between 0 and 1 and is 1 for equal strings.\<close>

theorem strsim_jaro_winkler_safe:
  "(\<exists>r. strsim_jaro_winkler exact True a b = Some (Inr r) \<and> 0 \<le> r \<and> r \<le> 1 \<and> (a = b \<longrightarrow> r = 1)) \<and>
   (a \<noteq> [] \<longrightarrow> b \<noteq> [] \<longrightarrow> (\<exists>m t. m \<le> min (length a) (length b) \<and> t \<le> m \<and>
      strsim_jaro_winkler fl True a b = Some (Inr (if m = 0 then d_of fl 0
        else jaro_score fl (length a) (length b) m t (jaro_prefix a b)))))"
proof (intro conjI impI)
  show "\<exists>r. strsim_jaro_winkler exact True a b = Some (Inr r) \<and> 0 \<le> r \<and> r \<le> 1 \<and> (a = b \<longrightarrow> r = 1)"
  proof (cases "a = [] \<or> b = []")
    case True
    then show ?thesis by (auto simp: strsim_jaro_winkler_def exact_def)
  next
    case False
    then obtain m t where mt: "m \<le> length a" "m \<le> length b" "t \<le> m"
      "strsim_jaro_winkler exact True a b = Some (Inr (if m = 0 then d_of exact 0
        else jaro_score exact (length a) (length b) m t (jaro_prefix a b)))"
      using jaro_run [of a b exact] by blast
    then show ?thesis
      using jaro_score_range [OF _ mt(1-3) jaro_prefix_le, of a b] jaro_equal [of a] False
      by (cases "m = 0") (auto simp: exact_def)
  qed
next
  assume "a \<noteq> []" "b \<noteq> []"
  from jaro_run [OF this, of fl] show "\<exists>m t. m \<le> min (length a) (length b) \<and> t \<le> m \<and>
      strsim_jaro_winkler fl True a b = Some (Inr (if m = 0 then d_of fl 0
        else jaro_score fl (length a) (length b) m t (jaro_prefix a b)))"
    by auto
qed

theorem strsim_jaro_winkler_safe_witness:
  "strsim_jaro_winkler exact True [97, 98] [97, 98] = Some (Inr 1)"
  using strsim_jaro_winkler_safe [of "[97, 98]" "[97, 98]" exact] by auto

text \<open>(C23) The frequency tables: for strings of 2 to 2^32 - 1 bytes the cosine measure divides the dot
  product of the byte counts by the product of their norms, and the Jaccard measure divides
  the size of the multiset intersection of the bigrams by the size of their union, which is
  not 0; no counter wraps.\<close>

theorem strsim_frequency_measures:
  assumes "2 \<le> length a" "2 \<le> length b" "length a < 2 ^ 32" "length b < 2 ^ 32"
  shows "strsim_cosine fl a b = Inr (d_div fl (d_of fl (dot (mset a) (mset b)))
      (d_mul fl (d_sqrt fl (d_of fl (dot (mset a) (mset a)))) (d_sqrt fl (d_of fl (dot (mset b) (mset b)))))) \<and>
    strsim_jaccard_bigram fl True a b = Inr (d_div fl (d_of fl (size (bigrams a \<inter># bigrams b)))
      (d_of fl (size (bigrams a \<union># bigrams b)))) \<and>
    0 < size (bigrams a \<union># bigrams b)"
proof (intro conjI)
  have small: "unat (of_nat (dot (mset x) (mset y)) :: u64) = dot (mset x) (mset y)"
    if "length x < 2 ^ 32" "length y < 2 ^ 32" for x y :: bytes
  proof -
    have "dot (mset x) (mset y) \<le> length x * length y" using dot_le [of "mset x" "mset y"] by simp
    also have "\<dots> < 2 ^ 32 * 2 ^ 32" using that by (intro mult_strict_mono) auto
    finally show ?thesis by (simp add: unat_of_nat)
  qed
  have ne: "a \<noteq> []" "b \<noteq> []" using assms by auto
  then show "strsim_cosine fl a b = Inr (d_div fl (d_of fl (dot (mset a) (mset b)))
      (d_mul fl (d_sqrt fl (d_of fl (dot (mset a) (mset a)))) (d_sqrt fl (d_of fl (dot (mset b) (mset b))))))"
    using small [OF assms(3,4)] small [OF assms(3,3)] small [OF assms(4,4)]
    by (simp add: strsim_cosine_def ALPHABET_SIZE_def cosine_tables)
  show "strsim_jaccard_bigram fl True a b = Inr (d_div fl (d_of fl (size (bigrams a \<inter># bigrams b)))
      (d_of fl (size (bigrams a \<union># bigrams b))))"
    using assms jaccard_tables [of a b]
    by (simp add: strsim_jaccard_bigram_def BIGRAM_TABLE_SIZE_def ALPHABET_SIZE_def)
  have "0 < size (bigrams a)" using assms(1) by (cases a) (auto simp: bigrams_def)
  moreover have "size (bigrams a) \<le> size (bigrams a \<union># bigrams b)" by (intro size_mset_mono) simp
  ultimately show "0 < size (bigrams a \<union># bigrams b)" by simp
qed

theorem strsim_frequency_measures_witness:
  "strsim_jaccard_bigram exact True [110, 105, 103] [110, 105] = Inr (1 / 2)"
proof -
  have "bigrams [110, 105, 103] = {#(110, 105), (105, 103)#}" "bigrams [110, 105] = {#(110, 105)#}"
    by (simp_all add: bigrams_def)
  then have "size (bigrams [110, 105, 103] \<inter># bigrams [110, 105]) = 1"
    "size (bigrams [110, 105, 103] \<union># bigrams [110, 105]) = 2"
    by (simp_all add: union_mset_def)
  with strsim_frequency_measures [of "[110, 105, 103]" "[110, 105]" exact] show ?thesis
    by (simp add: exact_def)
qed

end
