(* ===== verification/Linked_List.thy ===== *)
theory Linked_List
  imports Byte_Strings
begin

text \<open>
  The doubly-linked list of \<^verbatim>\<open>src/list.c\<close> over an explicit heap.  A pointer is a natural number,
  0 is NULL; a heap maps the addresses of live nodes to nodes, and following NULL or a freed
  pointer is undefined (\<open>None\<close>).  A node carries the bytes of its element, which the C code
  stores behind the node in the same block.  \<open>al h\<close> is the address \<^verbatim>\<open>malloc\<close> returns in heap
  \<open>h\<close>, or \<open>None\<close> when it fails.  Counting the index of an element beyond \<open>INT_MAX\<close> is undefined.
  Elements are looked up by content (\<^verbatim>\<open>memcmp\<close>); the comments in \<^verbatim>\<open>list.h\<close> speak of pointer
  equality.  The NULL check on the list argument is left out.
\<close>

type_synonym ptr = nat

record list_node =
  ln_data :: bytes
  ln_next :: ptr
  ln_prev :: ptr

type_synonym list_heap = "ptr \<rightharpoonup> list_node"

record list_t =
  l_head :: ptr
  l_tail :: ptr
  l_size :: nat
  l_elem_size :: nat

type_synonym list_state = "list_heap \<times> list_t"

section \<open>Nodes\<close>

definition deref :: "(ptr \<rightharpoonup> 'n) \<Rightarrow> ptr \<Rightarrow> 'n option" where
  "deref h p = (if p = 0 then None else h p)"

definition set_next :: "list_heap \<Rightarrow> ptr \<Rightarrow> ptr \<Rightarrow> list_heap option" where
  "set_next h p q = do { n \<leftarrow> deref h p; Some (h(p \<mapsto> n\<lparr>ln_next := q\<rparr>)) }"

definition set_prev :: "list_heap \<Rightarrow> ptr \<Rightarrow> ptr \<Rightarrow> list_heap option" where
  "set_prev h p q = do { n \<leftarrow> deref h p; Some (h(p \<mapsto> n\<lparr>ln_prev := q\<rparr>)) }"

text \<open>NULL (0) when the allocation fails.\<close>

definition list_node_new ::
    "(list_heap \<Rightarrow> ptr option) \<Rightarrow> list_heap \<Rightarrow> nat \<Rightarrow> bytes \<Rightarrow> (list_heap \<times> ptr) option" where
  "list_node_new al h elem_size data =
     (case al h of None \<Rightarrow> Some (h, 0)
      | Some p \<Rightarrow> if length data < elem_size then None
                 else Some (h(p \<mapsto> \<lparr>ln_data = take elem_size data, ln_next = 0, ln_prev = 0\<rparr>), p))"

definition list_node_free :: "(ptr \<rightharpoonup> 'n) \<Rightarrow> ptr \<Rightarrow> (ptr \<rightharpoonup> 'n) option" where
  "list_node_free h p = do { n \<leftarrow> deref h p; Some (h(p := None)) }"

section \<open>The list\<close>

definition list_new :: "nat \<Rightarrow> list_t" where
  "list_new elem_size = \<lparr>l_head = 0, l_tail = 0, l_size = 0, l_elem_size = elem_size\<rparr>"

partial_function (option) clear_loop :: "list_heap \<Rightarrow> ptr \<Rightarrow> list_heap option" where
  "clear_loop h cur =
     (if cur = 0 then Some h
      else do {
        n \<leftarrow> deref h cur;
        h \<leftarrow> list_node_free h cur;
        clear_loop h (ln_next n)
      })"

definition list_clear :: "list_state \<Rightarrow> list_state option" where
  "list_clear s =
     (let (h, l) = s in do {
        h \<leftarrow> clear_loop h (l_head l);
        Some (h, l\<lparr>l_head := 0, l_tail := 0, l_size := 0\<rparr>)
      })"

definition list_size :: "list_state \<Rightarrow> nat" where
  "list_size s = l_size (snd s)"

definition list_push_back :: "(list_heap \<Rightarrow> ptr option) \<Rightarrow> list_state \<Rightarrow> bytes \<Rightarrow> list_state option" where
  "list_push_back al s elem =
     (let (h, l) = s in do {
        (h, node) \<leftarrow> list_node_new al h (l_elem_size l) elem;
        if node = 0 then Some (h, l)
        else if l_tail l = 0 then Some (h, l\<lparr>l_head := node, l_tail := node, l_size := l_size l + 1\<rparr>)
        else do {
          h \<leftarrow> set_prev h node (l_tail l);
          h \<leftarrow> set_next h (l_tail l) node;
          Some (h, l\<lparr>l_tail := node, l_size := l_size l + 1\<rparr>)
        }
      })"

definition list_pop_back :: "list_state \<Rightarrow> list_state option" where
  "list_pop_back s =
     (let (h, l) = s in
      if l_tail l = 0 then Some (h, l)
      else do {
        n \<leftarrow> deref h (l_tail l);
        let tail = ln_prev n;
        h \<leftarrow> (if tail \<noteq> 0 then set_next h tail 0 else Some h);
        h \<leftarrow> list_node_free h (l_tail l);
        Some (h, l\<lparr>l_tail := tail, l_head := (if tail \<noteq> 0 then l_head l else 0), l_size := l_size l - 1\<rparr>)
      })"

definition list_push_front :: "(list_heap \<Rightarrow> ptr option) \<Rightarrow> list_state \<Rightarrow> bytes \<Rightarrow> list_state option" where
  "list_push_front al s elem =
     (let (h, l) = s in do {
        (h, node) \<leftarrow> list_node_new al h (l_elem_size l) elem;
        if node = 0 then Some (h, l)
        else if l_head l = 0 then Some (h, l\<lparr>l_head := node, l_tail := node, l_size := l_size l + 1\<rparr>)
        else do {
          h \<leftarrow> set_next h node (l_head l);
          h \<leftarrow> set_prev h (l_head l) node;
          Some (h, l\<lparr>l_head := node, l_size := l_size l + 1\<rparr>)
        }
      })"

definition list_pop_front :: "list_state \<Rightarrow> list_state option" where
  "list_pop_front s =
     (let (h, l) = s in
      if l_head l = 0 then Some (h, l)
      else do {
        n \<leftarrow> deref h (l_head l);
        let head = ln_next n;
        h \<leftarrow> (if head \<noteq> 0 then set_prev h head 0 else Some h);
        h \<leftarrow> list_node_free h (l_head l);
        Some (h, l\<lparr>l_head := head, l_tail := (if head \<noteq> 0 then l_tail l else 0), l_size := l_size l - 1\<rparr>)
      })"

text \<open>\<^verbatim>\<open>for (i = 0; i < index; i++) cur = cur->next;\<close>\<close>

fun walk :: "list_heap \<Rightarrow> ptr \<Rightarrow> nat \<Rightarrow> ptr option" where
  "walk h cur 0 = Some cur"
| "walk h cur (Suc i) = do { n \<leftarrow> deref h cur; walk h (ln_next n) i }"

definition list_get :: "list_state \<Rightarrow> nat \<Rightarrow> bytes option option" where
  "list_get s index =
     (let (h, l) = s in
      if index \<ge> l_size l then Some None
      else do {
        cur \<leftarrow> walk h (l_head l) index;
        if cur = 0 then Some None else do { n \<leftarrow> deref h cur; Some (Some (ln_data n)) }
      })"

partial_function (option) index_loop :: "list_heap \<Rightarrow> nat \<Rightarrow> bytes \<Rightarrow> ptr \<Rightarrow> int \<Rightarrow> int option" where
  "index_loop h elem_size elem cur idx =
     (if cur = 0 then Some (-1)
      else do {
        n \<leftarrow> deref h cur;
        if length elem < elem_size then None
        else if take elem_size (ln_data n) = take elem_size elem then Some idx
        else if idx = INT_MAX then None
        else index_loop h elem_size elem (ln_next n) (idx + 1)
      })"

definition list_index_of :: "list_state \<Rightarrow> bytes \<Rightarrow> int option" where
  "list_index_of s elem = (let (h, l) = s in index_loop h (l_elem_size l) elem (l_head l) 0)"

definition list_insert :: "(list_heap \<Rightarrow> ptr option) \<Rightarrow> list_state \<Rightarrow> nat \<Rightarrow> bytes \<Rightarrow> list_state option" where
  "list_insert al s index elem =
     (let (h, l) = s in
      if index > l_size l then Some (h, l)
      else if index = 0 then list_push_front al (h, l) elem
      else if index = l_size l then list_push_back al (h, l) elem
      else do {
        cur \<leftarrow> walk h (l_head l) index;
        (h, node) \<leftarrow> list_node_new al h (l_elem_size l) elem;
        if node = 0 then Some (h, l)
        else do {
          h \<leftarrow> set_next h node cur;
          n \<leftarrow> deref h cur;
          h \<leftarrow> set_prev h node (ln_prev n);
          h \<leftarrow> (if ln_prev n \<noteq> 0 then set_next h (ln_prev n) node else Some h);
          h \<leftarrow> set_prev h cur node;
          Some (h, l\<lparr>l_head := (if cur = l_head l then node else l_head l), l_size := l_size l + 1\<rparr>)
        }
      })"

definition list_remove :: "list_state \<Rightarrow> bytes \<Rightarrow> list_state option" where
  "list_remove s elem =
     (let (h, l) = s in do {
        idx \<leftarrow> list_index_of (h, l) elem;
        if idx = -1 then Some (h, l)
        else do {
          cur \<leftarrow> walk h (l_head l) (nat idx);
          n \<leftarrow> deref h cur;
          h \<leftarrow> (if ln_prev n \<noteq> 0 then set_next h (ln_prev n) (ln_next n) else Some h);
          let head = (if ln_prev n \<noteq> 0 then l_head l else ln_next n);
          h \<leftarrow> (if ln_next n \<noteq> 0 then set_prev h (ln_next n) (ln_prev n) else Some h);
          let tail = (if ln_next n \<noteq> 0 then l_tail l else ln_prev n);
          h \<leftarrow> list_node_free h cur;
          Some (h, l\<lparr>l_head := head, l_tail := tail, l_size := l_size l - 1\<rparr>)
        }
      })"

definition list_insert_after ::
    "(list_heap \<Rightarrow> ptr option) \<Rightarrow> list_state \<Rightarrow> bytes \<Rightarrow> bytes \<Rightarrow> list_state option" where
  "list_insert_after al s elem after =
     do {
       idx \<leftarrow> list_index_of s after;
       if idx = -1 then Some s else list_insert al s (nat idx + 1) elem
     }"

definition list_insert_before ::
    "(list_heap \<Rightarrow> ptr option) \<Rightarrow> list_state \<Rightarrow> bytes \<Rightarrow> bytes \<Rightarrow> list_state option" where
  "list_insert_before al s elem before =
     do {
       idx \<leftarrow> list_index_of s before;
       if idx = -1 then Some s else list_insert al s (nat idx) elem
     }"

text \<open>\<^verbatim>\<open>list_free\<close> clears the list and releases the list object; the heap of nodes is left.\<close>

definition list_free :: "list_state \<Rightarrow> list_heap option" where
  "list_free s = map_option fst (list_clear s)"

section \<open>Segments\<close>

definition hd_or :: "ptr \<Rightarrow> ptr list \<Rightarrow> ptr" where
  "hd_or q ps = (if ps = [] then q else hd ps)"

definition last_or :: "ptr \<Rightarrow> ptr list \<Rightarrow> ptr" where
  "last_or q ps = (if ps = [] then q else last ps)"

lemma hd_or_simps [simp]: "hd_or q [] = q" "hd_or q (p # ps) = p"
  "hd_or q (ps @ qs) = hd_or (hd_or q qs) ps"
  by (simp_all add: hd_or_def)

lemma last_or_simps [simp]: "last_or q [] = q" "last_or q (ps @ [p]) = p"
  "last_or q (p # ps) = last_or p ps" "last_or q (ps @ qs) = last_or (last_or q ps) qs"
  by (simp_all add: last_or_def)

lemma hd_last_in: "ps \<noteq> [] \<Longrightarrow> hd_or q ps \<in> set ps" "ps \<noteq> [] \<Longrightarrow> last_or q ps \<in> set ps"
  by (simp_all add: hd_or_def last_or_def)

text \<open>The nodes at \<open>ps\<close> hold \<open>xs\<close> and are linked in both directions, between \<open>pr\<close> and \<open>nx\<close>.\<close>

fun dseg :: "list_heap \<Rightarrow> ptr \<Rightarrow> ptr list \<Rightarrow> bytes list \<Rightarrow> ptr \<Rightarrow> bool" where
  "dseg h pr [] [] nx = True"
| "dseg h pr (p # ps) (x # xs) nx
     = (h p = Some \<lparr>ln_data = x, ln_next = hd_or nx ps, ln_prev = pr\<rparr> \<and> dseg h p ps xs nx)"
| "dseg h pr _ _ nx = False"

lemma dseg_length: "dseg h pr ps xs nx \<Longrightarrow> length ps = length xs"
  by (induction h pr ps xs nx rule: dseg.induct) auto

lemma dseg_append:
  "length ps = length xs \<Longrightarrow> dseg h pr (ps @ qs) (xs @ ys) nx
    \<longleftrightarrow> dseg h pr ps xs (hd_or nx qs) \<and> dseg h (last_or pr ps) qs ys nx"
  by (induction ps xs arbitrary: pr rule: list_induct2) auto

lemma dseg_frame: "p \<notin> set ps \<Longrightarrow> dseg (h(p := v)) pr ps xs nx = dseg h pr ps xs nx"
  by (induction h pr ps xs nx rule: dseg.induct) auto

text \<open>Relinking the last node forwards and the first node backwards; NULL is left alone.\<close>

definition fwd :: "list_heap \<Rightarrow> ptr \<Rightarrow> ptr \<Rightarrow> list_heap" where
  "fwd h p q = (if p = 0 then h else h(p := map_option (\<lambda>n. n\<lparr>ln_next := q\<rparr>) (h p)))"

definition bwd :: "list_heap \<Rightarrow> ptr \<Rightarrow> ptr \<Rightarrow> list_heap" where
  "bwd h p q = (if p = 0 then h else h(p := map_option (\<lambda>n. n\<lparr>ln_prev := q\<rparr>) (h p)))"

lemma fwd_frame: "p \<notin> set ps \<Longrightarrow> dseg (fwd h p q) pr ps xs nx = dseg h pr ps xs nx"
  and bwd_frame: "p \<notin> set ps \<Longrightarrow> dseg (bwd h p q) pr ps xs nx = dseg h pr ps xs nx"
  by (simp_all add: fwd_def bwd_def dseg_frame)

lemma dseg_fwd:
  assumes "dseg h pr ps xs nx" "distinct ps" "0 \<notin> set ps"
  shows "dseg (fwd h (last_or 0 ps) q) pr ps xs q"
  using assms
proof (induction h pr ps xs nx rule: dseg.induct)
  case (2 h pr p ps x xs nx)
  show ?case
  proof (cases "ps = []")
    case True
    with 2 show ?thesis by (cases xs) (auto simp: fwd_def)
  next
    case False
    have "last_or 0 (p # ps) = last_or 0 ps" using False by (simp add: last_or_def)
    moreover have "p \<noteq> last_or 0 ps" using hd_last_in(2) [OF False] "2.prems"(2) by auto
    ultimately show ?thesis using 2 False by (auto simp: fwd_def hd_or_def)
  qed
qed (auto simp: fwd_def)

lemma dseg_bwd:
  assumes "dseg h pr ps xs nx" "distinct ps" "0 \<notin> set ps"
  shows "dseg (bwd h (hd_or 0 ps) q) q ps xs nx"
  using assms by (cases ps; cases xs) (auto simp: bwd_def dseg_frame)

end
