(* ===== verification/Linked_List_Correct.thy ===== *)
theory Linked_List_Correct
  imports Linked_List Text_Spec
begin

text \<open>
  The doubly-linked list represents a list of elements: there is a list of distinct live
  addresses, exactly the nodes of the heap, linked in both directions, and the head, tail and
  size fields agree with it.  Every operation either splices one node in or unlinks one.
\<close>

named_theorems list_ops \<open>the list operations under the representation\<close>

definition chained :: "list_state \<Rightarrow> ptr list \<Rightarrow> bytes list \<Rightarrow> bool" where
  "chained s ps xs \<longleftrightarrow> (let (h, l) = s in
     dseg h 0 ps xs 0 \<and> distinct ps \<and> 0 \<notin> set ps \<and> dom h = set ps \<and>
     l_head l = hd_or 0 ps \<and> l_tail l = last_or 0 ps \<and> l_size l = length ps)"

definition list_rep :: "nat \<Rightarrow> list_state \<Rightarrow> bytes list \<Rightarrow> bool" where
  "list_rep es s xs \<longleftrightarrow> (\<exists>ps. chained s ps xs) \<and> l_elem_size (snd s) = es \<and> (\<forall>x\<in>set xs. length x = es)"

text \<open>What \<^verbatim>\<open>malloc\<close> promises: an address that is not NULL and not in use.\<close>

definition fresh :: "((ptr \<rightharpoonup> 'n) \<Rightarrow> ptr option) \<Rightarrow> bool" where
  "fresh al \<longleftrightarrow> (\<forall>h p. finite (dom h) \<longrightarrow> al h = Some p \<longrightarrow> p \<noteq> 0 \<and> p \<notin> dom h)"

lemma dseg_dom: "dseg h pr ps xs nx \<Longrightarrow> p \<in> set ps \<Longrightarrow> h p \<noteq> None"
  by (induction h pr ps xs nx rule: dseg.induct) auto

lemma zero_hd_last: "0 \<notin> set ps \<Longrightarrow> hd_or 0 ps = 0 \<longleftrightarrow> ps = []" "0 \<notin> set ps \<Longrightarrow> last_or 0 ps = 0 \<longleftrightarrow> ps = []"
  by (metis hd_last_in(1) hd_or_simps(1)) (metis hd_last_in(2) last_or_simps(1))

lemma hd_last_fresh:
  "q \<notin> set ps \<Longrightarrow> q \<noteq> 0 \<Longrightarrow> hd_or 0 ps \<noteq> q" "q \<notin> set ps \<Longrightarrow> q \<noteq> 0 \<Longrightarrow> last_or 0 ps \<noteq> q"
  by (metis hd_last_in(1) hd_or_simps(1)) (metis hd_last_in(2) last_or_simps(1))

lemma hd_last_disjoint:
  "set ps \<inter> set qs = {} \<Longrightarrow> 0 \<notin> set qs \<Longrightarrow> hd_or 0 ps \<notin> set qs"
  "set ps \<inter> set qs = {} \<Longrightarrow> 0 \<notin> set qs \<Longrightarrow> last_or 0 ps \<notin> set qs"
  by (metis disjoint_iff hd_last_in(1) hd_or_simps(1)) (metis disjoint_iff hd_last_in(2) last_or_simps(1))

lemma fwd_bwd_other: "q \<noteq> p \<Longrightarrow> fwd h p r q = h q" "q \<noteq> p \<Longrightarrow> bwd h p r q = h q"
  by (simp_all add: fwd_def bwd_def)

lemma dom_fwd_bwd: "dom (fwd h p q) = dom h" "dom (bwd h p q) = dom h"
  by (auto simp: fwd_def bwd_def dom_def split: if_splits)

definition link_in :: "list_heap \<Rightarrow> ptr \<Rightarrow> ptr \<Rightarrow> bytes \<Rightarrow> ptr \<Rightarrow> list_heap" where
  "link_in h pr q e nx = bwd (fwd (h(q \<mapsto> \<lparr>ln_data = e, ln_next = nx, ln_prev = pr\<rparr>)) pr q) nx q"

definition unlink :: "list_heap \<Rightarrow> ptr \<Rightarrow> ptr \<Rightarrow> ptr \<Rightarrow> list_heap" where
  "unlink h pr p nx = (bwd (fwd h pr nx) nx pr)(p := None)"

lemma link_in_dseg:
  assumes d: "dseg h 0 (us @ vs) (xs @ ys) 0" and len: "length us = length xs"
    and dist: "distinct (us @ vs)" "0 \<notin> set (us @ vs)" "q \<notin> set (us @ vs)" "q \<noteq> 0"
  shows "dseg (link_in h (last_or 0 us) q e (hd_or 0 vs)) 0 (us @ q # vs) (xs @ e # ys) 0"
proof -
  define n where "n = \<lparr>ln_data = e, ln_next = hd_or 0 vs, ln_prev = last_or 0 us\<rparr>"
  let ?h1 = "h(q \<mapsto> n)" and ?pr = "last_or 0 us" and ?nx = "hd_or 0 vs"
  let ?h2 = "fwd ?h1 ?pr q"
  have parts: "dseg h 0 us xs ?nx" "dseg h ?pr vs ys 0" using d len by (simp_all add: dseg_append)
  have dj: "?pr \<notin> set vs" "?nx \<notin> set us" "?pr \<noteq> q" "?nx \<noteq> q"
    using dist hd_last_disjoint(1) [of vs us] hd_last_disjoint(2) [of us vs] hd_last_fresh [of q us] hd_last_fresh [of q vs]
    by auto
  have "dseg ?h2 0 us xs q" using parts(1) dist by (intro dseg_fwd) (simp_all add: dseg_frame)
  then have us: "dseg (bwd ?h2 ?nx q) 0 us xs q" using dj(2) by (simp add: bwd_frame)
  have "dseg ?h2 ?pr vs ys 0" using parts(2) dist(3) dj(1) by (simp add: fwd_frame dseg_frame)
  then have vs: "dseg (bwd ?h2 ?nx q) q vs ys 0" using dist by (intro dseg_bwd) simp_all
  have "bwd ?h2 ?nx q q = Some n" using dj(3,4) by (simp add: fwd_bwd_other)
  then show ?thesis using us vs len by (simp add: dseg_append link_in_def n_def)
qed

lemma unlink_dseg:
  assumes d: "dseg h 0 (us @ p # vs) (xs @ x # ys) 0" and len: "length us = length xs"
    and dist: "distinct (us @ p # vs)" "0 \<notin> set (us @ p # vs)"
  shows "dseg (unlink h (last_or 0 us) p (hd_or 0 vs)) 0 (us @ vs) (xs @ ys) 0"
proof -
  let ?pr = "last_or 0 us" and ?nx = "hd_or 0 vs"
  have parts: "dseg h 0 us xs p" "dseg h p vs ys 0" using d len by (simp_all add: dseg_append)
  have dj: "?pr \<notin> set vs" "?nx \<notin> set us"
    using dist hd_last_disjoint(1) [of vs us] hd_last_disjoint(2) [of us vs] by auto
  have "dseg (bwd (fwd h ?pr ?nx) ?nx ?pr) 0 us xs ?nx"
    using dseg_fwd [OF parts(1), of ?nx] dist dj(2) by (simp add: bwd_frame)
  moreover have "dseg (bwd (fwd h ?pr ?nx) ?nx ?pr) ?pr vs ys 0"
    using parts(2) dist dj(1) by (intro dseg_bwd) (simp_all add: fwd_frame)
  ultimately show ?thesis using dist len by (simp add: unlink_def dseg_append dseg_frame)
qed

lemma walk_dseg:
  assumes "dseg h pr ps xs 0" "0 \<notin> set ps" "i < length ps"
  shows "walk h (hd_or 0 ps) i = Some (ps ! i)"
  using assms
proof (induction h pr ps xs "0 :: ptr" arbitrary: i rule: dseg.induct)
  case (2 h pr p ps x xs)
  then show ?case by (cases i) (auto simp: deref_def)
qed auto

definition first_idx :: "'a \<Rightarrow> 'a list \<Rightarrow> nat" where
  "first_idx x xs = length (takeWhile (\<lambda>y. y \<noteq> x) xs)"

lemma first_idx_Cons: "first_idx x (y # ys) = (if y = x then 0 else first_idx x ys + 1)"
  by (simp add: first_idx_def)

lemma first_idx_less: "x \<in> set xs \<Longrightarrow> first_idx x xs < length xs"
  by (induction xs) (auto simp: first_idx_Cons)

lemma first_idx_remove: "x \<in> set xs \<Longrightarrow> take (first_idx x xs) xs @ drop (Suc (first_idx x xs)) xs = remove1 x xs"
  by (induction xs) (auto simp: first_idx_Cons)

lemma index_loop_dseg:
  assumes "dseg h pr ps xs 0" "0 \<notin> set ps" "length e = es" "\<forall>x\<in>set xs. length x = es"
    "0 \<le> k" "k + int (length xs) \<le> INT_MAX"
  shows "index_loop h es e (hd_or 0 ps) k = Some (if e \<in> set xs then k + int (first_idx e xs) else -1)"
  using assms
proof (induction h pr ps xs "0 :: ptr" arbitrary: k rule: dseg.induct)
  case (1 h pr)
  then show ?case by (simp add: index_loop.simps)
next
  case (2 h pr p ps x xs)
  then show ?case by (subst index_loop.simps) (auto simp: deref_def first_idx_Cons)
qed auto

lemma clear_loop_dseg:
  assumes "dseg h pr ps xs 0" "0 \<notin> set ps" "distinct ps"
  shows "clear_loop h (hd_or 0 ps) = Some (h |` (- set ps))"
  using assms
proof (induction ps arbitrary: h pr xs)
  case Nil
  have "h |` UNIV = h" by (simp add: restrict_map_def)
  then show ?case by (simp add: clear_loop.simps)
next
  case (Cons p ps)
  then obtain x xs' where xs: "xs = x # xs'" by (cases xs) auto
  have hp: "h p = Some \<lparr>ln_data = x, ln_next = hd_or 0 ps, ln_prev = pr\<rparr>" "dseg h p ps xs' 0"
    using Cons.prems(1) xs by simp_all
  have "dseg (h(p := None)) p ps xs' 0" using hp(2) Cons.prems(3) by (simp add: dseg_frame)
  then have "clear_loop (h(p := None)) (hd_or 0 ps) = Some ((h(p := None)) |` (- set ps))"
    by (rule Cons.IH) (use Cons.prems in simp_all)
  moreover have "(h(p := None)) |` (- set ps) = h |` (- set (p # ps))" by (auto simp: restrict_map_def)
  ultimately show ?case
    using Cons.prems(2) hp(1) by (subst clear_loop.simps) (simp add: deref_def list_node_free_def)
qed

lemma chained_dom: "chained s ps xs \<Longrightarrow> finite (dom (fst s)) \<and> dom (fst s) = set ps"
  by (auto simp: chained_def split: prod.splits)

section \<open>Splicing in\<close>

text \<open>The state after the element \<open>e\<close> is linked in at position \<open>length us\<close>.\<close>

lemma chained_link_in:
  assumes c: "chained (h, l) (us @ vs) (xs @ ys)" and len: "length us = length xs"
    and q: "q \<notin> set (us @ vs)" "q \<noteq> 0"
    and l': "l' = l\<lparr>l_head := hd_or q us, l_tail := last_or q vs, l_size := l_size l + 1\<rparr>"
  shows "chained (link_in h (last_or 0 us) q e (hd_or 0 vs), l') (us @ q # vs) (xs @ e # ys)"
proof -
  have "dseg (link_in h (last_or 0 us) q e (hd_or 0 vs)) 0 (us @ q # vs) (xs @ e # ys) 0"
    using c len q by (intro link_in_dseg) (auto simp: chained_def)
  moreover have "dom (link_in h (last_or 0 us) q e (hd_or 0 vs)) = insert q (dom h)"
    by (auto simp: link_in_def dom_fwd_bwd)
  ultimately show ?thesis using c q l' by (auto simp: chained_def)
qed

lemma chained_unlink:
  assumes c: "chained (h, l) (us @ p # vs) (xs @ x # ys)" and len: "length us = length xs"
    and l': "l' = l\<lparr>l_head := hd_or 0 (us @ vs), l_tail := last_or 0 (us @ vs), l_size := l_size l - 1\<rparr>"
  shows "chained (unlink h (last_or 0 us) p (hd_or 0 vs), l') (us @ vs) (xs @ ys)"
proof -
  have "dseg (unlink h (last_or 0 us) p (hd_or 0 vs)) 0 (us @ vs) (xs @ ys) 0"
    using c len by (intro unlink_dseg) (auto simp: chained_def)
  moreover have "dom (unlink h (last_or 0 us) p (hd_or 0 vs)) = dom h - {p}"
    by (auto simp: unlink_def dom_fwd_bwd)
  ultimately show ?thesis using c l' by (auto simp: chained_def)
qed

text \<open>The field updates of a list record that has the expected values already.\<close>

lemma list_t_same: "l_head l = a \<Longrightarrow> l\<lparr>l_head := a\<rparr> = l" "l_tail l = b \<Longrightarrow> l\<lparr>l_tail := b\<rparr> = l" for l :: list_t
  by auto

lemma chained_nodeE:
  assumes "chained (h, l) (us @ p # vs) (xs @ x # ys)" "length us = length xs"
  shows "h p = Some \<lparr>ln_data = x, ln_next = hd_or 0 vs, ln_prev = last_or 0 us\<rparr>" "p \<noteq> 0"
    "p \<notin> set us" "p \<notin> set vs" "last_or 0 us \<noteq> p" "hd_or 0 vs \<noteq> p"
    "us \<noteq> [] \<Longrightarrow> last_or 0 us \<noteq> hd_or 0 vs"
    "last_or 0 us \<noteq> 0 \<Longrightarrow> h (last_or 0 us) \<noteq> None" "hd_or 0 vs \<noteq> 0 \<Longrightarrow> h (hd_or 0 vs) \<noteq> None"
proof -
  have d: "dseg h 0 us xs p" "dseg h (last_or 0 us) (p # vs) (x # ys) 0" "distinct (us @ p # vs)"
    "0 \<notin> set (us @ p # vs)" "dom h = set (us @ p # vs)"
    using assms by (auto simp: chained_def dseg_append)
  then show "h p = Some \<lparr>ln_data = x, ln_next = hd_or 0 vs, ln_prev = last_or 0 us\<rparr>" "p \<noteq> 0"
    "p \<notin> set us" "p \<notin> set vs" by auto
  then show "last_or 0 us \<noteq> p" "hd_or 0 vs \<noteq> p" using hd_last_fresh [of p us] hd_last_fresh [of p vs] by auto
  show "last_or 0 us \<noteq> hd_or 0 vs" if "us \<noteq> []"
    using hd_last_in(2) [OF that, of 0] hd_last_disjoint(1) [of vs us] d(3,4)
    by (auto simp: inf_commute)
  show "last_or 0 us \<noteq> 0 \<Longrightarrow> h (last_or 0 us) \<noteq> None" "hd_or 0 vs \<noteq> 0 \<Longrightarrow> h (hd_or 0 vs) \<noteq> None"
    using hd_last_in(2) [of us 0] hd_last_in(1) [of vs 0] d(5) by (cases us; cases vs; auto)+
qed

lemma push_front_eq:
  assumes "chained (h, l) ps xs" "al h = Some q" "q \<notin> dom h" "q \<noteq> 0" "length e = l_elem_size l"
  shows "list_push_front al (h, l) e = Some (link_in h 0 q e (hd_or 0 ps),
    l\<lparr>l_head := q, l_tail := last_or q ps, l_size := l_size l + 1\<rparr>)"
proof (cases ps)
  case Nil
  then show ?thesis using assms
    by (simp add: list_push_front_def list_node_new_def chained_def link_in_def fwd_def bwd_def)
next
  case (Cons p ps')
  obtain x xs' where xs: "xs = x # xs'" using assms(1) Cons by (cases xs) (auto simp: chained_def)
  have p: "h p = Some \<lparr>ln_data = x, ln_next = hd_or 0 ps', ln_prev = 0\<rparr>" "p \<noteq> 0" "p \<noteq> q"
    using chained_nodeE(1,2) [of h l "[]" p ps' "[]" x xs'] assms(1,3) Cons xs by auto
  have l: "l_head l = p" "l_tail l = last_or q ps" using assms(1) Cons by (simp_all add: chained_def)
  show ?thesis using assms(2-5) p l
    by (simp add: list_push_front_def list_node_new_def set_next_def set_prev_def deref_def link_in_def
        fwd_def bwd_def Cons list_t_same)
qed

lemma push_back_eq:
  assumes "chained (h, l) ps xs" "al h = Some q" "q \<notin> dom h" "q \<noteq> 0" "length e = l_elem_size l"
  shows "list_push_back al (h, l) e = Some (link_in h (last_or 0 ps) q e 0,
    l\<lparr>l_head := hd_or q ps, l_tail := q, l_size := l_size l + 1\<rparr>)"
proof (cases ps rule: rev_cases)
  case Nil
  then show ?thesis using assms
    by (simp add: list_push_back_def list_node_new_def chained_def link_in_def fwd_def bwd_def)
next
  case (snoc ps' p)
  obtain xs' x where xs: "xs = xs' @ [x]" using assms(1) snoc
    by (cases xs rule: rev_cases) (auto simp: chained_def dest: dseg_length)
  have len: "length ps' = length xs'" using assms(1) snoc xs by (auto simp: chained_def dest: dseg_length)
  have p: "h p = Some \<lparr>ln_data = x, ln_next = 0, ln_prev = last_or 0 ps'\<rparr>" "p \<noteq> 0" "p \<noteq> q"
    using chained_nodeE(1,2) [of h l ps' p "[]" xs' x "[]"] assms(1,3) snoc xs len by auto
  have l: "l_tail l = p" "l_head l = hd_or q ps" using assms(1) snoc by (simp_all add: chained_def hd_or_def)
  show ?thesis using assms(2-5) p l
    by (simp add: list_push_back_def list_node_new_def set_next_def set_prev_def deref_def link_in_def
        fwd_def bwd_def snoc list_t_same)
qed

lemma list_insert_eq:
  assumes c: "chained (h, l) (us @ vs) (xs @ ys)" and len: "length us = length xs"
    and al: "al h = Some q" "q \<notin> dom h" "q \<noteq> 0" "length e = l_elem_size l"
  shows "list_insert al (h, l) (length us) e = Some (link_in h (last_or 0 us) q e (hd_or 0 vs),
    l\<lparr>l_head := hd_or q us, l_tail := last_or q vs, l_size := l_size l + 1\<rparr>)"
proof -
  have sz: "l_size l = length us + length vs" using c by (simp add: chained_def)
  consider "us = []" | "us \<noteq> []" "vs = []" | "us \<noteq> []" "vs \<noteq> []" by auto
  then show ?thesis
  proof cases
    case 1
    then show ?thesis using push_front_eq [of h l vs ys al q e] c len al by (simp add: list_insert_def)
  next
    case 2
    then show ?thesis using push_back_eq [of h l us "xs @ ys" al q e] c len al sz
      by (auto simp: list_insert_def)
  next
    case 3
    then obtain p vs' where vs: "vs = p # vs'" by (cases vs) auto
    obtain y ys' where ys: "ys = y # ys'"
      using c len vs by (cases ys) (auto simp: chained_def dest: dseg_length)
    note n = chained_nodeE [OF c [unfolded vs ys] len]
    have walk: "walk h (l_head l) (length us) = Some p"
      using walk_dseg [of h 0 "us @ vs" "xs @ ys" "length us"] c vs by (simp add: chained_def)
    obtain pn where pn: "h (last_or 0 us) = Some pn" "last_or 0 us \<noteq> 0"
      using n(8) c 3(1) zero_hd_last(2) [of us] by (auto simp: chained_def)
    have ne: "last_or 0 us \<noteq> q" "p \<noteq> q" "p \<noteq> l_head l" "last_or 0 us \<noteq> p"
      using al(2) pn n(1,3,5) 3(1) c hd_last_in(1) [OF 3(1), of 0] by (auto simp: chained_def hd_or_def)
    have l: "l_head l = hd_or q us" "l_tail l = last_or q vs"
      using c 3 by (auto simp: chained_def hd_or_def last_or_def)
    have "list_insert al (h, l) (length us) e = Some (link_in h (last_or 0 us) q e p, l\<lparr>l_size := l_size l + 1\<rparr>)"
      using 3 sz walk al n(1,2) pn ne
      by (simp add: list_insert_def list_node_new_def set_next_def set_prev_def deref_def link_in_def
          fwd_def bwd_def vs fun_upd_twist list_t_same)
    then show ?thesis using l by (simp add: vs list_t_same)
  qed
qed

section \<open>Unlinking\<close>

lemma pop_front_eq:
  assumes "chained (h, l) (p # vs) (x # ys)"
  shows "list_pop_front (h, l) = Some (unlink h 0 p (hd_or 0 vs),
    l\<lparr>l_head := hd_or 0 vs, l_tail := last_or 0 vs, l_size := l_size l - 1\<rparr>)"
proof -
  have "chained (h, l) ([] @ p # vs) ([] @ x # ys)" using assms by simp
  note n = chained_nodeE [OF this, simplified]
  have l: "l_head l = p" "l_tail l = last_or p vs" "0 \<notin> set vs" using assms by (simp_all add: chained_def)
  show ?thesis
  proof (cases "vs = []")
    case True
    then show ?thesis using n l
      by (simp add: list_pop_front_def deref_def list_node_free_def unlink_def fwd_def bwd_def)
  next
    case False
    then have nx: "hd_or 0 vs \<noteq> 0" using l(3) by (simp add: zero_hd_last)
    with n obtain m where "h (hd_or 0 vs) = Some m" by blast
    moreover have "l_tail l = last_or 0 vs" using l(2) False by (simp add: last_or_def)
    ultimately show ?thesis using n(1,2,6) l(1) nx
      by (simp add: list_pop_front_def deref_def list_node_free_def unlink_def fwd_def bwd_def
          set_prev_def list_t_same Let_def)
  qed
qed

lemma pop_back_eq:
  assumes "chained (h, l) (us @ [p]) (xs @ [x])"
  shows "list_pop_back (h, l) = Some (unlink h (last_or 0 us) p 0,
    l\<lparr>l_head := hd_or 0 us, l_tail := last_or 0 us, l_size := l_size l - 1\<rparr>)"
proof -
  have len: "length us = length xs" using assms by (auto simp: chained_def dest: dseg_length)
  note n = chained_nodeE [OF assms len, simplified]
  have l: "l_tail l = p" "l_head l = hd_or p us" "0 \<notin> set us" using assms by (simp_all add: chained_def)
  show ?thesis
  proof (cases "us = []")
    case True
    then show ?thesis using n l
      by (simp add: list_pop_back_def deref_def list_node_free_def unlink_def fwd_def bwd_def)
  next
    case False
    then have pr: "last_or 0 us \<noteq> 0" using l(3) by (simp add: zero_hd_last)
    with n obtain m where "h (last_or 0 us) = Some m" by blast
    moreover have "l_head l = hd_or 0 us" using l(2) False by (simp add: hd_or_def)
    ultimately show ?thesis using n(1,2,5) l(1) pr
      by (simp add: list_pop_back_def deref_def list_node_free_def unlink_def fwd_def bwd_def
          set_next_def list_t_same Let_def)
  qed
qed

lemma list_remove_eq:
  assumes c: "chained (h, l) (us @ p # vs) (xs @ x # ys)" and len: "length us = length xs"
    and idx: "list_index_of (h, l) e = Some (int (length us))"
  shows "list_remove (h, l) e = Some (unlink h (last_or 0 us) p (hd_or 0 vs),
    l\<lparr>l_head := hd_or 0 (us @ vs), l_tail := last_or 0 (us @ vs), l_size := l_size l - 1\<rparr>)"
proof -
  note n = chained_nodeE [OF c len]
  have walk: "walk h (l_head l) (length us) = Some p"
    using walk_dseg [of h 0 "us @ p # vs" "xs @ x # ys" "length us"] c by (simp add: chained_def)
  have nz: "0 \<notin> set us" "0 \<notin> set vs" using c by (auto simp: chained_def)
  have head: "(if last_or 0 us \<noteq> 0 then l_head l else hd_or 0 vs) = hd_or 0 (us @ vs)"
    using c nz by (auto simp: chained_def zero_hd_last hd_or_def)
  have tail: "(if hd_or 0 vs \<noteq> 0 then l_tail l else last_or 0 us) = last_or 0 (us @ vs)"
    using c nz by (auto simp: chained_def zero_hd_last last_or_def)
  have f1: "(if last_or 0 us \<noteq> 0 then set_next h (last_or 0 us) (hd_or 0 vs) else Some h)
      = Some (fwd h (last_or 0 us) (hd_or 0 vs))"
    using n(8) by (auto simp: set_next_def deref_def fwd_def)
  have f2: "(if hd_or 0 vs \<noteq> 0 then set_prev (fwd h (last_or 0 us) (hd_or 0 vs)) (hd_or 0 vs) (last_or 0 us)
        else Some (fwd h (last_or 0 us) (hd_or 0 vs)))
      = Some (bwd (fwd h (last_or 0 us) (hd_or 0 vs)) (hd_or 0 vs) (last_or 0 us))"
    using n(9) by (auto simp: set_prev_def deref_def bwd_def fwd_def)
  have f3: "list_node_free (bwd (fwd h (last_or 0 us) (hd_or 0 vs)) (hd_or 0 vs) (last_or 0 us)) p
      = Some (unlink h (last_or 0 us) p (hd_or 0 vs))"
    using n(1,2,5,6) fwd_bwd_other [of p] by (simp add: list_node_free_def deref_def unlink_def)
  have "deref h p = Some \<lparr>ln_data = x, ln_next = hd_or 0 vs, ln_prev = last_or 0 us\<rparr>"
    using n(1,2) by (simp add: deref_def)
  with idx walk head tail f1 f2 f3 show ?thesis
    by (simp add: list_remove_def Let_def cong: if_cong del: hd_or_simps(3) last_or_simps(4))
qed

section \<open>Edits\<close>

datatype list_edit = Push_Front bytes | Push_Back bytes | Pop_Front | Pop_Back | Insert_At nat bytes
  | Remove_First bytes | Insert_After bytes bytes | Insert_Before bytes bytes | Clear

text \<open>One call; the flag says whether the allocation a call may make succeeds.\<close>

fun list_step :: "(list_heap \<Rightarrow> ptr option) \<times> list_edit \<Rightarrow> list_state \<Rightarrow> (bool \<times> list_state) option" where
  "list_step (al, Push_Front e) s = map_option (Pair (al (fst s) \<noteq> None)) (list_push_front al s e)"
| "list_step (al, Push_Back e) s = map_option (Pair (al (fst s) \<noteq> None)) (list_push_back al s e)"
| "list_step (al, Insert_At i e) s = map_option (Pair (al (fst s) \<noteq> None)) (list_insert al s i e)"
| "list_step (al, Insert_After e a) s = map_option (Pair (al (fst s) \<noteq> None)) (list_insert_after al s e a)"
| "list_step (al, Insert_Before e b) s = map_option (Pair (al (fst s) \<noteq> None)) (list_insert_before al s e b)"
| "list_step (al, Pop_Front) s = map_option (Pair True) (list_pop_front s)"
| "list_step (al, Pop_Back) s = map_option (Pair True) (list_pop_back s)"
| "list_step (al, Remove_First e) s = map_option (Pair True) (list_remove s e)"
| "list_step (al, Clear) s = map_option (Pair True) (list_clear s)"

definition put_at :: "nat \<Rightarrow> 'a \<Rightarrow> 'a list \<Rightarrow> 'a list" where
  "put_at i e xs = (if i \<le> length xs then take i xs @ e # drop i xs else xs)"

fun list_effect :: "(list_heap \<Rightarrow> ptr option) \<times> list_edit \<Rightarrow> bytes list \<Rightarrow> bytes list" where
  "list_effect (al, Push_Front e) xs = e # xs"
| "list_effect (al, Push_Back e) xs = xs @ [e]"
| "list_effect (al, Insert_At i e) xs = put_at i e xs"
| "list_effect (al, Insert_After e a) xs = (if a \<in> set xs then put_at (first_idx a xs + 1) e xs else xs)"
| "list_effect (al, Insert_Before e b) xs = (if b \<in> set xs then put_at (first_idx b xs) e xs else xs)"
| "list_effect (al, Pop_Front) xs = tl xs"
| "list_effect (al, Pop_Back) xs = butlast xs"
| "list_effect (al, Remove_First e) xs = remove1 e xs"
| "list_effect (al, Clear) xs = []"

fun list_legal :: "nat \<Rightarrow> (list_heap \<Rightarrow> ptr option) \<times> list_edit \<Rightarrow> bool" where
  "list_legal es (al, Push_Front e) \<longleftrightarrow> fresh al \<and> length e = es"
| "list_legal es (al, Push_Back e) \<longleftrightarrow> fresh al \<and> length e = es"
| "list_legal es (al, Insert_At i e) \<longleftrightarrow> fresh al \<and> length e = es"
| "list_legal es (al, Insert_After e a) \<longleftrightarrow> fresh al \<and> length e = es \<and> length a = es"
| "list_legal es (al, Insert_Before e b) \<longleftrightarrow> fresh al \<and> length e = es \<and> length b = es"
| "list_legal es (al, Remove_First e) \<longleftrightarrow> length e = es"
| "list_legal es _ \<longleftrightarrow> True"

lemma list_repE:
  assumes "list_rep es (h, l) xs"
  obtains ps where "chained (h, l) ps xs" "length ps = length xs" "finite (dom h)"
    "l_elem_size l = es" "\<forall>x\<in>set xs. length x = es" "l_size l = length xs"
proof -
  obtain ps where ps: "chained (h, l) ps xs" using assms by (auto simp: list_rep_def)
  then have "length ps = length xs" "l_size l = length xs" by (auto simp: chained_def dest: dseg_length)
  with ps chained_dom [OF ps] assms show thesis by (intro that [of ps]) (simp_all add: list_rep_def)
qed

lemma alloc_fails:
  assumes "al h = None"
  shows "list_push_front al (h, l) e = Some (h, l)" "list_push_back al (h, l) e = Some (h, l)"
  using assms by (simp_all add: list_push_front_def list_push_back_def list_node_new_def)

lemma insert_rep [list_ops]:
  assumes "list_rep es (h, l) xs" "fresh al" "length e = es"
  shows "\<exists>s'. list_insert al (h, l) i e = Some s' \<and> list_rep es s' (if al h \<noteq> None then put_at i e xs else xs)"
proof -
  obtain ps where ps: "chained (h, l) ps xs" "length ps = length xs" "finite (dom h)"
    "l_elem_size l = es" "\<forall>x\<in>set xs. length x = es" "l_size l = length xs"
    using assms(1) by (rule list_repE)
  show ?thesis
  proof (cases "i \<le> length xs")
    case le: True
    show ?thesis
    proof (cases "al h")
      case None
      have w: "\<exists>c. walk h (l_head l) i = Some c" if "i < length xs"
        using walk_dseg [of h 0 ps xs i] ps(1,2) that by (auto simp: chained_def)
      then have "list_insert al (h, l) i e = Some (h, l)"
        using None le ps(6) alloc_fails [of al h l e]
        by (cases "i < length xs") (auto simp: list_insert_def list_node_new_def)
      then show ?thesis using None assms(1) by simp
    next
      case (Some q)
      then have q: "q \<noteq> 0" "q \<notin> dom h" using assms(2) ps(3) by (auto simp: fresh_def)
      have split: "ps = take i ps @ drop i ps" "xs = take i xs @ drop i xs" by simp_all
      have len: "length (take i ps) = length (take i xs)" "length (take i ps) = i" using ps(2) le by simp_all
      have c: "chained (h, l) (take i ps @ drop i ps) (take i xs @ drop i xs)" using ps(1) by simp
      have q': "q \<notin> set (take i ps @ drop i ps)" using q(2) chained_dom [OF c] by simp
      have "list_insert al (h, l) i e = Some (link_in h (last_or 0 (take i ps)) q e (hd_or 0 (drop i ps)),
          l\<lparr>l_head := hd_or q (take i ps), l_tail := last_or q (drop i ps), l_size := l_size l + 1\<rparr>)"
        using list_insert_eq [OF c len(1), of al q e] Some q assms(3) ps(4) len(2) by simp
      moreover from chained_link_in [OF c len(1) q' q(1) refl]
      have "list_rep es (link_in h (last_or 0 (take i ps)) q e (hd_or 0 (drop i ps)),
          l\<lparr>l_head := hd_or q (take i ps), l_tail := last_or q (drop i ps), l_size := l_size l + 1\<rparr>)
          (take i xs @ e # drop i xs)"
        using ps(4,5) assms(3) by (auto simp: list_rep_def dest: in_set_takeD in_set_dropD)
      ultimately show ?thesis using le Some by (auto simp: put_at_def)
    qed
  next
    case False
    then show ?thesis using assms(1) ps(6) by (simp add: list_insert_def put_at_def)
  qed
qed

lemma push_is_insert:
  "list_push_front al (h, l) e = list_insert al (h, l) 0 e"
  "l_size l > 0 \<Longrightarrow> list_push_back al (h, l) e = list_insert al (h, l) (l_size l) e"
  by (simp_all add: list_insert_def)

lemma push_back_empty: "chained (h, l) [] xs \<Longrightarrow> list_push_back al (h, l) e = list_push_front al (h, l) e"
  by (auto simp: list_push_back_def list_push_front_def chained_def list_node_new_def split: option.splits)

lemma push_back_is_insert: "list_rep es (h, l) xs \<Longrightarrow> list_push_back al (h, l) e = list_insert al (h, l) (length xs) e"
proof -
  assume "list_rep es (h, l) xs"
  then obtain ps where ps: "chained (h, l) ps xs" "length ps = length xs" "l_size l = length xs" by (rule list_repE)
  show ?thesis
  proof (cases "xs = []")
    case True
    then show ?thesis using ps push_back_empty [of h l xs al e] by (simp add: push_is_insert(1))
  next
    case False
    then show ?thesis using ps(3) push_is_insert(2) [of l al h e] by simp
  qed
qed

text \<open>The longest list whose indices fit an \<^verbatim>\<open>int\<close>.\<close>

definition max_index :: nat where "max_index = 2147483647"

lemma max_index_INT_MAX: "length xs \<le> max_index \<longleftrightarrow> int (length xs) \<le> INT_MAX"
  by (auto simp: max_index_def INT_MAX_def)

lemma index_of_rep [list_ops]:
  assumes "list_rep es (h, l) xs" "length e = es" "length xs \<le> max_index"
  shows "list_index_of (h, l) e = Some (if e \<in> set xs then int (first_idx e xs) else -1)"
proof -
  obtain ps where "chained (h, l) ps xs" "l_elem_size l = es" "\<forall>x\<in>set xs. length x = es"
    using assms(1) by (rule list_repE)
  then show ?thesis using index_loop_dseg [of h 0 ps xs e es 0] assms(2,3)
    by (simp add: list_index_of_def chained_def max_index_INT_MAX)
qed

lemma list_rep_sub:
  assumes "list_rep es (h, l) xs" "chained (h', l') ps ys" "l_elem_size l' = l_elem_size l" "set ys \<subseteq> set xs"
  shows "list_rep es (h', l') ys"
  using assms by (auto simp: list_rep_def)

lemma pop_front_rep [list_ops]:
  assumes "list_rep es (h, l) xs"
  shows "\<exists>s'. list_pop_front (h, l) = Some s' \<and> list_rep es s' (tl xs)"
proof -
  obtain ps where ps: "chained (h, l) ps xs" "length ps = length xs" using assms by (rule list_repE)
  show ?thesis
  proof (cases xs)
    case Nil
    then show ?thesis using ps assms by (auto simp: list_pop_front_def chained_def)
  next
    case (Cons x ys)
    then obtain p vs where p: "ps = p # vs" using ps(2) by (cases ps) auto
    have c: "chained (h, l) (p # vs) (x # ys)" using ps(1) p Cons by simp
    have "chained (h, l) ([] @ p # vs) ([] @ x # ys)" using c by simp
    from chained_unlink [OF this _ refl] have "chained (unlink h 0 p (hd_or 0 vs),
        l\<lparr>l_head := hd_or 0 vs, l_tail := last_or 0 vs, l_size := l_size l - 1\<rparr>) vs ys" by simp
    with list_rep_sub [OF assms this] pop_front_eq [OF c] Cons show ?thesis by auto
  qed
qed

lemma pop_back_rep [list_ops]:
  assumes "list_rep es (h, l) xs"
  shows "\<exists>s'. list_pop_back (h, l) = Some s' \<and> list_rep es s' (butlast xs)"
proof -
  obtain ps where ps: "chained (h, l) ps xs" "length ps = length xs" using assms by (rule list_repE)
  show ?thesis
  proof (cases xs rule: rev_cases)
    case Nil
    then show ?thesis using ps assms by (auto simp: list_pop_back_def chained_def)
  next
    case (snoc ys x)
    then obtain us p where p: "ps = us @ [p]" using ps(2) by (cases ps rule: rev_cases) auto
    have c: "chained (h, l) (us @ [p]) (ys @ [x])" using ps(1) p snoc by simp
    have "length us = length ys" using ps(2) p snoc by simp
    from chained_unlink [OF c this refl] have "chained (unlink h (last_or 0 us) p 0,
        l\<lparr>l_head := hd_or 0 us, l_tail := last_or 0 us, l_size := l_size l - 1\<rparr>) us ys" by simp
    with list_rep_sub [OF assms this] pop_back_eq [OF c] snoc show ?thesis by auto
  qed
qed

lemma remove_rep [list_ops]:
  assumes "list_rep es (h, l) xs" "length e = es" "length xs \<le> max_index"
  shows "\<exists>s'. list_remove (h, l) e = Some s' \<and> list_rep es s' (remove1 e xs)"
proof (cases "e \<in> set xs")
  case False
  then show ?thesis using index_of_rep [OF assms] assms(1) by (simp add: list_remove_def remove1_idem)
next
  case True
  define i where "i = first_idx e xs"
  have i: "i < length xs" using first_idx_less [OF True] by (simp add: i_def)
  obtain ps where ps: "chained (h, l) ps xs" "length ps = length xs" using assms(1) by (rule list_repE)
  have split: "ps = take i ps @ ps ! i # drop (Suc i) ps" "xs = take i xs @ xs ! i # drop (Suc i) xs"
    using i ps(2) by (simp_all add: id_take_nth_drop)
  have c: "chained (h, l) (take i ps @ ps ! i # drop (Suc i) ps) (take i xs @ xs ! i # drop (Suc i) xs)"
    using ps(1) split by metis
  have len: "length (take i ps) = length (take i xs)" "length (take i ps) = i" using ps(2) i by simp_all
  have "list_index_of (h, l) e = Some (int (length (take i ps)))"
    using index_of_rep [OF assms] True len(2) by (simp add: i_def)
  note eq = list_remove_eq [OF c len(1) this]
  have "take i xs @ drop (Suc i) xs = remove1 e xs" using first_idx_remove [OF True] by (simp add: i_def)
  with list_rep_sub [OF assms(1) chained_unlink [OF c len(1) refl]] eq show ?thesis
    using set_remove1_subset [of e xs] by auto
qed

lemma clear_rep [list_ops]:
  assumes "list_rep es (h, l) xs"
  shows "\<exists>s'. list_clear (h, l) = Some s' \<and> list_rep es s' [] \<and> fst s' = Map.empty"
proof -
  obtain ps where ps: "chained (h, l) ps xs" "l_elem_size l = es" using assms by (rule list_repE)
  have "clear_loop h (l_head l) = Some (h |` (- set ps))"
    using clear_loop_dseg [of h 0 ps xs] ps(1) by (simp add: chained_def)
  moreover have "h |` (- set ps) = Map.empty"
    using ps(1) by (auto simp: chained_def restrict_map_def fun_eq_iff dom_def)
  moreover have "chained (Map.empty, l\<lparr>l_head := 0, l_tail := 0, l_size := 0\<rparr>) [] []"
    by (simp add: chained_def)
  ultimately show ?thesis using ps(2) by (auto simp: list_clear_def list_rep_def)
qed

lemma list_step_rep:
  assumes "list_rep es s xs" "list_legal es e" "length xs \<le> max_index"
  shows "\<exists>ok s'. list_step e s = Some (ok, s') \<and> list_rep es s' (if ok then list_effect e xs else xs)"
proof -
  obtain h l where s: "s = (h, l)" by (cases s)
  obtain al ed where e: "e = (al, ed)" by (cases e)
  note r = assms(1) [unfolded s]
  have ins: "\<exists>s'. list_insert al (h, l) i x = Some s' \<and> list_rep es s' (if al h \<noteq> None then put_at i x xs else xs)"
    if "fresh al" "length x = es" for i x
    using insert_rep [OF r that] by blast
  show ?thesis
  proof (cases ed)
    case (Push_Front x)
    then show ?thesis using ins [of x 0] assms(2) by (auto simp: s e push_is_insert(1) put_at_def)
  next
    case (Push_Back x)
    then show ?thesis using ins [of x "length xs"] assms(2) push_back_is_insert [OF r]
      by (auto simp: s e put_at_def)
  next
    case (Insert_At i x)
    then show ?thesis using ins [of x i] assms(2) by (auto simp: s e)
  next
    case (Insert_After x a)
    then show ?thesis using ins [of x "first_idx a xs + 1"] assms(2) index_of_rep [OF r, of a] assms(3) r
      by (cases "a \<in> set xs") (auto simp: s e list_insert_after_def)
  next
    case (Insert_Before x b)
    then show ?thesis using ins [of x "first_idx b xs"] assms(2) index_of_rep [OF r, of b] assms(3) r
      by (cases "b \<in> set xs") (auto simp: s e list_insert_before_def)
  next
    case Pop_Front
    then show ?thesis using pop_front_rep [OF r] by (auto simp: s e)
  next
    case Pop_Back
    then show ?thesis using pop_back_rep [OF r] by (auto simp: s e)
  next
    case (Remove_First x)
    then show ?thesis using remove_rep [OF r] assms(2,3) by (auto simp: s e)
  next
    case Clear
    then show ?thesis using clear_rep [OF r] by (auto simp: s e)
  qed
qed

lemma list_effect_grows: "length (list_effect e xs) \<le> Suc (length xs)"
proof -
  have "length (put_at i x xs) \<le> Suc (length xs)" for i x by (simp add: put_at_def)
  then show ?thesis by (induction e xs rule: list_effect.induct) (auto simp: length_remove1)
qed

interpretation dlist: bounded_buffer "list_rep es" "list_legal es" list_step list_effect length max_index for es
  by unfold_locales (rule list_step_rep, assumption+, rule list_effect_grows)

end
