(* ===== verification/Slist.thy ===== *)
theory Slist
  imports Linked_List_Correct
begin

text \<open>
  The singly-linked list of \<^verbatim>\<open>src/slist.c\<close>, over the same kind of heap as the doubly-linked one,
  and its refinement of a list of elements.  Every operation links one node in behind another,
  or unlinks one, and keeps the tail pointer.
\<close>

record slist_node =
  sn_data :: bytes
  sn_next :: ptr

type_synonym slist_heap = "ptr \<rightharpoonup> slist_node"

record slist =
  sl_head :: ptr
  sl_tail :: ptr
  sl_size :: nat
  sl_elem_size :: nat

type_synonym slist_state = "slist_heap \<times> slist"

section \<open>Operations\<close>

definition slist_new :: "nat \<Rightarrow> slist" where
  "slist_new elem_size = \<lparr>sl_head = 0, sl_tail = 0, sl_size = 0, sl_elem_size = elem_size\<rparr>"

definition slist_size :: "slist_state \<Rightarrow> nat" where
  "slist_size s = sl_size (snd s)"

definition slist_node_new ::
    "(slist_heap \<Rightarrow> ptr option) \<Rightarrow> slist_heap \<Rightarrow> nat \<Rightarrow> bytes \<Rightarrow> (slist_heap \<times> ptr) option" where
  "slist_node_new al h elem_size data =
     (case al h of None \<Rightarrow> Some (h, 0)
      | Some p \<Rightarrow> if length data < elem_size then None
                 else Some (h(p \<mapsto> \<lparr>sn_data = take elem_size data, sn_next = 0\<rparr>), p))"

definition slist_node_free :: "slist_heap \<Rightarrow> ptr \<Rightarrow> slist_heap option" where
  "slist_node_free h p = do { n \<leftarrow> deref h p; Some (h(p := None)) }"

definition set_snext :: "slist_heap \<Rightarrow> ptr \<Rightarrow> ptr \<Rightarrow> slist_heap option" where
  "set_snext h p q = do { n \<leftarrow> deref h p; Some (h(p \<mapsto> n\<lparr>sn_next := q\<rparr>)) }"

partial_function (option) slist_clear_loop :: "slist_heap \<Rightarrow> ptr \<Rightarrow> slist_heap option" where
  "slist_clear_loop h current =
     (if current = 0 then Some h
      else do {
        n \<leftarrow> deref h current;
        h \<leftarrow> slist_node_free h current;
        slist_clear_loop h (sn_next n)
      })"

definition slist_clear :: "slist_state \<Rightarrow> slist_state option" where
  "slist_clear s =
     (let (h, l) = s in do {
        h \<leftarrow> slist_clear_loop h (sl_head l);
        Some (h, l\<lparr>sl_head := 0, sl_tail := 0, sl_size := 0\<rparr>)
      })"

definition slist_free :: "slist_state \<Rightarrow> slist_heap option" where
  "slist_free s = map_option fst (slist_clear s)"

definition slist_push_front :: "(slist_heap \<Rightarrow> ptr option) \<Rightarrow> slist_state \<Rightarrow> bytes \<Rightarrow> slist_state option" where
  "slist_push_front al s elem =
     (let (h, l) = s in do {
        (h, node) \<leftarrow> slist_node_new al h (sl_elem_size l) elem;
        if node = 0 then Some (h, l)
        else do {
          h \<leftarrow> set_snext h node (sl_head l);
          Some (h, l\<lparr>sl_head := node, sl_tail := (if sl_tail l = 0 then node else sl_tail l),
                     sl_size := sl_size l + 1\<rparr>)
        }
      })"

definition slist_push_back :: "(slist_heap \<Rightarrow> ptr option) \<Rightarrow> slist_state \<Rightarrow> bytes \<Rightarrow> slist_state option" where
  "slist_push_back al s elem =
     (let (h, l) = s in do {
        (h, node) \<leftarrow> slist_node_new al h (sl_elem_size l) elem;
        if node = 0 then Some (h, l)
        else if sl_head l = 0 then Some (h, l\<lparr>sl_head := node, sl_tail := node, sl_size := sl_size l + 1\<rparr>)
        else do {
          h \<leftarrow> set_snext h (sl_tail l) node;
          Some (h, l\<lparr>sl_tail := node, sl_size := sl_size l + 1\<rparr>)
        }
      })"

definition slist_pop_front :: "slist_state \<Rightarrow> slist_state option" where
  "slist_pop_front s =
     (let (h, l) = s in
      if sl_head l = 0 then Some (h, l)
      else do {
        n \<leftarrow> deref h (sl_head l);
        h \<leftarrow> slist_node_free h (sl_head l);
        Some (h, l\<lparr>sl_head := sn_next n, sl_tail := (if sn_next n = 0 then 0 else sl_tail l),
                   sl_size := sl_size l - 1\<rparr>)
      })"

fun swalk :: "slist_heap \<Rightarrow> ptr \<Rightarrow> nat \<Rightarrow> ptr option" where
  "swalk h current 0 = Some current"
| "swalk h current (Suc i) = do { n \<leftarrow> deref h current; swalk h (sn_next n) i }"

definition slist_insert :: "(slist_heap \<Rightarrow> ptr option) \<Rightarrow> slist_state \<Rightarrow> nat \<Rightarrow> bytes \<Rightarrow> slist_state option" where
  "slist_insert al s index elem =
     (let (h, l) = s in
      if index > sl_size l then Some (h, l)
      else if index = 0 then slist_push_front al (h, l) elem
      else if index = sl_size l then slist_push_back al (h, l) elem
      else do {
        current \<leftarrow> swalk h (sl_head l) (index - 1);
        (h, node) \<leftarrow> slist_node_new al h (sl_elem_size l) elem;
        if node = 0 then Some (h, l)
        else do {
          n \<leftarrow> deref h current;
          h \<leftarrow> set_snext h node (sn_next n);
          h \<leftarrow> set_snext h current node;
          Some (h, l\<lparr>sl_size := sl_size l + 1\<rparr>)
        }
      })"

definition slist_remove :: "slist_state \<Rightarrow> nat \<Rightarrow> slist_state option" where
  "slist_remove s index =
     (let (h, l) = s in
      if index \<ge> sl_size l then Some (h, l)
      else if index = 0 then slist_pop_front (h, l)
      else do {
        current \<leftarrow> swalk h (sl_head l) (index - 1);
        n \<leftarrow> deref h current;
        let temp = sn_next n;
        t \<leftarrow> deref h temp;
        h \<leftarrow> set_snext h current (sn_next t);
        h \<leftarrow> slist_node_free h temp;
        Some (h, l\<lparr>sl_tail := (if temp = sl_tail l then current else sl_tail l), sl_size := sl_size l - 1\<rparr>)
      })"

definition slist_get :: "slist_state \<Rightarrow> nat \<Rightarrow> bytes option option" where
  "slist_get s index =
     (let (h, l) = s in
      if index \<ge> sl_size l then Some None
      else do {
        current \<leftarrow> swalk h (sl_head l) index;
        n \<leftarrow> deref h current;
        Some (Some (sn_data n))
      })"

partial_function (option) slist_index_loop :: "slist_heap \<Rightarrow> nat \<Rightarrow> bytes \<Rightarrow> ptr \<Rightarrow> int \<Rightarrow> int option" where
  "slist_index_loop h elem_size elem current index =
     (if current = 0 then Some (-1)
      else do {
        n \<leftarrow> deref h current;
        if length elem < elem_size then None
        else if take elem_size (sn_data n) = take elem_size elem then Some index
        else if index = INT_MAX then None
        else slist_index_loop h elem_size elem (sn_next n) (index + 1)
      })"

definition slist_index_of :: "slist_state \<Rightarrow> bytes \<Rightarrow> int option" where
  "slist_index_of s elem = (let (h, l) = s in slist_index_loop h (sl_elem_size l) elem (sl_head l) 0)"

definition slist_insert_after ::
    "(slist_heap \<Rightarrow> ptr option) \<Rightarrow> slist_state \<Rightarrow> bytes \<Rightarrow> bytes \<Rightarrow> slist_state option" where
  "slist_insert_after al s elem after =
     do {
       idx \<leftarrow> slist_index_of s after;
       if idx \<ge> 0 \<and> nat idx < slist_size s then slist_insert al s (nat idx + 1) elem else Some s
     }"

definition slist_insert_before ::
    "(slist_heap \<Rightarrow> ptr option) \<Rightarrow> slist_state \<Rightarrow> bytes \<Rightarrow> bytes \<Rightarrow> slist_state option" where
  "slist_insert_before al s elem before =
     do {
       idx \<leftarrow> slist_index_of s before;
       if idx > 0 \<and> nat idx < slist_size s then slist_insert al s (nat idx - 1) elem
       else if idx = 0 then slist_push_front al s elem
       else Some s
     }"

section \<open>Segments\<close>

fun sseg :: "slist_heap \<Rightarrow> ptr list \<Rightarrow> bytes list \<Rightarrow> ptr \<Rightarrow> bool" where
  "sseg h [] [] nx = True"
| "sseg h (p # ps) (x # xs) nx = (h p = Some \<lparr>sn_data = x, sn_next = hd_or nx ps\<rparr> \<and> sseg h ps xs nx)"
| "sseg h _ _ nx = False"

lemma sseg_length: "sseg h ps xs nx \<Longrightarrow> length ps = length xs"
  by (induction h ps xs nx rule: sseg.induct) auto

lemma sseg_append:
  "length ps = length xs \<Longrightarrow> sseg h (ps @ qs) (xs @ ys) nx \<longleftrightarrow> sseg h ps xs (hd_or nx qs) \<and> sseg h qs ys nx"
  by (induction ps xs rule: list_induct2) auto

lemma sseg_frame: "p \<notin> set ps \<Longrightarrow> sseg (h(p := v)) ps xs nx = sseg h ps xs nx"
  by (induction h ps xs nx rule: sseg.induct) auto

definition sfwd :: "slist_heap \<Rightarrow> ptr \<Rightarrow> ptr \<Rightarrow> slist_heap" where
  "sfwd h p q = (if p = 0 then h else h(p := map_option (\<lambda>n. n\<lparr>sn_next := q\<rparr>) (h p)))"

lemma sfwd_frame: "p \<notin> set ps \<Longrightarrow> sseg (sfwd h p q) ps xs nx = sseg h ps xs nx"
  by (simp add: sfwd_def sseg_frame)

lemma dom_sfwd: "dom (sfwd h p q) = dom h"
  by (auto simp: sfwd_def dom_def split: if_splits)

lemma sseg_sfwd:
  assumes "sseg h ps xs nx" "distinct ps" "0 \<notin> set ps"
  shows "sseg (sfwd h (last_or 0 ps) q) ps xs q"
  using assms
proof (induction h ps xs nx rule: sseg.induct)
  case (2 h p ps x xs nx)
  show ?case
  proof (cases "ps = []")
    case True
    with 2 show ?thesis by (cases xs) (auto simp: sfwd_def)
  next
    case False
    have "last_or 0 (p # ps) = last_or 0 ps" using False by (simp add: last_or_def)
    moreover have "p \<noteq> last_or 0 ps" using hd_last_in(2) [OF False] "2.prems"(2) by auto
    ultimately show ?thesis using 2 False by (auto simp: sfwd_def hd_or_def)
  qed
qed (auto simp: sfwd_def)

definition slink :: "slist_heap \<Rightarrow> ptr \<Rightarrow> ptr \<Rightarrow> bytes \<Rightarrow> ptr \<Rightarrow> slist_heap" where
  "slink h pr q e nx = sfwd (h(q \<mapsto> \<lparr>sn_data = e, sn_next = nx\<rparr>)) pr q"

definition sunlink :: "slist_heap \<Rightarrow> ptr \<Rightarrow> ptr \<Rightarrow> ptr \<Rightarrow> slist_heap" where
  "sunlink h pr p nx = (sfwd h pr nx)(p := None)"

definition schained :: "slist_state \<Rightarrow> ptr list \<Rightarrow> bytes list \<Rightarrow> bool" where
  "schained s ps xs \<longleftrightarrow> (let (h, l) = s in
     sseg h ps xs 0 \<and> distinct ps \<and> 0 \<notin> set ps \<and> dom h = set ps \<and>
     sl_head l = hd_or 0 ps \<and> sl_tail l = last_or 0 ps \<and> sl_size l = length ps)"

definition slist_rep :: "nat \<Rightarrow> slist_state \<Rightarrow> bytes list \<Rightarrow> bool" where
  "slist_rep es s xs \<longleftrightarrow> (\<exists>ps. schained s ps xs) \<and> sl_elem_size (snd s) = es \<and> (\<forall>x\<in>set xs. length x = es)"

lemma slist_repE:
  assumes "slist_rep es (h, l) xs"
  obtains ps where "schained (h, l) ps xs" "length ps = length xs" "finite (dom h)"
    "sl_elem_size l = es" "\<forall>x\<in>set xs. length x = es" "sl_size l = length xs"
proof -
  obtain ps where ps: "schained (h, l) ps xs" using assms by (auto simp: slist_rep_def)
  then have "length ps = length xs" "sl_size l = length xs" "finite (dom h)"
    by (auto simp: schained_def dest: sseg_length)
  with ps assms show thesis by (intro that [of ps]) (simp_all add: slist_rep_def)
qed

lemma slist_t_same: "sl_head l = a \<Longrightarrow> l\<lparr>sl_head := a\<rparr> = l" "sl_tail l = b \<Longrightarrow> l\<lparr>sl_tail := b\<rparr> = l" for l :: slist
  by auto

lemma schained_link:
  assumes c: "schained (h, l) (us @ vs) (xs @ ys)" and len: "length us = length xs"
    and q: "q \<notin> set (us @ vs)" "q \<noteq> 0"
    and l': "l' = l\<lparr>sl_head := hd_or q us, sl_tail := last_or q vs, sl_size := sl_size l + 1\<rparr>"
  shows "schained (slink h (last_or 0 us) q e (hd_or 0 vs), l') (us @ q # vs) (xs @ e # ys)"
proof -
  let ?n = "\<lparr>sn_data = e, sn_next = hd_or 0 vs\<rparr>"
  let ?h1 = "h(q \<mapsto> ?n)" and ?pr = "last_or 0 us"
  have parts: "sseg h us xs (hd_or 0 vs)" "sseg h vs ys 0" "distinct (us @ vs)" "0 \<notin> set (us @ vs)" "dom h = set (us @ vs)"
    using c len by (auto simp: schained_def sseg_append)
  have dj: "?pr \<notin> set vs" "?pr \<noteq> q"
    using parts q hd_last_disjoint(2) [of us vs] hd_last_fresh(2) [of q us] by auto
  have "sseg (sfwd ?h1 ?pr q) us xs q" using parts q by (intro sseg_sfwd) (simp_all add: sseg_frame)
  moreover have "sseg (sfwd ?h1 ?pr q) vs ys 0" using parts q dj by (simp add: sfwd_frame sseg_frame)
  moreover have "sfwd ?h1 ?pr q q = Some ?n" using dj(2) by (simp add: sfwd_def)
  ultimately have "sseg (slink h ?pr q e (hd_or 0 vs)) (us @ q # vs) (xs @ e # ys) 0"
    using len by (simp add: sseg_append slink_def)
  then show ?thesis using c q l' by (auto simp: schained_def slink_def dom_sfwd)
qed

lemma schained_unlink:
  assumes c: "schained (h, l) (us @ p # vs) (xs @ x # ys)" and len: "length us = length xs"
    and l': "l' = l\<lparr>sl_head := hd_or 0 (us @ vs), sl_tail := last_or 0 (us @ vs), sl_size := sl_size l - 1\<rparr>"
  shows "schained (sunlink h (last_or 0 us) p (hd_or 0 vs), l') (us @ vs) (xs @ ys)"
proof -
  let ?pr = "last_or 0 us"
  have parts: "sseg h us xs p" "sseg h vs ys 0" "distinct (us @ p # vs)" "0 \<notin> set (us @ p # vs)"
    using c len by (auto simp: schained_def sseg_append)
  have "?pr \<notin> set vs" using parts hd_last_disjoint(2) [of us vs] by auto
  then have "sseg (sfwd h ?pr (hd_or 0 vs)) us xs (hd_or 0 vs)" "sseg (sfwd h ?pr (hd_or 0 vs)) vs ys 0"
    using parts sseg_sfwd [OF parts(1), of "hd_or 0 vs"] by (simp_all add: sfwd_frame)
  then have "sseg (sunlink h ?pr p (hd_or 0 vs)) (us @ vs) (xs @ ys) 0"
    using parts len by (simp add: sunlink_def sseg_append sseg_frame)
  then show ?thesis using c l' by (auto simp: schained_def sunlink_def dom_sfwd)
qed

lemma schained_node:
  assumes "schained (h, l) (us @ p # vs) (xs @ x # ys)" "length us = length xs"
  shows "h p = Some \<lparr>sn_data = x, sn_next = hd_or 0 vs\<rparr>" "p \<noteq> 0" "p \<notin> set us" "p \<notin> set vs"
  using assms by (auto simp: schained_def sseg_append)

lemma swalk_sseg:
  assumes "sseg h ps xs nx" "0 \<notin> set ps" "i < length ps"
  shows "swalk h (hd_or nx ps) i = Some (ps ! i)"
  using assms
proof (induction h ps xs nx arbitrary: i rule: sseg.induct)
  case (2 h p ps x xs nx)
  then show ?case by (cases i) (auto simp: deref_def)
qed auto

lemma sindex_loop_sseg:
  assumes "sseg h ps xs 0" "0 \<notin> set ps" "length e = es" "\<forall>x\<in>set xs. length x = es"
    "0 \<le> k" "k + int (length xs) \<le> INT_MAX"
  shows "slist_index_loop h es e (hd_or 0 ps) k = Some (if e \<in> set xs then k + int (first_idx e xs) else -1)"
  using assms
proof (induction h ps xs "0 :: ptr" arbitrary: k rule: sseg.induct)
  case (1 h)
  then show ?case by (simp add: slist_index_loop.simps)
next
  case (2 h p ps x xs)
  then show ?case by (subst slist_index_loop.simps) (auto simp: deref_def first_idx_Cons)
qed auto

lemma sclear_loop_sseg:
  assumes "sseg h ps xs 0" "0 \<notin> set ps" "distinct ps"
  shows "slist_clear_loop h (hd_or 0 ps) = Some (h |` (- set ps))"
  using assms
proof (induction ps arbitrary: h xs)
  case Nil
  have "h |` UNIV = h" by (simp add: restrict_map_def)
  then show ?case by (simp add: slist_clear_loop.simps)
next
  case (Cons p ps)
  then obtain x xs' where xs: "xs = x # xs'" by (cases xs) auto
  have hp: "h p = Some \<lparr>sn_data = x, sn_next = hd_or 0 ps\<rparr>" "sseg h ps xs' 0"
    using Cons.prems(1) xs by simp_all
  have "sseg (h(p := None)) ps xs' 0" using hp(2) Cons.prems(3) by (simp add: sseg_frame)
  then have "slist_clear_loop (h(p := None)) (hd_or 0 ps) = Some ((h(p := None)) |` (- set ps))"
    by (rule Cons.IH) (use Cons.prems in simp_all)
  moreover have "(h(p := None)) |` (- set ps) = h |` (- set (p # ps))" by (auto simp: restrict_map_def)
  ultimately show ?case
    using Cons.prems(2) hp(1) by (subst slist_clear_loop.simps) (simp add: deref_def slist_node_free_def)
qed

end
