(* ===== verification/Slist_Correct.thy ===== *)
theory Slist_Correct
  imports Slist
begin

text \<open>The operations of the singly-linked list as edits of a list of elements.\<close>

section \<open>Linking in\<close>

lemma spush_front_eq:
  assumes "schained (h, l) ps xs" "al h = Some q" "q \<notin> dom h" "q \<noteq> 0" "length e = sl_elem_size l"
  shows "slist_push_front al (h, l) e = Some (slink h 0 q e (hd_or 0 ps),
    l\<lparr>sl_head := q, sl_tail := last_or q ps, sl_size := sl_size l + 1\<rparr>)"
proof -
  have "sl_head l = hd_or 0 ps" "sl_tail l = last_or 0 ps" "0 \<notin> set ps" using assms(1) by (simp_all add: schained_def)
  moreover from this have "(if sl_tail l = 0 then q else sl_tail l) = last_or q ps"
    using zero_hd_last(2) [of ps] by (auto simp: last_or_def)
  ultimately show ?thesis using assms(2-5)
    by (simp add: slist_push_front_def slist_node_new_def set_snext_def deref_def slink_def sfwd_def)
qed

lemma spush_back_eq:
  assumes "schained (h, l) ps xs" "al h = Some q" "q \<notin> dom h" "q \<noteq> 0" "length e = sl_elem_size l"
  shows "slist_push_back al (h, l) e = Some (slink h (last_or 0 ps) q e 0,
    l\<lparr>sl_head := hd_or q ps, sl_tail := q, sl_size := sl_size l + 1\<rparr>)"
proof (cases "ps = []")
  case True
  then show ?thesis using assms
    by (simp add: slist_push_back_def slist_node_new_def schained_def slink_def sfwd_def)
next
  case False
  have l: "sl_head l = hd_or q ps" "sl_tail l = last_or 0 ps" "dom h = set ps" "0 \<notin> set ps"
    using assms(1) False by (auto simp: schained_def hd_or_def)
  have nz: "sl_head l \<noteq> 0" "last_or 0 ps \<noteq> 0"
    using l(1,4) False zero_hd_last [of ps] by (auto simp: hd_or_def)
  obtain n where n: "h (last_or 0 ps) = Some n" "last_or 0 ps \<noteq> q"
    using hd_last_in(2) [OF False, of 0] l(3) assms(3) by auto
  show ?thesis using assms(2-5) l(1,2) nz n
    by (simp add: slist_push_back_def slist_node_new_def set_snext_def deref_def slink_def sfwd_def slist_t_same)
qed

lemma sinsert_eq:
  assumes c: "schained (h, l) (us @ vs) (xs @ ys)" and len: "length us = length xs"
    and al: "al h = Some q" "q \<notin> dom h" "q \<noteq> 0" "length e = sl_elem_size l"
  shows "slist_insert al (h, l) (length us) e = Some (slink h (last_or 0 us) q e (hd_or 0 vs),
    l\<lparr>sl_head := hd_or q us, sl_tail := last_or q vs, sl_size := sl_size l + 1\<rparr>)"
proof -
  have sz: "sl_size l = length us + length vs" using c by (simp add: schained_def)
  consider "us = []" | "us \<noteq> []" "vs = []" | "us \<noteq> []" "vs \<noteq> []" by auto
  then show ?thesis
  proof cases
    case 1
    then show ?thesis using spush_front_eq [of h l vs ys al q e] c len al by (simp add: slist_insert_def)
  next
    case 2
    then show ?thesis using spush_back_eq [of h l us "xs @ ys" al q e] c len al sz
      by (auto simp: slist_insert_def)
  next
    case 3
    then obtain us' p where us: "us = us' @ [p]" by (cases us rule: rev_cases) auto
    then obtain xs' x where xs: "xs = xs' @ [x]" using len by (cases xs rule: rev_cases) auto
    have c': "schained (h, l) (us' @ p # vs) (xs' @ x # ys)" "length us' = length xs'"
      using c len us xs by simp_all
    note n = schained_node [OF c']
    have walk: "swalk h (sl_head l) (length us - 1) = Some p"
      using swalk_sseg [of h "us' @ p # vs" "xs' @ x # ys" 0 "length us'"] c'(1) us by (simp add: schained_def)
    have ne: "p \<noteq> q" using al(2) n(1) by auto
    have l: "sl_head l = hd_or q us" "sl_tail l = last_or q vs"
      using c 3 by (auto simp: schained_def hd_or_def last_or_def)
    have "slist_insert al (h, l) (length us) e
        = Some (slink h p q e (hd_or 0 vs), l\<lparr>sl_size := sl_size l + 1\<rparr>)"
      using 3 sz walk al n(1,2) ne
      by (simp add: slist_insert_def slist_node_new_def set_snext_def deref_def slink_def sfwd_def)
    then show ?thesis using l by (simp add: us slist_t_same)
  qed
qed

section \<open>Unlinking\<close>

lemma spop_front_eq:
  assumes "schained (h, l) (p # vs) (x # ys)"
  shows "slist_pop_front (h, l) = Some (sunlink h 0 p (hd_or 0 vs),
    l\<lparr>sl_head := hd_or 0 vs, sl_tail := last_or 0 vs, sl_size := sl_size l - 1\<rparr>)"
proof -
  have n: "h p = Some \<lparr>sn_data = x, sn_next = hd_or 0 vs\<rparr>" "p \<noteq> 0" "sl_head l = p" "sl_tail l = last_or p vs" "0 \<notin> set vs"
    using assms by (auto simp: schained_def)
  moreover have "(if hd_or 0 vs = 0 then 0 else sl_tail l) = last_or 0 vs"
    using n(4,5) zero_hd_last(1) [of vs] by (auto simp: last_or_def)
  ultimately show ?thesis
    by (simp add: slist_pop_front_def deref_def slist_node_free_def sunlink_def sfwd_def)
qed

lemma sremove_eq:
  assumes c: "schained (h, l) (us @ p # vs) (xs @ x # ys)" and len: "length us = length xs"
  shows "slist_remove (h, l) (length us) = Some (sunlink h (last_or 0 us) p (hd_or 0 vs),
    l\<lparr>sl_head := hd_or 0 (us @ vs), sl_tail := last_or 0 (us @ vs), sl_size := sl_size l - 1\<rparr>)"
proof (cases us rule: rev_cases)
  case Nil
  then show ?thesis using spop_front_eq [of h l p vs x ys] c len by (simp add: slist_remove_def schained_def)
next
  case (snoc us' c0)
  then obtain xs' x0 where xs: "xs = xs' @ [x0]" using len by (cases xs rule: rev_cases) auto
  have c': "schained (h, l) (us' @ c0 # p # vs) (xs' @ x0 # x # ys)" "length us' = length xs'"
    using c len snoc xs by simp_all
  note n0 = schained_node [OF c'] and n = schained_node [OF c len]
  have walk: "swalk h (sl_head l) (length us - 1) = Some c0"
    using swalk_sseg [of h "us' @ c0 # p # vs" "xs' @ x0 # x # ys" 0 "length us'"] c'(1) snoc
    by (simp add: schained_def)
  have l: "sl_head l = hd_or 0 (us @ vs)" "sl_tail l = last_or p vs" "length us < sl_size l"
    using c snoc by (simp_all add: schained_def)
  have tail: "(if p = sl_tail l then c0 else sl_tail l) = last_or c0 vs"
    using l(2) n(4) by (auto simp: last_or_def)
  have "slist_remove (h, l) (length us)
      = Some (sunlink h c0 p (hd_or 0 vs), l\<lparr>sl_tail := last_or c0 vs, sl_size := sl_size l - 1\<rparr>)"
    using walk l(3) snoc n0 n tail
    by (simp add: slist_remove_def Let_def deref_def set_snext_def slist_node_free_def sunlink_def sfwd_def)
  then show ?thesis using l(1) by (simp add: snoc slist_t_same)
qed

section \<open>Edits\<close>

datatype slist_edit = SPush_Front bytes | SPush_Back bytes | SPop_Front | SInsert_At nat bytes
  | SRemove_At nat | SInsert_After bytes bytes | SClear

fun slist_step :: "(slist_heap \<Rightarrow> ptr option) \<times> slist_edit \<Rightarrow> slist_state \<Rightarrow> (bool \<times> slist_state) option" where
  "slist_step (al, SPush_Front e) s = map_option (Pair (al (fst s) \<noteq> None)) (slist_push_front al s e)"
| "slist_step (al, SPush_Back e) s = map_option (Pair (al (fst s) \<noteq> None)) (slist_push_back al s e)"
| "slist_step (al, SInsert_At i e) s = map_option (Pair (al (fst s) \<noteq> None)) (slist_insert al s i e)"
| "slist_step (al, SInsert_After e a) s = map_option (Pair (al (fst s) \<noteq> None)) (slist_insert_after al s e a)"
| "slist_step (al, SPop_Front) s = map_option (Pair True) (slist_pop_front s)"
| "slist_step (al, SRemove_At i) s = map_option (Pair True) (slist_remove s i)"
| "slist_step (al, SClear) s = map_option (Pair True) (slist_clear s)"

fun slist_effect :: "(slist_heap \<Rightarrow> ptr option) \<times> slist_edit \<Rightarrow> bytes list \<Rightarrow> bytes list" where
  "slist_effect (al, SPush_Front e) xs = e # xs"
| "slist_effect (al, SPush_Back e) xs = xs @ [e]"
| "slist_effect (al, SInsert_At i e) xs = put_at i e xs"
| "slist_effect (al, SInsert_After e a) xs = (if a \<in> set xs then put_at (first_idx a xs + 1) e xs else xs)"
| "slist_effect (al, SPop_Front) xs = tl xs"
| "slist_effect (al, SRemove_At i) xs = take i xs @ drop (Suc i) xs"
| "slist_effect (al, SClear) xs = []"

fun slist_legal :: "nat \<Rightarrow> (slist_heap \<Rightarrow> ptr option) \<times> slist_edit \<Rightarrow> bool" where
  "slist_legal es (al, SPush_Front e) \<longleftrightarrow> fresh al \<and> length e = es"
| "slist_legal es (al, SPush_Back e) \<longleftrightarrow> fresh al \<and> length e = es"
| "slist_legal es (al, SInsert_At i e) \<longleftrightarrow> fresh al \<and> length e = es"
| "slist_legal es (al, SInsert_After e a) \<longleftrightarrow> fresh al \<and> length e = es \<and> length a = es"
| "slist_legal es _ \<longleftrightarrow> True"

lemma salloc_fails:
  assumes "al h = None"
  shows "slist_push_front al (h, l) e = Some (h, l)" "slist_push_back al (h, l) e = Some (h, l)"
  using assms by (simp_all add: slist_push_front_def slist_push_back_def slist_node_new_def)

lemma sinsert_rep [list_ops]:
  assumes "slist_rep es (h, l) xs" "fresh al" "length e = es"
  shows "\<exists>s'. slist_insert al (h, l) i e = Some s' \<and> slist_rep es s' (if al h \<noteq> None then put_at i e xs else xs)"
proof -
  obtain ps where ps: "schained (h, l) ps xs" "length ps = length xs" "finite (dom h)"
    "sl_elem_size l = es" "\<forall>x\<in>set xs. length x = es" "sl_size l = length xs"
    using assms(1) by (rule slist_repE)
  show ?thesis
  proof (cases "i \<le> length xs")
    case le: True
    show ?thesis
    proof (cases "al h")
      case None
      have w: "\<exists>c. swalk h (sl_head l) (i - 1) = Some c" if "i < length xs"
        using swalk_sseg [of h ps xs 0 "i - 1"] ps(1,2) that by (auto simp: schained_def)
      then have "slist_insert al (h, l) i e = Some (h, l)"
        using None le ps(6) salloc_fails [of al h l e]
        by (cases "i < length xs") (auto simp: slist_insert_def slist_node_new_def)
      then show ?thesis using None assms(1) by simp
    next
      case (Some q)
      then have q: "q \<noteq> 0" "q \<notin> dom h" using assms(2) ps(3) by (auto simp: fresh_def)
      have len: "length (take i ps) = length (take i xs)" "length (take i ps) = i" using ps(2) le by simp_all
      have c: "schained (h, l) (take i ps @ drop i ps) (take i xs @ drop i xs)" using ps(1) by simp
      have q': "q \<notin> set (take i ps @ drop i ps)" using q(2) ps(1) by (simp add: schained_def)
      have "slist_insert al (h, l) i e = Some (slink h (last_or 0 (take i ps)) q e (hd_or 0 (drop i ps)),
          l\<lparr>sl_head := hd_or q (take i ps), sl_tail := last_or q (drop i ps), sl_size := sl_size l + 1\<rparr>)"
        using sinsert_eq [OF c len(1), of al q e] Some q assms(3) ps(4) len(2) by simp
      moreover from schained_link [OF c len(1) q' q(1) refl]
      have "slist_rep es (slink h (last_or 0 (take i ps)) q e (hd_or 0 (drop i ps)),
          l\<lparr>sl_head := hd_or q (take i ps), sl_tail := last_or q (drop i ps), sl_size := sl_size l + 1\<rparr>)
          (take i xs @ e # drop i xs)"
        using ps(4,5) assms(3) by (auto simp: slist_rep_def dest: in_set_takeD in_set_dropD)
      ultimately show ?thesis using le Some by (auto simp: put_at_def)
    qed
  next
    case False
    then show ?thesis using assms(1) ps(6) by (simp add: slist_insert_def put_at_def)
  qed
qed

lemma spush_front_is_insert: "slist_push_front al (h, l) e = slist_insert al (h, l) 0 e"
  by (simp add: slist_insert_def)

lemma spush_back_is_insert:
  assumes "slist_rep es (h, l) xs" "fresh al" "length e = es"
  shows "slist_push_back al (h, l) e = slist_insert al (h, l) (length xs) e"
proof -
  obtain ps where ps: "schained (h, l) ps xs" "length ps = length xs" "finite (dom h)" "sl_elem_size l = es"
    "sl_size l = length xs"
    using assms(1) by (rule slist_repE)
  show ?thesis
  proof (cases "xs = []")
    case True
    then have ps0: "schained (h, l) [] []" using ps by simp
    show ?thesis
    proof (cases "al h")
      case None
      then show ?thesis using salloc_fails [of al h l e] True by (simp add: slist_insert_def)
    next
      case (Some q)
      then have q: "q \<noteq> 0" "q \<notin> dom h" using assms(2) ps(3) by (auto simp: fresh_def)
      show ?thesis using spush_back_eq [of h l "[]" "[]" al q e] spush_front_eq [of h l "[]" "[]" al q e]
        ps0 Some q assms(3) ps(4) True by (simp add: slist_insert_def)
    qed
  next
    case False
    then show ?thesis using ps(5) by (simp add: slist_insert_def)
  qed
qed

lemma sindex_of_rep [list_ops]:
  assumes "slist_rep es (h, l) xs" "length e = es" "length xs \<le> max_index"
  shows "slist_index_of (h, l) e = Some (if e \<in> set xs then int (first_idx e xs) else -1)"
proof -
  obtain ps where "schained (h, l) ps xs" "sl_elem_size l = es" "\<forall>x\<in>set xs. length x = es"
    using assms(1) by (rule slist_repE)
  then show ?thesis using sindex_loop_sseg [of h ps xs e es 0] assms(2,3)
    by (simp add: slist_index_of_def schained_def max_index_INT_MAX)
qed

lemma slist_rep_sub:
  assumes "slist_rep es (h, l) xs" "schained (h', l') ps ys" "sl_elem_size l' = sl_elem_size l" "set ys \<subseteq> set xs"
  shows "slist_rep es (h', l') ys"
  using assms by (auto simp: slist_rep_def)

lemma sremove_rep [list_ops]:
  assumes "slist_rep es (h, l) xs"
  shows "\<exists>s'. slist_remove (h, l) i = Some s' \<and> slist_rep es s' (take i xs @ drop (Suc i) xs)"
proof -
  obtain ps where ps: "schained (h, l) ps xs" "length ps = length xs" "sl_size l = length xs"
    using assms by (rule slist_repE)
  show ?thesis
  proof (cases "i < length xs")
    case True
    have c: "schained (h, l) (take i ps @ ps ! i # drop (Suc i) ps) (take i xs @ xs ! i # drop (Suc i) xs)"
      using ps(1,2) True by (simp flip: id_take_nth_drop)
    have len: "length (take i ps) = length (take i xs)" "length (take i ps) = i" using ps(2) True by simp_all
    have sub: "set (take i xs @ drop (Suc i) xs) \<subseteq> set xs" by (auto dest: in_set_takeD in_set_dropD)
    from slist_rep_sub [OF assms schained_unlink [OF c len(1) refl] _ sub] sremove_eq [OF c len(1)] len(2)
    show ?thesis by auto
  next
    case False
    then show ?thesis using ps(3) assms by (simp add: slist_remove_def)
  qed
qed

lemma spop_front_rep [list_ops]:
  assumes "slist_rep es (h, l) xs"
  shows "\<exists>s'. slist_pop_front (h, l) = Some s' \<and> slist_rep es s' (tl xs)"
proof (cases xs)
  case Nil
  then show ?thesis using assms
    by (auto simp: slist_pop_front_def slist_rep_def schained_def dest: sseg_length elim: slist_repE)
next
  case (Cons x ys)
  then have "slist_remove (h, l) 0 = slist_pop_front (h, l)"
    using assms by (auto simp: slist_remove_def elim: slist_repE)
  then show ?thesis using sremove_rep [OF assms, of 0] by (simp add: drop_Suc)
qed

lemma sclear_rep [list_ops]:
  assumes "slist_rep es (h, l) xs"
  shows "\<exists>s'. slist_clear (h, l) = Some s' \<and> slist_rep es s' [] \<and> fst s' = Map.empty"
proof -
  obtain ps where ps: "schained (h, l) ps xs" "sl_elem_size l = es" using assms by (rule slist_repE)
  have "slist_clear_loop h (sl_head l) = Some (h |` (- set ps))"
    using sclear_loop_sseg [of h ps xs] ps(1) by (simp add: schained_def)
  moreover have "h |` (- set ps) = Map.empty"
    using ps(1) by (auto simp: schained_def restrict_map_def fun_eq_iff dom_def)
  moreover have "schained (Map.empty, l\<lparr>sl_head := 0, sl_tail := 0, sl_size := 0\<rparr>) [] []"
    by (simp add: schained_def)
  ultimately show ?thesis using ps(2) by (auto simp: slist_clear_def slist_rep_def)
qed

lemma nat_1_int: "nat (1 + int n) = Suc n"
  by simp

lemma slist_step_rep:
  assumes "slist_rep es s xs" "slist_legal es e" "length xs \<le> max_index"
  shows "\<exists>ok s'. slist_step e s = Some (ok, s') \<and> slist_rep es s' (if ok then slist_effect e xs else xs)"
proof -
  obtain h l where s: "s = (h, l)" by (cases s)
  obtain al ed where e: "e = (al, ed)" by (cases e)
  note r = assms(1) [unfolded s]
  have ins: "\<exists>s'. slist_insert al (h, l) i x = Some s' \<and> slist_rep es s' (if al h \<noteq> None then put_at i x xs else xs)"
    if "fresh al" "length x = es" for i x
    using sinsert_rep [OF r that] by blast
  have sz: "sl_size l = length xs" using r by (rule slist_repE)
  show ?thesis
  proof (cases ed)
    case (SPush_Front x)
    then show ?thesis using ins [of x 0] assms(2) by (auto simp: s e spush_front_is_insert put_at_def)
  next
    case (SPush_Back x)
    then show ?thesis using ins [of x "length xs"] assms(2) spush_back_is_insert [OF r, of al x]
      by (auto simp: s e put_at_def)
  next
    case (SInsert_At i x)
    then show ?thesis using ins [of x i] assms(2) by (auto simp: s e)
  next
    case (SInsert_After x a)
    then show ?thesis
      using ins [of x "first_idx a xs + 1"] assms(2) sindex_of_rep [OF r, of a] assms(3) r sz first_idx_less [of a xs]
      by (cases "a \<in> set xs") (auto simp: s e slist_insert_after_def slist_size_def)
  next
    case SPop_Front
    then show ?thesis using spop_front_rep [OF r] by (auto simp: s e)
  next
    case (SRemove_At i)
    then show ?thesis using sremove_rep [OF r, of i] by (auto simp: s e)
  next
    case SClear
    then show ?thesis using sclear_rep [OF r] by (auto simp: s e)
  qed
qed

lemma slist_effect_grows: "length (slist_effect e xs) \<le> Suc (length xs)"
proof -
  have "length (put_at i x xs) \<le> Suc (length xs)" for i x by (simp add: put_at_def)
  then show ?thesis by (induction e xs rule: slist_effect.induct) simp_all
qed

interpretation slst: bounded_buffer "slist_rep es" "slist_legal es" slist_step slist_effect length max_index for es
  by unfold_locales (rule slist_step_rep, assumption+, rule slist_effect_grows)

section \<open>Properties\<close>

text \<open>A concrete allocator: the lowest address above all nodes in use.\<close>

definition bump :: "(ptr \<rightharpoonup> 'n) \<Rightarrow> ptr option" where
  "bump h = Some (Suc (Max (insert 0 (dom h))))"

lemma bump_fresh: "fresh bump"
proof -
  have "Suc (Max (insert 0 (dom h))) \<notin> dom h" if "finite (dom h)" for h :: "ptr \<rightharpoonup> 'n"
  proof
    assume "Suc (Max (insert 0 (dom h))) \<in> dom h"
    then have "Suc (Max (insert 0 (dom h))) \<le> Max (insert 0 (dom h))" using that by (intro Max_ge) auto
    then show False by simp
  qed
  then show ?thesis by (auto simp: fresh_def bump_def)
qed

lemma no_alloc: "fresh (\<lambda>_. None)"
  by (simp add: fresh_def)

lemma new_reps: "list_rep es (Map.empty, list_new es) []" "slist_rep es (Map.empty, slist_new es) []"
  by (simp_all add: list_rep_def chained_def list_new_def slist_rep_def schained_def slist_new_def)

text \<open>(C24) Refinement of the doubly-linked list: any sequence of pushes, pops, insertions,
  removals and clears on a list that stays within the range of the \<^verbatim>\<open>int\<close> index, with any fresh
  addresses or failures from the allocator, never follows a NULL or freed pointer; the nodes of
  the heap are exactly those of the list, so nothing leaks, the links agree in both directions,
  and the elements are those of the same edits on a list, where the calls whose allocation failed
  did nothing.  Removal and insertion next to an element look the element up by its bytes, as
  \<^verbatim>\<open>memcmp\<close> does, not by its address, as \<^verbatim>\<open>list.h\<close> says.\<close>

theorem list_edits_refine:
  assumes "list_rep es s xs" "list_all (list_legal es) edits" "length xs + length edits \<le> 2 ^ 31"
  shows "\<exists>oks t. dlist.run edits s = Some (oks, t) \<and> length oks = length edits \<and>
    list_rep es t (dlist.replay (zip edits oks) xs) \<and> list_size t = length (dlist.replay (zip edits oks) xs)"
proof -
  have "length xs + length edits \<le> Suc max_index" using assms(3) by (simp add: max_index_def)
  then obtain oks t where t: "dlist.run edits s = Some (oks, t)" "length oks = length edits"
    "list_rep es t (dlist.replay (zip edits oks) xs)"
    using dlist.run_replays [OF assms(1,2)] by blast
  obtain h l where hl: "t = (h, l)" by (cases t)
  have "list_size t = length (dlist.replay (zip edits oks) xs)"
    using t(3) unfolding hl by (auto simp: list_size_def elim: list_repE)
  with t show ?thesis by blast
qed

theorem list_edits_refine_witness:
  "\<exists>oks t. dlist.run [(bump, Push_Back [1]), (\<lambda>_. None, Push_Front [2]), (bump, Insert_Before [3] [1])]
      (Map.empty, list_new 1) = Some (oks, t) \<and> length oks = 3"
  using list_edits_refine [OF new_reps(1) [of 1],
      of "[(bump, Push_Back [1]), (\<lambda>_. None, Push_Front [2]), (bump, Insert_Before [3] [1])]"]
    bump_fresh no_alloc by (auto simp: numeral_3_eq_3 simp del: dlist.run.simps dlist.replay.simps)

text \<open>(C25) Refinement of the singly-linked list, for every operation but \<^verbatim>\<open>slist_insert_before\<close>: any
  sequence of pushes, pops, insertions at an index or after an element (found by its bytes),
  removals at an index and clears, within the range of the \<^verbatim>\<open>int\<close> index, never follows a NULL or
  freed pointer, leaks nothing, keeps the tail pointer right, and has the effect of the same edits
  on a list, where the calls whose allocation failed did nothing.\<close>

theorem slist_edits_refine:
  assumes "slist_rep es s xs" "list_all (slist_legal es) edits" "length xs + length edits \<le> 2 ^ 31"
  shows "\<exists>oks t. slst.run edits s = Some (oks, t) \<and> length oks = length edits \<and>
    slist_rep es t (slst.replay (zip edits oks) xs) \<and> slist_size t = length (slst.replay (zip edits oks) xs)"
proof -
  have "length xs + length edits \<le> Suc max_index" using assms(3) by (simp add: max_index_def)
  then obtain oks t where t: "slst.run edits s = Some (oks, t)" "length oks = length edits"
    "slist_rep es t (slst.replay (zip edits oks) xs)"
    using slst.run_replays [OF assms(1,2)] by blast
  obtain h l where hl: "t = (h, l)" by (cases t)
  have "slist_size t = length (slst.replay (zip edits oks) xs)"
    using t(3) unfolding hl by (auto simp: slist_size_def elim: slist_repE)
  with t show ?thesis by blast
qed

theorem slist_edits_refine_witness:
  "\<exists>oks t. slst.run [(bump, SPush_Back [1]), (\<lambda>_. None, SPush_Front [2]), (bump, SInsert_After [3] [1])]
      (Map.empty, slist_new 1) = Some (oks, t) \<and> length oks = 3"
  using slist_edits_refine [OF new_reps(2) [of 1],
      of "[(bump, SPush_Back [1]), (\<lambda>_. None, SPush_Front [2]), (bump, SInsert_After [3] [1])]"]
    bump_fresh no_alloc by (auto simp: numeral_3_eq_3 simp del: slst.run.simps slst.replay.simps)

lemma put_at_twice:
  assumes "0 < i" "i \<le> length xs"
  shows "put_at (i - 1) e xs = put_at i e xs \<longleftrightarrow> xs ! (i - 1) = e"
proof -
  have "take i xs = take (i - 1) xs @ [xs ! (i - 1)]" "drop (i - 1) xs = xs ! (i - 1) # drop i xs"
    using assms take_Suc_conv_app_nth [of "i - 1" xs] Cons_nth_drop_Suc [of "i - 1" xs] by simp_all
  then show ?thesis using assms by (auto simp: put_at_def)
qed

text \<open>(C26) \<^verbatim>\<open>slist_insert_before\<close> does not do what \<^verbatim>\<open>slist.h\<close> says.  It never follows a NULL or freed
  pointer and leaves the list unchanged when the allocation fails or no element has the bytes of
  \<^verbatim>\<open>before\<close>; otherwise the new element lands in front of the predecessor of the first such element.
  The result is the documented one, the element immediately before \<^verbatim>\<open>before\<close>, exactly when \<^verbatim>\<open>before\<close>
  is the first element or its predecessor equals the new element.\<close>

theorem slist_insert_before_position:
  assumes "slist_rep es (h, l) xs" "length xs < 2 ^ 31" "fresh al" "length e = es" "length b = es"
  shows "\<exists>s' ys. slist_insert_before al (h, l) e b = Some s' \<and> slist_rep es s' ys \<and>
    (if al h = None \<or> b \<notin> set xs then ys = xs
     else ys = put_at (first_idx b xs - 1) e xs \<and>
       (ys = put_at (first_idx b xs) e xs \<longleftrightarrow> first_idx b xs = 0 \<or> xs ! (first_idx b xs - 1) = e))"
proof -
  have len: "length xs \<le> max_index" and sz: "sl_size l = length xs"
    using assms(2) slist_repE [OF assms(1)] by (auto simp: max_index_def)
  note idx = sindex_of_rep [OF assms(1,5) len]
  have ins: "\<exists>s'. slist_insert al (h, l) i e = Some s' \<and> slist_rep es s' (if al h \<noteq> None then put_at i e xs else xs)" for i
    using sinsert_rep [OF assms(1,3,4)] by blast
  show ?thesis
  proof (cases "b \<in> set xs")
    case True
    then have lt: "first_idx b xs < length xs" by (rule first_idx_less)
    have "slist_insert_before al (h, l) e b = slist_insert al (h, l) (first_idx b xs - 1) e"
      using idx True lt sz by (cases "first_idx b xs") (auto simp: slist_insert_before_def slist_size_def spush_front_is_insert nat_1_int)
    moreover have "put_at (first_idx b xs - 1) e xs = put_at (first_idx b xs) e xs \<longleftrightarrow>
        first_idx b xs = 0 \<or> xs ! (first_idx b xs - 1) = e"
      using put_at_twice [of "first_idx b xs" xs e] lt by (cases "first_idx b xs") auto
    ultimately show ?thesis using ins [of "first_idx b xs - 1"] True
      by (cases "al h") (auto simp del: One_nat_def)
  next
    case False
    then show ?thesis using idx assms(1) by (auto simp: slist_insert_before_def)
  qed
qed

theorem slist_insert_before_position_witness:
  "\<exists>h l s'. slist_rep 1 (h, l) [[1], [2]] \<and> slist_insert_before bump (h, l) [3] [2] = Some s' \<and>
     slist_rep 1 s' [[3], [1], [2]]"
proof -
  have "slist_legal 1 (bump, SPush_Back [x])" for x using bump_fresh by simp
  then obtain s where "slist_rep 1 s [[1], [2]]"
    using slist_step_rep [OF new_reps(2) [of 1], of "(bump, SPush_Back [1])"]
      slist_step_rep [of 1 _ "[[1]]" "(bump, SPush_Back [2])"]
    by (fastforce simp: bump_def max_index_def)
  moreover obtain h l where "s = (h, l)" by (cases s)
  ultimately show ?thesis
    using slist_insert_before_position [of 1 h l "[[1], [2]]" bump "[3]" "[2]"] bump_fresh
    by (auto simp: bump_def first_idx_def put_at_def)
qed

end
