(* ===== verification/Trie.thy ===== *)
theory Trie
  imports Byte_Strings
begin

text \<open>
  The trie of \<^verbatim>\<open>src/trie.c\<close>.  A node owns its children, so nodes are a datatype: the sorted child
  bytes, the children in the same order, the capacity of the two arrays, the end-of-word mark
  and the 32-bit frequency.  Walking down from the root and changing the node reached is
  written as recursion that rebuilds the path.  \<open>None\<close> is undefined behaviour: a write in front
  of the arrays when \<^verbatim>\<open>int8_t\<close> overflows, and the states the error paths of
  \<^verbatim>\<open>child_find_or_create\<close> leave behind that are no longer trees: an array freed but still
  referenced, and two entries for one child when the node cannot be allocated after two or more
  entries were moved (moving one writes only behind the entries in use).
\<close>

section \<open>Nodes\<close>

datatype trie_node =
  TNode (tn_chars: "u8 list") (tn_children: "trie_node list") (tn_nalloc: nat) (tn_end: bool) (tn_freq: u32)

record trie_t =
  t_root :: trie_node
  t_word_count :: nat

definition node_create :: trie_node where
  "node_create = TNode [] [] 0 False 0"

function bsearch :: "u8 list \<Rightarrow> u8 \<Rightarrow> int \<Rightarrow> int \<Rightarrow> int" where
  "bsearch chars c lo hi =
     (if lo \<le> hi
      then let mid = (lo + hi) div 2
      in if chars ! nat mid = c then mid
         else if chars ! nat mid < c then bsearch chars c (mid + 1) hi
         else bsearch chars c lo (mid - 1)
      else -1)"
  by auto
termination by (relation "measure (\<lambda>(cs, c, lo, hi). nat (hi - lo + 1))") auto

declare bsearch.simps [simp del]

definition child_index :: "trie_node \<Rightarrow> u8 \<Rightarrow> int" where
  "child_index n c = bsearch (tn_chars n) c 0 (int (length (tn_chars n)) - 1)"

text \<open>\<^verbatim>\<open>while (pos > 0 && n->chars[pos - 1] > c) pos--\<close>\<close>

fun shift_pos :: "u8 list \<Rightarrow> u8 \<Rightarrow> nat \<Rightarrow> nat" where
  "shift_pos chars c 0 = 0"
| "shift_pos chars c (Suc p) = (if chars ! p > c then shift_pos chars c p else Suc p)"

definition grow_alloc :: "nat \<Rightarrow> nat" where
  "grow_alloc nalloc =
     (let new_alloc = (if nalloc = 0 then 2 else nalloc * 2 mod 256)
      in if new_alloc < nalloc then 255 else new_alloc)"

text \<open>The outcomes of the two reallocations and of \<^verbatim>\<open>node_create\<close>.\<close>

type_synonym node_alloc = "bool \<times> bool \<times> bool"

text \<open>The node afterwards and the index of the child, \<open>None\<close> for NULL.\<close>

definition child_find_or_create :: "node_alloc \<Rightarrow> trie_node \<Rightarrow> u8 \<Rightarrow> (trie_node \<times> nat option) option" where
  "child_find_or_create al n c =
     (let (nc, np, created) = al; idx = child_index n c; nchildren = length (tn_chars n)
      in if idx \<ge> 0 then Some (n, Some (nat idx))
         else let full = (nchildren = tn_nalloc n);
                  nalloc = (if full then grow_alloc (tn_nalloc n) else tn_nalloc n)
         in if full \<and> \<not> (nc \<and> np)
            then if (nc \<or> np) \<and> tn_nalloc n > 0 then None else Some (n, None)
            else let start = sint (word_of_nat nchildren :: 8 word);
                     pos = shift_pos (tn_chars n) c (nat start)
            in if \<not> created
               then if start \<le> 0 \<or> nchildren \<le> pos + 1
                    then Some (TNode (tn_chars n) (tn_children n) nalloc (tn_end n) (tn_freq n), None)
                    else None
               else if start < 0 \<or> nalloc \<le> nchildren then None
               else Some (TNode (take pos (tn_chars n) @ c # drop pos (tn_chars n))
                            (take pos (tn_children n) @ node_create # drop pos (tn_children n))
                            nalloc (tn_end n) (tn_freq n), Some pos))"

section \<open>Public interface\<close>

definition trie_create :: "bool \<Rightarrow> bool \<Rightarrow> trie_t option" where
  "trie_create ok root_ok =
     (if \<not> ok then None else if \<not> root_ok then None else Some \<lparr>t_root = node_create, t_word_count = 0\<rparr>)"

text \<open>The result: success, whether the word is new, and the node rebuilt.\<close>

fun insert_path :: "(nat \<Rightarrow> node_alloc) \<Rightarrow> nat \<Rightarrow> trie_node \<Rightarrow> bytes \<Rightarrow> (bool \<times> bool \<times> trie_node) option" where
  "insert_path al d n [] =
     Some (True, \<not> tn_end n, TNode (tn_chars n) (tn_children n) (tn_nalloc n) True (tn_freq n + 1))"
| "insert_path al d n (c # w) =
     do {
       (n, child) \<leftarrow> child_find_or_create (al d) n c;
       case child of None \<Rightarrow> Some (False, False, n)
       | Some i \<Rightarrow> do {
           (ok, new, ch) \<leftarrow> insert_path al (d + 1) (tn_children n ! i) w;
           Some (ok, new, TNode (tn_chars n) ((tn_children n)[i := ch]) (tn_nalloc n) (tn_end n) (tn_freq n))
         }
     }"

definition trie_insert :: "(nat \<Rightarrow> node_alloc) \<Rightarrow> trie_t \<Rightarrow> bytes \<Rightarrow> (bool \<times> trie_t) option" where
  "trie_insert al t word =
     (if word = [] then Some (False, t)
      else do {
        (ok, new, root) \<leftarrow> insert_path al 0 (t_root t) word;
        Some (ok, \<lparr>t_root = root, t_word_count = t_word_count t + (if new then 1 else 0)\<rparr>)
      })"

fun find_node :: "trie_node \<Rightarrow> bytes \<Rightarrow> trie_node option" where
  "find_node cur [] = Some cur"
| "find_node cur (c # w) =
     (let idx = child_index cur c
      in if idx < 0 then None else find_node (tn_children cur ! nat idx) w)"

definition trie_search :: "trie_t \<Rightarrow> bytes \<Rightarrow> bool" where
  "trie_search t word =
     (word \<noteq> [] \<and> (case find_node (t_root t) word of None \<Rightarrow> False | Some cur \<Rightarrow> tn_end cur))"

definition trie_starts_with :: "trie_t \<Rightarrow> bytes \<Rightarrow> bool" where
  "trie_starts_with t prefix = (prefix \<noteq> [] \<and> find_node (t_root t) prefix \<noteq> None)"

text \<open>Clearing the mark and the frequency of the node at the end of a path.\<close>

fun clear_path :: "trie_node \<Rightarrow> bytes \<Rightarrow> trie_node" where
  "clear_path n [] = TNode (tn_chars n) (tn_children n) (tn_nalloc n) False 0"
| "clear_path n (c # w) =
     (let i = nat (child_index n c)
      in TNode (tn_chars n) ((tn_children n)[i := clear_path (tn_children n ! i) w]) (tn_nalloc n)
           (tn_end n) (tn_freq n))"

definition trie_delete :: "trie_t \<Rightarrow> bytes \<Rightarrow> bool \<times> trie_t" where
  "trie_delete t word =
     (if word = [] then (False, t)
      else case find_node (t_root t) word of
        None \<Rightarrow> (False, t)
      | Some cur \<Rightarrow> if \<not> tn_end cur then (False, t)
          else (True, \<lparr>t_root = clear_path (t_root t) word, t_word_count = t_word_count t - 1\<rparr>))"

definition trie_get_frequency :: "trie_t \<Rightarrow> bytes \<Rightarrow> u32" where
  "trie_get_frequency t word =
     (if word = [] then 0
      else case find_node (t_root t) word of None \<Rightarrow> 0
      | Some cur \<Rightarrow> if tn_end cur then tn_freq cur else 0)"

definition trie_get_word_count :: "trie_t \<Rightarrow> nat" where
  "trie_get_word_count t = t_word_count t"

definition trie_is_empty :: "trie_t \<Rightarrow> bool" where
  "trie_is_empty t = (t_word_count t = 0)"

section \<open>Completion\<close>

definition buf_max :: nat where
  "buf_max = 1024"

text \<open>
  \<open>buf\<close> is the word spelled so far, so \<^verbatim>\<open>depth\<close> is its length; \<open>dup\<close> says for which words the
  copy on the arena succeeds; \<open>found\<close> is the array of suggestions, which has \<open>slots\<close> elements.  A
  store behind the array is undefined.
\<close>

fun collect :: "nat \<Rightarrow> nat \<Rightarrow> (bytes \<Rightarrow> bool) \<Rightarrow> trie_node \<Rightarrow> bytes \<Rightarrow> bytes list \<Rightarrow> bytes list option"
  and collect_children ::
    "nat \<Rightarrow> nat \<Rightarrow> (bytes \<Rightarrow> bool) \<Rightarrow> u8 list \<Rightarrow> trie_node list \<Rightarrow> bytes \<Rightarrow> bytes list \<Rightarrow> bytes list option" where
  "collect limit slots dup (TNode chars children nalloc fin freq) buf found =
     (if length found \<ge> limit then Some found
      else do {
        found \<leftarrow> (if fin \<and> dup buf
                  then if length found < slots then Some (found @ [buf]) else None
                  else Some found);
        collect_children limit slots dup chars children buf found
      })"
| "collect_children limit slots dup (c # chars) (n # children) buf found =
     (if length found < limit
      then if length buf + 1 \<ge> buf_max then Some found
           else do {
             found \<leftarrow> collect limit slots dup n (buf @ [c]) found;
             collect_children limit slots dup chars children buf found
           }
      else Some found)"
| "collect_children limit slots dup _ _ buf found = Some found"

text \<open>
  The flags are the outcomes of the two arena allocations.  The first one asks for
  \<^verbatim>\<open>sizeof(char*) * max_suggestions\<close> bytes, a product that wraps around; \<^verbatim>\<open>arena_alloc\<close> answers
  a request of zero bytes with NULL, and otherwise the array has the slots of that many bytes.  The
  result \<open>Some None\<close> is NULL.
\<close>

definition trie_autocomplete ::
    "bool \<Rightarrow> bool \<Rightarrow> (bytes \<Rightarrow> bool) \<Rightarrow> trie_t \<Rightarrow> bytes \<Rightarrow> size_t \<Rightarrow> bytes list option option" where
  "trie_autocomplete arr_ok buf_ok dup t prefix max_suggestions =
     (if max_suggestions = 0 then Some None
      else case find_node (t_root t) prefix of
        None \<Rightarrow> Some None
      | Some cur \<Rightarrow>
          if \<not> arr_ok \<or> 8 * max_suggestions = 0 then Some None
          else if \<not> buf_ok then Some None
          else if length prefix \<ge> buf_max then Some None
          else do {
            let slots = unat (8 * max_suggestions) div 8;
            found \<leftarrow> collect (unat max_suggestions) slots dup cur prefix [];
            Some (if found = [] then None else Some found)
          })"

end
