(* ===== verification/Trie_Correct.thy ===== *)
theory Trie_Correct
  imports Trie Text_Spec
begin

text \<open>
  The trie represents a finite map from words to frequencies.  The invariant of a node: its
  child bytes are strictly increasing and 7-bit, the arrays have the same length and fit the
  capacity, and only marked nodes have a frequency.
\<close>

section \<open>Finding a child\<close>

lemma bsearch_found:
  assumes "sorted_wrt (<) cs" "i < length cs" "cs ! i = c" "0 \<le> lo" "lo \<le> int i" "int i \<le> hi" "hi < int (length cs)"
  shows "bsearch cs c lo hi = int i"
  using assms
proof (induction cs c lo hi rule: bsearch.induct)
  case (1 cs c lo hi)
  define mid where "mid = (lo + hi) div 2"
  have le: "lo \<le> hi" using "1.prems" by simp
  then have mid: "lo \<le> mid" "mid \<le> hi" by (simp_all add: mid_def)
  then have m: "nat mid < length cs" "0 \<le> mid" using "1.prems" by simp_all
  consider "mid = int i" | "mid < int i" | "int i < mid" by linarith
  then show ?case
  proof cases
    case 1
    then show ?thesis using "1.prems" le by (subst bsearch.simps) (simp add: mid_def [symmetric] Let_def)
  next
    case 2
    then have "cs ! nat mid < c"
      using sorted_wrt_nth_less [OF "1.prems"(1), of "nat mid" i] "1.prems"(2,3) m by simp
    then have "bsearch cs c (mid + 1) hi = int i"
      using 2 "1.prems" m le by (intro "1.IH"(1)) (auto simp: mid_def)
    with \<open>cs ! nat mid < c\<close> show ?thesis using le by (subst bsearch.simps) (auto simp: mid_def [symmetric] Let_def)
  next
    case 3
    then have "c < cs ! nat mid"
      using sorted_wrt_nth_less [OF "1.prems"(1), of i "nat mid"] "1.prems"(2,3) m by simp
    then have "bsearch cs c lo (mid - 1) = int i"
      using 3 "1.prems" m le by (intro "1.IH"(2)) (auto simp: mid_def)
    with \<open>c < cs ! nat mid\<close> show ?thesis using le
      by (subst bsearch.simps) (auto simp: mid_def [symmetric] Let_def)
  qed
qed

lemma bsearch_missing:
  assumes "c \<notin> set cs" "0 \<le> lo" "hi < int (length cs)"
  shows "bsearch cs c lo hi = -1"
  using assms
proof (induction cs c lo hi rule: bsearch.induct)
  case (1 cs c lo hi)
  show ?case
  proof (cases "lo \<le> hi")
    case True
    define mid where "mid = (lo + hi) div 2"
    have "lo \<le> mid" "mid \<le> hi" using True by (simp_all add: mid_def)
    then have "cs ! nat mid \<in> set cs" "0 \<le> mid" "mid < int (length cs)" using "1.prems" by (auto intro!: nth_mem)
    moreover from this have "bsearch cs c (mid + 1) hi = -1" if "cs ! nat mid < c"
      using that True "1.prems" by (intro "1.IH"(1)) (auto simp: mid_def)
    moreover have "bsearch cs c lo (mid - 1) = -1" if "\<not> cs ! nat mid < c" "cs ! nat mid \<noteq> c"
      using that True "1.prems" \<open>mid < int (length cs)\<close> by (intro "1.IH"(2)) (auto simp: mid_def)
    ultimately show ?thesis using "1.prems"(1) True by (subst bsearch.simps) (auto simp: mid_def [symmetric] Let_def)
  qed (simp add: bsearch.simps)
qed

definition child :: "trie_node \<Rightarrow> u8 \<Rightarrow> trie_node option" where
  "child n = map_of (zip (tn_chars n) (tn_children n))"

lemma child_index_iff:
  assumes "sorted_wrt (<) (tn_chars n)" "length (tn_children n) = length (tn_chars n)"
  obtains (found) i where "i < length (tn_chars n)" "tn_chars n ! i = c" "child_index n c = int i"
      "child n c = Some (tn_children n ! i)"
  | (missing) "c \<notin> set (tn_chars n)" "child_index n c = -1" "child n c = None"
proof (cases "c \<in> set (tn_chars n)")
  case True
  then obtain i where i: "i < length (tn_chars n)" "tn_chars n ! i = c" by (auto simp: in_set_conv_nth)
  have "distinct (tn_chars n)" using assms(1) by (simp add: strict_sorted_iff)
  then have "child n c = Some (tn_children n ! i)"
    using map_of_zip_nth [of "tn_chars n" "tn_children n" i] i assms(2) by (simp add: child_def)
  with i show thesis using bsearch_found [OF assms(1) i, of 0 "int (length (tn_chars n)) - 1"]
    by (intro found) (auto simp: child_index_def)
next
  case False
  then show thesis using assms(2) bsearch_missing [OF False, of 0 "int (length (tn_chars n)) - 1"]
    by (intro missing) (auto simp: child_index_def child_def)
qed

section \<open>The invariant and the map of a node\<close>

fun trie_wf :: "trie_node \<Rightarrow> bool" where
  "trie_wf (TNode cs ns al fin fr) \<longleftrightarrow> sorted_wrt (<) cs \<and> length ns = length cs \<and> length cs \<le> al \<and>
     (\<forall>c\<in>set cs. 0 < unat c \<and> unat c < 128) \<and> (\<not> fin \<longrightarrow> fr = 0) \<and> (\<forall>n\<in>set ns. trie_wf n)"

lemma trie_wfD:
  assumes "trie_wf n"
  shows "sorted_wrt (<) (tn_chars n)" "length (tn_children n) = length (tn_chars n)"
    "length (tn_chars n) \<le> tn_nalloc n" "\<forall>c\<in>set (tn_chars n). 0 < unat c \<and> unat c < 128"
    "\<not> tn_end n \<longrightarrow> tn_freq n = 0" "\<forall>m\<in>set (tn_children n). trie_wf m" "distinct (tn_chars n)"
  using assms by (cases n; simp add: strict_sorted_iff)+

definition entry :: "trie_node \<Rightarrow> bytes \<Rightarrow> u32 option" where
  "entry n w = (case find_node n w of None \<Rightarrow> None | Some m \<Rightarrow> if tn_end m then Some (tn_freq m) else None)"

lemma find_node_Cons:
  assumes "trie_wf n"
  shows "find_node n (c # w) = (case child n c of None \<Rightarrow> None | Some m \<Rightarrow> find_node m w)"
  by (rule child_index_iff [OF trie_wfD(1,2) [OF assms], of c]) simp_all

lemma entry_Nil: "entry n [] = (if tn_end n then Some (tn_freq n) else None)"
  by (simp add: entry_def)

lemma entry_Cons:
  "trie_wf n \<Longrightarrow> entry n (c # w) = (case child n c of None \<Rightarrow> None | Some m \<Rightarrow> entry m w)"
  by (simp add: entry_def find_node_Cons del: find_node.simps split: option.splits)

lemma child_wf: "trie_wf n \<Longrightarrow> child n c = Some m \<Longrightarrow> trie_wf m"
  using trie_wfD(6) [of n] by (auto simp: child_def dest!: map_of_SomeD set_zip_rightD)

lemma entry_create: "entry node_create w = None"
  by (cases w) (simp_all add: entry_def node_create_def child_index_def bsearch.simps)

section \<open>Replacing and adding a child\<close>

lemma map_of_zip_update:
  "length cs = length ns \<Longrightarrow> distinct cs \<Longrightarrow> i < length cs \<Longrightarrow>
     map_of (zip cs (ns[i := m])) = (map_of (zip cs ns))(cs ! i \<mapsto> m)"
proof (induction cs ns arbitrary: i rule: list_induct2)
  case (Cons c cs n ns)
  show ?case
  proof (cases i)
    case (Suc j)
    then have "cs ! j \<noteq> c" using Cons.prems by auto
    with Cons Suc show ?thesis by (auto simp: fun_eq_iff)
  qed (simp add: fun_eq_iff)
qed simp

lemma map_of_mid: "c \<notin> fst ` set A \<Longrightarrow> map_of (A @ (c, m) # B) = (map_of (A @ B))(c \<mapsto> m)"
  by (induction A) (auto simp: fun_eq_iff)

lemma map_of_zip_insert:
  assumes "length cs = length ns" "c \<notin> set cs"
  shows "map_of (zip (take p cs @ c # drop p cs) (take p ns @ m # drop p ns)) = (map_of (zip cs ns))(c \<mapsto> m)"
proof -
  let ?A = "zip (take p cs) (take p ns)" and ?B = "zip (drop p cs) (drop p ns)"
  have "zip cs ns = ?A @ ?B" using assms(1) by (metis append_take_drop_id length_take zip_append)
  moreover have "zip (take p cs @ c # drop p cs) (take p ns @ m # drop p ns) = ?A @ (c, m) # ?B"
    using assms(1) by simp
  moreover have "c \<notin> fst ` set ?A" using assms(2) by (auto dest!: set_zip_leftD in_set_takeD)
  ultimately show ?thesis by (metis map_of_mid)
qed

lemma wf_update_child:
  assumes "trie_wf n" "i < length (tn_chars n)" "trie_wf m"
  shows "trie_wf (TNode (tn_chars n) ((tn_children n)[i := m]) (tn_nalloc n) (tn_end n) (tn_freq n))"
  using trie_wfD [OF assms(1)] assms(2,3) set_update_subset_insert [of "tn_children n" i m] by auto

lemma child_update:
  assumes "trie_wf n" "i < length (tn_chars n)"
  shows "child (TNode (tn_chars n) ((tn_children n)[i := m]) al fin fr) = (child n)(tn_chars n ! i \<mapsto> m)"
  using trie_wfD [OF assms(1)] assms(2) by (simp add: child_def map_of_zip_update)

section \<open>Creating a child\<close>

lemma shift_pos_props:
  "shift_pos cs c p \<le> p" "shift_pos cs c p \<le> i \<Longrightarrow> i < p \<Longrightarrow> c < cs ! i"
  "0 < shift_pos cs c p \<Longrightarrow> cs ! (shift_pos cs c p - 1) \<le> c"
proof (induction p arbitrary: i)
  case (Suc p)
  { case 1 show ?case using Suc.IH(1) by simp
  next
    case 2
    then show ?case using Suc.IH(2) [of i] by (auto split: if_splits simp: less_Suc_eq)
  next
    case 3
    then show ?case using Suc.IH(3) by (auto split: if_splits) }
qed auto

lemma sorted_insert:
  assumes "sorted_wrt (<) cs" "c \<notin> set cs" "pos = shift_pos cs c (length cs)"
  shows "sorted_wrt (<) (take pos cs @ c # drop pos cs)"
proof -
  have pos: "pos \<le> length cs" using shift_pos_props(1) assms(3) by simp
  have after: "\<forall>x\<in>set (drop pos cs). c < x"
    using shift_pos_props(2) [of cs c "length cs"] assms(3) by (auto simp: in_set_conv_nth)
  have before: "x < c" if x: "x \<in> set (take pos cs)" for x
  proof -
    obtain i where i: "i < pos" "x = cs ! i" using x pos by (auto simp: in_set_conv_nth)
    then have last: "cs ! (pos - 1) \<le> c" using shift_pos_props(3) [of cs c "length cs"] assms(3) by auto
    have "cs ! (pos - 1) \<noteq> c" using assms(2) i(1) pos by (metis diff_less less_le_trans less_nat_zero_code nth_mem zero_less_one gr0I)
    with last have "cs ! (pos - 1) < c" by simp
    moreover have "cs ! i \<le> cs ! (pos - 1)"
    proof (cases "i = pos - 1")
      case False
      then have "i < pos - 1" "pos - 1 < length cs" using i(1) pos by linarith+
      then show ?thesis using sorted_wrt_nth_less [OF assms(1)] by (simp add: less_imp_le)
    qed simp
    ultimately show ?thesis using i(2) by simp
  qed
  have "sorted_wrt (<) (take pos cs)" "sorted_wrt (<) (drop pos cs)"
    using assms(1) by (simp_all add: sorted_wrt_take sorted_wrt_drop)
  then show ?thesis using before after by (auto simp: sorted_wrt_append intro: less_trans)
qed

lemma few_chars:
  assumes "distinct cs" "\<forall>c\<in>set cs. 0 < unat c \<and> unat (c :: u8) < 128"
  shows "length cs \<le> 127"
proof -
  have "unat ` set cs \<subseteq> {1..127}" using assms(2) by fastforce
  moreover have "card (unat ` set cs) = length cs"
    using assms(1) by (simp add: card_image inj_on_def word_unat_eq_iff distinct_card)
  ultimately show ?thesis using card_mono [of "{1..127 :: nat}" "unat ` set cs"] by simp
qed

lemma sint_small: "n < 128 \<Longrightarrow> sint (word_of_nat n :: 8 word) = int n"
  by (simp add: signed_of_nat signed_take_bit_int_eq_self)

lemma grow_alloc_grows: "n < 128 \<Longrightarrow> n < grow_alloc n"
  by (simp add: grow_alloc_def Let_def)

text \<open>
  Allocations that fail together: both reallocations succeed or both fail, and the node is
  created.  The other outcomes are the ones that can damage a node.
\<close>

definition sane :: "node_alloc \<Rightarrow> bool" where
  "sane al \<longleftrightarrow> (case al of (nc, np, created) \<Rightarrow> nc = np \<and> created)"

text \<open>What the call leaves when the child is missing: damage, the same children, or one more.\<close>

definition damages :: "node_alloc \<Rightarrow> trie_node \<Rightarrow> u8 \<Rightarrow> bool" where
  "damages al n c \<longleftrightarrow> c \<notin> set (tn_chars n) \<and>
     (case al of (nc, np, created) \<Rightarrow>
        if length (tn_chars n) = tn_nalloc n \<and> \<not> (nc \<and> np) then nc \<noteq> np \<and> 0 < tn_nalloc n
        else \<not> created \<and> shift_pos (tn_chars n) c (length (tn_chars n)) + 1 < length (tn_chars n))"

lemma sane_harmless: "sane al \<Longrightarrow> \<not> damages al n c"
  by (auto simp: sane_def damages_def split: if_splits)

lemma child_missing_eq:
  assumes wf: "trie_wf n" and no: "c \<notin> set (tn_chars n)"
    and pos: "pos = shift_pos (tn_chars n) c (length (tn_chars n))"
    and nalloc: "nalloc = (if length (tn_chars n) = tn_nalloc n then grow_alloc (tn_nalloc n) else tn_nalloc n)"
  shows "length (tn_chars n) < nalloc \<and> child_find_or_create (nc, np, created) n c =
    (if damages (nc, np, created) n c then None
     else if length (tn_chars n) = tn_nalloc n \<and> \<not> (nc \<and> np) then Some (n, None)
     else if \<not> created then Some (TNode (tn_chars n) (tn_children n) nalloc (tn_end n) (tn_freq n), None)
     else Some (TNode (take pos (tn_chars n) @ c # drop pos (tn_chars n))
                  (take pos (tn_children n) @ node_create # drop pos (tn_children n)) nalloc (tn_end n) (tn_freq n), Some pos))"
proof -
  note w = trie_wfD [OF wf]
  have idx: "child_index n c = -1" using no by (auto simp: child_index_def bsearch_missing)
  have len: "length (tn_chars n) < 128" using few_chars [OF w(7,4)] by simp
  have room: "length (tn_chars n) < nalloc"
    using w(3) len grow_alloc_grows [of "tn_nalloc n"] by (auto simp: nalloc)
  show ?thesis
  proof (cases "length (tn_chars n) = tn_nalloc n \<and> \<not> (nc \<and> np)")
    case True
    then show ?thesis using room idx no by (auto simp: child_find_or_create_def damages_def Let_def)
  next
    case False
    then show ?thesis using room idx no sint_small [OF len]
      by (auto simp: child_find_or_create_def damages_def Let_def pos nalloc [symmetric])
  qed
qed

lemma child_create:
  assumes wf: "trie_wf n" and c: "0 < unat c" "unat c < 128" and no: "c \<notin> set (tn_chars n)"
    and res: "child_find_or_create al n c = Some (n', r)"
  shows "trie_wf n' \<and> tn_end n' = tn_end n \<and> tn_freq n' = tn_freq n \<and>
    (case r of None \<Rightarrow> child n' = child n
     | Some pos \<Rightarrow> pos < length (tn_chars n') \<and> tn_chars n' ! pos = c \<and> tn_children n' ! pos = node_create \<and>
         child n' = (child n)(c \<mapsto> node_create))"
proof -
  note w = trie_wfD [OF wf]
  let ?cs = "tn_chars n" and ?ns = "tn_children n"
  define pos where "pos = shift_pos ?cs c (length ?cs)"
  define nalloc where "nalloc = (if length ?cs = tn_nalloc n then grow_alloc (tn_nalloc n) else tn_nalloc n)"
  obtain nc np created where al: "al = (nc, np, created)" by (cases al)
  note eq = child_missing_eq [OF wf no pos_def nalloc_def, of nc np created, folded al]
  have pos: "pos \<le> length ?cs" by (simp add: pos_def shift_pos_props(1))
  let ?n = "TNode (take pos ?cs @ c # drop pos ?cs) (take pos ?ns @ node_create # drop pos ?ns) nalloc (tn_end n) (tn_freq n)"
  let ?m = "TNode ?cs ?ns nalloc (tn_end n) (tn_freq n)"
  have "trie_wf ?n"
    using w c eq pos sorted_insert [OF w(1) no pos_def]
    by (auto simp: node_create_def dest: in_set_takeD in_set_dropD)
  moreover have "child ?n = (child n)(c \<mapsto> node_create)"
    using map_of_zip_insert [of ?cs ?ns c pos node_create] w(2) no by (simp add: child_def)
  moreover have "trie_wf ?m" "child ?m = child n" using w eq by (auto simp: child_def)
  moreover have "(take pos ?cs @ c # drop pos ?cs) ! pos = c" "(take pos ?ns @ node_create # drop pos ?ns) ! pos = node_create"
    using pos w(2) by (simp_all add: nth_append)
  ultimately show ?thesis using eq res pos wf by (auto split: if_splits)
qed

lemma child_exists:
  assumes "trie_wf n" "c \<in> set (tn_chars n)"
  shows "\<exists>i. child_find_or_create al n c = Some (n, Some i) \<and> i < length (tn_chars n) \<and> tn_chars n ! i = c \<and>
    child n c = Some (tn_children n ! i)"
  using trie_wfD(1,2) [OF assms(1)]
  by (rule child_index_iff [of n c]) (use assms(2) in \<open>auto simp: child_find_or_create_def split: prod.splits\<close>)

lemma child_undefined_iff: "trie_wf n \<Longrightarrow> child_find_or_create al n c = None \<longleftrightarrow> damages al n c"
proof (cases "c \<in> set (tn_chars n)")
  case True
  moreover assume "trie_wf n"
  ultimately show ?thesis using child_exists [of n c al] by (auto simp: damages_def)
next
  case False
  moreover assume "trie_wf n"
  ultimately show ?thesis using child_missing_eq [OF _ _ refl refl, of n c] by (cases al) auto
qed

section \<open>Insertion and deletion\<close>

definition bumped :: "(bytes \<Rightarrow> u32 option) \<Rightarrow> bytes \<Rightarrow> bytes \<Rightarrow> u32 option" where
  "bumped m w = m(w \<mapsto> (case m w of None \<Rightarrow> 1 | Some f \<Rightarrow> f + 1))"

definition ascii :: "bytes \<Rightarrow> bool" where
  "ascii w \<longleftrightarrow> (\<forall>c\<in>set w. 0 < unat c \<and> unat c < 128)"

lemma entry_update:
  assumes "trie_wf n" "i < length (tn_chars n)" "trie_wf m"
  shows "entry (TNode (tn_chars n) ((tn_children n)[i := m]) (tn_nalloc n) (tn_end n) (tn_freq n)) (c # v)
    = (if c = tn_chars n ! i then entry m v else entry n (c # v))"
  using entry_Cons [OF wf_update_child [OF assms]] entry_Cons [OF assms(1)] child_update [OF assms(1,2)]
  by (simp split: option.splits)

text \<open>The node after the child is found or created, for any outcome of the allocations.\<close>

lemma child_step:
  assumes wf: "trie_wf n" and c: "0 < unat c" "unat c < 128" and res: "child_find_or_create al n c = Some (n1, r)"
  shows "trie_wf n1 \<and> tn_end n1 = tn_end n \<and> entry n1 = entry n \<and>
    (\<forall>i. r = Some i \<longrightarrow> i < length (tn_chars n1) \<and> tn_chars n1 ! i = c \<and> trie_wf (tn_children n1 ! i))"
proof (cases "c \<in> set (tn_chars n)")
  case True
  with child_exists [OF wf True, of al] wf res child_wf [OF wf] show ?thesis by auto
next
  case False
  note cc = child_create [OF wf c False res]
  have "child n c = None" using trie_wfD(2) [OF wf] False by (simp add: child_def)
  then have "entry n1 v = entry n v" for v
    using cc entry_Cons [of n1] entry_Cons [OF wf]
    by (cases v) (auto simp: entry_Nil entry_create split: option.splits)
  moreover have "trie_wf node_create" by (simp add: node_create_def)
  ultimately show ?thesis using cc by (auto simp: fun_eq_iff)
qed

text \<open>Whatever allocations fail: if the node is not damaged, the word is counted or nothing changes.\<close>

lemma insert_path_sound:
  assumes "trie_wf n" "ascii w" "insert_path al d n w = Some (ok, new, n')"
  shows "trie_wf n' \<and> (w \<noteq> [] \<longrightarrow> tn_end n' = tn_end n) \<and>
    (new \<longleftrightarrow> ok \<and> entry n w = None) \<and> entry n' = (if ok then bumped (entry n) w else entry n)"
  using assms
proof (induction w arbitrary: d n ok new n')
  case Nil
  let ?n = "TNode (tn_chars n) (tn_children n) (tn_nalloc n) True (tn_freq n + 1)"
  note w = trie_wfD [OF Nil.prems(1)]
  have wf: "trie_wf ?n" using w by auto
  have "entry ?n v = bumped (entry n) [] v" for v
  proof (cases v)
    case Nil
    then show ?thesis using w(5) by (auto simp: entry_Nil bumped_def)
  next
    case (Cons c v')
    have "child ?n = child n" by (simp add: child_def)
    then show ?thesis by (simp add: Cons entry_Cons [OF wf] entry_Cons [OF \<open>trie_wf n\<close>] bumped_def)
  qed
  with wf Nil.prems(3) show ?case by (auto simp: entry_Nil)
next
  case (Cons c w)
  have c: "0 < unat c" "unat c < 128" and asc: "ascii w" using Cons.prems(2) by (simp_all add: ascii_def)
  from Cons.prems(3) obtain n1 r where r: "child_find_or_create (al d) n c = Some (n1, r)"
    by (auto simp: bind_eq_Some_conv)
  note n1 = child_step [OF Cons.prems(1) c r]
  show ?case
  proof (cases r)
    case None
    then show ?thesis using Cons.prems(3) n1 r by auto
  next
    case (Some i)
    define m where "m = tn_children n1 ! i"
    have i: "i < length (tn_chars n1)" "tn_chars n1 ! i = c" "trie_wf m" using n1 Some by (simp_all add: m_def)
    from Cons.prems(3) r Some obtain m' where m: "insert_path al (d + 1) m w = Some (ok, new, m')"
      and n': "n' = TNode (tn_chars n1) ((tn_children n1)[i := m']) (tn_nalloc n1) (tn_end n1) (tn_freq n1)"
      by (auto simp: bind_eq_Some_conv m_def)
    note m' = Cons.IH [OF i(3) asc m]
    have "child n1 c = Some m"
      using map_of_zip_nth [of "tn_chars n1" "tn_children n1" i] n1 trie_wfD [of n1] i by (simp add: child_def m_def)
    then have em: "entry n (c # v) = entry m v" for v using entry_Cons [of n1] n1 by simp
    have "entry n' v = (if ok then bumped (entry n) (c # w) else entry n) v" for v
    proof (cases v)
      case Nil
      have "entry n1 [] = entry n []" using n1 by simp
      then show ?thesis by (auto simp: n' Nil entry_Nil bumped_def split: if_splits)
    next
      case (Cons x v')
      show ?thesis
        using entry_update [of n1 i m' x v'] n1 i m' em by (auto simp: n' Cons bumped_def)
    qed
    then show ?thesis using n1 m' i wf_update_child [of n1 i m'] em by (auto simp: n')
  qed
qed

lemma insert_path_defined:
  assumes "trie_wf n" "ascii w" "\<forall>d. sane (al d)"
  shows "insert_path al d n w \<noteq> None"
  using assms(1,2)
proof (induction w arbitrary: d n)
  case (Cons c w)
  have c: "0 < unat c" "unat c < 128" and asc: "ascii w" using Cons.prems(2) by (simp_all add: ascii_def)
  have "child_find_or_create (al d) n c \<noteq> None"
    using assms(3) sane_harmless by (simp add: child_undefined_iff [OF Cons.prems(1)])
  then obtain n1 r where r: "child_find_or_create (al d) n c = Some (n1, r)" by auto
  show ?case
  proof (cases r)
    case None
    then show ?thesis using r by simp
  next
    case (Some i)
    with child_step [OF Cons.prems(1) c r] have "trie_wf (tn_children n1 ! i)" by blast
    from Cons.IH [OF this asc, of "d + 1"] show ?thesis using r Some by auto
  qed
qed simp

lemma clear_path_spec:
  assumes "trie_wf n" "find_node n w \<noteq> None"
  shows "trie_wf (clear_path n w) \<and> entry (clear_path n w) = (entry n)(w := None) \<and>
    (w \<noteq> [] \<longrightarrow> tn_end (clear_path n w) = tn_end n)"
  using assms
proof (induction w arbitrary: n)
  case Nil
  let ?n = "TNode (tn_chars n) (tn_children n) (tn_nalloc n) False 0"
  have wf: "trie_wf ?n" using trie_wfD [OF Nil.prems(1)] by auto
  have "entry ?n v = ((entry n)([] := None)) v" for v
  proof (cases v)
    case (Cons c v')
    have "child ?n = child n" by (simp add: child_def)
    then show ?thesis by (simp add: Cons entry_Cons [OF wf] entry_Cons [OF \<open>trie_wf n\<close>])
  qed (simp add: entry_Nil)
  with wf show ?case by auto
next
  case (Cons c w)
  note ix = trie_wfD(1,2) [OF Cons.prems(1)]
  show ?case
  proof (rule child_index_iff [OF ix, of c])
    fix i
    assume i: "i < length (tn_chars n)" "tn_chars n ! i = c" "child_index n c = int i" "child n c = Some (tn_children n ! i)"
    define m where "m = tn_children n ! i"
    have m: "trie_wf m" "find_node m w \<noteq> None"
      using child_wf [OF Cons.prems(1) i(4)] Cons.prems(2) i(3) by (simp_all add: m_def)
    note ih = Cons.IH [OF m]
    have em: "entry n (c # v) = entry m v" for v using entry_Cons [OF Cons.prems(1)] i(4) by (simp add: m_def)
    have "entry (clear_path n (c # w)) v = ((entry n)(c # w := None)) v" for v
    proof (cases v)
      case Nil
      then show ?thesis using i(3) by (simp add: entry_Nil)
    next
      case (Cons x v')
      show ?thesis
        using entry_update [OF \<open>trie_wf n\<close> i(1) conjunct1 [OF ih], of x v'] i(2,3) ih em by (auto simp: Cons m_def)
    qed
    then show ?thesis using wf_update_child [OF Cons.prems(1) i(1) conjunct1 [OF ih]] i(3) by (auto simp: m_def)
  qed (use Cons.prems(2) in simp)
qed

end
