(* ===== verification/Trie_Theorems.thy ===== *)
theory Trie_Theorems
  imports Trie_Correct "HOL-Library.Code_Target_Nat"
begin

text \<open>
  The trie as a map from words to frequencies that is edited by insertions and deletions, what
  the queries return, and completion as the ordered enumeration of the words with a prefix.
\<close>

section \<open>Edits\<close>

definition trie_rep :: "trie_t \<Rightarrow> (bytes \<rightharpoonup> u32) \<Rightarrow> bool" where
  "trie_rep t m \<longleftrightarrow> trie_wf (t_root t) \<and> entry (t_root t) = m \<and> m [] = None \<and>
     finite (dom m) \<and> t_word_count t = card (dom m)"

datatype trie_edit = Add_Word bytes | Delete_Word bytes

fun trie_step :: "(nat \<Rightarrow> node_alloc) \<times> trie_edit \<Rightarrow> trie_t \<Rightarrow> (bool \<times> trie_t) option" where
  "trie_step (al, Add_Word w) t = trie_insert al t w"
| "trie_step (al, Delete_Word w) t = Some (trie_delete t w)"

fun trie_effect :: "(nat \<Rightarrow> node_alloc) \<times> trie_edit \<Rightarrow> (bytes \<rightharpoonup> u32) \<Rightarrow> bytes \<rightharpoonup> u32" where
  "trie_effect (al, Add_Word w) m = bumped m w"
| "trie_effect (al, Delete_Word w) m = m(w := None)"

text \<open>Only ASCII words are inserted; and, for the stronger contract, the allocations fail together.\<close>

fun trie_ascii :: "(nat \<Rightarrow> node_alloc) \<times> trie_edit \<Rightarrow> bool" where
  "trie_ascii (al, Add_Word w) \<longleftrightarrow> ascii w"
| "trie_ascii (al, Delete_Word w) \<longleftrightarrow> True"

definition trie_legal :: "(nat \<Rightarrow> node_alloc) \<times> trie_edit \<Rightarrow> bool" where
  "trie_legal e \<longleftrightarrow> trie_ascii e \<and> (\<forall>d. sane (fst e d))"

lemma dom_bumped: "dom (bumped m w) = insert w (dom m)"
  by (auto simp: bumped_def)

lemma trie_rep_insert:
  assumes "trie_rep t m" "ascii w" "trie_insert al t w = Some (ok, t')"
  shows "trie_rep t' (if ok then bumped m w else m)"
proof (cases "w = []")
  case True
  then show ?thesis using assms by (auto simp: trie_insert_def)
next
  case False
  have r: "trie_wf (t_root t)" "entry (t_root t) = m" "m [] = None" "finite (dom m)" "t_word_count t = card (dom m)"
    using assms(1) by (simp_all add: trie_rep_def)
  from assms(3) False obtain new n' where n': "insert_path al 0 (t_root t) w = Some (ok, new, n')"
    "t' = \<lparr>t_root = n', t_word_count = t_word_count t + (if new then 1 else 0)\<rparr>"
    by (auto simp: trie_insert_def bind_eq_Some_conv)
  note s = insert_path_sound [OF r(1) assms(2) n'(1), unfolded r(2)]
  have "card (insert w (dom m)) = card (dom m) + (if m w = None then 1 else 0)"
    using r(4) by (auto simp: insert_absorb domI domIff)
  then show ?thesis
    using s r(3-5) False by (auto simp: n'(2) trie_rep_def dom_bumped) (simp_all add: bumped_def)
qed

lemma trie_rep_delete:
  assumes "trie_rep t m" "trie_delete t w = (ok, t')"
  shows "trie_rep t' (if ok then m(w := None) else m)"
proof (cases "w \<noteq> [] \<and> m w \<noteq> None")
  case True
  have r: "trie_wf (t_root t)" "entry (t_root t) = m" "m [] = None" "finite (dom m)" "t_word_count t = card (dom m)"
    using assms(1) by (simp_all add: trie_rep_def)
  from True obtain cur where cur: "find_node (t_root t) w = Some cur" "tn_end cur"
    using r(2) by (auto simp: entry_def split: option.splits if_splits)
  have "dom (m(w := None)) = dom m - {w}" by auto
  moreover have "card (dom m - {w}) = card (dom m) - 1" using True r(4) by (simp add: domIff)
  ultimately have "trie_rep \<lparr>t_root = clear_path (t_root t) w, t_word_count = t_word_count t - 1\<rparr> (m(w := None))"
    using clear_path_spec [OF r(1), of w] cur r(2-5) by (auto simp: trie_rep_def)
  then show ?thesis using cur True assms(2) by (auto simp: trie_delete_def)
next
  case False
  then have "trie_delete t w = (False, t)"
    using assms(1) by (auto simp: trie_rep_def trie_delete_def entry_def split: option.splits if_splits)
  then show ?thesis using assms by auto
qed

lemma trie_step_sound:
  assumes "trie_rep t m" "trie_ascii e" "trie_step e t = Some (ok, t')"
  shows "trie_rep t' (if ok then trie_effect e m else m)"
proof -
  obtain al ed where e: "e = (al, ed)" by (cases e)
  show ?thesis
    using assms trie_rep_insert [of t m _ al ok t'] trie_rep_delete [of t m _ ok t'] by (cases ed) (auto simp: e)
qed

interpretation words: sound_buffer trie_rep trie_ascii trie_step trie_effect
  by unfold_locales (rule trie_step_sound)

lemma trie_step_rep:
  assumes "trie_rep t m" "trie_legal e"
  shows "\<exists>ok t'. trie_step e t = Some (ok, t') \<and> trie_rep t' (if ok then trie_effect e m else m)"
proof -
  obtain al ed where e: "e = (al, ed)" by (cases e)
  have "trie_step e t \<noteq> None"
  proof (cases ed)
    case (Add_Word w)
    have "insert_path al 0 (t_root t) w \<noteq> None"
      using assms by (intro insert_path_defined) (simp_all add: e Add_Word trie_legal_def trie_rep_def)
    then show ?thesis by (auto simp: e Add_Word trie_insert_def)
  qed (simp add: e)
  then obtain ok t' where t': "trie_step e t = Some (ok, t')" by auto
  have "trie_ascii e" using assms(2) by (simp add: trie_legal_def)
  from trie_step_sound [OF assms(1) this t'] t' show ?thesis by blast
qed

interpretation sane_words: text_buffer trie_rep trie_legal trie_step trie_effect
  by unfold_locales (rule trie_step_rep)

lemma trie_queries:
  assumes "trie_rep t m"
  shows "trie_search t w \<longleftrightarrow> m w \<noteq> None" "trie_get_frequency t w = (case m w of None \<Rightarrow> 0 | Some f \<Rightarrow> f)"
    "trie_get_word_count t = card (dom m)" "trie_is_empty t \<longleftrightarrow> m = Map.empty"
proof -
  have r: "m = entry (t_root t)" "m [] = None" "finite (dom m)" "t_word_count t = card (dom m)"
    using assms by (auto simp: trie_rep_def)
  have nil: "w = [] \<Longrightarrow> m w = None" using r(2) by simp
  then show "trie_search t w \<longleftrightarrow> m w \<noteq> None"
    unfolding r(1) by (auto simp: trie_search_def entry_def split: option.splits)
  show "trie_get_frequency t w = (case m w of None \<Rightarrow> 0 | Some f \<Rightarrow> f)"
    using nil unfolding r(1) by (auto simp: trie_get_frequency_def entry_def split: option.splits)
  show "trie_get_word_count t = card (dom m)" "trie_is_empty t \<longleftrightarrow> m = Map.empty"
    using r(3,4) by (auto simp: trie_get_word_count_def trie_is_empty_def)
qed

section \<open>Enumeration\<close>

text \<open>The words below a node, depth first.\<close>

fun all_words :: "trie_node \<Rightarrow> bytes list" and child_words :: "u8 list \<Rightarrow> trie_node list \<Rightarrow> bytes list" where
  "all_words (TNode cs ns al fin fr) = (if fin then [[]] else []) @ child_words cs ns"
| "child_words (c # cs) (n # ns) = map ((#) c) (all_words n) @ child_words cs ns"
| "child_words _ _ = []"

lemma child_words_set:
  assumes "length ns = length cs" "distinct cs" "\<And>n. n \<in> set ns \<Longrightarrow> set (all_words n) = dom (entry n)"
  shows "w \<in> set (child_words cs ns)
    \<longleftrightarrow> (\<exists>c v n. w = c # v \<and> map_of (zip cs ns) c = Some n \<and> entry n v \<noteq> None)"
  using assms
proof (induction cs ns arbitrary: w rule: list_induct2')
  case (4 c cs n ns)
  have no: "map_of (zip cs ns) c = None" using "4.prems"(1,2) by (auto simp: map_of_eq_None_iff dest: set_zip_leftD)
  have IH: "w \<in> set (child_words cs ns)
      \<longleftrightarrow> (\<exists>c v n. w = c # v \<and> map_of (zip cs ns) c = Some n \<and> entry n v \<noteq> None)" for w
    using "4.prems" by (intro "4.IH") auto
  have "w \<in> set (map ((#) c) (all_words n)) \<longleftrightarrow> (\<exists>v. w = c # v \<and> entry n v \<noteq> None)"
    using "4.prems"(3) [of n] by (auto simp: image_iff domIff)
  then show ?case using no by (cases w; cases "hd w = c") (simp_all add: IH image_iff)
qed auto

lemma all_words_set: "trie_wf n \<Longrightarrow> set (all_words n) = dom (entry n)"
proof (induction n)
  case (TNode cs ns al fin fr)
  let ?n = "TNode cs ns al fin fr"
  note w = trie_wfD [OF TNode.prems, simplified]
  have sub: "\<And>n. n \<in> set ns \<Longrightarrow> set (all_words n) = dom (entry n)" using TNode.IH w(6) by blast
  have "w \<in> set (all_words ?n) \<longleftrightarrow> entry ?n w \<noteq> None" for w
  proof (cases w)
    case Nil
    have "[] \<notin> set (child_words cs ns)" using child_words_set [OF w(2,7) sub] by simp
    then show ?thesis by (simp add: Nil entry_Nil)
  next
    case (Cons c v)
    then show ?thesis using child_words_set [OF w(2,7) sub, of w] entry_Cons [OF TNode.prems, of c v]
      by (auto simp: child_def split: option.splits)
  qed
  then show ?case by auto
qed

definition lex_less :: "bytes \<Rightarrow> bytes \<Rightarrow> bool" where
  "lex_less v w \<longleftrightarrow> (v, w) \<in> lexord {(x, y). x < y}"

lemma lex_less_simps [simp]: "\<not> lex_less v []" "lex_less [] (c # w)"
  "lex_less (c # v) (d # w) \<longleftrightarrow> c < d \<or> c = d \<and> lex_less v w"
  by (auto simp: lex_less_def)

lemma lex_less_distinct: "sorted_wrt lex_less ws \<Longrightarrow> distinct ws"
proof (induction ws)
  case (Cons w ws)
  have "\<not> lex_less v v" for v by (induction v) simp_all
  then show ?case using Cons by auto
qed simp

lemma child_words_hd:
  "w \<in> set (child_words cs ns) \<Longrightarrow> \<exists>c v. w = c # v \<and> c \<in> set cs"
  by (induction cs ns rule: list_induct2') auto

lemma child_words_sorted:
  assumes "sorted_wrt (<) cs" "\<And>n. n \<in> set ns \<Longrightarrow> sorted_wrt lex_less (all_words n)"
  shows "sorted_wrt lex_less (child_words cs ns)"
  using assms
proof (induction cs ns rule: list_induct2')
  case (4 c cs n ns)
  then have "sorted_wrt lex_less (map ((#) c) (all_words n))" by (simp add: sorted_wrt_map)
  with 4 show ?case by (auto simp: sorted_wrt_append dest!: child_words_hd)
qed auto

lemma all_words_sorted: "trie_wf n \<Longrightarrow> sorted_wrt lex_less (all_words n)"
proof (induction n)
  case (TNode cs ns al fin fr)
  note w = trie_wfD [OF TNode.prems, simplified]
  have "sorted_wrt lex_less (child_words cs ns)"
    using TNode.IH w(1,6) by (intro child_words_sorted) auto
  then show ?case by (auto simp: sorted_wrt_append dest: child_words_hd)
qed

definition fits_buf :: "bytes \<Rightarrow> bytes \<Rightarrow> bool" where
  "fits_buf buf w \<longleftrightarrow> length buf + length w < buf_max"

text \<open>Adding to the array up to the limit is undefined when it goes beyond the slots.\<close>

definition stored :: "nat \<Rightarrow> nat \<Rightarrow> bytes list \<Rightarrow> bytes list \<Rightarrow> bytes list option" where
  "stored k slots found ws =
     (let r = found @ take (k - length found) ws in if length r \<le> slots then Some r else None)"

lemma stored_Nil: "length found \<le> slots \<Longrightarrow> stored k slots found [] = Some found"
  by (simp add: stored_def)

lemma stored_full: "k \<le> length found \<Longrightarrow> length found \<le> slots \<Longrightarrow> stored k slots found ws = Some found"
  by (simp add: stored_def)

lemma stored_Cons:
  "length found < k \<Longrightarrow> length found \<le> slots \<Longrightarrow>
   stored k slots found (w # ws) = (if length found < slots then stored k slots (found @ [w]) ws else None)"
  using Suc_diff_Suc [of "length found" k, symmetric] by (auto simp: stored_def Let_def)

lemma stored_append:
  assumes "length found \<le> k" "length found \<le> slots"
  shows "stored k slots found (xs @ ys) = do { f \<leftarrow> stored k slots found xs; stored k slots f ys }"
  using assms
proof (induction xs arbitrary: found)
  case Nil
  then show ?case by (simp add: stored_Nil)
next
  case (Cons x xs)
  then show ?case
    by (cases "length found = k") (simp_all add: stored_full stored_Cons)
qed

lemma stored_le: "length found \<le> k \<Longrightarrow> stored k slots found ws = Some f \<Longrightarrow> length f \<le> k \<and> length f \<le> slots"
  by (auto simp: stored_def Let_def split: if_splits)

abbreviation below :: "(bytes \<Rightarrow> bool) \<Rightarrow> bytes \<Rightarrow> bytes list \<Rightarrow> bytes list" where
  "below dup buf ws \<equiv> filter dup (map ((@) buf) (filter (fits_buf buf) ws))"

lemma collect_words:
  "length buf < buf_max \<Longrightarrow> length found \<le> k \<Longrightarrow> length found \<le> slots \<Longrightarrow>
     collect k slots dup n buf found = stored k slots found (below dup buf (all_words n))"
  "length buf < buf_max \<Longrightarrow> length found \<le> k \<Longrightarrow> length found \<le> slots \<Longrightarrow>
     collect_children k slots dup cs ns buf found = stored k slots found (below dup buf (child_words cs ns))"
proof (induction n and cs ns arbitrary: buf found and buf found rule: all_words_child_words.induct)
  case (1 cs ns al fin fr)
  show ?case
  proof (cases "length found = k")
    case True
    then show ?thesis using "1.prems" by (simp add: stored_full)
  next
    case False
    let ?ws = "below dup buf (child_words cs ns)"
    have lt: "length found < k" using False "1.prems"(2) by simp
    have IH: "length f \<le> k \<Longrightarrow> length f \<le> slots \<Longrightarrow> collect_children k slots dup cs ns buf f = stored k slots f ?ws" for f
      using "1.IH" "1.prems"(1) by blast
    have "below dup buf (all_words (TNode cs ns al fin fr)) = (if fin \<and> dup buf then buf # ?ws else ?ws)"
      using "1.prems"(1) by (simp add: fits_buf_def)
    then show ?thesis using lt "1.prems"(3) by (simp add: stored_Cons IH)
  qed
next
  case (2 c cs n ns)
  show ?case
  proof (cases "length found < k \<and> length buf + 1 < buf_max")
    case True
    have "filter (fits_buf buf) (map ((#) c) ws) = map ((#) c) (filter (fits_buf (buf @ [c])) ws)" for ws
      by (induction ws) (auto simp: fits_buf_def)
    moreover have "(@) buf \<circ> (#) c = (@) (buf @ [c])" by (simp add: fun_eq_iff)
    ultimately have split: "below dup buf (child_words (c # cs) (n # ns)) =
        below dup (buf @ [c]) (all_words n) @ below dup buf (child_words cs ns)"
      by simp
    have "collect k slots dup n (buf @ [c]) found = stored k slots found (below dup (buf @ [c]) (all_words n))"
      using True "2.prems" by (intro "2.IH"(1)) simp_all
    moreover have "collect_children k slots dup cs ns buf f = stored k slots f (below dup buf (child_words cs ns))"
      if "stored k slots found (below dup (buf @ [c]) (all_words n)) = Some f" for f
      using "2.IH"(2) [OF "2.prems"(1)] stored_le [OF "2.prems"(2) that] by blast
    ultimately show ?thesis unfolding split stored_append [OF "2.prems"(2,3)]
      using True by (auto intro!: bind_option_cong)
  next
    case False
    have "filter (fits_buf buf) (child_words (c # cs) (n # ns)) = []" if "buf_max \<le> length buf + 1"
      using that child_words_hd [of _ "c # cs" "n # ns"] by (fastforce simp: fits_buf_def filter_empty_conv)
    with False "2.prems" show ?thesis by (auto simp: not_less stored_full stored_Nil simp del: child_words.simps)
  qed
qed (auto simp: stored_Nil)

lemma find_node_append:
  "find_node n (p @ v) = (case find_node n p of None \<Rightarrow> None | Some m \<Rightarrow> find_node m v)"
  by (induction p arbitrary: n) (simp_all add: Let_def)

lemma find_node_wf: "trie_wf n \<Longrightarrow> find_node n p = Some m \<Longrightarrow> trie_wf m"
proof (induction p arbitrary: n)
  case (Cons c p)
  then show ?case using find_node_Cons [OF Cons.prems(1), of c p] child_wf [OF Cons.prems(1)]
    by (auto split: option.splits simp del: find_node.simps)
qed simp

lemma lex_less_append [simp]: "lex_less (p @ v) (p @ w) \<longleftrightarrow> lex_less v w"
  by (induction p) simp_all

lemma child_overflow:
  assumes "128 \<le> length (tn_chars n)" "length (tn_chars n) \<le> 255" "c \<notin> set (tn_chars n)"
  shows "child_find_or_create (True, True, True) n c = None"
proof -
  have "child_index n c = -1" using assms(3) by (simp add: child_index_def bsearch_missing)
  moreover have "sint (word_of_nat (length (tn_chars n)) :: 8 word) < 0"
  proof -
    have "(int (length (tn_chars n)) - 128 + 256) mod 256 = int (length (tn_chars n)) - 128"
      using assms(1,2) by (subst mod_add_self2) (simp add: mod_pos_pos_trivial)
    then have "signed_take_bit 7 (int (length (tn_chars n))) = int (length (tn_chars n)) - 256"
      by (simp add: signed_take_bit_eq_take_bit_shift take_bit_eq_mod add.commute)
    then show ?thesis using assms(2) by (simp add: signed_of_nat)
  qed
  ultimately show ?thesis by (simp add: child_find_or_create_def Let_def)
qed

lemma child_no_failure:
  "child_find_or_create (True, True, True) n c = Some (n', r) \<Longrightarrow> r \<noteq> None"
  by (auto simp: child_find_or_create_def Let_def split: if_splits)

lemma insert_path_no_failure:
  "(\<And>d. al d = (True, True, True)) \<Longrightarrow> insert_path al d n w = Some (ok, new, n') \<Longrightarrow> ok"
proof (induction w arbitrary: d n ok new n')
  case (Cons c w)
  from Cons.prems(2) obtain m r where r: "child_find_or_create (al d) n c = Some (m, r)"
    by (auto simp: bind_eq_Some_conv)
  with child_no_failure [of n c m r] Cons.prems(1) obtain i where "r = Some i" by auto
  with r Cons.prems(2) obtain ch where "insert_path al (d + 1) (tn_children m ! i) w = Some (ok, new, ch)"
    by (auto simp: bind_eq_Some_conv)
  from Cons.IH [OF Cons.prems(1) this] show ?case .
qed simp

section \<open>Theorems\<close>

text \<open>(C27) Starting from a trie that represents a map from words to frequencies, take any sequence
  of insertions of ASCII words and deletions of arbitrary words, with any outcome of every
  allocation.  If the run is defined, each edit either reported success and had its effect on the map
  (an insertion adds one to the word's 32-bit frequency, a deletion forgets the word) or reported
  failure and left the map as it was, and the queries answer from the resulting map.  The run is
  defined when in each insertion the two reallocations of a node both succeed or both fail and nodes
  are created.  Other outcomes can leave a node that is no longer a tree node, and the theorem says
  which: for a missing child, one of two reallocations succeeded on a node that has arrays, so that
  the freed array is still referenced, or the new node could not be allocated after two or more
  entries had been moved.  The restriction to ASCII is needed: a node with 128 or more children makes
  the \<^verbatim>\<open>int8_t\<close> position negative and the write falls in front of the arrays.\<close>

theorem trie_words_refine:
  "(\<forall>t m es. trie_rep t m \<longrightarrow> list_all trie_ascii es \<longrightarrow>
      (\<forall>oks t' m'. words.run es t = Some (oks, t') \<longrightarrow> m' = words.replay (zip es oks) m \<longrightarrow>
         length oks = length es \<and> trie_rep t' m' \<and>
         (\<forall>w. trie_search t' w = (m' w \<noteq> None)) \<and>
         (\<forall>w. trie_get_frequency t' w = (case m' w of None \<Rightarrow> 0 | Some f \<Rightarrow> f)) \<and>
         trie_get_word_count t' = card (dom m') \<and> trie_is_empty t' = (m' = Map.empty)) \<and>
      (list_all (\<lambda>(al, e). \<forall>d. sane (al d)) es \<longrightarrow> words.run es t \<noteq> None)) \<and>
   (\<forall>t m w. trie_rep t m \<longrightarrow> ascii w \<longrightarrow> w \<noteq> [] \<longrightarrow>
      (\<exists>t'. trie_insert (\<lambda>_. (True, True, True)) t w = Some (True, t') \<and> trie_rep t' (bumped m w))) \<and>
   (\<forall>t m w. trie_rep t m \<longrightarrow> fst (trie_delete t w) = (m w \<noteq> None)) \<and>
   (\<forall>nc np created n c. trie_wf n \<longrightarrow>
      child_find_or_create (nc, np, created) n c = None \<longleftrightarrow>
      c \<notin> set (tn_chars n) \<and>
      (if length (tn_chars n) = tn_nalloc n \<and> \<not> (nc \<and> np) then nc \<noteq> np \<and> 0 < tn_nalloc n
       else \<not> created \<and> shift_pos (tn_chars n) c (length (tn_chars n)) + 1 < length (tn_chars n))) \<and>
   (\<forall>n c. 128 \<le> length (tn_chars n) \<longrightarrow> length (tn_chars n) \<le> 255 \<longrightarrow> c \<notin> set (tn_chars n) \<longrightarrow>
      child_find_or_create (True, True, True) n c = None)"
proof (intro conjI allI impI)
  fix t m and es assume es: "trie_rep t m" "list_all trie_ascii es" "list_all (\<lambda>(al, e). \<forall>d. sane (al d)) es"
  from es(2,3) have "list_all trie_legal es" by (induction es) (auto simp: trie_legal_def)
  with sane_words.run_replays [OF es(1)] show "words.run es t \<noteq> None" by fastforce
next
  fix t m and w :: bytes assume w: "trie_rep t m" "ascii w" "w \<noteq> []"
  let ?al = "\<lambda>_ :: nat. (True, True, True)"
  have legal: "trie_legal (?al, Add_Word w)" using w(2) by (simp add: trie_legal_def sane_def)
  obtain ok t' where t': "trie_insert ?al t w = Some (ok, t')" "trie_rep t' (if ok then bumped m w else m)"
    using trie_step_rep [OF w(1) legal] by (simp only: trie_step.simps trie_effect.simps) blast
  moreover have ok
    using t'(1) w(3) insert_path_no_failure [of ?al] by (auto simp: trie_insert_def bind_eq_Some_conv)
  ultimately show "\<exists>t'. trie_insert ?al t w = Some (True, t') \<and> trie_rep t' (bumped m w)"
    by simp
next
  fix t m and w :: bytes assume "trie_rep t m"
  then show "fst (trie_delete t w) = (m w \<noteq> None)"
    by (auto simp: trie_rep_def trie_delete_def entry_def split: option.splits)
qed (use words.run_sound trie_queries in \<open>auto simp: child_undefined_iff damages_def child_overflow\<close>)

lemma empty_trie: "trie_create True True = Some \<lparr>t_root = node_create, t_word_count = 0\<rparr>"
  "trie_rep \<lparr>t_root = node_create, t_word_count = 0\<rparr> Map.empty"
  by (simp_all add: trie_create_def trie_rep_def entry_create fun_eq_iff) (simp add: node_create_def)

theorem trie_words_refine_witness:
  "\<exists>t'. trie_insert (\<lambda>_. (True, True, True)) \<lparr>t_root = node_create, t_word_count = 0\<rparr> [0x61, 0x62] = Some (True, t') \<and>
     trie_rep t' [[0x61, 0x62] \<mapsto> 1]"
proof -
  have "ascii [0x61, 0x62]" by (simp add: ascii_def)
  moreover have "bumped Map.empty [0x61, 0x62] = [[0x61, 0x62] \<mapsto> 1]" by (simp add: bumped_def)
  ultimately show ?thesis using trie_words_refine [THEN conjunct2, THEN conjunct1, rule_format, OF empty_trie(2), of "[0x61, 0x62]"] by simp
qed

text \<open>(C28) Completion: for a trie that represents a map and a limit \<open>k\<close> of 1 to \<open>2 ^ 59\<close>, the
  suggestions for a prefix are the first \<open>k\<close> words, in byte-wise lexicographic order, among those of
  the map that start with the prefix, are shorter than the buffer and could be copied to the arena;
  NULL is returned exactly when there is no such word, and nothing is stored behind the array.  The
  two arena allocations are assumed to succeed.  The bound on \<open>k\<close> matters: the size of the array is
  computed with a product that wraps around, and for the limit \<open>2 ^ 61 + 1\<close> the array has one slot, so
  that a second suggestion is stored behind it.\<close>

theorem trie_autocomplete_correct:
  assumes "trie_rep t m" "length prefix < buf_max"
  shows "\<exists>ws. sorted_wrt lex_less ws \<and> distinct ws \<and>
    set ws = {w \<in> dom m. take (length prefix) w = prefix \<and> length w < buf_max \<and> dup w} \<and>
    (\<forall>k. k \<noteq> 0 \<and> unat k \<le> 2 ^ 59 \<longrightarrow>
       trie_autocomplete True True dup t prefix k = Some (if ws = [] then None else Some (take (unat k) ws))) \<and>
    (2 \<le> length ws \<longrightarrow> trie_autocomplete True True dup t prefix (2 ^ 61 + 1) = None)"
proof -
  have r: "trie_wf (t_root t)" "m = entry (t_root t)" using assms(1) by (auto simp: trie_rep_def)
  have pre: "take (length prefix) w = prefix \<longleftrightarrow> (\<exists>v. w = prefix @ v)" for w
    by (metis append_eq_conv_conj append_take_drop_id)
  show ?thesis
  proof (cases "find_node (t_root t) prefix")
    case None
    then have "m (prefix @ v) = None" for v by (simp add: r(2) entry_def find_node_append)
    then show ?thesis using None by (intro exI [of _ "[]"]) (auto simp: pre trie_autocomplete_def)
  next
    case (Some n)
    define ws where "ws = below dup prefix (all_words n)"
    note wf = find_node_wf [OF r(1) Some]
    have sorted: "sorted_wrt lex_less ws"
      using all_words_sorted [OF wf] by (simp add: ws_def sorted_wrt_map sorted_wrt_filter)
    have "distinct ws"
      using sorted by (rule lex_less_distinct)
    moreover have "m (prefix @ v) = entry n v" for v by (simp add: r(2) entry_def find_node_append Some)
    then have "set ws = {w \<in> dom m. take (length prefix) w = prefix \<and> length w < buf_max \<and> dup w}"
      using all_words_set [OF wf] by (auto simp: ws_def pre fits_buf_def domIff)
    moreover have col: "collect k slots dup n prefix [] = stored k slots [] ws" for k slots
      using collect_words(1) [of prefix "[]" k slots dup n] assms(2) by (simp add: ws_def)
    have "trie_autocomplete True True dup t prefix k = Some (if ws = [] then None else Some (take (unat k) ws))"
      if k: "k \<noteq> 0 \<and> unat k \<le> 2 ^ 59" for k
    proof -
      have "unat (8 * k) = 8 * unat k" using k by (subst unat_mult_no_wrap) simp_all
      then have "unat (8 * k) div 8 = unat k" by simp
      moreover have "0 < unat k" using k by (simp add: unat_gt_0)
      moreover have "8 * k \<noteq> 0" using calculation by (metis div_0 less_numeral_extra(3) unat_0)
      ultimately show ?thesis using k Some assms(2) col by (simp add: trie_autocomplete_def stored_def)
    qed
    moreover have "2 \<le> length ws \<longrightarrow> trie_autocomplete True True dup t prefix (2 ^ 61 + 1) = None"
      using Some assms(2) col by (simp add: trie_autocomplete_def stored_def min_def)
    ultimately show ?thesis using sorted by blast
  qed
qed

lemma one_word_trie:
  "trie_rep \<lparr>t_root = TNode [0x61] [TNode [] [] 0 True 1] 2 False 0, t_word_count = 1\<rparr> [[0x61] \<mapsto> 1]"
proof -
  let ?n = "TNode [0x61] [TNode [] [] 0 True 1] 2 False 0"
  have "entry ?n w = [[0x61] \<mapsto> 1] w" for w
  proof (cases w)
    case (Cons c v)
    then show ?thesis using entry_Cons [of ?n c v] by (cases v) (simp_all add: child_def entry_Nil entry_Cons)
  qed (simp add: entry_Nil)
  then show ?thesis by (simp add: trie_rep_def fun_eq_iff)
qed

theorem trie_autocomplete_correct_witness:
  "\<exists>ws. ws \<noteq> [] \<and> trie_autocomplete True True (\<lambda>_. True)
     \<lparr>t_root = TNode [0x61] [TNode [] [] 0 True 1] 2 False 0, t_word_count = 1\<rparr> [0x61] 3 = Some (Some (take 3 ws))"
proof -
  have "length [0x61 :: u8] < buf_max" by (simp add: buf_max_def)
  from trie_autocomplete_correct [OF one_word_trie this, of "\<lambda>_. True"] obtain ws where
    ws: "set ws = {w \<in> dom [[0x61] \<mapsto> (1 :: u32)]. take (length [0x61 :: u8]) w = [0x61] \<and> length w < buf_max \<and> True}"
    "\<forall>k. k \<noteq> 0 \<and> unat k \<le> 2 ^ 59 \<longrightarrow> trie_autocomplete True True (\<lambda>_. True)
     \<lparr>t_root = TNode [0x61] [TNode [] [] 0 True 1] 2 False 0, t_word_count = 1\<rparr> [0x61] k
       = Some (if ws = [] then None else Some (take (unat k) ws))" by blast
  have "[0x61] \<in> set ws" unfolding ws(1) by (simp add: buf_max_def)
  then have "ws \<noteq> []" by auto
  with spec [OF ws(2), of 3] show ?thesis by auto
qed

end
