(* ===== verification/Transition_Spec.thy ===== *)
theory Transition_Spec
  imports Prelude
begin

text \<open>
  Interleaved execution: a step relation whose result is \<open>None\<close> when the step has undefined
  behaviour, the states reachable from the initial ones, and the invariant principle.  A client
  supplies an invariant and shows that it holds initially and that no step from a state that
  satisfies it is undefined or breaks it.
\<close>

locale transition_system =
  fixes init :: "'s \<Rightarrow> bool"
    and step :: "'s \<Rightarrow> 's option \<Rightarrow> bool"
begin

inductive reachable :: "'s \<Rightarrow> bool" where
  start: "init s \<Longrightarrow> reachable s"
| move: "reachable s \<Longrightarrow> step s (Some t) \<Longrightarrow> reachable t"

inductive steps :: "'s \<Rightarrow> 's \<Rightarrow> bool" where
  stay: "steps s s"
| more: "step s (Some t) \<Longrightarrow> steps t u \<Longrightarrow> steps s u"

lemma steps_trans: "steps s t \<Longrightarrow> steps t u \<Longrightarrow> steps s u"
  by (induction rule: steps.induct) (auto intro: steps.intros)

lemma steps_one: "step s (Some t) \<Longrightarrow> steps s t"
  by (auto intro: steps.intros)

lemma reachable_steps: "steps s t \<Longrightarrow> reachable s \<Longrightarrow> reachable t"
  by (induction rule: steps.induct) (auto intro: reachable.intros)

end

locale invariant_system = transition_system init step
  for init :: "'s \<Rightarrow> bool" and step :: "'s \<Rightarrow> 's option \<Rightarrow> bool" +
  fixes inv :: "'s \<Rightarrow> bool"
  assumes init_inv: "init s \<Longrightarrow> inv s"
    and step_inv: "inv s \<Longrightarrow> step s r \<Longrightarrow> \<exists>t. r = Some t \<and> inv t"
begin

lemma reachable_inv: "reachable s \<Longrightarrow> inv s"
  by (induction rule: reachable.induct) (auto dest: init_inv step_inv)

lemma reachable_defined: "reachable s \<Longrightarrow> \<not> step s None"
  using reachable_inv step_inv by fastforce

lemma steps_inv: "steps s t \<Longrightarrow> inv s \<Longrightarrow> inv t"
  by (induction rule: steps.induct) (auto dest: step_inv)

end

end
