(* ===== verification/Spinlock.thy ===== *)
theory Spinlock
  imports Transition_Spec
begin

text \<open>
  The reader-writer spinlock of \<^verbatim>\<open>include/spinlock.h\<close>.  The two acquiring functions are loops over
  atomic accesses, so they are step functions: one call executes the code between two accesses
  and returns the next program point; \<open>spurious\<close> says that a weak compare-and-exchange fails
  although the values agree.  \<open>None\<close> is the signed overflow of \<^verbatim>\<open>state + 1\<close>.  The threads
  interleave at these accesses; a thread releases only what it holds, as the interface demands.
\<close>

section \<open>The lock\<close>

record fast_rwlock_t =
  rw_state :: int

definition INT_MIN :: int where "INT_MIN = - (2 ^ 31)"

definition fast_rwlock_init :: fast_rwlock_t where
  "fast_rwlock_init = \<lparr>rw_state = 0\<rparr>"

definition compare_exchange_weak :: "bool \<Rightarrow> int \<Rightarrow> int \<Rightarrow> fast_rwlock_t \<Rightarrow> bool \<times> fast_rwlock_t" where
  "compare_exchange_weak spurious expected desired l =
     (if \<not> spurious \<and> rw_state l = expected then (True, l\<lparr>rw_state := desired\<rparr>) else (False, l))"

text \<open>Program points: outside, before the load and the exchange of a reader, inside as a reader,
  before the exchange of a writer, inside as a writer.\<close>

datatype rw_pc = Outside | Rd_Load | Rd_Cas int | Reading | Wr_Cas | Writing

fun fast_rwlock_rdlock :: "bool \<Rightarrow> rw_pc \<Rightarrow> fast_rwlock_t \<Rightarrow> (rw_pc \<times> fast_rwlock_t) option" where
  "fast_rwlock_rdlock spurious Rd_Load l =
     Some (if rw_state l < 0 then (Rd_Load, l) else (Rd_Cas (rw_state l), l))"
| "fast_rwlock_rdlock spurious (Rd_Cas state) l =
     (if state = INT_MAX then None
      else let (ok, l') = compare_exchange_weak spurious state (state + 1) l
           in Some (if ok then Reading else Rd_Load, l'))"
| "fast_rwlock_rdlock spurious pc l = Some (pc, l)"

definition fast_rwlock_unlock_rd :: "fast_rwlock_t \<Rightarrow> fast_rwlock_t" where
  "fast_rwlock_unlock_rd l = l\<lparr>rw_state := (if rw_state l = INT_MIN then INT_MAX else rw_state l - 1)\<rparr>"

fun fast_rwlock_wrlock :: "bool \<Rightarrow> rw_pc \<Rightarrow> fast_rwlock_t \<Rightarrow> rw_pc \<times> fast_rwlock_t" where
  "fast_rwlock_wrlock spurious Wr_Cas l =
     (let (ok, l') = compare_exchange_weak spurious 0 (-1) l in (if ok then Writing else Wr_Cas, l'))"
| "fast_rwlock_wrlock spurious pc l = (pc, l)"

definition fast_rwlock_unlock_wr :: "fast_rwlock_t \<Rightarrow> fast_rwlock_t" where
  "fast_rwlock_unlock_wr l = l\<lparr>rw_state := 0\<rparr>"

section \<open>Threads\<close>

record lock_sys =
  ls_lock :: fast_rwlock_t
  ls_pc :: "nat \<Rightarrow> rw_pc"

definition advance :: "lock_sys \<Rightarrow> nat \<Rightarrow> rw_pc \<times> fast_rwlock_t \<Rightarrow> lock_sys" where
  "advance s t r = \<lparr>ls_lock = snd r, ls_pc = (ls_pc s)(t := fst r)\<rparr>"

inductive lock_step :: "nat \<Rightarrow> lock_sys \<Rightarrow> lock_sys option \<Rightarrow> bool" for n where
  call_rd: "t < n \<Longrightarrow> ls_pc s t = Outside \<Longrightarrow> lock_step n s (Some (advance s t (Rd_Load, ls_lock s)))"
| call_wr: "t < n \<Longrightarrow> ls_pc s t = Outside \<Longrightarrow> lock_step n s (Some (advance s t (Wr_Cas, ls_lock s)))"
| run_rd: "t < n \<Longrightarrow> ls_pc s t = pc \<Longrightarrow> pc = Rd_Load \<or> (\<exists>st. pc = Rd_Cas st) \<Longrightarrow>
    lock_step n s (map_option (advance s t) (fast_rwlock_rdlock spurious pc (ls_lock s)))"
| run_wr: "t < n \<Longrightarrow> ls_pc s t = Wr_Cas \<Longrightarrow>
    lock_step n s (Some (advance s t (fast_rwlock_wrlock spurious Wr_Cas (ls_lock s))))"
| leave_rd: "t < n \<Longrightarrow> ls_pc s t = Reading \<Longrightarrow>
    lock_step n s (Some (advance s t (Outside, fast_rwlock_unlock_rd (ls_lock s))))"
| leave_wr: "t < n \<Longrightarrow> ls_pc s t = Writing \<Longrightarrow>
    lock_step n s (Some (advance s t (Outside, fast_rwlock_unlock_wr (ls_lock s))))"

inductive_cases lock_stepE: "lock_step n s r"

text \<open>Fewer threads than an \<^verbatim>\<open>int\<close> can count start outside.\<close>

definition lock_start :: "nat \<Rightarrow> lock_sys \<Rightarrow> bool" where
  "lock_start n s \<longleftrightarrow> n < 2 ^ 31 \<and> s = \<lparr>ls_lock = fast_rwlock_init, ls_pc = \<lambda>_. Outside\<rparr>"

definition readers :: "nat \<Rightarrow> lock_sys \<Rightarrow> nat set" where
  "readers n s = {t. t < n \<and> ls_pc s t = Reading}"

definition writers :: "nat \<Rightarrow> lock_sys \<Rightarrow> nat set" where
  "writers n s = {t. t < n \<and> ls_pc s t = Writing}"

section \<open>The invariant\<close>

definition lock_inv :: "nat \<Rightarrow> lock_sys \<Rightarrow> bool" where
  "lock_inv n s \<longleftrightarrow> n < 2 ^ 31 \<and>
     (writers n s = {} \<and> rw_state (ls_lock s) = int (card (readers n s)) \<or>
      readers n s = {} \<and> (\<exists>t. writers n s = {t}) \<and> rw_state (ls_lock s) = -1) \<and>
     (\<forall>t st. ls_pc s t = Rd_Cas st \<longrightarrow> 0 \<le> st \<and> st < int n)"

lemma finite_holders [simp]: "finite (readers n s)" "finite (writers n s)"
  by (simp_all add: readers_def writers_def)

lemma card_readers: "t < n \<Longrightarrow> ls_pc s t \<noteq> Reading \<Longrightarrow> card (readers n s) < n"
proof -
  assume "t < n" "ls_pc s t \<noteq> Reading"
  then have "readers n s \<subset> {..<n}" by (auto simp: readers_def)
  from psubset_card_mono [OF _ this] show ?thesis by simp
qed

lemma advance_simps [simp]:
  "rw_state (ls_lock (advance s t (pc, l))) = rw_state l"
  "ls_pc (advance s t (pc, l)) u = (if u = t then pc else ls_pc s u)"
  "readers n (advance s t (pc, l)) = (if pc = Reading \<and> t < n then insert t (readers n s) else readers n s - {t})"
  "writers n (advance s t (pc, l)) = (if pc = Writing \<and> t < n then insert t (writers n s) else writers n s - {t})"
  by (auto simp: advance_def readers_def writers_def)

lemma lock_inv_moves:
  assumes "lock_inv n s" "t < n" "ls_pc s t \<noteq> Reading" "ls_pc s t \<noteq> Writing" "pc \<noteq> Reading" "pc \<noteq> Writing"
    "\<And>st. pc = Rd_Cas st \<Longrightarrow> 0 \<le> st \<and> st < int n"
  shows "lock_inv n (advance s t (pc, ls_lock s))"
proof -
  have "t \<notin> readers n s" "t \<notin> writers n s" using assms(3,4) by (auto simp: readers_def writers_def)
  with assms(1,5-7) show ?thesis by (auto simp: lock_inv_def)
qed

lemma lock_step_inv:
  assumes inv: "lock_inv n s" and step: "lock_step n s r"
  shows "\<exists>s'. r = Some s' \<and> lock_inv n s'"
  using step
proof cases
  case (call_rd t)
  then show ?thesis using lock_inv_moves [OF inv, of t Rd_Load] by simp
next
  case (call_wr t)
  then show ?thesis using lock_inv_moves [OF inv, of t Wr_Cas] by simp
next
  case (run_rd t pc spurious)
  show ?thesis
  proof (cases pc)
    case Rd_Load
    have "lock_inv n (advance s t (Rd_Load, ls_lock s))"
      using lock_inv_moves [OF inv, of t Rd_Load] run_rd Rd_Load by simp
    moreover have "lock_inv n (advance s t (Rd_Cas (rw_state (ls_lock s)), ls_lock s))"
      if "\<not> rw_state (ls_lock s) < 0"
      using lock_inv_moves [OF inv, of t "Rd_Cas (rw_state (ls_lock s))"] run_rd Rd_Load that
        card_readers [of t n s] inv by (auto simp: lock_inv_def)
    ultimately show ?thesis using run_rd Rd_Load by auto
  next
    case (Rd_Cas st)
    have st: "0 \<le> st" "st < int n" using inv run_rd(2,3) Rd_Cas by (auto simp: lock_inv_def)
    then have "st \<noteq> INT_MAX" using inv by (simp add: INT_MAX_def lock_inv_def)
    moreover have "lock_inv n (advance s t (Rd_Load, ls_lock s))"
      using lock_inv_moves [OF inv, of t Rd_Load] run_rd Rd_Cas by simp
    moreover have "lock_inv n (advance s t (Reading, (ls_lock s)\<lparr>rw_state := st + 1\<rparr>))"
      if "rw_state (ls_lock s) = st"
    proof -
      have "t \<notin> readers n s" using run_rd(2,3) Rd_Cas by (auto simp: readers_def)
      then show ?thesis using inv that st run_rd(2) by (auto simp: lock_inv_def)
    qed
    ultimately show ?thesis using run_rd Rd_Cas by (auto simp: compare_exchange_weak_def)
  qed (use run_rd in auto)
next
  case (run_wr t spurious)
  have "lock_inv n (advance s t (Wr_Cas, ls_lock s))"
    using lock_inv_moves [OF inv, of t Wr_Cas] run_wr by simp
  moreover have "lock_inv n (advance s t (Writing, (ls_lock s)\<lparr>rw_state := - 1\<rparr>))"
    if "rw_state (ls_lock s) = 0"
    using inv that run_wr(2) by (auto simp: lock_inv_def)
  ultimately show ?thesis using run_wr by (auto simp: compare_exchange_weak_def)
next
  case (leave_rd t)
  then have t: "t \<in> readers n s" by (simp add: readers_def)
  then have "0 < card (readers n s)" by (auto simp: card_gt_0_iff)
  then have "int (card (readers n s - {t})) = int (card (readers n s)) - 1"
    using t by (simp add: of_nat_diff)
  then show ?thesis using inv leave_rd(1) t
    by (auto simp: lock_inv_def fast_rwlock_unlock_rd_def INT_MIN_def)
next
  case (leave_wr t)
  then have "t \<in> writers n s" by (simp add: writers_def)
  then show ?thesis using inv leave_wr(1)
    by (auto simp: lock_inv_def fast_rwlock_unlock_wr_def)
qed

interpretation slock: invariant_system "lock_start n" "lock_step n" "lock_inv n" for n
proof
  show "lock_inv n s" if "lock_start n s" for s
    using that by (auto simp: lock_start_def lock_inv_def fast_rwlock_init_def readers_def writers_def)
qed (rule lock_step_inv)

section \<open>Progress\<close>

text \<open>The holders can leave one after the other; nobody else moves.\<close>

lemma lock_drains:
  assumes "lock_inv n s"
  shows "\<exists>s'. slock.steps n s s' \<and> rw_state (ls_lock s') = 0 \<and>
    (\<forall>t. ls_pc s t \<noteq> Reading \<and> ls_pc s t \<noteq> Writing \<longrightarrow> ls_pc s' t = ls_pc s t)"
  using assms
proof (induction "card (readers n s) + card (writers n s)" arbitrary: s rule: less_induct)
  case less
  show ?case
  proof (cases "readers n s = {} \<and> writers n s = {}")
    case True
    then have "rw_state (ls_lock s) = 0" using less.prems by (auto simp: lock_inv_def)
    then show ?thesis by (auto intro: slock.stay)
  next
    case False
    then obtain t s1 where t: "t \<in> readers n s \<union> writers n s" and s1: "lock_step n s (Some s1)"
      and pcs: "ls_pc s1 = (ls_pc s)(t := Outside)"
    proof -
      from False obtain t where "t \<in> readers n s \<or> t \<in> writers n s" by blast
      then show thesis
      proof
        assume "t \<in> readers n s"
        then show thesis using that [OF _ lock_step.leave_rd [of t n s]] by (auto simp: readers_def advance_def)
      next
        assume "t \<in> writers n s"
        then show thesis using that [OF _ lock_step.leave_wr [of t n s]] by (auto simp: writers_def advance_def)
      qed
    qed
    have sets: "readers n s1 = readers n s - {t}" "writers n s1 = writers n s - {t}"
      by (auto simp: readers_def writers_def pcs)
    have "card (readers n s1) + card (writers n s1) < card (readers n s) + card (writers n s)"
      unfolding sets using t card_Diff1_less [of "readers n s" t] card_Diff1_less [of "writers n s" t]
        card_Diff1_le [of "readers n s" t] card_Diff1_le [of "writers n s" t] by (auto intro: add_less_le_mono add_le_less_mono)
    moreover have "lock_inv n s1" using lock_step_inv [OF less.prems s1] by simp
    ultimately obtain s' where s': "slock.steps n s1 s'" "rw_state (ls_lock s') = 0"
      "\<forall>t. ls_pc s1 t \<noteq> Reading \<and> ls_pc s1 t \<noteq> Writing \<longrightarrow> ls_pc s' t = ls_pc s1 t"
      using less.hyps [of s1] by blast
    have "ls_pc s' u = ls_pc s u" if "ls_pc s u \<noteq> Reading" "ls_pc s u \<noteq> Writing" for u
      using that s'(3) t by (cases "u = t") (auto simp: pcs readers_def writers_def)
    then show ?thesis using slock.more [OF s1 s'(1)] s'(2) by blast
  qed
qed

lemma free_lock_writer:
  assumes "rw_state (ls_lock s) = 0" "t < n" "ls_pc s t = Wr_Cas"
  shows "\<exists>s'. slock.steps n s s' \<and> ls_pc s' t = Writing"
  using slock.steps_one [OF lock_step.run_wr [OF assms(2,3), of False]] assms(1)
  by (auto simp: compare_exchange_weak_def)

lemma reader_exchange:
  assumes "rw_state (ls_lock s) = 0" "t < n" "ls_pc s t = Rd_Cas 0"
  shows "\<exists>s'. slock.steps n s s' \<and> ls_pc s' t = Reading"
  using slock.steps_one [of n s "advance s t (Reading, (ls_lock s)\<lparr>rw_state := 1\<rparr>)"]
    lock_step.run_rd [OF assms(2,3), of False] assms(1)
  by (auto simp: compare_exchange_weak_def INT_MAX_def)

lemma reader_load:
  assumes "rw_state (ls_lock s) = 0" "t < n" "ls_pc s t = Rd_Load"
  shows "\<exists>s'. slock.steps n s s' \<and> ls_pc s' t = Reading"
proof -
  let ?s = "advance s t (Rd_Cas 0, ls_lock s)"
  have "slock.steps n s ?s"
    using slock.steps_one [of n s ?s] lock_step.run_rd [OF assms(2,3), of False] assms(1) by simp
  moreover have "\<exists>s'. slock.steps n ?s s' \<and> ls_pc s' t = Reading"
    using assms(1,2) by (intro reader_exchange) simp_all
  ultimately show ?thesis using slock.steps_trans by blast
qed

lemma reader_retries:
  assumes "rw_state (ls_lock s) = 0" "t < n" "ls_pc s t = Rd_Cas st" "st \<noteq> INT_MAX"
  shows "\<exists>s'. slock.steps n s s' \<and> ls_pc s' t = Reading"
proof (cases "st = 0")
  case False
  let ?s = "advance s t (Rd_Load, ls_lock s)"
  have "slock.steps n s ?s"
    using slock.steps_one [of n s ?s] lock_step.run_rd [OF assms(2,3), of False] assms(1,4) False
    by (simp add: compare_exchange_weak_def)
  moreover have "\<exists>s'. slock.steps n ?s s' \<and> ls_pc s' t = Reading"
    using assms(1,2) by (intro reader_load) simp_all
  ultimately show ?thesis using slock.steps_trans by blast
qed (use reader_exchange assms in blast)

lemma waiting_enters:
  assumes "lock_inv n s" "t < n"
  shows "ls_pc s t = Wr_Cas \<Longrightarrow> \<exists>s'. slock.steps n s s' \<and> ls_pc s' t = Writing"
    and "ls_pc s t = Rd_Load \<or> (\<exists>st. ls_pc s t = Rd_Cas st) \<Longrightarrow> \<exists>s'. slock.steps n s s' \<and> ls_pc s' t = Reading"
proof -
  obtain s1 where s1: "slock.steps n s s1" "rw_state (ls_lock s1) = 0"
    "\<forall>t. ls_pc s t \<noteq> Reading \<and> ls_pc s t \<noteq> Writing \<longrightarrow> ls_pc s1 t = ls_pc s t"
    using lock_drains [OF assms(1)] by blast
  have inv1: "lock_inv n s1" using slock.steps_inv [OF s1(1) assms(1)] .
  { assume "ls_pc s t = Wr_Cas"
    then show "\<exists>s'. slock.steps n s s' \<and> ls_pc s' t = Writing"
      using free_lock_writer [of s1 t n] s1 assms(2) slock.steps_trans [OF s1(1)] by auto
  next
    assume w: "ls_pc s t = Rd_Load \<or> (\<exists>st. ls_pc s t = Rd_Cas st)"
    then have "ls_pc s1 t = ls_pc s t" using s1(3) by auto
    moreover have "st \<noteq> INT_MAX" if "ls_pc s1 t = Rd_Cas st" for st
    proof -
      have "st < int n" "n < 2 ^ 31" using inv1 that unfolding lock_inv_def by blast+
      then show ?thesis by (simp add: INT_MAX_def)
    qed
    ultimately show "\<exists>s'. slock.steps n s s' \<and> ls_pc s' t = Reading"
      using w reader_load [of s1 t n] reader_retries [of s1 t n] s1(2) assms(2)
        slock.steps_trans [OF s1(1)] by metis
  }
qed

section \<open>Theorems\<close>

text \<open>(C29) Mutual exclusion: in every state that any interleaving of fewer than \<open>2 ^ 31\<close> threads can
  reach, a writer inside excludes every other writer and every reader, the state word is the
  number of readers, or -1 with a writer inside, and no step is undefined.  Weak exchanges may
  fail spuriously at any time.\<close>

theorem spinlock_mutual_exclusion:
  assumes "slock.reachable n s"
  shows "\<not> lock_step n s None \<and>
    (\<forall>t u. t \<in> writers n s \<and> u \<in> readers n s \<union> writers n s \<longrightarrow> u = t) \<and>
    rw_state (ls_lock s) = (if writers n s = {} then int (card (readers n s)) else -1)"
  using slock.reachable_defined [OF assms] slock.reachable_inv [OF assms] by (auto simp: lock_inv_def)

lemma start_reachable: "slock.reachable 2 \<lparr>ls_lock = fast_rwlock_init, ls_pc = \<lambda>_. Outside\<rparr>"
  by (rule slock.start) (simp add: lock_start_def)

text \<open>Two threads, one of which waits to write while the other reads.\<close>

definition contended :: lock_sys where
  "contended = \<lparr>ls_lock = \<lparr>rw_state = 1\<rparr>, ls_pc = (\<lambda>_. Outside)(0 := Reading, 1 := Wr_Cas)\<rparr>"

lemma contended_reachable: "slock.reachable 2 contended"
proof -
  let ?s0 = "\<lparr>ls_lock = fast_rwlock_init, ls_pc = \<lambda>_. Outside\<rparr>"
  let ?s1 = "advance ?s0 1 (Wr_Cas, fast_rwlock_init)"
  let ?s2 = "advance ?s1 0 (Rd_Load, fast_rwlock_init)"
  let ?s3 = "advance ?s2 0 (Rd_Cas 0, fast_rwlock_init)"
  have "lock_step 2 ?s0 (Some ?s1)" using lock_step.call_wr [of 1 2 ?s0] by simp
  from slock.move [OF start_reachable this] have "slock.reachable 2 ?s1" .
  moreover have "lock_step 2 ?s1 (Some ?s2)" using lock_step.call_rd [of 0 2 ?s1] by (simp add: advance_def)
  ultimately have "slock.reachable 2 ?s2" by (rule slock.move)
  moreover have "lock_step 2 ?s2 (Some ?s3)"
    using lock_step.run_rd [of 0 2 ?s2 Rd_Load False] by (simp add: advance_def fast_rwlock_init_def)
  ultimately have "slock.reachable 2 ?s3" by (rule slock.move)
  moreover have "lock_step 2 ?s3 (Some contended)"
    using lock_step.run_rd [of 0 2 ?s3 "Rd_Cas 0" False]
    by (simp add: advance_def fast_rwlock_init_def compare_exchange_weak_def INT_MAX_def contended_def fun_upd_twist)
  ultimately show ?thesis by (rule slock.move)
qed

theorem spinlock_mutual_exclusion_witness:
  "slock.reachable 2 contended \<and> \<not> lock_step 2 contended None \<and>
   rw_state (ls_lock contended) = (if writers 2 contended = {} then int (card (readers 2 contended)) else -1)"
  using spinlock_mutual_exclusion [OF contended_reachable] contended_reachable by simp

text \<open>(C30) No deadlock: from every reachable state, the threads can run so that a given waiting
  writer gets the lock, and so that a given waiting reader does, whatever the others hold; the
  holders only have to leave and a stale exchange is retried.\<close>

theorem spinlock_progress:
  assumes "slock.reachable n s" "t < n"
  shows "(ls_pc s t = Wr_Cas \<longrightarrow> (\<exists>s'. slock.steps n s s' \<and> ls_pc s' t = Writing)) \<and>
    (ls_pc s t = Rd_Load \<or> (\<exists>st. ls_pc s t = Rd_Cas st) \<longrightarrow> (\<exists>s'. slock.steps n s s' \<and> ls_pc s' t = Reading))"
  using waiting_enters [OF slock.reachable_inv [OF assms(1)] assms(2)] by blast

theorem spinlock_progress_witness:
  "\<exists>s'. slock.steps 2 contended s' \<and> ls_pc s' 1 = Writing"
  using spinlock_progress [OF contended_reachable, of 1] by (simp add: contended_def)

end
