(* ===== verification/Cache.thy ===== *)
theory Cache
  imports Probe_Ring Byte_Strings Spinlock
begin

text \<open>
  The sharded cache of \<^verbatim>\<open>src/cache.c\<close>: 32 open-addressed tables with one tag byte and one entry
  pointer per slot, tombstones, CLOCK eviction and reference-counted entries that callers may
  hold after they have left the table.  Entries live on an explicit heap; \<open>None\<close> is undefined
  behaviour (a NULL or freed entry, a comparison past the end of a key).  The code of a
  critical section is one definition: the shard lock makes it atomic for the other
  threads, and \<^verbatim>\<open>cache_get\<close>, which may enter a second one, is modelled in two parts.
  Allocation outcomes and the clock are arguments.
\<close>

section \<open>Data\<close>

definition CACHE_SHARD_COUNT :: nat where "CACHE_SHARD_COUNT = 32"
definition CACHE_DEFAULT_TTL :: u32 where "CACHE_DEFAULT_TTL = 300"
definition INITIAL_BUCKET_MULTIPLIER :: size_t where "INITIAL_BUCKET_MULTIPLIER = 2"
definition CACHE_FILE_MAGIC :: nat where "CACHE_FILE_MAGIC = 0x45484346"
definition CACHE_FILE_VERSION :: nat where "CACHE_FILE_VERSION = 1"
definition TAG_EMPTY :: u8 where "TAG_EMPTY = 0x80"
definition TAG_DELETED :: u8 where "TAG_DELETED = 0x40"
definition TAG_CONTROL_MASK :: u8 where "TAG_CONTROL_MASK = 0xC0"
definition TAG_FRAGMENT_SHIFT :: nat where "TAG_FRAGMENT_SHIFT = 18"
definition TAG_FRAGMENT_MASK :: u32 where "TAG_FRAGMENT_MASK = 0x3F"

type_synonym addr = nat

text \<open>The flexible array \<^verbatim>\<open>data\<close> holds the key, the back pointer and the value.\<close>

record cache_entry_t =
  ce_hash :: u32
  ce_key_len :: u32
  ce_ref_count :: int
  ce_clock_bit :: u8
  ce_expires_at :: int
  ce_value_len :: nat
  ce_key :: bytes
  ce_back :: addr
  ce_value :: bytes

type_synonym entry_heap = "addr \<rightharpoonup> cache_entry_t"

record shard_t =
  sh_tags :: "u8 list"
  sh_entries :: "addr option list"
  sh_bucket_count :: nat
  sh_size :: nat
  sh_capacity :: nat
  sh_tombstone_count :: nat
  sh_clock_hand :: nat

record cache_s =
  c_shards :: "shard_t list"
  c_default_ttl :: u32

section \<open>Utility functions\<close>

definition next_power_of_2 :: "size_t \<Rightarrow> size_t" where
  "next_power_of_2 n = (if n \<noteq> 0 \<and> n AND (n - 1) = 0 then n else smear_all (n - 1) + 1)"

fun hash_loop :: "bytes \<Rightarrow> u32 \<Rightarrow> u32" where
  "hash_loop [] hash = hash"
| "hash_loop (b # p) hash = hash_loop p ((hash XOR ucast b) * 16777619)"

definition hash_key :: "bytes \<Rightarrow> u32" where
  "hash_key key = (let hash = hash_loop key 2166136261 in if hash < 2 then hash + 2 else hash)"

definition get_shard_idx :: "u32 \<Rightarrow> nat" where
  "get_shard_idx hash = unat ((hash XOR drop_bit 16 hash) AND (word_of_nat CACHE_SHARD_COUNT - 1))"

definition make_tag :: "u32 \<Rightarrow> u8" where
  "make_tag hash = ucast (drop_bit TAG_FRAGMENT_SHIFT hash AND TAG_FRAGMENT_MASK)"

text \<open>A value pointer is named by the entry it points into; the back pointer leads to the entry.\<close>

definition value_ptr_from_entry :: "addr \<Rightarrow> addr" where
  "value_ptr_from_entry a = a"

definition entry_from_value :: "entry_heap \<Rightarrow> addr \<Rightarrow> addr option" where
  "entry_from_value h p = map_option ce_back (h p)"

definition entry_ref_inc :: "entry_heap \<Rightarrow> addr \<Rightarrow> entry_heap option" where
  "entry_ref_inc h a = do {
     e \<leftarrow> h a;
     Some (h(a \<mapsto> e\<lparr>ce_ref_count := (if ce_ref_count e = INT_MAX then INT_MIN else ce_ref_count e + 1)\<rparr>)) }"

definition entry_ref_dec :: "entry_heap \<Rightarrow> addr \<Rightarrow> entry_heap option" where
  "entry_ref_dec h a = do {
     e \<leftarrow> h a;
     Some (if ce_ref_count e = 1 then h(a := None)
           else h(a \<mapsto> e\<lparr>ce_ref_count := (if ce_ref_count e = INT_MIN then INT_MAX else ce_ref_count e - 1)\<rparr>)) }"

text \<open>The number with the given bytes, least significant first, and its bytes.\<close>

fun le_nat :: "bytes \<Rightarrow> nat" where
  "le_nat [] = 0"
| "le_nat (b # bs) = unat b + 256 * le_nat bs"

fun le_bytes :: "nat \<Rightarrow> nat \<Rightarrow> bytes" where
  "le_bytes 0 n = []"
| "le_bytes (Suc k) n = word_of_nat n # le_bytes k (n div 256)"

definition keys_equal :: "bytes \<Rightarrow> bytes \<Rightarrow> nat \<Rightarrow> bool option" where
  "keys_equal k1 k2 len =
     (if length k1 < len \<or> length k2 < len then None
      else Some (
        if len = 8 \<or> len = 4 \<or> len = 2 then le_nat (take len k1) = le_nat (take len k2)
        else if len = 16 then le_nat (take 8 k1) = le_nat (take 8 k2) \<and>
          le_nat (take 8 (drop 8 k1)) = le_nat (take 8 (drop 8 k2))
        else if len = 1 then k1 ! 0 = k2 ! 0
        else take len k1 = take len k2))"

text \<open>The comparison of the packed metadata and then of the keys.\<close>

definition entry_meta :: "cache_entry_t \<Rightarrow> u64" where
  "entry_meta e = push_bit 32 (ucast (ce_key_len e)) OR ucast (ce_hash e)"

definition entry_matches :: "cache_entry_t \<Rightarrow> u32 \<Rightarrow> bytes \<Rightarrow> bool option" where
  "entry_matches e hash key =
     (if entry_meta e = push_bit 32 (word_of_nat (length key)) OR ucast hash
      then keys_equal (ce_key e) key (length key) else Some False)"

section \<open>Probing\<close>

fun find_loop ::
  "nat \<Rightarrow> entry_heap \<Rightarrow> shard_t \<Rightarrow> u32 \<Rightarrow> bytes \<Rightarrow> u8 \<Rightarrow> nat \<Rightarrow> nat option \<Rightarrow> (bool \<times> nat) option" where
  "find_loop 0 h s hash key target_tag idx first_tombstone =
     Some (False, case first_tombstone of Some t \<Rightarrow> t | None \<Rightarrow> idx)"
| "find_loop (Suc k) h s hash key target_tag idx first_tombstone =
     (let tag = sh_tags s ! idx; idx' = (idx + 1) AND (sh_bucket_count s - 1)
      in if tag = target_tag
         then do {
           a \<leftarrow> sh_entries s ! idx;
           e \<leftarrow> h a;
           eq \<leftarrow> entry_matches e hash key;
           if eq then Some (True, idx) else find_loop k h s hash key target_tag idx' first_tombstone }
         else if tag AND TAG_EMPTY \<noteq> 0
         then Some (False, case first_tombstone of Some t \<Rightarrow> t | None \<Rightarrow> idx)
         else if tag AND TAG_DELETED \<noteq> 0
         then find_loop k h s hash key target_tag idx' (if first_tombstone = None then Some idx else first_tombstone)
         else find_loop k h s hash key target_tag idx' first_tombstone)"

definition find_slot :: "entry_heap \<Rightarrow> shard_t \<Rightarrow> u32 \<Rightarrow> bytes \<Rightarrow> u8 \<Rightarrow> (bool \<times> nat) option" where
  "find_slot h s hash key target_tag =
     find_loop (sh_bucket_count s) h s hash key target_tag (unat hash AND (sh_bucket_count s - 1)) None"

text \<open>\<^verbatim>\<open>while (!(new_tags[idx] & TAG_EMPTY))\<close>: \<open>None\<close> when no slot is free.\<close>

fun probe_free :: "nat \<Rightarrow> u8 list \<Rightarrow> nat \<Rightarrow> nat option" where
  "probe_free 0 tags idx = None"
| "probe_free (Suc k) tags idx =
     (if tags ! idx AND TAG_EMPTY \<noteq> 0 then Some idx
      else probe_free k tags ((idx + 1) AND (length tags - 1)))"

fun compact_loop ::
  "nat \<Rightarrow> nat \<Rightarrow> entry_heap \<Rightarrow> shard_t \<Rightarrow> u8 list \<times> addr option list \<Rightarrow> (u8 list \<times> addr option list) option" where
  "compact_loop 0 i h s new = Some new"
| "compact_loop (Suc k) i h s new =
     (if sh_tags s ! i AND TAG_CONTROL_MASK \<noteq> 0 then compact_loop k (i + 1) h s new
      else do {
        a \<leftarrow> sh_entries s ! i;
        e \<leftarrow> h a;
        idx \<leftarrow> probe_free (sh_bucket_count s) (fst new) (unat (ce_hash e) AND (sh_bucket_count s - 1));
        compact_loop k (i + 1) h s ((fst new)[idx := make_tag (ce_hash e)], (snd new)[idx := Some a]) })"

definition compact_shard :: "bool \<times> bool \<Rightarrow> entry_heap \<Rightarrow> shard_t \<Rightarrow> shard_t option" where
  "compact_shard ok h s =
     (if \<not> fst ok then Some s
      else if \<not> snd ok then Some s
      else do {
        new \<leftarrow> compact_loop (sh_bucket_count s) 0 h s
          (replicate (sh_bucket_count s) TAG_EMPTY, replicate (sh_bucket_count s) None);
        Some (s\<lparr>sh_tags := fst new, sh_entries := snd new, sh_tombstone_count := 0, sh_clock_hand := 0\<rparr>) })"

text \<open>Turning a live slot into a tombstone.\<close>

definition bury :: "shard_t \<Rightarrow> nat \<Rightarrow> shard_t" where
  "bury s idx = s\<lparr>sh_tags := (sh_tags s)[idx := TAG_DELETED], sh_entries := (sh_entries s)[idx := None],
     sh_size := sh_size s - 1, sh_tombstone_count := sh_tombstone_count s + 1\<rparr>"

definition tick :: "shard_t \<Rightarrow> shard_t" where
  "tick s = s\<lparr>sh_clock_hand := (sh_clock_hand s + 1) AND (sh_bucket_count s - 1)\<rparr>"

section \<open>Eviction\<close>

fun clock_scan :: "nat \<Rightarrow> entry_heap \<Rightarrow> shard_t \<Rightarrow> (bool \<times> entry_heap \<times> shard_t) option" where
  "clock_scan 0 h s = Some (False, h, s)"
| "clock_scan (Suc k) h s =
     (let idx = sh_clock_hand s
      in if sh_tags s ! idx AND TAG_CONTROL_MASK \<noteq> 0 then clock_scan k h (tick s)
         else do {
           a \<leftarrow> sh_entries s ! idx;
           e \<leftarrow> h a;
           if ce_clock_bit e = 0
           then do { h' \<leftarrow> entry_ref_dec h a; Some (True, h', bury (tick s) idx) }
           else clock_scan k (h(a \<mapsto> e\<lparr>ce_clock_bit := 0\<rparr>)) (tick s) })"

fun clock_force :: "nat \<Rightarrow> entry_heap \<Rightarrow> shard_t \<Rightarrow> (bool \<times> entry_heap \<times> shard_t) option" where
  "clock_force 0 h s = Some (False, h, s)"
| "clock_force (Suc k) h s =
     (let idx = sh_clock_hand s
      in if sh_tags s ! idx AND TAG_CONTROL_MASK \<noteq> 0 then clock_force k h (tick s)
         else do {
           a \<leftarrow> sh_entries s ! idx;
           h' \<leftarrow> entry_ref_dec h a;
           Some (True, h', bury (tick s) idx) })"

definition clock_evict :: "entry_heap \<Rightarrow> shard_t \<Rightarrow> (bool \<times> entry_heap \<times> shard_t) option" where
  "clock_evict h s = do {
     (ok, h, s) \<leftarrow> clock_scan (sh_bucket_count s) h s;
     if ok then Some (True, h, s) else clock_force (sh_bucket_count s) h s }"

section \<open>Public interface\<close>

definition shard_create :: "size_t \<Rightarrow> shard_t" where
  "shard_create shard_cap =
     (let n = unat (next_power_of_2 (shard_cap * INITIAL_BUCKET_MULTIPLIER))
      in \<lparr>sh_tags = replicate n TAG_EMPTY, sh_entries = replicate n None, sh_bucket_count = n, sh_size = 0,
          sh_capacity = unat shard_cap, sh_tombstone_count = 0, sh_clock_hand = 0\<rparr>)"

text \<open>\<open>ok\<close> is the outcome of the first allocation, \<open>al i\<close> those of the two arrays of shard \<open>i\<close>.\<close>

definition cache_create :: "bool \<Rightarrow> (nat \<Rightarrow> bool \<times> bool) \<Rightarrow> size_t \<Rightarrow> u32 \<Rightarrow> cache_s option" where
  "cache_create ok al capacity default_ttl =
     (if \<not> ok then None
      else let capacity = (if capacity = 0 then 1000 else capacity);
               shard_cap = capacity div word_of_nat CACHE_SHARD_COUNT;
               shard_cap = (if shard_cap < 1 then 1 else shard_cap)
      in if \<exists>i<CACHE_SHARD_COUNT. al i \<noteq> (True, True) then None
         else Some \<lparr>c_shards = replicate CACHE_SHARD_COUNT (shard_create shard_cap),
                    c_default_ttl = (if default_ttl \<noteq> 0 then default_ttl else CACHE_DEFAULT_TTL)\<rparr>)"

definition key_shard :: "bytes \<Rightarrow> nat" where
  "key_shard key = get_shard_idx (hash_key key)"

definition with_shard :: "cache_s \<Rightarrow> bytes \<Rightarrow> shard_t \<Rightarrow> cache_s" where
  "with_shard c key s = c\<lparr>c_shards := (c_shards c)[key_shard key := s]\<rparr>"

definition find_key :: "entry_heap \<Rightarrow> shard_t \<Rightarrow> bytes \<Rightarrow> (bool \<times> nat) option" where
  "find_key h s key = find_slot h s (hash_key key) key (make_tag (hash_key key))"

text \<open>The part of \<^verbatim>\<open>cache_get\<close> under the read lock.\<close>

datatype get_result = Get_Miss | Get_Expired | Get_Hit addr

definition cache_get_shared :: "int \<Rightarrow> cache_s \<Rightarrow> entry_heap \<Rightarrow> bytes \<Rightarrow> (get_result \<times> entry_heap) option" where
  "cache_get_shared now c h key =
     (if key = [] then Some (Get_Miss, h)
      else let s = c_shards c ! key_shard key
      in do {
        (found, idx) \<leftarrow> find_key h s key;
        if \<not> found then Some (Get_Miss, h)
        else do {
          a \<leftarrow> sh_entries s ! idx;
          e \<leftarrow> h a;
          if now \<ge> ce_expires_at e then Some (Get_Expired, h)
          else do {
            let h = (if ce_clock_bit e = 0 then h(a \<mapsto> e\<lparr>ce_clock_bit := 1\<rparr>) else h);
            h \<leftarrow> entry_ref_inc h a;
            Some (Get_Hit (value_ptr_from_entry a), h) } } })"

text \<open>The part under the write lock, after an expired entry was seen at time \<open>now\<close>.\<close>

definition cache_get_expire :: "int \<Rightarrow> cache_s \<Rightarrow> entry_heap \<Rightarrow> bytes \<Rightarrow> (cache_s \<times> entry_heap) option" where
  "cache_get_expire now c h key =
     (let s = c_shards c ! key_shard key
      in do {
        (found, idx) \<leftarrow> find_key h s key;
        if \<not> found then Some (c, h)
        else do {
          a \<leftarrow> sh_entries s ! idx;
          e \<leftarrow> h a;
          if now \<ge> ce_expires_at e
          then do { h \<leftarrow> entry_ref_dec h a; Some (with_shard c key (bury s idx), h) }
          else Some (c, h) } })"

text \<open>Both parts in one go, with no other thread in between; the value comes with its length.\<close>

definition cache_get :: "int \<Rightarrow> cache_s \<Rightarrow> entry_heap \<Rightarrow> bytes \<Rightarrow> (addr option \<times> cache_s \<times> entry_heap) option" where
  "cache_get now c h key = do {
     (r, h) \<leftarrow> cache_get_shared now c h key;
     case r of Get_Miss \<Rightarrow> Some (None, c, h)
     | Get_Hit p \<Rightarrow> Some (Some p, c, h)
     | Get_Expired \<Rightarrow> do { (c, h) \<leftarrow> cache_get_expire now c h key; Some (None, c, h) } }"

definition new_entry :: "cache_s \<Rightarrow> int \<Rightarrow> addr \<Rightarrow> bytes \<Rightarrow> bytes \<Rightarrow> u32 \<Rightarrow> cache_entry_t" where
  "new_entry c now a key val ttl =
     \<lparr>ce_hash = hash_key key, ce_key_len = word_of_nat (length key), ce_ref_count = 1, ce_clock_bit = 1,
      ce_expires_at = now + uint (if ttl \<noteq> 0 then ttl else c_default_ttl c), ce_value_len = length val,
      ce_key = key, ce_back = a, ce_value = val\<rparr>"

definition needs_compaction :: "shard_t \<Rightarrow> bool" where
  "needs_compaction s \<longleftrightarrow> sh_tombstone_count s > (sh_bucket_count s * 3) div 4"

definition occupy :: "shard_t \<Rightarrow> nat \<Rightarrow> u8 \<Rightarrow> addr \<Rightarrow> shard_t" where
  "occupy s idx tag a =
     s\<lparr>sh_tombstone_count := (if sh_tags s ! idx = TAG_DELETED then sh_tombstone_count s - 1 else sh_tombstone_count s),
       sh_tags := (sh_tags s)[idx := tag], sh_entries := (sh_entries s)[idx := Some a], sh_size := sh_size s + 1\<rparr>"

text \<open>\<open>al\<close> is the address of the new entry, if the allocation succeeds; \<open>cmp\<close> belongs to the compaction.\<close>

definition cache_set ::
  "addr option \<Rightarrow> bool \<times> bool \<Rightarrow> int \<Rightarrow> cache_s \<Rightarrow> entry_heap \<Rightarrow> bytes \<Rightarrow> bytes \<Rightarrow> u32
     \<Rightarrow> (bool \<times> cache_s \<times> entry_heap) option" where
  "cache_set al cmp now c h key val ttl =
     (if key = [] \<or> val = [] then Some (False, c, h)
      else case al of None \<Rightarrow> Some (False, c, h)
      | Some a \<Rightarrow>
          let h = h(a \<mapsto> new_entry c now a key val ttl); s = c_shards c ! key_shard key
          in do {
            s \<leftarrow> (if needs_compaction s then compact_shard cmp h s else Some s);
            (found, idx) \<leftarrow> find_key h s key;
            if found
            then do {
              old \<leftarrow> sh_entries s ! idx;
              h \<leftarrow> entry_ref_dec h old;
              Some (True, with_shard c key (s\<lparr>sh_entries := (sh_entries s)[idx := Some a]\<rparr>), h) }
            else do {
              (ok, h, s) \<leftarrow> (if sh_size s \<ge> sh_capacity s then clock_evict h s else Some (True, h, s));
              if \<not> ok then Some (False, with_shard c key s, h(a := None))
              else Some (True, with_shard c key (occupy s idx (make_tag (hash_key key)) a), h) } })"

definition cache_invalidate ::
  "bool \<times> bool \<Rightarrow> cache_s \<Rightarrow> entry_heap \<Rightarrow> bytes \<Rightarrow> (cache_s \<times> entry_heap) option" where
  "cache_invalidate cmp c h key =
     (let s = c_shards c ! key_shard key
      in do {
        (found, idx) \<leftarrow> find_key h s key;
        if \<not> found then Some (c, h)
        else do {
          a \<leftarrow> sh_entries s ! idx;
          s \<leftarrow> (if needs_compaction (bury s idx) then compact_shard cmp h (bury s idx) else Some (bury s idx));
          h \<leftarrow> entry_ref_dec h a;
          Some (with_shard c key s, h) } })"

definition cache_release :: "entry_heap \<Rightarrow> addr \<Rightarrow> entry_heap option" where
  "cache_release h ptr = do { a \<leftarrow> entry_from_value h ptr; entry_ref_dec h a }"

text \<open>The references of a shard are dropped by \<^verbatim>\<open>cache_clear\<close> and \<^verbatim>\<open>cache_destroy\<close>.\<close>

fun drop_refs :: "u8 list \<Rightarrow> addr option list \<Rightarrow> entry_heap \<Rightarrow> entry_heap option" where
  "drop_refs (t # tags) (p # entries) h =
     (if t AND TAG_CONTROL_MASK \<noteq> 0 then drop_refs tags entries h
      else do { a \<leftarrow> p; h \<leftarrow> entry_ref_dec h a; drop_refs tags entries h })"
| "drop_refs _ _ h = Some h"

definition clear_shard :: "shard_t \<Rightarrow> shard_t" where
  "clear_shard s = s\<lparr>sh_tags := replicate (sh_bucket_count s) TAG_EMPTY, sh_entries := replicate (sh_bucket_count s) None,
     sh_size := 0, sh_tombstone_count := 0, sh_clock_hand := 0\<rparr>"

text \<open>One shard of \<^verbatim>\<open>cache_clear\<close>, a critical section of its own, and the whole loop.\<close>

definition cache_clear_shard :: "nat \<Rightarrow> cache_s \<Rightarrow> entry_heap \<Rightarrow> (cache_s \<times> entry_heap) option" where
  "cache_clear_shard i c h = do {
     h \<leftarrow> drop_refs (sh_tags (c_shards c ! i)) (sh_entries (c_shards c ! i)) h;
     Some (c\<lparr>c_shards := (c_shards c)[i := clear_shard (c_shards c ! i)]\<rparr>, h) }"

fun clear_from :: "nat \<Rightarrow> nat \<Rightarrow> cache_s \<Rightarrow> entry_heap \<Rightarrow> (cache_s \<times> entry_heap) option" where
  "clear_from 0 i c h = Some (c, h)"
| "clear_from (Suc k) i c h = do { (c, h) \<leftarrow> cache_clear_shard i c h; clear_from k (i + 1) c h }"

definition cache_clear :: "cache_s \<Rightarrow> entry_heap \<Rightarrow> (cache_s \<times> entry_heap) option" where
  "cache_clear c h = clear_from CACHE_SHARD_COUNT 0 c h"

fun destroy_shards :: "shard_t list \<Rightarrow> entry_heap \<Rightarrow> entry_heap option" where
  "destroy_shards [] h = Some h"
| "destroy_shards (s # ss) h = do { h \<leftarrow> drop_refs (sh_tags s) (sh_entries s) h; destroy_shards ss h }"

definition cache_destroy :: "cache_s \<Rightarrow> entry_heap \<Rightarrow> entry_heap option" where
  "cache_destroy c h = destroy_shards (c_shards c) h"

definition get_total_cache_size :: "cache_s \<Rightarrow> nat" where
  "get_total_cache_size c = sum_list (map sh_size (c_shards c))"

definition get_total_capacity :: "cache_s \<Rightarrow> nat" where
  "get_total_capacity c = sum_list (map sh_capacity (c_shards c))"

end
