(* ===== verification/Tombstone_Table.thy ===== *)
theory Tombstone_Table
  imports Probe_Ring
begin

text \<open>
  Open addressing with tombstones, independent of how slots are represented: a table is a list
  of slots, an element is reached from the home slot of its key without crossing a free slot,
  and no key occurs twice.  Finding, burying, occupying and rebuilding are shown against the
  partial map that the table stands for.
\<close>

datatype 'a slot = Free | Tomb | Full 'a

abbreviation ring :: "'a list \<Rightarrow> nat \<Rightarrow> nat \<Rightarrow> nat" where
  "ring tab i d \<equiv> (i + d) mod length tab"

text \<open>No free slot on the first \<open>d\<close> places from \<open>i\<close>.\<close>

definition clear_path_to :: "'a slot list \<Rightarrow> nat \<Rightarrow> nat \<Rightarrow> bool" where
  "clear_path_to tab i d \<longleftrightarrow> (\<forall>t<d. tab ! ring tab i t \<noteq> Free)"

definition table_ok :: "('k \<Rightarrow> nat) \<Rightarrow> ('k \<times> 'v) slot list \<Rightarrow> bool" where
  "table_ok home tab \<longleftrightarrow> (\<forall>k. home k < length tab) \<and>
     (\<forall>i k v. i < length tab \<and> tab ! i = Full (k, v) \<longrightarrow>
        (\<exists>d<length tab. i = ring tab (home k) d \<and> clear_path_to tab (home k) d)) \<and>
     (\<forall>i j k v w. i < length tab \<and> j < length tab \<and> tab ! i = Full (k, v) \<and> tab ! j = Full (k, w) \<longrightarrow> i = j)"

text \<open>The map a table stands for.\<close>

fun table_map :: "('k \<times> 'v) slot list \<Rightarrow> 'k \<rightharpoonup> 'v" where
  "table_map [] = Map.empty"
| "table_map (Full (k, v) # tab) = (table_map tab)(k \<mapsto> v)"
| "table_map (_ # tab) = table_map tab"

lemma table_map_Some: "table_map tab k = Some v \<Longrightarrow> \<exists>i<length tab. tab ! i = Full (k, v)"
proof (induction tab rule: table_map.induct)
  case (2 k' v' tab)
  show ?case
  proof (cases "k = k'")
    case True
    with 2 show ?thesis by (intro exI [of _ 0]) simp
  next
    case False
    with 2 obtain i where "i < length tab" "tab ! i = Full (k, v)" by auto
    then show ?thesis by (intro exI [of _ "Suc i"]) simp
  qed
qed auto

lemma table_map_None: "table_map tab k = None \<Longrightarrow> i < length tab \<Longrightarrow> tab ! i \<noteq> Full (k, v)"
  by (induction tab arbitrary: i rule: table_map.induct) (auto simp: nth_Cons' split: if_splits)

lemma table_okD:
  assumes "table_ok home tab"
  shows "home k < length tab" "0 < length tab"
    "i < length tab \<Longrightarrow> tab ! i = Full (k, v) \<Longrightarrow> \<exists>d<length tab. i = ring tab (home k) d \<and> clear_path_to tab (home k) d"
    "i < length tab \<Longrightarrow> j < length tab \<Longrightarrow> tab ! i = Full (k, v) \<Longrightarrow> tab ! j = Full (k, w) \<Longrightarrow> i = j"
  using assms unfolding table_ok_def by (blast, force, blast, blast)

lemma table_map_iff:
  assumes "table_ok home tab"
  shows "table_map tab k = Some v \<longleftrightarrow> (\<exists>i<length tab. tab ! i = Full (k, v))"
proof
  assume "\<exists>i<length tab. tab ! i = Full (k, v)"
  then obtain i where i: "i < length tab" "tab ! i = Full (k, v)" by blast
  then obtain w where w: "table_map tab k = Some w" using table_map_None by fastforce
  then obtain j where "j < length tab" "tab ! j = Full (k, w)" using table_map_Some by fast
  with table_okD(4) [OF assms i(1) _ i(2)] i(2) w show "table_map tab k = Some v" by fastforce
qed (rule table_map_Some)

section \<open>Finding a key\<close>

fun table_find :: "nat \<Rightarrow> ('k \<times> 'v) slot list \<Rightarrow> 'k \<Rightarrow> nat \<Rightarrow> nat option \<Rightarrow> bool \<times> nat" where
  "table_find 0 tab k i tomb = (False, case tomb of Some t \<Rightarrow> t | None \<Rightarrow> i)"
| "table_find (Suc m) tab k i tomb =
     (case tab ! i of
        Full (k', v) \<Rightarrow> if k' = k then (True, i) else table_find m tab k (Suc i mod length tab) tomb
      | Free \<Rightarrow> (False, case tomb of Some t \<Rightarrow> t | None \<Rightarrow> i)
      | Tomb \<Rightarrow> table_find m tab k (Suc i mod length tab) (if tomb = None then Some i else tomb))"

text \<open>A place where a missing key may be put: not full, and reached from its home.\<close>

definition place_for :: "('k \<Rightarrow> nat) \<Rightarrow> ('k \<times> 'v) slot list \<Rightarrow> 'k \<Rightarrow> nat \<Rightarrow> bool" where
  "place_for home tab k i \<longleftrightarrow> i < length tab \<and> (tab ! i = Free \<or> tab ! i = Tomb) \<and>
     (\<exists>d<length tab. i = ring tab (home k) d \<and> clear_path_to tab (home k) d)"

lemma clear_path_Suc: "clear_path_to tab i (Suc d) \<longleftrightarrow> clear_path_to tab i d \<and> tab ! ring tab i d \<noteq> Free"
  by (auto simp: clear_path_to_def less_Suc_eq)

lemma find_step:
  assumes ok: "table_ok home tab" and d: "d + m = length tab" and path: "clear_path_to tab (home k) d"
    and miss: "\<forall>t<d. \<forall>v. tab ! ring tab (home k) t \<noteq> Full (k, v)"
    and tomb: "case tomb of None \<Rightarrow> (\<forall>t<d. tab ! ring tab (home k) t \<noteq> Tomb) | Some t \<Rightarrow> place_for home tab k t"
    and room: "\<exists>i<length tab. tab ! i = Free \<or> tab ! i = Tomb"
    and r: "table_find m tab k (ring tab (home k) d) tomb = (found, j)"
  shows "(found \<longrightarrow> (\<exists>v. j < length tab \<and> tab ! j = Full (k, v))) \<and>
    (\<not> found \<longrightarrow> table_map tab k = None \<and> place_for home tab k j)"
  using d path miss tomb r
proof (induction m arbitrary: d tomb)
  case 0
  let ?n = "length tab"
  have cover: "\<exists>t<?n. i = ring tab (home k) t" if "i < ?n" for i
    using ring_forward_surj [OF table_okD(1) [OF ok] that] by auto
  have "table_map tab k = None"
    using 0 cover table_map_Some [of tab k] by (metis add_0_right not_Some_eq)
  moreover obtain t where "tomb = Some t" "place_for home tab k t"
  proof (cases tomb)
    case None
    obtain i where i: "i < ?n" "tab ! i = Free \<or> tab ! i = Tomb" using room by blast
    obtain t where t: "t < ?n" "i = ring tab (home k) t" using cover [OF i(1)] by blast
    with 0 None have "tab ! i \<noteq> Free" "tab ! i \<noteq> Tomb" by (auto simp: clear_path_to_def)
    with i show thesis by blast
  qed (use 0 in auto)
  ultimately show ?case using 0 by auto
next
  case (Suc m)
  let ?i = "ring tab (home k) d"
  have i: "?i < length tab" using table_okD(2) [OF ok] by simp
  have nxt: "Suc ?i mod length tab = ring tab (home k) (Suc d)" by (simp add: mod_Suc_eq)
  have dn: "Suc d + m = length tab" "d < length tab" using Suc.prems(1) by simp_all
  show ?case
  proof (cases "tab ! ?i")
    case Free
    have "place_for home tab k ?i" using Free i dn(2) Suc.prems(2) by (auto simp: place_for_def)
    then have "place_for home tab k j" using Free Suc.prems(4,5) by (auto split: option.splits)
    moreover have "table_map tab k = None"
    proof (rule ccontr)
      assume "table_map tab k \<noteq> None"
      then obtain i' v where i': "i' < length tab" "tab ! i' = Full (k, v)" using table_map_Some by fastforce
      from table_okD(3) [OF ok this] obtain e where e: "e < length tab" "i' = ring tab (home k) e" "clear_path_to tab (home k) e"
        by blast
      have "\<not> e < d" using Suc.prems(3) i'(2) e(2) by blast
      moreover have "\<not> d < e" using e(3) Free by (auto simp: clear_path_to_def)
      ultimately show False using Free i'(2) e(2) by simp
    qed
    ultimately show ?thesis using Free Suc.prems(5) by auto
  next
    case Tomb
    have "place_for home tab k ?i" using Tomb i dn(2) Suc.prems(2) by (auto simp: place_for_def)
    then show ?thesis
      using Tomb Suc.prems dn nxt
      by (intro Suc.IH [of "Suc d" "if tomb = None then Some ?i else tomb"])
        (auto simp: clear_path_Suc less_Suc_eq split: option.splits)
  next
    case (Full kv)
    obtain k' v where kv: "kv = (k', v)" by (cases kv)
    show ?thesis
    proof (cases "k' = k")
      case True
      then show ?thesis using Full kv Suc.prems(5) i by auto
    next
      case False
      then show ?thesis
        using Full kv Suc.prems dn nxt
        by (intro Suc.IH [of "Suc d" tomb]) (auto simp: clear_path_Suc less_Suc_eq split: option.splits)
    qed
  qed
qed

lemma table_find_correct:
  assumes "table_ok home tab" "\<exists>i<length tab. tab ! i = Free \<or> tab ! i = Tomb"
    "table_find (length tab) tab k (home k) None = (found, j)"
  shows "found \<Longrightarrow> \<exists>v. j < length tab \<and> tab ! j = Full (k, v) \<and> table_map tab k = Some v"
    and "\<not> found \<Longrightarrow> table_map tab k = None \<and> place_for home tab k j"
proof -
  have "ring tab (home k) 0 = home k" using table_okD(1) [OF assms(1)] by simp
  with find_step [OF assms(1), of 0 "length tab" k None found j] assms(2,3)
  have *: "(found \<longrightarrow> (\<exists>v. j < length tab \<and> tab ! j = Full (k, v))) \<and>
    (\<not> found \<longrightarrow> table_map tab k = None \<and> place_for home tab k j)"
    by (simp add: clear_path_to_def)
  then show "found \<Longrightarrow> \<exists>v. j < length tab \<and> tab ! j = Full (k, v) \<and> table_map tab k = Some v"
    using table_map_iff [OF assms(1)] by blast
  show "\<not> found \<Longrightarrow> table_map tab k = None \<and> place_for home tab k j" using * by blast
qed

section \<open>Changing one slot\<close>

lemma clear_path_mono:
  assumes "length tab' = length tab" "\<And>i. i < length tab \<Longrightarrow> tab ! i \<noteq> Free \<Longrightarrow> tab' ! i \<noteq> Free"
    "clear_path_to tab i d" "0 < length tab"
  shows "clear_path_to tab' i d"
  using assms by (auto simp: clear_path_to_def)

lemma table_update:
  assumes ok: "table_ok home tab" and i: "i < length tab" and s: "s \<noteq> Free"
    and new: "\<And>k v. s = Full (k, v) \<Longrightarrow>
      (\<exists>d<length tab. i = ring tab (home k) d \<and> clear_path_to tab (home k) d) \<and>
      (\<forall>j w. j < length tab \<and> tab ! j = Full (k, w) \<longrightarrow> j = i)"
  shows "table_ok home (tab[i := s])"
  unfolding table_ok_def
proof (intro conjI allI impI)
  have mono: "clear_path_to (tab[i := s]) j d" if "clear_path_to tab j d" for j d
    using s i table_okD(2) [OF ok] by (intro clear_path_mono [OF _ _ that]) (auto simp: nth_list_update)
  { fix j k v assume "j < length (tab[i := s]) \<and> tab[i := s] ! j = Full (k, v)"
    then have "\<exists>d<length tab. j = ring tab (home k) d \<and> clear_path_to tab (home k) d"
      using new table_okD(3) [OF ok] i by (cases "j = i") auto
    then show "\<exists>d<length (tab[i := s]). j = ring (tab[i := s]) (home k) d \<and> clear_path_to (tab[i := s]) (home k) d"
      using mono by auto
  next
    fix j j' k v w
    assume "j < length (tab[i := s]) \<and> j' < length (tab[i := s]) \<and> tab[i := s] ! j = Full (k, v) \<and> tab[i := s] ! j' = Full (k, w)"
    then show "j = j'" using new table_okD(4) [OF ok] i by (cases "j = i"; cases "j' = i") auto
  }
qed (use table_okD(1) [OF ok] in simp)

lemma full_after_update:
  assumes "i < length tab"
  shows "(\<exists>j<length (tab[i := s]). tab[i := s] ! j = Full x) \<longleftrightarrow> s = Full x \<or> (\<exists>j<length tab. j \<noteq> i \<and> tab ! j = Full x)"
proof
  assume "s = Full x \<or> (\<exists>j<length tab. j \<noteq> i \<and> tab ! j = Full x)"
  then show "\<exists>j<length (tab[i := s]). tab[i := s] ! j = Full x"
  proof
    assume "s = Full x"
    then show ?thesis using assms by (intro exI [of _ i]) simp
  next
    assume "\<exists>j<length tab. j \<noteq> i \<and> tab ! j = Full x"
    then obtain j where "j < length tab" "j \<noteq> i" "tab ! j = Full x" by blast
    then show ?thesis by (intro exI [of _ j]) simp
  qed
qed (auto simp: nth_list_update assms split: if_splits)

lemma table_bury:
  assumes "table_ok home tab" "i < length tab" "tab ! i = Full (k, v)"
  shows "table_ok home (tab[i := Tomb])" "table_map (tab[i := Tomb]) = (table_map tab)(k := None)"
proof -
  show ok: "table_ok home (tab[i := Tomb])" using assms(1,2) by (intro table_update) auto
  show "table_map (tab[i := Tomb]) = (table_map tab)(k := None)"
  proof (intro ext option_eqI)
    fix x w
    show "table_map (tab[i := Tomb]) x = Some w \<longleftrightarrow> ((table_map tab)(k := None)) x = Some w"
    proof (cases "x = k")
      case True
      then show ?thesis using table_okD(4) [OF assms(1) assms(2) _ assms(3)] assms(3)
        unfolding table_map_iff [OF ok] full_after_update [OF assms(2)] by auto
    next
      case False
      then have "((table_map tab)(k := None)) x = Some w \<longleftrightarrow> (\<exists>j<length tab. tab ! j = Full (x, w))"
        by (simp add: table_map_iff [OF assms(1)])
      then show ?thesis using assms(3) False
        unfolding table_map_iff [OF ok] full_after_update [OF assms(2)] by auto
    qed
  qed
qed

lemma table_put:
  assumes ok: "table_ok home tab" and i: "i < length tab"
    and path: "\<exists>d<length tab. i = ring tab (home k) d \<and> clear_path_to tab (home k) d"
    and only: "\<And>j x w. j < length tab \<Longrightarrow> tab ! j = Full (x, w) \<Longrightarrow> x = k \<longleftrightarrow> j = i"
  shows "table_ok home (tab[i := Full (k, v)])" "table_map (tab[i := Full (k, v)]) = (table_map tab)(k \<mapsto> v)"
proof -
  show ok': "table_ok home (tab[i := Full (k, v)])" using path only by (intro table_update [OF ok i]) auto
  show "table_map (tab[i := Full (k, v)]) = (table_map tab)(k \<mapsto> v)"
  proof (intro ext option_eqI)
    fix x w
    show "table_map (tab[i := Full (k, v)]) x = Some w \<longleftrightarrow> ((table_map tab)(k \<mapsto> v)) x = Some w"
    proof (cases "x = k")
      case True
      then show ?thesis using only unfolding table_map_iff [OF ok'] full_after_update [OF i] by auto
    next
      case False
      then have "((table_map tab)(k \<mapsto> v)) x = Some w \<longleftrightarrow> (\<exists>j<length tab. tab ! j = Full (x, w))"
        by (simp add: table_map_iff [OF ok])
      then show ?thesis using only False unfolding table_map_iff [OF ok'] full_after_update [OF i] by auto
    qed
  qed
qed

lemma table_occupy:
  assumes "table_ok home tab" "place_for home tab k i" "table_map tab k = None"
  shows "table_ok home (tab[i := Full (k, v)])" "table_map (tab[i := Full (k, v)]) = (table_map tab)(k \<mapsto> v)"
proof -
  have "i < length tab" "\<exists>d<length tab. i = ring tab (home k) d \<and> clear_path_to tab (home k) d"
    using assms(2) by (auto simp: place_for_def)
  moreover have "x = k \<longleftrightarrow> j = i" if "j < length tab" "tab ! j = Full (x, w)" for j x w
    using that assms(2,3) table_map_None [of tab k j w] by (auto simp: place_for_def)
  ultimately show "table_ok home (tab[i := Full (k, v)])"
    "table_map (tab[i := Full (k, v)]) = (table_map tab)(k \<mapsto> v)" by (intro table_put [OF assms(1)]; blast)+
qed

lemma table_replace:
  assumes "table_ok home tab" "i < length tab" "tab ! i = Full (k, u)"
  shows "table_ok home (tab[i := Full (k, v)])" "table_map (tab[i := Full (k, v)]) = (table_map tab)(k \<mapsto> v)"
proof -
  have "x = k \<longleftrightarrow> j = i" if "j < length tab" "tab ! j = Full (x, w)" for j x w
    using that assms(3) table_okD(4) [OF assms(1) that(1) assms(2) _ assms(3)] by auto
  then show "table_ok home (tab[i := Full (k, v)])"
    "table_map (tab[i := Full (k, v)]) = (table_map tab)(k \<mapsto> v)"
    using table_okD(3) [OF assms] by (intro table_put [OF assms(1,2)]; blast)+
qed

section \<open>Counting\<close>

definition fulls :: "'a slot list \<Rightarrow> nat" where
  "fulls tab = length (filter (\<lambda>s. s \<noteq> Free \<and> s \<noteq> Tomb) tab)"

definition tombs :: "'a slot list \<Rightarrow> nat" where
  "tombs tab = length (filter (\<lambda>s. s = Tomb) tab)"

lemma length_filter_update:
  "i < length xs \<Longrightarrow> length (filter P (xs[i := v])) + (if P (xs ! i) then 1 else 0)
     = length (filter P xs) + (if P v then 1 else 0)"
proof (induction xs arbitrary: i)
  case (Cons x xs)
  then show ?case by (cases i) auto
qed simp

lemma counts_update:
  assumes "i < length tab"
  shows "fulls (tab[i := Full x]) = fulls tab + (if tab ! i = Free \<or> tab ! i = Tomb then 1 else 0)"
    "tombs (tab[i := Full x]) = tombs tab - (if tab ! i = Tomb then 1 else 0)"
    "fulls (tab[i := Tomb]) = fulls tab - (if tab ! i = Free \<or> tab ! i = Tomb then 0 else 1)"
    "tombs (tab[i := Tomb]) = tombs tab + (if tab ! i = Tomb then 0 else 1)"
  using length_filter_update [OF assms, of "\<lambda>s. s \<noteq> Free \<and> s \<noteq> Tomb" "Full x"]
    length_filter_update [OF assms, of "\<lambda>s. s = Tomb" "Full x"]
    length_filter_update [OF assms, of "\<lambda>s. s \<noteq> Free \<and> s \<noteq> Tomb" Tomb]
    length_filter_update [OF assms, of "\<lambda>s. s = Tomb" Tomb]
  by (auto simp: fulls_def tombs_def split: if_splits)

lemma fulls_pos: "i < length tab \<Longrightarrow> tab ! i = Full x \<Longrightarrow> 0 < fulls tab"
  using nth_mem [of i tab] by (auto simp: fulls_def filter_empty_conv)

lemma room_exists: "fulls tab < length tab \<Longrightarrow> \<exists>i<length tab. tab ! i = Free \<or> tab ! i = Tomb"
proof (rule ccontr)
  assume "fulls tab < length tab" "\<not> ?thesis"
  then have "filter (\<lambda>s. s \<noteq> Free \<and> s \<noteq> Tomb) tab = tab" by (auto simp: filter_id_conv in_set_conv_nth)
  with \<open>fulls tab < length tab\<close> show False by (simp add: fulls_def)
qed

lemma tombs_0: "tombs tab = 0 \<Longrightarrow> i < length tab \<Longrightarrow> tab ! i \<noteq> Tomb"
  by (auto simp: tombs_def filter_empty_conv)

section \<open>Rebuilding\<close>

fun table_probe :: "nat \<Rightarrow> 'a slot list \<Rightarrow> nat \<Rightarrow> nat option" where
  "table_probe 0 tab i = None"
| "table_probe (Suc m) tab i = (if tab ! i = Free then Some i else table_probe m tab (Suc i mod length tab))"

lemma probe_from:
  assumes "0 < length tab" "d + m = length tab" "clear_path_to tab i d" "\<exists>j<length tab. tab ! j = Free" "i < length tab"
  shows "\<exists>e<length tab. table_probe m tab (ring tab i d) = Some (ring tab i e) \<and> tab ! ring tab i e = Free \<and> clear_path_to tab i e"
  using assms(2,3)
proof (induction m arbitrary: d)
  case 0
  obtain j where j: "j < length tab" "tab ! j = Free" using assms(4) by blast
  obtain t where "t < length tab" "j = ring tab i t" using ring_forward_surj [OF assms(5) j(1)] by auto
  with 0 j show ?case by (auto simp: clear_path_to_def)
next
  case (Suc m)
  show ?case
  proof (cases "tab ! ring tab i d = Free")
    case True
    then show ?thesis using Suc.prems by (intro exI [of _ d]) auto
  next
    case False
    have "Suc (ring tab i d) mod length tab = ring tab i (Suc d)" by (simp add: mod_Suc_eq)
    then show ?thesis using Suc.IH [of "Suc d"] Suc.prems False by (simp add: clear_path_Suc)
  qed
qed

lemma table_probe_correct:
  assumes "table_ok home tab" "tombs tab = 0" "fulls tab < length tab"
  shows "\<exists>i. table_probe (length tab) tab (home k) = Some i \<and> place_for home tab k i \<and> tab ! i = Free"
proof -
  have "\<exists>j<length tab. tab ! j = Free" using room_exists [OF assms(3)] tombs_0 [OF assms(2)] by blast
  then obtain e where e: "e < length tab" "table_probe (length tab) tab (home k) = Some (ring tab (home k) e)"
    "tab ! ring tab (home k) e = Free" "clear_path_to tab (home k) e"
    using probe_from [of tab 0 "length tab" "home k"] table_okD(1) [OF assms(1), of k] table_okD(2) [OF assms(1)]
    by (auto simp: clear_path_to_def)
  then have "place_for home tab k (ring tab (home k) e)"
    using table_okD(2) [OF assms(1)] by (auto simp: place_for_def)
  with e show ?thesis by blast
qed

fun table_rebuild :: "('k \<Rightarrow> nat) \<Rightarrow> ('k \<times> 'v) slot list \<Rightarrow> ('k \<times> 'v) slot list \<Rightarrow> ('k \<times> 'v) slot list option" where
  "table_rebuild home [] new = Some new"
| "table_rebuild home (Full (k, v) # src) new =
     Option.bind (table_probe (length new) new (home k)) (\<lambda>i. table_rebuild home src (new[i := Full (k, v)]))"
| "table_rebuild home (_ # src) new = table_rebuild home src new"

text \<open>The keys of a list of slots, in order.\<close>

fun slot_keys :: "('k \<times> 'v) slot list \<Rightarrow> 'k list" where
  "slot_keys [] = []"
| "slot_keys (Full (k, v) # tab) = k # slot_keys tab"
| "slot_keys (_ # tab) = slot_keys tab"

lemma length_slot_keys: "length (slot_keys tab) = fulls tab"
  by (induction tab rule: slot_keys.induct) (auto simp: fulls_def)

lemma dom_table_map: "dom (table_map tab) = set (slot_keys tab)"
  by (induction tab rule: slot_keys.induct) (auto simp: dom_def set_eq_iff)

lemma distinct_slot_keys:
  assumes "\<And>i j k v w. i < length tab \<Longrightarrow> j < length tab \<Longrightarrow> tab ! i = Full (k, v) \<Longrightarrow> tab ! j = Full (k, w) \<Longrightarrow> i = j"
  shows "distinct (slot_keys tab)"
  using assms
proof (induction tab)
  case (Cons x tab)
  have rest: "distinct (slot_keys tab)"
  proof (rule Cons.IH)
    fix i j y u w assume "i < length tab" "j < length tab" "tab ! i = Full (y, u)" "tab ! j = Full (y, w)"
    then show "i = j" using Cons.prems [of "Suc i" "Suc j" y u w] by simp
  qed
  show ?case
  proof (cases "\<exists>k v. x = Full (k, v)")
    case True
    then obtain k v where x: "x = Full (k, v)" by blast
    have "k \<notin> dom (table_map tab)"
    proof
      assume "k \<in> dom (table_map tab)"
      then obtain w where "table_map tab k = Some w" by blast
      then obtain j where "j < length tab" "tab ! j = Full (k, w)" using table_map_Some by fast
      then show False using Cons.prems [of 0 "Suc j" k v w] x by simp
    qed
    then show ?thesis using rest x by (simp add: dom_table_map)
  next
    case False
    then show ?thesis using rest by (cases x) auto
  qed
qed simp

lemma table_rebuild_correct:
  assumes "table_ok home new" "tombs new = 0" "distinct (slot_keys src)" "set (slot_keys src) \<inter> dom (table_map new) = {}"
    "fulls new + fulls src < length new"
  shows "\<exists>tab. table_rebuild home src new = Some tab \<and> table_ok home tab \<and> tombs tab = 0 \<and> length tab = length new \<and>
    fulls tab = fulls new + fulls src \<and> table_map tab = table_map new ++ table_map src"
  using assms
proof (induction home src new rule: table_rebuild.induct)
  case (2 home k v src new)
  have f: "fulls (Full (k, v) # src) = Suc (fulls src)" by (simp add: fulls_def)
  obtain i where i: "table_probe (length new) new (home k) = Some i" "place_for home new k i" "new ! i = Free"
    using table_probe_correct [OF "2.prems"(1,2), of k] "2.prems"(5) f by auto
  let ?new = "new[i := Full (k, v)]"
  have il: "i < length new" using i(2) by (simp add: place_for_def)
  have "table_map new k = None" using "2.prems"(4) by auto
  note put = table_occupy [OF "2.prems"(1) i(2) this, of v]
  have c: "fulls ?new = fulls new + 1" "tombs ?new = 0" using counts_update(1,2) [OF il, of "(k, v)"] i(3) "2.prems"(2) by auto
  have d: "set (slot_keys src) \<inter> dom (table_map ?new) = {}"
    using "2.prems"(3,4) unfolding put(2) by (simp add: Int_insert_right)
  have "\<exists>tab. table_rebuild home src ?new = Some tab \<and> table_ok home tab \<and> tombs tab = 0 \<and> length tab = length ?new \<and>
    fulls tab = fulls ?new + fulls src \<and> table_map tab = table_map ?new ++ table_map src"
    using "2.IH" [OF i(1) put(1) c(2) _ d] "2.prems"(3,5) c(1) f by simp
  moreover have "(table_map new)(k \<mapsto> v) ++ table_map src = table_map new ++ table_map (Full (k, v) # src)"
    using "2.prems"(3) dom_table_map [of src] by (auto simp: map_add_def fun_eq_iff domIff split: option.splits)
  ultimately show ?case using i(1) c f put(2) by (auto simp del: table_map.simps)
qed (auto simp: fulls_def)

end
