(* ===== verification/Cache_Correct.thy ===== *)
theory Cache_Correct
  imports Cache Tombstone_Table
begin

text \<open>
  A shard of the cache as a table with tombstones: the invariant of a shard, what the probe
  finds, and the effect of every change of a slot, of compaction and of eviction on the
  map from keys to entries.
\<close>

section \<open>Tags, metadata and keys\<close>

lemma make_tag_and: "make_tag x AND 0x3F = make_tag x"
  by (simp add: make_tag_def TAG_FRAGMENT_MASK_def bit_eq_iff bit_and_iff bit_unsigned_iff bit_numeral_rec)

lemma make_tag_live [simp]:
  "make_tag x AND TAG_CONTROL_MASK = 0" "make_tag x AND TAG_EMPTY = 0" "make_tag x AND TAG_DELETED = 0"
  "make_tag x \<noteq> TAG_EMPTY" "make_tag x \<noteq> TAG_DELETED"
proof -
  have *: "make_tag x AND m = make_tag x AND (0x3F AND m)" for m by (metis make_tag_and and.assoc)
  show "make_tag x AND TAG_CONTROL_MASK = 0" "make_tag x AND TAG_EMPTY = 0" "make_tag x AND TAG_DELETED = 0"
    by (subst *, simp add: TAG_CONTROL_MASK_def TAG_EMPTY_def TAG_DELETED_def)+
  then show "make_tag x \<noteq> TAG_EMPTY" "make_tag x \<noteq> TAG_DELETED"
    by (auto simp: TAG_EMPTY_def TAG_DELETED_def)
qed

lemma tag_values [simp]:
  "TAG_EMPTY AND TAG_EMPTY \<noteq> 0" "TAG_DELETED AND TAG_EMPTY = 0" "TAG_DELETED AND TAG_DELETED \<noteq> 0"
  "TAG_EMPTY AND TAG_CONTROL_MASK \<noteq> 0" "TAG_DELETED AND TAG_CONTROL_MASK \<noteq> 0" "TAG_EMPTY \<noteq> TAG_DELETED"
  "TAG_EMPTY \<noteq> 0" "TAG_DELETED \<noteq> 0"
  by (simp_all add: TAG_EMPTY_def TAG_DELETED_def TAG_CONTROL_MASK_def)

lemma le_nat_inj: "length a = length b \<Longrightarrow> le_nat a = le_nat b \<longleftrightarrow> a = b"
proof (induction a b rule: list_induct2)
  case (Cons x a y b)
  have "unat x < 256" "unat y < 256" using unsigned_less [of x] unsigned_less [of y] by simp_all
  then have "(unat x + 256 * le_nat a) mod 256 = unat x" "(unat x + 256 * le_nat a) div 256 = le_nat a"
    "(unat y + 256 * le_nat b) mod 256 = unat y" "(unat y + 256 * le_nat b) div 256 = le_nat b" by simp_all
  then have "unat x + 256 * le_nat a = unat y + 256 * le_nat b \<longleftrightarrow> unat x = unat y \<and> le_nat a = le_nat b"
    by metis
  with Cons show ?case by (simp add: word_unat_eq_iff)
qed simp

lemma keys_equal_correct:
  assumes "len \<le> length k1" "len \<le> length k2"
  shows "keys_equal k1 k2 len = Some (take len k1 = take len k2)"
proof -
  have n: "le_nat (take m a) = le_nat (take m b) \<longleftrightarrow> take m a = take m b"
    if "m \<le> length a" "m \<le> length b" for m a b
    using that by (intro le_nat_inj) simp
  have "take 16 k1 = take 16 k2 \<longleftrightarrow> take 8 k1 = take 8 k2 \<and> take 8 (drop 8 k1) = take 8 (drop 8 k2)" if "len = 16"
  proof -
    have "take 16 k = take 8 k @ take 8 (drop 8 k)" for k :: bytes using take_add [of 8 8 k] by simp
    then show ?thesis using assms that by simp
  qed
  moreover have "take 1 k1 = take 1 k2 \<longleftrightarrow> k1 ! 0 = k2 ! 0" if "len = 1"
    using assms that by (cases k1; cases k2) auto
  ultimately show ?thesis using assms by (auto simp: keys_equal_def n)
qed

lemma entry_meta_eq:
  "entry_meta e = push_bit 32 (word_of_nat n) OR ucast hash \<longleftrightarrow> ce_key_len e = word_of_nat n \<and> ce_hash e = hash"
proof
  assume eq: "entry_meta e = push_bit 32 (word_of_nat n) OR ucast hash"
  have b: "bit (entry_meta e) i = bit (push_bit 32 (word_of_nat n) OR ucast hash :: u64) i" for i
    using eq by simp
  have "bit (ce_hash e) i = bit hash i" if "i < 32" for i
    using b [of i] that by (simp add: entry_meta_def bit_or_iff bit_push_bit_iff bit_unsigned_iff)
  moreover have "bit (ce_key_len e) i = bit (word_of_nat n :: u32) i" if "i < 32" for i
    using b [of "i + 32"] that impossible_bit [of "i + 32" "ce_hash e"] impossible_bit [of "i + 32" hash]
    by (simp add: entry_meta_def bit_or_iff bit_push_bit_iff bit_unsigned_iff bit_of_nat_iff)
  ultimately show "ce_key_len e = word_of_nat n \<and> ce_hash e = hash" by (auto intro: bit_word_eqI)
next
  assume a: "ce_key_len e = word_of_nat n \<and> ce_hash e = hash"
  have "push_bit 32 (ucast (word_of_nat n :: u32) :: u64) = push_bit 32 (word_of_nat n)"
    by (rule bit_word_eqI) (auto simp: bit_push_bit_iff bit_unsigned_iff bit_of_nat_iff)
  with a show "entry_meta e = push_bit 32 (word_of_nat n) OR ucast hash" by (simp add: entry_meta_def)
qed

section \<open>The invariant\<close>

definition entry_wf :: "addr \<Rightarrow> cache_entry_t \<Rightarrow> bool" where
  "entry_wf a e \<longleftrightarrow> ce_hash e = hash_key (ce_key e) \<and> ce_key_len e = word_of_nat (length (ce_key e)) \<and>
     ce_key e \<noteq> [] \<and> length (ce_key e) < 2 ^ 32 \<and> ce_back e = a \<and> ce_value_len e = length (ce_value e)"

lemma entry_matches_correct:
  assumes "entry_wf a e" "length key < 2 ^ 32"
  shows "entry_matches e (hash_key key) key = Some (ce_key e = key)"
proof -
  have len: "word_of_nat (length (ce_key e)) = (word_of_nat (length key) :: u32) \<longleftrightarrow> length (ce_key e) = length key"
  proof
    assume "word_of_nat (length (ce_key e)) = (word_of_nat (length key) :: u32)"
    then have "unat (word_of_nat (length (ce_key e)) :: u32) = unat (word_of_nat (length key) :: u32)" by simp
    then show "length (ce_key e) = length key"
      using assms by (simp add: entry_wf_def unsigned_of_nat take_bit_nat_eq_self)
  qed simp
  show ?thesis
  proof (cases "length (ce_key e) = length key \<and> hash_key (ce_key e) = hash_key key")
    case True
    then show ?thesis
      using assms keys_equal_correct [of "length key" "ce_key e" key]
      by (simp add: entry_matches_def entry_meta_eq entry_wf_def)
  next
    case False
    then show ?thesis using assms len by (auto simp: entry_matches_def entry_meta_eq entry_wf_def)
  qed
qed

definition slot_of :: "entry_heap \<Rightarrow> u8 \<Rightarrow> addr option \<Rightarrow> (bytes \<times> addr) slot" where
  "slot_of h t p =
     (if t AND TAG_EMPTY \<noteq> 0 then Free else if t AND TAG_DELETED \<noteq> 0 then Tomb
      else Full (ce_key (the (h (the p))), the p))"

definition view :: "entry_heap \<Rightarrow> shard_t \<Rightarrow> (bytes \<times> addr) slot list" where
  "view h s = map2 (slot_of h) (sh_tags s) (sh_entries s)"

definition slot_wf :: "entry_heap \<Rightarrow> u8 \<Rightarrow> addr option \<Rightarrow> bool" where
  "slot_wf h t p \<longleftrightarrow> t = TAG_EMPTY \<or> t = TAG_DELETED \<or>
     (\<exists>a e. p = Some a \<and> h a = Some e \<and> t = make_tag (ce_hash e) \<and> entry_wf a e)"

definition home_of :: "nat \<Rightarrow> bytes \<Rightarrow> nat" where
  "home_of n key = unat (hash_key key) mod n"

definition shard_wf :: "entry_heap \<Rightarrow> shard_t \<Rightarrow> bool" where
  "shard_wf h s \<longleftrightarrow> pow2 (sh_bucket_count s) \<and> length (sh_tags s) = sh_bucket_count s \<and>
     length (sh_entries s) = sh_bucket_count s \<and>
     (\<forall>i < sh_bucket_count s. slot_wf h (sh_tags s ! i) (sh_entries s ! i)) \<and>
     table_ok (home_of (sh_bucket_count s)) (view h s) \<and>
     sh_size s = fulls (view h s) \<and> sh_tombstone_count s = tombs (view h s) \<and>
     sh_size s \<le> sh_capacity s \<and> 0 < sh_capacity s \<and> 2 * sh_capacity s \<le> sh_bucket_count s \<and>
     sh_clock_hand s < sh_bucket_count s"

lemma shard_wfD:
  assumes "shard_wf h s"
  shows "pow2 (sh_bucket_count s)" "length (sh_tags s) = sh_bucket_count s" "length (sh_entries s) = sh_bucket_count s"
    "\<And>i. i < sh_bucket_count s \<Longrightarrow> slot_wf h (sh_tags s ! i) (sh_entries s ! i)"
    "table_ok (home_of (sh_bucket_count s)) (view h s)"
    "sh_size s = fulls (view h s)" "sh_tombstone_count s = tombs (view h s)" "sh_size s \<le> sh_capacity s"
    "0 < sh_capacity s" "2 * sh_capacity s \<le> sh_bucket_count s" "sh_clock_hand s < sh_bucket_count s"
    "length (view h s) = sh_bucket_count s" "fulls (view h s) < sh_bucket_count s"
  using assms by (auto simp: shard_wf_def view_def)

lemma view_nth:
  assumes "shard_wf h s" "i < sh_bucket_count s"
  shows "view h s ! i = slot_of h (sh_tags s ! i) (sh_entries s ! i)"
  using shard_wfD(2,3) [OF assms(1)] assms(2) by (simp add: view_def)

text \<open>The three kinds of slot.\<close>

lemma slot_cases:
  assumes "shard_wf h s" "i < sh_bucket_count s"
  obtains (free) "sh_tags s ! i = TAG_EMPTY" "view h s ! i = Free"
  | (tomb) "sh_tags s ! i = TAG_DELETED" "view h s ! i = Tomb"
  | (full) a e where "sh_entries s ! i = Some a" "h a = Some e" "sh_tags s ! i = make_tag (ce_hash e)" "entry_wf a e"
      "view h s ! i = Full (ce_key e, a)" "sh_tags s ! i AND TAG_CONTROL_MASK = 0"
proof -
  have "slot_wf h (sh_tags s ! i) (sh_entries s ! i)" using shard_wfD(4) [OF assms(1)] assms(2) .
  then consider "sh_tags s ! i = TAG_EMPTY" | "sh_tags s ! i = TAG_DELETED"
    | a e where "sh_entries s ! i = Some a" "h a = Some e" "sh_tags s ! i = make_tag (ce_hash e)" "entry_wf a e"
    unfolding slot_wf_def by blast
  then show thesis
  proof cases
    case 1 then show thesis using free view_nth [OF assms] by (simp add: slot_of_def)
  next
    case 2 then show thesis using tomb view_nth [OF assms] by (simp add: slot_of_def)
  next
    case 3 then show thesis using full view_nth [OF assms] by (simp add: slot_of_def)
  qed
qed

text \<open>A table without elements.\<close>

lemma empty_table:
  fixes n :: nat
  defines "tab \<equiv> replicate n (Free :: (bytes \<times> addr) slot)"
  shows "0 < n \<Longrightarrow> table_ok (home_of n) tab" "table_map tab = Map.empty" "fulls tab = 0" "tombs tab = 0"
    "map2 (slot_of h) (replicate n TAG_EMPTY) (replicate n None) = tab"
proof -
  show "table_ok (home_of n) tab" if "0 < n" using that by (auto simp: tab_def table_ok_def home_of_def)
  show "table_map tab = Map.empty" unfolding tab_def by (induction n) auto
qed (simp_all add: tab_def fulls_def tombs_def slot_of_def zip_replicate)

lemma empty_shard_wf:
  assumes "pow2 n" "s = \<lparr>sh_tags = replicate n TAG_EMPTY, sh_entries = replicate n None, sh_bucket_count = n, sh_size = 0,
      sh_capacity = cap, sh_tombstone_count = 0, sh_clock_hand = 0\<rparr>" "0 < cap" "2 * cap \<le> n"
  shows "shard_wf h s" "view h s = replicate n Free"
proof -
  show v: "view h s = replicate n Free" using empty_table(5) by (simp add: view_def assms(2))
  show "shard_wf h s" unfolding shard_wf_def v using assms empty_table by (simp add: slot_wf_def)
qed

section \<open>Finding\<close>

lemma find_loop_table:
  assumes wf: "shard_wf h s" and key: "length key < 2 ^ 32" and i: "i < sh_bucket_count s"
  shows "find_loop m h s (hash_key key) key (make_tag (hash_key key)) i tomb = Some (table_find m (view h s) key i tomb)"
  using i
proof (induction m arbitrary: i tomb)
  case (Suc m)
  let ?n = "sh_bucket_count s"
  have nxt: "(i + 1) AND (?n - 1) = Suc i mod length (view h s)" "Suc i mod length (view h s) < ?n"
    using and_mask_mod [OF shard_wfD(1) [OF wf], of "i + 1"] shard_wfD(12) [OF wf] Suc.prems by simp_all
  show ?case
  proof (rule slot_cases [OF wf Suc.prems])
    fix a e assume s: "sh_entries s ! i = Some a" "h a = Some e" "sh_tags s ! i = make_tag (ce_hash e)" "entry_wf a e"
      "view h s ! i = Full (ce_key e, a)"
    have "make_tag (ce_hash e) = make_tag (hash_key key)" if "ce_key e = key"
      using s(4) that by (simp add: entry_wf_def)
    then show ?thesis
      using s Suc.IH [OF nxt(2)] entry_matches_correct [OF s(4) key] unfolding find_loop.simps nxt(1) by (auto simp: Let_def)
  next
    assume "sh_tags s ! i = TAG_EMPTY" "view h s ! i = Free"
    then show ?thesis by (auto simp: Let_def dest: sym)
  next
    assume "sh_tags s ! i = TAG_DELETED" "view h s ! i = Tomb"
    then show ?thesis using Suc.IH [OF nxt(2)] unfolding find_loop.simps nxt(1) by (auto simp: Let_def dest: sym)
  qed
qed simp

lemma find_key_correct:
  assumes wf: "shard_wf h s" and key: "length key < 2 ^ 32"
  shows "\<exists>found i. find_key h s key = Some (found, i) \<and>
    (found \<longrightarrow> (\<exists>a. i < sh_bucket_count s \<and> view h s ! i = Full (key, a) \<and> sh_entries s ! i = Some a \<and>
        table_map (view h s) key = Some a)) \<and>
    (\<not> found \<longrightarrow> table_map (view h s) key = None \<and> place_for (home_of (sh_bucket_count s)) (view h s) key i)"
proof -
  let ?n = "sh_bucket_count s"
  note w = shard_wfD [OF wf]
  obtain found i where f: "table_find ?n (view h s) key (home_of ?n key) None = (found, i)" by fastforce
  have "home_of ?n key < ?n" using w(1) by (simp add: home_of_def)
  from find_loop_table [OF wf key this, of ?n None] f
  have eq: "find_key h s key = Some (found, i)"
    by (simp add: find_key_def find_slot_def home_of_def and_mask_mod [OF w(1), simplified])
  note c = table_find_correct [OF w(5) room_exists [of "view h s"], unfolded w(12), OF w(13) f]
  have "sh_entries s ! i = Some a" if "i < ?n" "view h s ! i = Full (key, a)" for a
    using that by (rule_tac slot_cases [OF wf that(1)]) auto
  with eq c show ?thesis by blast
qed

section \<open>Changing a slot\<close>

lemma view_update:
  assumes "length (sh_tags s) = length (sh_entries s)"
  shows "map2 (slot_of h) ((sh_tags s)[i := t]) ((sh_entries s)[i := p]) = (view h s)[i := slot_of h t p]"
  using assms by (simp add: view_def zip_update map_update)

lemma view_tick [simp]: "view h (tick s) = view h s"
  by (simp add: view_def tick_def)

lemma tick_wf: "shard_wf h s \<Longrightarrow> shard_wf h (tick s)"
proof -
  assume wf: "shard_wf h s"
  have "(sh_clock_hand s + 1) AND (sh_bucket_count s - 1) < sh_bucket_count s"
    using and_mask_mod [OF shard_wfD(1) [OF wf]] shard_wfD(1) [OF wf] by simp
  with wf view_tick [of h s] show ?thesis by (simp add: shard_wf_def) (simp add: tick_def)
qed

lemma shard_bury:
  assumes wf: "shard_wf h s" and i: "i < sh_bucket_count s" "view h s ! i = Full (k, a)"
  shows "shard_wf h (bury s i)" "table_map (view h (bury s i)) = (table_map (view h s))(k := None)"
    "view h (bury s i) = (view h s)[i := Tomb]" "sh_size (bury s i) < sh_size s"
proof -
  note w = shard_wfD [OF wf]
  show v: "view h (bury s i) = (view h s)[i := Tomb]"
    using view_update [of s h i TAG_DELETED None] w(2,3) by (simp add: view_def bury_def slot_of_def)
  have il: "i < length (view h s)" using i(1) w(12) by simp
  note t = table_bury [OF w(5) il i(2)]
  note c = counts_update(3,4) [OF il, unfolded i(2), simplified]
  have "0 < fulls (view h s)" using fulls_pos [OF il i(2)] .
  then show "sh_size (bury s i) < sh_size s" using w(6) by (simp add: bury_def)
  have "slot_wf h ((sh_tags s)[i := TAG_DELETED] ! j) ((sh_entries s)[i := None] ! j)" if "j < sh_bucket_count s" for j
    using w(4) [OF that] that w(2,3) i(1) by (cases "j = i") (auto simp: slot_wf_def)
  then show "shard_wf h (bury s i)"
    using w t(1) c unfolding shard_wf_def v by (simp add: bury_def)
  show "table_map (view h (bury s i)) = (table_map (view h s))(k := None)" using t(2) v by simp
qed

lemma slot_of_full:
  assumes "h a = Some e" "entry_wf a e"
  shows "slot_of h (make_tag (hash_key (ce_key e))) (Some a) = Full (ce_key e, a)"
    "slot_wf h (make_tag (hash_key (ce_key e))) (Some a)"
  using assms by (auto simp: slot_of_def slot_wf_def entry_wf_def)

lemma shard_replace:
  assumes wf: "shard_wf h s" and i: "i < sh_bucket_count s" "view h s ! i = Full (k, b)"
    and a: "h a = Some e" "entry_wf a e" "ce_key e = k"
  defines "s' \<equiv> s\<lparr>sh_entries := (sh_entries s)[i := Some a]\<rparr>"
  shows "shard_wf h s'" "table_map (view h s') = (table_map (view h s))(k \<mapsto> a)"
proof -
  note w = shard_wfD [OF wf]
  obtain e0 where t: "sh_tags s ! i = make_tag (ce_hash e0)" "entry_wf b e0" "ce_key e0 = k"
    using i(2) by (rule_tac slot_cases [OF wf i(1)]) auto
  then have tag: "sh_tags s ! i = make_tag (hash_key (ce_key e))" using a(3) by (simp add: entry_wf_def)
  have v: "view h s' = (view h s)[i := Full (k, a)]"
    using view_update [of s h i "sh_tags s ! i" "Some a", unfolded list_update_id] w(2,3)
      slot_of_full [of h a e, OF a(1,2)] tag a(3)
    by (simp add: s'_def view_def)
  have il: "i < length (view h s)" using i(1) w(12) by simp
  note t = table_replace [OF w(5) il i(2), of a]
  note c = counts_update(1,2) [OF il, of "(k, a)", unfolded i(2), simplified]
  have "slot_wf h (sh_tags s ! j) ((sh_entries s)[i := Some a] ! j)" if "j < sh_bucket_count s" for j
    using w(4) [OF that] that w(3) i(1) slot_of_full(2) [of h a e, OF a(1,2)] tag by (cases "j = i") auto
  then show "shard_wf h s'" using w t(1) c unfolding shard_wf_def v by (simp add: s'_def)
  show "table_map (view h s') = (table_map (view h s))(k \<mapsto> a)" using t(2) v by simp
qed

lemma shard_occupy:
  assumes wf: "shard_wf h s" and i: "place_for (home_of (sh_bucket_count s)) (view h s) k i" "table_map (view h s) k = None"
    and a: "h a = Some e" "entry_wf a e" "ce_key e = k" and room: "sh_size s < sh_capacity s"
  defines "s' \<equiv> occupy s i (make_tag (hash_key k)) a"
  shows "shard_wf h s'" "table_map (view h s') = (table_map (view h s))(k \<mapsto> a)"
proof -
  note w = shard_wfD [OF wf]
  have il: "i < length (view h s)" using i(1) by (simp add: place_for_def)
  then have ib: "i < sh_bucket_count s" using w(12) by simp
  have v: "view h s' = (view h s)[i := Full (k, a)]"
    using view_update [of s h i "make_tag (hash_key k)" "Some a"] w(2,3) slot_of_full [of h a e, OF a(1,2)] a(3)
    by (simp add: s'_def view_def occupy_def)
  note t = table_occupy [OF w(5) i, of a]
  have fr: "view h s ! i = Free \<or> view h s ! i = Tomb" using i(1) by (simp add: place_for_def)
  note c = counts_update(1,2) [OF il, of "(k, a)"]
  have tomb: "sh_tags s ! i = TAG_DELETED \<longleftrightarrow> view h s ! i = Tomb"
    using fr by (rule_tac slot_cases [OF wf ib]) auto
  have "slot_wf h ((sh_tags s)[i := make_tag (hash_key k)] ! j) ((sh_entries s)[i := Some a] ! j)" if "j < sh_bucket_count s" for j
    using w(4) [OF that] that w(2,3) ib slot_of_full(2) [of h a e, OF a(1,2)] a(3) by (cases "j = i") auto
  then show "shard_wf h s'" using w t(1) c fr tomb room unfolding shard_wf_def v by (simp add: s'_def occupy_def)
  show "table_map (view h s') = (table_map (view h s))(k \<mapsto> a)" using t(2) v by simp
qed

section \<open>Compaction\<close>

lemma probe_free_table:
  assumes "length tags = n" "length entries = n" "pow2 n" "\<And>i. i < n \<Longrightarrow> slot_wf h (tags ! i) (entries ! i)" "i < n"
  shows "probe_free m tags i = table_probe m (map2 (slot_of h) tags entries) i"
  using assms(5)
proof (induction m arbitrary: i)
  case (Suc m)
  have "tags ! i AND TAG_EMPTY \<noteq> 0 \<longleftrightarrow> slot_of h (tags ! i) (entries ! i) = Free"
    by (simp add: slot_of_def)
  moreover have "(i + 1) AND (length tags - 1) = Suc i mod n" "Suc i mod n < n"
    using and_mask_mod [OF assms(3), of "i + 1"] assms(1) Suc.prems by simp_all
  ultimately show ?case using Suc assms(1,2) by simp
qed simp

lemma compact_loop_table:
  assumes wf: "shard_wf h s" and new: "length tags = sh_bucket_count s" "length entries = sh_bucket_count s"
      "\<And>i. i < sh_bucket_count s \<Longrightarrow> slot_wf h (tags ! i) (entries ! i)"
    and i: "i + m = sh_bucket_count s"
    and r: "table_rebuild (home_of (sh_bucket_count s)) (drop i (view h s)) (map2 (slot_of h) tags entries) = Some tab"
  shows "\<exists>tags' entries'. compact_loop m i h s (tags, entries) = Some (tags', entries') \<and>
    length tags' = sh_bucket_count s \<and> length entries' = sh_bucket_count s \<and>
    (\<forall>i < sh_bucket_count s. slot_wf h (tags' ! i) (entries' ! i)) \<and> map2 (slot_of h) tags' entries' = tab"
  using new i r
proof (induction m arbitrary: i tags entries)
  case 0
  then show ?case using shard_wfD(12) [OF wf] by simp
next
  case (Suc m)
  let ?n = "sh_bucket_count s"
  have i: "i < ?n" "Suc i + m = ?n" using Suc.prems(4) by simp_all
  have d: "drop i (view h s) = view h s ! i # drop (Suc i) (view h s)"
    using i(1) shard_wfD(12) [OF wf] by (simp add: Cons_nth_drop_Suc)
  show ?case
  proof (rule slot_cases [OF wf i(1)])
    fix a e assume f: "sh_entries s ! i = Some a" "h a = Some e" "sh_tags s ! i = make_tag (ce_hash e)" "entry_wf a e"
      "view h s ! i = Full (ce_key e, a)" "sh_tags s ! i AND TAG_CONTROL_MASK = 0"
    let ?home = "home_of ?n (ce_key e)" and ?tab = "map2 (slot_of h) tags entries"
    have h: "?home < ?n" "unat (ce_hash e) AND (?n - 1) = ?home" "ce_hash e = hash_key (ce_key e)"
      using and_mask_mod [OF shard_wfD(1) [OF wf]] shard_wfD(1) [OF wf] f(4) by (simp_all add: home_of_def entry_wf_def)
    obtain j where j: "table_probe ?n ?tab ?home = Some j"
      "table_rebuild (home_of ?n) (drop (Suc i) (view h s)) (?tab[j := Full (ce_key e, a)]) = Some tab"
      using Suc.prems(1,2,5) unfolding d f(5) by (auto simp: bind_eq_Some_conv)
    let ?t = "tags[j := make_tag (ce_hash e)]" and ?p = "entries[j := Some a]"
    have v: "map2 (slot_of h) ?t ?p = ?tab[j := Full (ce_key e, a)]"
      using Suc.prems(1,2) slot_of_full(1) [of h a e, OF f(2,4)] h(3) by (simp add: zip_update map_update)
    have "slot_wf h (?t ! l) (?p ! l)" if "l < ?n" for l
      using Suc.prems(1-3) that slot_of_full(2) [of h a e, OF f(2,4)] h(3) by (cases "l = j") auto
    from Suc.IH [OF _ _ this i(2) j(2) [folded v]] Suc.prems(1,2)
    have "\<exists>tags' entries'. compact_loop m (Suc i) h s (?t, ?p) = Some (tags', entries') \<and>
      length tags' = ?n \<and> length entries' = ?n \<and> (\<forall>i < sh_bucket_count s. slot_wf h (tags' ! i) (entries' ! i)) \<and>
      map2 (slot_of h) tags' entries' = tab" by simp
    moreover have "probe_free ?n tags ?home = Some j"
      using probe_free_table [OF Suc.prems(1,2) shard_wfD(1) [OF wf] Suc.prems(3) h(1)] j(1) by simp
    ultimately show ?thesis using f(1,2,6) h(2) by simp
  qed (use Suc d i in auto)
qed

lemma shard_compact:
  assumes wf: "shard_wf h s"
  shows "\<exists>s'. compact_shard cmp h s = Some s' \<and> shard_wf h s' \<and> table_map (view h s') = table_map (view h s) \<and>
    sh_capacity s' = sh_capacity s \<and> sh_size s' = sh_size s"
proof (cases "fst cmp \<and> snd cmp")
  case True
  let ?n = "sh_bucket_count s"
  note w = shard_wfD [OF wf]
  note e = empty_table(1-4) [where n = ?n] empty_table(5) [where n = ?n and h = h]
  have "distinct (slot_keys (view h s))" using table_okD(4) [OF w(5)] by (rule distinct_slot_keys)
  then obtain tab where tab: "table_rebuild (home_of ?n) (view h s) (replicate ?n Free) = Some tab"
    "table_ok (home_of ?n) tab" "tombs tab = 0" "length tab = ?n" "fulls tab = fulls (view h s)" "table_map tab = table_map (view h s)"
    using table_rebuild_correct [OF e(1), of "view h s"] e(2-4) w(1,13) by auto
  obtain tags entries where t: "compact_loop ?n 0 h s (replicate ?n TAG_EMPTY, replicate ?n None) = Some (tags, entries)"
    "length tags = ?n" "length entries = ?n" "\<forall>i < sh_bucket_count s. slot_wf h (tags ! i) (entries ! i)"
    "map2 (slot_of h) tags entries = tab"
    using compact_loop_table [OF wf, of "replicate ?n TAG_EMPTY" "replicate ?n None" 0 ?n tab] tab(1)
    unfolding e(5) by (auto simp: slot_wf_def)
  let ?s = "s\<lparr>sh_tags := tags, sh_entries := entries, sh_tombstone_count := 0, sh_clock_hand := 0\<rparr>"
  have v: "view h ?s = tab" using t(5) by (simp add: view_def)
  have "shard_wf h ?s" using w tab t(2-4) unfolding shard_wf_def v by simp
  then show ?thesis using True t(1) v tab(6) by (auto simp: compact_shard_def)
qed (use wf in \<open>auto simp: compact_shard_def\<close>)

end
