(* ===== verification/Cache_Evict.thy ===== *)
theory Cache_Evict
  imports Cache_Correct
begin

text \<open>
  Entries on the heap: which changes leave a shard as it is, the reference counts, and the
  eviction of one entry by the CLOCK hand.
\<close>

section \<open>Changes of the heap\<close>

text \<open>Everything but the reference count and the clock bit.\<close>

definition payload :: "cache_entry_t \<Rightarrow> cache_entry_t" where
  "payload e = e\<lparr>ce_ref_count := 0, ce_clock_bit := 0\<rparr>"

lemma payload_eq:
  assumes "payload e = payload e'"
  shows "ce_hash e = ce_hash e'" "ce_key e = ce_key e'" "entry_wf a e = entry_wf a e'" "ce_value e = ce_value e'"
    "ce_expires_at e = ce_expires_at e'" "ce_back e = ce_back e'"
  using assms by (cases e; cases e'; simp add: payload_def entry_wf_def)+

lemma payload_simps [simp]:
  "payload (e\<lparr>ce_clock_bit := b\<rparr>) = payload e" "payload (e\<lparr>ce_ref_count := r\<rparr>) = payload e"
  by (simp_all add: payload_def)

lemma shard_wf_cong:
  assumes wf: "shard_wf h s"
    and same: "\<forall>i k a. i < sh_bucket_count s \<and> view h s ! i = Full (k, a) \<longrightarrow> map_option payload (h' a) = map_option payload (h a)"
  shows "shard_wf h' s" "view h' s = view h s"
proof -
  note w = shard_wfD [OF wf]
  have slot: "slot_wf h' (sh_tags s ! i) (sh_entries s ! i) \<and>
      slot_of h' (sh_tags s ! i) (sh_entries s ! i) = slot_of h (sh_tags s ! i) (sh_entries s ! i)"
    if i: "i < sh_bucket_count s" for i
  proof (rule slot_cases [OF wf i])
    fix a e assume f: "sh_entries s ! i = Some a" "h a = Some e" "sh_tags s ! i = make_tag (ce_hash e)" "entry_wf a e"
      "view h s ! i = Full (ce_key e, a)"
    have "map_option payload (h' a) = Some (payload e)" using same i f(2,5) by auto
    then obtain e' where e': "h' a = Some e'" "payload e' = payload e" by auto
    then show ?thesis using f payload_eq [OF e'(2)] by (auto simp: slot_wf_def slot_of_def)
  qed (simp_all add: slot_wf_def slot_of_def)
  show v: "view h' s = view h s"
    using slot w(2,3) by (intro nth_equalityI) (simp_all add: view_def)
  show "shard_wf h' s" using wf slot unfolding shard_wf_def v by blast
qed

text \<open>Only clock bits differ.\<close>

definition quiet :: "entry_heap \<Rightarrow> entry_heap \<Rightarrow> bool" where
  "quiet h h' \<longleftrightarrow> (\<forall>a. map_option (\<lambda>e. e\<lparr>ce_clock_bit := 0\<rparr>) (h' a) = map_option (\<lambda>e. e\<lparr>ce_clock_bit := 0\<rparr>) (h a))"

definition clear_bits :: "addr set \<Rightarrow> entry_heap \<Rightarrow> entry_heap" where
  "clear_bits A h = (\<lambda>a. if a \<in> A then map_option (\<lambda>e. e\<lparr>ce_clock_bit := 0\<rparr>) (h a) else h a)"

lemma quiet_clear_bits: "quiet h (clear_bits A h)"
  by (auto simp: quiet_def clear_bits_def option.map_comp comp_def)

lemma quiet_payload:
  assumes "quiet h h'"
  shows "map_option payload (h' a) = map_option payload (h a)"
proof -
  have "map_option payload (map_option (\<lambda>e. e\<lparr>ce_clock_bit := 0\<rparr>) (h' a))
      = map_option payload (map_option (\<lambda>e. e\<lparr>ce_clock_bit := 0\<rparr>) (h a))"
    using assms by (simp add: quiet_def)
  then show ?thesis by (simp add: option.map_comp comp_def)
qed

lemma quiet_ref_count:
  assumes "quiet h h'"
  shows "map_option ce_ref_count (h' a) = map_option ce_ref_count (h a)"
proof -
  have "map_option ce_ref_count (map_option (\<lambda>e. e\<lparr>ce_clock_bit := 0\<rparr>) (h' a))
      = map_option ce_ref_count (map_option (\<lambda>e. e\<lparr>ce_clock_bit := 0\<rparr>) (h a))"
    using assms by (simp add: quiet_def)
  then show ?thesis by (simp add: option.map_comp comp_def)
qed

section \<open>Reference counts\<close>

text \<open>
  The entries in \<open>T\<close> are referenced once by a table, those in \<open>H\<close> by callers; exactly the
  referenced entries are allocated.
\<close>

definition ref_number :: "addr set \<Rightarrow> addr multiset \<Rightarrow> addr \<Rightarrow> nat" where
  "ref_number T H a = (if a \<in> T then 1 else 0) + count H a"

definition ref_entry :: "nat \<Rightarrow> cache_entry_t option \<Rightarrow> bool" where
  "ref_entry n p = (case p of None \<Rightarrow> n = 0 | Some e \<Rightarrow> 0 < n \<and> ce_ref_count e = int n)"

definition refs_ok :: "entry_heap \<Rightarrow> addr set \<Rightarrow> addr multiset \<Rightarrow> bool" where
  "refs_ok h T H \<longleftrightarrow> int (size H) < INT_MAX \<and> (\<forall>a. ref_entry (ref_number T H a) (h a))"

lemma refs_okD:
  assumes "refs_ok h T H"
  shows "h a = None \<longleftrightarrow> ref_number T H a = 0" "h a = Some e \<Longrightarrow> ce_ref_count e = int (ref_number T H a)"
    "a \<in> T \<Longrightarrow> \<exists>e. h a = Some e" "a \<in># H \<Longrightarrow> \<exists>e. h a = Some e" "h a = Some e \<Longrightarrow> a \<in> T \<or> a \<in># H"
    "ref_number T H a \<le> nat INT_MAX" "int (size H) < INT_MAX"
proof -
  have c: "case h a of None \<Rightarrow> ref_number T H a = 0
     | Some e \<Rightarrow> 0 < ref_number T H a \<and> ce_ref_count e = int (ref_number T H a)"
    using assms by (simp add: refs_ok_def ref_entry_def)
  then show "h a = None \<longleftrightarrow> ref_number T H a = 0" "h a = Some e \<Longrightarrow> ce_ref_count e = int (ref_number T H a)"
    by (auto split: option.splits)
  from c show "a \<in> T \<Longrightarrow> \<exists>e. h a = Some e" "a \<in># H \<Longrightarrow> \<exists>e. h a = Some e" "h a = Some e \<Longrightarrow> a \<in> T \<or> a \<in># H"
    by (auto simp: ref_number_def count_eq_zero_iff split: option.splits if_splits)
  show s: "int (size H) < INT_MAX" using assms by (simp add: refs_ok_def)
  have "count H a \<le> size H" by (rule count_le_size)
  with s show "ref_number T H a \<le> nat INT_MAX" by (auto simp: ref_number_def INT_MAX_def)
qed

lemma refs_ok_quiet:
  assumes "quiet h h'" "refs_ok h T H"
  shows "refs_ok h' T H"
proof -
  have "ref_entry n (h' a) = ref_entry n (h a)" for n a
    using quiet_ref_count [OF assms(1), of a] by (auto simp: ref_entry_def split: option.splits)
  then show ?thesis using assms(2) by (simp add: refs_ok_def)
qed

text \<open>Dropping a reference frees the entry exactly when it was the last one.\<close>

lemma refs_ok_at:
  assumes "refs_ok h T H" "int (size H') < INT_MAX" "\<forall>b. b \<noteq> a \<longrightarrow> ref_number T' H' b = ref_number T H b"
    "ref_entry (ref_number T' H' a) p"
  shows "refs_ok (h(a := p)) T' H'"
  using assms by (auto simp: refs_ok_def)

lemma ref_dec:
  assumes r: "refs_ok h T H" and n: "ref_number T' H' a + 1 = ref_number T H a" "size H' \<le> size H"
    and other: "\<forall>b. b \<noteq> a \<longrightarrow> ref_number T' H' b = ref_number T H b"
  shows "\<exists>h'. entry_ref_dec h a = Some h' \<and> refs_ok h' T' H' \<and> (\<forall>b. b \<noteq> a \<longrightarrow> h' b = h b) \<and>
    (\<forall>e'. h' a = Some e' \<longrightarrow> map_option payload (h a) = Some (payload e'))"
proof -
  note rD = refs_okD [OF r]
  obtain e where e: "h a = Some e" using rD(1) [of a] n by auto
  have c: "ce_ref_count e = int (ref_number T H a)" using rD(2) [OF e] .
  have pos: "ce_ref_count e \<noteq> INT_MIN" using c by (simp add: INT_MIN_def)
  have size: "int (size H') < INT_MAX" using rD(7) n(2) by linarith
  show ?thesis
  proof (cases "ref_number T H a = 1")
    case True
    then have "entry_ref_dec h a = Some (h(a := None))" using e c by (simp add: entry_ref_dec_def)
    moreover have "refs_ok (h(a := None)) T' H'"
      using refs_ok_at [OF r size other, where p = None] n True by (simp add: ref_entry_def)
    ultimately show ?thesis by auto
  next
    case False
    let ?e = "e\<lparr>ce_ref_count := ce_ref_count e - 1\<rparr>"
    have "entry_ref_dec h a = Some (h(a \<mapsto> ?e))" using e c pos False by (simp add: entry_ref_dec_def)
    moreover have "refs_ok (h(a \<mapsto> ?e)) T' H'"
      using refs_ok_at [OF r size other, of "Some ?e"] n(1) False c by (simp add: ref_entry_def flip: n(1))
    ultimately show ?thesis using e by auto
  qed
qed

lemma ref_dec_table:
  assumes "refs_ok h T H" "a \<in> T"
  shows "\<exists>h'. entry_ref_dec h a = Some h' \<and> refs_ok h' (T - {a}) H \<and> (\<forall>b. b \<noteq> a \<longrightarrow> h' b = h b) \<and>
    (\<forall>e'. h' a = Some e' \<longrightarrow> map_option payload (h a) = Some (payload e'))"
  using assms(2) by (intro ref_dec [OF assms(1)]) (auto simp: ref_number_def)

lemma ref_dec_handle:
  assumes "refs_ok h T H" "a \<in># H"
  shows "\<exists>h'. entry_ref_dec h a = Some h' \<and> refs_ok h' T (H - {#a#}) \<and> (\<forall>b. b \<noteq> a \<longrightarrow> h' b = h b) \<and>
    (\<forall>e'. h' a = Some e' \<longrightarrow> map_option payload (h a) = Some (payload e'))"
  using assms(2) by (intro ref_dec [OF assms(1)]) (auto simp: ref_number_def size_Diff_singleton)

lemma ref_inc:
  assumes r: "refs_ok h T H" and e: "h a = Some e" and b: "int (size H) + 1 < INT_MAX"
  shows "entry_ref_inc h a = Some (h(a \<mapsto> e\<lparr>ce_ref_count := ce_ref_count e + 1\<rparr>)) \<and>
    refs_ok (h(a \<mapsto> e\<lparr>ce_ref_count := ce_ref_count e + 1\<rparr>)) T (add_mset a H)"
proof -
  have c: "ce_ref_count e = int (ref_number T H a)" using refs_okD(2) [OF r e] .
  have "count H a \<le> size H" by (rule count_le_size)
  then have "ce_ref_count e \<noteq> INT_MAX" using b by (auto simp: c ref_number_def)
  moreover have "refs_ok (h(a \<mapsto> e\<lparr>ce_ref_count := ce_ref_count e + 1\<rparr>)) T (add_mset a H)"
    using b c by (intro refs_ok_at [OF r]) (simp_all add: ref_number_def ref_entry_def)
  ultimately show ?thesis using e by (simp add: entry_ref_inc_def)
qed

section \<open>The CLOCK hand\<close>

text \<open>The \<open>k\<close> slots from \<open>i\<close> on, and the entries found there.\<close>

fun ring_from :: "nat \<Rightarrow> nat \<Rightarrow> nat \<Rightarrow> nat list" where
  "ring_from n 0 i = []"
| "ring_from n (Suc k) i = i # ring_from n k (Suc i mod n)"

fun residents :: "(bytes \<times> addr) slot list \<Rightarrow> nat list \<Rightarrow> (nat \<times> addr) list" where
  "residents v [] = []"
| "residents v (i # is) = (case v ! i of Full (k, a) \<Rightarrow> (i, a) # residents v is | _ \<Rightarrow> residents v is)"

definition unused :: "entry_heap \<Rightarrow> nat \<times> addr \<Rightarrow> bool" where
  "unused h x \<longleftrightarrow> ce_clock_bit (the (h (snd x))) = 0"

lemma ring_from_less: "i < n \<Longrightarrow> j \<in> set (ring_from n k i) \<Longrightarrow> j < n"
proof (induction k arbitrary: i)
  case (Suc k)
  have "Suc i mod n < n" using Suc.prems(1) by simp
  from Suc.IH [OF this] Suc.prems show ?case by auto
qed simp

lemma ring_from_nth: "i < n \<Longrightarrow> d < k \<Longrightarrow> ring_from n k i ! d = (i + d) mod n"
proof (induction k arbitrary: i d)
  case (Suc k)
  then show ?case by (cases d) (simp_all add: mod_simps)
qed simp

lemma length_ring_from [simp]: "length (ring_from n k i) = k"
  by (induction k arbitrary: i) simp_all

lemma distinct_ring_from: "i < n \<Longrightarrow> k \<le> n \<Longrightarrow> distinct (ring_from n k i)"
proof -
  assume i: "i < n" and k: "k \<le> n"
  have "d = e" if "d < k" "e < k" "(i + d) mod n = (i + e) mod n" for d e
    using ring_eqI [of d i n e] that k by (simp add: add.commute)
  then show ?thesis using i by (simp add: distinct_conv_nth ring_from_nth) metis
qed

lemma residents_mem: "(i, a) \<in> set (residents v is) \<longleftrightarrow> i \<in> set is \<and> (\<exists>k. v ! i = Full (k, a))"
  by (induction "is") (auto split: slot.splits)

text \<open>An entry is in one slot only.\<close>

lemma resident_once:
  assumes wf: "shard_wf h s" and i: "i < sh_bucket_count s" "view h s ! i = Full (k, a)"
    and j: "j < sh_bucket_count s" "view h s ! j = Full (k', a)"
  shows "i = j"
proof -
  have "k = ce_key (the (h a))" if "i < sh_bucket_count s" "view h s ! i = Full (k, a)" for i k
    by (rule slot_cases [OF wf that(1)]) (use that in auto)
  with i j have "k = k'" by metis
  then show ?thesis using table_okD(4) [OF shard_wfD(5) [OF wf], unfolded shard_wfD(12) [OF wf]] i j by blast
qed

lemma tick_eq: "shard_wf h s \<Longrightarrow> tick s = s\<lparr>sh_clock_hand := Suc (sh_clock_hand s) mod sh_bucket_count s\<rparr>"
  using and_mask_mod [OF shard_wfD(1), of h s "Suc (sh_clock_hand s)"] by (simp add: tick_def)

lemma hand_wf:
  assumes "shard_wf h s" "j < sh_bucket_count s"
  shows "shard_wf h (s\<lparr>sh_clock_hand := j\<rparr>)" "view h (s\<lparr>sh_clock_hand := j\<rparr>) = view h s"
proof -
  show v: "view h (s\<lparr>sh_clock_hand := j\<rparr>) = view h s" by (simp add: view_def)
  show "shard_wf h (s\<lparr>sh_clock_hand := j\<rparr>)" using assms unfolding shard_wf_def v by simp
qed

definition scan_result ::
  "nat \<Rightarrow> entry_heap \<Rightarrow> shard_t \<Rightarrow> (nat \<times> addr) list \<Rightarrow> (bool \<times> entry_heap \<times> shard_t) option" where
  "scan_result k h s R =
     (let h' = clear_bits (snd ` set (takeWhile (\<lambda>x. \<not> unused h x) R)) h in
      case find (unused h) R of
        None \<Rightarrow> Some (False, h', s\<lparr>sh_clock_hand := (sh_clock_hand s + k) mod sh_bucket_count s\<rparr>)
      | Some (i, a) \<Rightarrow> map_option (\<lambda>h''. (True, h'', bury (s\<lparr>sh_clock_hand := Suc i mod sh_bucket_count s\<rparr>) i))
           (entry_ref_dec h' a))"

lemma scan_result_cong:
  assumes "\<And>x. x \<in> set R \<Longrightarrow> unused h1 x = unused h x" "h1 = clear_bits A h"
  shows "scan_result k h1 s R = (let h' = clear_bits (A \<union> snd ` set (takeWhile (\<lambda>x. \<not> unused h x) R)) h in
      case find (unused h) R of
        None \<Rightarrow> Some (False, h', s\<lparr>sh_clock_hand := (sh_clock_hand s + k) mod sh_bucket_count s\<rparr>)
      | Some (i, a) \<Rightarrow> map_option (\<lambda>h''. (True, h'', bury (s\<lparr>sh_clock_hand := Suc i mod sh_bucket_count s\<rparr>) i))
           (entry_ref_dec h' a))"
proof -
  have "takeWhile (\<lambda>x. \<not> unused h1 x) R = takeWhile (\<lambda>x. \<not> unused h x) R"
    using assms(1) by (intro takeWhile_cong) auto
  moreover have "find (unused h1) R = find (unused h) R" using assms(1) by (intro find_cong) auto
  moreover have "clear_bits B (clear_bits A h) = clear_bits (A \<union> B) h" for B
    by (auto simp: clear_bits_def fun_eq_iff option.map_comp comp_def)
  ultimately show ?thesis unfolding scan_result_def assms(2) by simp
qed

lemma clock_scan_eq:
  assumes "shard_wf h s" "k \<le> sh_bucket_count s"
  shows "clock_scan k h s = scan_result k h s (residents (view h s) (ring_from (sh_bucket_count s) k (sh_clock_hand s)))"
  using assms
proof (induction k arbitrary: h s)
  case 0
  have "clear_bits {} h = h" by (simp add: clear_bits_def)
  with shard_wfD(11) [OF "0.prems"(1)] show ?case by (simp add: scan_result_def)
next
  case (Suc k)
  let ?n = "sh_bucket_count s" and ?i = "sh_clock_hand s" and ?v = "view h s"
  note w = shard_wfD [OF Suc.prems(1)]
  let ?s = "s\<lparr>sh_clock_hand := Suc ?i mod ?n\<rparr>"
  let ?R = "residents ?v (ring_from ?n k (Suc ?i mod ?n))"
  have tick: "tick s = ?s" using tick_eq [OF Suc.prems(1)] .
  have wf': "shard_wf h ?s" "view h ?s = ?v" using hand_wf [OF Suc.prems(1), of "Suc ?i mod ?n"] w(11) by simp_all
  have hand: "(Suc ?i mod ?n + k) mod ?n = (?i + Suc k) mod ?n" by (simp add: mod_simps)
  have IH: "clock_scan k h ?s = scan_result k h ?s ?R" using Suc.IH [OF wf'(1)] Suc.prems(2) wf'(2) by simp
  show ?case
  proof (rule slot_cases [OF Suc.prems(1) w(11)])
    fix a e assume f: "sh_entries s ! ?i = Some a" "h a = Some e" "sh_tags s ! ?i = make_tag (ce_hash e)" "entry_wf a e"
      "?v ! ?i = Full (ce_key e, a)" "sh_tags s ! ?i AND TAG_CONTROL_MASK = 0"
    show ?thesis
    proof (cases "ce_clock_bit e = 0")
      case True
      then have "unused h (?i, a)" using f(2) by (simp add: unused_def)
      moreover have "clear_bits {} h = h" by (simp add: clear_bits_def)
      ultimately show ?thesis using f True tick
        by (simp add: scan_result_def Let_def) (cases "entry_ref_dec h a", simp_all)
    next
      case False
      define g where "g = h(a \<mapsto> e\<lparr>ce_clock_bit := 0\<rparr>)"
      have h: "g = clear_bits {a} h" using f(2) by (auto simp: g_def clear_bits_def fun_eq_iff)
      have same: "map_option payload (g b) = map_option payload (h b)" for b using f(2) by (simp add: g_def)
      have wf1: "shard_wf g ?s" "view g ?s = ?v"
        using shard_wf_cong [OF wf'(1), of g] same wf'(2) by simp_all
      have "unused g x = unused h x" if "x \<in> set ?R" for x
      proof -
        obtain j b where x: "x = (j, b)" by (cases x)
        with that obtain k' where j: "j \<in> set (ring_from ?n k (Suc ?i mod ?n))" "?v ! j = Full (k', b)"
          by (auto simp: residents_mem)
        have "distinct (?i # ring_from ?n k (Suc ?i mod ?n))"
          using distinct_ring_from [OF w(11), of "Suc k"] Suc.prems(2) by simp
        then have "j \<noteq> ?i" using j(1) by auto
        moreover have "j < ?n" using j(1) ring_from_less [of "Suc ?i mod ?n" ?n j k] w(11) by auto
        ultimately have "b \<noteq> a" using resident_once [OF Suc.prems(1) _ j(2) w(11)] f(5) by blast
        then show ?thesis by (simp add: unused_def x g_def)
      qed
      note cong = scan_result_cong [OF this h, where k = k and s = ?s]
      have nu: "\<not> unused h (?i, a)" using f(2) False by (simp add: unused_def)
      have "scan_result (Suc k) h s ((?i, a) # ?R) = scan_result k g ?s ?R"
        by (rule trans [OF _ cong [symmetric]]) (simp add: scan_result_def hand Let_def nu split: option.split)
      moreover have "clock_scan k g ?s = scan_result k g ?s ?R"
        using Suc.IH [OF wf1(1)] Suc.prems(2) wf1(2) by simp
      ultimately show ?thesis using f False tick by (simp add: Let_def flip: g_def)
    qed
  qed (simp_all add: tick IH, simp_all add: scan_result_def hand Let_def split: option.split)
qed

lemma clock_force_eq:
  assumes "shard_wf h s"
  shows "clock_force k h s = (case residents (view h s) (ring_from (sh_bucket_count s) k (sh_clock_hand s)) of
      [] \<Rightarrow> Some (False, h, s\<lparr>sh_clock_hand := (sh_clock_hand s + k) mod sh_bucket_count s\<rparr>)
    | (i, a) # _ \<Rightarrow> map_option (\<lambda>h'. (True, h', bury (s\<lparr>sh_clock_hand := Suc i mod sh_bucket_count s\<rparr>) i)) (entry_ref_dec h a))"
  using assms
proof (induction k arbitrary: s)
  case 0
  then show ?case using shard_wfD(11) [OF 0] by simp
next
  case (Suc k)
  let ?n = "sh_bucket_count s" and ?i = "sh_clock_hand s"
  note w = shard_wfD [OF Suc.prems]
  have tick: "tick s = s\<lparr>sh_clock_hand := Suc ?i mod ?n\<rparr>" using tick_eq [OF Suc.prems] .
  have wf': "shard_wf h (tick s)" "view h (tick s) = view h s" using tick_wf [OF Suc.prems] by simp_all
  have hand: "(Suc ?i mod ?n + k) mod ?n = (?i + Suc k) mod ?n" by (simp add: mod_simps)
  note IH = Suc.IH [OF wf'(1), unfolded wf'(2)]
  show ?case
  proof (rule slot_cases [OF Suc.prems w(11)])
    fix a e assume "sh_entries s ! ?i = Some a" "h a = Some e" "view h s ! ?i = Full (ce_key e, a)"
      "sh_tags s ! ?i AND TAG_CONTROL_MASK = 0"
    then show ?thesis using tick by (cases "entry_ref_dec h a") (simp_all add: Let_def)
  qed (simp_all add: IH, simp_all add: tick hand split: list.split)
qed

text \<open>The entry the hand chooses: the first unused one, or else the first one.\<close>

definition clock_victim :: "entry_heap \<Rightarrow> (nat \<times> addr) list \<Rightarrow> nat \<times> addr" where
  "clock_victim h R = (case find (unused h) R of Some x \<Rightarrow> x | None \<Rightarrow> hd R)"

lemma clock_evict_eq:
  assumes wf: "shard_wf h s" and size: "0 < sh_size s"
  defines "R \<equiv> residents (view h s) (ring_from (sh_bucket_count s) (sh_bucket_count s) (sh_clock_hand s))"
  defines "i \<equiv> fst (clock_victim h R)"
  shows "R \<noteq> []" "clock_victim h R \<in> set R"
    "clock_evict h s = map_option (\<lambda>h'. (True, h', bury (s\<lparr>sh_clock_hand := Suc i mod sh_bucket_count s\<rparr>) i))
       (entry_ref_dec (clear_bits (snd ` set (takeWhile (\<lambda>x. \<not> unused h x) R)) h) (snd (clock_victim h R)))"
proof -
  let ?n = "sh_bucket_count s" and ?hand = "sh_clock_hand s"
  note w = shard_wfD [OF wf]
  obtain j where j: "j < ?n" "view h s ! j \<noteq> Free" "view h s ! j \<noteq> Tomb"
    using size w(6,12) by (auto simp: fulls_def in_set_conv_nth filter_empty_conv)
  obtain d where d: "d < ?n" "j = (?hand + d) mod ?n" using ring_forward_surj [OF w(11) j(1)] by auto
  then have "j \<in> set (ring_from ?n ?n ?hand)" using ring_from_nth [OF w(11), of d ?n] by (metis length_ring_from nth_mem)
  moreover obtain k a where "view h s ! j = Full (k, a)" using j(2,3) by (cases "view h s ! j") auto
  ultimately have "(j, a) \<in> set R" by (auto simp: R_def residents_mem)
  then show ne: "R \<noteq> []" by auto
  show "clock_victim h R \<in> set R" using ne
    by (auto simp: clock_victim_def find_Some_iff split: option.split)
  have scan: "clock_scan ?n h s = scan_result ?n h s R" using clock_scan_eq [OF wf] by (simp add: R_def)
  show "clock_evict h s = map_option (\<lambda>h'. (True, h', bury (s\<lparr>sh_clock_hand := Suc i mod ?n\<rparr>) i))
       (entry_ref_dec (clear_bits (snd ` set (takeWhile (\<lambda>x. \<not> unused h x) R)) h) (snd (clock_victim h R)))"
  proof (cases "find (unused h) R")
    case (Some x)
    obtain i' a' where x: "x = (i', a')" by (cases x)
    then show ?thesis using Some scan unfolding clock_evict_def scan_result_def i_def clock_victim_def
      by (cases "entry_ref_dec (clear_bits (snd ` set (takeWhile (\<lambda>x. \<not> unused h x) R)) h) a'") (simp_all add: Let_def)
  next
    case None
    let ?h = "clear_bits (snd ` set (takeWhile (\<lambda>x. \<not> unused h x) R)) h"
    have "s\<lparr>sh_clock_hand := (?hand + ?n) mod ?n\<rparr> = s" using w(11) by simp
    then have "clock_scan ?n h s = Some (False, ?h, s)" using scan None by (simp add: scan_result_def Let_def)
    moreover have q: "shard_wf ?h s" "view ?h s = view h s"
      using shard_wf_cong [OF wf, of ?h] quiet_payload [OF quiet_clear_bits] by simp_all
    ultimately have "clock_evict h s = clock_force ?n ?h s" by (simp add: clock_evict_def)
    then show ?thesis using ne None unfolding clock_force_eq [OF q(1)] q(2) i_def clock_victim_def
      by (cases R) (auto simp flip: R_def split: prod.splits)
  qed
qed

end
