(* ===== verification/Cache_Ops.thy ===== *)
theory Cache_Ops
  imports Cache_Evict
begin

text \<open>
  The whole cache as a map from keys to entries with reference counts: the invariant, and the
  effect of every critical section on the map, the counts and the contents of the entries.
\<close>

section \<open>The map of a cache\<close>

definition cmap :: "cache_s \<Rightarrow> entry_heap \<Rightarrow> bytes \<rightharpoonup> addr" where
  "cmap c h k = table_map (view h (c_shards c ! key_shard k)) k"

definition cache_wf :: "cache_s \<Rightarrow> entry_heap \<Rightarrow> bool" where
  "cache_wf c h \<longleftrightarrow> length (c_shards c) = CACHE_SHARD_COUNT \<and>
     (\<forall>i < CACHE_SHARD_COUNT. shard_wf h (c_shards c ! i) \<and>
        (\<forall>k a. table_map (view h (c_shards c ! i)) k = Some a \<longrightarrow> key_shard k = i))"

definition cache_inv :: "cache_s \<Rightarrow> entry_heap \<Rightarrow> addr multiset \<Rightarrow> bool" where
  "cache_inv c h H \<longleftrightarrow> cache_wf c h \<and> refs_ok h (ran (cmap c h)) H \<and> (\<forall>a e. h a = Some e \<longrightarrow> entry_wf a e)"

lemma cache_inv_wf: "cache_inv c h H \<Longrightarrow> cache_wf c h"
  by (simp add: cache_inv_def)

text \<open>The entries that stay allocated keep their contents.\<close>

definition carried :: "entry_heap \<Rightarrow> entry_heap \<Rightarrow> bool" where
  "carried h h' \<longleftrightarrow> (\<forall>b e e'. h b = Some e \<and> h' b = Some e' \<longrightarrow> payload e' = payload e)"

lemma carried_refl [simp]: "carried h h"
  by (auto simp: carried_def)

lemma carried_trans:
  assumes "carried h h'" "carried h' h''" "dom h \<inter> dom h'' \<subseteq> dom h'"
  shows "carried h h''"
  unfolding carried_def
proof (intro allI impI)
  fix b e e'' assume b: "h b = Some e \<and> h'' b = Some e''"
  then have "b \<in> dom h'" using assms(3) by blast
  then obtain e' where "h' b = Some e'" by blast
  with b assms(1,2) show "payload e'' = payload e" by (metis carried_def)
qed

lemma quiet_carried:
  assumes "quiet h h'"
  shows "carried h h'"
  unfolding carried_def
proof (intro allI impI)
  fix b e e' assume "h b = Some e \<and> h' b = Some e'"
  then show "payload e' = payload e" using quiet_payload [OF assms, of b] by simp
qed

lemma quiet_dom: "quiet h h' \<Longrightarrow> dom h' = dom h"
proof -
  assume "quiet h h'"
  then have "h' a = None \<longleftrightarrow> h a = None" for a
    using quiet_payload [of h h' a] by (cases "h a"; cases "h' a") auto
  then show ?thesis by (auto simp: dom_def)
qed

lemma key_shard_less [simp]: "key_shard k < CACHE_SHARD_COUNT"
proof -
  have "unat ((x :: u32) AND 31) < 32" for x using word_and_le1 [of x 31] by (simp add: word_le_nat_alt)
  then show ?thesis by (simp add: key_shard_def get_shard_idx_def CACHE_SHARD_COUNT_def)
qed

lemma cache_wfD:
  assumes "cache_wf c h"
  shows "length (c_shards c) = CACHE_SHARD_COUNT" "i < CACHE_SHARD_COUNT \<Longrightarrow> shard_wf h (c_shards c ! i)"
    "i < CACHE_SHARD_COUNT \<Longrightarrow> table_map (view h (c_shards c ! i)) k = Some a \<Longrightarrow> key_shard k = i"
  using assms by (auto simp: cache_wf_def)

lemma cmap_entry:
  assumes wf: "cache_wf c h" and a: "cmap c h k = Some a"
  shows "\<exists>e. h a = Some e \<and> entry_wf a e \<and> ce_key e = k"
proof -
  let ?s = "c_shards c ! key_shard k"
  have s: "shard_wf h ?s" using cache_wfD(2) [OF wf] by simp
  obtain i where i: "i < sh_bucket_count ?s" "view h ?s ! i = Full (k, a)"
    using a table_map_Some [of "view h ?s" k a] shard_wfD(12) [OF s] by (auto simp: cmap_def)
  show ?thesis by (rule slot_cases [OF s i(1)]) (use i(2) in auto)
qed

lemma cmap_inj: "cache_wf c h \<Longrightarrow> cmap c h k = Some a \<Longrightarrow> cmap c h k' = Some a \<Longrightarrow> k = k'"
  using cmap_entry by (metis option.inject)

lemma shard_entry_ran:
  assumes "cache_wf c h" "i < CACHE_SHARD_COUNT" "j < sh_bucket_count (c_shards c ! i)" "view h (c_shards c ! i) ! j = Full (k, a)"
  shows "cmap c h k = Some a" "a \<in> ran (cmap c h)" "key_shard k = i"
proof -
  note s = cache_wfD(2) [OF assms(1,2)]
  have m: "table_map (view h (c_shards c ! i)) k = Some a"
    using table_map_iff [OF shard_wfD(5) [OF s]] assms(3,4) shard_wfD(12) [OF s] by auto
  from cache_wfD(3) [OF assms(1,2) m] show "key_shard k = i" .
  with m show "cmap c h k = Some a" by (simp add: cmap_def)
  then show "a \<in> ran (cmap c h)" by (auto simp: ran_def)
qed

text \<open>Replacing the shard of a key.\<close>

lemma shard_change_at:
  assumes i: "i < CACHE_SHARD_COUNT" and wf: "cache_wf c h" and s': "shard_wf h' s'" and car: "carried h h'" and al: "\<forall>x\<in>ran m. h' x \<noteq> None"
    and here: "\<And>k. key_shard k = i \<Longrightarrow> table_map (view h' s') k = m k"
    and there: "\<And>k. key_shard k \<noteq> i \<Longrightarrow> table_map (view h' s') k = None \<and> m k = cmap c h k"
  defines "c' \<equiv> c\<lparr>c_shards := (c_shards c)[i := s']\<rparr>"
  shows "cache_wf c' h'" "cmap c' h' = m"
proof -
  have len: "length (c_shards c) = CACHE_SHARD_COUNT" using cache_wfD(1) [OF wf] .
  have nth: "c_shards c' ! j = (if j = i then s' else c_shards c ! j)" for j
    using len i by (simp add: c'_def)
  have other: "shard_wf h' (c_shards c ! j)" "view h' (c_shards c ! j) = view h (c_shards c ! j)"
    if j: "j < CACHE_SHARD_COUNT" "j \<noteq> i" for j
  proof -
    have "map_option payload (h' a) = map_option payload (h a)"
      if a: "l < sh_bucket_count (c_shards c ! j)" "view h (c_shards c ! j) ! l = Full (k, a)" for l k a
    proof -
      note e = shard_entry_ran [OF wf j(1) a]
      have "m k = Some a" using e(1,3) there [of k] j(2) by simp
      then obtain e' where "h' a = Some e'" using al by (auto simp: ran_def)
      moreover obtain e0 where "h a = Some e0" using cmap_entry [OF wf e(1)] by blast
      ultimately show ?thesis using car by (auto simp: carried_def)
    qed
    then have same: "\<forall>l k a. l < sh_bucket_count (c_shards c ! j) \<and> view h (c_shards c ! j) ! l = Full (k, a) \<longrightarrow>
        map_option payload (h' a) = map_option payload (h a)" by blast
    from shard_wf_cong [OF cache_wfD(2) [OF wf j(1)] same]
    show "shard_wf h' (c_shards c ! j)" "view h' (c_shards c ! j) = view h (c_shards c ! j)" by blast+
  qed
  show m: "cmap c' h' = m"
    using here there other by (auto simp: cmap_def nth fun_eq_iff)
  show "cache_wf c' h'"
    unfolding cache_wf_def
  proof (intro conjI allI impI)
    show "length (c_shards c') = CACHE_SHARD_COUNT" using len by (simp add: c'_def)
  next
    fix j assume j: "j < CACHE_SHARD_COUNT"
    then show "shard_wf h' (c_shards c' ! j)" using s' other(1) by (simp add: nth)
    fix k a assume a: "table_map (view h' (c_shards c' ! j)) k = Some a"
    show "key_shard k = j"
    proof (cases "j = i")
      case True
      with a there [of k] show ?thesis by (auto simp: nth)
    next
      case False
      with a other(2) [OF j False] cache_wfD(3) [OF wf j] show ?thesis by (simp add: nth)
    qed
  qed
qed

lemma shard_change_wf:
  assumes "cache_wf c h" "shard_wf h' s'" "carried h h'" "\<forall>x\<in>ran m. h' x \<noteq> None"
    "\<And>k. key_shard k = key_shard key \<Longrightarrow> table_map (view h' s') k = m k"
    "\<And>k. key_shard k \<noteq> key_shard key \<Longrightarrow> table_map (view h' s') k = None \<and> m k = cmap c h k"
  shows "cache_wf (with_shard c key s') h'" "cmap (with_shard c key s') h' = m"
  using shard_change_at [OF key_shard_less assms] by (simp_all add: with_shard_def)

lemma shard_change:
  assumes "cache_wf c h" "shard_wf h' s'" "carried h h'" "refs_ok h' (ran m) H"
    "\<And>k. key_shard k = key_shard key \<Longrightarrow> table_map (view h' s') k = m k"
    "\<And>k. key_shard k \<noteq> key_shard key \<Longrightarrow> table_map (view h' s') k = None \<and> m k = cmap c h k"
    "\<forall>a e. h' a = Some e \<longrightarrow> entry_wf a e"
  shows "cache_inv (with_shard c key s') h' H" "cmap (with_shard c key s') h' = m"
proof -
  have "\<forall>x\<in>ran m. h' x \<noteq> None" using refs_okD(3) [OF assms(4)] by blast
  note w = shard_change_wf [OF assms(1-3) this assms(5,6)]
  then show "cmap (with_shard c key s') h' = m" by blast
  then show "cache_inv (with_shard c key s') h' H" using w(1) assms(4,7) by (simp add: cache_inv_def)
qed

section \<open>Eviction\<close>

lemma place_for_bury:
  assumes "place_for home v k j" "view' = v[i := Tomb]" "i < length v" "v ! i = Full x"
  shows "place_for home view' k j"
proof -
  have ne: "j \<noteq> i" using assms(1,4) by (auto simp: place_for_def)
  obtain d where d: "d < length v" "j = ring v (home k) d" "clear_path_to v (home k) d" using assms(1) by (auto simp: place_for_def)
  have "clear_path_to (v[i := Tomb]) (home k) d"
    using assms(3) d(3) by (intro clear_path_mono [OF _ _ d(3)]) (auto simp: nth_list_update)
  then show ?thesis using assms ne d by (auto simp: place_for_def)
qed

lemma ref_dec_carried:
  assumes "\<forall>b. b \<noteq> a \<longrightarrow> h' b = h b" "\<forall>e'. h' a = Some e' \<longrightarrow> map_option payload (h a) = Some (payload e')"
  shows "carried h h'" "dom h' \<subseteq> dom h"
proof -
  show "carried h h'"
    unfolding carried_def
  proof (intro allI impI)
    fix b e e' assume "h b = Some e \<and> h' b = Some e'"
    then show "payload e' = payload e" using assms by (cases "b = a") auto
  qed
  show "dom h' \<subseteq> dom h"
  proof
    fix b assume "b \<in> dom h'"
    then show "b \<in> dom h" using assms by (cases "b = a") auto
  qed
qed

lemma evict_spec:
  assumes wf: "shard_wf h s" and size: "0 < sh_size s" and refs: "refs_ok h T H"
    and sub: "\<And>i k a. i < sh_bucket_count s \<Longrightarrow> view h s ! i = Full (k, a) \<Longrightarrow> a \<in> T"
  shows "\<exists>h' s' i k a. clock_evict h s = Some (True, h', s') \<and> shard_wf h' s' \<and> i < sh_bucket_count s \<and>
    view h s ! i = Full (k, a) \<and> view h' s' = (view h s)[i := Tomb] \<and> refs_ok h' (T - {a}) H \<and> carried h h' \<and>
    dom h' \<subseteq> dom h \<and> sh_size s' < sh_size s \<and> sh_capacity s' = sh_capacity s \<and> sh_bucket_count s' = sh_bucket_count s \<and>
    table_map (view h' s') = (table_map (view h s))(k := None)"
proof -
  let ?n = "sh_bucket_count s"
  define R where "R = residents (view h s) (ring_from ?n ?n (sh_clock_hand s))"
  obtain i a where ia: "clock_victim h R = (i, a)" by fastforce
  note ev = clock_evict_eq [OF wf size, folded R_def, unfolded ia, simplified]
  obtain k where k: "i \<in> set (ring_from ?n ?n (sh_clock_hand s))" "view h s ! i = Full (k, a)"
    using ev(2) by (auto simp: R_def residents_mem)
  have i: "i < ?n" using ring_from_less [OF shard_wfD(11) [OF wf] k(1)] .
  define g where "g = clear_bits (snd ` set (takeWhile (\<lambda>x. \<not> unused h x) R)) h"
  have q: "quiet h g" by (simp add: g_def quiet_clear_bits)
  obtain h' where h': "entry_ref_dec g a = Some h'" "refs_ok h' (T - {a}) H" "\<forall>b. b \<noteq> a \<longrightarrow> h' b = g b"
    "\<forall>e'. h' a = Some e' \<longrightarrow> map_option payload (g a) = Some (payload e')"
    using ref_dec_table [OF refs_ok_quiet [OF q refs] sub [OF i k(2)]] by blast
  let ?s = "s\<lparr>sh_clock_hand := Suc i mod ?n\<rparr>"
  have s: "shard_wf h ?s" "view h ?s = view h s" using hand_wf [OF wf, of "Suc i mod ?n"] i by simp_all
  note b = shard_bury [OF s(1), unfolded s(2), simplified, OF i k(2)]
  note car = ref_dec_carried [OF h'(3,4)]
  have c: "carried h h'" "dom h' \<subseteq> dom h"
    using carried_trans [OF quiet_carried [OF q] car(1)] car(2) quiet_dom [OF q] by auto
  have same: "map_option payload (h' x) = map_option payload (h x)"
    if x: "j < sh_bucket_count (bury ?s i)" "view h (bury ?s i) ! j = Full (k', x)" for j k' x
  proof -
    have j: "j < ?n" using x(1) by (simp add: bury_def)
    have "j \<noteq> i" using x(2) i shard_wfD(12) [OF wf] unfolding b(3) by auto
    then have v: "view h s ! j = Full (k', x)" using x(2) unfolding b(3) by simp
    have "x \<noteq> a" using resident_once [OF wf j v i] k(2) \<open>j \<noteq> i\<close> by blast
    then obtain e' where e': "h' x = Some e'" using refs_okD(3) [OF h'(2), of x] sub [OF j v] by auto
    obtain e where "h x = Some e" using refs_okD(3) [OF refs sub [OF j v]] by blast
    with e' c(1) show ?thesis by (auto simp: carried_def)
  qed
  then have "\<forall>j k' x. j < sh_bucket_count (bury ?s i) \<and> view h (bury ?s i) ! j = Full (k', x) \<longrightarrow>
      map_option payload (h' x) = map_option payload (h x)" by blast
  from shard_wf_cong [OF b(1) this]
  have final: "shard_wf h' (bury ?s i)" "view h' (bury ?s i) = (view h s)[i := Tomb]" by (simp_all add: b(3))
  have "clock_evict h s = Some (True, h', bury ?s i)" using ev(3) h'(1) by (simp add: g_def)
  moreover have "table_map (view h' (bury ?s i)) = (table_map (view h s))(k := None)" using b(2,3) final(2) by simp
  moreover have "sh_size (bury ?s i) < sh_size s" "sh_capacity (bury ?s i) = sh_capacity s"
    "sh_bucket_count (bury ?s i) = sh_bucket_count s" using b(4) by (simp_all add: bury_def)
  ultimately show ?thesis using i k(2) h'(2) c final by blast
qed

section \<open>Removing and reading entries\<close>

lemma carried_entries:
  assumes "carried h h'" "dom h' \<subseteq> dom h" "\<forall>a e. h a = Some e \<longrightarrow> entry_wf a e"
  shows "\<forall>a e. h' a = Some e \<longrightarrow> entry_wf a e"
proof (intro allI impI)
  fix a e' assume e': "h' a = Some e'"
  then obtain e where "h a = Some e" using assms(2) by blast
  then have "payload e' = payload e" "entry_wf a e" using assms(1,3) e' by (auto simp: carried_def)
  then show "entry_wf a e'" using payload_eq(3) by blast
qed

lemma shard_wf_carried:
  assumes wf: "shard_wf h s" and car: "carried h h'"
    and al: "\<forall>k a. table_map (view h s) k = Some a \<longrightarrow> h' a \<noteq> None"
  shows "shard_wf h' s" "view h' s = view h s"
proof -
  have "\<forall>i k a. i < sh_bucket_count s \<and> view h s ! i = Full (k, a) \<longrightarrow> map_option payload (h' a) = map_option payload (h a)"
  proof (intro allI impI)
    fix i k a assume i: "i < sh_bucket_count s \<and> view h s ! i = Full (k, a)"
    then have "table_map (view h s) k = Some a"
      using table_map_iff [OF shard_wfD(5) [OF wf]] shard_wfD(12) [OF wf] by auto
    then obtain e' where "h' a = Some e'" using al by blast
    moreover obtain e where "h a = Some e" by (rule slot_cases [OF wf, of i]) (use i in auto)
    ultimately show "map_option payload (h' a) = map_option payload (h a)" using car by (simp add: carried_def)
  qed
  from shard_wf_cong [OF wf this] show "shard_wf h' s" "view h' s = view h s" by blast+
qed

lemma ran_remove:
  assumes "cache_wf c h" "cmap c h k = Some a"
  shows "ran ((cmap c h)(k := None)) = ran (cmap c h) - {a}"
proof (rule set_eqI)
  fix b
  show "b \<in> ran ((cmap c h)(k := None)) \<longleftrightarrow> b \<in> ran (cmap c h) - {a}"
    using cmap_inj [OF assms(1), of _ b k] assms(2) unfolding ran_def by auto (metis option.inject)
qed

lemma remove_spec:
  assumes inv: "cache_inv c h H" and a: "cmap c h key = Some a"
    and s1: "shard_wf h s1" "table_map (view h s1) = (table_map (view h (c_shards c ! key_shard key)))(key := None)"
  shows "\<exists>h'. entry_ref_dec h a = Some h' \<and> cache_inv (with_shard c key s1) h' H \<and>
    cmap (with_shard c key s1) h' = (cmap c h)(key := None) \<and> carried h h' \<and> dom h' \<subseteq> dom h"
proof -
  have wf: "cache_wf c h" and refs: "refs_ok h (ran (cmap c h)) H" and ent: "\<forall>a e. h a = Some e \<longrightarrow> entry_wf a e"
    using inv by (simp_all add: cache_inv_def)
  let ?m = "(cmap c h)(key := None)"
  have "a \<in> ran (cmap c h)" using a by (auto simp: ran_def)
  from ref_dec_table [OF refs this] obtain h' where h': "entry_ref_dec h a = Some h'" "refs_ok h' (ran ?m) H"
    "\<forall>b. b \<noteq> a \<longrightarrow> h' b = h b" "\<forall>e'. h' a = Some e' \<longrightarrow> map_option payload (h a) = Some (payload e')"
    unfolding ran_remove [OF wf a] by blast
  note car = ref_dec_carried [OF h'(3,4)]
  have m1: "table_map (view h s1) k = (if key_shard k = key_shard key then ?m k else None)" for k
    using s1(2) cache_wfD(3) [OF wf, of "key_shard key" k]
    by (cases "table_map (view h (c_shards c ! key_shard key)) k") (auto simp: cmap_def)
  have "\<forall>k x. table_map (view h s1) k = Some x \<longrightarrow> h' x \<noteq> None"
  proof (intro allI impI)
    fix k x assume "table_map (view h s1) k = Some x"
    then have "x \<in> ran ?m" using m1 [of k] unfolding ran_def by (auto split: if_splits)
    then show "h' x \<noteq> None" using refs_okD(3) [OF h'(2), of x] by blast
  qed
  note w1 = shard_wf_carried [OF s1(1) car(1) this]
  have "cache_inv (with_shard c key s1) h' H" "cmap (with_shard c key s1) h' = ?m"
    by (rule shard_change [OF wf w1(1) car(1) h'(2)]; use w1(2) m1 carried_entries [OF car ent] in \<open>auto\<close>)+
  with h'(1) car show ?thesis by blast
qed

text \<open>A change of the heap alone.\<close>

lemma heap_change:
  assumes inv: "cache_inv c h H" and car: "carried h h'" and dom: "dom h' \<subseteq> dom h"
    and refs: "refs_ok h' (ran (cmap c h)) H'"
  shows "cache_inv c h' H'" "cmap c h' = cmap c h"
proof -
  have wf: "cache_wf c h" and ent: "\<forall>a e. h a = Some e \<longrightarrow> entry_wf a e" using inv by (simp_all add: cache_inv_def)
  have sh: "shard_wf h' (c_shards c ! i) \<and> view h' (c_shards c ! i) = view h (c_shards c ! i)" if i: "i < CACHE_SHARD_COUNT" for i
  proof -
    have "\<forall>k x. table_map (view h (c_shards c ! i)) k = Some x \<longrightarrow> h' x \<noteq> None"
    proof (intro allI impI)
      fix k x assume x: "table_map (view h (c_shards c ! i)) k = Some x"
      have "cmap c h k = Some x" using cache_wfD(3) [OF wf i x] x by (simp add: cmap_def)
      then show "h' x \<noteq> None" using refs_okD(3) [OF refs, of x] by (auto simp: ran_def)
    qed
    from shard_wf_carried [OF cache_wfD(2) [OF wf i] car this] show ?thesis by blast
  qed
  then show m: "cmap c h' = cmap c h" by (simp add: cmap_def fun_eq_iff)
  have "cache_wf c h'" using wf sh by (simp add: cache_wf_def)
  then show "cache_inv c h' H'" using m refs carried_entries [OF car dom ent] by (simp add: cache_inv_def)
qed

lemma find_cache:
  assumes wf: "cache_wf c h" and key: "length key < 2 ^ 32"
  defines "s \<equiv> c_shards c ! key_shard key"
  obtains (hit) i a e where "find_key h s key = Some (True, i)" "i < sh_bucket_count s" "view h s ! i = Full (key, a)"
      "sh_entries s ! i = Some a" "cmap c h key = Some a" "h a = Some e" "entry_wf a e" "ce_key e = key" "shard_wf h s"
  | (miss) i where "find_key h s key = Some (False, i)" "cmap c h key = None" "shard_wf h s"
      "place_for (home_of (sh_bucket_count s)) (view h s) key i"
proof -
  have s: "shard_wf h s" using cache_wfD(2) [OF wf] by (simp add: s_def)
  obtain found i where f: "find_key h s key = Some (found, i)"
    "found \<longrightarrow> (\<exists>a. i < sh_bucket_count s \<and> view h s ! i = Full (key, a) \<and> sh_entries s ! i = Some a \<and> table_map (view h s) key = Some a)"
    "\<not> found \<longrightarrow> table_map (view h s) key = None \<and> place_for (home_of (sh_bucket_count s)) (view h s) key i"
    using find_key_correct [OF s key] by blast
  show thesis
  proof (cases found)
    case True
    then obtain a where a: "i < sh_bucket_count s" "view h s ! i = Full (key, a)" "sh_entries s ! i = Some a" "cmap c h key = Some a"
      using f(2) by (auto simp: cmap_def s_def)
    from cmap_entry [OF wf a(4)] obtain e where "h a = Some e" "entry_wf a e" "ce_key e = key" by blast
    with hit f(1) a s True show thesis by simp
  next
    case False
    with miss f s show thesis by (auto simp: cmap_def s_def)
  qed
qed

section \<open>The critical sections\<close>

lemma get_shared_spec:
  assumes inv: "cache_inv c h H" and key: "length key < 2 ^ 32" and b: "int (size H) + 1 < INT_MAX"
  shows "\<exists>r h'. cache_get_shared now c h key = Some (r, h') \<and>
    (case r of
       Get_Hit p \<Rightarrow> key \<noteq> [] \<and> cmap c h key = Some p \<and> (\<exists>e. h p = Some e \<and> now < ce_expires_at e) \<and>
         cache_inv c h' (add_mset p H) \<and> cmap c h' = cmap c h \<and> carried h h' \<and> dom h' = dom h
     | Get_Expired \<Rightarrow> h' = h | Get_Miss \<Rightarrow> h' = h \<and> (key = [] \<or> cmap c h key = None))"
proof (cases "key = []")
  case False
  let ?s = "c_shards c ! key_shard key"
  show ?thesis
  proof (rule find_cache [OF cache_inv_wf [OF inv] key])
    fix i a e assume f: "find_key h ?s key = Some (True, i)" "sh_entries ?s ! i = Some a" "cmap c h key = Some a"
      "h a = Some e" "entry_wf a e"
    show ?thesis
    proof (cases "now \<ge> ce_expires_at e")
      case True
      then have "cache_get_shared now c h key = Some (Get_Expired, h)"
        using f False by (simp add: cache_get_shared_def Let_def)
      then show ?thesis by auto
    next
      case nexp: False
      define g where "g = (if ce_clock_bit e = 0 then h(a \<mapsto> e\<lparr>ce_clock_bit := 1\<rparr>) else h)"
      have q: "quiet h g" using f(4) by (auto simp: g_def quiet_def)
      obtain e1 where e1: "g a = Some e1" using quiet_dom [OF q] f(4) by blast
      have refs: "refs_ok h (ran (cmap c h)) H" using inv by (simp add: cache_inv_def)
      note inc = ref_inc [OF refs_ok_quiet [OF q refs] e1 b]
      define h' where "h' = g(a \<mapsto> e1\<lparr>ce_ref_count := ce_ref_count e1 + 1\<rparr>)"
      have "carried g h'" using e1 by (auto simp: carried_def h'_def)
      then have car: "carried h h'" using carried_trans [OF quiet_carried [OF q]] quiet_dom [OF q] by auto
      have dom: "dom h' = dom h" using quiet_dom [OF q] e1 by (auto simp: h'_def)
      have "cache_get_shared now c h key = Some (Get_Hit a, h')"
        using f False nexp inc by (simp add: cache_get_shared_def Let_def value_ptr_from_entry_def g_def [symmetric] h'_def)
      moreover have "cache_inv c h' (add_mset a H)" "cmap c h' = cmap c h"
        using heap_change [OF inv car _ inc [THEN conjunct2, folded h'_def]] dom by blast+
      ultimately show ?thesis using f(3,4) False nexp car dom by auto
    qed
  next
    fix i assume "find_key h ?s key = Some (False, i)" "cmap c h key = None"
    then have "cache_get_shared now c h key = Some (Get_Miss, h)" by (simp add: cache_get_shared_def Let_def)
    with \<open>cmap c h key = None\<close> show ?thesis by auto
  qed
qed (auto simp: cache_get_shared_def)

lemma get_expire_spec:
  assumes inv: "cache_inv c h H" and key: "length key < 2 ^ 32"
  shows "\<exists>c' h'. cache_get_expire now c h key = Some (c', h') \<and> cache_inv c' h' H \<and> carried h h' \<and> dom h' \<subseteq> dom h \<and>
    (c' = c \<and> h' = h \<or>
     (\<exists>a e. cmap c h key = Some a \<and> h a = Some e \<and> ce_expires_at e \<le> now) \<and> cmap c' h' = (cmap c h)(key := None))"
proof -
  let ?s = "c_shards c ! key_shard key"
  show ?thesis
  proof (rule find_cache [OF cache_inv_wf [OF inv] key])
    fix i a e assume f: "find_key h ?s key = Some (True, i)" "i < sh_bucket_count ?s" "view h ?s ! i = Full (key, a)"
      "sh_entries ?s ! i = Some a" "cmap c h key = Some a" "h a = Some e" "shard_wf h ?s"
    show ?thesis
    proof (cases "now \<ge> ce_expires_at e")
      case True
      from remove_spec [OF inv f(5) shard_bury(1,2) [OF f(7,2,3)]]
      obtain h' where "entry_ref_dec h a = Some h'" "cache_inv (with_shard c key (bury ?s i)) h' H"
        "cmap (with_shard c key (bury ?s i)) h' = (cmap c h)(key := None)" "carried h h'" "dom h' \<subseteq> dom h" by blast
      then show ?thesis using f True by (auto simp: cache_get_expire_def Let_def)
    next
      case False
      then show ?thesis using f inv by (auto simp: cache_get_expire_def Let_def)
    qed
  next
    fix i assume "find_key h ?s key = Some (False, i)"
    then show ?thesis using inv by (auto simp: cache_get_expire_def Let_def)
  qed
qed

lemma invalidate_spec:
  assumes inv: "cache_inv c h H" and key: "length key < 2 ^ 32"
  shows "\<exists>c' h'. cache_invalidate cmp c h key = Some (c', h') \<and> cache_inv c' h' H \<and> carried h h' \<and> dom h' \<subseteq> dom h \<and>
    cmap c' h' = (cmap c h)(key := None)"
proof -
  let ?s = "c_shards c ! key_shard key"
  show ?thesis
  proof (rule find_cache [OF cache_inv_wf [OF inv] key])
    fix i a e assume f: "find_key h ?s key = Some (True, i)" "i < sh_bucket_count ?s" "view h ?s ! i = Full (key, a)"
      "sh_entries ?s ! i = Some a" "cmap c h key = Some a" "h a = Some e" "shard_wf h ?s"
    note b = shard_bury(1,2) [OF f(7,2,3)]
    obtain s1 where s1: "(if needs_compaction (bury ?s i) then compact_shard cmp h (bury ?s i) else Some (bury ?s i)) = Some s1"
      "shard_wf h s1" "table_map (view h s1) = table_map (view h (bury ?s i))"
      using shard_compact [OF b(1), of cmp] b(1) by (cases "needs_compaction (bury ?s i)") auto
    from remove_spec [OF inv f(5) s1(2), unfolded s1(3), OF b(2)]
    obtain h' where "entry_ref_dec h a = Some h'" "cache_inv (with_shard c key s1) h' H"
      "cmap (with_shard c key s1) h' = (cmap c h)(key := None)" "carried h h'" "dom h' \<subseteq> dom h" by blast
    then show ?thesis using f s1(1) by (auto simp: cache_invalidate_def Let_def)
  next
    fix i assume "find_key h ?s key = Some (False, i)" "cmap c h key = None"
    then show ?thesis using inv by (auto simp: cache_invalidate_def Let_def)
  qed
qed

lemma release_spec:
  assumes inv: "cache_inv c h H" and p: "p \<in># H"
  shows "\<exists>h'. cache_release h p = Some h' \<and> cache_inv c h' (H - {#p#}) \<and> cmap c h' = cmap c h \<and>
    carried h h' \<and> dom h' \<subseteq> dom h"
proof -
  have refs: "refs_ok h (ran (cmap c h)) H" and ent: "\<forall>a e. h a = Some e \<longrightarrow> entry_wf a e" using inv by (simp_all add: cache_inv_def)
  obtain e where e: "h p = Some e" using refs_okD(4) [OF refs p] by blast
  then have bp: "ce_back e = p" using ent by (auto simp: entry_wf_def)
  obtain h' where h': "entry_ref_dec h p = Some h'" "refs_ok h' (ran (cmap c h)) (H - {#p#})" "\<forall>b. b \<noteq> p \<longrightarrow> h' b = h b"
    "\<forall>e'. h' p = Some e' \<longrightarrow> map_option payload (h p) = Some (payload e')"
    using ref_dec_handle [OF refs p] by blast
  note car = ref_dec_carried [OF h'(3,4)]
  show ?thesis using heap_change [OF inv car h'(2)] e bp h'(1) car
    by (auto simp: cache_release_def entry_from_value_def)
qed

section \<open>Storing\<close>

lemma with_shard_twice [simp]: "with_shard (with_shard c key s) key s' = with_shard c key s'"
  by (simp add: with_shard_def)

lemma with_shard_nth [simp]: "length (c_shards c) = CACHE_SHARD_COUNT \<Longrightarrow> c_shards (with_shard c key s) ! key_shard key = s"
  by (simp add: with_shard_def)

lemma table_local:
  assumes "cache_wf c h"
  shows "table_map (view h (c_shards c ! key_shard key)) k = (if key_shard k = key_shard key then cmap c h k else None)"
  using cache_wfD(3) [OF assms, of "key_shard key" k]
  by (cases "table_map (view h (c_shards c ! key_shard key)) k") (auto simp: cmap_def)

text \<open>Putting the new entry \<open>a\<close> into a place found for its key, when the shard stands for \<open>m\<close>.\<close>

lemma occupy_spec:
  assumes wf: "cache_wf c h" and car: "carried h h2" and s2: "shard_wf h2 s2"
    and here: "\<And>k. table_map (view h2 s2) k = (if key_shard k = key_shard key then m k else None)"
    and there: "\<And>k. key_shard k \<noteq> key_shard key \<Longrightarrow> m k = cmap c h k"
    and new: "m key = None" "place_for (home_of (sh_bucket_count s2)) (view h2 s2) key i" "sh_size s2 < sh_capacity s2"
    and a: "h2 a = Some e" "entry_wf a e" "ce_key e = key"
    and refs: "refs_ok h2 (insert a (ran m)) H" and ent: "\<forall>a e. h2 a = Some e \<longrightarrow> entry_wf a e"
  shows "cache_inv (with_shard c key (occupy s2 i (make_tag (hash_key key)) a)) h2 H"
    "cmap (with_shard c key (occupy s2 i (make_tag (hash_key key)) a)) h2 = m(key \<mapsto> a)"
proof -
  have "table_map (view h2 s2) key = None" using here [of key] new(1) by simp
  note o = shard_occupy [OF s2 new(2) this a new(3)]
  have "ran (m(key \<mapsto> a)) = insert a (ran m)" using new(1) by simp
  then have refs': "refs_ok h2 (ran (m(key \<mapsto> a))) H" using refs by simp
  let ?s = "occupy s2 i (make_tag (hash_key key)) a"
  have f: "table_map (view h2 ?s) k = (m(key \<mapsto> a)) k" if "key_shard k = key_shard key" for k
    using that o(2) here [of k] by simp
  have g: "table_map (view h2 ?s) k = None \<and> (m(key \<mapsto> a)) k = cmap c h k" if "key_shard k \<noteq> key_shard key" for k
    using that o(2) here [of k] there [OF that] by (cases "k = key") simp_all
  show "cache_inv (with_shard c key ?s) h2 H" "cmap (with_shard c key ?s) h2 = m(key \<mapsto> a)"
    using shard_change [OF wf o(1) car refs' f g ent] by blast+
qed

text \<open>The state when the new entry is on the heap but not yet in the table.\<close>

lemma new_entry_heap:
  assumes inv: "cache_inv c h H" and a: "a \<notin> dom h" and e: "entry_wf a e" "ce_ref_count e = 1"
  shows "cache_wf c (h(a \<mapsto> e))" "cmap c (h(a \<mapsto> e)) = cmap c h" "carried h (h(a \<mapsto> e))"
    "refs_ok (h(a \<mapsto> e)) (insert a (ran (cmap c h))) H" "a \<notin> ran (cmap c h)"
    "\<forall>b x. (h(a \<mapsto> e)) b = Some x \<longrightarrow> entry_wf b x"
proof -
  have wf: "cache_wf c h" and refs: "refs_ok h (ran (cmap c h)) H" and ent: "\<forall>a e. h a = Some e \<longrightarrow> entry_wf a e"
    using inv by (simp_all add: cache_inv_def)
  show car: "carried h (h(a \<mapsto> e))" using a by (auto simp: carried_def)
  have none: "h a = None" using a by auto
  then have "ref_number (ran (cmap c h)) H a = 0" using refs_okD(1) [OF refs] by blast
  then have z: "a \<notin> ran (cmap c h)" "count H a = 0" by (auto simp: ref_number_def split: if_splits)
  then show "a \<notin> ran (cmap c h)" by blast
  show "refs_ok (h(a \<mapsto> e)) (insert a (ran (cmap c h))) H"
    using refs_okD(7) [OF refs] z e(2) by (intro refs_ok_at [OF refs]) (auto simp: ref_number_def ref_entry_def)
  have sh: "shard_wf (h(a \<mapsto> e)) (c_shards c ! i) \<and> view (h(a \<mapsto> e)) (c_shards c ! i) = view h (c_shards c ! i)"
    if i: "i < CACHE_SHARD_COUNT" for i
  proof -
    have "\<forall>k x. table_map (view h (c_shards c ! i)) k = Some x \<longrightarrow> (h(a \<mapsto> e)) x \<noteq> None"
    proof (intro allI impI)
      fix k x assume x: "table_map (view h (c_shards c ! i)) k = Some x"
      have "cmap c h k = Some x" using cache_wfD(3) [OF wf i x] x by (simp add: cmap_def)
      then show "(h(a \<mapsto> e)) x \<noteq> None" using cmap_entry [OF wf, of k x] by auto
    qed
    from shard_wf_carried [OF cache_wfD(2) [OF wf i] car this] show ?thesis by blast
  qed
  then show "cmap c (h(a \<mapsto> e)) = cmap c h" by (simp add: cmap_def fun_eq_iff del: fun_upd_apply)
  show "cache_wf c (h(a \<mapsto> e))" using wf sh by (simp add: cache_wf_def del: fun_upd_apply)
  show "\<forall>b x. (h(a \<mapsto> e)) b = Some x \<longrightarrow> entry_wf b x" using ent e(1) by auto
qed

text \<open>
  The three ways to store: over an old entry, into a free place, and after an eviction.  The
  entry \<open>a\<close> is on the heap \<open>h\<close>, owned by nobody yet.
\<close>

lemma replace_spec:
  assumes wf: "cache_wf c h" and refs: "refs_ok h (insert a (ran (cmap c h))) H" "a \<notin> ran (cmap c h)"
    and ent: "\<forall>b x. h b = Some x \<longrightarrow> entry_wf b x" and a: "h a = Some e" "ce_key e = key"
    and i: "i < sh_bucket_count (c_shards c ! key_shard key)" "view h (c_shards c ! key_shard key) ! i = Full (key, old)"
  defines "s' \<equiv> (c_shards c ! key_shard key)\<lparr>sh_entries := (sh_entries (c_shards c ! key_shard key))[i := Some a]\<rparr>"
  shows "\<exists>h'. entry_ref_dec h old = Some h' \<and> cache_inv (with_shard c key s') h' H \<and>
    cmap (with_shard c key s') h' = (cmap c h)(key \<mapsto> a) \<and> h' a = Some e \<and> carried h h' \<and> dom h' \<subseteq> dom h"
proof -
  let ?s = "c_shards c ! key_shard key" and ?m = "(cmap c h)(key \<mapsto> a)"
  have s: "shard_wf h ?s" using cache_wfD(2) [OF wf] by simp
  have wa: "entry_wf a e" using ent a(1) by blast
  note r = shard_replace [OF s i a(1) wa a(2), folded s'_def]
  have old: "cmap c h key = Some old" using shard_entry_ran(1) [OF wf _ i] by simp
  then have oa: "old \<in> insert a (ran (cmap c h))" "old \<noteq> a" using refs(2) by (auto simp: ran_def)
  from ref_dec_table [OF refs(1) oa(1)] obtain h' where h': "entry_ref_dec h old = Some h'"
    "refs_ok h' (insert a (ran (cmap c h)) - {old}) H" "\<forall>b. b \<noteq> old \<longrightarrow> h' b = h b"
    "\<forall>e'. h' old = Some e' \<longrightarrow> map_option payload (h old) = Some (payload e')" by blast
  note car = ref_dec_carried [OF h'(3,4)]
  have "ran ?m = insert a (ran ((cmap c h)(key := None)))" by (auto simp: ran_def)
  then have ran: "insert a (ran (cmap c h)) - {old} = ran ?m" using ran_remove [OF wf old] oa(2) by auto
  note refs' = h'(2) [unfolded ran]
  have m: "table_map (view h s') k = (if key_shard k = key_shard key then ?m k else None)" for k
    using r(2) table_local [OF wf, of key k] by auto
  have "\<forall>k x. table_map (view h s') k = Some x \<longrightarrow> h' x \<noteq> None"
  proof (intro allI impI)
    fix k x assume "table_map (view h s') k = Some x"
    then have "x \<in> ran ?m" using m [of k] unfolding ran_def by (auto split: if_splits)
    then show "h' x \<noteq> None" using refs_okD(3) [OF refs', of x] by blast
  qed
  note w' = shard_wf_carried [OF r(1) car(1) this]
  have f: "table_map (view h' s') k = ?m k" if "key_shard k = key_shard key" for k using m [of k] w'(2) that by simp
  have g: "table_map (view h' s') k = None \<and> ?m k = cmap c h k" if "key_shard k \<noteq> key_shard key" for k
    using m [of k] w'(2) that by (cases "k = key") simp_all
  have "h' a = Some e" using h'(3) a(1) oa(2) by simp
  with shard_change [OF wf w'(1) car(1) refs' f g carried_entries [OF car ent]] h'(1) car show ?thesis by blast
qed

lemma evict_occupy_spec:
  assumes wf: "cache_wf c h" and refs: "refs_ok h (insert a (ran (cmap c h))) H" "a \<notin> ran (cmap c h)"
    and ent: "\<forall>b x. h b = Some x \<longrightarrow> entry_wf b x" and a: "h a = Some e" "ce_key e = key"
    and i: "place_for (home_of (sh_bucket_count s)) (view h s) key i" "cmap c h key = None" "\<not> sh_size s < sh_capacity s"
    and s: "s = c_shards c ! key_shard key"
  shows "\<exists>h' s' k0 e'. clock_evict h s = Some (True, h', s') \<and>
    cache_inv (with_shard c key (occupy s' i (make_tag (hash_key key)) a)) h' H \<and>
    cmap (with_shard c key (occupy s' i (make_tag (hash_key key)) a)) h' = (cmap c h)(k0 := None, key \<mapsto> a) \<and>
    k0 \<noteq> key \<and> cmap c h k0 \<noteq> None \<and> key_shard k0 = key_shard key \<and> h' a = Some e' \<and> payload e' = payload e \<and>
    carried h h' \<and> dom h' \<subseteq> dom h \<and> sh_capacity s' = sh_capacity s"
proof -
  let ?A = "insert a (ran (cmap c h))"
  have sw: "shard_wf h s" using cache_wfD(2) [OF wf] by (simp add: s)
  have size: "0 < sh_size s" using i(3) shard_wfD(9) [OF sw] by simp
  have mem: "x \<in> ?A \<and> cmap c h k = Some x \<and> key_shard k = key_shard key"
    if "j < sh_bucket_count s" "view h s ! j = Full (k, x)" for j k x
    using shard_entry_ran [OF wf, of "key_shard key" j k x] that by (simp add: s)
  obtain h' s' j k0 a0 where ev: "clock_evict h s = Some (True, h', s')" "shard_wf h' s'" "j < sh_bucket_count s"
    "view h s ! j = Full (k0, a0)" "view h' s' = (view h s)[j := Tomb]" "refs_ok h' (?A - {a0}) H"
    "carried h h'" "dom h' \<subseteq> dom h" "sh_size s' < sh_size s" "sh_capacity s' = sh_capacity s"
    "sh_bucket_count s' = sh_bucket_count s" "table_map (view h' s') = (table_map (view h s))(k0 := None)"
    using evict_spec [OF sw size refs(1)] mem by blast
  let ?m = "(cmap c h)(k0 := None)"
  have k0: "cmap c h k0 = Some a0" "key_shard k0 = key_shard key" "k0 \<noteq> key" "a0 \<noteq> a"
    using mem [OF ev(3,4)] i(2) refs(2) by (auto simp: ran_def)
  have "?A - {a0} = insert a (ran ?m)" using ran_remove [OF wf k0(1)] k0(4) by auto
  then have refs': "refs_ok h' (insert a (ran ?m)) H" using ev(6) by simp
  obtain e' where e': "h' a = Some e'" using refs_okD(3) [OF refs'] by blast
  then have p: "payload e' = payload e" using ev(7) a(1) by (auto simp: carried_def)
  have "entry_wf a e" using ent a(1) by blast
  then have wa: "entry_wf a e'" "ce_key e' = key" using payload_eq [OF p] a(2) by simp_all
  have here: "table_map (view h' s') k = (if key_shard k = key_shard key then ?m k else None)" for k
    using ev(12) table_local [OF wf, of key k] k0(2) by (simp add: s)
  have there: "?m k = cmap c h k" if "key_shard k \<noteq> key_shard key" for k using that k0(2) by auto
  have place: "place_for (home_of (sh_bucket_count s')) (view h' s') key i"
    using place_for_bury [OF i(1) ev(5)] ev(3,4,11) shard_wfD(12) [OF sw] by simp
  have room: "sh_size s' < sh_capacity s'" "?m key = None" using ev(9,10) shard_wfD(8) [OF sw] i(2) by simp_all
  note o = occupy_spec [OF wf ev(7,2) here there room(2) place room(1) e' wa refs' carried_entries [OF ev(7,8) ent]]
  show ?thesis using o ev(1,7,8,10) k0 e' p by blast
qed

lemma cache_set_unfold:
  assumes "key \<noteq> []" "val \<noteq> []" "h1 = h(a \<mapsto> new_entry c now a key val ttl)"
    "(if needs_compaction (c_shards c ! key_shard key) then compact_shard cmp h1 (c_shards c ! key_shard key)
      else Some (c_shards c ! key_shard key)) = Some s1"
  shows "cache_set (Some a) cmp now c h key val ttl = (do {
            (found, idx) \<leftarrow> find_key h1 s1 key;
            if found
            then do {
              old \<leftarrow> sh_entries s1 ! idx;
              h \<leftarrow> entry_ref_dec h1 old;
              Some (True, with_shard c key (s1\<lparr>sh_entries := (sh_entries s1)[idx := Some a]\<rparr>), h) }
            else do {
              (ok, h, s) \<leftarrow> (if sh_size s1 \<ge> sh_capacity s1 then clock_evict h1 s1 else Some (True, h1, s1));
              if \<not> ok then Some (False, with_shard c key s, h(a := None))
              else Some (True, with_shard c key (occupy s idx (make_tag (hash_key key)) a), h) } })"
  using assms(1,2) by (simp add: cache_set_def Let_def assms(3) [symmetric] assms(4))

lemma set_spec:
  assumes inv: "cache_inv c h H" and key: "key \<noteq> []" "length key < 2 ^ 32" and val: "val \<noteq> []" and a: "a \<notin> dom h"
  shows "\<exists>c' h'. cache_set (Some a) cmp now c h key val ttl = Some (True, c', h') \<and> cache_inv c' h' H \<and> carried h h' \<and>
    dom h' \<subseteq> insert a (dom h) \<and> (\<exists>e. h' a = Some e \<and> payload e = payload (new_entry c now a key val ttl)) \<and>
    (cmap c' h' = (cmap c h)(key \<mapsto> a) \<or>
     (\<exists>k0. k0 \<noteq> key \<and> cmap c h key = None \<and> cmap c h k0 \<noteq> None \<and> key_shard k0 = key_shard key \<and>
        sh_size (c_shards c ! key_shard key) = sh_capacity (c_shards c ! key_shard key) \<and>
        cmap c' h' = (cmap c h)(k0 := None, key \<mapsto> a))) \<and>
    map sh_capacity (c_shards c') = map sh_capacity (c_shards c)"
proof -
  define e where "e = new_entry c now a key val ttl"
  define h1 where "h1 = h(a \<mapsto> e)"
  let ?s = "c_shards c ! key_shard key"
  have e: "entry_wf a e" "ce_ref_count e = 1" "ce_key e = key" using key by (simp_all add: e_def new_entry_def entry_wf_def)
  note n = new_entry_heap [OF inv a e(1,2), folded h1_def]
  have s: "shard_wf h1 ?s" "length (c_shards c) = CACHE_SHARD_COUNT" using cache_wfD [OF n(1)] by simp_all
  obtain s1 where s1: "(if needs_compaction ?s then compact_shard cmp h1 ?s else Some ?s) = Some s1"
    "shard_wf h1 s1" "table_map (view h1 s1) = table_map (view h1 ?s)" "sh_capacity s1 = sh_capacity ?s" "sh_size s1 = sh_size ?s"
    using shard_compact [OF s(1), of cmp] s(1) by (cases "needs_compaction ?s") auto
  have loc: "table_map (view h1 s1) k = (if key_shard k = key_shard key then cmap c h k else None)" for k
    using table_local [OF n(1), of key k] s1(3) n(2) by simp
  let ?c = "with_shard c key s1"
  have al: "\<forall>x\<in>ran (cmap c h). h1 x \<noteq> None" using refs_okD(3) [OF n(4)] by auto
  have c1: "cache_wf ?c h1" "cmap ?c h1 = cmap c h"
    using shard_change_wf [OF n(1) s1(2) carried_refl al, of key] loc n(2) by simp_all
  have nth: "c_shards ?c ! key_shard key = s1" using s(2) by simp
  have h1a: "h1 a = Some e" and dom1: "dom h1 = insert a (dom h)" by (auto simp: h1_def)
  have tr: "carried h h2 \<and> dom h2 \<subseteq> insert a (dom h)" if "carried h1 h2" "dom h2 \<subseteq> dom h1" for h2
    using carried_trans [OF n(3) that(1)] that(2) dom1 by auto
  note unf = cache_set_unfold [OF key(1) val h1_def [unfolded e_def] s1(1)]
  note refs = n(4,5) [folded c1(2)]
  have cap: "map sh_capacity (c_shards (with_shard c key s')) = map sh_capacity (c_shards c)" if "sh_capacity s' = sh_capacity s1" for s'
    using that s1(4) list_update_id [of "map sh_capacity (c_shards c)" "key_shard key"] s(2) by (simp add: with_shard_def map_update)
  show ?thesis
  proof (rule find_cache [OF c1(1) key(2), unfolded nth])
    fix i old assume f: "find_key h1 s1 key = Some (True, i)" "i < sh_bucket_count s1" "view h1 s1 ! i = Full (key, old)"
      "sh_entries s1 ! i = Some old"
    from replace_spec [OF c1(1) refs n(6) h1a e(3), unfolded nth, OF f(2,3)] f(1,4)
    show ?thesis unfolding unf c1(2) using tr cap by (auto simp: e_def)
  next
    fix i assume f: "find_key h1 s1 key = Some (False, i)" "cmap ?c h1 key = None" "place_for (home_of (sh_bucket_count s1)) (view h1 s1) key i"
    show ?thesis
    proof (cases "sh_size s1 < sh_capacity s1")
      case True
      have there: "cmap c h k = cmap ?c h1 k" for k using c1(2) by simp
      note o = occupy_spec [OF c1(1) carried_refl s1(2) loc there f(2) [unfolded c1(2)] f(3) True h1a e(1,3) n(4,6)]
      show ?thesis using o f(1) True tr [OF carried_refl] cap h1a unfolding unf by (auto simp: e_def occupy_def)
    next
      case False
      then have "sh_size ?s = sh_capacity ?s" using s1(4,5) shard_wfD(8) [OF s1(2)] by simp
      moreover from evict_occupy_spec [OF c1(1) refs n(6) h1a e(3) f(3,2) False nth [symmetric]]
      obtain h2 s2 k0 e2 where "clock_evict h1 s1 = Some (True, h2, s2)"
        "cache_inv (with_shard c key (occupy s2 i (make_tag (hash_key key)) a)) h2 H"
        "cmap (with_shard c key (occupy s2 i (make_tag (hash_key key)) a)) h2 = (cmap c h)(k0 := None, key \<mapsto> a)"
        "k0 \<noteq> key" "cmap c h k0 \<noteq> None" "key_shard k0 = key_shard key" "h2 a = Some e2" "payload e2 = payload e"
        "carried h1 h2" "dom h2 \<subseteq> dom h1" "sh_capacity s2 = sh_capacity s1" unfolding c1(2) by auto
      moreover from this(11) have "map sh_capacity (c_shards (with_shard c key (occupy s2 i (make_tag (hash_key key)) a)))
          = map sh_capacity (c_shards c)" by (intro cap) (simp add: occupy_def)
      ultimately show ?thesis using f(1,2) False tr c1(2) unfolding unf by (auto simp: e_def)
    qed
  qed
qed

section \<open>Clearing and destroying\<close>

fun slot_vals :: "('k \<times> 'v) slot list \<Rightarrow> 'v list" where
  "slot_vals [] = []"
| "slot_vals (Full (k, v) # tab) = v # slot_vals tab"
| "slot_vals (_ # tab) = slot_vals tab"

lemma set_slot_vals: "set (slot_vals tab) = {v. \<exists>k. Full (k, v) \<in> set tab}"
  by (induction tab rule: slot_vals.induct) auto

lemma slot_vals_keys: "slot_vals tab = slot_keys (map (map_slot prod.swap) tab)"
  by (induction tab rule: slot_vals.induct) auto

lemma distinct_shard_vals:
  assumes "shard_wf h s"
  shows "distinct (slot_vals (view h s))"
  unfolding slot_vals_keys
proof (rule distinct_slot_keys)
  fix i j a k k'
  assume "i < length (map (map_slot prod.swap) (view h s))" "j < length (map (map_slot prod.swap) (view h s))"
    "map (map_slot prod.swap) (view h s) ! i = Full (a, k)" "map (map_slot prod.swap) (view h s) ! j = Full (a, k')"
  then show "i = j"
    using resident_once [OF assms, of i k a j k'] shard_wfD(12) [OF assms]
    by (cases "view h s ! i"; cases "view h s ! j") auto
qed

lemma drop_refs_spec:
  assumes "list_all2 (slot_wf g) tags entries" "distinct (slot_vals (map2 (slot_of g) tags entries))"
    "set (slot_vals (map2 (slot_of g) tags entries)) \<subseteq> T" "refs_ok h T H"
  shows "\<exists>h'. drop_refs tags entries h = Some h' \<and> refs_ok h' (T - set (slot_vals (map2 (slot_of g) tags entries))) H \<and>
    carried h h' \<and> dom h' \<subseteq> dom h"
  using assms
proof (induction tags entries arbitrary: h T rule: list_all2_induct)
  case (Cons t tags p entries)
  let ?V = "set (slot_vals (map2 (slot_of g) tags entries))"
  from Cons.hyps(1) consider (none) "t AND TAG_CONTROL_MASK \<noteq> 0" "slot_of g t p = Free \<or> slot_of g t p = Tomb"
    | (full) a k where "t AND TAG_CONTROL_MASK = 0" "p = Some a" "slot_of g t p = Full (k, a)"
    by (auto simp: slot_wf_def slot_of_def)
  then show ?case
  proof cases
    case none
    then show ?thesis using Cons by auto
  next
    case full
    have a: "a \<in> T" "a \<notin> ?V" "distinct (slot_vals (map2 (slot_of g) tags entries))" "?V \<subseteq> T - {a}"
      using Cons.prems(1,2) full(3) by auto
    from ref_dec_table [OF Cons.prems(3) a(1)] obtain h1 where h1: "entry_ref_dec h a = Some h1" "refs_ok h1 (T - {a}) H"
      "\<forall>b. b \<noteq> a \<longrightarrow> h1 b = h b" "\<forall>e'. h1 a = Some e' \<longrightarrow> map_option payload (h a) = Some (payload e')" by blast
    note car = ref_dec_carried [OF h1(3,4)]
    from Cons.IH [OF a(3,4) h1(2)] obtain h' where h': "drop_refs tags entries h1 = Some h'"
      "refs_ok h' (T - {a} - ?V) H" "carried h1 h'" "dom h' \<subseteq> dom h1" by blast
    have "carried h h'" using carried_trans [OF car(1) h'(3)] h'(4) by auto
    moreover have "T - {a} - ?V = T - insert a ?V" by auto
    ultimately show ?thesis using h' h1(1) car(2) full by auto
  qed
qed auto

lemma clear_shard_spec:
  assumes inv: "cache_inv c h H" and i: "i < CACHE_SHARD_COUNT"
  shows "\<exists>c' h'. cache_clear_shard i c h = Some (c', h') \<and> cache_inv c' h' H \<and> carried h h' \<and> dom h' \<subseteq> dom h \<and>
    cmap c' h' = (\<lambda>k. if key_shard k = i then None else cmap c h k)"
proof -
  let ?s = "c_shards c ! i" and ?m = "\<lambda>k. if key_shard k = i then None else cmap c h k"
  have wf: "cache_wf c h" and refs: "refs_ok h (ran (cmap c h)) H" and ent: "\<forall>a e. h a = Some e \<longrightarrow> entry_wf a e"
    using inv by (simp_all add: cache_inv_def)
  have s: "shard_wf h ?s" using cache_wfD(2) [OF wf i] .
  note w = shard_wfD [OF s]
  have mem: "x \<in> set (slot_vals (view h ?s)) \<longleftrightarrow> (\<exists>k. key_shard k = i \<and> cmap c h k = Some x)" for x
  proof
    assume "x \<in> set (slot_vals (view h ?s))"
    then obtain j k where "j < sh_bucket_count ?s" "view h ?s ! j = Full (k, x)"
      using w(12) by (auto simp: set_slot_vals in_set_conv_nth)
    from shard_entry_ran [OF wf i this] show "\<exists>k. key_shard k = i \<and> cmap c h k = Some x" by blast
  next
    assume "\<exists>k. key_shard k = i \<and> cmap c h k = Some x"
    then obtain k where "table_map (view h ?s) k = Some x" by (auto simp: cmap_def)
    from table_map_Some [OF this] show "x \<in> set (slot_vals (view h ?s))"
      unfolding set_slot_vals by (metis (mono_tags, lifting) mem_Collect_eq nth_mem)
  qed
  have ran: "ran (cmap c h) - set (slot_vals (view h ?s)) = ran ?m"
  proof (rule set_eqI)
    fix x
    show "x \<in> ran (cmap c h) - set (slot_vals (view h ?s)) \<longleftrightarrow> x \<in> ran ?m"
      using cmap_inj [OF wf, of _ x] unfolding Diff_iff mem ran_def by (auto split: if_splits)
  qed
  have la: "list_all2 (slot_wf h) (sh_tags ?s) (sh_entries ?s)" using w(2-4) by (simp add: list_all2_conv_all_nth)
  have sub: "set (slot_vals (view h ?s)) \<subseteq> ran (cmap c h)" using mem by (auto simp: ran_def)
  obtain h' where h': "drop_refs (sh_tags ?s) (sh_entries ?s) h = Some h'" "refs_ok h' (ran ?m) H" "carried h h'" "dom h' \<subseteq> dom h"
    using drop_refs_spec [OF la distinct_shard_vals [OF s, unfolded view_def] sub [unfolded view_def] refs]
    unfolding view_def [symmetric] ran by blast
  let ?c = "c\<lparr>c_shards := (c_shards c)[i := clear_shard ?s]\<rparr>"
  have "clear_shard ?s = \<lparr>sh_tags = replicate (sh_bucket_count ?s) TAG_EMPTY, sh_entries = replicate (sh_bucket_count ?s) None,
      sh_bucket_count = sh_bucket_count ?s, sh_size = 0, sh_capacity = sh_capacity ?s, sh_tombstone_count = 0, sh_clock_hand = 0\<rparr>"
    by (simp add: clear_shard_def)
  note cs = empty_shard_wf [OF w(1) this w(9,10)]
  have tm: "table_map (view h' (clear_shard ?s)) = Map.empty" using cs(2) empty_table(2) by simp
  have al: "\<forall>x\<in>ran ?m. h' x \<noteq> None" using refs_okD(3) [OF h'(2)] by blast
  have "cache_wf ?c h'" "cmap ?c h' = ?m"
    using shard_change_at [OF i wf cs(1) h'(3) al] tm by simp_all
  then have "cache_inv ?c h' H" using h'(2) carried_entries [OF h'(3,4) ent] by (simp add: cache_inv_def)
  then show ?thesis using h' \<open>cmap ?c h' = ?m\<close> by (auto simp: cache_clear_shard_def)
qed

end
