(* ===== verification/Cache_System.thy ===== *)
theory Cache_System
  imports Cache_Ops
begin

text \<open>
  The cache under concurrent use.  A step of the system is one critical section of one thread, or
  the release of a handle; the shard lock makes sections on the same shard atomic with
  respect to each other, and sections on different shards touch different tables.  The handles
  are the value pointers that callers hold, with the bytes they saw.  \<open>cy_latest\<close> is not part
  of the program: it records the last value stored for each key and not invalidated since.
\<close>

record cache_sys =
  cy_cache :: cache_s
  cy_heap :: entry_heap
  cy_handles :: "(addr \<times> bytes) multiset"
  cy_expiring :: "(int \<times> bytes) multiset"
  cy_latest :: "bytes \<rightharpoonup> bytes \<times> int"

definition after_get :: "cache_sys \<Rightarrow> int \<Rightarrow> bytes \<Rightarrow> get_result \<times> entry_heap \<Rightarrow> cache_sys" where
  "after_get s now key r =
     (case fst r of
        Get_Miss \<Rightarrow> s\<lparr>cy_heap := snd r\<rparr>
      | Get_Expired \<Rightarrow> s\<lparr>cy_heap := snd r, cy_expiring := add_mset (now, key) (cy_expiring s)\<rparr>
      | Get_Hit p \<Rightarrow> s\<lparr>cy_heap := snd r, cy_handles := add_mset (p, ce_value (the (snd r p))) (cy_handles s)\<rparr>)"

definition after_set :: "cache_sys \<Rightarrow> int \<Rightarrow> bytes \<Rightarrow> bytes \<Rightarrow> u32 \<Rightarrow> bool \<times> cache_s \<times> entry_heap \<Rightarrow> cache_sys" where
  "after_set s now key val ttl r =
     s\<lparr>cy_cache := fst (snd r), cy_heap := snd (snd r),
       cy_latest := (if fst r
         then (cy_latest s)(key \<mapsto> (val, ce_expires_at (new_entry (cy_cache s) now 0 key val ttl)))
         else cy_latest s)\<rparr>"

text \<open>Keys are shorter than 4 GiB, \<^verbatim>\<open>malloc\<close> returns fresh addresses, and the number of handles fits an \<^verbatim>\<open>int\<close>.\<close>

inductive cache_step :: "cache_sys \<Rightarrow> cache_sys option \<Rightarrow> bool" where
  do_get: "length key < 2 ^ 32 \<Longrightarrow> int (size (cy_handles s)) + 1 < INT_MAX \<Longrightarrow>
    cache_step s (map_option (after_get s now key) (cache_get_shared now (cy_cache s) (cy_heap s) key))"
| do_expire: "(now, key) \<in># cy_expiring s \<Longrightarrow>
    cache_step s (map_option (\<lambda>(c, h). s\<lparr>cy_cache := c, cy_heap := h, cy_expiring := cy_expiring s - {#(now, key)#}\<rparr>)
      (cache_get_expire now (cy_cache s) (cy_heap s) key))"
| do_set: "length key < 2 ^ 32 \<Longrightarrow> (\<And>a. al = Some a \<Longrightarrow> a \<notin> dom (cy_heap s)) \<Longrightarrow>
    cache_step s (map_option (after_set s now key val ttl) (cache_set al cmp now (cy_cache s) (cy_heap s) key val ttl))"
| do_invalidate: "length key < 2 ^ 32 \<Longrightarrow>
    cache_step s (map_option (\<lambda>(c, h). s\<lparr>cy_cache := c, cy_heap := h, cy_latest := (cy_latest s)(key := None)\<rparr>)
      (cache_invalidate cmp (cy_cache s) (cy_heap s) key))"
| do_clear: "i < CACHE_SHARD_COUNT \<Longrightarrow>
    cache_step s (map_option (\<lambda>(c, h). s\<lparr>cy_cache := c, cy_heap := h,
        cy_latest := (\<lambda>k. if key_shard k = i then None else cy_latest s k)\<rparr>)
      (cache_clear_shard i (cy_cache s) (cy_heap s)))"
| do_release: "(p, v) \<in># cy_handles s \<Longrightarrow>
    cache_step s (map_option (\<lambda>h. s\<lparr>cy_heap := h, cy_handles := cy_handles s - {#(p, v)#}\<rparr>)
      (cache_release (cy_heap s) p))"

definition cache_start :: "cache_sys \<Rightarrow> bool" where
  "cache_start s \<longleftrightarrow> (\<exists>capacity ttl. cache_create True (\<lambda>_. (True, True)) capacity ttl = Some (cy_cache s)) \<and>
     cy_heap s = Map.empty \<and> cy_handles s = {#} \<and> cy_expiring s = {#} \<and> cy_latest s = Map.empty"

definition cache_sys_inv :: "cache_sys \<Rightarrow> bool" where
  "cache_sys_inv s \<longleftrightarrow> cache_inv (cy_cache s) (cy_heap s) (image_mset fst (cy_handles s)) \<and>
     (\<forall>p v. (p, v) \<in># cy_handles s \<longrightarrow> (\<exists>e. cy_heap s p = Some e \<and> ce_value e = v)) \<and>
     (\<forall>now key. (now, key) \<in># cy_expiring s \<longrightarrow> length key < 2 ^ 32) \<and>
     (\<forall>k a e. cmap (cy_cache s) (cy_heap s) k = Some a \<and> cy_heap s a = Some e \<longrightarrow>
        cy_latest s k = Some (ce_value e, ce_expires_at e))"

lemma cache_sys_invD:
  assumes "cache_sys_inv s"
  shows "cache_inv (cy_cache s) (cy_heap s) (image_mset fst (cy_handles s))"
    "(p, v) \<in># cy_handles s \<Longrightarrow> \<exists>e. cy_heap s p = Some e \<and> ce_value e = v"
    "(now, key) \<in># cy_expiring s \<Longrightarrow> length key < 2 ^ 32"
    "cmap (cy_cache s) (cy_heap s) k = Some a \<Longrightarrow> cy_heap s a = Some e \<Longrightarrow> cy_latest s k = Some (ce_value e, ce_expires_at e)"
  using assms unfolding cache_sys_inv_def by blast+

text \<open>A step to a new cache and heap whose table is part of the old one, with fewer handles at most.\<close>

lemma sys_shrinks:
  assumes inv: "cache_sys_inv s" and c': "cache_inv c' h' (image_mset fst H)" and car: "carried (cy_heap s) h'" "dom h' \<subseteq> dom (cy_heap s)"
    and sub: "cmap c' h' \<subseteq>\<^sub>m cmap (cy_cache s) (cy_heap s)" and H: "H \<subseteq># cy_handles s" and X: "X \<subseteq># cy_expiring s"
    and lat: "\<forall>k. cmap c' h' k \<noteq> None \<longrightarrow> L k = cy_latest s k"
  shows "cache_sys_inv \<lparr>cy_cache = c', cy_heap = h', cy_handles = H, cy_expiring = X, cy_latest = L\<rparr>"
proof -
  note D = cache_sys_invD [OF inv]
  have val: "ce_value e' = ce_value e \<and> ce_expires_at e' = ce_expires_at e" if "cy_heap s a = Some e" "h' a = Some e'" for a e e'
    using that car(1) payload_eq(4,5) [of e' e] by (auto simp: carried_def)
  have old: "\<exists>e. cy_heap s a = Some e" if "h' a = Some e'" for a e' using that car(2) by blast
  have "\<exists>e. h' p = Some e \<and> ce_value e = v" if pv: "(p, v) \<in># H" for p v
  proof -
    have "p \<in># image_mset fst H" using pv by force
    then obtain e' where e': "h' p = Some e'" using refs_okD(4) c' by (metis cache_inv_def)
    moreover obtain e where "cy_heap s p = Some e" "ce_value e = v" using D(2) [of p v] pv H by (meson mset_subset_eqD)
    ultimately show ?thesis using val by auto
  qed
  moreover have "length key < 2 ^ 32" if "(now, key) \<in># X" for now key
    using that X D(3) by (meson mset_subset_eqD)
  moreover have "L k = Some (ce_value e', ce_expires_at e')" if a: "cmap c' h' k = Some a" "h' a = Some e'" for k a e'
  proof -
    have m: "cmap (cy_cache s) (cy_heap s) k = Some a" using sub a(1) by (metis domI map_le_def)
    obtain e where "cy_heap s a = Some e" using old [OF a(2)] by blast
    with D(4) [OF m this] val a lat show ?thesis by simp
  qed
  ultimately show ?thesis using c' by (simp add: cache_sys_inv_def)
qed

section \<open>Creation\<close>

lemma bit_top:
  assumes "2 ^ k \<le> unat (x :: size_t)" "unat x < 2 ^ Suc k"
  shows "bit x k"
proof -
  have "unat x div 2 ^ k = 1" using assms by (intro div_nat_eqI) auto
  then have "drop_bit k (unat x) = 1" by (simp add: drop_bit_eq_div)
  then show ?thesis by (metis bit_iff_odd_drop_bit bit_unsigned_iff odd_one)
qed

text \<open>A number that shares no bit with its predecessor is a power of two.\<close>

lemma and_pred_0:
  assumes "n AND (n - 1) = 0" "n \<noteq> 0" "unat (n :: size_t) \<le> 2 ^ p" "2 ^ p < 2 * unat n"
  shows "unat n = 2 ^ p"
proof (rule ccontr)
  assume ne: "unat n \<noteq> 2 ^ p"
  with assms(3,4) obtain k where p: "p = Suc k" by (cases p) auto
  have "unat (n - 1) = unat n - 1" using assms(2) by (simp add: unat_minus_one)
  then have "2 ^ k \<le> unat (n - 1)" "unat (n - 1) < 2 ^ Suc k" "2 ^ k \<le> unat n" "unat n < 2 ^ Suc k"
    using assms(3,4) ne p by auto
  then have "bit (n AND (n - 1)) k" using bit_top [of k n] bit_top [of k "n - 1"] by (simp add: bit_and_iff)
  with assms(1) show False by simp
qed

lemma next_power_of_2_correct:
  assumes "n \<noteq> 0" "unat n \<le> 2 ^ 63"
  shows "pow2 (unat (next_power_of_2 n)) \<and> unat n \<le> unat (next_power_of_2 n)"
proof -
  obtain p where p: "unat (smear_all (n - 1) + 1) = 2 ^ p" "unat n \<le> 2 ^ p" "2 ^ p < 2 * unat n"
    using smear_next_power [OF assms] by blast
  then show ?thesis using and_pred_0 [OF _ assms(1) p(2,3)] by (auto simp: next_power_of_2_def pow2_def)
qed

lemma shard_create_wf:
  assumes "cap \<noteq> 0" "unat cap \<le> 2 ^ 62"
  shows "shard_wf h (shard_create cap)" "table_map (view h (shard_create cap)) = Map.empty"
proof -
  let ?n = "unat (next_power_of_2 (cap * INITIAL_BUCKET_MULTIPLIER))"
  have d: "unat (cap * INITIAL_BUCKET_MULTIPLIER) = 2 * unat cap"
    using unat_mult_no_wrap [of cap INITIAL_BUCKET_MULTIPLIER] assms(2) by (simp add: INITIAL_BUCKET_MULTIPLIER_def)
  have c0: "0 < unat cap" using assms(1) by (simp add: unat_gt_0)
  then have "cap * INITIAL_BUCKET_MULTIPLIER \<noteq> 0" using d by (metis unat_0 mult_is_0 not_gr_zero zero_neq_numeral)
  from next_power_of_2_correct [OF this] d assms(2) have n: "pow2 ?n" "2 * unat cap \<le> ?n" by simp_all
  note e = empty_shard_wf [OF n(1) refl c0 n(2), of h]
  then show "shard_wf h (shard_create cap)" by (simp add: shard_create_def Let_def)
  show "table_map (view h (shard_create cap)) = Map.empty"
    using e(2) empty_table(2) by (simp add: shard_create_def Let_def)
qed

lemma create_spec:
  assumes "cache_create True (\<lambda>_. (True, True)) capacity ttl = Some c"
  shows "cache_inv c Map.empty {#}" "cmap c Map.empty = Map.empty"
proof -
  obtain cap where cap: "c_shards c = replicate CACHE_SHARD_COUNT (shard_create cap)" "cap \<noteq> 0" "unat cap \<le> 2 ^ 62"
  proof -
    let ?c = "if capacity = 0 then 1000 else capacity"
    let ?d = "if ?c div 32 < 1 then 1 else ?c div 32"
    have "unat (x div 32) \<le> 2 ^ 62" for x :: size_t
      using unat_lt_2_64 [of x] by (simp add: unat_div)
    then have "unat ?d \<le> 2 ^ 62" by simp
    moreover have "?d \<noteq> 0" by (auto simp: word_less_1)
    moreover have "c_shards c = replicate CACHE_SHARD_COUNT (shard_create ?d)"
      using assms by (auto simp: cache_create_def Let_def CACHE_SHARD_COUNT_def split: if_splits)
    ultimately show thesis using that by blast
  qed
  note s = shard_create_wf [OF cap(2,3)]
  have m: "cmap c Map.empty = Map.empty" using s(2) cap(1) by (simp add: cmap_def fun_eq_iff)
  have "cache_wf c Map.empty" using s cap(1) by (simp add: cache_wf_def)
  then show "cache_inv c Map.empty {#}" using m
    by (simp add: cache_inv_def refs_ok_def ref_number_def ref_entry_def INT_MAX_def)
  show "cmap c Map.empty = Map.empty" by (rule m)
qed

section \<open>Every step keeps the invariant\<close>

lemma step_get:
  assumes inv: "cache_sys_inv s" and key: "length key < 2 ^ 32" and b: "int (size (cy_handles s)) + 1 < INT_MAX"
  shows "\<exists>s'. map_option (after_get s now key) (cache_get_shared now (cy_cache s) (cy_heap s) key) = Some s' \<and> cache_sys_inv s'"
proof -
  note D = cache_sys_invD [OF inv]
  let ?c = "cy_cache s" and ?h = "cy_heap s"
  obtain r h' where r: "cache_get_shared now ?c ?h key = Some (r, h')"
    "case r of Get_Hit p \<Rightarrow> key \<noteq> [] \<and> cmap ?c ?h key = Some p \<and> (\<exists>e. ?h p = Some e \<and> now < ce_expires_at e) \<and>
         cache_inv ?c h' (add_mset p (image_mset fst (cy_handles s))) \<and> cmap ?c h' = cmap ?c ?h \<and> carried ?h h' \<and> dom h' = dom ?h
     | Get_Expired \<Rightarrow> h' = ?h | Get_Miss \<Rightarrow> h' = ?h \<and> (key = [] \<or> cmap ?c ?h key = None)"
    using get_shared_spec [OF D(1) key, of now] b by auto
  have "cache_sys_inv (after_get s now key (r, h'))"
  proof (cases r)
    case (Get_Hit p)
    have g: "cache_inv ?c h' (add_mset p (image_mset fst (cy_handles s)))" "cmap ?c h' = cmap ?c ?h" "carried ?h h'" "dom h' = dom ?h"
      and p: "\<exists>e. ?h p = Some e" using r(2) Get_Hit by auto
    have val: "\<exists>e'. h' a = Some e' \<and> ce_value e' = ce_value e \<and> ce_expires_at e' = ce_expires_at e" if "?h a = Some e" for a e
    proof -
      have "a \<in> dom h'" using that g(4) by auto
      then obtain e' where e': "h' a = Some e'" by blast
      then show ?thesis using that g(3) payload_eq(4,5) [of e' e] by (auto simp: carried_def)
    qed
    have "\<exists>e. h' q = Some e \<and> ce_value e = v" if "(q, v) \<in># cy_handles s" for q v
      using D(2) [OF that] val by blast
    moreover have "\<exists>e. h' p = Some e" using p g(4) by blast
    moreover have "cy_latest s k = Some (ce_value e', ce_expires_at e')" if "cmap ?c ?h k = Some a" "h' a = Some e'" for k a e'
    proof -
      have "a \<in> dom ?h" using that(2) g(4) by blast
      then show ?thesis using D(4) [OF that(1)] val that(2) by fastforce
    qed
    ultimately show ?thesis using g D(3) by (auto simp: Get_Hit after_get_def cache_sys_inv_def)
  qed (use r(2) inv key in \<open>auto simp: after_get_def cache_sys_inv_def\<close>)
  then show ?thesis using r(1) by simp
qed

lemma step_set:
  assumes inv: "cache_sys_inv s" and key: "length key < 2 ^ 32" and al: "\<And>a. al = Some a \<Longrightarrow> a \<notin> dom (cy_heap s)"
  shows "\<exists>s'. map_option (after_set s now key val ttl) (cache_set al cmp now (cy_cache s) (cy_heap s) key val ttl) = Some s' \<and>
    cache_sys_inv s'"
proof -
  note D = cache_sys_invD [OF inv]
  let ?c = "cy_cache s" and ?h = "cy_heap s"
  show ?thesis
  proof (cases "key = [] \<or> val = [] \<or> al = None")
    case True
    then have "cache_set al cmp now ?c ?h key val ttl = Some (False, ?c, ?h)" by (auto simp: cache_set_def)
    moreover have "after_set s now key val ttl (False, ?c, ?h) = s" by (simp add: after_set_def)
    ultimately show ?thesis using inv by simp
  next
    case False
    then obtain a where a: "al = Some a" "a \<notin> dom ?h" using al by auto
    obtain c' h' e where r: "cache_set (Some a) cmp now ?c ?h key val ttl = Some (True, c', h')"
      "cache_inv c' h' (image_mset fst (cy_handles s))" "carried ?h h'" "dom h' \<subseteq> insert a (dom ?h)"
      "h' a = Some e" "payload e = payload (new_entry ?c now a key val ttl)"
      "cmap c' h' = (cmap ?c ?h)(key \<mapsto> a) \<or> (\<exists>k0. k0 \<noteq> key \<and> cmap c' h' = (cmap ?c ?h)(k0 := None, key \<mapsto> a))"
      using set_spec [OF D(1) _ key _ a(2), of val cmp now ttl] False by blast
    have e: "ce_value e = val" "ce_expires_at e = ce_expires_at (new_entry ?c now 0 key val ttl)"
      using payload_eq(4,5) [OF r(6)] by (simp_all add: new_entry_def)
    have val: "ce_value e' = ce_value e \<and> ce_expires_at e' = ce_expires_at e" if "?h b = Some e" "h' b = Some e'" for b e e'
      using that r(3) payload_eq(4,5) [of e' e] by (auto simp: carried_def)
    have "\<exists>e. h' p = Some e \<and> ce_value e = v" if pv: "(p, v) \<in># cy_handles s" for p v
    proof -
      have "p \<in># image_mset fst (cy_handles s)" using pv by force
      then obtain e' where "h' p = Some e'" using refs_okD(4) r(2) by (metis cache_inv_def)
      then show ?thesis using D(2) [OF pv] val by blast
    qed
    moreover have "((cy_latest s)(key \<mapsto> (val, ce_expires_at (new_entry ?c now 0 key val ttl)))) k = Some (ce_value e', ce_expires_at e')"
      if k: "cmap c' h' k = Some b" "h' b = Some e'" for k b e'
    proof (cases "k = key")
      case True
      then have "b = a" using k(1) r(7) by auto
      then show ?thesis using True k(2) r(5) e by simp
    next
      case False
      then have m: "cmap ?c ?h k = Some b" using k(1) r(7) by (auto split: if_splits)
      obtain e0 where "?h b = Some e0" using cmap_entry [OF cache_inv_wf [OF D(1)] m] by blast
      with D(4) [OF m this] val k(2) False show ?thesis by simp
    qed
    ultimately show ?thesis using r(1,2) D(3) a(1) by (simp add: after_set_def cache_sys_inv_def del: fun_upd_apply)
  qed
qed

lemma cache_step_inv:
  assumes inv: "cache_sys_inv s" and step: "cache_step s r"
  shows "\<exists>s'. r = Some s' \<and> cache_sys_inv s'"
  using step
proof cases
  case (do_get key now)
  then show ?thesis using step_get [OF inv] by blast
next
  case (do_set key al now val ttl cmp)
  then show ?thesis using step_set [OF inv do_set(2)] by blast
next
  case (do_expire now key)
  note D = cache_sys_invD [OF inv]
  obtain c' h' where r: "cache_get_expire now (cy_cache s) (cy_heap s) key = Some (c', h')"
    "cache_inv c' h' (image_mset fst (cy_handles s))" "carried (cy_heap s) h'" "dom h' \<subseteq> dom (cy_heap s)"
    "cmap c' h' \<subseteq>\<^sub>m cmap (cy_cache s) (cy_heap s)"
    using get_expire_spec [OF D(1) D(3) [OF do_expire(2)], of now] by (auto simp: map_le_def)
  from sys_shrinks [OF inv r(2-5) subset_mset.order_refl diff_subset_eq_self, of "cy_latest s" "{#(now, key)#}"]
  have "cache_sys_inv (s\<lparr>cy_cache := c', cy_heap := h', cy_expiring := cy_expiring s - {#(now, key)#}\<rparr>)" by (cases s) simp
  then show ?thesis using do_expire(1) r(1) by simp
next
  case (do_invalidate key cmp)
  note D = cache_sys_invD [OF inv]
  obtain c' h' where r: "cache_invalidate cmp (cy_cache s) (cy_heap s) key = Some (c', h')"
    "cache_inv c' h' (image_mset fst (cy_handles s))" "carried (cy_heap s) h'" "dom h' \<subseteq> dom (cy_heap s)"
    "cmap c' h' = (cmap (cy_cache s) (cy_heap s))(key := None)"
    using invalidate_spec [OF D(1) do_invalidate(2), of cmp] by blast
  then have le: "cmap c' h' \<subseteq>\<^sub>m cmap (cy_cache s) (cy_heap s)" by (auto simp: map_le_def)
  have "\<forall>k. cmap c' h' k \<noteq> None \<longrightarrow> ((cy_latest s)(key := None)) k = cy_latest s k" using r(5) by auto
  from sys_shrinks [OF inv r(2-4) le subset_mset.order_refl subset_mset.order_refl this]
  have "cache_sys_inv (s\<lparr>cy_cache := c', cy_heap := h', cy_latest := (cy_latest s)(key := None)\<rparr>)" by (cases s) (simp add: fun_upd_def)
  then show ?thesis using do_invalidate(1) r(1) by simp
next
  case (do_clear i)
  note D = cache_sys_invD [OF inv]
  let ?L = "\<lambda>k. if key_shard k = i then None else cy_latest s k"
  obtain c' h' where r: "cache_clear_shard i (cy_cache s) (cy_heap s) = Some (c', h')"
    "cache_inv c' h' (image_mset fst (cy_handles s))" "carried (cy_heap s) h'" "dom h' \<subseteq> dom (cy_heap s)"
    "cmap c' h' = (\<lambda>k. if key_shard k = i then None else cmap (cy_cache s) (cy_heap s) k)"
    using clear_shard_spec [OF D(1) do_clear(2)] by blast
  then have le: "cmap c' h' \<subseteq>\<^sub>m cmap (cy_cache s) (cy_heap s)" by (auto simp: map_le_def split: if_splits)
  have "\<forall>k. cmap c' h' k \<noteq> None \<longrightarrow> ?L k = cy_latest s k" using r(5) by auto
  from sys_shrinks [OF inv r(2-4) le subset_mset.order_refl subset_mset.order_refl this]
  have "cache_sys_inv (s\<lparr>cy_cache := c', cy_heap := h', cy_latest := ?L\<rparr>)" by (cases s) simp
  then show ?thesis using do_clear(1) r(1) by simp
next
  case (do_release p v)
  note D = cache_sys_invD [OF inv]
  let ?H = "cy_handles s - {#(p, v)#}"
  have H: "image_mset fst ?H = image_mset fst (cy_handles s) - {#p#}" using do_release(2) by (simp add: image_mset_Diff)
  have "p \<in># image_mset fst (cy_handles s)" using do_release(2) by force
  from release_spec [OF D(1) this] obtain h' where r: "cache_release (cy_heap s) p = Some h'"
    "cache_inv (cy_cache s) h' (image_mset fst ?H)" "carried (cy_heap s) h'" "dom h' \<subseteq> dom (cy_heap s)"
    "cmap (cy_cache s) h' = cmap (cy_cache s) (cy_heap s)" unfolding H by blast
  then have "cmap (cy_cache s) h' \<subseteq>\<^sub>m cmap (cy_cache s) (cy_heap s)" by simp
  from sys_shrinks [OF inv r(2-4) this diff_subset_eq_self subset_mset.order_refl, where L = "cy_latest s"]
  have "cache_sys_inv (s\<lparr>cy_heap := h', cy_handles := ?H\<rparr>)" by (cases s) simp
  then show ?thesis using do_release(1) r(1) by simp
qed

interpretation csys: invariant_system cache_start cache_step cache_sys_inv
proof
  show "cache_sys_inv s" if "cache_start s" for s
    using that create_spec by (auto simp: cache_start_def cache_sys_inv_def)
qed (rule cache_step_inv)

end
