(* ===== verification/Cache_File.thy ===== *)
theory Cache_File
  imports Cache
begin

text \<open>
  The file format of \<^verbatim>\<open>cache_save\<close> and \<^verbatim>\<open>cache_load\<close>: a header with magic number, version and the
  number of records, and one record per entry that has not expired.  A file is the list of its
  bytes; integers are little endian, as the code writes them on the platforms it targets.
\<close>

section \<open>Saving\<close>

definition record_bytes :: "nat \<Rightarrow> nat \<Rightarrow> int \<Rightarrow> bytes \<Rightarrow> bytes \<Rightarrow> bytes" where
  "record_bytes klen vlen expiry key val =
     le_bytes 4 klen @ le_bytes 8 vlen @ le_bytes 8 (nat (expiry mod 2 ^ 64)) @ take klen key @ take vlen val"

text \<open>The loop over the slots of a shard: the number of records and their bytes.\<close>

fun save_slots :: "int \<Rightarrow> entry_heap \<Rightarrow> u8 list \<Rightarrow> addr option list \<Rightarrow> (nat \<times> bytes) option" where
  "save_slots now h (t # tags) (p # entries) =
     (if t AND TAG_CONTROL_MASK \<noteq> 0 then save_slots now h tags entries
      else case p of None \<Rightarrow> save_slots now h tags entries
      | Some a \<Rightarrow> do {
          e \<leftarrow> h a;
          (n, bs) \<leftarrow> save_slots now h tags entries;
          if ce_expires_at e \<le> now then Some (n, bs)
          else Some (n + 1, record_bytes (unat (ce_key_len e)) (ce_value_len e) (ce_expires_at e) (ce_key e) (ce_value e) @ bs) })"
| "save_slots now h _ _ = Some (0, [])"

fun save_shards :: "int \<Rightarrow> entry_heap \<Rightarrow> shard_t list \<Rightarrow> (nat \<times> bytes) option" where
  "save_shards now h [] = Some (0, [])"
| "save_shards now h (s # ss) = do {
     (n, bs) \<leftarrow> save_slots now h (sh_tags s) (sh_entries s);
     (m, cs) \<leftarrow> save_shards now h ss;
     Some (n + m, bs @ cs) }"

text \<open>\<open>io\<close> says that every file operation succeeds; the result is \<open>None\<close> for false.\<close>

definition cache_save :: "bool \<Rightarrow> int \<Rightarrow> cache_s \<Rightarrow> entry_heap \<Rightarrow> bytes option option" where
  "cache_save io now c h =
     (if \<not> io then Some None
      else do {
        (n, bs) \<leftarrow> save_shards now h (c_shards c);
        Some (Some (le_bytes 4 CACHE_FILE_MAGIC @ le_bytes 4 CACHE_FILE_VERSION @ le_bytes 8 n @ bs)) })"

section \<open>Loading\<close>

definition fread :: "nat \<Rightarrow> bytes \<Rightarrow> (bytes \<times> bytes) option" where
  "fread n f = (if n \<le> length f then Some (take n f, drop n f) else None)"

text \<open>A 64-bit word read as \<^verbatim>\<open>int64_t\<close>.\<close>

definition to_int64 :: "nat \<Rightarrow> int" where
  "to_int64 n = (if n < 2 ^ 63 then int n else int n - 2 ^ 64)"

text \<open>
  One record: \<open>None\<close> inside is a failure that ends the load, \<open>None\<close> outside undefined behaviour.
  A key of 512 bytes or more is read into a block of \<^verbatim>\<open>klen + 1\<close> bytes computed in 32 bits; \<open>ok\<close>
  is the outcome of the two reallocations.
\<close>

definition load_record :: "bool \<times> bool \<Rightarrow> nat \<Rightarrow> bytes \<Rightarrow> ((bytes \<times> bytes \<times> int \<times> bytes) option) option" where
  "load_record ok cap f =
     (case fread 4 f of None \<Rightarrow> Some None | Some (k, f) \<Rightarrow>
      case fread 8 f of None \<Rightarrow> Some None | Some (v, f) \<Rightarrow>
      case fread 8 f of None \<Rightarrow> Some None | Some (x, f) \<Rightarrow>
      let klen = le_nat k; vlen = le_nat v; block = (if klen \<ge> 512 then (klen + 1) mod 2 ^ 32 else 512)
      in if klen \<ge> 512 \<and> \<not> fst ok then Some None
         else if vlen > cap \<and> \<not> snd ok then Some None
         else if min klen (length f) > block then None
         else case fread klen f of None \<Rightarrow> Some None | Some (key, f) \<Rightarrow>
         case fread vlen f of None \<Rightarrow> Some None | Some (val, f) \<Rightarrow>
         if klen \<ge> block then None else Some (Some (key, val, to_int64 (le_nat x), f)))"

text \<open>
  The loop over the records.  \<open>now\<close> is the time read once before the loop and \<open>clock i\<close> the time that
  the call of \<^verbatim>\<open>cache_set\<close> for record \<open>i\<close> reads itself; \<open>al i\<close> is the address its entry gets in the
  present heap, \<open>cmp i\<close> and \<open>ok i\<close> are the other allocation outcomes of record \<open>i\<close>, \<open>cap\<close> is the size
  of the value buffer.
\<close>

fun load_loop ::
  "nat \<Rightarrow> nat \<Rightarrow> (nat \<Rightarrow> entry_heap \<Rightarrow> addr option) \<Rightarrow> (nat \<Rightarrow> bool \<times> bool) \<Rightarrow> (nat \<Rightarrow> bool \<times> bool) \<Rightarrow> int
     \<Rightarrow> (nat \<Rightarrow> int) \<Rightarrow> nat \<Rightarrow> cache_s \<Rightarrow> entry_heap
     \<Rightarrow> bytes \<Rightarrow> (bool \<times> cache_s \<times> entry_heap) option" where
  "load_loop 0 i al cmp ok now clock cap c h f = Some (True, c, h)"
| "load_loop (Suc n) i al cmp ok now clock cap c h f = do {
     r \<leftarrow> load_record (ok i) cap f;
     case r of None \<Rightarrow> Some (False, c, h)
     | Some (key, val, expiry, f) \<Rightarrow>
         let cap = max cap (length val)
         in if expiry > now
            then do {
              (stored, c, h) \<leftarrow> cache_set (al i h) (cmp i) (clock i) c h key val (word_of_int (expiry - now));
              if stored then load_loop n (i + 1) al cmp ok now clock cap c h f else Some (False, c, h) }
            else load_loop n (i + 1) al cmp ok now clock cap c h f }"

definition cache_load ::
  "(nat \<Rightarrow> entry_heap \<Rightarrow> addr option) \<Rightarrow> (nat \<Rightarrow> bool \<times> bool) \<Rightarrow> (nat \<Rightarrow> bool \<times> bool) \<Rightarrow> int \<Rightarrow> (nat \<Rightarrow> int) \<Rightarrow> cache_s
     \<Rightarrow> entry_heap \<Rightarrow> bytes
     \<Rightarrow> (bool \<times> cache_s \<times> entry_heap) option" where
  "cache_load al cmp ok now clock c h f =
     (case fread 4 f of None \<Rightarrow> Some (False, c, h) | Some (magic, f) \<Rightarrow>
      case fread 4 f of None \<Rightarrow> Some (False, c, h) | Some (version, f) \<Rightarrow>
      case fread 8 f of None \<Rightarrow> Some (False, c, h) | Some (stored_count, f) \<Rightarrow>
      if le_nat magic \<noteq> CACHE_FILE_MAGIC \<or> le_nat version \<noteq> CACHE_FILE_VERSION then Some (False, c, h)
      else load_loop (le_nat stored_count) 0 al cmp ok now clock 0 c h f)"

end
