(* ===== verification/Cache_File_Correct.thy ===== *)
theory Cache_File_Correct
  imports Cache_Ops Cache_File
begin

text \<open>
  What a saved file holds, that loading it stores these records again, and what the cache then
  holds for each key.
\<close>

section \<open>Little-endian integers and reading\<close>

lemma length_le_bytes [simp]: "length (le_bytes k n) = k"
  by (induction k arbitrary: n) auto

lemma le_nat_le_bytes: "le_nat (le_bytes k n) = n mod 256 ^ k"
proof (induction k arbitrary: n)
  case (Suc k)
  have "unat (word_of_nat n :: u8) = n mod 256" by (simp add: unsigned_of_nat take_bit_eq_mod)
  then show ?case using Suc [of "n div 256"] mod_mult2_eq [of n 256 "256 ^ k"] by simp
qed simp

lemma le_roundtrip:
  "n < 2 ^ 32 \<Longrightarrow> le_nat (le_bytes 4 n) = n" "n < 2 ^ 64 \<Longrightarrow> le_nat (le_bytes 8 n) = n"
  by (simp_all add: le_nat_le_bytes)

lemma fread_append: "length a = n \<Longrightarrow> fread n (a @ b) = Some (a, b)"
  by (auto simp: fread_def)

lemma int64_roundtrip:
  assumes "- (2 ^ 63) \<le> x" "x < 2 ^ 63"
  shows "to_int64 (le_nat (le_bytes 8 (nat (x mod 2 ^ 64)))) = x"
proof -
  have "nat (x mod 2 ^ 64) < 2 ^ 64" by (simp add: nat_less_iff)
  then have r: "le_nat (le_bytes 8 (nat (x mod 2 ^ 64))) = nat (x mod 2 ^ 64)" by (rule le_roundtrip(2))
  show ?thesis
  proof (cases "0 \<le> x")
    case True
    then have "x mod 2 ^ 64 = x" using assms(2) by (intro mod_pos_pos_trivial) auto
    with True assms(2) show ?thesis unfolding r by (simp add: to_int64_def nat_less_iff)
  next
    case False
    have "(x + 2 ^ 64) mod 2 ^ 64 = x + 2 ^ 64" using False assms(1) by (intro mod_pos_pos_trivial) auto
    then have "x mod 2 ^ 64 = x + 2 ^ 64" by simp
    with False assms(1) show ?thesis unfolding r by (simp add: to_int64_def nat_less_iff)
  qed
qed

section \<open>Records\<close>

type_synonym cache_record = "bytes \<times> bytes \<times> int"

definition entry_record :: "cache_entry_t \<Rightarrow> cache_record" where
  "entry_record e = (ce_key e, ce_value e, ce_expires_at e)"

definition unexpired :: "int \<Rightarrow> entry_heap \<Rightarrow> addr list \<Rightarrow> cache_record list" where
  "unexpired now h as = map (\<lambda>a. entry_record (the (h a))) (filter (\<lambda>a. now < ce_expires_at (the (h a))) as)"

definition cache_records :: "int \<Rightarrow> cache_s \<Rightarrow> entry_heap \<Rightarrow> cache_record list" where
  "cache_records now c h = concat (map (\<lambda>s. unexpired now h (slot_vals (view h s))) (c_shards c))"

text \<open>The bytes of a list of records.\<close>

definition records_bytes :: "cache_record list \<Rightarrow> bytes" where
  "records_bytes rs = concat (map (\<lambda>(key, val, x). record_bytes (length key) (length val) x key val) rs)"

text \<open>
  Sizes that the fields of the format can hold, and for which the key buffer does not wrap; values are
  not empty, since \<^verbatim>\<open>cache_set\<close> refuses empty ones.
\<close>

definition storable :: "cache_record \<Rightarrow> bool" where
  "storable r \<longleftrightarrow> (case r of (key, val, x) \<Rightarrow>
     length key + 1 < 2 ^ 32 \<and> val \<noteq> [] \<and> length val < 2 ^ 64 \<and> - (2 ^ 63) \<le> x \<and> x < 2 ^ 63)"

lemma save_slots_records:
  assumes "list_all2 (slot_wf h) tags entries"
  shows "save_slots now h tags entries =
    (let rs = unexpired now h (slot_vals (map2 (slot_of h) tags entries)) in Some (length rs, records_bytes rs))"
  using assms
proof (induction tags entries rule: list_all2_induct)
  case (Cons t tags p entries)
  from Cons.hyps(1) consider (none) "t AND TAG_CONTROL_MASK \<noteq> 0" "slot_of h t p = Free \<or> slot_of h t p = Tomb"
    | (full) a e where "t AND TAG_CONTROL_MASK = 0" "p = Some a" "slot_of h t p = Full (ce_key e, a)" "h a = Some e" "entry_wf a e"
    by (auto simp: slot_wf_def slot_of_def)
  then show ?case
  proof cases
    case none
    then show ?thesis using Cons.IH by (auto simp: Let_def)
  next
    case full
    have "unat (ce_key_len e) = length (ce_key e)" "ce_value_len e = length (ce_value e)"
      using full(5) by (simp_all add: entry_wf_def unsigned_of_nat take_bit_nat_eq_self)
    then show ?thesis using full Cons.IH
      by (auto simp: Let_def unexpired_def records_bytes_def entry_record_def)
  qed
qed (simp add: unexpired_def records_bytes_def)

lemma save_shards_records:
  assumes "\<forall>s\<in>set ss. shard_wf h s"
  shows "save_shards now h ss =
    (let rs = concat (map (\<lambda>s. unexpired now h (slot_vals (view h s))) ss) in Some (length rs, records_bytes rs))"
  using assms
proof (induction ss)
  case (Cons s ss)
  have "shard_wf h s" using Cons.prems by simp
  note w = shard_wfD [OF this]
  have "list_all2 (slot_wf h) (sh_tags s) (sh_entries s)" using w(2-4) by (simp add: list_all2_conv_all_nth)
  from save_slots_records [OF this, of now] Cons show ?case
    by (simp add: Let_def view_def records_bytes_def)
qed (simp add: records_bytes_def)

lemma load_record_bytes:
  assumes "storable (key, val, x)"
  shows "load_record (True, True) cap (record_bytes (length key) (length val) x key val @ f) = Some (Some (key, val, x, f))"
proof -
  have s: "length key + 1 < 2 ^ 32" "length val < 2 ^ 64" "- (2 ^ 63) \<le> x" "x < 2 ^ 63" using assms by (simp_all add: storable_def)
  have k: "le_nat (le_bytes 4 (length key)) = length key" using s(1) by (intro le_roundtrip(1)) simp
  note r = k le_roundtrip(2) [OF s(2)] int64_roundtrip [OF s(3,4)]
  have m: "(length key + 1) mod 2 ^ 32 = length key + 1" using s(1) by simp
  show ?thesis
    unfolding load_record_def record_bytes_def append_assoc fread_append [OF length_le_bytes] option.case prod.case Let_def r m
    using fread_append [of key "length key" "val @ f"] fread_append [of val "length val" f] by (simp add: min_def)
qed

text \<open>Storing a list of records, one call of \<^verbatim>\<open>cache_set\<close> for each that is still fresh.\<close>

fun store_all ::
  "(nat \<Rightarrow> entry_heap \<Rightarrow> addr option) \<Rightarrow> (nat \<Rightarrow> bool \<times> bool) \<Rightarrow> int \<Rightarrow> (nat \<Rightarrow> int) \<Rightarrow> nat \<Rightarrow> cache_record list \<Rightarrow> cache_s \<Rightarrow> entry_heap
     \<Rightarrow> (bool \<times> cache_s \<times> entry_heap) option" where
  "store_all al cmp now clock i [] c h = Some (True, c, h)"
| "store_all al cmp now clock i ((key, val, x) # rs) c h =
     (if x > now
      then do {
        (stored, c, h) \<leftarrow> cache_set (al i h) (cmp i) (clock i) c h key val (word_of_int (x - now));
        if stored then store_all al cmp now clock (i + 1) rs c h else Some (False, c, h) }
      else store_all al cmp now clock (i + 1) rs c h)"

lemma load_loop_records:
  assumes "list_all storable rs"
  shows "load_loop (length rs) i al cmp (\<lambda>_. (True, True)) now clock cap c h (records_bytes rs @ f) = store_all al cmp now clock i rs c h"
  using assms
proof (induction rs arbitrary: i cap c h)
  case (Cons r rs)
  obtain key val x where r: "r = (key, val, x)" by (cases r)
  have b: "records_bytes (r # rs) @ f = record_bytes (length key) (length val) x key val @ records_bytes rs @ f"
    by (simp add: records_bytes_def r)
  have IH: "load_loop (length rs) j al cmp (\<lambda>_. (True, True)) now clock cap c h (records_bytes rs @ f) = store_all al cmp now clock j rs c h"
    for j cap c h using Cons by simp
  have "storable (key, val, x)" using Cons.prems r by simp
  from load_record_bytes [OF this, of cap "records_bytes rs @ f"] show ?case
    unfolding list.size add_0_right Suc_eq_plus1 [symmetric] b
    by (simp add: r IH Let_def add.commute) (auto simp: IH intro!: arg_cong2 [of _ _ _ _ Option.bind])
qed simp

section \<open>The records are the entries of the map\<close>

lemma set_cache_records:
  assumes wf: "cache_wf c h"
  shows "set (cache_records now c h) =
    {(k, ce_value e, ce_expires_at e) | k a e. cmap c h k = Some a \<and> h a = Some e \<and> now < ce_expires_at e}"
proof (rule set_eqI)
  have mem: "(\<exists>s\<in>set (c_shards c). a \<in> set (slot_vals (view h s))) \<longleftrightarrow> (\<exists>k. cmap c h k = Some a)" for a
  proof
    assume "\<exists>s\<in>set (c_shards c). a \<in> set (slot_vals (view h s))"
    then obtain i k j where "i < CACHE_SHARD_COUNT" "j < length (view h (c_shards c ! i))" "view h (c_shards c ! i) ! j = Full (k, a)"
      using cache_wfD(1) [OF wf] by (auto simp: set_slot_vals in_set_conv_nth)
    then show "\<exists>k. cmap c h k = Some a"
      using shard_entry_ran(1) [OF wf, of i j k a] shard_wfD(12) [OF cache_wfD(2) [OF wf]] by auto
  next
    assume "\<exists>k. cmap c h k = Some a"
    then obtain k where k: "table_map (view h (c_shards c ! key_shard k)) k = Some a" by (auto simp: cmap_def)
    have "a \<in> set (slot_vals (view h (c_shards c ! key_shard k)))"
      using table_map_Some [OF k] unfolding set_slot_vals by (metis (mono_tags, lifting) mem_Collect_eq nth_mem)
    moreover have "c_shards c ! key_shard k \<in> set (c_shards c)" using cache_wfD(1) [OF wf] by simp
    ultimately show "\<exists>s\<in>set (c_shards c). a \<in> set (slot_vals (view h s))" by blast
  qed
  fix r
  have "r \<in> set (cache_records now c h) \<longleftrightarrow>
      (\<exists>a. (\<exists>s\<in>set (c_shards c). a \<in> set (slot_vals (view h s))) \<and> now < ce_expires_at (the (h a)) \<and> r = entry_record (the (h a)))"
    by (auto simp: cache_records_def unexpired_def)
  also have "\<dots> \<longleftrightarrow> (\<exists>k a e. cmap c h k = Some a \<and> h a = Some e \<and> now < ce_expires_at e \<and> r = (k, ce_value e, ce_expires_at e))"
    unfolding mem using cmap_entry [OF wf] by (fastforce simp: entry_record_def)
  finally show "r \<in> set (cache_records now c h) \<longleftrightarrow>
      r \<in> {(k, ce_value e, ce_expires_at e) | k a e. cmap c h k = Some a \<and> h a = Some e \<and> now < ce_expires_at e}" by blast
qed

lemma length_cache_records:
  assumes "cache_wf c h"
  shows "length (cache_records now c h) \<le> get_total_cache_size c"
proof -
  have vals: "length (slot_vals v) = fulls v" for v :: "(bytes \<times> addr) slot list"
    by (induction v rule: slot_vals.induct) (auto simp: fulls_def)
  have "\<forall>s\<in>set (c_shards c). sh_size s = fulls (view h s)"
    using cache_wfD(1,2) [OF assms] shard_wfD(6) by (metis in_set_conv_nth)
  then have "sum_list (map (\<lambda>s. length (unexpired now h (slot_vals (view h s)))) (c_shards c)) \<le> sum_list (map sh_size (c_shards c))"
    by (intro sum_list_mono) (simp add: unexpired_def vals [symmetric])
  then show ?thesis by (simp add: cache_records_def get_total_cache_size_def length_concat comp_def)
qed

lemma save_load:
  assumes wf: "cache_wf c h" and st: "list_all storable (cache_records now c h)" and total: "get_total_cache_size c < 2 ^ 64"
  shows "\<exists>f. cache_save True now c h = Some (Some f) \<and>
    (\<forall>al cmp now' clock c' h'. cache_load al cmp (\<lambda>_. (True, True)) now' clock c' h' f = store_all al cmp now' clock 0 (cache_records now c h) c' h')"
proof -
  let ?rs = "cache_records now c h"
  have n: "length ?rs < 2 ^ 64" using length_cache_records [OF wf, of now] total by simp
  let ?f = "le_bytes 4 CACHE_FILE_MAGIC @ le_bytes 4 CACHE_FILE_VERSION @ le_bytes 8 (length ?rs) @ records_bytes ?rs"
  have "\<forall>s\<in>set (c_shards c). shard_wf h s" using cache_wfD(1,2) [OF wf] by (auto simp: in_set_conv_nth)
  from save_shards_records [OF this, of now] have "cache_save True now c h = Some (Some ?f)"
    by (simp add: cache_save_def cache_records_def Let_def)
  moreover have "cache_load al cmp (\<lambda>_. (True, True)) now' clock c' h' ?f = store_all al cmp now' clock 0 ?rs c' h'" for al cmp now' clock c' h'
    using load_loop_records [OF st, of 0 al cmp now' clock 0 c' h' "[]"] le_roundtrip(2) [OF n]
    unfolding cache_load_def fread_append [OF length_le_bytes] option.case prod.case
    by (simp add: le_nat_le_bytes CACHE_FILE_MAGIC_def CACHE_FILE_VERSION_def)
  ultimately show ?thesis by blast
qed

section \<open>What a load leaves in the cache\<close>

text \<open>The value and the expiry time the cache holds for each key.\<close>

definition contents :: "cache_s \<Rightarrow> entry_heap \<Rightarrow> bytes \<rightharpoonup> bytes \<times> int" where
  "contents c h k = do { a \<leftarrow> cmap c h k; e \<leftarrow> h a; Some (ce_value e, ce_expires_at e) }"

lemma contents_carried:
  assumes "cache_wf c h" "cache_wf c' h'" "carried h h'" "cmap c' h' k = cmap c h k"
  shows "contents c' h' k = contents c h k"
proof (cases "cmap c h k")
  case (Some a)
  then obtain e e' where "h a = Some e" "h' a = Some e'"
    using cmap_entry [OF assms(1)] cmap_entry [OF assms(2)] assms(4) by metis
  with assms(3) have "payload e' = payload e" by (auto simp: carried_def)
  with payload_eq(4,5) [OF this] \<open>h a = Some e\<close> \<open>h' a = Some e'\<close> Some assms(4) show ?thesis by (simp add: contents_def)
qed (simp add: contents_def assms(4))

lemma dom_contents: "cache_wf c h \<Longrightarrow> dom (contents c h) = dom (cmap c h)"
  using cmap_entry by (fastforce simp: contents_def bind_eq_Some_conv)

text \<open>Adding the keys \<open>K\<close> exceeds the capacity of no shard.\<close>

definition fits :: "cache_s \<Rightarrow> entry_heap \<Rightarrow> bytes set \<Rightarrow> bool" where
  "fits c h K \<longleftrightarrow>
     (\<forall>i < CACHE_SHARD_COUNT. card {k \<in> dom (contents c h) \<union> K. key_shard k = i} \<le> sh_capacity (c_shards c ! i))"

lemma shard_keys:
  assumes "cache_wf c h" "i < CACHE_SHARD_COUNT"
  shows "finite {k \<in> dom (cmap c h). key_shard k = i}" "card {k \<in> dom (cmap c h). key_shard k = i} = sh_size (c_shards c ! i)"
proof -
  let ?s = "c_shards c ! i"
  note s = cache_wfD(2) [OF assms]
  have "{k \<in> dom (cmap c h). key_shard k = i} = dom (table_map (view h ?s))"
  proof (intro set_eqI iffI)
    fix k assume "k \<in> dom (table_map (view h ?s))"
    with cache_wfD(3) [OF assms, of k] show "k \<in> {k \<in> dom (cmap c h). key_shard k = i}" by (auto simp: cmap_def)
  qed (auto simp: cmap_def)
  then have eq: "{k \<in> dom (cmap c h). key_shard k = i} = set (slot_keys (view h ?s))" by (simp add: dom_table_map)
  have "distinct (slot_keys (view h ?s))"
    using shard_wfD(5) [OF s] by (intro distinct_slot_keys) (auto simp: table_ok_def)
  then show "card {k \<in> dom (cmap c h). key_shard k = i} = sh_size ?s" "finite {k \<in> dom (cmap c h). key_shard k = i}"
    by (simp_all add: eq distinct_card length_slot_keys shard_wfD(6) [OF s])
qed

lemma set_fits:
  assumes "cache_wf c h" "cmap c h key = None" "fits c h (insert key K)" "finite K"
  shows "sh_size (c_shards c ! key_shard key) < sh_capacity (c_shards c ! key_shard key)"
proof -
  let ?A = "{k \<in> dom (cmap c h). key_shard k = key_shard key}"
    and ?B = "{k \<in> dom (contents c h) \<union> insert key K. key_shard k = key_shard key}"
  note sk = shard_keys [OF assms(1) key_shard_less [of key]]
  have B: "?B = ?A \<union> {k \<in> insert key K. key_shard k = key_shard key}" using dom_contents [OF assms(1)] by auto
  have "finite ?B" unfolding B using sk(1) assms(4) by simp
  moreover have "insert key ?A \<subseteq> ?B" unfolding B by auto
  ultimately have "card (insert key ?A) \<le> card ?B" by (rule card_mono)
  also have "\<dots> \<le> sh_capacity (c_shards c ! key_shard key)" using assms(3) by (simp add: fits_def)
  finally show ?thesis using sk assms(2) by (simp add: domIff)
qed

text \<open>One store, seen on the contents.\<close>

lemma set_contents:
  assumes inv: "cache_inv c h H" and key: "key \<noteq> []" "length key < 2 ^ 32" and val: "val \<noteq> []" and a: "a \<notin> dom h" and K: "finite K"
  shows "\<exists>c' h' k0. cache_set (Some a) cmp now c h key val ttl = Some (True, c', h') \<and> cache_inv c' h' H \<and>
    dom h' \<subseteq> insert a (dom h) \<and> k0 \<noteq> Some key \<and> (fits c h (insert key K) \<longrightarrow> k0 = None \<and> fits c' h' K) \<and>
    (\<forall>k. contents c' h' k = (if k = key then Some (val, ce_expires_at (new_entry c now a key val ttl))
       else if k0 = Some k then None else contents c h k))"
proof -
  obtain c' h' e where r: "cache_set (Some a) cmp now c h key val ttl = Some (True, c', h')" "cache_inv c' h' H" "carried h h'"
    "dom h' \<subseteq> insert a (dom h)" "h' a = Some e" "payload e = payload (new_entry c now a key val ttl)"
    "map sh_capacity (c_shards c') = map sh_capacity (c_shards c)"
    and ev: "cmap c' h' = (cmap c h)(key \<mapsto> a) \<or>
     (\<exists>k0. k0 \<noteq> key \<and> cmap c h key = None \<and> cmap c h k0 \<noteq> None \<and> key_shard k0 = key_shard key \<and>
        sh_size (c_shards c ! key_shard key) = sh_capacity (c_shards c ! key_shard key) \<and>
        cmap c' h' = (cmap c h)(k0 := None, key \<mapsto> a))"
    using set_spec [OF inv key val a, of cmp now ttl] by blast
  note wf = cache_inv_wf [OF inv] cache_inv_wf [OF r(2)]
  from ev obtain k0 where k0: "k0 \<noteq> Some key" "fits c h (insert key K) \<longrightarrow> k0 = None"
    "cmap c' h' k = (if k = key then Some a else if k0 = Some k then None else cmap c h k)" for k
  proof (elim disjE exE conjE)
    fix x assume x: "x \<noteq> key" "cmap c h key = None" "sh_size (c_shards c ! key_shard key) = sh_capacity (c_shards c ! key_shard key)"
      "cmap c' h' = (cmap c h)(x := None, key \<mapsto> a)"
    show thesis by (rule that [of "Some x"]) (use x set_fits [OF wf(1) x(2) _ K] in auto)
  qed (use that [of None] in auto)
  have con: "contents c' h' k = (if k = key then Some (val, ce_expires_at (new_entry c now a key val ttl))
       else if k0 = Some k then None else contents c h k)" for k
  proof -
    have "contents c' h' key = Some (val, ce_expires_at (new_entry c now a key val ttl))"
      using k0(3) [of key] r(5) payload_eq(4,5) [OF r(6)] by (simp add: contents_def new_entry_def)
    moreover have "contents c' h' k = None" if "k0 = Some k" "k \<noteq> key" using that k0(3) [of k] by (simp add: contents_def)
    moreover have "contents c' h' k = contents c h k" if "k0 \<noteq> Some k" "k \<noteq> key"
      using that k0(3) [of k] by (intro contents_carried [OF wf r(3)]) simp
    ultimately show ?thesis by simp
  qed
  have cap: "sh_capacity (c_shards c' ! i) = sh_capacity (c_shards c ! i)" if "i < CACHE_SHARD_COUNT" for i
    using arg_cong [OF r(7), of "\<lambda>xs. xs ! i"] that cache_wfD(1) [OF wf(1)] cache_wfD(1) [OF wf(2)] by simp
  have "fits c' h' K" if f: "fits c h (insert key K)"
  proof -
    have "dom (contents c' h') \<union> K = dom (contents c h) \<union> insert key K"
      using con k0(2) f by (auto simp: domIff)
    then show ?thesis using f by (simp add: fits_def cap)
  qed
  with r(1,2,4) k0(1,2) con show ?thesis by blast
qed

text \<open>The keys of the records that are still fresh.\<close>

definition fresh_keys :: "int \<Rightarrow> cache_record list \<Rightarrow> bytes set" where
  "fresh_keys now rs = {k. \<exists>v x. (k, v, x) \<in> set rs \<and> now < x}"

lemma fresh_keys_Cons:
  "fresh_keys now ((k, v, x) # rs) = (if now < x then insert k (fresh_keys now rs) else fresh_keys now rs)"
  by (auto simp: fresh_keys_def)

lemma finite_fresh_keys: "finite (fresh_keys now rs)"
  by (rule finite_subset [of _ "fst ` set rs"]) (force simp: fresh_keys_def)+

text \<open>A malloc that never fails: it returns the address of an unused block.\<close>

definition mallocs :: "(nat \<Rightarrow> entry_heap \<Rightarrow> addr option) \<Rightarrow> bool" where
  "mallocs al \<longleftrightarrow> (\<forall>i h. finite (dom h) \<longrightarrow> (\<exists>a. al i h = Some a \<and> a \<notin> dom h))"

lemma store_all_spec:
  assumes al: "mallocs al"
  shows "cache_inv c h H \<Longrightarrow> finite (dom h) \<Longrightarrow>
    \<forall>(k, v, x)\<in>set rs. k \<noteq> [] \<and> storable (k, v, x) \<and> x < now + 2 ^ 32 \<Longrightarrow>
    \<exists>c' h'. store_all al cmp now clock i rs c h = Some (True, c', h') \<and> cache_inv c' h' H \<and>
      (\<forall>k. (\<exists>j v x. i \<le> j \<and> j < i + length rs \<and> (k, v, x) \<in> set rs \<and> now < x \<and> contents c' h' k = Some (v, x + (clock j - now))) \<or>
           k \<notin> fresh_keys now rs \<and> contents c' h' k = contents c h k \<or>
           \<not> fits c h (fresh_keys now rs) \<and> contents c' h' k = None)"
proof (induction rs arbitrary: i c h)
  case Nil
  then show ?case by (simp add: fresh_keys_def)
next
  case (Cons r rs)
  obtain key val x where r: "r = (key, val, x)" by (cases r)
  have rs: "\<forall>(k, v, x)\<in>set rs. k \<noteq> [] \<and> storable (k, v, x) \<and> x < now + 2 ^ 32" using Cons.prems(3) by simp
  show ?case
  proof (cases "now < x")
    case False
    from Cons.IH [OF Cons.prems(1,2) rs, of "Suc i"] obtain c' h' where c': "store_all al cmp now clock (Suc i) rs c h = Some (True, c', h')"
      "cache_inv c' h' H" "\<forall>k. (\<exists>j v x. Suc i \<le> j \<and> j < Suc i + length rs \<and> (k, v, x) \<in> set rs \<and> now < x \<and>
          contents c' h' k = Some (v, x + (clock j - now))) \<or> k \<notin> fresh_keys now rs \<and> contents c' h' k = contents c h k \<or>
           \<not> fits c h (fresh_keys now rs) \<and> contents c' h' k = None" by blast
    have "store_all al cmp now clock i (r # rs) c h = Some (True, c', h')" using False c'(1) by (simp add: r)
    moreover have "fresh_keys now (r # rs) = fresh_keys now rs" using False by (simp add: r fresh_keys_Cons)
    moreover have "(\<exists>j v x. i \<le> j \<and> j < i + length (r # rs) \<and> (k, v, x) \<in> set (r # rs) \<and> now < x \<and>
          contents c' h' k = Some (v, x + (clock j - now))) \<or> k \<notin> fresh_keys now rs \<and> contents c' h' k = contents c h k \<or>
           \<not> fits c h (fresh_keys now rs) \<and> contents c' h' k = None" for k
      using spec [OF c'(3), of k] by (auto dest: Suc_leD)
    ultimately show ?thesis using c'(2) by auto
  next
    case True
    obtain a where a: "al i h = Some a" "a \<notin> dom h" using al Cons.prems(2) unfolding mallocs_def by blast
    have st: "key \<noteq> []" "length key < 2 ^ 32" "val \<noteq> []" "x < now + 2 ^ 32" using Cons.prems(3) by (auto simp: r storable_def)
    let ?ttl = "word_of_int (x - now) :: u32"
    have ttl: "uint ?ttl = x - now" using True st(4) by (simp only: uint_word_of_int) (simp add: mod_pos_pos_trivial)
    then have "?ttl \<noteq> 0" using True by (metis diff_gt_0_iff_gt less_irrefl unsigned_0)
    then have x: "ce_expires_at (new_entry c (clock i) a key val ?ttl) = x + (clock i - now)" using ttl by (simp add: new_entry_def)
    note fk = finite_fresh_keys [of now rs]
    obtain c1 h1 k0 where c1: "cache_set (Some a) (cmp i) (clock i) c h key val ?ttl = Some (True, c1, h1)" "cache_inv c1 h1 H"
      "dom h1 \<subseteq> insert a (dom h)" "k0 \<noteq> Some key"
      "fits c h (insert key (fresh_keys now rs)) \<longrightarrow> k0 = None \<and> fits c1 h1 (fresh_keys now rs)"
      "\<forall>k. contents c1 h1 k = (if k = key then Some (val, x + (clock i - now)) else if k0 = Some k then None else contents c h k)"
      using set_contents [OF Cons.prems(1) st(1-3) a(2) fk, of "cmp i" "clock i" ?ttl, unfolded x] by blast
    have "finite (dom h1)" using c1(3) Cons.prems(2) finite_subset by blast
    from Cons.IH [OF c1(2) this rs, of "Suc i"] obtain c' h' where c': "store_all al cmp now clock (Suc i) rs c1 h1 = Some (True, c', h')"
      "cache_inv c' h' H" "\<forall>k. (\<exists>j v x. Suc i \<le> j \<and> j < Suc i + length rs \<and> (k, v, x) \<in> set rs \<and> now < x \<and>
          contents c' h' k = Some (v, x + (clock j - now))) \<or> k \<notin> fresh_keys now rs \<and> contents c' h' k = contents c1 h1 k \<or>
           \<not> fits c1 h1 (fresh_keys now rs) \<and> contents c' h' k = None" by blast
    have "store_all al cmp now clock i (r # rs) c h = Some (True, c', h')" using True c'(1) c1(1) a(1) by (simp add: r)
    moreover have "fresh_keys now (r # rs) = insert key (fresh_keys now rs)" using True by (simp add: r fresh_keys_Cons)
    moreover have "(\<exists>j v x. i \<le> j \<and> j < i + length (r # rs) \<and> (k, v, x) \<in> set (r # rs) \<and> now < x \<and>
          contents c' h' k = Some (v, x + (clock j - now))) \<or>
        k \<notin> insert key (fresh_keys now rs) \<and> contents c' h' k = contents c h k \<or>
        \<not> fits c h (insert key (fresh_keys now rs)) \<and> contents c' h' k = None" for k
      using spec [OF c'(3), of k]
    proof (elim disjE)
      assume "k \<notin> fresh_keys now rs \<and> contents c' h' k = contents c1 h1 k"
      moreover have "i \<le> i \<and> i < i + length (r # rs) \<and> (key, val, x) \<in> set (r # rs)" by (simp add: r)
      ultimately show ?thesis using spec [OF c1(6), of k] c1(5) True by (cases "k = key"; cases "k0 = Some k") auto
    next
      assume "\<exists>j v x. Suc i \<le> j \<and> j < Suc i + length rs \<and> (k, v, x) \<in> set rs \<and> now < x \<and>
          contents c' h' k = Some (v, x + (clock j - now))"
      then show ?thesis by (auto dest: Suc_leD)
    next
      assume "\<not> fits c1 h1 (fresh_keys now rs) \<and> contents c' h' k = None"
      then show ?thesis using c1(5) by blast
    qed
    ultimately show ?thesis using c'(2) by auto
  qed
qed

end
