(* ===== verification/Cache_Theorems.thy ===== *)
theory Cache_Theorems
  imports Cache_System Cache_File_Correct
begin

text \<open>
  What the cache guarantees: coherence and validity of handles under concurrent use, the choice of
  the CLOCK hand, and the round trip through a file.
\<close>

section \<open>Clearing and destroying\<close>

lemma clear_from_spec:
  assumes "cache_inv c h H" "i + k = CACHE_SHARD_COUNT" "\<forall>key. key_shard key < i \<longrightarrow> cmap c h key = None"
  shows "\<exists>c' h'. clear_from k i c h = Some (c', h') \<and> cache_inv c' h' H \<and> cmap c' h' = Map.empty \<and>
    carried h h' \<and> dom h' \<subseteq> dom h \<and> destroy_shards (drop i (c_shards c)) h = Some h'"
  using assms
proof (induction k arbitrary: i c h)
  case 0
  have "cmap c h = Map.empty" using 0 by (simp add: fun_eq_iff)
  moreover have "drop i (c_shards c) = []" using 0 cache_wfD(1) [OF cache_inv_wf] by force
  ultimately show ?case using 0 by simp
next
  case (Suc k)
  have i: "i < CACHE_SHARD_COUNT" using Suc.prems(2) by simp
  have len: "length (c_shards c) = CACHE_SHARD_COUNT" using cache_wfD(1) [OF cache_inv_wf [OF Suc.prems(1)]] .
  obtain c1 h1 where r: "cache_clear_shard i c h = Some (c1, h1)" "cache_inv c1 h1 H" "carried h h1" "dom h1 \<subseteq> dom h"
    "cmap c1 h1 = (\<lambda>k. if key_shard k = i then None else cmap c h k)"
    using clear_shard_spec [OF Suc.prems(1) i] by blast
  have "\<forall>key. key_shard key < Suc i \<longrightarrow> cmap c1 h1 key = None" using r(5) Suc.prems(3) by (simp add: less_Suc_eq)
  then obtain c2 h2 where r2: "clear_from k (Suc i) c1 h1 = Some (c2, h2)" "cache_inv c2 h2 H" "cmap c2 h2 = Map.empty"
    "carried h1 h2" "dom h2 \<subseteq> dom h1" "destroy_shards (drop (Suc i) (c_shards c1)) h1 = Some h2"
    using Suc.IH [OF r(2), of "Suc i"] Suc.prems(2) by auto
  have d: "drop (Suc i) (c_shards c1) = drop (Suc i) (c_shards c)" "drop_refs (sh_tags (c_shards c ! i)) (sh_entries (c_shards c ! i)) h = Some h1"
    using r(1) by (auto simp: cache_clear_shard_def bind_eq_Some_conv)
  have "drop i (c_shards c) = c_shards c ! i # drop (Suc i) (c_shards c)" using i len by (simp add: Cons_nth_drop_Suc)
  moreover have "carried h h2" using carried_trans [OF r(3) r2(4)] r2(5) by auto
  ultimately show ?case using r r2 d by auto
qed

lemma destroy_spec:
  assumes inv: "cache_inv c h H"
  shows "\<exists>h'. cache_destroy c h = Some h' \<and> dom h' = set_mset H \<and> carried h h'"
proof -
  obtain c' h' where r: "cache_inv c' h' H" "cmap c' h' = Map.empty" "carried h h'" "destroy_shards (c_shards c) h = Some h'"
    using clear_from_spec [OF inv, of 0 CACHE_SHARD_COUNT] by auto
  have refs: "refs_ok h' {} H" using r(1,2) by (simp add: cache_inv_def)
  have "dom h' = set_mset H" using refs_okD(4,5) [OF refs] by blast
  then show ?thesis using r(3,4) by (auto simp: cache_destroy_def)
qed

lemma get_hit:
  assumes inv: "cache_inv c h H" and key: "key \<noteq> []" "length key < 2 ^ 32" and b: "int (size H) + 1 < INT_MAX"
    and a: "cmap c h key = Some a" "h a = Some e" "now < ce_expires_at e"
  shows "\<exists>h' e'. cache_get now c h key = Some (Some a, c, h') \<and> h' a = Some e' \<and> ce_value e' = ce_value e"
proof -
  obtain g h' where g: "cache_get_shared now c h key = Some (g, h')"
    "case g of Get_Hit p \<Rightarrow> key \<noteq> [] \<and> cmap c h key = Some p \<and> (\<exists>e. h p = Some e \<and> now < ce_expires_at e) \<and>
         cache_inv c h' (add_mset p H) \<and> cmap c h' = cmap c h \<and> carried h h' \<and> dom h' = dom h
     | Get_Expired \<Rightarrow> h' = h | Get_Miss \<Rightarrow> h' = h \<and> (key = [] \<or> cmap c h key = None)"
    using get_shared_spec [OF inv key(2) b, of now] by blast
  have "g \<noteq> Get_Expired"
  proof
    assume "g = Get_Expired"
    moreover obtain i where "find_key h (c_shards c ! key_shard key) key = Some (True, i)" "sh_entries (c_shards c ! key_shard key) ! i = Some a"
      by (rule find_cache [OF cache_inv_wf [OF inv] key(2)]) (use a(1) in auto)
    ultimately show False using g(1) a(2,3) key(1)
      by (auto simp: cache_get_shared_def Let_def bind_eq_Some_conv split: if_splits)
  qed
  then have hit: "g = Get_Hit a" "carried h h'" "dom h' = dom h" using g(2) a(1) key(1) by (auto split: get_result.splits)
  then obtain e' where e': "h' a = Some e'" using a(2) by blast
  then have "ce_value e' = ce_value e" using hit(2) a(2) payload_eq(4) [of e' e] by (auto simp: carried_def)
  with g(1) hit(1) e' show ?thesis by (auto simp: cache_get_def)
qed

lemma set_then_get:
  assumes inv: "cache_inv c h H" and key: "key \<noteq> []" "length key < 2 ^ 32" and val: "val \<noteq> []" and a: "a \<notin> dom h"
    and b: "int (size H) + 1 < INT_MAX" and now: "now' < ce_expires_at (new_entry c now a key val ttl)"
  shows "\<exists>c' h' h'' e. cache_set (Some a) cmp now c h key val ttl = Some (True, c', h') \<and>
    cache_get now' c' h' key = Some (Some a, c', h'') \<and> h'' a = Some e \<and> ce_value e = val"
proof -
  obtain c' h' e where r: "cache_set (Some a) cmp now c h key val ttl = Some (True, c', h')" "cache_inv c' h' H"
    "h' a = Some e" "payload e = payload (new_entry c now a key val ttl)" "cmap c' h' key = Some a"
    using set_spec [OF inv key val a, of cmp now ttl] by auto
  have e: "ce_value e = val" "now' < ce_expires_at e" using payload_eq(4,5) [OF r(4)] now by (simp_all add: new_entry_def)
  from get_hit [OF r(2) key b r(5,3) e(2)] r(1) e(1) show ?thesis by blast
qed

section \<open>Theorems\<close>

text \<open>(C31) Coherence: for every interleaving of lookups, stores, invalidations, clears and releases
  by any number of threads, no step has undefined behaviour; a lookup that hits returns the
  value and expiry stored last for the key and not invalidated since, never an expired
  one; a store succeeds whenever the allocation does and is visible to the next lookup; no
  shard exceeds its capacity.\<close>

theorem cache_coherent:
  assumes "csys.reachable s"
  shows "\<not> cache_step s None \<and>
    (\<forall>now key p h'. length key < 2 ^ 32 \<and> int (size (cy_handles s)) + 1 < INT_MAX \<and>
       cache_get_shared now (cy_cache s) (cy_heap s) key = Some (Get_Hit p, h') \<longrightarrow>
       (\<exists>e. h' p = Some e \<and> cy_latest s key = Some (ce_value e, ce_expires_at e) \<and> now < ce_expires_at e)) \<and>
    (\<forall>a cmp now now' key val ttl. key \<noteq> [] \<and> length key < 2 ^ 32 \<and> val \<noteq> [] \<and> a \<notin> dom (cy_heap s) \<and>
       int (size (cy_handles s)) + 1 < INT_MAX \<and> now' < ce_expires_at (new_entry (cy_cache s) now a key val ttl) \<longrightarrow>
       (\<exists>c' h' h'' e. cache_set (Some a) cmp now (cy_cache s) (cy_heap s) key val ttl = Some (True, c', h') \<and>
          cache_get now' c' h' key = Some (Some a, c', h'') \<and> h'' a = Some e \<and> ce_value e = val)) \<and>
    (\<forall>i < CACHE_SHARD_COUNT. sh_size (c_shards (cy_cache s) ! i) \<le> sh_capacity (c_shards (cy_cache s) ! i))"
proof (intro conjI allI impI)
  have inv: "cache_sys_inv s" using csys.reachable_inv [OF assms] .
  note D = cache_sys_invD [OF inv]
  show "\<not> cache_step s None" using csys.reachable_defined [OF assms] .
  { fix now key p h'
    assume a: "length key < 2 ^ 32 \<and> int (size (cy_handles s)) + 1 < INT_MAX \<and>
      cache_get_shared now (cy_cache s) (cy_heap s) key = Some (Get_Hit p, h')"
    then obtain e where g: "cmap (cy_cache s) (cy_heap s) key = Some p" "cy_heap s p = Some e" "now < ce_expires_at e"
      "carried (cy_heap s) h'" "dom h' = dom (cy_heap s)"
      using get_shared_spec [OF D(1), of key now] by auto
    then obtain e' where e': "h' p = Some e'" by blast
    then have "ce_value e' = ce_value e" "ce_expires_at e' = ce_expires_at e"
      using g(2,4) payload_eq(4,5) [of e' e] by (auto simp: carried_def)
    then show "\<exists>e. h' p = Some e \<and> cy_latest s key = Some (ce_value e, ce_expires_at e) \<and> now < ce_expires_at e"
      using e' g(3) D(4) [OF g(1,2)] by simp
  next
    fix a cmp now now' key val ttl
    assume "key \<noteq> [] \<and> length key < 2 ^ 32 \<and> val \<noteq> [] \<and> a \<notin> dom (cy_heap s) \<and>
       int (size (cy_handles s)) + 1 < INT_MAX \<and> now' < ce_expires_at (new_entry (cy_cache s) now a key val ttl)"
    then show "\<exists>c' h' h'' e. cache_set (Some a) cmp now (cy_cache s) (cy_heap s) key val ttl = Some (True, c', h') \<and>
          cache_get now' c' h' key = Some (Some a, c', h'') \<and> h'' a = Some e \<and> ce_value e = val"
      using set_then_get [OF D(1), of key val a now' now ttl cmp] by simp
  next
    fix i assume "i < CACHE_SHARD_COUNT"
    then show "sh_size (c_shards (cy_cache s) ! i) \<le> sh_capacity (c_shards (cy_cache s) ! i)"
      using shard_wfD(8) [OF cache_wfD(2) [OF cache_inv_wf [OF D(1)]]] by blast
  }
qed

lemma start_exists:
  obtains c where "cache_create True (\<lambda>_. (True, True)) 64 60 = Some c"
    "csys.reachable \<lparr>cy_cache = c, cy_heap = Map.empty, cy_handles = {#}, cy_expiring = {#}, cy_latest = Map.empty\<rparr>"
proof -
  obtain c where c: "cache_create True (\<lambda>_. (True, True)) 64 60 = Some c" by (auto simp: cache_create_def Let_def)
  then have "cache_start \<lparr>cy_cache = c, cy_heap = Map.empty, cy_handles = {#}, cy_expiring = {#}, cy_latest = Map.empty\<rparr>"
    by (auto simp: cache_start_def)
  with c csys.start show thesis using that by blast
qed

theorem cache_coherent_witness:
  "\<exists>c. cache_create True (\<lambda>_. (True, True)) 64 60 = Some c \<and>
     (\<exists>c' h' h'' e. cache_set (Some 1) (True, True) 100 c Map.empty [0x61] [0x62] 0 = Some (True, c', h') \<and>
       cache_get 100 c' h' [0x61] = Some (Some 1, c', h'') \<and> h'' 1 = Some e \<and> ce_value e = [0x62])"
proof -
  obtain c where c: "cache_create True (\<lambda>_. (True, True)) 64 60 = Some c"
    "csys.reachable \<lparr>cy_cache = c, cy_heap = Map.empty, cy_handles = {#}, cy_expiring = {#}, cy_latest = Map.empty\<rparr>"
    by (rule start_exists)
  have "c_default_ttl c = 60" using c(1) by (auto simp: cache_create_def Let_def split: if_splits)
  then have "100 < ce_expires_at (new_entry c 100 1 [0x61] [0x62] 0)" by (simp add: new_entry_def)
  with c(1) cache_coherent [OF c(2), THEN conjunct2, THEN conjunct2, THEN conjunct1, rule_format, of "[0x61]" "[0x62]" 1 100 100 0 "(True, True)"]
  show ?thesis by (auto simp: INT_MAX_def)
qed

text \<open>(C32) Reference counting: in every reachable state each value pointer that a caller has obtained and
  not released points to an allocated entry whose value is the one the caller saw, however
  often the key was overwritten, invalidated or evicted meanwhile; an entry is allocated exactly
  when a table or a caller refers to it, so nothing leaks; and destroying the cache frees
  all but the entries still held.\<close>

theorem cache_handles_valid:
  assumes "csys.reachable s"
  shows "(\<forall>p v. (p, v) \<in># cy_handles s \<longrightarrow> (\<exists>e. cy_heap s p = Some e \<and> ce_value e = v)) \<and>
    dom (cy_heap s) = ran (cmap (cy_cache s) (cy_heap s)) \<union> fst ` set_mset (cy_handles s) \<and>
    (\<exists>h'. cache_destroy (cy_cache s) (cy_heap s) = Some h' \<and> dom h' = fst ` set_mset (cy_handles s) \<and>
       (\<forall>p v. (p, v) \<in># cy_handles s \<longrightarrow> (\<exists>e. h' p = Some e \<and> ce_value e = v)))"
proof -
  have inv: "cache_sys_inv s" using csys.reachable_inv [OF assms] .
  note D = cache_sys_invD [OF inv]
  have refs: "refs_ok (cy_heap s) (ran (cmap (cy_cache s) (cy_heap s))) (image_mset fst (cy_handles s))"
    using D(1) by (simp add: cache_inv_def)
  have dom: "dom (cy_heap s) = ran (cmap (cy_cache s) (cy_heap s)) \<union> fst ` set_mset (cy_handles s)"
  proof (rule set_eqI)
    fix x
    show "x \<in> dom (cy_heap s) \<longleftrightarrow> x \<in> ran (cmap (cy_cache s) (cy_heap s)) \<union> fst ` set_mset (cy_handles s)"
      using refs_okD(3,4) [OF refs, of x] refs_okD(5) [OF refs, of x] by (cases "cy_heap s x") auto
  qed
  obtain h' where h': "cache_destroy (cy_cache s) (cy_heap s) = Some h'" "dom h' = fst ` set_mset (cy_handles s)" "carried (cy_heap s) h'"
    using destroy_spec [OF D(1)] by auto
  have "\<exists>e. h' p = Some e \<and> ce_value e = v" if pv: "(p, v) \<in># cy_handles s" for p v
  proof -
    have "p \<in> dom h'" using pv h'(2) by force
    then obtain e' where "h' p = Some e'" by blast
    moreover obtain e where "cy_heap s p = Some e" "ce_value e = v" using D(2) [OF pv] by blast
    ultimately show ?thesis using h'(3) payload_eq(4) [of e' e] by (auto simp: carried_def)
  qed
  with dom h'(1,2) D(2) show ?thesis by blast
qed

text \<open>A value is stored, and a lookup has returned a pointer to it.\<close>

lemma handle_exists:
  obtains s where "csys.reachable s" "cy_handles s = {#(1, [0x62])#}"
proof -
  obtain c where c: "cache_create True (\<lambda>_. (True, True)) 64 60 = Some c"
    "csys.reachable \<lparr>cy_cache = c, cy_heap = Map.empty, cy_handles = {#}, cy_expiring = {#}, cy_latest = Map.empty\<rparr>"
    by (rule start_exists)
  let ?s0 = "\<lparr>cy_cache = c, cy_heap = Map.empty, cy_handles = {#}, cy_expiring = {#}, cy_latest = Map.empty\<rparr> :: cache_sys"
  have "c_default_ttl c = 60" using c(1) by (auto simp: cache_create_def Let_def split: if_splits)
  then have fresh: "100 < ce_expires_at (new_entry c 100 1 [0x61] [0x62] 0)" by (simp add: new_entry_def)
  obtain c1 h1 h2 e where r: "cache_set (Some 1) (True, True) 100 c Map.empty [0x61] [0x62] 0 = Some (True, c1, h1)"
    "cache_get 100 c1 h1 [0x61] = Some (Some 1, c1, h2)" "h2 1 = Some e" "ce_value e = [0x62]"
    using set_then_get [OF create_spec(1) [OF c(1)] _ _ _ _ _ fresh, of "(True, True)"] by (auto simp: INT_MAX_def)
  let ?s1 = "after_set ?s0 100 [0x61] [0x62] 0 (True, c1, h1)"
  have "cache_step ?s0 (map_option (after_set ?s0 100 [0x61] [0x62] 0)
      (cache_set (Some 1) (True, True) 100 (cy_cache ?s0) (cy_heap ?s0) [0x61] [0x62] 0))"
    by (rule cache_step.do_set) simp_all
  then have s1: "csys.reachable ?s1" using csys.reachable.move [OF c(2)] r(1) by simp
  have g: "cache_get_shared 100 c1 h1 [0x61] = Some (Get_Hit 1, h2)"
  proof -
    obtain x h where x: "cache_get_shared 100 c1 h1 [0x61] = Some (x, h)"
      using r(2) by (auto simp: cache_get_def bind_eq_Some_conv)
    then show ?thesis using r(2) by (cases x) (auto simp: cache_get_def bind_eq_Some_conv)
  qed
  have f: "cy_cache ?s1 = c1" "cy_heap ?s1 = h1" "cy_handles ?s1 = {#}" by (simp_all add: after_set_def)
  have "cache_step ?s1 (map_option (after_get ?s1 100 [0x61]) (cache_get_shared 100 (cy_cache ?s1) (cy_heap ?s1) [0x61]))"
    by (rule cache_step.do_get) (simp_all add: f INT_MAX_def)
  then have "csys.reachable (after_get ?s1 100 [0x61] (Get_Hit 1, h2))" using csys.reachable.move [OF s1] by (simp add: f g)
  moreover have "cy_handles (after_get ?s1 100 [0x61] (Get_Hit 1, h2)) = {#(1, [0x62])#}"
    using r(3,4) f(3) by (simp add: after_get_def)
  ultimately show thesis by (rule that)
qed

theorem cache_handles_valid_witness:
  "\<exists>(s :: cache_sys) h' e. cy_handles s = {#(1, [0x62])#} \<and> cache_destroy (cy_cache s) (cy_heap s) = Some h' \<and> dom h' = {1} \<and>
     h' 1 = Some e \<and> ce_value e = [0x62]"
proof -
  obtain s where s: "csys.reachable s" "cy_handles s = {#(1, [0x62])#}" by (rule handle_exists)
  obtain h' where h': "cache_destroy (cy_cache s) (cy_heap s) = Some h'" "dom h' = {1}"
    "\<forall>p v. (p, v) \<in># cy_handles s \<longrightarrow> (\<exists>e. h' p = Some e \<and> ce_value e = v)"
    using cache_handles_valid [OF s(1)] s(2) by auto
  then obtain e where "h' 1 = Some e" "ce_value e = [0x62]" using s(2) by auto
  with h' s(2) show ?thesis by blast
qed

text \<open>(C33) Eviction: on a well-formed shard that is not empty, \<^verbatim>\<open>clock_evict\<close> succeeds and removes one
  entry: the first from the hand on whose clock bit is clear, or, when every bit is
  set, the first one; the bits of the entries passed before are cleared, no other slot
  changes, and the hand stops behind the victim.\<close>

theorem clock_evict_second_chance:
  assumes "shard_wf h s" "0 < sh_size s" "R = residents (view h s) (ring_from (sh_bucket_count s) (sh_bucket_count s) (sh_clock_hand s))"
    "clock_victim h R = (i, a)"
  shows "(i, a) \<in> set R \<and> (\<forall>x\<in>set R. unused h x \<longrightarrow> unused h (i, a)) \<and>
    (\<exists>h'. entry_ref_dec (clear_bits (snd ` set (takeWhile (\<lambda>x. \<not> unused h x) R)) h) a = Some h' \<and>
       clock_evict h s = Some (True, h', bury (s\<lparr>sh_clock_hand := Suc i mod sh_bucket_count s\<rparr>) i)) \<and>
    sh_size (bury s i) = sh_size s - 1"
proof -
  note ev = clock_evict_eq [OF assms(1,2), folded assms(3), unfolded assms(4), simplified]
  obtain k where k: "i \<in> set (ring_from (sh_bucket_count s) (sh_bucket_count s) (sh_clock_hand s))" "view h s ! i = Full (k, a)"
    using ev(2) by (auto simp: assms(3) residents_mem)
  have i: "i < sh_bucket_count s" using ring_from_less [OF shard_wfD(11) [OF assms(1)] k(1)] .
  obtain e where "h a = Some e" by (rule slot_cases [OF assms(1) i]) (use k(2) in auto)
  then have "clear_bits (snd ` set (takeWhile (\<lambda>x. \<not> unused h x) R)) h a \<noteq> None" by (simp add: clear_bits_def)
  then obtain e' where "clear_bits (snd ` set (takeWhile (\<lambda>x. \<not> unused h x) R)) h a = Some e'" by blast
  then obtain h' where "entry_ref_dec (clear_bits (snd ` set (takeWhile (\<lambda>x. \<not> unused h x) R)) h) a = Some h'"
    by (auto simp: entry_ref_dec_def)
  moreover have "unused h (i, a)" if "x \<in> set R" "unused h x" for x
  proof (cases "find (unused h) R")
    case None
    then show ?thesis using that by (cases x) (auto simp: find_None_iff)
  next
    case (Some y)
    then have "unused h y" by (auto simp: find_Some_iff)
    then show ?thesis using assms(4) Some by (simp add: clock_victim_def)
  qed
  ultimately show ?thesis using ev(2,3) by (auto simp: bury_def)
qed

lemma one_entry_shard:
  "\<exists>h s. shard_wf h s \<and> 0 < sh_size s"
proof -
  let ?s = "\<lparr>sh_tags = replicate 2 TAG_EMPTY, sh_entries = replicate 2 None, sh_bucket_count = 2, sh_size = 0,
      sh_capacity = 1, sh_tombstone_count = 0, sh_clock_hand = 0\<rparr>"
  let ?e = "\<lparr>ce_hash = hash_key [0x61], ce_key_len = 1, ce_ref_count = 1, ce_clock_bit = 1, ce_expires_at = 9,
      ce_value_len = 1, ce_key = [0x61], ce_back = 1, ce_value = [0x62]\<rparr>"
  let ?h = "[1 \<mapsto> ?e]"
  have s: "shard_wf ?h ?s" "view ?h ?s = replicate 2 Free"
    using empty_shard_wf [of 2 ?s 1 ?h] by simp_all
  have none: "table_map (view ?h ?s) [0x61] = None" using s(2) empty_table(2) [of 2] by simp
  obtain i where i: "place_for (home_of (sh_bucket_count ?s)) (view ?h ?s) [0x61] i"
    using find_key_correct [OF s(1), of "[0x61]"] none by auto
  have e: "entry_wf 1 ?e" by (simp add: entry_wf_def)
  have "shard_wf ?h (occupy ?s i (make_tag (hash_key [0x61])) 1)"
    using shard_occupy(1) [OF s(1) i none _ e] by simp
  moreover have "0 < sh_size (occupy ?s i (make_tag (hash_key [0x61])) 1)" by (simp add: occupy_def)
  ultimately show ?thesis by blast
qed

theorem clock_evict_second_chance_witness:
  "\<exists>h s h' s'. shard_wf h s \<and> 0 < sh_size s \<and> clock_evict h s = Some (True, h', s')"
proof -
  obtain h s where s: "shard_wf h s" "0 < sh_size s" using one_entry_shard by blast
  obtain i a where "clock_victim h (residents (view h s) (ring_from (sh_bucket_count s) (sh_bucket_count s) (sh_clock_hand s))) = (i, a)"
    by fastforce
  from clock_evict_second_chance [OF s refl this] s show ?thesis by blast
qed

text \<open>(C34) The file format.  Take a well-formed cache whose keys are shorter than \<open>2 ^ 32 - 1\<close> bytes and
  whose sizes and expiry times fit their fields.  Saving it at time \<open>now\<close> succeeds, and loading the file
  at time \<open>now'\<close> into another cache, when every allocation succeeds, no other thread runs and no entry
  lives more than \<open>2 ^ 32\<close> seconds, reports success and leaves for each key one of three things.  A key
  saved with an entry that is fresh at both times has the saved value, and its expiry time is later by
  the time that passed between the clock reading of the load and the one of the store of its record; a
  lookup before that time returns the value.  Any other key has what the target cache held for it.
  Only when the keys together exceed the capacity of some shard, a key may have been evicted.\<close>

theorem cache_save_load_roundtrip:
  assumes "cache_wf c h" "list_all storable (cache_records now c h)" "get_total_cache_size c < 2 ^ 64"
    and load: "mallocs al" "cache_inv c' h' H" "finite (dom h')" "int (size H) + 1 < INT_MAX"
    and ttl: "\<forall>k v x. contents c h k = Some (v, x) \<longrightarrow> x < now' + 2 ^ 32"
    and K: "K = {k. \<exists>v x. contents c h k = Some (v, x) \<and> now < x \<and> now' < x}"
  shows "\<exists>f. cache_save True now c h = Some (Some f) \<and>
    (\<exists>c'' h''. cache_load al cmp (\<lambda>_. (True, True)) now' clock c' h' f = Some (True, c'', h'') \<and> cache_inv c'' h'' H \<and>
      (\<forall>k v x. k \<in> K \<and> contents c h k = Some (v, x) \<longrightarrow>
         (\<exists>j < get_total_cache_size c. contents c'' h'' k = Some (v, x + (clock j - now')) \<and>
            (\<forall>t < x + (clock j - now'). \<exists>p g e. cache_get t c'' h'' k = Some (Some p, c'', g) \<and> g p = Some e \<and> ce_value e = v)) \<or>
         \<not> fits c' h' K \<and> contents c'' h'' k = None) \<and>
      (\<forall>k. k \<notin> K \<longrightarrow> contents c'' h'' k = contents c' h' k \<or> \<not> fits c' h' K \<and> contents c'' h'' k = None))"
proof -
  let ?rs = "cache_records now c h"
  have rec: "(k, v, x) \<in> set ?rs \<longleftrightarrow> contents c h k = Some (v, x) \<and> now < x" for k v x
    using set_cache_records [OF assms(1), of now] by (auto simp: contents_def bind_eq_Some_conv)
  have keys: "k \<noteq> [] \<and> length k < 2 ^ 32" if "contents c h k = Some y" for k y
    using that cmap_entry [OF assms(1), of k] by (auto simp: contents_def bind_eq_Some_conv entry_wf_def)
  have fk: "fresh_keys now' ?rs = K" by (auto simp: fresh_keys_def rec K)
  have "\<forall>(k, v, x)\<in>set ?rs. k \<noteq> [] \<and> storable (k, v, x) \<and> x < now' + 2 ^ 32"
    using assms(2) ttl by (auto simp: list_all_iff rec dest: keys)
  from store_all_spec [OF load(1-3) this, of cmp clock 0, unfolded fk] obtain c'' h'' where
    st: "store_all al cmp now' clock 0 ?rs c' h' = Some (True, c'', h'')" "cache_inv c'' h'' H"
    and con: "(\<exists>j v x. j < length ?rs \<and> (k, v, x) \<in> set ?rs \<and> now' < x \<and> contents c'' h'' k = Some (v, x + (clock j - now'))) \<or>
      k \<notin> K \<and> contents c'' h'' k = contents c' h' k \<or> \<not> fits c' h' K \<and> contents c'' h'' k = None" for k
    by auto
  have get: "\<exists>p g e. cache_get t c'' h'' k = Some (Some p, c'', g) \<and> g p = Some e \<and> ce_value e = v"
    if k: "contents c'' h'' k = Some (v, y)" "t < y" "k \<in> K" for k v y t
  proof -
    from k(1) obtain a e where a: "cmap c'' h'' k = Some a" "h'' a = Some e" "v = ce_value e" "y = ce_expires_at e"
      by (auto simp: contents_def bind_eq_Some_conv)
    have "k \<noteq> []" "length k < 2 ^ 32" using k(3) keys by (auto simp: K)
    from get_hit [OF st(2) this load(4) a(1,2), of t] k(2) a(3,4) show ?thesis by blast
  qed
  obtain f where f: "cache_save True now c h = Some (Some f)" "cache_load al cmp (\<lambda>_. (True, True)) now' clock c' h' f = Some (True, c'', h'')"
    using save_load [OF assms(1-3)] st(1) by metis
  have len: "length ?rs \<le> get_total_cache_size c" by (rule length_cache_records [OF assms(1)])
  have "(\<exists>j < get_total_cache_size c. contents c'' h'' k = Some (v, x + (clock j - now')) \<and>
       (\<forall>t < x + (clock j - now'). \<exists>p g e. cache_get t c'' h'' k = Some (Some p, c'', g) \<and> g p = Some e \<and> ce_value e = v)) \<or>
      \<not> fits c' h' K \<and> contents c'' h'' k = None" if k: "k \<in> K \<and> contents c h k = Some (v, x)" for k v x
    using con [of k]
  proof (elim disjE)
    assume "\<exists>j v x. j < length ?rs \<and> (k, v, x) \<in> set ?rs \<and> now' < x \<and> contents c'' h'' k = Some (v, x + (clock j - now'))"
    then obtain j where j: "j < length ?rs" "contents c'' h'' k = Some (v, x + (clock j - now'))" using k rec by auto
    then show ?thesis using len get [OF j(2)] k by (intro disjI1 exI [of _ j]) auto
  qed (use k in auto)
  moreover have "contents c'' h'' k = contents c' h' k \<or> \<not> fits c' h' K \<and> contents c'' h'' k = None" if "k \<notin> K" for k
    using con [of k] that rec by (auto simp: K)
  ultimately show ?thesis using f st(2) by blast
qed

lemma total_size_capacity:
  assumes "cache_wf c h"
  shows "get_total_cache_size c \<le> get_total_capacity c"
proof -
  have "\<forall>s\<in>set (c_shards c). sh_size s \<le> sh_capacity s"
    using cache_wfD(1,2) [OF assms] shard_wfD(8) by (metis in_set_conv_nth)
  then show ?thesis unfolding get_total_cache_size_def get_total_capacity_def by (intro sum_list_mono) simp
qed

text \<open>A cache with one entry, stored at time 100 for 60 seconds.\<close>

lemma one_entry_cache:
  obtains c h c0 where "cache_wf c h" "list_all storable (cache_records 100 c h)" "get_total_cache_size c < 2 ^ 64"
    "contents c h = [[0x61] \<mapsto> ([0x62], 160)]" "cache_inv c0 Map.empty {#}" "fits c0 Map.empty {[0x61]}"
    "cache_create True (\<lambda>_. (True, True)) 64 60 = Some c0"
proof -
  obtain c where c: "cache_create True (\<lambda>_. (True, True)) 64 60 = Some c" by (rule start_exists)
  note cr = create_spec [OF c]
  have ttl: "c_default_ttl c = 60" "get_total_capacity c = 64"
    using c by (auto simp: cache_create_def Let_def get_total_capacity_def shard_create_def CACHE_SHARD_COUNT_def sum_list_replicate
      split: if_splits)
  obtain c' h' e where r: "cache_inv c' h' {#}" "h' 1 = Some e" "payload e = payload (new_entry c 100 1 [0x61] [0x62] 0)"
    "cmap c' h' = [[0x61] \<mapsto> 1]" "map sh_capacity (c_shards c') = map sh_capacity (c_shards c)"
    using set_spec [OF cr(1), of "[0x61]" "[0x62]" 1 "(True, True)" 100 0] cr(2) by auto
  note wf = cache_inv_wf [OF r(1)]
  have e: "ce_value e = [0x62]" "ce_expires_at e = 160" using payload_eq(4,5) [OF r(3)] ttl(1) by (simp_all add: new_entry_def)
  have con: "contents c' h' = [[0x61] \<mapsto> ([0x62], 160)]" using r(2,4) e by (simp add: contents_def fun_eq_iff)
  have "set (cache_records 100 c' h') = {([0x61], [0x62], 160)}"
    unfolding set_cache_records [OF wf] using r(2,4) e by (auto split: if_splits)
  then have "list_all storable (cache_records 100 c' h')" by (simp add: list_all_iff storable_def)
  moreover have "get_total_cache_size c' < 2 ^ 64"
    using total_size_capacity [OF wf] r(5) ttl(2) by (simp add: get_total_capacity_def)
  moreover have "fits c Map.empty {[0x61]}"
  proof -
    have "contents c Map.empty = Map.empty" by (simp add: contents_def cr(2) fun_eq_iff)
    moreover have "card {k \<in> {[0x61 :: u8]}. key_shard k = i} \<le> sh_capacity (c_shards c ! i)" if "i < CACHE_SHARD_COUNT" for i
    proof -
      have "card {k \<in> {[0x61 :: u8]}. key_shard k = i} \<le> 1" by (rule order_trans [OF card_mono [of "{[0x61 :: u8]}"]]) auto
      with shard_wfD(9) [OF cache_wfD(2) [OF cache_inv_wf [OF cr(1)] that]] show ?thesis by linarith
    qed
    ultimately show ?thesis by (simp add: fits_def)
  qed
  ultimately show thesis using that wf con cr(1) c by blast
qed

theorem cache_save_load_roundtrip_witness:
  "\<exists>c h f c0 c' h'. contents c h = [[0x61] \<mapsto> ([0x62], 160)] \<and> cache_save True 100 c h = Some (Some f) \<and>
     cache_create True (\<lambda>_. (True, True)) 64 60 = Some c0 \<and>
     cache_load (\<lambda>_ h. Some (LEAST a. a \<notin> dom h)) (\<lambda>_. (True, True)) (\<lambda>_. (True, True)) 110 (\<lambda>_. 112) c0 Map.empty f = Some (True, c', h') \<and>
     contents c' h' [0x61] = Some ([0x62], 162)"
proof -
  obtain c h c0 where c: "cache_wf c h" "list_all storable (cache_records 100 c h)" "get_total_cache_size c < 2 ^ 64"
    "contents c h = [[0x61] \<mapsto> ([0x62], 160)]" "cache_inv c0 Map.empty {#}" "fits c0 Map.empty {[0x61]}"
    "cache_create True (\<lambda>_. (True, True)) 64 60 = Some c0" by (rule one_entry_cache)
  have m: "mallocs (\<lambda>_ h. Some (LEAST a. a \<notin> dom h))"
    unfolding mallocs_def by (metis LeastI_ex ex_new_if_finite infinite_UNIV_nat)
  have K: "{[0x61]} = {k. \<exists>v x. contents c h k = Some (v, x) \<and> 100 < x \<and> 110 < x}" using c(4) by auto
  have ttl: "\<forall>k v x. contents c h k = Some (v, x) \<longrightarrow> x < 110 + 2 ^ 32" using c(4) by auto
  have small: "finite (dom (Map.empty :: entry_heap))" "int (size ({#} :: addr multiset)) + 1 < INT_MAX" by (simp_all add: INT_MAX_def)
  from cache_save_load_roundtrip [OF c(1-3) m c(5) small ttl K, of "\<lambda>_. (True, True)" "\<lambda>_. 112"] show ?thesis
  proof (elim exE conjE)
    fix f c' h'
    assume f: "cache_save True 100 c h = Some (Some f)"
      "cache_load (\<lambda>_ h. Some (LEAST a. a \<notin> dom h)) (\<lambda>_. (True, True)) (\<lambda>_. (True, True)) 110 (\<lambda>_. 112) c0 Map.empty f = Some (True, c', h')"
      and kept: "\<forall>k v x. k \<in> {[0x61]} \<and> contents c h k = Some (v, x) \<longrightarrow>
         (\<exists>j < get_total_cache_size c. contents c' h' k = Some (v, x + (112 - 110)) \<and>
            (\<forall>t < x + (112 - 110). \<exists>p g e. cache_get t c' h' k = Some (Some p, c', g) \<and> g p = Some e \<and> ce_value e = v)) \<or>
         \<not> fits c0 Map.empty {[0x61]} \<and> contents c' h' k = None"
    have "contents c' h' [0x61] = Some ([0x62], 162)"
      using kept [rule_format, of "[0x61]" "[0x62]" 160] c(4,6) by auto
    with f c(4,7) show ?thesis by blast
  qed
qed

end
