(* ===== verification/Arena.thy ===== *)
theory Arena
  imports Byte_Strings Transition_Spec
begin

text \<open>
  The arena allocator of \<^verbatim>\<open>include/arena.h\<close> and \<^verbatim>\<open>src/arena.c\<close>.  Addresses and sizes are 64-bit
  words with C's wrap-around.  Memory is a partial function from addresses to cells: a byte outside
  its domain belongs to nobody, and touching it is undefined (\<open>None\<close>).  The descriptors of the
  blocks are kept apart from the cells: the first one is embedded in the arena, the others
  stand at the start of their slab, whose first 32 bytes hold no cells; nor does the block of an
  \<^verbatim>\<open>Arena\<close> structure that \<^verbatim>\<open>arena_create\<close> allocated.  What the system allocator
  answers is the argument \<open>al\<close>, a function from the alignment and the size to an address or
  \<open>None\<close>.  The build without \<^verbatim>\<open>ARENA_ABORT_ON_OOM\<close> is modelled.
\<close>

section \<open>Constants and types\<close>

definition ARENA_DEFAULT_ALIGN :: size_t where
  "ARENA_DEFAULT_ALIGN = 16"

definition ARENA_MIN_BLOCK_SIZE :: size_t where
  "ARENA_MIN_BLOCK_SIZE = 64 * 1024"

definition ARENA_MAX_BLOCK_SIZE :: size_t where
  "ARENA_MAX_BLOCK_SIZE = 8 * 1024 * 1024"

definition STATIC_BUFFER_SIZE :: size_t where
  "STATIC_BUFFER_SIZE = 1024 * 1024"

text \<open>Three pointers and a flag, padded to the alignment of a pointer.\<close>

definition sizeof_ArenaBlock :: size_t where
  "sizeof_ArenaBlock = 32"

text \<open>Seven words, two flags that take a word each when padded, and the descriptor of the first block.\<close>

definition sizeof_Arena :: size_t where
  "sizeof_Arena = 96"

text \<open>A non-NULL \<^verbatim>\<open>ArenaBlock*\<close>: the embedded descriptor or the address of a slab.\<close>

datatype block_ptr = First_Block | Slab u64

record arena_block =
  ab_next :: "block_ptr option"
  ab_base :: u64
  ab_end :: u64
  ab_is_static :: bool

record arena_checkpoint =
  cp_curr :: u64
  cp_end :: u64
  cp_block :: "block_ptr option"

text \<open>\<open>ar_tls_origin\<close>: whether \<^verbatim>\<open>tls_in_use_origin\<close> is set.\<close>

record arena =
  ar_curr :: u64
  ar_end :: u64
  ar_current_block :: "block_ptr option"
  ar_head :: "block_ptr option"
  ar_page_size :: size_t
  ar_total_committed :: size_t
  ar_heap_allocated :: bool
  ar_tls_origin :: bool
  ar_first_block :: arena_block

text \<open>
  \<open>mm_slabs\<close>: the descriptors at the start of slabs; \<open>mm_heap\<close>: the allocations not yet freed, with
  their sizes; \<open>mm_tls\<close>: the thread's \<^verbatim>\<open>static_buffer_in_use\<close>.
\<close>

record memory =
  mm_cells :: "u64 \<rightharpoonup> cell"
  mm_slabs :: "u64 \<rightharpoonup> arena_block"
  mm_heap :: "u64 \<rightharpoonup> size_t"
  mm_tls :: bool

type_synonym system_alloc = "size_t \<Rightarrow> size_t \<Rightarrow> u64 option"

section \<open>Memory\<close>

definition range_of :: "u64 \<Rightarrow> size_t \<Rightarrow> nat set" where
  "range_of p n = {unat p ..< unat p + unat n}"

fun load_cells :: "(u64 \<rightharpoonup> cell) \<Rightarrow> u64 \<Rightarrow> nat \<Rightarrow> cell list option" where
  "load_cells c p 0 = Some []"
| "load_cells c p (Suc n) = do { x \<leftarrow> c p; xs \<leftarrow> load_cells c (p + 1) n; Some (x # xs) }"

fun store_cells :: "(u64 \<rightharpoonup> cell) \<Rightarrow> u64 \<Rightarrow> cell list \<Rightarrow> (u64 \<rightharpoonup> cell) option" where
  "store_cells c p [] = Some c"
| "store_cells c p (x # xs) = (case c p of None \<Rightarrow> None | Some _ \<Rightarrow> store_cells (c(p \<mapsto> x)) (p + 1) xs)"

text \<open>\<^verbatim>\<open>memcpy\<close> within the memory; overlapping ranges are undefined.\<close>

definition copy_cells :: "(u64 \<rightharpoonup> cell) \<Rightarrow> u64 \<Rightarrow> u64 \<Rightarrow> size_t \<Rightarrow> (u64 \<rightharpoonup> cell) option" where
  "copy_cells c dst src n =
     (if unat dst < unat src + unat n \<and> unat src < unat dst + unat n then None
      else do { xs \<leftarrow> load_cells c src (unat n); store_cells c dst xs })"

definition align_up :: "u64 \<Rightarrow> size_t \<Rightarrow> u64" where
  "align_up x alignment = (x + alignment - 1) AND NOT (alignment - 1)"

text \<open>
  The allocation of \<open>include/aligned_alloc.h\<close>: the size is rounded up to a multiple of the alignment
  before the system is asked.  The new allocation is entered with its rounded size.
\<close>

definition aligned_alloc_xp :: "system_alloc \<Rightarrow> size_t \<Rightarrow> size_t \<Rightarrow> memory \<Rightarrow> (u64 \<times> size_t \<times> memory) option" where
  "aligned_alloc_xp al alignment sz m =
     (if alignment AND (alignment - 1) \<noteq> 0 \<or> alignment < 8 then None
      else let n = align_up sz alignment in
        case al alignment n of None \<Rightarrow> None
        | Some p \<Rightarrow> Some (p, n, m\<lparr>mm_heap := (mm_heap m)(p \<mapsto> n),
            mm_cells := (\<lambda>x. if unat p \<le> unat x \<and> unat x < unat p + unat n then Some None else mm_cells m x)\<rparr>))"

definition aligned_free_xp :: "u64 \<Rightarrow> memory \<Rightarrow> memory option" where
  "aligned_free_xp p m = (case mm_heap m p of None \<Rightarrow> None
     | Some n \<Rightarrow> Some (m\<lparr>mm_heap := (mm_heap m)(p := None), mm_slabs := (mm_slabs m)(p := None),
         mm_cells := (\<lambda>x. if unat p \<le> unat x \<and> unat x < unat p + unat n then None else mm_cells m x)\<rparr>))"

section \<open>Life cycle\<close>

definition arena_init :: "size_t \<Rightarrow> u64 \<Rightarrow> size_t \<Rightarrow> arena" where
  "arena_init page_size buf sz =
     \<lparr>ar_curr = buf, ar_end = buf + sz, ar_current_block = Some First_Block, ar_head = Some First_Block,
      ar_page_size = page_size, ar_total_committed = sz, ar_heap_allocated = False, ar_tls_origin = False,
      ar_first_block = \<lparr>ab_next = None, ab_base = buf, ab_end = buf + sz, ab_is_static = True\<rparr>\<rparr>"

text \<open>
  \<open>al0\<close> and \<open>al\<close> are the answers of the system to the two allocations, of the structure and of the
  first block; \<open>sb\<close> is the address of the thread's static buffer.  The result is the address of the
  structure and its contents, or \<open>None\<close> for NULL.
\<close>

definition arena_create ::
  "system_alloc \<Rightarrow> system_alloc \<Rightarrow> size_t \<Rightarrow> u64 \<Rightarrow> size_t \<Rightarrow> memory \<Rightarrow> ((u64 \<times> arena) option \<times> memory) option" where
  "arena_create al0 al page_size sb reserve_size m =
     (case aligned_alloc_xp al0 64 sizeof_Arena m of None \<Rightarrow> Some (None, m)
      | Some (self, n, m) \<Rightarrow>
          let m = m\<lparr>mm_cells := (\<lambda>x. if unat self \<le> unat x \<and> unat x < unat self + unat n then None else mm_cells m x)\<rparr>
          in if \<not> mm_tls m \<and> reserve_size \<le> STATIC_BUFFER_SIZE
             then Some (Some (self, (arena_init page_size sb STATIC_BUFFER_SIZE)\<lparr>ar_tls_origin := True, ar_heap_allocated := True\<rparr>),
                    m\<lparr>mm_tls := True\<rparr>)
             else
               let initial_size = (if reserve_size > 0 then reserve_size else ARENA_MIN_BLOCK_SIZE);
                   initial_size = align_up initial_size page_size
               in case aligned_alloc_xp al 64 initial_size m of
                    None \<Rightarrow> do { m \<leftarrow> aligned_free_xp self m; Some (None, m) }
                  | Some (buf, _, m) \<Rightarrow>
                      let a = arena_init page_size buf initial_size
                      in Some (Some (self, a\<lparr>ar_first_block := (ar_first_block a)\<lparr>ab_is_static := False\<rparr>, ar_heap_allocated := True\<rparr>), m))"

definition block_at :: "memory \<Rightarrow> arena \<Rightarrow> block_ptr \<Rightarrow> arena_block option" where
  "block_at m a p = (case p of First_Block \<Rightarrow> Some (ar_first_block a) | Slab q \<Rightarrow> mm_slabs m q)"

definition set_next :: "memory \<Rightarrow> arena \<Rightarrow> block_ptr \<Rightarrow> block_ptr option \<Rightarrow> memory \<times> arena" where
  "set_next m a p nxt = (case p of
       First_Block \<Rightarrow> (m, a\<lparr>ar_first_block := (ar_first_block a)\<lparr>ab_next := nxt\<rparr>\<rparr>)
     | Slab q \<Rightarrow> (m\<lparr>mm_slabs := (mm_slabs m)(q := map_option (\<lambda>b. b\<lparr>ab_next := nxt\<rparr>) (mm_slabs m q))\<rparr>, a))"

definition arena_reset :: "memory \<Rightarrow> arena \<Rightarrow> arena option" where
  "arena_reset m a = (case ar_head a of None \<Rightarrow> Some a
     | Some h \<Rightarrow> do {
         b \<leftarrow> block_at m a h;
         Some (a\<lparr>ar_current_block := Some h, ar_curr := ab_base b, ar_end := ab_end b\<rparr>) })"

text \<open>The walk over the overflow blocks; freeing the embedded descriptor is undefined.\<close>

partial_function (option) destroy_chain :: "block_ptr option \<Rightarrow> memory \<Rightarrow> memory option" where
  "destroy_chain nxt m = (case nxt of None \<Rightarrow> Some m
     | Some First_Block \<Rightarrow> None
     | Some (Slab p) \<Rightarrow> do { b \<leftarrow> mm_slabs m p; m \<leftarrow> aligned_free_xp p m; destroy_chain (ab_next b) m })"

text \<open>\<open>self\<close> is the address of the structure, which is freed last.\<close>

definition arena_destroy :: "memory \<Rightarrow> u64 \<Rightarrow> arena \<Rightarrow> memory option" where
  "arena_destroy m self a = do {
     m \<leftarrow> (case ar_head a of None \<Rightarrow> Some m
          | Some h \<Rightarrow> do {
              b \<leftarrow> block_at m a h;
              m \<leftarrow> if \<not> ab_is_static b then aligned_free_xp (ab_base b) m else Some m;
              let m = (if ab_is_static b \<and> ar_tls_origin a then m\<lparr>mm_tls := False\<rparr> else m);
              destroy_chain (ab_next b) m });
     if ar_heap_allocated a then aligned_free_xp self m else Some m }"

definition arena_save :: "arena \<Rightarrow> arena_checkpoint" where
  "arena_save a = \<lparr>cp_curr = ar_curr a, cp_end = ar_end a, cp_block = ar_current_block a\<rparr>"

definition arena_restore :: "arena \<Rightarrow> arena_checkpoint \<Rightarrow> arena" where
  "arena_restore a cp = a\<lparr>ar_curr := cp_curr cp, ar_end := cp_end cp, ar_current_block := cp_block cp\<rparr>"

definition arena_committed_size :: "arena \<Rightarrow> size_t" where
  "arena_committed_size a = ar_total_committed a"

definition arena_used_size :: "memory \<Rightarrow> arena \<Rightarrow> size_t option" where
  "arena_used_size m a = (case ar_current_block a of None \<Rightarrow> Some 0
     | Some p \<Rightarrow> do {
         b \<leftarrow> block_at m a p;
         let block_capacity = ab_end b - ab_base b;
         let block_used = ar_curr a - ab_base b;
         Some ((ar_total_committed a - block_capacity) + block_used) })"

section \<open>Allocation\<close>

text \<open>The search through the cached blocks behind the current one.\<close>

partial_function (option) find_cached ::
  "memory \<Rightarrow> arena \<Rightarrow> size_t \<Rightarrow> size_t \<Rightarrow> block_ptr option \<Rightarrow> (block_ptr \<times> arena_block) option option" where
  "find_cached m a sz alignment nxt = (case nxt of None \<Rightarrow> Some None
     | Some p \<Rightarrow> do {
         b \<leftarrow> block_at m a p;
         if align_up (ab_base b) alignment + sz \<le> ab_end b then Some (Some (p, b))
         else find_cached m a sz alignment (ab_next b) })"

definition next_block_size :: "arena \<Rightarrow> size_t \<Rightarrow> size_t \<Rightarrow> size_t \<Rightarrow> size_t" where
  "next_block_size a current_capacity sz alignment =
     (let needed = sizeof_ArenaBlock + (alignment - 1) + sz;
          n = (if current_capacity \<le> ARENA_MAX_BLOCK_SIZE div 2 then current_capacity * 2 else ARENA_MAX_BLOCK_SIZE);
          n = (if n < needed then needed else n);
          n = (if n < ARENA_MIN_BLOCK_SIZE then ARENA_MIN_BLOCK_SIZE else n)
      in align_up n (ar_page_size a))"

definition arena_alloc_slow ::
  "system_alloc \<Rightarrow> memory \<Rightarrow> arena \<Rightarrow> size_t \<Rightarrow> size_t \<Rightarrow> (u64 option \<times> memory \<times> arena) option" where
  "arena_alloc_slow al m a sz alignment = do {
     cp \<leftarrow> ar_current_block a;
     cb \<leftarrow> block_at m a cp;
     hit \<leftarrow> find_cached m a sz alignment (ab_next cb);
     case hit of
       Some (p, b) \<Rightarrow>
         let aligned = align_up (ab_base b) alignment
         in Some (Some aligned, m, a\<lparr>ar_current_block := Some p, ar_curr := aligned + sz, ar_end := ab_end b\<rparr>)
     | None \<Rightarrow>
         let next_size = next_block_size a (ab_end cb - ab_base cb) sz alignment
         in case aligned_alloc_xp al 64 next_size m of
              None \<Rightarrow> Some (None, m, a)
            | Some (ptr, n, m) \<Rightarrow>
                if n < sizeof_ArenaBlock then None
                else
                  let base_addr = ptr + sizeof_ArenaBlock;
                      aligned = align_up base_addr alignment;
                      block = \<lparr>ab_next = None, ab_base = base_addr, ab_end = ptr + next_size, ab_is_static = False\<rparr>;
                      m = m\<lparr>mm_slabs := (mm_slabs m)(ptr \<mapsto> block),
                            mm_cells := (\<lambda>x. if unat ptr \<le> unat x \<and> unat x < unat ptr + unat sizeof_ArenaBlock
                                             then None else mm_cells m x)\<rparr>;
                      (m, a) = set_next m a cp (Some (Slab ptr))
                  in Some (Some aligned, m,
                       a\<lparr>ar_current_block := Some (Slab ptr), ar_total_committed := ar_total_committed a + next_size,
                         ar_curr := aligned + sz, ar_end := ptr + next_size\<rparr>) }"

definition arena_alloc_align ::
  "system_alloc \<Rightarrow> memory \<Rightarrow> arena \<Rightarrow> size_t \<Rightarrow> size_t \<Rightarrow> (u64 option \<times> memory \<times> arena) option" where
  "arena_alloc_align al m a sz alignment =
     (if sz = 0 then Some (None, m, a)
      else let aligned = align_up (ar_curr a) alignment; nxt = aligned + sz in
        if nxt \<le> ar_end a then Some (Some aligned, m, a\<lparr>ar_curr := nxt\<rparr>)
        else arena_alloc_slow al m a sz alignment)"

definition arena_alloc :: "system_alloc \<Rightarrow> memory \<Rightarrow> arena \<Rightarrow> size_t \<Rightarrow> (u64 option \<times> memory \<times> arena) option" where
  "arena_alloc al m a sz = arena_alloc_align al m a sz ARENA_DEFAULT_ALIGN"

definition arena_alloc_unaligned ::
  "system_alloc \<Rightarrow> memory \<Rightarrow> arena \<Rightarrow> size_t \<Rightarrow> (u64 option \<times> memory \<times> arena) option" where
  "arena_alloc_unaligned al m a sz =
     (if sz = 0 then Some (None, m, a)
      else let ptr = ar_curr a; nxt = ptr + sz in
        if nxt \<le> ar_end a then Some (Some ptr, m, a\<lparr>ar_curr := nxt\<rparr>)
        else arena_alloc_slow al m a sz 1)"

definition arena_realloc ::
  "system_alloc \<Rightarrow> memory \<Rightarrow> arena \<Rightarrow> u64 option \<Rightarrow> size_t \<Rightarrow> size_t \<Rightarrow> size_t \<Rightarrow> (u64 option \<times> memory \<times> arena) option" where
  "arena_realloc al m a old_ptr old_size new_size alignment =
     (case (if old_size = 0 then None else old_ptr) of
        None \<Rightarrow> arena_alloc_align al m a new_size alignment
      | Some old \<Rightarrow>
          if new_size = 0
          then Some (None, m, if old + old_size = ar_curr a then a\<lparr>ar_curr := old\<rparr> else a)
          else if old + old_size = ar_curr a \<and> (new_size \<le> old_size \<or> old + new_size \<le> ar_end a)
          then Some (Some old, m, a\<lparr>ar_curr := old + new_size\<rparr>)
          else do {
            (r, m, a) \<leftarrow> arena_alloc_align al m a new_size alignment;
            case r of None \<Rightarrow> Some (None, m, a)
            | Some p \<Rightarrow> do {
                c \<leftarrow> copy_cells (mm_cells m) p old (if old_size < new_size then old_size else new_size);
                Some (Some p, m\<lparr>mm_cells := c\<rparr>, a) } })"

section \<open>Helpers on top of allocation\<close>

text \<open>\<open>filled r bs\<close>: store \<open>bs\<close> at the address returned, if any.\<close>

definition filled :: "(u64 option \<times> memory \<times> arena) option \<Rightarrow> cell list \<Rightarrow> (u64 option \<times> memory \<times> arena) option" where
  "filled r xs = do {
     (q, m, a) \<leftarrow> r;
     case q of None \<Rightarrow> Some (None, m, a)
     | Some p \<Rightarrow> do { c \<leftarrow> store_cells (mm_cells m) p xs; Some (Some p, m\<lparr>mm_cells := c\<rparr>, a) } }"

definition arena_alloc_zero :: "system_alloc \<Rightarrow> memory \<Rightarrow> arena \<Rightarrow> size_t \<Rightarrow> (u64 option \<times> memory \<times> arena) option" where
  "arena_alloc_zero al m a sz =
     filled (arena_alloc_align al m a sz ARENA_DEFAULT_ALIGN) (replicate (unat sz) (Some 0))"

definition arena_alloc_array_zero ::
  "system_alloc \<Rightarrow> memory \<Rightarrow> arena \<Rightarrow> size_t \<Rightarrow> size_t \<Rightarrow> size_t \<Rightarrow> (u64 option \<times> memory \<times> arena) option" where
  "arena_alloc_array_zero al m a elem_size alignment cnt =
     (if cnt \<noteq> 0 \<and> elem_size > SIZE_MAX div cnt then Some (None, m, a)
      else let tot = elem_size * cnt
           in filled (arena_alloc_align al m a tot alignment) (replicate (unat tot) (Some 0)))"

text \<open>The two loops of the batch allocation: the total size and the addresses.\<close>

fun batch_total :: "size_t \<Rightarrow> size_t list \<Rightarrow> size_t option" where
  "batch_total tot [] = Some tot"
| "batch_total tot (s # ss) =
     (let rounded = (tot + (ARENA_DEFAULT_ALIGN - 1)) AND NOT (ARENA_DEFAULT_ALIGN - 1)
      in if s > SIZE_MAX - rounded then None else batch_total (rounded + s) ss)"

fun batch_ptrs :: "u64 \<Rightarrow> size_t list \<Rightarrow> u64 list" where
  "batch_ptrs cur [] = []"
| "batch_ptrs cur (s # ss) =
     (let cur = (cur + (ARENA_DEFAULT_ALIGN - 1)) AND NOT (ARENA_DEFAULT_ALIGN - 1)
      in cur # batch_ptrs (cur + s) ss)"

definition arena_alloc_batch ::
  "system_alloc \<Rightarrow> memory \<Rightarrow> arena \<Rightarrow> size_t list \<Rightarrow> (u64 list option \<times> memory \<times> arena) option" where
  "arena_alloc_batch al m a sizes =
     (if sizes = [] then Some (None, m, a)
      else case batch_total 0 sizes of None \<Rightarrow> Some (None, m, a)
      | Some tot \<Rightarrow> do {
          (r, m, a) \<leftarrow> arena_alloc al m a tot;
          Some (map_option (\<lambda>base. batch_ptrs base sizes) r, m, a) })"

text \<open>The argument is the string without its terminator.\<close>

definition arena_strdup :: "system_alloc \<Rightarrow> memory \<Rightarrow> arena \<Rightarrow> bytes \<Rightarrow> (u64 option \<times> memory \<times> arena) option" where
  "arena_strdup al m a str =
     filled (arena_alloc_unaligned al m a (of_nat (length str) + 1)) (map Some (str @ [0]))"

text \<open>The argument is the memory the source pointer points to; reading past it is undefined.\<close>

definition arena_strdupn :: "system_alloc \<Rightarrow> memory \<Rightarrow> arena \<Rightarrow> bytes \<Rightarrow> size_t \<Rightarrow> (u64 option \<times> memory \<times> arena) option" where
  "arena_strdupn al m a str n =
     do {
       (r, m, a) \<leftarrow> arena_alloc_unaligned al m a (n + 1);
       if r \<noteq> None \<and> length str < unat n then None
       else filled (Some (r, m, a)) (map Some (take (unat n) str @ [0])) }"

end
