(* ===== verification/Arena_Correct.thy ===== *)
theory Arena_Correct
  imports Arena
begin

text \<open>
  Correctness of the arena: the invariant of the chain of blocks, the set of addresses that have
  been handed out, and that an allocation takes aligned, allocated addresses outside that set.
\<close>

section \<open>Rounding to an alignment\<close>

lemma unat_address: "x < 2 ^ 63 \<Longrightarrow> unat (of_nat x :: u64) = x"
  by (simp add: unsigned_of_nat take_bit_nat_eq_self)

lemma and_not_mask: "(y :: u64) AND NOT (mask k) = push_bit k (drop_bit k y)"
  by (auto intro!: bit_eqI simp: bit_simps)

lemma unat_push_drop: "unat (push_bit k (drop_bit k (y :: u64))) = unat y div 2 ^ k * 2 ^ k"
proof -
  have "unat y div 2 ^ k * 2 ^ k < 2 ^ 64"
    using div_times_less_eq_dividend [of "unat y" "2 ^ k"] unat_lt_2_64 [of y] by linarith
  then show ?thesis
    unfolding unsigned_push_bit_eq unsigned_drop_bit_eq
    by (simp add: push_bit_eq_mult drop_bit_eq_div take_bit_nat_eq_self unat_lt_2_64 [simplified])
qed

text \<open>An alignment: a power of two of at most \<open>2 ^ 62\<close>.\<close>

definition alignment_ok :: "size_t \<Rightarrow> bool" where
  "alignment_ok al \<longleftrightarrow> (\<exists>k\<le>62. al = 2 ^ k)"

lemma alignment_ok_power: "k \<le> 62 \<Longrightarrow> alignment_ok (2 ^ k)"
  by (auto simp: alignment_ok_def)

lemma alignment_ok_consts [simp]: "alignment_ok 1" "alignment_ok 16" "alignment_ok 64"
  using alignment_ok_power [of 0] alignment_ok_power [of 4] alignment_ok_power [of 6] by simp_all

lemma alignment_ok_bounds:
  assumes "alignment_ok al"
  shows "0 < unat al" "unat al \<le> 2 ^ 62"
  using assms power_increasing [of _ 62 "2 :: nat"] by (auto simp: alignment_ok_def unat_two_power)

lemma align_up_div:
  assumes "alignment_ok al" "unat x + unat al \<le> 2 ^ 64"
  shows "unat (align_up x al) = (unat x + unat al - 1) div unat al * unat al"
proof -
  obtain k where k: "k \<le> 62" "al = 2 ^ k" using assms(1) by (auto simp: alignment_ok_def)
  have "al - 1 = mask k" using k by (simp add: mask_eq_exp_minus_1)
  moreover have "unat (x + al - 1) = unat x + unat al - 1"
  proof -
    have "unat (al - 1) = unat al - 1"
      using alignment_ok_bounds(1) [OF assms(1)] by (simp add: unat_minus_one unat_gt_0)
    then show ?thesis
      using unat_add_no_wrap [of x "al - 1"] assms(2) alignment_ok_bounds(1) [OF assms(1)] by (simp add: add_diff_eq)
  qed
  ultimately show ?thesis
    using k by (simp add: align_up_def and_not_mask unat_push_drop unat_two_power)
qed

lemma align_up_bounds:
  assumes "alignment_ok al" "unat x + unat al \<le> 2 ^ 64"
  shows "unat x \<le> unat (align_up x al)" "unat (align_up x al) < unat x + unat al"
    "unat al dvd unat (align_up x al)"
proof -
  let ?n = "unat x + unat al - 1"
  have "?n = ?n div unat al * unat al + ?n mod unat al" by simp
  moreover have "?n mod unat al < unat al" using alignment_ok_bounds(1) [OF assms(1)] by simp
  ultimately show "unat x \<le> unat (align_up x al)" "unat (align_up x al) < unat x + unat al"
    using align_up_div [OF assms] alignment_ok_bounds(1) [OF assms(1)] by linarith+
  show "unat al dvd unat (align_up x al)" by (simp add: align_up_div [OF assms])
qed

section \<open>The invariant\<close>

definition blk :: "memory \<Rightarrow> arena \<Rightarrow> block_ptr \<Rightarrow> arena_block" where
  "blk m a p = the (block_at m a p)"

definition extent :: "memory \<Rightarrow> arena \<Rightarrow> block_ptr \<Rightarrow> nat set" where
  "extent m a p = {unat (ab_base (blk m a p)) ..< unat (ab_end (blk m a p))}"

text \<open>The extent of a block together with its descriptor.\<close>

definition span :: "memory \<Rightarrow> arena \<Rightarrow> block_ptr \<Rightarrow> nat set" where
  "span m a p = (case p of First_Block \<Rightarrow> extent m a p | Slab q \<Rightarrow> {unat q ..< unat (ab_end (blk m a p))})"

definition backed :: "memory \<Rightarrow> nat set \<Rightarrow> bool" where
  "backed m X \<longleftrightarrow> (\<forall>x\<in>X. x < 2 ^ 63 \<and> mm_cells m (of_nat x) \<noteq> None)"

definition block_ok :: "memory \<Rightarrow> arena \<Rightarrow> block_ptr \<Rightarrow> bool" where
  "block_ok m a p \<longleftrightarrow> block_at m a p \<noteq> None \<and> ab_base (blk m a p) \<le> ab_end (blk m a p) \<and>
     unat (ab_end (blk m a p)) \<le> 2 ^ 63 \<and> backed m (extent m a p) \<and>
     (case p of First_Block \<Rightarrow> True
      | Slab q \<Rightarrow> unat (ab_base (blk m a p)) = unat q + 32 \<and>
          (\<exists>n. mm_heap m q = Some n \<and> unat (ab_end (blk m a p)) \<le> unat q + unat n))"

definition linked :: "memory \<Rightarrow> arena \<Rightarrow> block_ptr list \<Rightarrow> bool" where
  "linked m a ps \<longleftrightarrow> ps \<noteq> [] \<and> ps ! 0 = First_Block \<and> distinct ps \<and>
     (\<forall>j<length ps. ab_next (blk m a (ps ! j)) = (if Suc j < length ps then Some (ps ! Suc j) else None))"

definition apart :: "memory \<Rightarrow> arena \<Rightarrow> block_ptr set \<Rightarrow> bool" where
  "apart m a P \<longleftrightarrow> (\<forall>p\<in>P. \<forall>q\<in>P. p \<noteq> q \<longrightarrow> span m a p \<inter> span m a q = {})"

text \<open>A first block that the arena owns is a non-empty allocation.\<close>

definition first_ok :: "memory \<Rightarrow> arena_block \<Rightarrow> bool" where
  "first_ok m b \<longleftrightarrow> ab_is_static b \<or> mm_heap m (ab_base b) \<noteq> None \<and> ab_base b < ab_end b"

definition arena_inv :: "memory \<Rightarrow> arena \<Rightarrow> block_ptr list \<Rightarrow> nat \<Rightarrow> bool" where
  "arena_inv m a ps i \<longleftrightarrow> ar_head a = Some First_Block \<and> linked m a ps \<and>
     (\<forall>p\<in>set ps. block_ok m a p) \<and> apart m a (set ps) \<and>
     i < length ps \<and> ar_current_block a = Some (ps ! i) \<and> ar_end a = ab_end (blk m a (ps ! i)) \<and>
     ab_base (blk m a (ps ! i)) \<le> ar_curr a \<and> ar_curr a \<le> ar_end a \<and>
     (\<exists>k. 6 \<le> k \<and> k \<le> 20 \<and> ar_page_size a = 2 ^ k) \<and> first_ok m (ar_first_block a)"

text \<open>The addresses handed out when the cursor stands at \<open>c\<close> in block \<open>i\<close> of the chain.\<close>

definition used :: "memory \<Rightarrow> arena \<Rightarrow> block_ptr list \<Rightarrow> nat \<Rightarrow> u64 \<Rightarrow> nat set" where
  "used m a ps i c = (\<Union>p\<in>set (take i ps). extent m a p) \<union> {unat (ab_base (blk m a (ps ! i))) ..< unat c}"

abbreviation taken :: "memory \<Rightarrow> arena \<Rightarrow> block_ptr list \<Rightarrow> nat \<Rightarrow> nat set" where
  "taken m a ps i \<equiv> used m a ps i (ar_curr a)"

text \<open>The system allocator answers with aligned memory that nobody uses, in the lower half.\<close>

definition honest :: "system_alloc \<Rightarrow> memory \<Rightarrow> bool" where
  "honest al m \<longleftrightarrow> (\<forall>g n p. al g n = Some p \<longrightarrow> unat g dvd unat p \<and> unat p + unat n \<le> 2 ^ 63 \<and>
     (\<forall>x\<in>range_of p n. mm_cells m (of_nat x) = None) \<and>
     (\<forall>q k. mm_heap m q = Some k \<longrightarrow> range_of p n \<inter> range_of q k = {}))"

text \<open>The current block is the last one and every slab hangs on the chain.\<close>

definition tight :: "memory \<Rightarrow> block_ptr list \<Rightarrow> nat \<Rightarrow> bool" where
  "tight m ps i \<longleftrightarrow> Suc i = length ps \<and> (\<forall>q. mm_slabs m q \<noteq> None \<longrightarrow> Slab q \<in> set ps)"

text \<open>
  What an operation that allocates leaves of the arena: the blocks up to the current one stay in
  place with their bounds, and every cell keeps its contents.
\<close>

definition grown :: "memory \<Rightarrow> arena \<Rightarrow> block_ptr list \<Rightarrow> nat \<Rightarrow> memory \<Rightarrow> arena \<Rightarrow> block_ptr list \<Rightarrow> nat \<Rightarrow> bool" where
  "grown m a ps i m' a' ps' i' \<longleftrightarrow> arena_inv m' a' ps' i' \<and> i \<le> i' \<and> take (Suc i) ps' = take (Suc i) ps \<and>
     (\<forall>p\<in>set (take (Suc i) ps). ab_base (blk m' a' p) = ab_base (blk m a p) \<and> ab_end (blk m' a' p) = ab_end (blk m a p)) \<and>
     (\<forall>x\<in>dom (mm_cells m). mm_cells m' x = mm_cells m x) \<and> (tight m ps i \<longrightarrow> tight m' ps' i')"

lemma arena_invD:
  assumes "arena_inv m a ps i"
  shows "linked m a ps" "\<And>p. p \<in> set ps \<Longrightarrow> block_ok m a p" "apart m a (set ps)" "i < length ps"
    "ar_current_block a = Some (ps ! i)" "ar_end a = ab_end (blk m a (ps ! i))"
    "ab_base (blk m a (ps ! i)) \<le> ar_curr a" "ar_curr a \<le> ar_end a" "ar_head a = Some First_Block" "distinct ps"
    "block_at m a (ps ! i) = Some (blk m a (ps ! i))" "unat (ar_end a) \<le> 2 ^ 63" "unat (ar_curr a) \<le> 2 ^ 63"
proof -
  have "block_ok m a (ps ! i)" using assms by (simp add: arena_inv_def)
  then have *: "block_at m a (ps ! i) = Some (blk m a (ps ! i))" "unat (ab_end (blk m a (ps ! i))) \<le> 2 ^ 63"
    by (auto simp: block_ok_def blk_def)
  have e: "ar_end a = ab_end (blk m a (ps ! i))" "unat (ar_curr a) \<le> unat (ar_end a)"
    using assms unfolding arena_inv_def word_le_nat_alt by blast+
  show "block_at m a (ps ! i) = Some (blk m a (ps ! i))" by (rule *)
  show "unat (ar_end a) \<le> 2 ^ 63" using * e by simp
  show "unat (ar_curr a) \<le> 2 ^ 63" using * e by simp
qed (use assms in \<open>auto simp: arena_inv_def linked_def\<close>)

lemma extent_span: "block_ok m a p \<Longrightarrow> extent m a p \<subseteq> span m a p"
  by (cases p) (auto simp: extent_def span_def block_ok_def)

lemma extents_apart:
  assumes "arena_inv m a ps i" "p \<in> set ps" "q \<in> set ps" "p \<noteq> q"
  shows "extent m a p \<inter> extent m a q = {}"
  using assms extent_span arena_invD(2,3) [OF assms(1)] unfolding apart_def by blast

lemma take_nth_ne:
  assumes "distinct ps" "p \<in> set (take i ps)" "i \<le> j" "j < length ps"
  shows "p \<noteq> ps ! j"
  using assms by (auto simp: in_set_conv_nth nth_eq_iff_index_eq)

lemma taken_backed:
  assumes "arena_inv m a ps i"
  shows "backed m (taken m a ps i)"
proof -
  have "backed m (extent m a p)" if "p \<in> set ps" for p
    using arena_invD(2) [OF assms that] by (simp add: block_ok_def)
  moreover have "{unat (ab_base (blk m a (ps ! i))) ..< unat (ar_curr a)} \<subseteq> extent m a (ps ! i)"
    using arena_invD(6,8) [OF assms] by (auto simp: extent_def word_le_nat_alt)
  ultimately show ?thesis
    using nth_mem [OF arena_invD(4) [OF assms]] unfolding backed_def used_def
    by (blast dest: in_set_takeD)
qed

section \<open>The fast path\<close>

lemma block_at_cursor [simp]:
  "block_at m (a\<lparr>ar_curr := c\<rparr>) = block_at m a" "block_at m (a\<lparr>ar_end := e\<rparr>) = block_at m a"
  "block_at m (a\<lparr>ar_current_block := p\<rparr>) = block_at m a" "block_at m (a\<lparr>ar_total_committed := t\<rparr>) = block_at m a"
  by (auto simp: block_at_def fun_eq_iff split: block_ptr.split)

lemma blk_cursor [simp]:
  "blk m (a\<lparr>ar_curr := c\<rparr>) = blk m a" "blk m (a\<lparr>ar_end := e\<rparr>) = blk m a"
  "blk m (a\<lparr>ar_current_block := p\<rparr>) = blk m a" "blk m (a\<lparr>ar_total_committed := t\<rparr>) = blk m a"
  by (simp_all add: blk_def fun_eq_iff)

text \<open>Everything that the invariant says of the chain depends on the descriptors and the cells only.\<close>

lemma same_blocks:
  assumes "block_at m a' = block_at m a"
  shows "extent m a' = extent m a" "span m a' = span m a" "block_ok m a' = block_ok m a" "linked m a' = linked m a"
    "apart m a' = apart m a" "used m a' = used m a"
proof -
  have b: "blk m a' = blk m a" using assms by (simp add: blk_def fun_eq_iff)
  show e: "extent m a' = extent m a" unfolding extent_def fun_eq_iff b by simp
  show s: "span m a' = span m a" unfolding span_def fun_eq_iff b e by simp
  show "block_ok m a' = block_ok m a" unfolding block_ok_def fun_eq_iff assms b e by simp
  show "linked m a' = linked m a" unfolding linked_def fun_eq_iff b by simp
  show "apart m a' = apart m a" unfolding apart_def fun_eq_iff s by simp
  show "used m a' = used m a" unfolding used_def fun_eq_iff b e by simp
qed

lemmas cursor_blocks [simp] = same_blocks [OF block_at_cursor(1)] same_blocks [OF block_at_cursor(2)]
  same_blocks [OF block_at_cursor(3)] same_blocks [OF block_at_cursor(4)]

definition request_ok :: "size_t \<Rightarrow> size_t \<Rightarrow> bool" where
  "request_ok sz al \<longleftrightarrow> 0 < unat sz \<and> unat sz \<le> 2 ^ 62 \<and> alignment_ok al"

lemma bump:
  assumes "request_ok sz al" "unat c \<le> 2 ^ 63"
  shows "unat (align_up c al + sz) = unat (align_up c al) + unat sz" "unat c \<le> unat (align_up c al)"
    "unat al dvd unat (align_up c al)"
proof -
  have al: "alignment_ok al" "unat sz \<le> 2 ^ 62" using assms by (auto simp: request_ok_def)
  note k = align_up_bounds [OF al(1), of c] alignment_ok_bounds [OF al(1)]
  show "unat (align_up c al + sz) = unat (align_up c al) + unat sz"
    using k assms(2) al(2) by (intro unat_add_no_wrap) simp
  show "unat c \<le> unat (align_up c al)" "unat al dvd unat (align_up c al)" using k assms(2) by simp_all
qed

definition granted ::
  "memory \<Rightarrow> arena \<Rightarrow> block_ptr list \<Rightarrow> nat \<Rightarrow> memory \<Rightarrow> arena \<Rightarrow> block_ptr list \<Rightarrow> nat \<Rightarrow> u64 \<Rightarrow> size_t \<Rightarrow> size_t \<Rightarrow> bool" where
  "granted m a ps i m' a' ps' i' p sz al \<longleftrightarrow> grown m a ps i m' a' ps' i' \<and>
     taken m a ps i \<subseteq> taken m' a' ps' i' \<and> range_of p sz \<subseteq> taken m' a' ps' i' - taken m a ps i \<and> unat al dvd unat p"

text \<open>A new cursor in block \<open>j\<close> of the chain, not before the current one.\<close>

lemma arena_inv_move:
  assumes "arena_inv m a ps i" "j < length ps" "ab_base (blk m a (ps ! j)) \<le> c" "c \<le> ab_end (blk m a (ps ! j))"
  shows "arena_inv m (a\<lparr>ar_current_block := Some (ps ! j), ar_curr := c, ar_end := ab_end (blk m a (ps ! j))\<rparr>) ps j"
  using assms unfolding arena_inv_def by simp

lemma taken_below: "arena_inv m a ps i \<Longrightarrow> taken m a ps i \<subseteq> (\<Union>p\<in>set (take (Suc i) ps). extent m a p)"
  using arena_invD(4,6,8) [of m a ps i]
  by (auto simp: used_def take_Suc_conv_app_nth extent_def word_le_nat_alt)

text \<open>Space found in block \<open>j\<close>: the current one behind the cursor, or a later one from its base.\<close>

lemma granted_in_block:
  assumes inv: "arena_inv m a ps i" and req: "request_ok sz al"
    and j: "i \<le> j" "j < length ps"
    and s: "s = (if j = i then ar_curr a else ab_base (blk m a (ps ! j)))"
    and fits: "align_up s al + sz \<le> ab_end (blk m a (ps ! j))"
  shows "granted m a ps i m (a\<lparr>ar_current_block := Some (ps ! j), ar_curr := align_up s al + sz,
    ar_end := ab_end (blk m a (ps ! j))\<rparr>) ps j (align_up s al) sz al"
proof -
  let ?a = "a\<lparr>ar_current_block := Some (ps ! j), ar_curr := align_up s al + sz, ar_end := ab_end (blk m a (ps ! j))\<rparr>"
  let ?b = "unat (ab_base (blk m a (ps ! j)))"
  have ok: "block_ok m a (ps ! j)" using arena_invD(2) [OF inv] j by simp
  then have e: "unat (ab_end (blk m a (ps ! j))) \<le> 2 ^ 63" "?b \<le> unat (ab_end (blk m a (ps ! j)))"
    by (auto simp: block_ok_def word_le_nat_alt)
  have sb: "?b \<le> unat s" "unat s \<le> 2 ^ 63"
    using s e arena_invD(7,13) [OF inv] by (auto simp: word_le_nat_alt split: if_splits)
  note b = bump [OF req sb(2)]
  have inv': "arena_inv m ?a ps j"
    using fits b sb by (intro arena_inv_move [OF inv j(2)]) (auto simp: word_le_nat_alt)
  have T: "taken m ?a ps j = (\<Union>p\<in>set (take j ps). extent m a p) \<union> {?b ..< unat (align_up s al) + unat sz}"
    using b by (simp add: used_def)
  have sub: "taken m a ps i \<subseteq> (\<Union>p\<in>set (take j ps). extent m a p) \<union> {?b ..< unat s}"
  proof (cases "j = i")
    case False
    then have "set (take (Suc i) ps) \<subseteq> set (take j ps)" using j by (intro set_take_subset_set_take) simp
    then show ?thesis using taken_below [OF inv] by blast
  qed (simp add: used_def s)
  have "range_of (align_up s al) sz \<subseteq> extent m a (ps ! j)"
    using sb b fits e by (auto simp: range_of_def extent_def word_le_nat_alt)
  moreover have "extent m a p \<inter> extent m a (ps ! j) = {}" if "p \<in> set (take j ps)" for p
    using extents_apart [OF inv in_set_takeD [OF that], of "ps ! j"] take_nth_ne [OF arena_invD(10) [OF inv] that] j
    by simp
  ultimately have "range_of (align_up s al) sz \<inter> taken m a ps i = {}"
    using sub b by (fastforce simp: range_of_def)
  moreover have "range_of (align_up s al) sz \<subseteq> taken m ?a ps j"
    unfolding T using sb b by (auto simp: range_of_def)
  moreover have "taken m a ps i \<subseteq> taken m ?a ps j"
    unfolding T using sub b by fastforce
  ultimately show ?thesis
    using inv' b j unfolding granted_def grown_def tight_def by (auto simp: le_antisym)
qed

section \<open>The slow path\<close>

lemma find_cached_spec:
  assumes "arena_inv m a ps i" "j \<le> length ps"
  shows "find_cached m a sz al (if j < length ps then Some (ps ! j) else None) = Some None \<or>
    (\<exists>k. j \<le> k \<and> k < length ps \<and> align_up (ab_base (blk m a (ps ! k))) al + sz \<le> ab_end (blk m a (ps ! k)) \<and>
      find_cached m a sz al (if j < length ps then Some (ps ! j) else None) = Some (Some (ps ! k, blk m a (ps ! k))))"
  using assms(2)
proof (induction "length ps - j" arbitrary: j)
  case 0
  then show ?case by (simp add: find_cached.simps)
next
  case (Suc n)
  then have j: "j < length ps" by simp
  let ?b = "blk m a (ps ! j)"
  have b: "block_at m a (ps ! j) = Some ?b" "ab_next ?b = (if Suc j < length ps then Some (ps ! Suc j) else None)"
    using arena_invD(1,2) [OF assms(1)] j by (auto simp: linked_def block_ok_def blk_def)
  show ?case
  proof (cases "align_up (ab_base ?b) al + sz \<le> ab_end ?b")
    case True
    then show ?thesis using j b by (auto simp: find_cached.simps [of _ _ _ _ "Some _"])
  next
    case False
    then have "find_cached m a sz al (Some (ps ! j)) = find_cached m a sz al (ab_next ?b)"
      using b by (simp add: find_cached.simps [of _ _ _ _ "Some _"])
    then show ?thesis using Suc.hyps(1) [of "Suc j"] Suc.hyps(2) j b(2) Suc_leD by fastforce
  qed
qed

lemma range_fresh_apart:
  assumes "arena_inv m a ps i" "p \<in> set ps"
    and fresh: "\<forall>x\<in>range_of ptr n. mm_cells m (of_nat x) = None"
      "\<forall>q k. mm_heap m q = Some k \<longrightarrow> range_of ptr n \<inter> range_of q k = {}"
  shows "span m a p \<inter> range_of ptr n = {}"
proof -
  have ok: "block_ok m a p" by (rule arena_invD(2) [OF assms(1,2)])
  show ?thesis
  proof (cases p)
    case First_Block
    then show ?thesis using ok fresh(1) by (auto simp: span_def block_ok_def backed_def)
  next
    case (Slab q)
    then obtain k where k: "mm_heap m q = Some k" "unat (ab_end (blk m a p)) \<le> unat q + unat k"
      using ok by (auto simp: block_ok_def)
    then have "span m a p \<subseteq> range_of q k" using Slab by (auto simp: span_def range_of_def)
    then show ?thesis using fresh(2) k(1) by blast
  qed
qed

lemma slab_in_span: "block_ok m a (Slab q) \<Longrightarrow> unat q \<in> span m a (Slab q)"
  by (auto simp: block_ok_def span_def word_le_nat_alt)

text \<open>The state after a slab has been added behind block \<open>i\<close>; what followed that block is cut off.\<close>

lemma granted_new_block:
  assumes inv: "arena_inv m a ps i" and req: "request_ok sz al"
    and fresh: "\<forall>x\<in>range_of ptr n. mm_cells m (of_nat x) = None"
      "\<forall>q k. mm_heap m q = Some k \<longrightarrow> range_of ptr n \<inter> range_of q k = {}" "unat ptr + unat n \<le> 2 ^ 63"
    and sizes: "unat nxt \<le> unat n" "32 + unat al + unat sz \<le> unat nxt + 1"
    and blocks: "\<forall>q. block_at m' a' q = (if q = Slab ptr then Some \<lparr>ab_next = None, ab_base = ptr + 32, ab_end = ptr + nxt, ab_is_static = False\<rparr>
        else if q = ps ! i then Some ((blk m a q)\<lparr>ab_next := Some (Slab ptr)\<rparr>) else block_at m a q)"
    and cells: "\<forall>x. mm_cells m' x = (if unat ptr \<le> unat x \<and> unat x < unat ptr + 32 then None
        else if unat ptr \<le> unat x \<and> unat x < unat ptr + unat n then Some None else mm_cells m x)"
    and heap: "mm_heap m' = (mm_heap m)(ptr \<mapsto> n)"
    and fields: "ar_head a' = ar_head a" "ar_page_size a' = ar_page_size a" "ar_current_block a' = Some (Slab ptr)"
      "ar_curr a' = align_up (ptr + 32) al + sz" "ar_end a' = ptr + nxt"
  shows "granted m a ps i m' a' (take (Suc i) ps @ [Slab ptr]) (Suc i) (align_up (ptr + 32) al) sz al"
proof -
  let ?s = "Slab ptr" and ?qs = "take (Suc i) ps"
  note D = arena_invD [OF inv]
  have al: "0 < unat al" "unat al \<le> 2 ^ 62" using req alignment_ok_bounds by (auto simp: request_ok_def)
  have n32: "32 \<le> unat n" "unat ptr + 32 \<le> 2 ^ 63" using sizes al fresh(3) by auto
  have base: "unat (ptr + 32) = unat ptr + 32" using unat_add_no_wrap [of ptr 32] n32 by simp
  have fin: "unat (ptr + nxt) = unat ptr + unat nxt" using unat_add_no_wrap [of ptr nxt] sizes fresh(3) by simp
  note b = bump [OF req, of "ptr + 32"]
  have up: "unat (align_up (ptr + 32) al) < unat ptr + 32 + unat al"
    using align_up_bounds(2) [of al "ptr + 32"] req base al n32 by (simp add: request_ok_def)
  have avoid: "span m a p \<inter> range_of ptr n = {}" if "p \<in> set ps" for p
    by (rule range_fresh_apart [OF inv that fresh(1,2)])
  have new: "?s \<notin> set ps"
  proof
    assume "?s \<in> set ps"
    then have "unat ptr \<in> span m a ?s" by (intro slab_in_span D(2))
    with avoid [OF \<open>?s \<in> set ps\<close>] n32 show False by (auto simp: range_of_def)
  qed
  have blk': "blk m' a' p = (if p = ps ! i then (blk m a p)\<lparr>ab_next := Some ?s\<rparr> else blk m a p)" if "p \<in> set ps" for p
    using blocks that new by (auto simp: blk_def)
  have blks: "blk m' a' ?s = \<lparr>ab_next = None, ab_base = ptr + 32, ab_end = ptr + nxt, ab_is_static = False\<rparr>"
    using blocks by (simp add: blk_def)
  have same: "ab_base (blk m' a' p) = ab_base (blk m a p)" "ab_end (blk m' a' p) = ab_end (blk m a p)" if "p \<in> set ps" for p
    using blk' [OF that] by (simp_all split: if_splits)
  have ext: "extent m' a' p = extent m a p" "span m' a' p = span m a p" if "p \<in> set ps" for p
    using same [OF that] by (auto simp: extent_def span_def split: block_ptr.split)
  have exts: "extent m' a' ?s = {unat ptr + 32 ..< unat ptr + unat nxt}" "span m' a' ?s = {unat ptr ..< unat ptr + unat nxt}"
    using blks base fin by (simp_all add: extent_def span_def)
  have keep: "mm_cells m' x = mm_cells m x" if "mm_cells m x \<noteq> None" for x
  proof -
    have "unat x \<notin> range_of ptr n" using fresh(1) that by fastforce
    then show ?thesis using cells n32 by (auto simp: range_of_def)
  qed
  have bk: "backed m' X" if "backed m X" for X
    using that keep unfolding backed_def by metis
  have ok: "block_ok m' a' p" if "p \<in> set ps" for p
    using D(2) [OF that] same [OF that] ext(1) [OF that] bk blocks that new
    unfolding block_ok_def heap by (auto split: block_ptr.splits)
  have oks: "block_ok m' a' ?s"
    using blocks blks exts sizes fresh(3) base fin al cells heap
    unfolding block_ok_def backed_def by (auto simp: word_le_nat_alt unat_address)
  have sub: "set ?qs \<subseteq> set ps" by (rule set_take_subset)
  have len: "length ?qs = Suc i" using D(4) by simp
  have nth: "j \<le> i \<Longrightarrow> (?qs @ [?s]) ! j = ps ! j" "(?qs @ [?s]) ! Suc i = ?s" for j
    using len by (auto simp: nth_append)
  have link: "linked m' a' (?qs @ [?s])"
    unfolding linked_def
  proof (intro conjI allI impI)
    show "(?qs @ [?s]) ! 0 = First_Block" using D(1) by (simp add: nth(1) linked_def)
    show "distinct (?qs @ [?s])" using D(10) new sub by auto
    fix j assume "j < length (?qs @ [?s])"
    then consider "j < i" | "j = i" | "j = Suc i" using len by fastforce
    then show "ab_next (blk m' a' ((?qs @ [?s]) ! j)) =
      (if Suc j < length (?qs @ [?s]) then Some ((?qs @ [?s]) ! Suc j) else None)"
    proof cases
      case 1
      then have "ps ! j \<noteq> ps ! i" using D(4,10) by (simp add: nth_eq_iff_index_eq)
      then show ?thesis using 1 D(1,4) len nth(1) [of j] nth(1) [of "Suc j"] by (simp add: blk' linked_def)
    next
      case 2
      then show ?thesis using D(4) len nth(1) [of i] nth(2) by (simp add: blk')
    next
      case 3
      then show ?thesis using len nth(2) by (simp add: blks)
    qed
  qed simp
  have ap: "apart m' a' (set (?qs @ [?s]))"
  proof -
    have "span m' a' p \<inter> span m' a' ?s = {}" if "p \<in> set ps" for p
      using avoid [OF that] ext(2) [OF that] exts(2) sizes(1) by (fastforce simp: range_of_def)
    then show ?thesis
      using D(3) sub ext(2) unfolding apart_def by (auto simp: Int_commute subset_iff)
  qed
  have ok': "\<forall>p\<in>set (?qs @ [?s]). block_ok m' a' p" using ok oks sub by auto
  have "ar_first_block a' = ar_first_block a \<or> ar_first_block a' = (ar_first_block a)\<lparr>ab_next := Some ?s\<rparr>"
    using spec [OF blocks, of First_Block] by (auto simp: block_at_def blk_def split: if_splits)
  then have same1: "ab_is_static (ar_first_block a') = ab_is_static (ar_first_block a)"
    "ab_base (ar_first_block a') = ab_base (ar_first_block a)" "ab_end (ar_first_block a') = ab_end (ar_first_block a)"
    by auto
  have "first_ok m (ar_first_block a)" using inv by (simp add: arena_inv_def)
  then have first: "first_ok m' (ar_first_block a')" by (auto simp: first_ok_def same1 heap)
  have inv': "arena_inv m' a' (?qs @ [?s]) (Suc i)"
    using first link ap inv len fields ok' nth(2) blks b(1,2) base n32 up sizes fin
    unfolding arena_inv_def word_le_nat_alt by (simp del: set_append)
  have T: "taken m' a' (?qs @ [?s]) (Suc i) = (\<Union>p\<in>set ?qs. extent m a p) \<union> {unat ptr + 32 ..< unat (ar_curr a')}"
    unfolding used_def using len nth(2) blks base ext(1) sub by (auto simp: subset_iff)
  have r: "range_of (align_up (ptr + 32) al) sz \<subseteq> {unat ptr + 32 ..< unat (ar_curr a')}"
    using b base n32 fields by (auto simp: range_of_def)
  moreover have "{unat ptr + 32 ..< unat (ar_curr a')} \<subseteq> range_of ptr n"
    using b(1) base n32 fields up sizes by (auto simp: range_of_def)
  moreover have "range_of ptr n \<inter> extent m a p = {}" if "p \<in> set ?qs" for p
    using avoid extent_span [OF D(2)] that sub by blast
  ultimately have "range_of (align_up (ptr + 32) al) sz \<inter> taken m a ps i = {}"
    using taken_below [OF inv] by blast
  moreover have "tight m' (?qs @ [?s]) (Suc i)" if t: "tight m ps i"
  proof -
    have "Slab q \<in> set ps \<or> q = ptr" if "mm_slabs m' q \<noteq> None" for q
      using spec [OF blocks, of "Slab q"] that t nth_mem [OF D(4)] by (auto simp: block_at_def tight_def split: if_splits)
    moreover have "?qs = ps" using t by (simp add: tight_def)
    ultimately show ?thesis using len by (auto simp: tight_def)
  qed
  ultimately show ?thesis
    using inv' taken_below [OF inv] T r b(3) base n32 same sub keep len
    unfolding granted_def grown_def by (auto simp: subset_iff)
qed

lemma block_at_set_next:
  assumes "set_next m a p nxt = (m', a')"
  shows "block_at m' a' q = (if q = p then map_option (\<lambda>b. b\<lparr>ab_next := nxt\<rparr>) (block_at m a q) else block_at m a q)"
    "mm_cells m' = mm_cells m" "mm_heap m' = mm_heap m" "mm_tls m' = mm_tls m"
    "ar_head a' = ar_head a" "ar_page_size a' = ar_page_size a"
  using assms by (auto simp: set_next_def block_at_def split: block_ptr.splits)

lemma next_block_size_bounds:
  assumes inv: "arena_inv m a ps i" and req: "request_ok sz al"
  shows "32 + unat al + unat sz \<le> unat (next_block_size a c sz al) + 1" "unat (next_block_size a c sz al) + 64 \<le> 2 ^ 64"
proof -
  have al: "0 < unat al" "unat al \<le> 2 ^ 62" "unat sz \<le> 2 ^ 62" using req alignment_ok_bounds by (auto simp: request_ok_def)
  have "unat (al - 1) = unat al - 1" using al(1) by (simp add: unat_minus_one unat_gt_0)
  then have needed: "unat (sizeof_ArenaBlock + (al - 1) + sz) = 31 + unat al + unat sz"
    using al unat_add_no_wrap [of 32 "al - 1"] unat_add_no_wrap [of "32 + (al - 1)" sz] by (simp add: sizeof_ArenaBlock_def)
  define k where "k = (let n = (if c \<le> ARENA_MAX_BLOCK_SIZE div 2 then c * 2 else ARENA_MAX_BLOCK_SIZE);
    n = (if n < sizeof_ArenaBlock + (al - 1) + sz then sizeof_ArenaBlock + (al - 1) + sz else n)
    in if n < ARENA_MIN_BLOCK_SIZE then ARENA_MIN_BLOCK_SIZE else n)"
  have "unat (c * 2) \<le> 2 ^ 23" if "c \<le> ARENA_MAX_BLOCK_SIZE div 2"
  proof -
    have "unat c \<le> 2 ^ 22" using that by (simp add: word_le_nat_alt ARENA_MAX_BLOCK_SIZE_def unat_div)
    then show ?thesis using unat_mult_no_wrap [of c 2] by simp
  qed
  then have k: "31 + unat al + unat sz \<le> unat k" "unat k \<le> 2 ^ 63 + 31"
    using needed al unfolding k_def Let_def
    by (auto simp: word_less_nat_alt word_le_nat_alt ARENA_MAX_BLOCK_SIZE_def ARENA_MIN_BLOCK_SIZE_def)
  obtain e where e: "e \<le> 20" "ar_page_size a = 2 ^ e" using inv by (auto simp: arena_inv_def)
  then have page: "alignment_ok (ar_page_size a)" "unat (ar_page_size a) \<le> 2 ^ 20"
    using power_increasing [of e 20 "2 :: nat"] by (auto simp: unat_two_power intro: alignment_ok_power)
  have eq: "next_block_size a c sz al = align_up k (ar_page_size a)"
    unfolding next_block_size_def k_def Let_def by simp
  show "32 + unat al + unat sz \<le> unat (next_block_size a c sz al) + 1" "unat (next_block_size a c sz al) + 64 \<le> 2 ^ 64"
    using align_up_bounds(1,2) [OF page(1), of k] k page(2) unfolding eq by auto
qed

definition alloc_outcome ::
  "system_alloc \<Rightarrow> memory \<Rightarrow> arena \<Rightarrow> block_ptr list \<Rightarrow> nat \<Rightarrow> size_t \<Rightarrow> size_t \<Rightarrow> (u64 option \<times> memory \<times> arena) option \<Rightarrow> bool" where
  "alloc_outcome al m a ps i sz g res \<longleftrightarrow> (res = Some (None, m, a) \<and> (\<exists>n. al 64 n = None)) \<or>
     (\<exists>p m' a' ps' i'. res = Some (Some p, m', a') \<and> granted m a ps i m' a' ps' i' p sz g)"

lemma alloc_slow_outcome:
  assumes inv: "arena_inv m a ps i" and req: "request_ok sz g" and h: "honest al m"
  shows "alloc_outcome al m a ps i sz g (arena_alloc_slow al m a sz g)"
proof -
  note D = arena_invD [OF inv]
  let ?cb = "blk m a (ps ! i)"
  have nx: "ab_next ?cb = (if Suc i < length ps then Some (ps ! Suc i) else None)" using D(1,4) by (simp add: linked_def)
  show ?thesis
  proof (cases "find_cached m a sz g (ab_next ?cb) = Some None")
    case False
    then obtain j where j: "Suc i \<le> j" "j < length ps" "align_up (ab_base (blk m a (ps ! j))) g + sz \<le> ab_end (blk m a (ps ! j))"
      "find_cached m a sz g (ab_next ?cb) = Some (Some (ps ! j, blk m a (ps ! j)))"
      using find_cached_spec [OF inv, of "Suc i" sz g] D(4) nx by auto
    then have "granted m a ps i m (a\<lparr>ar_current_block := Some (ps ! j), ar_curr := align_up (ab_base (blk m a (ps ! j))) g + sz,
      ar_end := ab_end (blk m a (ps ! j))\<rparr>) ps j (align_up (ab_base (blk m a (ps ! j))) g) sz g"
      by (intro granted_in_block [OF inv req]) auto
    then show ?thesis using j D(5,11) by (auto simp: alloc_outcome_def arena_alloc_slow_def Let_def)
  next
    case True
    let ?nxt = "next_block_size a (ab_end ?cb - ab_base ?cb) sz g"
    note nb = next_block_size_bounds [OF inv req, of "ab_end ?cb - ab_base ?cb"]
    define n where "n = align_up ?nxt 64"
    have n: "unat ?nxt \<le> unat n"
      using align_up_bounds(1) [of 64 ?nxt] nb(2) unfolding n_def by simp
    show ?thesis
    proof (cases "al 64 n")
      case None
      then have "aligned_alloc_xp al 64 ?nxt m = None" by (simp add: aligned_alloc_xp_def n_def)
      then show ?thesis using True None D(5,11) by (auto simp: alloc_outcome_def arena_alloc_slow_def Let_def)
    next
      case (Some ptr)
      define m1 where "m1 = m\<lparr>mm_heap := (mm_heap m)(ptr \<mapsto> n),
        mm_cells := (\<lambda>x. if unat ptr \<le> unat x \<and> unat x < unat ptr + unat n then Some None else mm_cells m x)\<rparr>"
      have al: "aligned_alloc_xp al 64 ?nxt m = Some (ptr, n, m1)"
        using Some by (simp add: aligned_alloc_xp_def n_def m1_def Let_def)
      have fr: "\<forall>x\<in>range_of ptr n. mm_cells m (of_nat x) = None" "unat ptr + unat n \<le> 2 ^ 63"
        "\<forall>q k. mm_heap m q = Some k \<longrightarrow> range_of ptr n \<inter> range_of q k = {}"
        using h Some unfolding honest_def by blast+
      define m2 where "m2 = m1\<lparr>mm_slabs := (mm_slabs m1)(ptr \<mapsto> \<lparr>ab_next = None, ab_base = ptr + 32, ab_end = ptr + ?nxt, ab_is_static = False\<rparr>),
        mm_cells := (\<lambda>x. if unat ptr \<le> unat x \<and> unat x < unat ptr + 32 then None else mm_cells m1 x)\<rparr>"
      obtain m3 a3 where sn: "set_next m2 a (ps ! i) (Some (Slab ptr)) = (m3, a3)" by fastforce
      note S = block_at_set_next [OF sn]
      let ?a = "a3\<lparr>ar_current_block := Some (Slab ptr), ar_total_committed := ar_total_committed a3 + ?nxt,
        ar_curr := align_up (ptr + 32) g + sz, ar_end := ptr + ?nxt\<rparr>"
      have g0: "0 < unat g" "0 < unat sz" using req alignment_ok_bounds by (auto simp: request_ok_def)
      have ne: "ps ! i \<noteq> Slab ptr"
      proof
        assume eq: "ps ! i = Slab ptr"
        have "unat ptr \<in> span m a (ps ! i)" using D(2) [OF nth_mem [OF D(4)]] by (simp add: eq slab_in_span)
        then show False using range_fresh_apart [OF inv _ fr(1,3), of "ps ! i"] D(4) n nb(1) g0 by (auto simp: range_of_def)
      qed
      have b: "block_at m2 a q = (if q = Slab ptr then Some \<lparr>ab_next = None, ab_base = ptr + 32, ab_end = ptr + ?nxt, ab_is_static = False\<rparr>
        else block_at m a q)" for q
        by (auto simp: m2_def m1_def block_at_def split: block_ptr.split)
      have "granted m a ps i m3 ?a (take (Suc i) ps @ [Slab ptr]) (Suc i) (align_up (ptr + 32) g) sz g"
      proof (rule granted_new_block [OF inv req fr(1,3,2) n nb(1)])
        show "\<forall>q. block_at m3 ?a q = (if q = Slab ptr then Some \<lparr>ab_next = None, ab_base = ptr + 32, ab_end = ptr + ?nxt, ab_is_static = False\<rparr>
          else if q = ps ! i then Some ((blk m a q)\<lparr>ab_next := Some (Slab ptr)\<rparr>) else block_at m a q)"
          using S(1) b ne D(11) by simp
      qed (simp_all add: S(2-6) m2_def m1_def)
      moreover have "arena_alloc_slow al m a sz g = Some (Some (align_up (ptr + 32) g), m3, ?a)"
        using True D(5,11) al sn n nb(1) g0 unfolding arena_alloc_slow_def
        by (simp add: sizeof_ArenaBlock_def word_less_nat_alt m2_def Let_def)
      ultimately show ?thesis by (auto simp: alloc_outcome_def)
    qed
  qed
qed

lemma alloc_align_outcome:
  assumes inv: "arena_inv m a ps i" and req: "request_ok sz g" and h: "honest al m"
  shows "alloc_outcome al m a ps i sz g (arena_alloc_align al m a sz g)"
proof (cases "align_up (ar_curr a) g + sz \<le> ar_end a")
  case True
  note D = arena_invD [OF inv]
  have "a\<lparr>ar_curr := align_up (ar_curr a) g + sz\<rparr> =
    a\<lparr>ar_current_block := Some (ps ! i), ar_curr := align_up (ar_curr a) g + sz, ar_end := ab_end (blk m a (ps ! i))\<rparr>"
    using D(5,6) by simp
  then have "granted m a ps i m (a\<lparr>ar_curr := align_up (ar_curr a) g + sz\<rparr>) ps i (align_up (ar_curr a) g) sz g"
    using granted_in_block [OF inv req order.refl D(4) refl] True D(6) by simp
  then show ?thesis
    using True req by (auto simp: alloc_outcome_def arena_alloc_align_def request_ok_def Let_def)
next
  case False
  then show ?thesis
    using alloc_slow_outcome [OF assms] req by (auto simp: arena_alloc_align_def request_ok_def)
qed

lemma align_up_1 [simp]: "align_up x 1 = x"
  by (simp add: align_up_def)

text \<open>Without an alignment the code is the same with alignment 1.\<close>

lemma arena_alloc_unaligned_eq: "arena_alloc_unaligned al m a sz = arena_alloc_align al m a sz 1"
  by (simp add: arena_alloc_unaligned_def arena_alloc_align_def)

end
