(* ===== verification/Arena_Client.thy ===== *)
theory Arena_Client
  imports Arena_Correct
begin

text \<open>
  The arena in use: a client that allocates, resizes, writes, takes checkpoints and rolls back.  The
  regions it owns are disjoint parts of allocated memory, and no operation of the arena changes
  the contents of a region that stays alive.
\<close>

section \<open>Reading and writing memory\<close>

lemma unat_offset: "unat (p :: u64) + k < 2 ^ 64 \<Longrightarrow> unat (p + of_nat k) = unat p + k"
  by (subst unat_add_no_wrap) (simp_all add: unsigned_of_nat take_bit_nat_eq_self)

lemma load_cells_iff:
  "load_cells c p n = Some xs \<longleftrightarrow> length xs = n \<and> (\<forall>k<n. c (p + of_nat k) = Some (xs ! k))"
proof (induction n arbitrary: p xs)
  case (Suc n)
  show ?case
  proof (cases xs)
    case (Cons y ys)
    have "(\<forall>k<Suc n. c (p + of_nat k) = Some (xs ! k)) \<longleftrightarrow> c p = Some y \<and> (\<forall>k<n. c (p + 1 + of_nat k) = Some (ys ! k))"
      unfolding All_less_Suc2 Cons by (simp add: algebra_simps)
    then show ?thesis using Suc.IH [of "p + 1" ys] Cons by (auto simp: bind_eq_Some_conv)
  qed (auto simp: bind_eq_Some_conv)
qed auto

lemma load_cells_cong:
  "(\<And>k. k < n \<Longrightarrow> c (p + of_nat k) = c' (p + of_nat k)) \<Longrightarrow> load_cells c p n = load_cells c' p n"
  by (rule option_eqI) (simp add: load_cells_iff)

lemma load_cells_total: "\<forall>k<n. c (p + of_nat k) \<noteq> None \<Longrightarrow> \<exists>xs. load_cells c p n = Some xs"
  by (rule exI [of _ "map (\<lambda>k. the (c (p + of_nat k))) [0..<n]"]) (auto simp: load_cells_iff)

lemma store_cells_spec:
  assumes "unat p + length xs < 2 ^ 64" "\<forall>k<length xs. c (p + of_nat k) \<noteq> None"
  shows "\<exists>c'. store_cells c p xs = Some c' \<and> dom c' = dom c \<and> load_cells c' p (length xs) = Some xs \<and>
    (\<forall>x. unat x \<notin> {unat p ..< unat p + length xs} \<longrightarrow> c' x = c x)"
  using assms
proof (induction xs arbitrary: c p)
  case (Cons y ys)
  have cp: "c p \<noteq> None" using Cons.prems(2) by auto
  have p1: "unat (p + 1) = unat p + 1" using unat_offset [of p 1] Cons.prems(1) by simp
  define g where "g = c(p \<mapsto> y)"
  have g: "\<forall>k<length ys. g (p + 1 + of_nat k) \<noteq> None" "dom g = dom c" "g p = Some y" "x \<noteq> p \<Longrightarrow> g x = c x" for x
    using Cons.prems(2) cp by (auto simp: g_def algebra_simps insert_absorb)
  obtain c' where c': "store_cells g (p + 1) ys = Some c'" "dom c' = dom g" "load_cells c' (p + 1) (length ys) = Some ys"
    "\<forall>x. unat x \<notin> {unat (p + 1) ..< unat (p + 1) + length ys} \<longrightarrow> c' x = g x"
    using Cons.IH [OF _ g(1)] Cons.prems(1) p1 by auto
  have "c' p = Some y" using c'(4) p1 g(3) by simp
  moreover have "c' x = c x" if "unat x \<notin> {unat p ..< unat p + length (y # ys)}" for x
  proof -
    have "x \<noteq> p" using that by auto
    then show ?thesis using c'(4) p1 that g(4) by auto
  qed
  ultimately show ?case using c' cp g(2) by (auto simp: g_def [symmetric])
qed auto

definition region_bytes :: "memory \<Rightarrow> u64 \<times> size_t \<Rightarrow> cell list option" where
  "region_bytes m r = load_cells (mm_cells m) (fst r) (unat (snd r))"

lemma backed_region:
  assumes "backed m X" "range_of p n \<subseteq> X" "k < unat n"
  shows "unat (p + of_nat k) = unat p + k" "mm_cells m (p + of_nat k) \<noteq> None" "unat p + k < 2 ^ 63"
proof -
  have x: "unat p + k \<in> X" using assms(2,3) by (auto simp: range_of_def)
  then show 1: "unat p + k < 2 ^ 63" using assms(1) by (auto simp: backed_def)
  show "unat (p + of_nat k) = unat p + k" using 1 by (intro unat_offset) simp
  have "of_nat (unat p + k) = p + of_nat k" by simp
  then show "mm_cells m (p + of_nat k) \<noteq> None" using assms(1) x unfolding backed_def by metis
qed

section \<open>Changing cells\<close>

lemma blk_cells [simp]: "block_at (m\<lparr>mm_cells := c\<rparr>) = block_at m" "blk (m\<lparr>mm_cells := c\<rparr>) = blk m"
  "extent (m\<lparr>mm_cells := c\<rparr>) = extent m" "span (m\<lparr>mm_cells := c\<rparr>) = span m" "used (m\<lparr>mm_cells := c\<rparr>) = used m"
  "linked (m\<lparr>mm_cells := c\<rparr>) = linked m" "apart (m\<lparr>mm_cells := c\<rparr>) = apart m"
  "tight (m\<lparr>mm_cells := c\<rparr>) = tight m"
proof -
  show "tight (m\<lparr>mm_cells := c\<rparr>) = tight m" by (simp add: tight_def fun_eq_iff)
  show 1: "block_at (m\<lparr>mm_cells := c\<rparr>) = block_at m" by (auto simp: block_at_def fun_eq_iff split: block_ptr.split)
  show 2: "blk (m\<lparr>mm_cells := c\<rparr>) = blk m" unfolding blk_def fun_eq_iff 1 by simp
  show 3: "extent (m\<lparr>mm_cells := c\<rparr>) = extent m" unfolding extent_def fun_eq_iff 2 by simp
  show 4: "span (m\<lparr>mm_cells := c\<rparr>) = span m" unfolding span_def fun_eq_iff 2 3 by simp
  show "used (m\<lparr>mm_cells := c\<rparr>) = used m" unfolding used_def fun_eq_iff 2 3 by simp
  show "linked (m\<lparr>mm_cells := c\<rparr>) = linked m" unfolding linked_def fun_eq_iff 2 by simp
  show "apart (m\<lparr>mm_cells := c\<rparr>) = apart m" unfolding apart_def fun_eq_iff 4 by simp
qed

lemma arena_inv_cells:
  assumes "arena_inv m a ps i" "dom c = dom (mm_cells m)"
  shows "arena_inv (m\<lparr>mm_cells := c\<rparr>) a ps i"
proof -
  have "backed (m\<lparr>mm_cells := c\<rparr>) = backed m"
    using assms(2) unfolding backed_def fun_eq_iff by (auto simp: dom_def set_eq_iff)
  then have "block_ok (m\<lparr>mm_cells := c\<rparr>) a p = block_ok m a p" for p
    unfolding block_ok_def by (simp split: block_ptr.split)
  then show ?thesis using assms(1) unfolding arena_inv_def first_ok_def by auto
qed

section \<open>A client\<close>

type_synonym region = "u64 \<times> size_t"

abbreviation rng :: "region \<Rightarrow> nat set" where
  "rng r \<equiv> range_of (fst r) (snd r)"

text \<open>
  \<open>sy_live\<close>: the regions the client owns; \<open>sy_saved\<close>: its checkpoints, the latest first, with the regions
  it owned then; \<open>sy_rewound\<close>: whether it has reset the arena or rolled it back; \<open>sy_self\<close>: the address of
  the \<^verbatim>\<open>Arena\<close> structure; \<open>sy_before\<close>: the heap before the arena was created.
\<close>

record arena_sys =
  sy_mem :: memory
  sy_arena :: arena
  sy_live :: "region list"
  sy_saved :: "(arena_checkpoint \<times> region list) list"
  sy_rewound :: bool
  sy_self :: u64
  sy_before :: "u64 \<rightharpoonup> size_t"

datatype arena_request =
    Alloc size_t size_t | Alloc_Unaligned size_t | Alloc_Zero size_t | Alloc_Array size_t size_t size_t
  | Alloc_Batch "size_t list" | Strdup bytes | Strdupn bytes size_t | Resize nat size_t size_t
  | Fill nat "u8 list" | Save | Restore nat | Reset

definition receive :: "arena_sys \<Rightarrow> region list \<Rightarrow> size_t \<Rightarrow> (u64 option \<times> memory \<times> arena) option \<Rightarrow> arena_sys option" where
  "receive s old sz res = do {
     (r, m, a) \<leftarrow> res;
     Some (s\<lparr>sy_mem := m, sy_arena := a, sy_live := (case r of None \<Rightarrow> sy_live s | Some p \<Rightarrow> (p, sz) # old)\<rparr>) }"

definition without :: "nat \<Rightarrow> 'a list \<Rightarrow> 'a list" where
  "without j xs = take j xs @ drop (Suc j) xs"

fun arena_run :: "system_alloc \<Rightarrow> arena_request \<Rightarrow> arena_sys \<Rightarrow> arena_sys option" where
  "arena_run al (Alloc sz g) s = receive s (sy_live s) sz (arena_alloc_align al (sy_mem s) (sy_arena s) sz g)"
| "arena_run al (Alloc_Unaligned sz) s = receive s (sy_live s) sz (arena_alloc_unaligned al (sy_mem s) (sy_arena s) sz)"
| "arena_run al (Alloc_Zero sz) s = receive s (sy_live s) sz (arena_alloc_zero al (sy_mem s) (sy_arena s) sz)"
| "arena_run al (Alloc_Array es g n) s =
     receive s (sy_live s) (es * n) (arena_alloc_array_zero al (sy_mem s) (sy_arena s) es g n)"
| "arena_run al (Alloc_Batch szs) s = do {
     (r, m, a) \<leftarrow> arena_alloc_batch al (sy_mem s) (sy_arena s) szs;
     Some (s\<lparr>sy_mem := m, sy_arena := a,
       sy_live := (case r of None \<Rightarrow> sy_live s | Some ps \<Rightarrow> zip ps szs @ sy_live s)\<rparr>) }"
| "arena_run al (Strdup str) s =
     receive s (sy_live s) (of_nat (length str) + 1) (arena_strdup al (sy_mem s) (sy_arena s) str)"
| "arena_run al (Strdupn str n) s = receive s (sy_live s) (n + 1) (arena_strdupn al (sy_mem s) (sy_arena s) str n)"
| "arena_run al (Resize j n g) s =
     (let (p, k) = sy_live s ! j; s' = (if n = 0 then s\<lparr>sy_live := without j (sy_live s)\<rparr> else s)
      in receive s' (without j (sy_live s)) n (arena_realloc al (sy_mem s) (sy_arena s) (Some p) k n g))"
| "arena_run al (Fill j xs) s = do {
     c \<leftarrow> store_cells (mm_cells (sy_mem s)) (fst (sy_live s ! j)) (map Some xs);
     Some (s\<lparr>sy_mem := (sy_mem s)\<lparr>mm_cells := c\<rparr>\<rparr>) }"
| "arena_run al Save s = Some (s\<lparr>sy_saved := (arena_save (sy_arena s), sy_live s) # sy_saved s\<rparr>)"
| "arena_run al (Restore k) s =
     Some (s\<lparr>sy_arena := arena_restore (sy_arena s) (fst (sy_saved s ! k)), sy_live := snd (sy_saved s ! k),
             sy_saved := drop k (sy_saved s), sy_rewound := True\<rparr>)"
| "arena_run al Reset s = do {
     a \<leftarrow> arena_reset (sy_mem s) (sy_arena s);
     Some (s\<lparr>sy_arena := a, sy_live := [], sy_saved := [], sy_rewound := True\<rparr>) }"

text \<open>
  Requests a client may make: sizes of at most \<open>2 ^ 62\<close> with a power of two as the alignment (a
  larger array is refused by the overflow check), and existing regions and checkpoints.
\<close>

fun request_legal :: "arena_request \<Rightarrow> arena_sys \<Rightarrow> bool" where
  "request_legal (Alloc sz g) s = (unat sz \<le> 2 ^ 62 \<and> alignment_ok g)"
| "request_legal (Alloc_Unaligned sz) s = (unat sz \<le> 2 ^ 62)"
| "request_legal (Alloc_Zero sz) s = (unat sz \<le> 2 ^ 62)"
| "request_legal (Alloc_Array es g n) s = (alignment_ok g \<and> (unat es * unat n \<le> 2 ^ 62 \<or> 2 ^ 64 \<le> unat es * unat n))"
| "request_legal (Alloc_Batch szs) s = (sum_list (map unat szs) + 16 * length szs \<le> 2 ^ 62)"
| "request_legal (Strdup str) s = (length str < 2 ^ 62)"
| "request_legal (Strdupn str n) s = (unat n < 2 ^ 62 \<and> unat n \<le> length str)"
| "request_legal (Resize j n g) s = (j < length (sy_live s) \<and> unat n \<le> 2 ^ 62 \<and> alignment_ok g)"
| "request_legal (Fill j xs) s = (j < length (sy_live s) \<and> length xs \<le> unat (snd (sy_live s ! j)))"
| "request_legal Save s = True"
| "request_legal (Restore k) s = (k < length (sy_saved s))"
| "request_legal Reset s = True"

inductive arena_step :: "arena_sys \<Rightarrow> arena_sys option \<Rightarrow> bool" where
  "request_legal q s \<Longrightarrow> honest al (sy_mem s) \<Longrightarrow> arena_step s (arena_run al q s)"

inductive_cases arena_stepE: "arena_step s t"

text \<open>
  An arena on a buffer of the client, or one that \<^verbatim>\<open>arena_create\<close> returned.  The second allocation
  of \<^verbatim>\<open>arena_create\<close> finds the structure in the heap, a block of 128 bytes.
\<close>

definition with_struct :: "u64 \<Rightarrow> memory \<Rightarrow> memory" where
  "with_struct self m = m\<lparr>mm_heap := (mm_heap m)(self \<mapsto> 128)\<rparr>"

definition arena_start :: "arena_sys \<Rightarrow> bool" where
  "arena_start s \<longleftrightarrow> sy_live s = [] \<and> sy_saved s = [] \<and> \<not> sy_rewound s \<and> mm_slabs (sy_mem s) = Map.empty \<and> (\<exists>k page. 6 \<le> k \<and> k \<le> 20 \<and> page = 2 ^ k \<and>
     ((\<exists>buf n. unat buf + unat n \<le> 2 ^ 63 \<and> backed (sy_mem s) (range_of buf n) \<and> sy_arena s = arena_init page buf n \<and>
         sy_before s = mm_heap (sy_mem s)) \<or>
      (\<exists>al0 al m g sb. honest al0 m \<and> honest al (with_struct (sy_self s) m) \<and> backed m (range_of sb STATIC_BUFFER_SIZE) \<and>
         unat sb + unat STATIC_BUFFER_SIZE \<le> 2 ^ 63 \<and> unat g \<le> 2 ^ 62 \<and> sy_before s = mm_heap m \<and>
         arena_create al0 al page sb g m = Some (Some (sy_self s, sy_arena s), sy_mem s))))"

section \<open>The invariant of the client\<close>

definition owned :: "memory \<Rightarrow> arena \<Rightarrow> block_ptr list \<Rightarrow> nat \<Rightarrow> u64 \<Rightarrow> region list \<Rightarrow> bool" where
  "owned m a ps i c L \<longleftrightarrow> sorted_wrt (\<lambda>r r'. rng r \<inter> rng r' = {}) L \<and> (\<forall>r\<in>set L. rng r \<subseteq> used m a ps i c)"

fun saved_ok :: "memory \<Rightarrow> arena \<Rightarrow> block_ptr list \<Rightarrow> nat \<Rightarrow> (arena_checkpoint \<times> region list) list \<Rightarrow> bool" where
  "saved_ok m a ps i [] \<longleftrightarrow> True"
| "saved_ok m a ps i ((cp, L) # S) \<longleftrightarrow> (\<exists>k\<le>i. cp_block cp = Some (ps ! k) \<and> cp_end cp = ab_end (blk m a (ps ! k)) \<and>
     ab_base (blk m a (ps ! k)) \<le> cp_curr cp \<and> cp_curr cp \<le> cp_end cp \<and> owned m a ps k (cp_curr cp) L \<and> saved_ok m a ps k S)"

definition client_ok :: "bool \<Rightarrow> memory \<Rightarrow> arena \<Rightarrow> region list \<Rightarrow> (arena_checkpoint \<times> region list) list \<Rightarrow> block_ptr list \<Rightarrow> nat \<Rightarrow> bool" where
  "client_ok w m a L S ps i \<longleftrightarrow> arena_inv m a ps i \<and> owned m a ps i (ar_curr a) L \<and> saved_ok m a ps i S \<and> (w \<or> tight m ps i)"

definition arena_sys_inv :: "arena_sys \<Rightarrow> bool" where
  "arena_sys_inv s \<longleftrightarrow> (\<exists>ps i. client_ok (sy_rewound s) (sy_mem s) (sy_arena s) (sy_live s) (sy_saved s) ps i)"

lemma grown_blocks:
  assumes "grown m a ps i m' a' ps' i'" "k \<le> i" "i < length ps"
  shows "ps' ! k = ps ! k" "ab_base (blk m' a' (ps ! k)) = ab_base (blk m a (ps ! k))"
    "ab_end (blk m' a' (ps ! k)) = ab_end (blk m a (ps ! k))" "used m' a' ps' k c = used m a ps k c"
proof -
  have t: "take (Suc i) ps' = take (Suc i) ps" using assms(1) by (simp add: grown_def)
  have "take (Suc i) ps' ! k = take (Suc i) ps ! k" by (simp only: t)
  then show n: "ps' ! k = ps ! k" using assms(2) by simp
  have b: "ab_base (blk m' a' p) = ab_base (blk m a p)" "ab_end (blk m' a' p) = ab_end (blk m a p)"
    if "p \<in> set (take (Suc i) ps)" for p
    using assms(1) that by (auto simp: grown_def)
  have k: "ps ! k \<in> set (take (Suc i) ps)" using nth_mem [of k "take (Suc i) ps"] assms(2,3) by simp
  show kb: "ab_base (blk m' a' (ps ! k)) = ab_base (blk m a (ps ! k))"
    "ab_end (blk m' a' (ps ! k)) = ab_end (blk m a (ps ! k))" using b k by auto
  have "take k (take (Suc i) ps') = take k (take (Suc i) ps)" by (simp only: t)
  then have tk: "take k ps' = take k ps" using assms(2) by (simp add: min_def)
  have "set (take k ps) \<subseteq> set (take (Suc i) ps)" using assms(2) by (intro set_take_subset_set_take) simp
  then have "extent m' a' p = extent m a p" if "p \<in> set (take k ps)" for p
    using b that unfolding extent_def by auto
  then show "used m' a' ps' k c = used m a ps k c" by (simp add: used_def tk n kb)
qed

lemma saved_ok_grown:
  assumes "grown m a ps i m' a' ps' i'" "i < length ps"
  shows "saved_ok m a ps j S \<Longrightarrow> j \<le> i \<Longrightarrow> j \<le> j' \<Longrightarrow> saved_ok m' a' ps' j' S"
proof (induction S arbitrary: j j')
  case (Cons x S)
  obtain cp L where x: "x = (cp, L)" by (cases x)
  obtain k where k: "k \<le> j" "cp_block cp = Some (ps ! k)" "cp_end cp = ab_end (blk m a (ps ! k))"
    "ab_base (blk m a (ps ! k)) \<le> cp_curr cp" "cp_curr cp \<le> cp_end cp" "owned m a ps k (cp_curr cp) L" "saved_ok m a ps k S"
    using Cons.prems(1) x by auto
  note g = grown_blocks [OF assms(1) _ assms(2), of k]
  have "saved_ok m' a' ps' k S" using Cons.IH [OF k(7), of k] k(1) Cons.prems(2) by simp
  then show ?case
    using k g Cons.prems(2,3) unfolding x owned_def saved_ok.simps by (intro exI [of _ k]) auto
qed simp

lemma saved_ok_mono: "saved_ok m a ps i S \<Longrightarrow> i \<le> j \<Longrightarrow> saved_ok m a ps j S"
proof (cases S)
  case (Cons x S')
  moreover obtain cp L where "x = (cp, L)" by (cases x)
  moreover assume "saved_ok m a ps i S" "i \<le> j"
  ultimately show ?thesis unfolding Cons by simp (meson order.trans)
qed simp

lemma saved_ok_same: "block_at m a' = block_at m a \<Longrightarrow> saved_ok m a' ps i S = saved_ok m a ps i S"
proof (induction S arbitrary: i)
  case (Cons x S)
  have "blk m a' = blk m a" using Cons.prems by (simp add: blk_def fun_eq_iff)
  moreover obtain cp L where "x = (cp, L)" by (cases x)
  ultimately show ?case using Cons.IH [OF Cons.prems] same_blocks(6) [OF Cons.prems] by (simp add: owned_def)
qed simp

lemma grown_bytes:
  assumes "grown m a ps i m' a' ps' i'" "arena_inv m a ps i" "rng r \<subseteq> taken m a ps i"
  shows "region_bytes m' r = region_bytes m r"
  unfolding region_bytes_def
proof (rule load_cells_cong)
  fix k assume "k < unat (snd r)"
  then have "mm_cells m (fst r + of_nat k) \<noteq> None"
    using backed_region(2) [OF taken_backed [OF assms(2)] assms(3)] by simp
  then show "mm_cells m' (fst r + of_nat k) = mm_cells m (fst r + of_nat k)"
    using assms(1) by (auto simp: grown_def)
qed

text \<open>What the client has after an allocation that leaves it the regions \<open>L\<close>.\<close>

definition served ::
  "bool \<Rightarrow> memory \<Rightarrow> arena \<Rightarrow> region list \<Rightarrow> (arena_checkpoint \<times> region list) list \<Rightarrow> size_t \<Rightarrow> size_t \<Rightarrow> (u64 option \<times> memory \<times> arena) option \<Rightarrow> bool" where
  "served w m a L S sz g res \<longleftrightarrow> res = Some (None, m, a) \<or>
     (\<exists>p m' a' ps i. res = Some (Some p, m', a') \<and> unat g dvd unat p \<and> client_ok w m' a' ((p, sz) # L) S ps i \<and>
        (\<forall>r\<in>set L. region_bytes m' r = region_bytes m r))"

lemma granted_client:
  assumes ok: "client_ok w m a L S ps i" and g: "granted m a ps i m' a' ps' i' p sz al"
  shows "client_ok w m' a' ((p, sz) # L) S ps' i'" "\<And>r. r \<in> set L \<Longrightarrow> region_bytes m' r = region_bytes m r"
proof -
  have gr: "grown m a ps i m' a' ps' i'" and T: "taken m a ps i \<subseteq> taken m' a' ps' i'"
    and R: "range_of p sz \<subseteq> taken m' a' ps' i' - taken m a ps i"
    using g by (auto simp: granted_def)
  have inv: "arena_inv m a ps i" and own: "owned m a ps i (ar_curr a) L" and sv: "saved_ok m a ps i S"
    using ok by (auto simp: client_ok_def)
  have "i \<le> i'" using gr by (simp add: grown_def)
  then have "saved_ok m' a' ps' i' S" using saved_ok_grown [OF gr arena_invD(4) [OF inv] sv] by simp
  moreover have "owned m' a' ps' i' (ar_curr a') ((p, sz) # L)"
    using own T R unfolding owned_def by fastforce
  ultimately show "client_ok w m' a' ((p, sz) # L) S ps' i'" using gr ok by (auto simp: client_ok_def grown_def)
  show "region_bytes m' r = region_bytes m r" if "r \<in> set L" for r
    using grown_bytes [OF gr inv] own that by (simp add: owned_def)
qed

lemma alloc_served:
  assumes ok: "client_ok w m a L S ps i" and h: "honest al m" and "unat sz \<le> 2 ^ 62" "alignment_ok g"
  shows "served w m a L S sz g (arena_alloc_align al m a sz g)"
proof (cases "sz = 0")
  case True
  then show ?thesis by (simp add: served_def arena_alloc_align_def)
next
  case False
  then have "request_ok sz g" using assms by (simp add: request_ok_def unat_gt_0)
  moreover have "arena_inv m a ps i" using ok by (simp add: client_ok_def)
  ultimately show ?thesis
    using alloc_align_outcome [of m a ps i sz g al] h granted_client [OF ok] unfolding alloc_outcome_def served_def granted_def by metis
qed

text \<open>Storing into a region the client owns.\<close>

lemma store_client:
  assumes ok: "client_ok w m a L S ps i" and r: "r \<in> set L" and len: "length xs \<le> unat (snd r)"
  shows "\<exists>c. store_cells (mm_cells m) (fst r) xs = Some c \<and> client_ok w (m\<lparr>mm_cells := c\<rparr>) a L S ps i \<and>
    load_cells c (fst r) (length xs) = Some xs \<and>
    (\<forall>r'\<in>set L. rng r' \<inter> rng r = {} \<longrightarrow> region_bytes (m\<lparr>mm_cells := c\<rparr>) r' = region_bytes m r')"
proof -
  have inv: "arena_inv m a ps i" and sub: "\<And>r. r \<in> set L \<Longrightarrow> rng r \<subseteq> taken m a ps i"
    using ok by (auto simp: client_ok_def owned_def)
  note bk = backed_region [OF taken_backed [OF inv]]
  have bound: "unat (fst r) + length xs < 2 ^ 64"
  proof (cases "unat (snd r)")
    case 0
    then show ?thesis using len unat_lt_2_64 [of "fst r"] by simp
  next
    case (Suc k)
    then show ?thesis using bk(3) [OF sub [OF r], of k] len by simp
  qed
  have "\<forall>k<length xs. mm_cells m (fst r + of_nat k) \<noteq> None" using bk(2) [OF sub [OF r]] len by simp
  from store_cells_spec [OF bound this] obtain c where c: "store_cells (mm_cells m) (fst r) xs = Some c"
    "dom c = dom (mm_cells m)" "load_cells c (fst r) (length xs) = Some xs"
    "\<forall>x. unat x \<notin> {unat (fst r) ..< unat (fst r) + length xs} \<longrightarrow> c x = mm_cells m x" by blast
  have sv: "saved_ok (m\<lparr>mm_cells := c\<rparr>) a ps j S' = saved_ok m a ps j S'" for j S'
    by (induction S' arbitrary: j) (auto simp: owned_def)
  have "load_cells c (fst r') (unat (snd r')) = load_cells (mm_cells m) (fst r') (unat (snd r'))"
    if "r' \<in> set L" "rng r' \<inter> rng r = {}" for r'
  proof (rule load_cells_cong)
    fix k assume k: "k < unat (snd r')"
    then have "unat (fst r') + k \<in> rng r'" by (simp add: range_of_def)
    then have "unat (fst r') + k \<notin> rng r" using that(2) by blast
    then show "c (fst r' + of_nat k) = mm_cells m (fst r' + of_nat k)"
      using c(4) bk(1) [OF sub [OF that(1)] k] len by (auto simp: range_of_def)
  qed
  then show ?thesis
    using c arena_inv_cells [OF inv c(2)] ok sv by (auto simp: client_ok_def owned_def region_bytes_def)
qed

lemma filled_served:
  assumes "served w m a L S sz g res" "length xs = unat sz"
  shows "served w m a L S sz g (filled res xs)"
proof (cases "res = Some (None, m, a)")
  case True
  then show ?thesis by (simp add: served_def filled_def)
next
  case False
  then obtain p m' a' ps i where r: "res = Some (Some p, m', a')" "unat g dvd unat p" "client_ok w m' a' ((p, sz) # L) S ps i"
    "\<forall>r\<in>set L. region_bytes m' r = region_bytes m r" using assms(1) unfolding served_def by blast
  obtain c where c: "store_cells (mm_cells m') p xs = Some c" "client_ok w (m'\<lparr>mm_cells := c\<rparr>) a' ((p, sz) # L) S ps i"
    "\<forall>r'\<in>set ((p, sz) # L). rng r' \<inter> range_of p sz = {} \<longrightarrow> region_bytes (m'\<lparr>mm_cells := c\<rparr>) r' = region_bytes m' r'"
    using store_client [OF r(3), of "(p, sz)" xs] assms(2) by auto
  have "\<forall>r\<in>set L. rng r \<inter> range_of p sz = {}" using r(3) by (auto simp: client_ok_def owned_def)
  then show ?thesis using r c by (auto simp: served_def filled_def)
qed

section \<open>Resizing\<close>

lemma set_without: "set (without j xs) \<subseteq> set xs"
  using set_take_subset set_drop_subset by (fastforce simp: without_def)

lemma sorted_wrt_without:
  assumes "sorted_wrt P xs" "j < length xs" "\<And>x y. P x y \<Longrightarrow> P y x"
  shows "sorted_wrt P (without j xs)" "\<And>x. x \<in> set (without j xs) \<Longrightarrow> P x (xs ! j)"
proof -
  have "sorted_wrt P (take j xs @ xs ! j # drop (Suc j) xs)" using assms(1,2) by (simp add: id_take_nth_drop [symmetric])
  then show "sorted_wrt P (without j xs)" "\<And>x. x \<in> set (without j xs) \<Longrightarrow> P x (xs ! j)"
    using assms(3) by (auto simp: without_def sorted_wrt_append)
qed

lemma client_ok_without:
  assumes "client_ok w m a L S ps i" "j < length L"
  shows "client_ok w m a (without j L) S ps i" "\<And>r. r \<in> set (without j L) \<Longrightarrow> rng r \<inter> rng (L ! j) = {}"
  using assms sorted_wrt_without [of "\<lambda>r r'. rng r \<inter> rng r' = {}" L j] set_without [of j L]
  unfolding client_ok_def owned_def by (auto simp: Int_commute)

text \<open>A region that ends at the cursor lies in the current block: a descriptor separates the blocks.\<close>

lemma last_region:
  assumes inv: "arena_inv m a ps i" and sub: "range_of p k \<subseteq> taken m a ps i" and k: "k \<noteq> 0" and c: "p + k = ar_curr a"
  shows "unat (ab_base (blk m a (ps ! i))) \<le> unat p" "unat p + unat k = unat (ar_curr a)"
proof -
  note D = arena_invD [OF inv]
  let ?b = "unat (ab_base (blk m a (ps ! i)))"
  have k0: "0 < unat k" using k by (simp add: unat_gt_0)
  have "unat p + (unat k - 1) < 2 ^ 63" using backed_region(3) [OF taken_backed [OF inv] sub, of "unat k - 1"] k0 by simp
  then show e: "unat p + unat k = unat (ar_curr a)" using unat_add_no_wrap [of p k] k0 c by simp
  have bc: "?b \<le> unat (ar_curr a)" "unat (ar_curr a) \<le> unat (ab_end (blk m a (ps ! i)))"
    using D(6,7,8) by (auto simp: word_le_nat_alt)
  show "?b \<le> unat p"
  proof (rule ccontr)
    assume neg: "\<not> ?b \<le> unat p"
    then have "?b - 1 \<in> range_of p k" using bc e by (auto simp: range_of_def)
    then have "?b - 1 \<in> taken m a ps i" using sub by blast
    then obtain q where q: "q \<in> set (take i ps)" "?b - 1 \<in> extent m a q" using neg by (auto simp: used_def)
    have ne: "q \<noteq> ps ! i" using take_nth_ne [OF D(10) q(1)] D(4) by simp
    have "0 < i" using q(1) by (cases i) auto
    then have "ps ! i \<noteq> First_Block" using D(1,4) nth_eq_iff_index_eq [OF D(10), of i 0] by (auto simp: linked_def)
    then obtain w where w: "ps ! i = Slab w" by (cases "ps ! i") auto
    have "?b = unat w + 32" "unat (ab_base (blk m a (ps ! i))) \<le> unat (ab_end (blk m a (ps ! i)))"
      using D(2) [OF nth_mem [OF D(4)]] w by (auto simp: block_ok_def word_le_nat_alt)
    then have "?b - 1 \<in> span m a (ps ! i)" by (auto simp: span_def w)
    moreover have "?b - 1 \<in> span m a q" using q extent_span [OF D(2)] by (auto dest: in_set_takeD)
    ultimately show False
      using D(3) ne q(1) nth_mem [OF D(4)] unfolding apart_def by (blast dest: in_set_takeD)
  qed
qed

lemma arena_inv_cursor:
  assumes "arena_inv m a ps i" "ab_base (blk m a (ps ! i)) \<le> c" "c \<le> ar_end a"
  shows "arena_inv m (a\<lparr>ar_curr := c\<rparr>) ps i"
  using assms unfolding arena_inv_def by auto

text \<open>Moving the cursor from the end of the last region to its start, or to another end.\<close>

lemma resize_last:
  assumes ok: "client_ok w m a L S ps i" and j: "j < length L" "L ! j = (p, k)" "k \<noteq> 0" "p + k = ar_curr a"
    and n: "unat n \<le> 2 ^ 62" "n \<le> k \<or> p + n \<le> ar_end a"
  shows "client_ok w m (a\<lparr>ar_curr := p + n\<rparr>) ((p, n) # without j L) S ps i"
proof -
  have inv: "arena_inv m a ps i" and sub: "\<And>r. r \<in> set L \<Longrightarrow> rng r \<subseteq> taken m a ps i"
    using ok by (auto simp: client_ok_def owned_def)
  note D = arena_invD [OF inv]
  let ?b = "unat (ab_base (blk m a (ps ! i)))"
  have pk: "range_of p k \<subseteq> taken m a ps i" using sub [OF nth_mem [OF j(1)]] j(2) by simp
  note last = last_region [OF inv pk j(3,4)]
  have pn: "unat (p + n) = unat p + unat n" using unat_add_no_wrap [of p n] last D(13) n(1) by simp
  have le: "unat p + unat n \<le> unat (ar_end a)" using n(2) pn last D(8) by (auto simp: word_le_nat_alt)
  have inv': "arena_inv m (a\<lparr>ar_curr := p + n\<rparr>) ps i"
    using last le pn by (intro arena_inv_cursor [OF inv]) (simp_all add: word_le_nat_alt)
  have below: "rng r \<subseteq> (\<Union>q\<in>set (take i ps). extent m a q) \<union> {?b ..< unat p}" if "r \<in> set (without j L)" for r
  proof -
    have "rng r \<inter> range_of p k = {}" using client_ok_without(2) [OF ok j(1) that] j(2) by simp
    then show ?thesis using sub [of r] that set_without [of j L] last by (fastforce simp: used_def range_of_def)
  qed
  have new: "range_of p n \<subseteq> extent m a (ps ! i)"
    using last le D(6) by (auto simp: range_of_def extent_def)
  have "extent m a q \<inter> extent m a (ps ! i) = {}" if "q \<in> set (take i ps)" for q
    using extents_apart [OF inv in_set_takeD [OF that] nth_mem [OF D(4)]] take_nth_ne [OF D(10) that] D(4) by simp
  then have "range_of p n \<inter> rng r = {}" if "r \<in> set (without j L)" for r
    using below [OF that] new by (fastforce simp: range_of_def)
  moreover have "rng r \<subseteq> used m a ps i (p + n)" if "r \<in> set (without j L)" for r
    using below [OF that] pn by (fastforce simp: used_def)
  moreover have "range_of p n \<subseteq> used m a ps i (p + n)"
    using last pn by (auto simp: used_def range_of_def)
  moreover have "saved_ok m (a\<lparr>ar_curr := p + n\<rparr>) ps i S = saved_ok m a ps i S"
    by (rule saved_ok_same) simp
  ultimately show ?thesis
    using inv' client_ok_without(1) [OF ok j(1)] by (auto simp: client_ok_def owned_def)
qed

definition resized :: "bool \<Rightarrow> memory \<Rightarrow> arena \<Rightarrow> region list \<Rightarrow> (arena_checkpoint \<times> region list) list \<Rightarrow> nat \<Rightarrow> size_t \<Rightarrow>
    (u64 option \<times> memory \<times> arena) option \<Rightarrow> bool" where
  "resized w m a L S j n res \<longleftrightarrow>
     (n = 0 \<and> (\<exists>a' ps i. res = Some (None, m, a') \<and> client_ok w m a' (without j L) S ps i)) \<or>
     (n \<noteq> 0 \<and> res = Some (None, m, a)) \<or>
     (n \<noteq> 0 \<and> (\<exists>p m' a' ps i. res = Some (Some p, m', a') \<and> client_ok w m' a' ((p, n) # without j L) S ps i \<and>
        (\<forall>r\<in>set (without j L). region_bytes m' r = region_bytes m r) \<and>
        (let k = min (unat (snd (L ! j))) (unat n)
         in load_cells (mm_cells m') p k = load_cells (mm_cells m) (fst (L ! j)) k)))"

lemma without_Cons: "without (Suc j) (x # xs) = x # without j xs"
  by (simp add: without_def)

lemma client_ok_Cons: "client_ok w m a (r # L) S ps i \<Longrightarrow> client_ok w m a L S ps i"
  by (auto simp: client_ok_def owned_def)

lemma realloc_move:
  assumes ok: "client_ok w m a ((q, n) # L) S ps i" and j: "j < length L" "L ! j = (p, k)" and l: "l = (if k < n then k else n)"
  shows "\<exists>c. copy_cells (mm_cells m) q p l = Some c \<and> client_ok w (m\<lparr>mm_cells := c\<rparr>) a ((q, n) # without j L) S ps i \<and>
    load_cells c q (unat l) = load_cells (mm_cells m) p (unat l) \<and>
    (\<forall>r\<in>set L. region_bytes (m\<lparr>mm_cells := c\<rparr>) r = region_bytes m r)"
proof -
  have inv: "arena_inv m a ps i" and pk: "(p, k) \<in> set L" "range_of p k \<subseteq> taken m a ps i"
    and apart: "\<And>r. r \<in> set L \<Longrightarrow> rng r \<inter> range_of q n = {}"
    using ok nth_mem [OF j(1)] j(2) unfolding client_ok_def owned_def by fastforce+
  have lb: "unat l \<le> unat k" "unat l \<le> unat n" using l by (auto simp: word_less_nat_alt)
  have "range_of p k \<inter> range_of q n = {}" using apart [OF pk(1)] by simp
  then have dis: "\<not> (unat q < unat p + unat l \<and> unat p < unat q + unat l)"
    using lb by (auto simp: range_of_def disjoint_iff)
  have "\<forall>x<unat l. mm_cells m (p + of_nat x) \<noteq> None"
    using backed_region(2) [OF taken_backed [OF inv] pk(2)] lb by simp
  then obtain xs where xs: "load_cells (mm_cells m) p (unat l) = Some xs" using load_cells_total by blast
  then have len: "length xs = unat l" by (simp add: load_cells_iff)
  obtain c where c: "store_cells (mm_cells m) q xs = Some c" "client_ok w (m\<lparr>mm_cells := c\<rparr>) a ((q, n) # L) S ps i"
    "load_cells c q (unat l) = Some xs"
    "\<forall>r'\<in>set ((q, n) # L). rng r' \<inter> range_of q n = {} \<longrightarrow> region_bytes (m\<lparr>mm_cells := c\<rparr>) r' = region_bytes m r'"
    using store_client [OF ok, of "(q, n)" xs] len lb(2) by auto
  moreover have "client_ok w (m\<lparr>mm_cells := c\<rparr>) a ((q, n) # without j L) S ps i"
    using client_ok_without(1) [OF c(2), of "Suc j"] j(1) by (simp add: without_Cons)
  moreover have "copy_cells (mm_cells m) q p l = Some c" using dis xs c(1) by (simp add: copy_cells_def)
  ultimately show ?thesis using xs apart by auto
qed

lemma realloc_resized:
  assumes ok: "client_ok w m a L S ps i" and h: "honest al m" and j: "j < length L" "L ! j = (p, k)"
    and n: "unat n \<le> 2 ^ 62" "alignment_ok g"
  shows "resized w m a L S j n (arena_realloc al m a (Some p) k n g)"
proof -
  note wo = client_ok_without(1) [OF ok j(1)]
  consider "k = 0" | "k \<noteq> 0" "n = 0" | "k \<noteq> 0" "n \<noteq> 0" "p + k = ar_curr a" "n \<le> k \<or> p + n \<le> ar_end a"
    | "k \<noteq> 0" "n \<noteq> 0" "\<not> (p + k = ar_curr a \<and> (n \<le> k \<or> p + n \<le> ar_end a))" by blast
  then show ?thesis
  proof cases
    case 1
    then have eq: "arena_realloc al m a (Some p) k n g = arena_alloc_align al m a n g" by (simp add: arena_realloc_def)
    show ?thesis
    proof (cases "n = 0")
      case True
      then have "arena_alloc_align al m a n g = Some (None, m, a)" by (simp add: arena_alloc_align_def)
      then show ?thesis using wo True unfolding resized_def eq by blast
    next
      case False
      then show ?thesis
        using alloc_served [OF wo h n] 1 j(2) unfolding resized_def eq served_def by (simp add: Let_def) blast
    qed
  next
    case 2
    then have eq: "arena_realloc al m a (Some p) k n g = Some (None, m, if p + k = ar_curr a then a\<lparr>ar_curr := p\<rparr> else a)"
      by (simp add: arena_realloc_def)
    have "client_ok w m (a\<lparr>ar_curr := p\<rparr>) (without j L) S ps i" if "p + k = ar_curr a"
      using client_ok_Cons [OF resize_last [OF ok j 2(1) that, of 0]] by simp
    then show ?thesis unfolding resized_def eq using 2 wo by auto
  next
    case 3
    then have "arena_realloc al m a (Some p) k n g = Some (Some p, m, a\<lparr>ar_curr := p + n\<rparr>)"
      by (simp add: arena_realloc_def)
    then show ?thesis
      using resize_last [OF ok j 3(1,3) n(1) 3(4)] 3(2) j(2) by (auto simp: resized_def Let_def)
  next
    case 4
    let ?l = "if k < n then k else n"
    have eq: "arena_realloc al m a (Some p) k n g = do {
        (r, m, a) \<leftarrow> arena_alloc_align al m a n g;
        case r of None \<Rightarrow> Some (None, m, a)
        | Some q \<Rightarrow> do { c \<leftarrow> copy_cells (mm_cells m) q p ?l; Some (Some q, m\<lparr>mm_cells := c\<rparr>, a) } }"
      using 4 by (auto simp: arena_realloc_def)
    show ?thesis
    proof (cases "arena_alloc_align al m a n g = Some (None, m, a)")
      case True
      then show ?thesis using 4(2) by (simp add: resized_def eq)
    next
      case False
      then obtain q m' a' ps' i' where r: "arena_alloc_align al m a n g = Some (Some q, m', a')"
        "client_ok w m' a' ((q, n) # L) S ps' i'" "\<forall>r\<in>set L. region_bytes m' r = region_bytes m r"
        using alloc_served [OF ok h n] unfolding served_def by blast
      obtain c where c: "copy_cells (mm_cells m') q p ?l = Some c"
        "client_ok w (m'\<lparr>mm_cells := c\<rparr>) a' ((q, n) # without j L) S ps' i'"
        "load_cells c q (unat ?l) = load_cells (mm_cells m') p (unat ?l)"
        "\<forall>r\<in>set L. region_bytes (m'\<lparr>mm_cells := c\<rparr>) r = region_bytes m' r"
        using realloc_move [OF r(2) j refl] by blast
      have kept: "load_cells (mm_cells m') p x = load_cells (mm_cells m) p x" if "x \<le> unat k" for x
      proof (rule load_cells_cong)
        fix y assume y: "y < x"
        have "load_cells (mm_cells m') p (unat k) = load_cells (mm_cells m) p (unat k)"
          using r(3) nth_mem [OF j(1)] j(2) by (auto simp: region_bytes_def)
        moreover obtain xs where "load_cells (mm_cells m) p (unat k) = Some xs"
          using load_cells_total [of "unat k" "mm_cells m" p] backed_region(2) [OF taken_backed, of m a ps i p k]
            ok nth_mem [OF j(1)] j(2) by (fastforce simp: client_ok_def owned_def)
        ultimately show "mm_cells m' (p + of_nat y) = mm_cells m (p + of_nat y)"
          using y that by (simp add: load_cells_iff)
      qed
      have l: "min (unat k) (unat n) = unat ?l" by (auto simp: min_def word_less_nat_alt)
      have "resized w m a L S j n (Some (Some q, m'\<lparr>mm_cells := c\<rparr>, a'))"
        using 4(2) c r(3) kept [of "unat ?l"] l set_without [of j L] j(2) unfolding resized_def by (auto simp: Let_def)
      then show ?thesis by (simp add: eq r(1) c(1))
    qed
  qed
qed

section \<open>Batches\<close>

lemma round16: "(x + (ARENA_DEFAULT_ALIGN - 1)) AND NOT (ARENA_DEFAULT_ALIGN - 1) = align_up x 16"
  by (simp add: align_up_def ARENA_DEFAULT_ALIGN_def add.commute)

lemma align_up_shift:
  assumes "16 dvd unat b" "unat b + unat t + 16 \<le> 2 ^ 64"
  shows "align_up (b + t) 16 = b + align_up t 16" "unat (b + align_up t 16) = unat b + unat (align_up t 16)"
proof -
  obtain c where c: "unat b = 16 * c" using assms(1) by (auto elim: dvdE)
  have bt: "unat (b + t) = unat b + unat t" using unat_add_no_wrap [of b t] assms(2) by simp
  have t: "unat (align_up t 16) < unat t + 16" using align_up_bounds(2) [of 16 t] assms(2) by simp
  then show u: "unat (b + align_up t 16) = unat b + unat (align_up t 16)"
    using unat_add_no_wrap [of b "align_up t 16"] assms(2) by simp
  have "unat (align_up (b + t) 16) = unat (b + align_up t 16)"
    unfolding u using align_up_div [of 16 "b + t"] align_up_div [of 16 t] assms(2) bt c
    by (simp add: add.left_commute [of 15])
  then show "align_up (b + t) 16 = b + align_up t 16" by (simp only: word_unat_eq_iff)
qed

lemma batch_spec:
  assumes "16 dvd unat b" "unat b + unat t + sum_list (map unat szs) + 16 * length szs \<le> 2 ^ 63 + 2 ^ 62"
    and "unat t + sum_list (map unat szs) + 16 * length szs \<le> 2 ^ 62"
  shows "\<exists>T. batch_total t szs = Some T \<and> unat t \<le> unat T \<and> unat T \<le> 2 ^ 62 \<and> length (batch_ptrs (b + t) szs) = length szs \<and>
    sorted_wrt (\<lambda>r r'. rng r \<inter> rng r' = {}) (zip (batch_ptrs (b + t) szs) szs) \<and>
    (\<forall>r\<in>set (zip (batch_ptrs (b + t) szs) szs). 16 dvd unat (fst r) \<and>
       rng r \<subseteq> {unat b + unat t ..< unat b + unat T})"
  using assms(2,3)
proof (induction szs arbitrary: t)
  case Nil
  then show ?case by simp
next
  case (Cons x szs)
  let ?u = "align_up t 16"
  have u: "unat t \<le> unat ?u" "unat ?u < unat t + 16" "16 dvd unat ?u" using align_up_bounds [of 16 t] Cons.prems(2) by auto
  have ux: "unat (?u + x) = unat ?u + unat x" using unat_add_no_wrap [of ?u x] u Cons.prems(2) by simp
  note sh = align_up_shift [OF assms(1), of t]
  have cur: "align_up (b + t) 16 = b + ?u" "unat (b + ?u) = unat b + unat ?u" using sh Cons.prems(1) by auto
  have "\<not> SIZE_MAX - ?u < x"
  proof -
    have "unat (SIZE_MAX - ?u) = 2 ^ 64 - 1 - unat ?u"
      using unat_sub [of ?u SIZE_MAX] u Cons.prems(2) by (simp add: word_le_nat_alt)
    then show ?thesis using u Cons.prems(2) by (simp add: word_less_nat_alt)
  qed
  then have bt: "batch_total t (x # szs) = batch_total (?u + x) szs" by (simp add: round16 Let_def)
  have bp: "batch_ptrs (b + t) (x # szs) = (b + ?u) # batch_ptrs (b + (?u + x)) szs" by (simp add: round16 Let_def cur) (simp add: add.assoc)
  have "unat b + unat (?u + x) + sum_list (map unat szs) + 16 * length szs \<le> 2 ^ 63 + 2 ^ 62"
    "unat (?u + x) + sum_list (map unat szs) + 16 * length szs \<le> 2 ^ 62"
    using Cons.prems ux u by simp_all
  from Cons.IH [OF this] obtain T where T: "batch_total (?u + x) szs = Some T" "unat (?u + x) \<le> unat T" "unat T \<le> 2 ^ 62"
    "length (batch_ptrs (b + (?u + x)) szs) = length szs"
    "sorted_wrt (\<lambda>r r'. rng r \<inter> rng r' = {}) (zip (batch_ptrs (b + (?u + x)) szs) szs)"
    "\<And>r. r \<in> set (zip (batch_ptrs (b + (?u + x)) szs) szs) \<Longrightarrow> 16 dvd unat (fst r) \<and>
       rng r \<subseteq> {unat b + unat (?u + x) ..< unat b + unat T}" by blast
  have new: "range_of (b + ?u) x = {unat b + unat ?u ..< unat b + unat ?u + unat x}" by (simp add: range_of_def cur)
  have "range_of (b + ?u) x \<inter> rng r = {}" if "r \<in> set (zip (batch_ptrs (b + (?u + x)) szs) szs)" for r
    using T(6) [OF that] new ux by fastforce
  moreover have "rng r \<subseteq> {unat b + unat t ..< unat b + unat T}" if "r \<in> set (zip (batch_ptrs (b + (?u + x)) szs) szs)" for r
    using T(6) [OF that] ux u by fastforce
  moreover have "range_of (b + ?u) x \<subseteq> {unat b + unat t ..< unat b + unat T}" using new ux u T(2) by auto
  moreover have "16 dvd unat (b + ?u)" unfolding cur using assms(1) u(3) by (rule dvd_add)
  ultimately show ?case unfolding bt bp using T ux u by (intro exI [of _ T]) auto
qed

lemma batch_served:
  assumes ok: "client_ok w m a L S ps i" and h: "honest al m" and szs: "sum_list (map unat szs) + 16 * length szs \<le> 2 ^ 62"
  shows "arena_alloc_batch al m a szs = Some (None, m, a) \<or>
    (\<exists>qs m' a' ps' i'. arena_alloc_batch al m a szs = Some (Some qs, m', a') \<and> client_ok w m' a' (zip qs szs @ L) S ps' i' \<and>
       length qs = length szs \<and> (\<forall>q\<in>set qs. 16 dvd unat q) \<and> (\<forall>r\<in>set L. region_bytes m' r = region_bytes m r))"
proof -
  obtain T where T: "batch_total 0 szs = Some T" "unat T \<le> 2 ^ 62" using batch_spec [of 0 0 szs] szs by auto
  have "served w m a L S T 16 (arena_alloc al m a T)"
    using alloc_served [OF ok h T(2)] by (simp add: arena_alloc_def ARENA_DEFAULT_ALIGN_def)
  then consider "arena_alloc al m a T = Some (None, m, a)"
    | b m' a' ps' i' where "arena_alloc al m a T = Some (Some b, m', a')" "unat (16 :: size_t) dvd unat b"
      "client_ok w m' a' ((b, T) # L) S ps' i'" "\<forall>r\<in>set L. region_bytes m' r = region_bytes m r"
    unfolding served_def by blast
  then show ?thesis
  proof cases
    case 1
    then show ?thesis using T(1) by (simp add: arena_alloc_batch_def)
  next
    case 2
    have own: "rng r \<inter> range_of b T = {}" "rng r \<subseteq> taken m' a' ps' i'" "range_of b T \<subseteq> taken m' a' ps' i'" if "r \<in> set L" for r
      using 2(3) that unfolding client_ok_def owned_def by auto
    have bT: "range_of b T \<subseteq> taken m' a' ps' i'" and inv: "arena_inv m' a' ps' i'"
      using 2(3) unfolding client_ok_def owned_def by auto
    have "unat b \<le> 2 ^ 63"
    proof (cases "T = 0")
      case True
      then show ?thesis using 2(1) by (simp add: arena_alloc_def arena_alloc_align_def)
    next
      case False
      then show ?thesis using backed_region(3) [OF taken_backed [OF inv] bT, of 0] by (simp add: unat_gt_0)
    qed
    then obtain T' where "batch_total 0 szs = Some T'" "length (batch_ptrs b szs) = length szs"
      "sorted_wrt (\<lambda>r r'. rng r \<inter> rng r' = {}) (zip (batch_ptrs b szs) szs)"
      "\<forall>r\<in>set (zip (batch_ptrs b szs) szs). 16 dvd unat (fst r) \<and> rng r \<subseteq> {unat b ..< unat b + unat T'}"
      using batch_spec [of b 0 szs] 2(2) szs by auto
    with T(1) have Z: "length (batch_ptrs b szs) = length szs"
      "sorted_wrt (\<lambda>r r'. rng r \<inter> rng r' = {}) (zip (batch_ptrs b szs) szs)"
      "\<And>r. r \<in> set (zip (batch_ptrs b szs) szs) \<Longrightarrow> 16 dvd unat (fst r) \<and> rng r \<subseteq> range_of b T"
      by (auto simp: range_of_def)
    have "client_ok w m' a' (zip (batch_ptrs b szs) szs @ L) S ps' i'"
    proof -
      have "rng r \<inter> rng r' = {}" "rng r \<subseteq> taken m' a' ps' i'" if "r \<in> set (zip (batch_ptrs b szs) szs)" "r' \<in> set L" for r r'
        using Z(3) [OF that(1)] own(1) [OF that(2)] bT by blast+
      moreover have "rng r \<subseteq> taken m' a' ps' i'" if "r \<in> set (zip (batch_ptrs b szs) szs)" for r
        using Z(3) [OF that] bT by blast
      ultimately show ?thesis
        using 2(3) Z(2) own(2) unfolding client_ok_def owned_def by (simp add: sorted_wrt_append ball_Un)
    qed
    moreover have "16 dvd unat q" if q: "q \<in> set (batch_ptrs b szs)" for q
    proof -
      obtain j where "j < length szs" "q = batch_ptrs b szs ! j" using q unfolding in_set_conv_nth Z(1) by blast
      then have "(q, szs ! j) \<in> set (zip (batch_ptrs b szs) szs)" using nth_mem [of j "zip (batch_ptrs b szs) szs"] Z(1) by simp
      then show ?thesis using Z(3) by fastforce
    qed
    ultimately show ?thesis using 2(1,4) T(1) Z(1) by (auto simp: arena_alloc_batch_def)
  qed
qed

section \<open>All requests\<close>

lemma served_receive:
  assumes "served (sy_rewound s) (sy_mem s) (sy_arena s) (sy_live s) (sy_saved s) sz g res" "arena_sys_inv s"
  shows "\<exists>t. receive s (sy_live s) sz res = Some t \<and> arena_sys_inv t \<and> set (sy_live s) \<subseteq> set (sy_live t) \<and>
    (\<forall>r\<in>set (sy_live s). region_bytes (sy_mem t) r = region_bytes (sy_mem s) r)"
  using assms unfolding served_def receive_def arena_sys_inv_def by fastforce

lemma resized_receive:
  assumes "resized (sy_rewound s) (sy_mem s) (sy_arena s) (sy_live s) (sy_saved s) j n res" "arena_sys_inv s"
  shows "\<exists>t. receive (if n = 0 then s\<lparr>sy_live := without j (sy_live s)\<rparr> else s) (without j (sy_live s)) n res = Some t \<and>
    arena_sys_inv t \<and> (\<forall>r\<in>set (without j (sy_live s)). region_bytes (sy_mem t) r = region_bytes (sy_mem s) r)"
  using assms set_without [of j "sy_live s"] unfolding resized_def receive_def arena_sys_inv_def by (auto split: if_splits) blast+

lemma saved_ok_nth:
  "saved_ok m a ps i S \<Longrightarrow> k < length S \<Longrightarrow> \<exists>l\<le>i. saved_ok m a ps l (drop k S) \<and> cp_block (fst (S ! k)) = Some (ps ! l) \<and>
     cp_end (fst (S ! k)) = ab_end (blk m a (ps ! l)) \<and> ab_base (blk m a (ps ! l)) \<le> cp_curr (fst (S ! k)) \<and>
     cp_curr (fst (S ! k)) \<le> cp_end (fst (S ! k)) \<and> owned m a ps l (cp_curr (fst (S ! k))) (snd (S ! k))"
proof (induction k arbitrary: i S)
  case 0
  then obtain cp L S' where S: "S = (cp, L) # S'" by (cases S) auto
  then obtain l where "l \<le> i" "cp_block cp = Some (ps ! l)" "cp_end cp = ab_end (blk m a (ps ! l))"
    "ab_base (blk m a (ps ! l)) \<le> cp_curr cp" "cp_curr cp \<le> cp_end cp" "owned m a ps l (cp_curr cp) L" "saved_ok m a ps l S'"
    using "0.prems"(1) by auto
  then show ?case unfolding S by (intro exI [of _ l]) auto
next
  case (Suc k)
  then obtain cp L S' where S: "S = (cp, L) # S'" by (cases S) auto
  then obtain l where l: "l \<le> i" "saved_ok m a ps l S'" using Suc.prems(1) by auto
  then show ?case using Suc.IH [OF l(2)] Suc.prems(2) S by (auto intro: order.trans)
qed

lemma restore_client:
  assumes ok: "client_ok w m a L S ps i" and k: "k < length S"
  shows "\<exists>l. client_ok True m (arena_restore a (fst (S ! k))) (snd (S ! k)) (drop k S) ps l"
proof -
  have inv: "arena_inv m a ps i" and sv: "saved_ok m a ps i S" using ok by (auto simp: client_ok_def)
  obtain l where l: "l \<le> i" "saved_ok m a ps l (drop k S)" "cp_block (fst (S ! k)) = Some (ps ! l)"
    "cp_end (fst (S ! k)) = ab_end (blk m a (ps ! l))" "ab_base (blk m a (ps ! l)) \<le> cp_curr (fst (S ! k))"
    "cp_curr (fst (S ! k)) \<le> cp_end (fst (S ! k))" "owned m a ps l (cp_curr (fst (S ! k))) (snd (S ! k))"
    using saved_ok_nth [OF sv k] by blast
  have eq: "arena_restore a (fst (S ! k)) = a\<lparr>ar_current_block := Some (ps ! l), ar_curr := cp_curr (fst (S ! k)),
    ar_end := ab_end (blk m a (ps ! l))\<rparr>"
    by (simp add: arena_restore_def l)
  have "arena_inv m (arena_restore a (fst (S ! k))) ps l"
    unfolding eq using l arena_invD(4) [OF inv] by (intro arena_inv_move [OF inv]) auto
  moreover have b: "block_at m (arena_restore a (fst (S ! k))) = block_at m a" by (simp add: arena_restore_def)
  ultimately show ?thesis
    using l(2,7) saved_ok_same [OF b] same_blocks(6) [OF b] unfolding client_ok_def owned_def
    by (auto simp: arena_restore_def)
qed

lemma reset_client:
  assumes "client_ok w m a L S ps i"
  shows "\<exists>a'. arena_reset m a = Some a' \<and> client_ok True m a' [] [] ps 0"
proof -
  have inv: "arena_inv m a ps i" using assms by (simp add: client_ok_def)
  note D = arena_invD [OF inv]
  have p: "ps \<noteq> []" "ps ! 0 = First_Block" using D(1) by (auto simp: linked_def)
  then have ok: "block_ok m a (ps ! 0)" by (intro D(2) nth_mem) simp
  then have b: "block_at m a First_Block = Some (blk m a (ps ! 0))" "ab_base (blk m a (ps ! 0)) \<le> ab_end (blk m a (ps ! 0))"
    using p by (auto simp: block_ok_def blk_def)
  have "arena_inv m (a\<lparr>ar_current_block := Some (ps ! 0), ar_curr := ab_base (blk m a (ps ! 0)), ar_end := ab_end (blk m a (ps ! 0))\<rparr>) ps 0"
    using p(1) b(2) by (intro arena_inv_move [OF inv]) auto
  then show ?thesis using b(1) D(9) p(2) by (simp add: arena_reset_def client_ok_def owned_def)
qed

lemma save_client:
  "client_ok w m a L S ps i \<Longrightarrow> client_ok w m a L ((arena_save a, L) # S) ps i"
  by (auto simp: client_ok_def arena_save_def arena_inv_def)

text \<open>A new arena on a buffer.\<close>

lemma init_client:
  assumes "6 \<le> k" "k \<le> 20" "unat buf + unat n \<le> 2 ^ 63" "backed m (range_of buf n)"
    and a: "a = arena_init (2 ^ k) buf n" "st \<or> mm_heap m buf \<noteq> None \<and> 0 < unat n" and e: "mm_slabs m = Map.empty"
    and a': "a' = a\<lparr>ar_first_block := (ar_first_block a)\<lparr>ab_is_static := st\<rparr>, ar_heap_allocated := h, ar_tls_origin := t\<rparr>"
  shows "client_ok w m a' [] [] [First_Block] 0"
proof -
  have n: "unat (buf + n) = unat buf + unat n" using unat_add_no_wrap [of buf n] assms(3) by simp
  have b: "block_at m a' First_Block = Some \<lparr>ab_next = None, ab_base = buf, ab_end = buf + n, ab_is_static = st\<rparr>"
    by (simp add: block_at_def a' a arena_init_def)
  then have f: "blk m a' First_Block = \<lparr>ab_next = None, ab_base = buf, ab_end = buf + n, ab_is_static = st\<rparr>"
    by (simp add: blk_def)
  then have "extent m a' First_Block = range_of buf n" by (simp add: extent_def range_of_def n)
  then show ?thesis
    using b f n assms(1-4) a(2) unfolding client_ok_def arena_inv_def owned_def block_ok_def linked_def apart_def first_ok_def
    by (auto simp: a' a(1) arena_init_def word_le_nat_alt word_less_nat_alt tight_def e)
qed

lemma struct_alloc:
  assumes "honest al0 m" "aligned_alloc_xp al0 64 sizeof_Arena m = Some (self, n, m1)"
  shows "al0 64 128 = Some self \<and>
    m1\<lparr>mm_cells := (\<lambda>x. if unat self \<le> unat x \<and> unat x < unat self + unat n then None else mm_cells m1 x)\<rparr> = with_struct self m"
proof -
  have n: "align_up sizeof_Arena 64 = 128" by (simp add: align_up_def sizeof_Arena_def)
  have al: "al0 64 128 = Some self" "n = 128" using assms(2) by (auto simp: aligned_alloc_xp_def Let_def n split: option.splits if_splits)
  have "mm_cells m x = None" if "unat self \<le> unat x" "unat x < unat self + 128" for x
  proof -
    have "unat x \<in> range_of self 128" using that by (simp add: range_of_def)
    moreover have "\<forall>y\<in>range_of self 128. mm_cells m (of_nat y) = None" using assms(1) al(1) unfolding honest_def by blast
    ultimately have "mm_cells m (of_nat (unat x)) = None" by blast
    then show ?thesis by simp
  qed
  then show ?thesis
    using al assms(2) by (auto simp: aligned_alloc_xp_def Let_def n with_struct_def fun_eq_iff split: option.splits if_splits)
qed

text \<open>The two outcomes of a successful \<^verbatim>\<open>arena_create\<close>.\<close>

lemma create_cases:
  assumes "honest al0 m" "arena_create al0 al page sb g m = Some (Some (self, a), m')"
  obtains (tls) "al0 64 128 = Some self" "a = (arena_init page sb STATIC_BUFFER_SIZE)\<lparr>ar_tls_origin := True, ar_heap_allocated := True\<rparr>"
      "m' = (with_struct self m)\<lparr>mm_tls := True\<rparr>"
  | (own) buf n0 where "al0 64 128 = Some self" "n0 = align_up (if g > 0 then g else ARENA_MIN_BLOCK_SIZE) page" "al 64 (align_up n0 64) = Some buf"
      "a = (arena_init page buf n0)\<lparr>ar_first_block := (ar_first_block (arena_init page buf n0))\<lparr>ab_is_static := False\<rparr>, ar_heap_allocated := True\<rparr>"
      "m' = (with_struct self m)\<lparr>mm_heap := (mm_heap (with_struct self m))(buf \<mapsto> align_up n0 64), mm_cells := (\<lambda>x. if unat buf \<le> unat x \<and>
         unat x < unat buf + unat (align_up n0 64) then Some None else mm_cells (with_struct self m) x)\<rparr>"
proof -
  obtain p n m1 where p: "aligned_alloc_xp al0 64 sizeof_Arena m = Some (p, n, m1)"
    using assms(2) by (auto simp: arena_create_def split: option.splits)
  note st = struct_alloc [OF assms(1) p]
  define M n0 where "M = with_struct p m" and "n0 = align_up (if g > 0 then g else ARENA_MIN_BLOCK_SIZE) page"
  note res = assms(2) [unfolded arena_create_def p option.case prod.case Let_def st [THEN conjunct2], folded M_def n0_def]
  show thesis
  proof (cases "\<not> mm_tls M \<and> g \<le> STATIC_BUFFER_SIZE")
    case True
    then show thesis using res st by (intro tls) (auto simp: M_def)
  next
    case False
    with res obtain buf k M' where buf: "aligned_alloc_xp al 64 n0 M = Some (buf, k, M')" "p = self" "m' = M'"
      "a = (arena_init page buf n0)\<lparr>ar_first_block := (ar_first_block (arena_init page buf n0))\<lparr>ab_is_static := False\<rparr>, ar_heap_allocated := True\<rparr>"
      by (auto simp: bind_eq_Some_conv split: option.splits)
    show thesis using buf st n0_def
      by (intro own [of n0 buf]) (auto simp: aligned_alloc_xp_def Let_def M_def split: option.splits if_splits)
  qed
qed

lemma first_size:
  assumes "6 \<le> k" "k \<le> 20" "unat g \<le> 2 ^ 62" "n0 = align_up (if g > 0 then g else ARENA_MIN_BLOCK_SIZE) (2 ^ k)"
  shows "0 < unat n0 \<and> unat n0 \<le> unat (align_up n0 64)"
proof -
  have page: "alignment_ok (2 ^ k)" "unat (2 ^ k :: size_t) \<le> 2 ^ 20"
    using assms(1,2) power_increasing [of k 20 "2 :: nat"] by (auto simp: unat_two_power intro: alignment_ok_power)
  have "0 < unat (if g > 0 then g else ARENA_MIN_BLOCK_SIZE)" "unat (if g > 0 then g else ARENA_MIN_BLOCK_SIZE) \<le> 2 ^ 62"
    using assms(3) by (auto simp: ARENA_MIN_BLOCK_SIZE_def word_less_nat_alt)
  then have n0: "0 < unat n0" "unat n0 + 64 \<le> 2 ^ 64"
    using align_up_bounds(1,2) [OF page(1), of "if g > 0 then g else ARENA_MIN_BLOCK_SIZE"] page(2) unfolding assms(4) by auto
  with align_up_bounds(1) [of 64 n0] show ?thesis by simp
qed

lemma create_client:
  assumes k: "6 \<le> k" "k \<le> 20" and h: "honest al0 m" "honest al (with_struct self m)" and sb: "backed m (range_of sb STATIC_BUFFER_SIZE)"
      "unat sb + unat STATIC_BUFFER_SIZE \<le> 2 ^ 63" and g: "unat g \<le> 2 ^ 62"
    and c: "arena_create al0 al (2 ^ k) sb g m = Some (Some (self, a), m')" and sl: "mm_slabs m' = Map.empty"
  shows "client_ok w m' a [] [] [First_Block] 0"
  using h(1) c
proof (cases rule: create_cases)
  case tls
  then show ?thesis
    using sb sl by (intro init_client [where k = k and buf = sb and n = STATIC_BUFFER_SIZE and st = True and h = True and t = True, OF k _ _ refl])
      (simp_all add: arena_init_def backed_def with_struct_def)
next
  case (own buf n0)
  have n0: "0 < unat n0" "unat n0 \<le> unat (align_up n0 64)" using first_size [OF k g own(2)] by simp_all
  have "unat buf + unat (align_up n0 64) \<le> 2 ^ 63" using h(2) own(3) by (auto simp: honest_def)
  then have "unat buf + unat n0 \<le> 2 ^ 63" "backed m' (range_of buf n0)"
    using n0(2) by (auto simp: backed_def range_of_def own(5) unat_address)
  moreover have "mm_heap m' buf \<noteq> None" using own(5) by simp
  ultimately show ?thesis
    using n0(1) own(4) sl
    by (intro init_client [where k = k and buf = buf and n = n0 and st = False and h = True and t = False, OF k _ _ refl])
      (simp_all add: arena_init_def)
qed

lemma start_inv: "arena_start s \<Longrightarrow> arena_sys_inv s"
  unfolding arena_start_def arena_sys_inv_def
proof (elim conjE exE disjE)
  fix k page buf n
  assume "mm_slabs (sy_mem s) = Map.empty" "sy_live s = []" "sy_saved s = []" "6 \<le> k" "k \<le> 20" "page = 2 ^ k" "unat buf + unat n \<le> 2 ^ 63"
    "backed (sy_mem s) (range_of buf n)" "sy_arena s = arena_init page buf n"
  then show "\<exists>ps i. client_ok (sy_rewound s) (sy_mem s) (sy_arena s) (sy_live s) (sy_saved s) ps i"
    using init_client [where k = k and buf = buf and n = n and m = "sy_mem s" and st = True and a' = "sy_arena s" and h = False and t = False, OF _ _ _ _ refl]
    by (auto simp: arena_init_def)
next
  fix k page al0 al m g sb
  assume "mm_slabs (sy_mem s) = Map.empty" "sy_live s = []" "sy_saved s = []" "6 \<le> k" "k \<le> 20" "page = 2 ^ k" "honest al0 m"
    "honest al (with_struct (sy_self s) m)"
    "backed m (range_of sb STATIC_BUFFER_SIZE)" "unat sb + unat STATIC_BUFFER_SIZE \<le> 2 ^ 63" "unat g \<le> 2 ^ 62"
    "arena_create al0 al page sb g m = Some (Some (sy_self s, sy_arena s), sy_mem s)"
  then show "\<exists>ps i. client_ok (sy_rewound s) (sy_mem s) (sy_arena s) (sy_live s) (sy_saved s) ps i"
    using create_client [of k al0 m al "sy_self s" sb g "sy_arena s" "sy_mem s"] by metis
qed

text \<open>The regions whose contents a request leaves alone.\<close>

fun untouched :: "arena_request \<Rightarrow> arena_sys \<Rightarrow> region list" where
  "untouched (Resize j n g) s = without j (sy_live s)"
| "untouched (Fill j xs) s = without j (sy_live s)"
| "untouched _ s = sy_live s"

definition progress :: "system_alloc \<Rightarrow> arena_request \<Rightarrow> arena_sys \<Rightarrow> bool" where
  "progress al q s \<longleftrightarrow> (\<exists>t. arena_run al q s = Some t \<and> arena_sys_inv t \<and>
     (\<forall>r\<in>set (untouched q s). region_bytes (sy_mem t) r = region_bytes (sy_mem s) r))"

lemma served_progress:
  assumes "arena_run al q s = receive s (sy_live s) sz res" "untouched q s = sy_live s" "arena_sys_inv s"
    "served (sy_rewound s) (sy_mem s) (sy_arena s) (sy_live s) (sy_saved s) sz g res"
  shows "progress al q s"
  using served_receive [OF assms(4,3)] assms(1,2) by (auto simp: progress_def)

lemma run_progress:
  assumes inv: "arena_sys_inv s" and h: "honest al (sy_mem s)" and q: "request_legal q s"
  shows "progress al q s"
proof -
  obtain ps i where ok: "client_ok (sy_rewound s) (sy_mem s) (sy_arena s) (sy_live s) (sy_saved s) ps i"
    using inv by (auto simp: arena_sys_inv_def)
  note alloc = alloc_served [OF ok h]
  show ?thesis
  proof (cases q)
    case (Alloc sz g)
    then show ?thesis using q alloc [of sz g] by (intro served_progress [OF _ _ inv]) auto
  next
    case (Alloc_Unaligned sz)
    then show ?thesis using q alloc [of sz 1] by (intro served_progress [OF _ _ inv]) (auto simp: arena_alloc_unaligned_eq)
  next
    case (Alloc_Zero sz)
    then show ?thesis
      using q filled_served [OF alloc [of sz 16], of "replicate (unat sz) (Some 0)"]
      by (intro served_progress [OF _ _ inv]) (auto simp: arena_alloc_zero_def ARENA_DEFAULT_ALIGN_def)
  next
    case (Alloc_Array es g n)
    show ?thesis
    proof (cases "n \<noteq> 0 \<and> es > SIZE_MAX div n")
      case True
      then have "served (sy_rewound s) (sy_mem s) (sy_arena s) (sy_live s) (sy_saved s) (es * n) g
          (arena_alloc_array_zero al (sy_mem s) (sy_arena s) es g n)"
        by (simp add: arena_alloc_array_zero_def served_def)
      then show ?thesis using Alloc_Array by (intro served_progress [OF _ _ inv]) auto
    next
      case False
      then have "unat es * unat n < 2 ^ 64" using le_SIZE_MAX_div [of n es] by (cases "n = 0") (auto simp: not_less)
      then have "unat (es * n) \<le> 2 ^ 62" using unat_mult_no_wrap q Alloc_Array by auto
      then show ?thesis
        using q False Alloc_Array filled_served [OF alloc [of "es * n" g], of "replicate (unat (es * n)) (Some 0)"]
        by (intro served_progress [OF _ _ inv]) (auto simp: arena_alloc_array_zero_def Let_def)
    qed
  next
    case (Alloc_Batch szs)
    then show ?thesis
      using batch_served [OF ok h, of szs] q inv unfolding progress_def arena_sys_inv_def by fastforce
  next
    case (Strdup str)
    have "unat (of_nat (length str) + 1 :: size_t) = length str + 1"
      using q Strdup unat_offset [of 1 "length str"] by (simp add: add.commute)
    then show ?thesis
      using q Strdup filled_served [OF alloc [of "of_nat (length str) + 1" 1], of "map Some (str @ [0])"]
      by (intro served_progress [OF _ _ inv]) (auto simp: arena_strdup_def arena_alloc_unaligned_eq)
  next
    case (Strdupn str n)
    let ?res = "arena_alloc_align al (sy_mem s) (sy_arena s) (n + 1) 1" and ?xs = "map Some (take (unat n) str @ [0 :: u8])"
    have n: "unat (n + 1) = unat n + 1" using q Strdupn unat_offset [of n 1] by simp
    then have sv: "served (sy_rewound s) (sy_mem s) (sy_arena s) (sy_live s) (sy_saved s) (n + 1) 1 (filled ?res ?xs)"
      using q Strdupn alloc [of "n + 1" 1] by (intro filled_served) auto
    have "arena_strdupn al (sy_mem s) (sy_arena s) str n = filled ?res ?xs"
      using q Strdupn by (cases ?res) (auto simp: arena_strdupn_def arena_alloc_unaligned_eq filled_def)
    then show ?thesis using sv Strdupn by (intro served_progress [OF _ _ inv]) auto
  next
    case (Resize j n g)
    obtain p k where pk: "sy_live s ! j = (p, k)" by fastforce
    have "resized (sy_rewound s) (sy_mem s) (sy_arena s) (sy_live s) (sy_saved s) j n (arena_realloc al (sy_mem s) (sy_arena s) (Some p) k n g)"
      using q Resize by (intro realloc_resized [OF ok h _ pk]) auto
    from resized_receive [OF this inv] show ?thesis using Resize pk by (auto simp: progress_def Let_def)
  next
    case (Fill j xs)
    then obtain c where c: "store_cells (mm_cells (sy_mem s)) (fst (sy_live s ! j)) (map Some xs) = Some c"
      "client_ok (sy_rewound s) ((sy_mem s)\<lparr>mm_cells := c\<rparr>) (sy_arena s) (sy_live s) (sy_saved s) ps i"
      "\<forall>r'\<in>set (sy_live s). rng r' \<inter> rng (sy_live s ! j) = {} \<longrightarrow>
         region_bytes ((sy_mem s)\<lparr>mm_cells := c\<rparr>) r' = region_bytes (sy_mem s) r'"
      using store_client [OF ok, of "sy_live s ! j" "map Some xs"] q by auto
    have "\<forall>r\<in>set (without j (sy_live s)). region_bytes ((sy_mem s)\<lparr>mm_cells := c\<rparr>) r = region_bytes (sy_mem s) r"
      using c(3) client_ok_without(2) [OF ok, of j] q Fill set_without [of j "sy_live s"] by auto
    then show ?thesis using Fill c(1,2) by (auto simp: progress_def arena_sys_inv_def)
  next
    case Save
    then show ?thesis using save_client [OF ok] by (auto simp: progress_def arena_sys_inv_def)
  next
    case (Restore k)
    then show ?thesis using restore_client [OF ok, of k] q by (auto simp: progress_def arena_sys_inv_def)
  next
    case Reset
    then show ?thesis using reset_client [OF ok] by (fastforce simp: progress_def arena_sys_inv_def)
  qed
qed

interpretation asys: invariant_system arena_start arena_step arena_sys_inv
proof unfold_locales
  show "arena_sys_inv s" if "arena_start s" for s using that by (rule start_inv)
  show "\<exists>t. r = Some t \<and> arena_sys_inv t" if "arena_sys_inv s" "arena_step s r" for s r
    using that(2) run_progress [OF that(1)] unfolding progress_def by (elim arena_stepE) meson
qed

end
