(* ===== verification/Arena_Theorems.thy ===== *)
theory Arena_Theorems
  imports Arena_Client
begin

text \<open>
  What the arena guarantees its clients, the books of what it owns in the heap of the system, what
  destroying it frees, and where its size arithmetic is not checked.
\<close>

section \<open>Destroying\<close>

text \<open>A list of slabs that hang on each other, the last one without successor.\<close>

fun slab_chain :: "memory \<Rightarrow> block_ptr option \<Rightarrow> u64 list \<Rightarrow> bool" where
  "slab_chain m nxt [] \<longleftrightarrow> nxt = None"
| "slab_chain m nxt (q # qs) \<longleftrightarrow> nxt = Some (Slab q) \<and> mm_heap m q \<noteq> None \<and>
     (\<exists>b. mm_slabs m q = Some b \<and> slab_chain m (ab_next b) qs)"

lemma aligned_free_effect:
  assumes "mm_heap m q \<noteq> None"
  shows "\<exists>m'. aligned_free_xp q m = Some m' \<and> mm_heap m' = (mm_heap m)(q := None) \<and> mm_slabs m' = (mm_slabs m)(q := None) \<and>
    mm_tls m' = mm_tls m"
  using assms by (auto simp: aligned_free_xp_def)

lemma slab_chain_free:
  assumes "mm_heap m' = (mm_heap m)(p := None)" "mm_slabs m' = (mm_slabs m)(p := None)" "p \<notin> set qs"
  shows "slab_chain m nxt qs \<Longrightarrow> slab_chain m' nxt qs"
  using assms(3) by (induction qs arbitrary: nxt) (auto simp: assms(1,2))

lemma destroy_chain_effect:
  assumes "slab_chain m nxt qs" "distinct qs"
  shows "\<exists>m'. destroy_chain nxt m = Some m' \<and> mm_heap m' = mm_heap m |` (- set qs) \<and> mm_slabs m' = mm_slabs m |` (- set qs) \<and>
    mm_tls m' = mm_tls m"
  using assms
proof (induction qs arbitrary: nxt m)
  case Nil
  then show ?case by (auto simp: destroy_chain.simps)
next
  case (Cons q qs)
  then obtain b where b: "nxt = Some (Slab q)" "mm_heap m q \<noteq> None" "mm_slabs m q = Some b" "slab_chain m (ab_next b) qs" by auto
  obtain m1 where m1: "aligned_free_xp q m = Some m1" "mm_heap m1 = (mm_heap m)(q := None)" "mm_slabs m1 = (mm_slabs m)(q := None)"
    "mm_tls m1 = mm_tls m"
    using aligned_free_effect [OF b(2)] by blast
  have "slab_chain m1 (ab_next b) qs" using slab_chain_free [OF m1(2,3) _ b(4)] Cons.prems(2) by simp
  from Cons.IH [OF this] obtain m' where m': "destroy_chain (ab_next b) m1 = Some m'" "mm_heap m' = mm_heap m1 |` (- set qs)"
    "mm_slabs m' = mm_slabs m1 |` (- set qs)" "mm_tls m' = mm_tls m1" using Cons.prems(2) by auto
  have "mm_heap m' = mm_heap m |` (- set (q # qs))" "mm_slabs m' = mm_slabs m |` (- set (q # qs))"
    unfolding m'(2,3) m1(2,3) by (auto simp: restrict_map_def)
  then show ?case using b m1(1,4) m'(1,4) by (auto simp: destroy_chain.simps [of "Some _"])
qed

lemma chain_slabs:
  assumes inv: "arena_inv m a ps i"
  shows "\<exists>qs. ps = First_Block # map Slab qs \<and> distinct qs \<and> slab_chain m (ab_next (ar_first_block a)) qs"
proof -
  note D = arena_invD [OF inv]
  have p: "ps \<noteq> []" "ps ! 0 = First_Block" using D(1) by (auto simp: linked_def)
  then obtain rs where rs: "ps = First_Block # rs" by (cases ps) auto
  have slab: "\<exists>q. r = Slab q" if "r \<in> set rs" for r
    using D(10) that rs by (cases r) auto
  define qs where "qs = map (\<lambda>r. case r of Slab q \<Rightarrow> q | First_Block \<Rightarrow> 0) rs"
  have "map Slab (map (\<lambda>r. case r of Slab q \<Rightarrow> q | First_Block \<Rightarrow> 0) xs) = xs" if "\<And>r. r \<in> set xs \<Longrightarrow> \<exists>q. r = Slab q" for xs
    using that by (induction xs) force+
  then have ms: "rs = map Slab qs" using slab unfolding qs_def by metis
  have nx: "ab_next (blk m a (ps ! j)) = (if Suc j < length ps then Some (ps ! Suc j) else None)" if "j < length ps" for j
    using D(1) that by (simp add: linked_def)
  have "slab_chain m (ab_next (blk m a (ps ! (length qs - k)))) (drop (length qs - k) qs)" if "k \<le> length qs" for k
    using that
  proof (induction k)
    case 0
    then show ?case using nx [of "length qs"] rs ms by simp
  next
    case (Suc k)
    let ?j = "length qs - Suc k"
    have j: "?j < length qs" "Suc ?j = length qs - k" using Suc.prems by auto
    have pj: "ps ! Suc ?j = Slab (qs ! ?j)" using rs ms j by simp
    then have ok: "block_ok m a (Slab (qs ! ?j))" using D(2) [OF nth_mem, of "Suc ?j"] rs ms j by simp
    then obtain b where b: "mm_slabs m (qs ! ?j) = Some b" "mm_heap m (qs ! ?j) \<noteq> None" "blk m a (ps ! Suc ?j) = b"
      unfolding pj by (auto simp: block_ok_def block_at_def blk_def)
    have "slab_chain m (ab_next b) (drop (Suc ?j) qs)" using Suc.IH Suc.prems b(3) j(2) by simp
    moreover have "drop ?j qs = qs ! ?j # drop (Suc ?j) qs" using j(1) by (simp add: Cons_nth_drop_Suc)
    moreover have "ab_next (blk m a (ps ! ?j)) = Some (Slab (qs ! ?j))" using nx [of ?j] rs ms j(1) pj by simp
    ultimately show ?case using b by simp
  qed
  from this [of "length qs"] have "slab_chain m (ab_next (blk m a First_Block)) qs" using p by simp
  moreover have "distinct qs" using D(10) unfolding rs ms by (simp add: distinct_map)
  ultimately show ?thesis using rs ms by (auto simp: blk_def block_at_def)
qed

lemma first_freed:
  assumes inv: "arena_inv m a ps i" and f: "f = ar_first_block a"
    and qs: "ps = First_Block # map Slab qs" "distinct qs" "slab_chain m (ab_next f) qs"
  shows "if ab_is_static f then slab_chain (m\<lparr>mm_tls := False\<rparr>) (ab_next f) qs
    else \<exists>m1. aligned_free_xp (ab_base f) m = Some m1 \<and> slab_chain m1 (ab_next f) qs \<and>
      mm_heap m1 = (mm_heap m)(ab_base f := None) \<and> mm_slabs m1 = (mm_slabs m)(ab_base f := None)"
proof (cases "ab_is_static f")
  case True
  have "slab_chain (m\<lparr>mm_tls := False\<rparr>) nxt rs = slab_chain m nxt rs" for nxt rs by (induction rs arbitrary: nxt) auto
  then show ?thesis using True qs(3) by simp
next
  case False
  note D = arena_invD [OF inv]
  have heap: "mm_heap m (ab_base f) \<noteq> None" "ab_base f < ab_end f" using inv False f by (auto simp: arena_inv_def first_ok_def)
  have "ab_base f \<notin> set qs"
  proof
    assume q: "ab_base f \<in> set qs"
    then have ok: "block_ok m a (Slab (ab_base f))" using D(2) qs(1) by simp
    have "unat (ab_base f) \<in> span m a (Slab (ab_base f))" by (rule slab_in_span [OF ok])
    moreover have "unat (ab_base f) \<in> span m a First_Block"
      using heap(2) f by (simp add: span_def extent_def blk_def block_at_def word_less_nat_alt)
    ultimately show False using D(3) q qs(1) unfolding apart_def by fastforce
  qed
  moreover obtain m1 where m1: "aligned_free_xp (ab_base f) m = Some m1" "mm_heap m1 = (mm_heap m)(ab_base f := None)"
    "mm_slabs m1 = (mm_slabs m)(ab_base f := None)" using aligned_free_effect [OF heap(1)] by blast
  ultimately show ?thesis using slab_chain_free [OF m1(2,3) _ qs(3)] False by simp
qed

lemma arena_destroy_effect:
  assumes inv: "arena_inv m a ps i"
    and self: "ar_heap_allocated a \<longrightarrow> mm_heap m self \<noteq> None \<and> Slab self \<notin> set ps \<and> (ab_is_static f \<or> ab_base f \<noteq> self)"
    and f: "f = ar_first_block a"
  shows "\<exists>m'. arena_destroy m self a = Some m' \<and> (ab_is_static f \<and> ar_tls_origin a \<longrightarrow> \<not> mm_tls m') \<and>
    (\<forall>q. if Slab q \<in> set ps \<or> \<not> ab_is_static f \<and> q = ab_base f \<or> ar_heap_allocated a \<and> q = self
         then mm_slabs m' q = None \<and> mm_heap m' q = None
         else mm_slabs m' q = mm_slabs m q \<and> mm_heap m' q = mm_heap m q)"
proof -
  note D = arena_invD [OF inv]
  obtain qs where qs: "ps = First_Block # map Slab qs" "distinct qs" "slab_chain m (ab_next f) qs"
    using chain_slabs [OF inv] f by blast
  have set: "Slab q \<in> set ps \<longleftrightarrow> q \<in> set qs" for q unfolding qs(1) by auto
  have "block_at m a First_Block = Some f" "ar_head a = Some First_Block" using D(9) f by (simp_all add: block_at_def)
  define m0 where "m0 = (if ab_is_static f then if ar_tls_origin a then m\<lparr>mm_tls := False\<rparr> else m
    else the (aligned_free_xp (ab_base f) m))"
  have m0: "(if ab_is_static f then Some m else aligned_free_xp (ab_base f) m) \<bind>
      (\<lambda>m. Some (if ab_is_static f \<and> ar_tls_origin a then m\<lparr>mm_tls := False\<rparr> else m)) = Some m0"
    "slab_chain m0 (ab_next f) qs" "ab_is_static f \<and> ar_tls_origin a \<longrightarrow> \<not> mm_tls m0"
    "if \<not> ab_is_static f \<and> q = ab_base f then mm_slabs m0 q = None \<and> mm_heap m0 q = None
      else mm_slabs m0 q = mm_slabs m q \<and> mm_heap m0 q = mm_heap m q" for q
    using first_freed [OF inv f qs] qs(3) by (auto simp: m0_def)
  from destroy_chain_effect [OF m0(2) qs(2)] obtain m1 where m1: "destroy_chain (ab_next f) m0 = Some m1"
    "mm_heap m1 = mm_heap m0 |` (- set qs)" "mm_slabs m1 = mm_slabs m0 |` (- set qs)" "mm_tls m1 = mm_tls m0" by blast
  have des: "arena_destroy m self a = (if ar_heap_allocated a then aligned_free_xp self m1 else Some m1)"
    using m0(1) m1(1) D(9) f by (auto simp: arena_destroy_def block_at_def bind_eq_Some_conv split: if_splits)
  show ?thesis
  proof (cases "ar_heap_allocated a")
    case True
    then have "mm_heap m1 self \<noteq> None" using self m0(4) [of self] by (auto simp: m1(2) set restrict_map_def)
    from aligned_free_effect [OF this] obtain m2 where m2: "aligned_free_xp self m1 = Some m2" "mm_heap m2 = (mm_heap m1)(self := None)"
      "mm_slabs m2 = (mm_slabs m1)(self := None)" "mm_tls m2 = mm_tls m1" by blast
    then show ?thesis using True des m0(3,4) m1(4) by (auto simp: set m1(2,3) restrict_map_def split: if_splits)
  next
    case False
    then show ?thesis using des m0(3,4) m1(4) by (auto simp: set m1(2,3) restrict_map_def split: if_splits)
  qed
qed

section \<open>The heap of the system\<close>

text \<open>The blocks that belong to an arena, and the books: what is in the heap beyond them was there before.\<close>

definition owns :: "memory \<Rightarrow> u64 \<Rightarrow> arena \<Rightarrow> u64 \<Rightarrow> bool" where
  "owns m self a q \<longleftrightarrow> mm_slabs m q \<noteq> None \<or> \<not> ab_is_static (ar_first_block a) \<and> q = ab_base (ar_first_block a) \<or>
     ar_heap_allocated a \<and> q = self"

definition accounted :: "(u64 \<rightharpoonup> size_t) \<Rightarrow> memory \<Rightarrow> u64 \<Rightarrow> arena \<Rightarrow> bool" where
  "accounted h0 m self a \<longleftrightarrow> (\<forall>q. mm_heap m q \<noteq> Some 0) \<and>
     (\<forall>q. if owns m self a q then mm_heap m q \<noteq> None \<and> h0 q = None else mm_heap m q = h0 q) \<and>
     (ar_heap_allocated a \<longrightarrow> mm_slabs m self = None \<and> (ab_is_static (ar_first_block a) \<or> ab_base (ar_first_block a) \<noteq> self))"

text \<open>What an operation may do to the books: nothing, or add one slab that did not overlap the heap.\<close>

definition same_books :: "memory \<Rightarrow> arena \<Rightarrow> memory \<Rightarrow> arena \<Rightarrow> bool" where
  "same_books m a m' a' \<longleftrightarrow> ar_heap_allocated a' = ar_heap_allocated a \<and>
     ab_is_static (ar_first_block a') = ab_is_static (ar_first_block a) \<and> ab_base (ar_first_block a') = ab_base (ar_first_block a) \<and>
     (mm_heap m' = mm_heap m \<and> dom (mm_slabs m') = dom (mm_slabs m) \<or>
      (\<exists>p n. n \<noteq> 0 \<and> (\<forall>q k. mm_heap m q = Some k \<longrightarrow> range_of p n \<inter> range_of q k = {}) \<and>
         mm_heap m' = (mm_heap m)(p \<mapsto> n) \<and> dom (mm_slabs m') = insert p (dom (mm_slabs m))))"

lemma fresh_address:
  assumes "\<forall>q k. h q = Some k \<longrightarrow> range_of p n \<inter> range_of q k = {}" "\<forall>q. h q \<noteq> Some 0" "n \<noteq> 0"
  shows "h p = None"
proof (rule ccontr)
  assume "h p \<noteq> None"
  then obtain k where k: "h p = Some k" by blast
  then have "0 < unat k" "0 < unat n" using assms(2,3) by (auto simp: unat_gt_0)
  then have "unat p \<in> range_of p n \<inter> range_of p k" by (simp add: range_of_def)
  with assms(1) k show False by blast
qed

lemma books_kept:
  assumes "accounted h0 m self a" "same_books m a m' a'"
  shows "accounted h0 m' self a'"
proof -
  have slabs: "mm_slabs m' q \<noteq> None \<longleftrightarrow> q \<in> dom (mm_slabs m')" for q by auto
  from assms(2) consider "mm_heap m' = mm_heap m" "dom (mm_slabs m') = dom (mm_slabs m)"
    | p n where "n \<noteq> 0" "\<forall>q k. mm_heap m q = Some k \<longrightarrow> range_of p n \<inter> range_of q k = {}"
      "mm_heap m' = (mm_heap m)(p \<mapsto> n)" "dom (mm_slabs m') = insert p (dom (mm_slabs m))"
    unfolding same_books_def by blast
  then show ?thesis
  proof cases
    case 1
    then have "mm_slabs m' q = None \<longleftrightarrow> mm_slabs m q = None" for q by (metis domIff)
    then show ?thesis using assms 1(1) by (simp add: accounted_def owns_def same_books_def)
  next
    case (2 p n)
    have no: "mm_heap m p = None" by (rule fresh_address [OF 2(2) _ 2(1)]) (use assms(1) in \<open>simp add: accounted_def\<close>)
    then have np: "\<not> owns m self a p" "h0 p = None" using assms(1) unfolding accounted_def by (metis (full_types))+
    have sl: "mm_slabs m' q = None \<longleftrightarrow> q \<noteq> p \<and> mm_slabs m q = None" for q using 2(4) by (metis domIff insert_iff)
    have ow: "owns m' self a' q \<longleftrightarrow> q = p \<or> owns m self a q" for q
      using assms(2) sl by (auto simp: owns_def same_books_def)
    have at: "if owns m self a q then mm_heap m q \<noteq> None \<and> h0 q = None else mm_heap m q = h0 q" "mm_heap m q \<noteq> Some 0" for q
      using assms(1) by (simp_all add: accounted_def)
    have "ar_heap_allocated a \<longrightarrow> self \<noteq> p" using np(1) by (auto simp: owns_def)
    then have "ar_heap_allocated a' \<longrightarrow> mm_slabs m' self = None \<and> (ab_is_static (ar_first_block a') \<or> ab_base (ar_first_block a') \<noteq> self)"
      using assms(1) assms(2) [unfolded same_books_def] sl [of self] by (simp add: accounted_def)
    moreover have "if owns m' self a' q then mm_heap m' q \<noteq> None \<and> h0 q = None else mm_heap m' q = h0 q" for q
      using at(1) [of q] np(2) by (auto simp: ow 2(3) split: if_splits)
    moreover have "mm_heap m' q \<noteq> Some 0" for q using at(2) [of q] 2(1) by (simp add: 2(3))
    ultimately show ?thesis by (simp add: accounted_def)
  qed
qed

lemma same_books_refl: "ar_heap_allocated a' = ar_heap_allocated a \<Longrightarrow> ar_first_block a' = ar_first_block a \<Longrightarrow>
  mm_heap m' = mm_heap m \<Longrightarrow> mm_slabs m' = mm_slabs m \<Longrightarrow> same_books m a m' a'"
  by (simp add: same_books_def)

lemma set_next_books:
  assumes "set_next m a p nxt = (m', a')"
  shows "mm_heap m' = mm_heap m \<and> dom (mm_slabs m') = dom (mm_slabs m) \<and> ar_heap_allocated a' = ar_heap_allocated a \<and>
    ab_is_static (ar_first_block a') = ab_is_static (ar_first_block a) \<and> ab_base (ar_first_block a') = ab_base (ar_first_block a)"
  using assms by (auto simp: set_next_def split: block_ptr.splits if_splits)

lemma slow_books:
  assumes "honest al m" "arena_alloc_slow al m a sz g = Some (r, m', a')"
  shows "same_books m a m' a'"
proof -
  from assms(2) obtain cp cb hit where cp: "ar_current_block a = Some cp" "block_at m a cp = Some cb"
    "find_cached m a sz g (ab_next cb) = Some hit" by (auto simp: arena_alloc_slow_def bind_eq_Some_conv)
  note res = assms(2) [unfolded arena_alloc_slow_def cp bind.bind_lunit]
  show ?thesis
  proof (cases hit)
    case (Some pb)
    then show ?thesis using res by (cases pb) (auto simp: Let_def intro: same_books_refl)
  next
    case None
    define n where "n = align_up (next_block_size a (ab_end cb - ab_base cb) sz g) 64"
    show ?thesis
    proof (cases "al 64 n")
      case None
      then show ?thesis using res \<open>hit = None\<close> by (auto simp: Let_def aligned_alloc_xp_def n_def intro: same_books_refl)
    next
      case (Some p)
      then have big: "\<not> n < sizeof_ArenaBlock" using res \<open>hit = None\<close>
        by (auto simp: Let_def aligned_alloc_xp_def n_def split: if_splits)
      then have "n \<noteq> 0" by (auto simp: sizeof_ArenaBlock_def)
      moreover have "\<forall>q k. mm_heap m q = Some k \<longrightarrow> range_of p n \<inter> range_of q k = {}" using assms(1) Some unfolding honest_def by blast
      moreover obtain m2 a2 where m2: "set_next m2 a cp (Some (Slab p)) = (m', a2)" "mm_heap m2 = (mm_heap m)(p \<mapsto> n)"
        "dom (mm_slabs m2) = insert p (dom (mm_slabs m))" "ar_heap_allocated a' = ar_heap_allocated a2" "ar_first_block a' = ar_first_block a2"
        using res \<open>hit = None\<close> Some big by (auto simp: Let_def aligned_alloc_xp_def n_def [symmetric] split: prod.splits)
      have "mm_heap m' = (mm_heap m)(p \<mapsto> n) \<and> dom (mm_slabs m') = insert p (dom (mm_slabs m)) \<and>
        ar_heap_allocated a' = ar_heap_allocated a \<and> ab_is_static (ar_first_block a') = ab_is_static (ar_first_block a) \<and>
        ab_base (ar_first_block a') = ab_base (ar_first_block a)"
        using set_next_books [OF m2(1)] m2(2-5) by simp
      ultimately show ?thesis unfolding same_books_def by blast
    qed
  qed
qed

lemma align_books:
  "honest al m \<Longrightarrow> arena_alloc_align al m a sz g = Some (r, m', a') \<Longrightarrow> same_books m a m' a'"
  by (auto simp: arena_alloc_align_def Let_def split: if_splits intro: slow_books same_books_refl)

lemma unaligned_books:
  "honest al m \<Longrightarrow> arena_alloc_unaligned al m a sz = Some (r, m', a') \<Longrightarrow> same_books m a m' a'"
  by (auto simp: arena_alloc_unaligned_def Let_def split: if_splits intro: slow_books same_books_refl)

lemma cells_books [simp]: "same_books m a (m'\<lparr>mm_cells := c\<rparr>) a' = same_books m a m' a'"
  by (simp add: same_books_def)

lemma filled_books:
  assumes "\<And>r m' a'. res = Some (r, m', a') \<Longrightarrow> same_books m a m' a'" "filled res xs = Some (r, m', a')"
  shows "same_books m a m' a'"
  using assms by (auto simp: filled_def bind_eq_Some_conv split: option.splits)

lemma realloc_books:
  assumes "honest al m" "arena_realloc al m a old k n g = Some (r, m', a')"
  shows "same_books m a m' a'"
  using assms(2) align_books [OF assms(1)]
  by (auto simp: arena_realloc_def bind_eq_Some_conv split: option.splits if_splits intro: same_books_refl)

lemma receive_books:
  assumes "\<And>r m' a'. res = Some (r, m', a') \<Longrightarrow> same_books m a m' a'" "receive s old sz res = Some t"
  shows "same_books m a (sy_mem t) (sy_arena t)" "sy_self t = sy_self s" "sy_before t = sy_before s"
  using assms by (auto simp: receive_def bind_eq_Some_conv)

lemma run_books:
  assumes h: "honest al (sy_mem s)" and run: "arena_run al q s = Some t"
  shows "same_books (sy_mem s) (sy_arena s) (sy_mem t) (sy_arena t) \<and> sy_self t = sy_self s \<and> sy_before t = sy_before s"
proof (cases q)
  case (Alloc sz g)
  then show ?thesis using run receive_books [OF align_books [OF h]] by simp
next
  case (Alloc_Unaligned sz)
  then show ?thesis using run receive_books [OF unaligned_books [OF h]] by simp
next
  case (Alloc_Zero sz)
  then show ?thesis using run receive_books [OF filled_books [OF align_books [OF h]]] by (simp add: arena_alloc_zero_def)
next
  case (Alloc_Array es g n)
  have "same_books (sy_mem s) (sy_arena s) m' a'"
    if "arena_alloc_array_zero al (sy_mem s) (sy_arena s) es g n = Some (r, m', a')" for r m' a'
    using that filled_books [OF align_books [OF h]]
    by (auto simp: arena_alloc_array_zero_def Let_def split: if_splits intro: same_books_refl)
  from receive_books [OF this] run Alloc_Array show ?thesis by simp
next
  case (Alloc_Batch szs)
  then show ?thesis using run align_books [OF h]
    by (auto simp: arena_alloc_batch_def arena_alloc_def bind_eq_Some_conv split: option.splits if_splits intro: same_books_refl)
next
  case (Strdup str)
  then show ?thesis using run receive_books [OF filled_books [OF unaligned_books [OF h]]] by (simp add: arena_strdup_def)
next
  case (Strdupn str n)
  have "same_books (sy_mem s) (sy_arena s) m' a'"
    if "arena_strdupn al (sy_mem s) (sy_arena s) str n = Some (r, m', a')" for r m' a'
    using that unaligned_books [OF h]
    by (auto simp: arena_strdupn_def bind_eq_Some_conv split: if_splits elim!: filled_books [rotated])
  from receive_books [OF this] run Strdupn show ?thesis by simp
next
  case (Resize j n g)
  then show ?thesis using run receive_books [OF realloc_books [OF h]] by (auto simp: Let_def split: prod.splits if_splits)
next
  case (Fill j xs)
  then show ?thesis using run by (auto simp: bind_eq_Some_conv intro: same_books_refl)
next
  case Reset
  then show ?thesis using run
    by (auto simp: arena_reset_def bind_eq_Some_conv split: option.splits intro: same_books_refl)
qed (use run in \<open>auto simp: arena_restore_def intro: same_books_refl\<close>)

lemma start_accounted:
  assumes "arena_start s" "\<forall>q. sy_before s q \<noteq> Some 0"
  shows "accounted (sy_before s) (sy_mem s) (sy_self s) (sy_arena s)"
proof -
  from assms(1) have sl: "mm_slabs (sy_mem s) = Map.empty" by (simp add: arena_start_def)
  from assms(1) consider (init) page buf n where "sy_arena s = arena_init page buf n" "sy_before s = mm_heap (sy_mem s)"
    | (create) k al0 al m g sb where "6 \<le> k" "k \<le> 20" "honest al0 m" "honest al (with_struct (sy_self s) m)" "unat g \<le> 2 ^ 62"
      "sy_before s = mm_heap m" "arena_create al0 al (2 ^ k) sb g m = Some (Some (sy_self s, sy_arena s), sy_mem s)"
    unfolding arena_start_def by blast
  then show ?thesis
  proof cases
    case init
    then show ?thesis using assms(2) sl by (simp add: accounted_def owns_def arena_init_def)
  next
    case create
    have self: "mm_heap m (sy_self s) = None" if "al0 64 128 = Some (sy_self s)"
      using create(3,6) assms(2) that by (intro fresh_address [of _ _ 128]) (auto simp: honest_def)
    from create(3,7) show ?thesis
    proof (cases rule: create_cases)
      case tls
      then show ?thesis using self create(6) assms(2) sl
        by (auto simp: accounted_def owns_def arena_init_def with_struct_def)
    next
      case (own buf n0)
      have n0: "align_up n0 64 \<noteq> 0" using first_size [OF create(1,2,5) own(2)] by auto
      have "mm_heap (with_struct (sy_self s) m) buf = None"
        using create(4,6) assms(2) own(3) n0 by (intro fresh_address [of _ _ "align_up n0 64"]) (auto simp: honest_def with_struct_def)
      then have "buf \<noteq> sy_self s" "mm_heap m buf = None" by (auto simp: with_struct_def split: if_splits)
      then show ?thesis using self own(1,4,5) n0 create(6) assms(2) sl
        by (auto simp: accounted_def owns_def arena_init_def with_struct_def)
    qed
  qed
qed

lemma reachable_accounted:
  assumes "asys.reachable s" "\<forall>q. sy_before s q \<noteq> Some 0"
  shows "accounted (sy_before s) (sy_mem s) (sy_self s) (sy_arena s)"
  using assms
proof (induction rule: asys.reachable.induct)
  case (start s)
  then show ?case by (rule start_accounted)
next
  case (move s t)
  from move.hyps(2) obtain al q where "honest al (sy_mem s)" "arena_run al q s = Some t" by (auto elim: arena_stepE)
  from run_books [OF this] move show ?case using books_kept by metis
qed

section \<open>Properties\<close>

text \<open>(C35) An arena in use, from its creation through any sequence of allocations, resizings, checkpoints,
  roll-backs and resets with sizes up to \<open>2 ^ 62\<close>: the regions the client owns are pairwise disjoint and
  consist of allocated memory; every further request is free of undefined behaviour and leaves the
  contents of the regions it is not about as they are; an address returned has the alignment
  asked for.\<close>

theorem arena_regions_safe:
  assumes "asys.reachable s"
  shows "sorted_wrt (\<lambda>r r'. rng r \<inter> rng r' = {}) (sy_live s) \<and>
    (\<forall>r\<in>set (sy_live s). region_bytes (sy_mem s) r \<noteq> None) \<and>
    (\<forall>q al. request_legal q s \<and> honest al (sy_mem s) \<longrightarrow> (\<exists>t. arena_run al q s = Some t \<and>
       (\<forall>r\<in>set (untouched q s). region_bytes (sy_mem t) r = region_bytes (sy_mem s) r))) \<and>
    (\<forall>sz g al p m a. request_legal (Alloc sz g) s \<and> honest al (sy_mem s) \<and>
       arena_alloc_align al (sy_mem s) (sy_arena s) sz g = Some (Some p, m, a) \<longrightarrow> unat g dvd unat p)"
proof (intro conjI allI impI)
  have inv: "arena_sys_inv s" using assms by (rule asys.reachable_inv)
  then obtain ps i where ok: "client_ok (sy_rewound s) (sy_mem s) (sy_arena s) (sy_live s) (sy_saved s) ps i"
    by (auto simp: arena_sys_inv_def)
  then have I: "arena_inv (sy_mem s) (sy_arena s) ps i" and O: "owned (sy_mem s) (sy_arena s) ps i (ar_curr (sy_arena s)) (sy_live s)"
    by (auto simp: client_ok_def)
  from O show "sorted_wrt (\<lambda>r r'. rng r \<inter> rng r' = {}) (sy_live s)" by (simp add: owned_def)
  show "\<forall>r\<in>set (sy_live s). region_bytes (sy_mem s) r \<noteq> None"
  proof
    fix r assume "r \<in> set (sy_live s)"
    then have "rng r \<subseteq> taken (sy_mem s) (sy_arena s) ps i" using O by (simp add: owned_def)
    then show "region_bytes (sy_mem s) r \<noteq> None"
      using load_cells_total backed_region(2) [OF taken_backed [OF I]] unfolding region_bytes_def by fastforce
  qed
  show "\<exists>t. arena_run al q s = Some t \<and> (\<forall>r\<in>set (untouched q s). region_bytes (sy_mem t) r = region_bytes (sy_mem s) r)"
    if "request_legal q s \<and> honest al (sy_mem s)" for q al
    using run_progress [OF inv] that unfolding progress_def by blast
  show "unat g dvd unat p" if "request_legal (Alloc sz g) s \<and> honest al (sy_mem s) \<and>
    arena_alloc_align al (sy_mem s) (sy_arena s) sz g = Some (Some p, m, a)" for sz g al p m a
    using alloc_served [OF ok, of al sz g] that by (auto simp: served_def)
qed

definition demo_mem :: memory where
  "demo_mem = \<lparr>mm_cells = (\<lambda>x. if 4096 \<le> unat x \<and> unat x < 4160 then Some None else None),
     mm_slabs = Map.empty, mm_heap = Map.empty, mm_tls = False\<rparr>"

definition demo_sys :: arena_sys where
  "demo_sys = \<lparr>sy_mem = demo_mem, sy_arena = arena_init 4096 4096 64, sy_live = [], sy_saved = [], sy_rewound = False,
     sy_self = 0, sy_before = Map.empty\<rparr>"

lemma demo_start: "arena_start demo_sys"
proof -
  have "backed demo_mem (range_of 4096 64)"
    by (auto simp: backed_def range_of_def demo_mem_def unat_address)
  then show ?thesis
    unfolding arena_start_def
    by (intro conjI exI [of _ 12] exI [of _ 4096] disjI1 exI [of _ 64]) (auto simp: demo_sys_def demo_mem_def)
qed

lemma demo_alloc:
  "arena_run (\<lambda>_ _. None) (Alloc 8 16) demo_sys =
     Some (demo_sys\<lparr>sy_arena := (arena_init 4096 4096 64)\<lparr>ar_curr := 4104\<rparr>, sy_live := [(4096, 8)]\<rparr>)"
  by (simp add: demo_sys_def receive_def arena_alloc_align_def arena_init_def align_up_def)

lemma demo_reachable:
  "asys.reachable (demo_sys\<lparr>sy_arena := (arena_init 4096 4096 64)\<lparr>ar_curr := 4104\<rparr>, sy_live := [(4096, 8)]\<rparr>)"
proof -
  have "request_legal (Alloc 8 16) demo_sys" "honest (\<lambda>_ _. None) (sy_mem demo_sys)" by (simp_all add: honest_def)
  then have "arena_step demo_sys (arena_run (\<lambda>_ _. None) (Alloc 8 16) demo_sys)" by (rule arena_step.intros)
  then show ?thesis using asys.reachable.move [OF asys.reachable.start [OF demo_start]] unfolding demo_alloc by blast
qed

theorem arena_regions_safe_witness:
  "\<exists>t. arena_run (\<lambda>_ _. None) (Resize 0 40 16) (demo_sys\<lparr>sy_arena := (arena_init 4096 4096 64)\<lparr>ar_curr := 4104\<rparr>, sy_live := [(4096, 8)]\<rparr>) = Some t"
proof -
  let ?s = "demo_sys\<lparr>sy_arena := (arena_init 4096 4096 64)\<lparr>ar_curr := 4104\<rparr>, sy_live := [(4096, 8)]\<rparr>"
  have "request_legal (Resize 0 40 16) ?s \<and> honest (\<lambda>_ _. None) (sy_mem ?s)" by (simp add: honest_def)
  then show ?thesis using arena_regions_safe [OF demo_reachable] by blast
qed

text \<open>(C36) \<^verbatim>\<open>arena_realloc\<close> of a region the client owns either gives the region up (size 0), or fails and
  changes nothing, or returns a region of the new size that starts with the old contents, up to the
  smaller of both sizes, whether it stayed in place or moved.\<close>

theorem arena_realloc_keeps:
  assumes "asys.reachable s" "j < length (sy_live s)" "sy_live s ! j = (p, k)" "unat n \<le> 2 ^ 62" "alignment_ok g"
    and "honest al (sy_mem s)"
  shows "\<exists>r m a. arena_realloc al (sy_mem s) (sy_arena s) (Some p) k n g = Some (r, m, a) \<and>
    (n = 0 \<longrightarrow> r = None \<and> m = sy_mem s) \<and>
    (n \<noteq> 0 \<and> r = None \<longrightarrow> m = sy_mem s \<and> a = sy_arena s) \<and>
    (\<forall>q. r = Some q \<longrightarrow> n \<noteq> 0 \<and>
       load_cells (mm_cells m) q (min (unat k) (unat n)) = load_cells (mm_cells (sy_mem s)) p (min (unat k) (unat n)) \<and>
       (\<forall>r'\<in>set (without j (sy_live s)). range_of q n \<inter> rng r' = {}))"
proof -
  obtain ps i where ok: "client_ok (sy_rewound s) (sy_mem s) (sy_arena s) (sy_live s) (sy_saved s) ps i"
    using asys.reachable_inv [OF assms(1)] by (auto simp: arena_sys_inv_def)
  have "resized (sy_rewound s) (sy_mem s) (sy_arena s) (sy_live s) (sy_saved s) j n
      (arena_realloc al (sy_mem s) (sy_arena s) (Some p) k n g)"
    by (rule realloc_resized [OF ok assms(6,2,3,4,5)])
  then consider a where "n = 0" "arena_realloc al (sy_mem s) (sy_arena s) (Some p) k n g = Some (None, sy_mem s, a)"
    | "n \<noteq> 0" "arena_realloc al (sy_mem s) (sy_arena s) (Some p) k n g = Some (None, sy_mem s, sy_arena s)"
    | q m a ps i where "n \<noteq> 0" "arena_realloc al (sy_mem s) (sy_arena s) (Some p) k n g = Some (Some q, m, a)"
      "client_ok (sy_rewound s) m a ((q, n) # without j (sy_live s)) (sy_saved s) ps i"
      "load_cells (mm_cells m) q (min (unat k) (unat n)) = load_cells (mm_cells (sy_mem s)) p (min (unat k) (unat n))"
    unfolding resized_def Let_def assms(3) fst_conv snd_conv by blast
  then show ?thesis
    by cases (auto simp: client_ok_def owned_def)
qed

theorem arena_realloc_keeps_witness:
  "\<exists>r m a. arena_realloc (\<lambda>_ _. None) demo_mem ((arena_init 4096 4096 64)\<lparr>ar_curr := 4104\<rparr>) (Some 4096) 8 40 16 = Some (r, m, a) \<and>
    (\<forall>q. r = Some q \<longrightarrow> load_cells (mm_cells m) q 8 = load_cells (mm_cells demo_mem) 4096 8)"
  using arena_realloc_keeps [OF demo_reachable, of 0 4096 8 40 16 "\<lambda>_ _. None"]
  by (auto simp: honest_def demo_sys_def)


text \<open>(C37) Destroying an arena, when no block of the heap has size zero: the call never touches freed
  memory; it frees the first block if the arena allocated it, and the \<^verbatim>\<open>Arena\<close> structure if \<^verbatim>\<open>arena_create\<close>
  did; the thread's static buffer, if it was the first block, is available again; and blocks that
  were in the heap before the arena was created stay there.  As long as the client has neither reset nor
  rolled back the arena, the heap is afterwards what it was before the creation: every block is freed.\<close>

theorem arena_destroy_frees:
  assumes "asys.reachable s" "\<forall>q. sy_before s q \<noteq> Some 0"
  shows "\<exists>m. arena_destroy (sy_mem s) (sy_self s) (sy_arena s) = Some m \<and>
    (\<not> ab_is_static (ar_first_block (sy_arena s)) \<longrightarrow> mm_heap m (ab_base (ar_first_block (sy_arena s))) = None) \<and>
    (ar_heap_allocated (sy_arena s) \<longrightarrow> mm_heap m (sy_self s) = None) \<and>
    (ab_is_static (ar_first_block (sy_arena s)) \<and> ar_tls_origin (sy_arena s) \<longrightarrow> \<not> mm_tls m) \<and>
    (\<forall>q. sy_before s q \<noteq> None \<longrightarrow> mm_heap m q = sy_before s q) \<and>
    (\<not> sy_rewound s \<longrightarrow> mm_heap m = sy_before s \<and> mm_slabs m = Map.empty)"
proof -
  let ?m = "sy_mem s" and ?a = "sy_arena s" and ?f = "ar_first_block (sy_arena s)"
  obtain ps i where "client_ok (sy_rewound s) ?m ?a (sy_live s) (sy_saved s) ps i"
    using asys.reachable_inv [OF assms(1)] by (auto simp: arena_sys_inv_def)
  then have I: "arena_inv ?m ?a ps i" and t: "\<not> sy_rewound s \<Longrightarrow> tight ?m ps i" by (auto simp: client_ok_def)
  have acc: "accounted (sy_before s) ?m (sy_self s) ?a" by (rule reachable_accounted [OF assms])
  then have heap: "if owns ?m (sy_self s) ?a q then mm_heap ?m q \<noteq> None \<and> sy_before s q = None else mm_heap ?m q = sy_before s q" for q
    by (simp add: accounted_def)
  have chain: "mm_slabs ?m q \<noteq> None" if "Slab q \<in> set ps" for q
    using arena_invD(2) [OF I that] by (simp add: block_ok_def block_at_def)
  have "ar_heap_allocated ?a \<longrightarrow> mm_heap ?m (sy_self s) \<noteq> None \<and> Slab (sy_self s) \<notin> set ps \<and> (ab_is_static ?f \<or> ab_base ?f \<noteq> sy_self s)"
    using acc heap [of "sy_self s"] chain [of "sy_self s"] by (auto simp: accounted_def owns_def)
  from arena_destroy_effect [OF I this refl] obtain m where m: "arena_destroy ?m (sy_self s) ?a = Some m"
    "ab_is_static ?f \<and> ar_tls_origin ?a \<longrightarrow> \<not> mm_tls m"
    "\<And>q. if Slab q \<in> set ps \<or> \<not> ab_is_static ?f \<and> q = ab_base ?f \<or> ar_heap_allocated ?a \<and> q = sy_self s
         then mm_slabs m q = None \<and> mm_heap m q = None else mm_slabs m q = mm_slabs ?m q \<and> mm_heap m q = mm_heap ?m q" by blast
  have kept: "mm_heap m q = sy_before s q" if "\<not> owns ?m (sy_self s) ?a q" for q
    using m(3) [of q] that heap [of q] chain [of q] by (auto simp: owns_def split: if_splits)
  have all: "mm_heap m q = sy_before s q \<and> mm_slabs m q = None" if w: "\<not> sy_rewound s" for q
  proof (cases "owns ?m (sy_self s) ?a q")
    case True
    then have "Slab q \<in> set ps \<or> \<not> ab_is_static ?f \<and> q = ab_base ?f \<or> ar_heap_allocated ?a \<and> q = sy_self s"
      using t [OF w] by (auto simp: owns_def tight_def)
    then show ?thesis using True m(3) [of q] heap [of q] by simp
  next
    case False
    then show ?thesis using kept [OF False] m(3) [of q] by (auto simp: owns_def split: if_splits)
  qed
  have "mm_heap m q = sy_before s q" if "sy_before s q \<noteq> None" for q
    using kept [of q] heap [of q] that by (auto split: if_splits)
  then show ?thesis using m(1,2) m(3) [of "ab_base ?f"] m(3) [of "sy_self s"] all by (auto simp: fun_eq_iff split: if_splits)
qed

text \<open>A system allocator that gives out two fixed addresses.\<close>

definition demo_alloc_fn :: system_alloc where
  "demo_alloc_fn g n = (if n = 65536 then Some 0x100000 else Some 0x200000)"

lemmas arena_eval = demo_sys_def demo_alloc_fn_def receive_def arena_init_def align_up_def Let_def
  arena_alloc_align_def arena_alloc_slow_def find_cached.simps block_at_def next_block_size_def aligned_alloc_xp_def
  set_next_def ARENA_MAX_BLOCK_SIZE_def ARENA_MIN_BLOCK_SIZE_def sizeof_ArenaBlock_def

text \<open>
  An arena created while the static buffer is taken, in a heap with one foreign block: the structure,
  the first block and, after a large request, a slab are allocated for it.
\<close>

definition only_answer :: "size_t \<Rightarrow> u64 \<Rightarrow> system_alloc" where
  "only_answer sz p g n = (if g = 64 \<and> n = sz then Some p else None)"

definition busy_mem :: memory where
  "busy_mem = \<lparr>mm_cells = (\<lambda>x. if 0x1000000 \<le> unat x \<and> unat x < 0x1100000 then Some None else None),
     mm_slabs = Map.empty, mm_heap = [0x5000 \<mapsto> 64], mm_tls = True\<rparr>"

definition busy_arena :: arena where
  "busy_arena = (arena_init 4096 0x200000 65536)\<lparr>ar_first_block := \<lparr>ab_next = None, ab_base = 0x200000, ab_end = 0x210000, ab_is_static = False\<rparr>,
     ar_heap_allocated := True\<rparr>"

definition busy_sys :: arena_sys where
  "busy_sys = \<lparr>sy_mem = (with_struct 0x100000 busy_mem)\<lparr>mm_heap := (mm_heap (with_struct 0x100000 busy_mem))(0x200000 \<mapsto> 65536),
       mm_cells := (\<lambda>x. if 0x200000 \<le> unat x \<and> unat x < 0x210000 then Some None else mm_cells busy_mem x)\<rparr>,
     sy_arena = busy_arena, sy_live = [], sy_saved = [], sy_rewound = False, sy_self = 0x100000, sy_before = [0x5000 \<mapsto> 64]\<rparr>"

lemma only_answer_honest:
  assumes "64 dvd unat p" "unat p + unat sz \<le> 2 ^ 63" "\<forall>x\<in>range_of p sz. mm_cells m (of_nat x) = None"
    "\<forall>q k. mm_heap m q = Some k \<longrightarrow> range_of p sz \<inter> range_of q k = {}"
  shows "honest (only_answer sz p) m"
  using assms by (auto simp: honest_def only_answer_def split: if_splits)

lemma busy_start: "arena_start busy_sys"
proof -
  have h: "honest (only_answer 128 0x100000) busy_mem" "honest (only_answer 65536 0x200000) (with_struct 0x100000 busy_mem)"
    by (rule only_answer_honest; simp add: busy_mem_def with_struct_def range_of_def unat_address; fastforce)+
  have "arena_create (only_answer 128 0x100000) (only_answer 65536 0x200000) 4096 0x1000000 0 busy_mem = Some (Some (sy_self busy_sys, sy_arena busy_sys), sy_mem busy_sys)"
    by (simp add: arena_create_def aligned_alloc_xp_def only_answer_def sizeof_Arena_def align_up_def Let_def busy_mem_def busy_sys_def
      busy_arena_def arena_init_def with_struct_def ARENA_MIN_BLOCK_SIZE_def fun_eq_iff)
  moreover have "backed busy_mem (range_of 0x1000000 STATIC_BUFFER_SIZE)"
    by (auto simp: backed_def range_of_def busy_mem_def STATIC_BUFFER_SIZE_def unat_address)
  ultimately show ?thesis using h
    unfolding arena_start_def
    by (intro conjI exI [of _ 12] exI [of _ 4096] disjI2 exI [of _ "only_answer 128 0x100000"] exI [of _ "only_answer 65536 0x200000"]
      exI [of _ busy_mem] exI [of _ 0] exI [of _ "0x1000000"]) (simp_all add: busy_sys_def busy_mem_def STATIC_BUFFER_SIZE_def with_struct_def)
qed

lemma busy_alloc:
  "\<exists>t. arena_run (only_answer 131072 0x400000) (Alloc 100000 16) busy_sys = Some t \<and> asys.reachable t \<and>
     mm_heap (sy_mem t) = [0x5000 \<mapsto> 64, 0x100000 \<mapsto> 128, 0x200000 \<mapsto> 65536, 0x400000 \<mapsto> 131072] \<and> \<not> sy_rewound t \<and> sy_before t = [0x5000 \<mapsto> 64]"
proof -
  have h: "honest (only_answer 131072 0x400000) (sy_mem busy_sys)"
    by (rule only_answer_honest; simp add: busy_sys_def busy_mem_def with_struct_def range_of_def unat_address; fastforce)
  obtain t where t: "arena_run (only_answer 131072 0x400000) (Alloc 100000 16) busy_sys = Some t"
     "mm_heap (sy_mem t) = [0x5000 \<mapsto> 64, 0x100000 \<mapsto> 128, 0x200000 \<mapsto> 65536, 0x400000 \<mapsto> 131072]" "\<not> sy_rewound t" "sy_before t = [0x5000 \<mapsto> 64]"
    by (simp add: arena_eval busy_sys_def busy_arena_def busy_mem_def with_struct_def only_answer_def fun_upd_twist)
  have "arena_step busy_sys (arena_run (only_answer 131072 0x400000) (Alloc 100000 16) busy_sys)"
    using h by (intro arena_step.intros) simp
  then have "asys.reachable t" using asys.reachable.move [OF asys.reachable.start [OF busy_start]] t(1) by simp
  with t show ?thesis by blast
qed

theorem arena_destroy_frees_witness:
  "\<exists>t m. arena_run (only_answer 131072 0x400000) (Alloc 100000 16) busy_sys = Some t \<and>
     mm_heap (sy_mem t) = [0x5000 \<mapsto> 64, 0x100000 \<mapsto> 128, 0x200000 \<mapsto> 65536, 0x400000 \<mapsto> 131072] \<and>
     arena_destroy (sy_mem t) (sy_self t) (sy_arena t) = Some m \<and> mm_heap m = [0x5000 \<mapsto> 64]"
proof -
  obtain t where t: "arena_run (only_answer 131072 0x400000) (Alloc 100000 16) busy_sys = Some t" "asys.reachable t"
    "mm_heap (sy_mem t) = [0x5000 \<mapsto> 64, 0x100000 \<mapsto> 128, 0x200000 \<mapsto> 65536, 0x400000 \<mapsto> 131072]" "\<not> sy_rewound t" "sy_before t = [0x5000 \<mapsto> 64]"
    using busy_alloc by blast
  have "\<forall>q. sy_before t q \<noteq> Some 0" by (simp add: t(5))
  from arena_destroy_frees [OF t(2) this] t show ?thesis by metis
qed

text \<open>After a reset, a request that no cached block can serve cuts the cached blocks off the chain:
  \<^verbatim>\<open>arena_destroy\<close> no longer reaches them.  Here the block of 65536 bytes that the first allocation
  obtained is still allocated when the arena has been destroyed.\<close>

theorem arena_reset_leaks:
  "\<exists>s1 s2 s3 m. arena_run demo_alloc_fn (Alloc 100 16) demo_sys = Some s1 \<and>
     arena_run demo_alloc_fn Reset s1 = Some s2 \<and> arena_run demo_alloc_fn (Alloc 70000 16) s2 = Some s3 \<and>
     arena_destroy (sy_mem s3) (sy_self s3) (sy_arena s3) = Some m \<and> mm_heap m 0x100000 = Some 65536 \<and> mm_heap m 0x200000 = None"
  by (simp add: arena_eval arena_reset_def)
    (simp add: arena_destroy_def block_at_def destroy_chain.simps aligned_free_xp_def)

text \<open>The size arithmetic of the arena is not checked for overflow.  For an arena whose cursor is
  aligned, a request of \<^verbatim>\<open>-curr\<close> bytes (nearly the whole address space) succeeds and moves the
  cursor to address 0; and \<^verbatim>\<open>arena_alloc_batch\<close> accepts the sizes \<^verbatim>\<open>SIZE_MAX\<close> and \<open>n\<close>, although it detects
  overflow in the addition, and allocates only \<open>n\<close> bytes for both.\<close>

theorem arena_overflow_unchecked:
  assumes "16 dvd unat (ar_curr a)" "ar_curr a \<noteq> 0" "0 < n" "unat n \<le> 2 ^ 62" "ar_curr a + n \<le> ar_end a"
    "unat (ar_curr a) \<le> 2 ^ 63"
  shows "arena_alloc al m a (- ar_curr a) = Some (Some (ar_curr a), m, a\<lparr>ar_curr := 0\<rparr>) \<and>
    (\<exists>qs. arena_alloc_batch al m a [SIZE_MAX, n] = Some (Some qs, m, a\<lparr>ar_curr := ar_curr a + n\<rparr>))"
proof -
  have up: "align_up (ar_curr a) 16 = ar_curr a"
  proof -
    obtain c where c: "unat (ar_curr a) = 16 * c" using assms(1) by (auto elim: dvdE)
    have "unat (align_up (ar_curr a) 16) = unat (ar_curr a)"
      using align_up_div [of 16 "ar_curr a"] assms(6) c by simp
    then show ?thesis by (simp only: word_unat_eq_iff)
  qed
  have "batch_total 0 [SIZE_MAX, n] = Some n"
    by (simp add: SIZE_MAX_def ARENA_DEFAULT_ALIGN_def)
  then show ?thesis
    using assms up by (simp add: arena_alloc_batch_def arena_alloc_def arena_alloc_align_def ARENA_DEFAULT_ALIGN_def Let_def)
qed

theorem arena_overflow_unchecked_witness:
  "arena_alloc (\<lambda>_ _. None) demo_mem (arena_init 4096 4096 64) (- 4096) =
    Some (Some 4096, demo_mem, (arena_init 4096 4096 64)\<lparr>ar_curr := 0\<rparr>)"
  using arena_overflow_unchecked [of "arena_init 4096 4096 64" 8] by (simp add: arena_init_def)

end
