(* ===== verification/Csv.thy ===== *)
theory Csv
  imports Byte_Strings
begin

text \<open>
  The CSV reader and writer of \<^verbatim>\<open>src/csvparser.c\<close>.  A file is the list of its bytes; reading a line is
  \<^verbatim>\<open>fgets\<close> on what is left of it.  \<open>None\<close> is undefined behaviour (a store behind the array of flds,
  a pointer in front of the line buffer, a NULL stream), NULL and \<^verbatim>\<open>false\<close> results are \<open>Some None\<close>.
  Allocations in the arena are arguments that say whether they succeed; the output stream accepts
  a given number of characters and fails afterwards.  Characters are unsigned: the classification
  of a negative \<^verbatim>\<open>char\<close> is that of the byte.
\<close>

definition MAX_FIELD_SIZE :: nat where
  "MAX_FIELD_SIZE = 1024"

definition CSV_READ_BUFSIZE :: nat where
  "CSV_READ_BUFSIZE = 64 * 1024"

section \<open>Trimming (\<open>include/str.h\<close>)\<close>

fun skip_space :: "bytes \<Rightarrow> nat" where
  "skip_space [] = 0"
| "skip_space (c # s) = (if isspace c then Suc (skip_space s) else 0)"

definition str_ltrim :: "bytes \<Rightarrow> bytes" where
  "str_ltrim str = (if str = [] then str else drop (skip_space str) str)"

fun rtrim_len :: "bytes \<Rightarrow> nat \<Rightarrow> nat" where
  "rtrim_len str 0 = 0"
| "rtrim_len str (Suc n) = (if isspace (str ! n) then rtrim_len str n else Suc n)"

definition str_rtrim :: "bytes \<Rightarrow> bytes" where
  "str_rtrim str = (if str = [] then str else take (rtrim_len str (length str)) str)"

definition str_trim :: "bytes \<Rightarrow> bytes" where
  "str_trim str = (if str = [] then str else str_ltrim (str_rtrim str))"

section \<open>The reader\<close>

record csv_reader =
  cr_num_rows :: nat
  cr_delim :: u8
  cr_quote :: u8
  cr_comment :: u8
  cr_has_header :: bool
  cr_skip_header :: bool

record csv_reader_config =
  cc_delim :: u8
  cc_quote :: u8
  cc_comment :: u8
  cc_has_header :: bool
  cc_skip_header :: bool

definition set_default_config :: "csv_reader \<Rightarrow> csv_reader" where
  "set_default_config r = r\<lparr>cr_delim := 44, cr_comment := 35, cr_has_header := True, cr_skip_header := False, cr_quote := 34\<rparr>"

text \<open>The three arguments: the reader, the file and the arena can be obtained.\<close>

definition csv_reader_new :: "bool \<Rightarrow> bool \<Rightarrow> bool \<Rightarrow> csv_reader option" where
  "csv_reader_new malloc_ok file_ok arena_ok =
     (if malloc_ok \<and> file_ok \<and> arena_ok
      then Some (set_default_config \<lparr>cr_num_rows = 0, cr_delim = 0, cr_quote = 0, cr_comment = 0,
        cr_has_header = False, cr_skip_header = False\<rparr>)
      else None)"

definition csv_reader_setconfig :: "csv_reader \<Rightarrow> csv_reader_config \<Rightarrow> csv_reader" where
  "csv_reader_setconfig r c =
     r\<lparr>cr_delim := (if cc_delim c \<noteq> 0 then cc_delim c else cr_delim r),
       cr_quote := (if cc_quote c \<noteq> 0 then cc_quote c else cr_quote r),
       cr_comment := (if cc_comment c \<noteq> 0 then cc_comment c else cr_comment r),
       cr_has_header := cc_has_header c, cr_skip_header := cc_skip_header c\<rparr>"

definition csv_reader_getconfig :: "csv_reader \<Rightarrow> csv_reader_config" where
  "csv_reader_getconfig r = \<lparr>cc_delim = cr_delim r, cc_quote = cr_quote r, cc_comment = cr_comment r,
     cc_has_header = cr_has_header r, cc_skip_header = cr_skip_header r\<rparr>"

definition csv_reader_numrows :: "csv_reader \<Rightarrow> nat" where
  "csv_reader_numrows r = cr_num_rows r"

section \<open>Counting lines\<close>

record count_state =
  lc_lines :: nat
  lc_header_skipped :: bool
  lc_first_char :: bool
  lc_skip_line :: bool
  lc_blank :: bool

definition count_start :: count_state where
  "count_start = \<lparr>lc_lines = 0, lc_header_skipped = False, lc_first_char = True, lc_skip_line = False, lc_blank = True\<rparr>"

text \<open>One character of the file.\<close>

definition count_char :: "csv_reader \<Rightarrow> u8 \<Rightarrow> count_state \<Rightarrow> count_state" where
  "count_char r c s =
     (if c = 10
      then (let s = (if \<not> lc_skip_line s \<and> \<not> lc_blank s
                     then if cr_has_header r \<and> cr_skip_header r \<and> \<not> lc_header_skipped s \<and> lc_lines s = 0
                          then s\<lparr>lc_header_skipped := True\<rparr> else s\<lparr>lc_lines := lc_lines s + 1\<rparr>
                     else s)
            in s\<lparr>lc_skip_line := False, lc_blank := True, lc_first_char := True\<rparr>)
      else if lc_skip_line s then s
      else if lc_first_char s \<and> c = cr_comment r then s\<lparr>lc_first_char := False, lc_skip_line := True\<rparr>
      else (let s = s\<lparr>lc_first_char := False\<rparr>
            in if c \<noteq> 13 \<and> c \<noteq> 32 \<and> c \<noteq> 9 then s\<lparr>lc_blank := False\<rparr> else s))"

text \<open>One block of the file, newline by newline.\<close>

function count_block :: "csv_reader \<Rightarrow> bytes \<Rightarrow> count_state \<Rightarrow> count_state" where
  "count_block r p s =
     (if p = [] then s
      else let chunk_end = (case memchr p 10 of Some nl \<Rightarrow> nl + 1 | None \<Rightarrow> length p)
           in count_block r (drop chunk_end p) (fold (count_char r) (take chunk_end p) s))"
  by pat_completeness auto
termination
  by (relation "measure (\<lambda>(r, p, s). length p)") (auto split: option.splits)

function count_blocks :: "csv_reader \<Rightarrow> bytes \<Rightarrow> count_state \<Rightarrow> count_state" where
  "count_blocks r p s =
     (if p = [] then s
      else count_blocks r (drop CSV_READ_BUFSIZE p) (count_block r (take CSV_READ_BUFSIZE p) s))"
  by pat_completeness auto
termination
  by (relation "measure (\<lambda>(r, p, s). length p)") (auto simp: CSV_READ_BUFSIZE_def)

declare count_block.simps [simp del] count_blocks.simps [simp del]

definition line_count :: "csv_reader \<Rightarrow> bytes \<Rightarrow> nat" where
  "line_count r file =
     (let s = count_blocks r file count_start
      in if \<not> lc_skip_line s \<and> \<not> lc_blank s
         then if cr_has_header r \<and> cr_skip_header r \<and> \<not> lc_header_skipped s \<and> lc_lines s = 0
              then lc_lines s else lc_lines s + 1
         else lc_lines s)"

section \<open>Lines and fields\<close>

fun fgets_take :: "nat \<Rightarrow> bytes \<Rightarrow> bytes \<times> bytes" where
  "fgets_take 0 s = ([], s)"
| "fgets_take (Suc n) [] = ([], [])"
| "fgets_take (Suc n) (c # s) = (if c = 10 then ([c], s) else let (l, r) = fgets_take n s in (c # l, r))"

definition fgets :: "nat \<Rightarrow> bytes \<Rightarrow> (bytes \<times> bytes) option" where
  "fgets sz s = (if s = [] then None else Some (fgets_take (sz - 1) s))"

fun line_end :: "bytes \<Rightarrow> nat \<Rightarrow> nat" where
  "line_end line 0 = 0"
| "line_end line (Suc e) = (if isspace (line ! Suc e) then line_end line e else Suc e)"

text \<open>The line without trailing white space; a line of which one character is left counts as empty.\<close>

definition read_line :: "bytes \<Rightarrow> bytes option option" where
  "read_line raw =
     (let l = takeWhile (\<lambda>c. c \<noteq> 0) raw
      in if l = [] then None
         else let e = line_end l (length l - 1) in Some (if e = 0 then None else Some (take (e + 1) l)))"

lemma fgets_take_append: "fgets_take n s = (l, r) \<Longrightarrow> l @ r = s \<and> (n \<noteq> 0 \<and> s \<noteq> [] \<longrightarrow> l \<noteq> [])"
  by (induction n s arbitrary: l r rule: fgets_take.induct) (auto split: if_splits prod.splits)

lemma fgets_shrinks: "fgets MAX_FIELD_SIZE s = Some (l, r) \<Longrightarrow> length r < length s"
  using fgets_take_append [of "MAX_FIELD_SIZE - 1" s l r] by (auto simp: fgets_def MAX_FIELD_SIZE_def split: if_splits)

function read_first_valid_line :: "csv_reader \<Rightarrow> bytes \<Rightarrow> bytes option option" where
  "read_first_valid_line r s = (case fgets MAX_FIELD_SIZE s of None \<Rightarrow> Some None
     | Some (raw, rest) \<Rightarrow> (case read_line raw of None \<Rightarrow> None
         | Some None \<Rightarrow> read_first_valid_line r rest
         | Some (Some line) \<Rightarrow> if line ! 0 = cr_comment r then read_first_valid_line r rest else Some (Some line)))"
  by pat_completeness auto
termination
  by (relation "measure (\<lambda>(r, s). length s)") (auto dest: fgets_shrinks)

declare read_first_valid_line.simps [simp del]

fun count_fields :: "u8 \<Rightarrow> u8 \<Rightarrow> bytes \<Rightarrow> bool \<Rightarrow> nat" where
  "count_fields delim quote [] inside = 0"
| "count_fields delim quote (c # s) inside =
     (if c = quote then count_fields delim quote s (\<not> inside)
      else if c = delim \<and> \<not> inside then count_fields delim quote s inside + 1
      else count_fields delim quote s inside)"

definition get_num_fields :: "bytes \<Rightarrow> u8 \<Rightarrow> u8 \<Rightarrow> nat" where
  "get_num_fields line delim quote = count_fields delim quote line False + (if line \<noteq> [] then 1 else 0)"

text \<open>
  Storing a field: \<open>dup k\<close> says whether the copy of field \<open>k\<close> can be allocated.  The array has
  \<open>num\<close> entries; the entry is written before anything is checked.
\<close>

definition store_field :: "(nat \<Rightarrow> bool) \<Rightarrow> nat \<Rightarrow> bytes list \<Rightarrow> bytes \<Rightarrow> bytes list option option" where
  "store_field dup num flds field =
     (if length flds < num
      then Some (if dup (length flds) then Some (flds @ [str_trim field]) else None)
      else None)"

fun parse_chars :: "(nat \<Rightarrow> bool) \<Rightarrow> nat \<Rightarrow> u8 \<Rightarrow> u8 \<Rightarrow> bytes \<Rightarrow> bool \<Rightarrow> bytes \<Rightarrow> bytes list \<Rightarrow> bytes list option option" where
  "parse_chars dup num delim quote [] inside field flds =
     (if inside then Some None
      else case store_field dup num flds field of None \<Rightarrow> None | Some None \<Rightarrow> Some None
        | Some (Some flds) \<Rightarrow> Some (if length flds \<noteq> num then None else Some flds))"
| "parse_chars dup num delim quote (c # s) inside field flds =
     (if c = quote then parse_chars dup num delim quote s (\<not> inside) field flds
      else if c = delim \<and> \<not> inside
      then (case store_field dup num flds field of None \<Rightarrow> None | Some None \<Rightarrow> Some None
        | Some (Some flds) \<Rightarrow> parse_chars dup num delim quote s inside [] flds)
      else if length field \<ge> MAX_FIELD_SIZE - 1 then Some None
      else parse_chars dup num delim quote s inside (field @ [c]) flds)"

definition parse_csv_line :: "bool \<Rightarrow> (nat \<Rightarrow> bool) \<Rightarrow> nat \<Rightarrow> u8 \<Rightarrow> u8 \<Rightarrow> bytes \<Rightarrow> bytes list option option" where
  "parse_csv_line array_ok dup num delim quote line =
     (if \<not> array_ok then Some None else parse_chars dup num delim quote line False [] [])"

section \<open>Parsing a file\<close>

text \<open>
  The loop over the lines, with the rows parsed so far.  The result pairs these rows with whether the
  last line parsed; \<open>row_ok\<close> and \<open>dup\<close> are the allocation outcomes of each row.
\<close>

function parse_rows ::
  "(nat \<Rightarrow> bool) \<Rightarrow> (nat \<Rightarrow> nat \<Rightarrow> bool) \<Rightarrow> csv_reader \<Rightarrow> nat \<Rightarrow> bool \<Rightarrow> bytes list list \<Rightarrow> bytes \<Rightarrow> (bytes list list \<times> bool) option" where
  "parse_rows row_ok dup r num header_skipped rows s = (case fgets MAX_FIELD_SIZE s of None \<Rightarrow> Some (rows, True)
     | Some (raw, rest) \<Rightarrow>
       if \<not> length rows < cr_num_rows r then Some (rows, True)
       else (case read_line raw of None \<Rightarrow> None
         | Some None \<Rightarrow> parse_rows row_ok dup r num header_skipped rows rest
         | Some (Some line) \<Rightarrow>
             if line ! 0 = cr_comment r then parse_rows row_ok dup r num header_skipped rows rest
             else if cr_has_header r \<and> cr_skip_header r \<and> length rows = 0 \<and> \<not> header_skipped
             then parse_rows row_ok dup r num True rows rest
             else (case parse_csv_line (row_ok (length rows)) (dup (length rows)) num (cr_delim r) (cr_quote r) line of
                 None \<Rightarrow> None
               | Some None \<Rightarrow> Some (rows, False)
               | Some (Some flds) \<Rightarrow> parse_rows row_ok dup r num header_skipped (rows @ [flds]) rest)))"
  by pat_completeness auto
termination
  by (relation "measure (\<lambda>(ro, d, r, n, h, rows, s). length s)") (auto dest: fgets_shrinks)

declare parse_rows.simps [simp del]

text \<open>What both parsing functions do before the loop: the number of fields, or \<open>None\<close> for an early return.\<close>

definition parse_setup :: "bool \<Rightarrow> csv_reader \<Rightarrow> bytes \<Rightarrow> nat option option" where
  "parse_setup rows_ok r file =
     (if cr_num_rows r = 0 \<or> \<not> rows_ok then Some None
      else do {
        first \<leftarrow> read_first_valid_line r file;
        Some (case first of None \<Rightarrow> None
          | Some line \<Rightarrow> let num = get_num_fields line (cr_delim r) (cr_quote r) in if num = 0 then None else Some num) })"

definition csv_reader_parse ::
  "bool \<Rightarrow> (nat \<Rightarrow> bool) \<Rightarrow> (nat \<Rightarrow> nat \<Rightarrow> bool) \<Rightarrow> csv_reader \<Rightarrow> bytes \<Rightarrow> (bytes list list option \<times> csv_reader) option" where
  "csv_reader_parse rows_ok row_ok dup r file =
     (let r = r\<lparr>cr_num_rows := line_count r file\<rparr>
      in do {
        setup \<leftarrow> parse_setup rows_ok r file;
        case setup of None \<Rightarrow> Some (None, r)
        | Some num \<Rightarrow> do {
            (rows, success) \<leftarrow> parse_rows row_ok dup r num False [] file;
            Some (if success then Some rows else None, r) } })"

text \<open>The second result is the list of rows passed to the callback, in order.\<close>

definition csv_reader_parse_async ::
  "bool \<Rightarrow> (nat \<Rightarrow> bool) \<Rightarrow> (nat \<Rightarrow> nat \<Rightarrow> bool) \<Rightarrow> csv_reader \<Rightarrow> nat \<Rightarrow> bytes \<Rightarrow> (csv_reader \<times> bytes list list) option" where
  "csv_reader_parse_async rows_ok row_ok dup r maxrows file =
     (let n = line_count r file;
          r = r\<lparr>cr_num_rows := (if maxrows > 0 \<and> maxrows < n then maxrows else n)\<rparr>
      in do {
        setup \<leftarrow> parse_setup rows_ok r file;
        case setup of None \<Rightarrow> Some (r, [])
        | Some num \<Rightarrow> do {
            (rows, success) \<leftarrow> parse_rows row_ok dup r num False [] file;
            Some (r, rows) } })"

section \<open>The writer\<close>

text \<open>A stream that accepts \<open>st_room\<close> more characters.\<close>

record stream =
  st_out :: bytes
  st_room :: nat
  st_err :: bool

record csv_writer =
  cw_delim :: u8
  cw_quote :: u8
  cw_newline :: u8
  cw_quote_all :: bool
  cw_flush :: bool

definition csvwriter_new :: "bool \<Rightarrow> bool \<Rightarrow> csv_writer option" where
  "csvwriter_new malloc_ok file_ok = (if malloc_ok \<and> file_ok
     then Some \<lparr>cw_delim = 44, cw_quote = 34, cw_newline = 10, cw_quote_all = False, cw_flush = False\<rparr> else None)"

text \<open>The configuration for writing; its newline character is not used.\<close>

definition csvwriter_setconfig :: "csv_writer \<Rightarrow> csv_writer \<Rightarrow> csv_writer" where
  "csvwriter_setconfig w c =
     w\<lparr>cw_delim := (if cw_delim c \<noteq> 0 then cw_delim c else cw_delim w),
       cw_quote := (if cw_quote c \<noteq> 0 then cw_quote c else cw_quote w),
       cw_quote_all := cw_quote_all c, cw_flush := cw_flush c\<rparr>"

definition fputc :: "u8 \<Rightarrow> stream \<Rightarrow> bool \<times> stream" where
  "fputc c st = (if st_room st = 0 then (False, st\<lparr>st_err := True\<rparr>)
     else (True, st\<lparr>st_out := st_out st @ [c], st_room := st_room st - 1\<rparr>))"

fun fputs :: "bytes \<Rightarrow> stream \<Rightarrow> bool \<times> stream" where
  "fputs [] st = (True, st)"
| "fputs (c # s) st = (case fputc c st of (False, st) \<Rightarrow> (False, st) | (True, st) \<Rightarrow> fputs s st)"

text \<open>\<^verbatim>\<open>strchr\<close> finds the terminator too.\<close>

definition strchr :: "bytes \<Rightarrow> u8 \<Rightarrow> bool" where
  "strchr s c \<longleftrightarrow> c \<in> set s \<or> c = 0"

definition field_needs_quoting :: "bytes \<Rightarrow> u8 \<Rightarrow> u8 \<Rightarrow> u8 \<Rightarrow> bool" where
  "field_needs_quoting field delim quote newline \<longleftrightarrow> strchr field delim \<or> strchr field quote \<or> strchr field newline"

fun write_escaped :: "bytes \<Rightarrow> u8 \<Rightarrow> stream \<Rightarrow> bool \<times> stream" where
  "write_escaped [] quote st = (True, st)"
| "write_escaped (c # s) quote st =
     (if c = quote
      then case fputc quote st of (False, st) \<Rightarrow> (False, st)
        | (True, st) \<Rightarrow> (case fputc quote st of (False, st) \<Rightarrow> (False, st) | (True, st) \<Rightarrow> write_escaped s quote st)
      else case fputc c st of (False, st) \<Rightarrow> (False, st) | (True, st) \<Rightarrow> write_escaped s quote st)"

definition write_quoted_field :: "bytes \<Rightarrow> u8 \<Rightarrow> stream \<Rightarrow> bool \<times> stream" where
  "write_quoted_field field quote st = (case fputc quote st of (False, st) \<Rightarrow> (False, st)
     | (True, st) \<Rightarrow> (case write_escaped field quote st of (False, st) \<Rightarrow> (False, st)
         | (True, st) \<Rightarrow> fputc quote st))"

text \<open>A missing field (NULL) is written as the empty string.\<close>

definition write_single_field :: "bytes option \<Rightarrow> bool \<Rightarrow> u8 \<Rightarrow> u8 \<Rightarrow> u8 \<Rightarrow> stream \<Rightarrow> bool \<times> stream" where
  "write_single_field field quote_all delim quote newline st =
     (let field = (case field of None \<Rightarrow> [] | Some f \<Rightarrow> f)
      in if quote_all \<or> field_needs_quoting field delim quote newline
         then write_quoted_field field quote st else fputs field st)"

fun write_fields :: "csv_writer \<Rightarrow> bool \<Rightarrow> bytes option list \<Rightarrow> stream \<Rightarrow> bool \<times> stream" where
  "write_fields w first [] st = (True, st)"
| "write_fields w first (f # fs) st =
     (case (if first then (True, st) else fputc (cw_delim w) st) of (False, st) \<Rightarrow> (False, st)
      | (True, st) \<Rightarrow>
          (case write_single_field f (cw_quote_all w) (cw_delim w) (cw_quote w) (cw_newline w) st of (False, st) \<Rightarrow> (False, st)
           | (True, st) \<Rightarrow> write_fields w False fs st))"

text \<open>
  \<open>flds\<close> is \<open>None\<close> for a NULL array and \<open>numfields\<close> the count passed with it.  Without fields \<^verbatim>\<open>fp\<close> is still
  NULL when it is checked for errors at the end.  \<open>flush_ok\<close>: the outcome of \<^verbatim>\<open>fflush\<close>.
\<close>

definition csvwriter_write_row ::
  "bool \<Rightarrow> csv_writer option \<Rightarrow> bytes option list option \<Rightarrow> nat \<Rightarrow> stream \<Rightarrow> (bool \<times> stream) option" where
  "csvwriter_write_row flush_ok writer flds numfields st = (case writer of None \<Rightarrow> Some (False, st)
     | Some w \<Rightarrow>
       if flds = None \<and> numfields > 0 then Some (False, st)
       else if numfields = 0
       then (case fputc (cw_newline w) st of (False, st) \<Rightarrow> Some (False, st) | (True, st) \<Rightarrow> None)
       else if st_err st then Some (False, st)
       else if length (the flds) < numfields then None
       else (case write_fields w True (take numfields (the flds)) st of (False, st) \<Rightarrow> Some (False, st)
         | (True, st) \<Rightarrow> (case fputc (cw_newline w) st of (False, st) \<Rightarrow> Some (False, st)
             | (True, st) \<Rightarrow> if cw_flush w \<and> \<not> flush_ok then Some (False, st) else Some (\<not> st_err st, st))))"

end
