(* ===== verification/Csv_Correct.thy ===== *)
theory Csv_Correct
  imports Csv
begin

text \<open>
  The CSV functions against reference definitions: the lines of a file, the cells of a line and the
  text of a row.
\<close>

section \<open>Counting lines\<close>

lemma memchr_bound: "memchr p c = Some k \<Longrightarrow> k < length p"
  by (induction p c arbitrary: k rule: memchr.induct) (auto split: if_splits)

lemma count_block_fold: "count_block r p s = fold (count_char r) p s"
proof (induction r p s rule: count_block.induct)
  case (1 r p s)
  show ?case
  proof (cases "p = []")
    case True
    then show ?thesis by (simp add: count_block.simps)
  next
    case False
    let ?e = "case memchr p 10 of Some nl \<Rightarrow> nl + 1 | None \<Rightarrow> length p"
    have "count_block r p s = fold (count_char r) (drop ?e p) (fold (count_char r) (take ?e p) s)"
      using 1 False by (subst count_block.simps) (simp add: Let_def)
    also have "\<dots> = fold (count_char r) (take ?e p @ drop ?e p) s" by (simp only: fold_append o_apply)
    finally show ?thesis by simp
  qed
qed

lemma count_blocks_fold: "count_blocks r p s = fold (count_char r) p s"
proof (induction r p s rule: count_blocks.induct)
  case (1 r p s)
  show ?case
  proof (cases "p = []")
    case True
    then show ?thesis by (simp add: count_blocks.simps)
  next
    case False
    then have "count_blocks r p s = fold (count_char r) (drop CSV_READ_BUFSIZE p) (fold (count_char r) (take CSV_READ_BUFSIZE p) s)"
      using 1 by (subst count_blocks.simps) (simp add: count_block_fold)
    also have "\<dots> = fold (count_char r) (take CSV_READ_BUFSIZE p @ drop CSV_READ_BUFSIZE p) s" by (simp only: fold_append o_apply)
    finally show ?thesis by simp
  qed
qed

text \<open>The lines of a file, without their newlines; a newline at the end starts no further line.\<close>

function file_lines :: "bytes \<Rightarrow> bytes list" where
  "file_lines s = (if s = [] then [] else takeWhile (\<lambda>c. c \<noteq> 10) s # file_lines (drop 1 (dropWhile (\<lambda>c. c \<noteq> 10) s)))"
  by pat_completeness auto
termination
proof (relation "measure length")
  fix s :: bytes assume "s \<noteq> []"
  then have "0 < length s" by simp
  then have "length (dropWhile (\<lambda>c. c \<noteq> 10) s) - 1 < length s" using length_dropWhile_le [of "\<lambda>c. c \<noteq> 10" s] by arith
  then show "(drop 1 (dropWhile (\<lambda>c. c \<noteq> 10) s), s) \<in> measure length" by simp
qed simp

declare file_lines.simps [simp del]

lemma file_lines_simps [simp]:
  "file_lines [] = []" "10 \<notin> set l \<Longrightarrow> file_lines (l @ 10 # s) = l # file_lines s"
  "10 \<notin> set l \<Longrightarrow> l \<noteq> [] \<Longrightarrow> file_lines l = [l]"
proof -
  show "file_lines [] = []" by (subst file_lines.simps) simp
  show "file_lines (l @ 10 # s) = l # file_lines s" if "10 \<notin> set l"
  proof -
    have "takeWhile (\<lambda>c. c \<noteq> 10) (l @ 10 # s) = l" "dropWhile (\<lambda>c. c \<noteq> 10) (l @ 10 # s) = 10 # s"
      using that by (auto simp: takeWhile_append dropWhile_append)
    then show ?thesis by (subst file_lines.simps) simp
  qed
  show "file_lines l = [l]" if "10 \<notin> set l" "l \<noteq> []"
  proof -
    have tw: "takeWhile (\<lambda>c. c \<noteq> 10) l = l" and dw: "dropWhile (\<lambda>c. c \<noteq> 10) l = []" using that by (auto simp: takeWhile_eq_all_conv)
    have "file_lines l = takeWhile (\<lambda>c. c \<noteq> 10) l # file_lines (drop 1 (dropWhile (\<lambda>c. c \<noteq> 10) l))"
      using that(2) by (subst file_lines.simps) simp
    then show ?thesis unfolding tw dw using \<open>file_lines [] = []\<close> by simp
  qed
qed

text \<open>A line that counts: it is no comment and has a character other than a blank, tab or carriage return.\<close>

definition data_line :: "csv_reader \<Rightarrow> bytes \<Rightarrow> bool" where
  "data_line r l \<longleftrightarrow> l \<noteq> [] \<and> hd l \<noteq> cr_comment r \<and> (\<exists>c\<in>set l. c \<noteq> 13 \<and> c \<noteq> 32 \<and> c \<noteq> 9)"

definition skips :: "csv_reader \<Rightarrow> bool" where
  "skips r \<longleftrightarrow> cr_has_header r \<and> cr_skip_header r"

lemma fold_skipped:
  "10 \<notin> set l \<Longrightarrow> lc_skip_line s \<Longrightarrow> fold (count_char r) l s = s"
  by (induction l) (auto simp: count_char_def)

lemma fold_rest:
  assumes "10 \<notin> set l" "\<not> lc_skip_line s" "\<not> lc_first_char s"
  shows "fold (count_char r) l s = s\<lparr>lc_blank := lc_blank s \<and> \<not> (\<exists>c\<in>set l. c \<noteq> 13 \<and> c \<noteq> 32 \<and> c \<noteq> 9)\<rparr>"
  using assms
proof (induction l arbitrary: s)
  case (Cons c l)
  then have "count_char r c s = (if c \<noteq> 13 \<and> c \<noteq> 32 \<and> c \<noteq> 9 then s\<lparr>lc_blank := False\<rparr> else s)"
    by (auto simp: count_char_def)
  then show ?case using Cons by (cases "c \<noteq> 13 \<and> c \<noteq> 32 \<and> c \<noteq> 9") auto
qed simp

text \<open>The state after a line without its newline.\<close>

lemma fold_line:
  assumes "10 \<notin> set l" "lc_first_char s" "\<not> lc_skip_line s" "lc_blank s"
  shows "lc_lines (fold (count_char r) l s) = lc_lines s" "lc_header_skipped (fold (count_char r) l s) = lc_header_skipped s"
    "\<not> lc_skip_line (fold (count_char r) l s) \<and> \<not> lc_blank (fold (count_char r) l s) \<longleftrightarrow> data_line r l"
proof -
  have "lc_lines (fold (count_char r) l s) = lc_lines s \<and> lc_header_skipped (fold (count_char r) l s) = lc_header_skipped s \<and>
    (\<not> lc_skip_line (fold (count_char r) l s) \<and> \<not> lc_blank (fold (count_char r) l s) \<longleftrightarrow> data_line r l)"
  proof (cases l)
    case Nil
    then show ?thesis using assms by (simp add: data_line_def)
  next
    case (Cons c k)
    show ?thesis
    proof (cases "c = cr_comment r")
      case True
      then have "count_char r c s = s\<lparr>lc_first_char := False, lc_skip_line := True\<rparr>"
        using assms Cons by (auto simp: count_char_def)
      then show ?thesis using Cons True assms fold_skipped [of k] by (auto simp: data_line_def)
    next
      case False
      then have "count_char r c s = s\<lparr>lc_first_char := False, lc_blank := \<not> (c \<noteq> 13 \<and> c \<noteq> 32 \<and> c \<noteq> 9)\<rparr>"
        using assms Cons by (auto simp: count_char_def Let_def)
      then show ?thesis
        using Cons False assms fold_rest [of k "s\<lparr>lc_first_char := False, lc_blank := \<not> (c \<noteq> 13 \<and> c \<noteq> 32 \<and> c \<noteq> 9)\<rparr>" r]
        by (auto simp: data_line_def)
    qed
  qed
  then show "lc_lines (fold (count_char r) l s) = lc_lines s" "lc_header_skipped (fold (count_char r) l s) = lc_header_skipped s"
    "\<not> lc_skip_line (fold (count_char r) l s) \<and> \<not> lc_blank (fold (count_char r) l s) \<longleftrightarrow> data_line r l" by auto
qed

text \<open>The number of lines counted when \<open>n\<close> data lines are still to come.\<close>

definition counted :: "csv_reader \<Rightarrow> count_state \<Rightarrow> nat \<Rightarrow> nat" where
  "counted r s n = (if skips r \<and> \<not> lc_header_skipped s \<and> lc_lines s = 0 then n - 1 else lc_lines s + n)"

definition finish_count :: "csv_reader \<Rightarrow> count_state \<Rightarrow> nat" where
  "finish_count r s = (if \<not> lc_skip_line s \<and> \<not> lc_blank s
     then if cr_has_header r \<and> cr_skip_header r \<and> \<not> lc_header_skipped s \<and> lc_lines s = 0 then lc_lines s else lc_lines s + 1
     else lc_lines s)"

lemma finish_count_fold:
  assumes "lc_first_char s" "\<not> lc_skip_line s" "lc_blank s"
  shows "finish_count r (fold (count_char r) p s) = counted r s (length (filter (data_line r) (file_lines p)))"
  using assms
proof (induction p arbitrary: s rule: measure_induct_rule [of length])
  case (less p)
  show ?case
  proof (cases "10 \<in> set p")
    case False
    show ?thesis
      using fold_line [OF False less.prems, of r] False
      by (cases "p = []") (auto simp: finish_count_def counted_def skips_def data_line_def)
  next
    case True
    then obtain l k where p: "p = l @ 10 # k" "10 \<notin> set l" by (meson split_list_first)
    let ?t = "fold (count_char r) l s"
    note f = fold_line [OF p(2) less.prems, of r]
    define u where "u = count_char r 10 ?t"
    have u: "lc_first_char u" "\<not> lc_skip_line u" "lc_blank u"
      by (auto simp: u_def count_char_def Let_def)
    have eff: "lc_lines u = lc_lines s + (if data_line r l \<and> \<not> (skips r \<and> \<not> lc_header_skipped s \<and> lc_lines s = 0) then 1 else 0)"
      "lc_header_skipped u = (lc_header_skipped s \<or> data_line r l \<and> skips r \<and> lc_lines s = 0)"
      using f by (auto simp: u_def count_char_def Let_def skips_def)
    have "finish_count r (fold (count_char r) p s) = finish_count r (fold (count_char r) k u)"
      unfolding p(1) by (simp add: u_def)
    also have "\<dots> = counted r u (length (filter (data_line r) (file_lines k)))"
      using less.IH [of k u] u p(1) by simp
    also have "\<dots> = counted r s (length (filter (data_line r) (file_lines p)))"
      unfolding p(1) using p(2) eff by (auto simp: counted_def)
    finally show ?thesis .
  qed
qed

lemma line_count_eq:
  "line_count r file = (let n = length (filter (data_line r) (file_lines file)) in if skips r then n - 1 else n)"
proof -
  have "line_count r file = finish_count r (fold (count_char r) file count_start)"
    by (simp add: line_count_def finish_count_def count_blocks_fold Let_def)
  also have "\<dots> = counted r count_start (length (filter (data_line r) (file_lines file)))"
    by (rule finish_count_fold) (simp_all add: count_start_def)
  finally show ?thesis by (simp add: counted_def count_start_def Let_def)
qed

section \<open>The cells of a line\<close>

text \<open>A line split at the delimiters outside quotes, with the quotes removed.\<close>

fun csv_cells :: "u8 \<Rightarrow> u8 \<Rightarrow> bytes \<Rightarrow> bool \<Rightarrow> bytes list" where
  "csv_cells delim quote [] inside = [[]]"
| "csv_cells delim quote (c # s) inside =
     (if c = quote then csv_cells delim quote s (\<not> inside)
      else if c = delim \<and> \<not> inside then [] # csv_cells delim quote s inside
      else (c # hd (csv_cells delim quote s inside)) # tl (csv_cells delim quote s inside))"

definition unclosed :: "u8 \<Rightarrow> bytes \<Rightarrow> bool \<Rightarrow> bool" where
  "unclosed quote s inside \<longleftrightarrow> inside \<noteq> odd (length (filter (\<lambda>c. c = quote) s))"

lemma csv_cells_nonempty [simp]: "csv_cells d q s ins \<noteq> []"
  by (induction d q s ins rule: csv_cells.induct) auto

lemma length_csv_cells: "length (csv_cells d q s ins) = count_fields d q s ins + 1"
  by (induction d q s ins rule: csv_cells.induct) (auto simp: Suc_diff_le Suc_leI)

lemma unclosed_simps [simp]:
  "unclosed q [] ins = ins" "unclosed q (c # s) ins = (if c = q then unclosed q s (\<not> ins) else unclosed q s ins)"
  by (auto simp: unclosed_def)

text \<open>
  Parsing a line when every allocation succeeds: a store behind the array if the line has more cells
  than the array, otherwise a failure if a quote is not closed or cells are missing.
\<close>

lemma parse_chars_cells:
  assumes "length field + length s < MAX_FIELD_SIZE" "length fs \<le> num"
  shows "parse_chars (\<lambda>_. True) num d q s ins field fs =
    (let cs = csv_cells d q s ins; n = length fs + length cs
     in if num < n - (if unclosed q s ins then 1 else 0) then None
        else if unclosed q s ins \<or> n \<noteq> num then Some None
        else Some (Some (fs @ map str_trim ((field @ hd cs) # tl cs))))"
  using assms
proof (induction s arbitrary: ins field fs)
  case Nil
  then show ?case by (auto simp: store_field_def)
next
  case (Cons c s)
  have hc: "hd (csv_cells d q s b) # tl (csv_cells d q s b) = csv_cells d q s b" for b by simp
  have len: "0 < length (csv_cells d q s b)" for b by simp
  consider "c = q" | "c \<noteq> q" "c = d" "\<not> ins" | "c \<noteq> q" "\<not> (c = d \<and> \<not> ins)" by blast
  then show ?case
  proof cases
    case 1
    then show ?thesis using Cons.IH [of field fs "\<not> ins"] Cons.prems by (simp add: Let_def)
  next
    case 2
    show ?thesis
    proof (cases "length fs < num")
      case True
      then have "parse_chars (\<lambda>_. True) num d q (c # s) ins field fs = parse_chars (\<lambda>_. True) num d q s ins [] (fs @ [str_trim field])"
        using 2 by (simp add: store_field_def)
      also have "\<dots> = (let cs = csv_cells d q s ins; n = length (fs @ [str_trim field]) + length cs
        in if num < n - (if unclosed q s ins then 1 else 0) then None
          else if unclosed q s ins \<or> n \<noteq> num then Some None
          else Some (Some ((fs @ [str_trim field]) @ map str_trim (([] @ hd cs) # tl cs))))"
        using Cons.prems True by (intro Cons.IH) auto
      finally show ?thesis using 2 by (simp add: Let_def del: parse_chars.simps)
    next
      case False
      then have "length fs = num" using Cons.prems(2) by simp
      then show ?thesis using 2 len [of ins] by (auto simp: store_field_def)
    qed
  next
    case 3
    have "\<not> MAX_FIELD_SIZE - 1 \<le> length field" using Cons.prems(1) by simp
    then have "parse_chars (\<lambda>_. True) num d q (c # s) ins field fs = parse_chars (\<lambda>_. True) num d q s ins (field @ [c]) fs"
      using 3 by auto
    moreover have "csv_cells d q (c # s) ins = (c # hd (csv_cells d q s ins)) # tl (csv_cells d q s ins)"
      "unclosed q (c # s) ins = unclosed q s ins" using 3 by auto
    moreover have "length ((c # hd (csv_cells d q s ins)) # tl (csv_cells d q s ins)) = length (csv_cells d q s ins)"
      using len [of ins] by simp
    ultimately show ?thesis using Cons.IH [of "field @ [c]" fs ins] Cons.prems
      by (simp add: Let_def del: parse_chars.simps csv_cells.simps unclosed_simps)
  qed
qed

section \<open>Writing\<close>

definition emit :: "bytes \<Rightarrow> stream \<Rightarrow> bool \<times> stream" where
  "emit bs st = (if length bs \<le> st_room st then (True, st\<lparr>st_out := st_out st @ bs, st_room := st_room st - length bs\<rparr>)
     else (False, st\<lparr>st_out := st_out st @ take (st_room st) bs, st_room := 0, st_err := True\<rparr>))"

lemma emit_append: "emit (a @ b) st = (case emit a st of (False, st) \<Rightarrow> (False, st) | (True, st) \<Rightarrow> emit b st)"
  by (auto simp: emit_def)

lemma emit_Nil: "emit [] st = (True, st)"
  by (simp add: emit_def)

lemma fputc_emit: "fputc c st = emit [c] st"
  by (cases "st_room st") (simp_all add: fputc_def emit_def)

lemma emit_Cons: "emit (c # bs) st = (case emit [c] st of (False, st) \<Rightarrow> (False, st) | (True, st) \<Rightarrow> emit bs st)"
  using emit_append [of "[c]" bs st] by simp

lemma fputs_emit: "fputs s st = emit s st"
proof (induction s st rule: fputs.induct)
  case (2 c s st)
  then show ?case by (auto simp: fputc_emit emit_Cons [of c s] split: prod.splits bool.splits)
qed (simp add: emit_Nil)

fun escape :: "u8 \<Rightarrow> bytes \<Rightarrow> bytes" where
  "escape q [] = []"
| "escape q (c # s) = (if c = q then [q, q] else [c]) @ escape q s"

lemma write_escaped_emit: "write_escaped s q st = emit (escape q s) st"
proof (induction s q st rule: write_escaped.induct)
  case (2 c s q st)
  show ?case
    using 2 by (auto simp: fputc_emit emit_Cons [of q "q # escape q s"] emit_Cons [of q "escape q s"] emit_Cons [of c "escape q s"]
      split: prod.splits bool.splits)
qed (simp add: emit_Nil)

definition field_text :: "csv_writer \<Rightarrow> bytes \<Rightarrow> bytes" where
  "field_text w f = (if cw_quote_all w \<or> field_needs_quoting f (cw_delim w) (cw_quote w) (cw_newline w)
     then cw_quote w # escape (cw_quote w) f @ [cw_quote w] else f)"

definition row_text :: "csv_writer \<Rightarrow> bytes list \<Rightarrow> bytes" where
  "row_text w row = intersperse [cw_delim w] (map (field_text w) row)"

lemma row_text_Nil [simp]: "row_text w [] = []"
  by (simp add: row_text_def)

lemma write_single_field_emit:
  "write_single_field (Some f) (cw_quote_all w) (cw_delim w) (cw_quote w) (cw_newline w) st = emit (field_text w f) st"
proof -
  have "write_quoted_field f q st = emit (q # escape q f @ [q]) st" for q
    unfolding write_quoted_field_def fputc_emit write_escaped_emit
    using emit_append [of "[q]" "escape q f @ [q]" st]
    by (auto simp: emit_append [of "escape q f"] split: prod.splits bool.splits)
  then show ?thesis by (simp add: write_single_field_def field_text_def fputs_emit Let_def)
qed

lemma write_fields_emit:
  "write_fields w first (map Some row) st =
     emit (if first \<or> row = [] then row_text w row else cw_delim w # row_text w row) st"
proof (induction row arbitrary: first st)
  case (Cons f row)
  have r: "row_text w (f # row) = field_text w f @ (if row = [] then row_text w row else cw_delim w # row_text w row)"
    by (cases row) (simp_all add: row_text_def)
  show ?case
    by (cases first) (auto simp: r Cons.IH write_single_field_emit fputc_emit emit_append [of "field_text w f"]
      emit_Cons [of "cw_delim w" "field_text w f @ _"] emit_Nil split: prod.splits bool.splits)
qed (simp add: emit_Nil)

end
