(* ===== verification/Csv_Theorems.thy ===== *)
theory Csv_Theorems
  imports Csv_Correct
begin

text \<open>
  The properties of the CSV functions: the number of lines, the fields of a line on every branch,
  and the round trip of a table through the writer and the reader.
\<close>

section \<open>Writing a table\<close>

lemma write_row_emit:
  assumes "row \<noteq> []" "\<not> st_err st"
  shows "csvwriter_write_row True (Some w) (Some (map Some row)) (length row) st = Some (emit (row_text w row @ [cw_newline w]) st)"
  using assms
  by (auto simp: csvwriter_write_row_def write_fields_emit fputc_emit emit_append emit_def split: prod.splits bool.splits)

fun csv_write_all :: "csv_writer \<Rightarrow> bytes list list \<Rightarrow> stream \<Rightarrow> (bool \<times> stream) option" where
  "csv_write_all w [] st = Some (True, st)"
| "csv_write_all w (row # rows) st = (case csvwriter_write_row True (Some w) (Some (map Some row)) (length row) st of
       None \<Rightarrow> None | Some (False, st) \<Rightarrow> Some (False, st) | Some (True, st) \<Rightarrow> csv_write_all w rows st)"

definition table_text :: "csv_writer \<Rightarrow> bytes list list \<Rightarrow> bytes" where
  "table_text w rows = concat (map (\<lambda>row. row_text w row @ [cw_newline w]) rows)"

lemma csv_write_all_text:
  assumes "[] \<notin> set rows" "\<not> st_err st" "length (table_text w rows) \<le> st_room st"
  shows "\<exists>st'. csv_write_all w rows st = Some (True, st') \<and> st_out st' = st_out st @ table_text w rows \<and> \<not> st_err st'"
  using assms
proof (induction rows arbitrary: st)
  case (Cons row rows)
  have room: "length (row_text w row @ [cw_newline w]) \<le> st_room st"
    "length (table_text w rows) \<le> st_room st - length (row_text w row @ [cw_newline w])"
    using Cons.prems(3) by (auto simp: table_text_def)
  define s1 where "s1 = st\<lparr>st_out := st_out st @ row_text w row @ [cw_newline w], st_room := st_room st - length (row_text w row @ [cw_newline w])\<rparr>"
  have e: "emit (row_text w row @ [cw_newline w]) st = (True, s1)" using room(1) by (simp add: emit_def s1_def)
  obtain st' where "csv_write_all w rows s1 = Some (True, st')" "st_out st' = st_out s1 @ table_text w rows" "\<not> st_err st'"
    using Cons.IH [of s1] Cons.prems(1,2) room(2) by (auto simp: s1_def)
  moreover have "row \<noteq> []" using Cons.prems(1) by auto
  ultimately show ?case using write_row_emit [of row st w] Cons.prems(2) by (simp add: e s1_def table_text_def)
qed (simp add: table_text_def)

section \<open>Reading a row back\<close>

text \<open>The writer and the reader agree on the delimiter and the quote, which are visible characters.\<close>

definition csv_match :: "csv_writer \<Rightarrow> csv_reader \<Rightarrow> bool" where
  "csv_match w r \<longleftrightarrow> cr_delim r = cw_delim w \<and> cr_quote r = cw_quote w \<and> cw_delim w \<noteq> cw_quote w \<and> cw_newline w = 10 \<and>
     \<not> isspace (cw_delim w) \<and> \<not> isspace (cw_quote w) \<and> cw_delim w \<noteq> 0 \<and> cw_quote w \<noteq> 0"

text \<open>
  A row that survives: fields without quotes, newlines and NULs and without white space at their ends,
  and a text of 2 to 1022 bytes that does not start as a comment.
\<close>

definition plain_row :: "csv_writer \<Rightarrow> csv_reader \<Rightarrow> nat \<Rightarrow> bytes list \<Rightarrow> bool" where
  "plain_row w r k row \<longleftrightarrow> row \<noteq> [] \<and> length row = k \<and>
     (\<forall>f\<in>set row. cw_quote w \<notin> set f \<and> 10 \<notin> set f \<and> 0 \<notin> set f \<and> str_trim f = f) \<and>
     2 \<le> length (row_text w row) \<and> length (row_text w row) \<le> 1022 \<and> hd (row_text w row) \<noteq> cr_comment r"

lemma escape_plain: "q \<notin> set f \<Longrightarrow> escape q f = f"
  by (induction f) auto

lemma cells_inside:
  "q \<notin> set f \<Longrightarrow> csv_cells d q (f @ s) True = (f @ hd (csv_cells d q s True)) # tl (csv_cells d q s True)"
  by (induction f) auto

lemma cells_outside:
  "q \<notin> set f \<Longrightarrow> d \<notin> set f \<Longrightarrow> csv_cells d q (f @ s) False = (f @ hd (csv_cells d q s False)) # tl (csv_cells d q s False)"
  by (induction f) auto

lemma unclosed_append: "q \<notin> set f \<Longrightarrow> unclosed q (f @ s) ins = unclosed q s ins"
  by (induction f) auto

lemma cells_field_text:
  assumes "cw_quote w \<notin> set f" "cw_delim w \<noteq> cw_quote w" "cw_delim w \<noteq> 0" "cw_quote w \<noteq> 0"
  shows "csv_cells (cw_delim w) (cw_quote w) (field_text w f @ s) False =
      (f @ hd (csv_cells (cw_delim w) (cw_quote w) s False)) # tl (csv_cells (cw_delim w) (cw_quote w) s False)"
    "unclosed (cw_quote w) (field_text w f @ s) False = unclosed (cw_quote w) s False"
proof -
  have "cw_delim w \<notin> set f" if "\<not> field_needs_quoting f (cw_delim w) (cw_quote w) (cw_newline w)"
    using that by (auto simp: field_needs_quoting_def strchr_def)
  then show "csv_cells (cw_delim w) (cw_quote w) (field_text w f @ s) False =
      (f @ hd (csv_cells (cw_delim w) (cw_quote w) s False)) # tl (csv_cells (cw_delim w) (cw_quote w) s False)"
    using assms cells_inside [OF assms(1), of "cw_delim w" "cw_quote w # s"] cells_outside [OF assms(1), of "cw_delim w" s]
    by (auto simp: field_text_def escape_plain)
  show "unclosed (cw_quote w) (field_text w f @ s) False = unclosed (cw_quote w) s False"
    using assms unclosed_append [OF assms(1)] by (auto simp: field_text_def escape_plain)
qed

lemma cells_row_text:
  assumes "csv_match w r" "row \<noteq> []" "\<forall>f\<in>set row. cw_quote w \<notin> set f"
  shows "csv_cells (cw_delim w) (cw_quote w) (row_text w row) False = row" "\<not> unclosed (cw_quote w) (row_text w row) False"
proof -
  have m: "cw_delim w \<noteq> cw_quote w" "cw_delim w \<noteq> 0" "cw_quote w \<noteq> 0" using assms(1) by (auto simp: csv_match_def)
  have "csv_cells (cw_delim w) (cw_quote w) (row_text w row) False = row \<and> \<not> unclosed (cw_quote w) (row_text w row) False"
    using assms(2,3)
  proof (induction row rule: list_nonempty_induct)
    case (single f)
    then show ?case using cells_field_text [of w f "[]"] m by (simp add: row_text_def)
  next
    case (cons f row)
    then have "row_text w (f # row) = field_text w f @ cw_delim w # row_text w row"
      by (simp add: row_text_def intersperse_Cons)
    then show ?case using cells_field_text [of w f "cw_delim w # row_text w row"] m cons by simp
  qed
  then show "csv_cells (cw_delim w) (cw_quote w) (row_text w row) False = row" "\<not> unclosed (cw_quote w) (row_text w row) False"
    by auto
qed

lemma rtrim_len_le: "rtrim_len s n \<le> n"
  by (induction n) auto

lemma trimmed_last:
  assumes "str_trim f = f" "f \<noteq> []"
  shows "\<not> isspace (last f)"
proof
  assume sp: "isspace (last f)"
  obtain n where n: "length f = Suc n" using assms(2) by (cases f) auto
  then have "f ! n = last f" using assms(2) by (simp add: last_conv_nth)
  then have "rtrim_len f (length f) \<le> n" using sp rtrim_len_le [of f n] n by simp
  then have "length (str_rtrim f) \<le> n" using assms(2) by (simp add: str_rtrim_def min.coboundedI2)
  moreover have "length (str_ltrim g) \<le> length g" for g by (simp add: str_ltrim_def)
  ultimately have "length (str_trim f) \<le> n" using assms(2) by (simp add: str_trim_def) (meson order.trans)
  then show False using assms(1) n by simp
qed

lemma last_row_text:
  assumes "csv_match w r" "row \<noteq> []" "\<forall>f\<in>set row. str_trim f = f" "row_text w row \<noteq> []"
  shows "\<not> isspace (last (row_text w row))"
  using assms(2-)
proof (induction row rule: list_nonempty_induct)
  case (single f)
  then show ?case
    using assms(1) trimmed_last [of f] by (auto simp: row_text_def field_text_def csv_match_def split: if_splits)
next
  case (cons f row)
  then have "row_text w (f # row) = field_text w f @ cw_delim w # row_text w row"
    by (simp add: row_text_def intersperse_Cons)
  then show ?case using cons assms(1) by (cases "row_text w row = []") (auto simp: csv_match_def)
qed

lemma set_row_text:
  assumes "csv_match w r" "c \<noteq> cw_delim w" "c \<noteq> cw_quote w" "\<forall>f\<in>set row. c \<notin> set f"
  shows "c \<notin> set (row_text w row)"
proof -
  have e: "set (escape q f) \<subseteq> insert q (set f)" for q f by (induction f) auto
  have "c \<notin> set (field_text w f)" if "f \<in> set row" for f
    using assms that e [of "cw_quote w" f] by (auto simp: field_text_def)
  moreover have "set (intersperse d xs) \<subseteq> set d \<union> (\<Union>x\<in>set xs. set x)" for d xs
    by (induction d xs rule: intersperse.induct) auto
  ultimately show ?thesis using assms(2) unfolding row_text_def by fastforce
qed

lemma plain_row_text:
  assumes "csv_match w r" "plain_row w r k row"
  shows "row_text w row \<noteq> []" "\<not> isspace (last (row_text w row))" "0 \<notin> set (row_text w row)" "10 \<notin> set (row_text w row)"
    "hd (row_text w row) \<noteq> cr_comment r" "get_num_fields (row_text w row) (cr_delim r) (cr_quote r) = k"
    "parse_csv_line True (\<lambda>_. True) k (cr_delim r) (cr_quote r) (row_text w row) = Some (Some row)"
proof -
  have m: "cw_delim w \<noteq> 0" "cw_quote w \<noteq> 0" "cw_delim w \<noteq> 10" "cw_quote w \<noteq> 10" "cr_delim r = cw_delim w" "cr_quote r = cw_quote w"
    using assms(1) by (auto simp: csv_match_def isspace_def)
  have p: "row \<noteq> []" "length row = k" "2 \<le> length (row_text w row)" "length (row_text w row) \<le> 1022"
    "\<forall>f\<in>set row. cw_quote w \<notin> set f" "\<forall>f\<in>set row. 10 \<notin> set f" "\<forall>f\<in>set row. 0 \<notin> set f" "\<forall>f\<in>set row. str_trim f = f"
    using assms(2) by (auto simp: plain_row_def)
  show ne: "row_text w row \<noteq> []" using p(3) by auto
  show "\<not> isspace (last (row_text w row))" by (rule last_row_text [OF assms(1) p(1,8) ne])
  show "0 \<notin> set (row_text w row)" "10 \<notin> set (row_text w row)"
    using set_row_text [OF assms(1)] m p(6,7) by metis+
  show "hd (row_text w row) \<noteq> cr_comment r" using assms(2) by (simp add: plain_row_def)
  note c = cells_row_text [OF assms(1) p(1,5)]
  have n: "count_fields (cw_delim w) (cw_quote w) (row_text w row) False + 1 = k"
    using length_csv_cells [of "cw_delim w" "cw_quote w" "row_text w row" False] c(1) p(2) by simp
  then show "get_num_fields (row_text w row) (cr_delim r) (cr_quote r) = k"
    using ne by (simp add: get_num_fields_def m)
  have "map str_trim row = row" using p(8) by (simp add: map_idI)
  then show "parse_csv_line True (\<lambda>_. True) k (cr_delim r) (cr_quote r) (row_text w row) = Some (Some row)"
    using parse_chars_cells [of "[]" "row_text w row" "[]" k "cw_delim w" "cw_quote w" False] c p(1,2,4)
    by (simp add: parse_csv_line_def m MAX_FIELD_SIZE_def Let_def)
qed

lemma fgets_line:
  assumes "10 \<notin> set l" "length l \<le> 1022"
  shows "fgets MAX_FIELD_SIZE (l @ 10 # s) = Some (l @ [10], s)"
proof -
  have "fgets_take n (l @ 10 # s) = (l @ [10], s)" if "length l < n" for n
    using that assms(1)
  proof (induction l arbitrary: n)
    case Nil
    then show ?case by (cases n) auto
  next
    case (Cons c l)
    then show ?case by (cases n) auto
  qed
  then show ?thesis using assms(2) by (simp add: fgets_def MAX_FIELD_SIZE_def)
qed

lemma read_line_text:
  assumes "\<not> isspace (last l)" "0 \<notin> set l" "2 \<le> length l"
  shows "read_line (l @ [10]) = Some (Some l)"
proof -
  obtain n where n: "length l = Suc (Suc n)" using assms(3) by (metis add_2_eq_Suc le_Suc_ex)
  then have "l \<noteq> []" by auto
  then have "l ! Suc n = last l" using n by (simp add: last_conv_nth)
  moreover have "isspace 10" by (simp add: isspace_def)
  ultimately have e: "line_end (l @ [10]) (length l) = Suc n"
    using n assms(1) by (simp add: nth_append)
  have "takeWhile (\<lambda>c. c \<noteq> 0) (l @ [10]) = l @ [10]" using assms(2) by (auto simp: takeWhile_eq_all_conv)
  then show ?thesis using e n by (simp add: read_line_def Let_def)
qed

lemma next_row:
  assumes "csv_match w r" "plain_row w r k row"
  shows "fgets MAX_FIELD_SIZE (table_text w (row # rows)) = Some (row_text w row @ [10], table_text w rows)"
    "read_line (row_text w row @ [10]) = Some (Some (row_text w row))" "row_text w row ! 0 \<noteq> cr_comment r"
proof -
  note t = plain_row_text [OF assms]
  have len: "2 \<le> length (row_text w row)" "length (row_text w row) \<le> 1022" using assms(2) by (auto simp: plain_row_def)
  have "cw_newline w = 10" using assms(1) by (simp add: csv_match_def)
  then show "fgets MAX_FIELD_SIZE (table_text w (row # rows)) = Some (row_text w row @ [10], table_text w rows)"
    using fgets_line [OF t(4) len(2)] by (simp add: table_text_def)
  show "read_line (row_text w row @ [10]) = Some (Some (row_text w row))" by (rule read_line_text [OF t(2,3) len(1)])
  show "row_text w row ! 0 \<noteq> cr_comment r" using t(1,5) by (simp add: hd_conv_nth)
qed

lemma parse_table:
  assumes "csv_match w r" "\<forall>row\<in>set rows. plain_row w r k row"
    "length acc + length (if skips r \<and> acc = [] \<and> \<not> hs then tl rows else rows) \<le> cr_num_rows r"
    "skips r \<and> acc = [] \<and> \<not> hs \<longrightarrow> 0 < cr_num_rows r"
  shows "parse_rows (\<lambda>_. True) (\<lambda>_ _. True) r k hs acc (table_text w rows) =
    Some (acc @ (if skips r \<and> acc = [] \<and> \<not> hs then tl rows else rows), True)"
  using assms(2-)
proof (induction rows arbitrary: hs acc)
  case Nil
  then show ?case by (simp add: parse_rows.simps table_text_def fgets_def)
next
  case (Cons row rows)
  have pr: "plain_row w r k row" using Cons.prems(1) by simp
  note n = next_row(1) [OF assms(1) pr, of rows] next_row(2,3) [OF assms(1) pr]
  have room: "length acc < cr_num_rows r" using Cons.prems(2,3) by (auto split: if_splits)
  show ?case
  proof (cases "skips r \<and> acc = [] \<and> \<not> hs")
    case True
    then have "parse_rows (\<lambda>_. True) (\<lambda>_ _. True) r k hs acc (table_text w (row # rows)) =
      parse_rows (\<lambda>_. True) (\<lambda>_ _. True) r k True acc (table_text w rows)"
      using n room by (subst parse_rows.simps) (simp add: skips_def)
    then show ?thesis using Cons.IH [of acc True] Cons.prems True by simp
  next
    case False
    then have "parse_rows (\<lambda>_. True) (\<lambda>_ _. True) r k hs acc (table_text w (row # rows)) =
      parse_rows (\<lambda>_. True) (\<lambda>_ _. True) r k hs (acc @ [row]) (table_text w rows)"
      using n room plain_row_text(7) [OF assms(1) pr] by (subst parse_rows.simps) (auto simp: skips_def)
    then show ?thesis using Cons.IH [of "acc @ [row]" hs] Cons.prems False by auto
  qed
qed

lemma table_lines:
  assumes "csv_match w r" "\<forall>row\<in>set rows. plain_row w r k row"
  shows "file_lines (table_text w rows) = map (row_text w) rows" "filter (data_line r) (map (row_text w) rows) = map (row_text w) rows"
proof -
  have nl: "cw_newline w = 10" using assms(1) by (simp add: csv_match_def)
  show "file_lines (table_text w rows) = map (row_text w) rows"
    using assms(2) by (induction rows) (auto simp: table_text_def nl plain_row_text(4) [OF assms(1)])
  have "data_line r (row_text w row)" if "row \<in> set rows" for row
  proof -
    note t = plain_row_text [OF assms(1) bspec [OF assms(2) that]]
    have "last (row_text w row) \<noteq> 13 \<and> last (row_text w row) \<noteq> 32 \<and> last (row_text w row) \<noteq> 9" using t(2) by (auto simp: isspace_def)
    then show ?thesis using t(1,5) last_in_set [OF t(1)] by (auto simp: data_line_def)
  qed
  then show "filter (data_line r) (map (row_text w) rows) = map (row_text w) rows" by (simp add: filter_id_conv)
qed

section \<open>Properties\<close>

text \<open>(C40) \<^verbatim>\<open>line_count\<close>, which reads the file in blocks of 64 KB and scans them from newline to newline, returns
  the number of lines that are no comments and have a character other than a blank, a tab or a
  carriage return, without the first of them if the header is to be skipped.\<close>

theorem line_count_correct:
  "line_count r file = (let n = length (filter (data_line r) (file_lines file))
     in if cr_has_header r \<and> cr_skip_header r then n - 1 else n)"
  by (simp add: line_count_eq skips_def)

text \<open>(C39) \<^verbatim>\<open>parse_csv_line\<close> on every branch, for a line that fits the line buffer and with memory for all copies.
  Splitting the line at the delimiters outside quotes gives its cells.  If there are more of them than
  the array of fields has entries, the call writes behind the array (a cell whose quote is never
  closed is not stored).  Otherwise it fails if a quote is not closed or cells are missing, and
  returns the trimmed cells if there are as many as expected.\<close>

theorem parse_csv_line_cells:
  assumes "length line < MAX_FIELD_SIZE"
  shows "parse_csv_line True (\<lambda>_. True) num delim quote line =
    (let cs = csv_cells delim quote line False; stored = length cs - (if unclosed quote line False then 1 else 0)
     in if num < stored then None
        else if unclosed quote line False \<or> length cs \<noteq> num then Some None
        else Some (Some (map str_trim cs)))"
proof -
  have "hd (csv_cells delim quote line False) # tl (csv_cells delim quote line False) = csv_cells delim quote line False" by simp
  then show ?thesis
    using parse_chars_cells [of "[]" line "[]" num delim quote False] assms by (simp add: parse_csv_line_def Let_def)
qed

theorem parse_csv_line_cells_witness:
  "parse_csv_line True (\<lambda>_. True) 1 44 34 [97, 44, 98] = None"
  using parse_csv_line_cells [of "[97, 44, 98]" 1 44 34] by (simp add: MAX_FIELD_SIZE_def)

text \<open>(C38) A table written with \<^verbatim>\<open>csvwriter_write_row\<close> and parsed with \<^verbatim>\<open>csv_reader_parse\<close> comes back unchanged, and
  \<^verbatim>\<open>csv_reader_numrows\<close> is the number of rows returned.  The fields may contain delimiters, which the writer
  quotes, but no quotes, newlines or outer white space, all rows have the same number of fields,
  and the text of a row has 2 to 1022 bytes and does not start as a comment.  With a header to
  be skipped the first row is missing.\<close>

theorem csv_write_read_roundtrip:
  assumes "csv_match w r" "rows \<noteq> []" "\<forall>row\<in>set rows. plain_row w r k row"
    and "st_out st = []" "\<not> st_err st" "length (table_text w rows) \<le> st_room st"
  shows "\<exists>st'. csv_write_all w rows st = Some (True, st') \<and>
    csv_reader_parse True (\<lambda>_. True) (\<lambda>_ _. True) r (st_out st') =
      (let rows' = (if cr_has_header r \<and> cr_skip_header r then tl rows else rows)
       in Some (if rows' = [] then None else Some rows', r\<lparr>cr_num_rows := length rows'\<rparr>))"
proof -
  let ?rows = "if skips r then tl rows else rows" and ?file = "table_text w rows"
  have "[] \<notin> set rows" using assms(3) by (auto simp: plain_row_def)
  from csv_write_all_text [OF this assms(5,6)] obtain st' where st: "csv_write_all w rows st = Some (True, st')" "st_out st' = ?file"
    using assms(4) by auto
  note t = table_lines [OF assms(1,3)]
  define r' where "r' = r\<lparr>cr_num_rows := length ?rows\<rparr>"
  have lc: "line_count r ?file = length ?rows" by (simp add: line_count_eq t)
  have sk: "skips r' = skips r" "csv_match w r' = csv_match w r" "plain_row w r' = plain_row w r"
    by (simp_all add: r'_def skips_def csv_match_def plain_row_def fun_eq_iff)
  obtain row rest where rows: "rows = row # rest" using assms(2) by (cases rows) auto
  have pr: "plain_row w r' k row" using assms(3) rows sk by simp
  have m': "csv_match w r'" using assms(1) sk by simp
  note n = next_row(1) [OF m' pr, of rest] next_row(2,3) [OF m' pr]
  have fv: "read_first_valid_line r' ?file = Some (Some (row_text w row))"
    unfolding rows using n by (subst read_first_valid_line.simps) simp
  have nf: "get_num_fields (row_text w row) (cr_delim r') (cr_quote r') = k" by (rule plain_row_text(6) [OF m' pr])
  have k: "0 < k" using pr by (auto simp: plain_row_def)
  have "csv_reader_parse True (\<lambda>_. True) (\<lambda>_ _. True) r ?file = Some (if ?rows = [] then None else Some ?rows, r')"
  proof (cases "?rows = []")
    case True
    then have "cr_num_rows r' = 0" by (simp add: r'_def)
    then show ?thesis using True by (simp add: csv_reader_parse_def lc r'_def parse_setup_def)
  next
    case False
    then have "0 < cr_num_rows r'" by (simp add: r'_def)
    moreover have "parse_rows (\<lambda>_. True) (\<lambda>_ _. True) r' k False [] ?file = Some (?rows, True)"
      using parse_table [OF m', of rows k "[]" False] assms(3) sk False by (simp add: r'_def)
    ultimately show ?thesis
      using False nf k fv by (simp add: csv_reader_parse_def lc r'_def [symmetric] parse_setup_def Let_def)
  qed
  then show ?thesis using st by (simp add: r'_def skips_def Let_def)
qed

definition demo_writer :: csv_writer where
  "demo_writer = \<lparr>cw_delim = 44, cw_quote = 34, cw_newline = 10, cw_quote_all = False, cw_flush = False\<rparr>"

definition demo_reader :: csv_reader where
  "demo_reader = \<lparr>cr_num_rows = 0, cr_delim = 44, cr_quote = 34, cr_comment = 35, cr_has_header = True, cr_skip_header = False\<rparr>"

theorem csv_write_read_roundtrip_witness:
  "\<exists>st'. csv_write_all demo_writer [[[97, 44, 98], [99]], [[100], []]] \<lparr>st_out = [], st_room = 100, st_err = False\<rparr> = Some (True, st') \<and>
    csv_reader_parse True (\<lambda>_. True) (\<lambda>_ _. True) demo_reader (st_out st') =
      Some (Some [[[97, 44, 98], [99]], [[100], []]], demo_reader\<lparr>cr_num_rows := 2\<rparr>)"
proof -
  have m: "csv_match demo_writer demo_reader" by (simp add: csv_match_def demo_writer_def demo_reader_def isspace_def)
  have p: "\<forall>row\<in>set [[[97, 44, 98], [99]], [[100], []]]. plain_row demo_writer demo_reader 2 row"
    by (simp add: plain_row_def row_text_def field_text_def field_needs_quoting_def strchr_def demo_writer_def demo_reader_def
      str_trim_def str_ltrim_def str_rtrim_def isspace_def)
  show ?thesis
    using csv_write_read_roundtrip [OF m _ p, of "\<lparr>st_out = [], st_room = 100, st_err = False\<rparr>"]
    by (simp add: demo_reader_def table_text_def row_text_def field_text_def field_needs_quoting_def strchr_def demo_writer_def numeral_2_eq_2)
qed

text \<open>A line of one character is counted by \<^verbatim>\<open>line_count\<close> but skipped by the parser: the reader reports two
  rows for the file \<^verbatim>\<open>ab\<close>, \<^verbatim>\<open>c\<close> and returns one; the second entry of the array is not initialised.\<close>

theorem csv_short_line_lost:
  "csv_reader_parse True (\<lambda>_. True) (\<lambda>_ _. True) demo_reader [97, 98, 10, 99, 10] =
     Some (Some [[[97, 98]]], demo_reader\<lparr>cr_num_rows := 2\<rparr>)"
proof -
  have f: "file_lines [97, 98, 10, 99, 10] = [[97, 98], [99]]"
    using file_lines_simps(2) [of "[97, 98]" "[99, 10]"] file_lines_simps(2) [of "[99]" "[]"] by simp
  define r where "r = demo_reader\<lparr>cr_num_rows := 2\<rparr>"
  have r: "cr_num_rows r = 2" "cr_comment r = 35" "cr_delim r = 44" "cr_quote r = 34" "\<not> cr_skip_header r"
    by (simp_all add: r_def demo_reader_def)
  have lc: "line_count demo_reader [97, 98, 10, 99, 10] = 2"
    by (simp add: line_count_eq f data_line_def demo_reader_def skips_def)
  have g: "fgets MAX_FIELD_SIZE [97, 98, 10, 99, 10] = Some ([97, 98, 10], [99, 10])" "fgets MAX_FIELD_SIZE [99, 10] = Some ([99, 10], [])"
    "fgets MAX_FIELD_SIZE [] = None"
    using fgets_line [of "[97, 98]" "[99, 10]"] fgets_line [of "[99]" "[]"] by (simp_all add: fgets_def)
  have l: "read_line [97, 98, 10] = Some (Some [97, 98])" "read_line [99, 10] = Some None"
    using read_line_text [of "[97, 98]"] by (simp_all add: isspace_def read_line_def)
  have fv: "read_first_valid_line r [97, 98, 10, 99, 10] = Some (Some [97, 98])"
    using g l r by (subst read_first_valid_line.simps) simp
  have line: "parse_csv_line True (\<lambda>_. True) 1 44 34 [97, 98] = Some (Some [[97, 98]])"
    using parse_chars_cells [of "[]" "[97, 98]" "[]" 1 44 34 False]
    by (simp add: parse_csv_line_def MAX_FIELD_SIZE_def str_trim_def str_ltrim_def str_rtrim_def isspace_def)
  have p3: "parse_rows (\<lambda>_. True) (\<lambda>_ _. True) r 1 False [[[97, 98]]] [] = Some ([[[97, 98]]], True)"
    using g by (subst parse_rows.simps) simp
  have p2: "parse_rows (\<lambda>_. True) (\<lambda>_ _. True) r 1 False [[[97, 98]]] [99, 10] = Some ([[[97, 98]]], True)"
    using g l r p3 by (subst parse_rows.simps) simp
  have "parse_rows (\<lambda>_. True) (\<lambda>_ _. True) r 1 False [] [97, 98, 10, 99, 10] = Some ([[[97, 98]]], True)"
    using g l r p2 line by (subst parse_rows.simps) simp
  then show ?thesis
    using fv r by (simp add: csv_reader_parse_def lc r_def [symmetric] parse_setup_def get_num_fields_def)
qed

end
