(* ===== verification/Spec2Isabelle.thy ===== *)
theory Spec2Isabelle
  imports Dynarray Hash_Map_Theorems Hash_Set_Theorems Cstr_Theorems Utf8_Theorems Strsim_Theorems
    Slist_Correct Trie_Theorems Cache_Theorems Arena_Theorems Csv_Theorems
begin

text \<open>
  Verification of solidc, a library of containers, text functions and systems utilities in C.

  \<^bold>\<open>The program.\<close>  Solidc is a set of modules with little coupling; a client links the ones it needs.
  The containers are the dynamic array (\<^verbatim>\<open>src/dynarray.c\<close>), the Robin Hood hash map
  (\<^verbatim>\<open>src/map.c\<close>), the hash set (\<^verbatim>\<open>include/hashset.h\<close>), the linked lists (\<^verbatim>\<open>src/list.c\<close>,
  \<^verbatim>\<open>src/slist.c\<close>) and the trie (\<^verbatim>\<open>src/trie.c\<close>).  Text is handled by the small-string-optimised
  string (\<^verbatim>\<open>src/cstr.c\<close>), the Unicode functions (\<^verbatim>\<open>src/unicode.c\<close>), the similarity measures
  (\<^verbatim>\<open>src/strsim.c\<close>) and the CSV reader and writer (\<^verbatim>\<open>src/csvparser.c\<close>).  The concurrent cache
  (\<^verbatim>\<open>src/cache.c\<close>) protects each of its shards by the reader-writer spinlock of \<^verbatim>\<open>include/spinlock.h\<close>.  The arena allocator (\<^verbatim>\<open>src/arena.c\<close>) serves
  modules that free everything at once, among them the completion of the trie.

  \<^bold>\<open>Conventions.\<close>  A C structure is a record with the field names of the source behind a short
  prefix.  The outer \<open>option\<close> of a result is \<open>None\<close> where the code has undefined behaviour (an
  access outside an object or to a byte never written, an overlapping \<^verbatim>\<open>memcpy\<close>, a freed object,
  signed overflow, a node that an error path leaves damaged) or where a loop never ends; so a theorem with the result \<open>Some r\<close> says that the
  code is memory safe and returns.  A NULL result inside it is again \<open>None\<close>.  What the environment
  decides is an argument: the outcome of an allocation, the clock, a floating-point function, a
  callback, a wide-character classification.  \<^verbatim>\<open>size_t\<close> is \<^verbatim>\<open>64 word\<close> where wrap-around matters and
  a natural number with the bound written out where an invariant keeps it small.

  \<^bold>\<open>Shared theories.\<close>
  \<^item> \<open>Prelude\<close>: the types of C, lemma collections, buffers of byte cells with \<^verbatim>\<open>memcpy\<close>.
  \<^item> \<open>Byte_Strings\<close>: C strings, and the reference definitions for search, split, join, replace.
  \<^item> \<open>Probe_Ring\<close>: powers of two, masks and probe distances of the open-addressed tables.
  \<^item> \<open>Tombstone_Table\<close>: open addressing with tombstones against a partial map.
  \<^item> \<open>Sequence_Spec\<close>: the locale \<open>sequence\<close>, interpreted by the dynamic array (\<open>da\<close>).
  \<^item> \<open>Dictionary_Spec\<close>: the locale \<open>dictionary\<close>, interpreted by the hash map (\<open>hmap\<close>) and the hash
    set (\<open>hset\<close>).
  \<^item> \<open>Text_Spec\<close>: runs of edits and their replay on the abstract value (\<open>buffer_runs\<close>), and three
    contracts over it.  \<open>text_buffer\<close>: every edit is defined and has its effect or fails without one;
    interpreted by the string (\<open>ctext\<close>), the Unicode string (\<open>utext\<close>) and the trie when allocations fail
    together (\<open>sane_words\<close>).  \<open>sound_buffer\<close>: the same for the edits that are defined; a sublocale of the
    first, interpreted by the trie with any allocation outcome (\<open>words\<close>).  \<open>bounded_buffer\<close>: the
    same for contents up to a size; interpreted by the two lists (\<open>dlist\<close>, \<open>slst\<close>).
  \<^item> \<open>Transition_Spec\<close>: the locales \<open>transition_system\<close> and \<open>invariant_system\<close> for interleaved
    execution, interpreted by the spinlock (\<open>slock\<close>), the cache (\<open>csys\<close>) and
    the arena with its client (\<open>asys\<close>).

  \<^bold>\<open>Components.\<close>
  \<^item> \<open>Dynarray\<close>: every operation on the byte buffer with 64-bit sizes; pushes append or change nothing,
    growth either makes room or fails, push and pop round trip.
  \<^item> \<open>Hash_Map\<close>, \<open>Hash_Map_Correct\<close>, \<open>Hash_Map_Theorems\<close>: insertion by displacement, growth, removal
    by backward shift, iteration, destruction, the locked wrappers.  The probe-distance
    invariant makes lookup exact; any sequence of operations with keys of one length refines a
    partial map, and a computation shows that growth loses keys when the lengths differ.
  \<^item> \<open>Hash_Set\<close>, \<open>Hash_Set_Correct\<close>, \<open>Hash_Set_Theorems\<close>: linear probing with metadata bytes, the
    removal with two cursors, the set algebra, and when the capacity loop ends.
  \<^item> \<open>Cstr\<close> (representation and editing), \<open>Cstr_Search\<close> (search, replace, split, join, compare),
    \<open>Cstr_Inplace\<close> (compaction, case conversion, trimming, reversal), \<open>Cstr_Correct\<close> (the invariant
    \<open>holds\<close>) and \<open>Cstr_Theorems\<close>: every operation stays inside the block and has the effect of its
    reference definition, or fails without one.
  \<^item> \<open>Utf8_Codec\<close>, \<open>Utf8_String\<close>, \<open>Utf8_Text\<close>, \<open>Utf8_Correct\<close>, \<open>Utf8_Theorems\<close>: the codec and its round
    trip, validation against the set of encodings of scalar values, the string object as a
    sequence of code points, and what the construction, case and reversal functions do.
  \<^item> \<open>Strsim\<close>, \<open>Strsim_Distance\<close>, \<open>Strsim_Similarity\<close>, \<open>Strsim_Theorems\<close>: the two-row and the
    full-matrix dynamic programs against minimal edit sequences; matching windows, transposition
    counts and frequency tables against multisets.
  \<^item> \<open>Linked_List\<close>, \<open>Linked_List_Correct\<close>, \<open>Slist\<close>, \<open>Slist_Correct\<close>: nodes on an explicit heap; every
    operation refines an edit of a list, leaks nothing and leaves other nodes alone.  Lookups
    compare the bytes of the elements (the headers promise pointer equality) and return an \<^verbatim>\<open>int\<close>, so
    the lists are bounded by \<open>2 ^ 31\<close> elements.  The position of \<^verbatim>\<open>slist_insert_before\<close>, which is not the
    documented one, has a theorem of its own.
  \<^item> \<open>Trie\<close>, \<open>Trie_Correct\<close>, \<open>Trie_Theorems\<close>: sorted child arrays with 8-bit counters; insertion and
    deletion refine a map from words to frequencies as long as no failed allocation damages a node,
    which outcomes do is characterised, and completion enumerates the map in order, for limits whose
    array size does not wrap.
  \<^item> \<open>Spinlock\<close>: the lock as steps between atomic accesses of any number of threads; mutual
    exclusion, and that a waiting thread can always be let in.
  \<^item> \<open>Cache\<close> (tables, eviction, reference counts), \<open>Cache_Correct\<close> (a shard as a table with
    tombstones), \<open>Cache_Evict\<close> (heap and CLOCK hand), \<open>Cache_Ops\<close> (the whole cache),
    \<open>Cache_System\<close> (interleaved critical sections and handles), \<open>Cache_File\<close>,
    \<open>Cache_File_Correct\<close> (the file format, and what a load leaves in the cache when every store reads
    the clock itself) and \<open>Cache_Theorems\<close>: coherence, validity of handles, second chance, and the
    round trip through a file.
  \<^item> \<open>Arena\<close> (addresses, blocks, all operations), \<open>Arena_Correct\<close> (the chain of blocks and the
    addresses handed out), \<open>Arena_Client\<close> (a client with its regions and checkpoints) and
    \<open>Arena_Theorems\<close>: regions are disjoint, allocated and aligned and keep their contents, resizing
    keeps the common prefix, and destroying gives the heap of the system back as it was before the
    creation, the structure and an own first block included; and what goes wrong after a reset
    and with sizes near \<^verbatim>\<open>SIZE_MAX\<close>.
  \<^item> \<open>Csv\<close>, \<open>Csv_Correct\<close>, \<open>Csv_Theorems\<close> (\<^verbatim>\<open>src/csvparser.c\<close>): the reader on the bytes of a file and the
    writer on a stream that may fail; lines and cells against reference definitions, and the
    round trip of a table.

  \<^bold>\<open>Loops and bounds.\<close>  Loops that count are structural or have a measure.  The probe loops of the
  tables take the capacity as the number of remaining rounds, which is all an open-addressed table
  has; the invariants (a free slot exists, distances are below the capacity) show that they
  stop earlier, and a loop that would run on is \<open>None\<close>.  The capacity loop of \<^verbatim>\<open>hashset_create\<close>
  has 64 rounds: after 64 doublings the word is 0 and stays 0, so exactly the requests above
  \<open>2 ^ 63\<close> never return.  Theorems about strings are bounded by the 32-bit length and the
  64-bit allocation sizes where the code computes with them; the bounds are hypotheses.  The
  walks over the blocks of an arena may not end on a cyclic chain and are partial functions; on the
  chains the arena builds they are shown to return.

  \<^bold>\<open>Not modelled.\<close>  xxHash and PCRE2 are third-party code; the hash map has the hash function as an
  argument.  The modules that wrap the operating system (files, paths, processes, sockets,
  threads, terminals, time) consist of calls whose effect is outside the program.  The vector and
  matrix headers are floating-point intrinsics.  Memory orders are left out: atomic accesses of
  the spinlock are sequentially consistent, and a critical section of the cache is one step; the
  unlocked read for a prefetch in front of it is left out.  The allocator of the hash set is asked
  for a capacity, so the byte count \<^verbatim>\<open>cap * key_size\<close> is taken not to wrap.
\<close>

end
